(* ===== verification/Prelude.thy ===== *)
theory Prelude
  imports Main "HOL-Library.Word"
begin

text \<open>
  What the components share: names for the C integer types, the little-endian byte
  access of include/fcall.h, C strings, and the generic facts about them that the
  component proofs rest on. The facts about reading back what was written are collected
  in \<open>bytes_simps\<close>.
\<close>

unbundle bit_operations_syntax

named_theorems bytes_simps \<open>reading back bytes that were written\<close>

section \<open>C types\<close>

type_synonym u8 = "8 word"
type_synonym u16 = "16 word"
type_synonym u32 = "32 word"
type_synonym u64 = "64 word"

text \<open>
  A byte buffer is a list of bytes. A C string is the list of the bytes before its NUL,
  and a \<open>char*\<close> that may be \<open>nil\<close> is an option of one.
\<close>

type_synonym bytes = "u8 list"
type_synonym cstr = "u8 list option"

definition is_cstr :: "bytes \<Rightarrow> bool" where
  "is_cstr s \<longleftrightarrow> (0::u8) \<notin> set s"

text \<open>The C string that starts at the head of a byte list: the bytes before the first NUL.\<close>

definition cstr_at :: "bytes \<Rightarrow> bytes" where
  "cstr_at bs = takeWhile (\<lambda>b. b \<noteq> 0) bs"

lemma cstr_at_is_cstr [simp]: "is_cstr (cstr_at bs)"
  unfolding is_cstr_def cstr_at_def
  by (metis (mono_tags, lifting) set_takeWhileD)

lemma cstr_at_id [simp]: "is_cstr s \<Longrightarrow> cstr_at s = s"
  unfolding is_cstr_def cstr_at_def
  by (auto simp: takeWhile_eq_all_conv)

lemma cstr_at_Nil [simp]: "cstr_at [] = []"
  by (simp add: cstr_at_def)

lemma length_cstr_at: "length (cstr_at bs) \<le> length bs"
  by (simp add: cstr_at_def length_takeWhile_le)

definition strlen :: "bytes \<Rightarrow> nat" where
  "strlen s = length s"

section \<open>Little-endian integers (the PBIT and GBIT macros of include/fcall.h)\<close>

definition PBIT16 :: "u16 \<Rightarrow> bytes" where
  "PBIT16 v = [ucast v, ucast (drop_bit 8 v)]"

definition PBIT32 :: "u32 \<Rightarrow> bytes" where
  "PBIT32 v = [ucast v, ucast (drop_bit 8 v), ucast (drop_bit 16 v), ucast (drop_bit 24 v)]"

definition PBIT64 :: "u64 \<Rightarrow> bytes" where
  "PBIT64 v = [ucast v, ucast (drop_bit 8 v), ucast (drop_bit 16 v), ucast (drop_bit 24 v),
     ucast (drop_bit 32 v), ucast (drop_bit 40 v), ucast (drop_bit 48 v), ucast (drop_bit 56 v)]"

text \<open>
  The readers take the buffer from the pointer on and give \<open>None\<close> where it holds too few
  bytes: the C macro would read past its end.
\<close>

fun GBIT8 :: "bytes \<Rightarrow> u8 option" where
  "GBIT8 (a # _) = Some a"
| "GBIT8 _ = None"

fun GBIT16 :: "bytes \<Rightarrow> u16 option" where
  "GBIT16 (a # b # _) = Some (ucast a OR push_bit 8 (ucast b))"
| "GBIT16 _ = None"

fun GBIT32 :: "bytes \<Rightarrow> u32 option" where
  "GBIT32 (a # b # c # d # _) =
     Some (ucast a OR push_bit 8 (ucast b) OR push_bit 16 (ucast c) OR push_bit 24 (ucast d))"
| "GBIT32 _ = None"

fun GBIT64 :: "bytes \<Rightarrow> u64 option" where
  "GBIT64 (a # b # c # d # e # f # g # h # _) =
     Some ((ucast a OR push_bit 8 (ucast b) OR push_bit 16 (ucast c) OR push_bit 24 (ucast d)) OR
       push_bit 32 (ucast e OR push_bit 8 (ucast f) OR push_bit 16 (ucast g) OR push_bit 24 (ucast h)))"
| "GBIT64 _ = None"

lemma length_PBIT [simp]:
  "length (PBIT16 v) = 2" "length (PBIT32 w) = 4" "length (PBIT64 x) = 8"
  by (simp_all add: PBIT16_def PBIT32_def PBIT64_def)

text \<open>
  Joining the bytes of a word again: each reader ors together the take_bit pieces that the
  writer cut, lowest first.
\<close>

lemma take_bit_join:
  "take_bit m v OR push_bit m (take_bit n (drop_bit m v)) = take_bit (m + n) (v :: 'a::len word)"
  by (rule bit_word_eqI) (auto simp: bit_simps)

lemma byte_piece16: "ucast (ucast (v :: u16) :: u8) = (take_bit 8 v :: u16)"
  by (rule bit_word_eqI) (auto simp: bit_simps)

lemma byte_piece32: "ucast (ucast (v :: u32) :: u8) = (take_bit 8 v :: u32)"
  by (rule bit_word_eqI) (auto simp: bit_simps)

lemma byte_piece64:
  "ucast (ucast (v :: u64) :: u8) = (take_bit 8 v :: u64)"
  by (rule bit_word_eqI) (auto simp: bit_simps)

lemma GBIT16_PBIT16 [bytes_simps]: "GBIT16 (PBIT16 v @ r) = Some v"
proof -
  have "take_bit 8 v OR push_bit 8 (take_bit 8 (drop_bit 8 v)) = v"
    by (simp add: take_bit_join take_bit_word_eq_self)
  then show ?thesis by (simp add: PBIT16_def byte_piece16)
qed

lemma join32:
  "take_bit 8 v OR push_bit 8 (take_bit 8 (drop_bit 8 v)) OR
     push_bit 16 (take_bit 8 (drop_bit 16 v)) OR push_bit 24 (take_bit 8 (drop_bit 24 v)) =
   take_bit 32 (v :: 'a::len word)"
proof -
  have "take_bit 8 v OR push_bit 8 (take_bit 8 (drop_bit 8 v)) = take_bit 16 v"
    by (simp add: take_bit_join)
  moreover have "take_bit 16 v OR push_bit 16 (take_bit 8 (drop_bit 16 v)) = take_bit 24 v"
    by (simp add: take_bit_join)
  moreover have "take_bit 24 v OR push_bit 24 (take_bit 8 (drop_bit 24 v)) = take_bit 32 v"
    by (simp add: take_bit_join)
  ultimately show ?thesis by (simp only: or.assoc [symmetric])
qed

lemma GBIT32_PBIT32 [bytes_simps]: "GBIT32 (PBIT32 v @ r) = Some v"
  using join32 [of v] by (simp add: PBIT32_def byte_piece32 take_bit_word_eq_self)

lemma GBIT64_PBIT64 [bytes_simps]: "GBIT64 (PBIT64 v @ r) = Some v"
proof -
  let ?hi = "drop_bit 32 v"
  have lo: "take_bit 8 v OR push_bit 8 (take_bit 8 (drop_bit 8 v)) OR
      push_bit 16 (take_bit 8 (drop_bit 16 v)) OR push_bit 24 (take_bit 8 (drop_bit 24 v)) =
      take_bit 32 v"
    by (rule join32)
  have hi: "take_bit 8 ?hi OR push_bit 8 (take_bit 8 (drop_bit 40 v)) OR
      push_bit 16 (take_bit 8 (drop_bit 48 v)) OR push_bit 24 (take_bit 8 (drop_bit 56 v)) =
      take_bit 32 ?hi"
    using join32 [of ?hi] by simp
  have "take_bit 32 v OR push_bit 32 (take_bit 32 ?hi) = v"
    by (simp add: take_bit_join take_bit_word_eq_self)
  then show ?thesis
    unfolding PBIT64_def by (simp only: append.simps GBIT64.simps byte_piece64 lo hi)
qed

text \<open>And the other way round: writing what was read gives the same bytes.\<close>

lemma not_bit_u8: "8 \<le> n \<Longrightarrow> \<not> bit (a :: u8) n"
  using bit_imp_le_length [of a n] by auto

lemma PBIT16_bytes: "PBIT16 (ucast a OR push_bit 8 (ucast b)) = [a, b]"
  unfolding PBIT16_def by (auto intro!: bit_word_eqI simp: bit_simps not_bit_u8)

lemma unat_u32_bound: "unat (x :: u32) < 4294967296"
  using unsigned_less [of x] by simp

lemma PBIT32_bytes:
  "PBIT32 (ucast a OR push_bit 8 (ucast b) OR push_bit 16 (ucast c) OR push_bit 24 (ucast d)) =
   [a, b, c, d]"
  unfolding PBIT32_def by (auto intro!: bit_word_eqI simp: bit_simps not_bit_u8)

end
