(* ===== verification/Wire9P.thy ===== *)
theory Wire9P
  imports Prelude "HOL-Library.Monad_Syntax"
begin

text \<open>
  The 9P2000 message codec: the structure Fcall and the message types of include/fcall.h, the
  encoder of lib9/convS2M.c (\<open>sizeS2M\<close>, \<open>convS2M\<close>) and the decoder of lib9/convM2S.c
  (\<open>convM2S\<close>). The copies under libkern are the same text.

  A write past the end of the output buffer and a read past the end of an argument are results
  of their own (\<open>Overrun\<close>, \<open>Oob_read\<close>), so that a theorem about a normal result also says
  that neither happened. Sizes are the code's 32-bit unsigned integers, with their wrap-around.
\<close>

unbundle bit_operations_syntax

section \<open>Data\<close>

record qid =
  q_path :: u64
  q_vers :: u32
  q_type :: u8

text \<open>The pointers \<open>data\<close> and \<open>stat\<close> are the bytes from the pointer on.\<close>

record fcall =
  f_type :: u8
  f_fid :: u32
  f_tag :: u16
  f_msize :: u32
  f_version :: cstr
  f_oldtag :: u16
  f_ename :: cstr
  f_qid :: qid
  f_iounit :: u32
  f_aqid :: qid
  f_afid :: u32
  f_uname :: cstr
  f_aname :: cstr
  f_perm :: u32
  f_name :: cstr
  f_mode :: u8
  f_newfid :: u32
  f_nwname :: u16
  f_wname :: "cstr list"
  f_nwqid :: u16
  f_wqid :: "qid list"
  f_offset :: u64
  f_count :: u32
  f_data :: bytes
  f_nstat :: u16
  f_stat :: bytes

datatype msgtype =
    Tversion | Rversion | Tauth | Rauth | Tattach | Rattach | Rerror | Tflush | Rflush
  | Twalk | Rwalk | Topen | Ropen | Tcreate | Rcreate | Tread | Rread | Twrite | Rwrite
  | Tclunk | Rclunk | Tremove | Rremove | Tstat | Rstat | Twstat | Rwstat

text \<open>
  The numbers of the enum. \<open>Terror\<close> (106) has no \<open>case\<close> in any switch, so it is like
  any number outside the enum: \<open>None\<close>, the default branch.
\<close>

definition msgtype_of :: "u8 \<Rightarrow> msgtype option" where
  "msgtype_of t =
     (if t = 100 then Some Tversion else if t = 101 then Some Rversion
      else if t = 102 then Some Tauth else if t = 103 then Some Rauth
      else if t = 104 then Some Tattach else if t = 105 then Some Rattach
      else if t = 107 then Some Rerror
      else if t = 108 then Some Tflush else if t = 109 then Some Rflush
      else if t = 110 then Some Twalk else if t = 111 then Some Rwalk
      else if t = 112 then Some Topen else if t = 113 then Some Ropen
      else if t = 114 then Some Tcreate else if t = 115 then Some Rcreate
      else if t = 116 then Some Tread else if t = 117 then Some Rread
      else if t = 118 then Some Twrite else if t = 119 then Some Rwrite
      else if t = 120 then Some Tclunk else if t = 121 then Some Rclunk
      else if t = 122 then Some Tremove else if t = 123 then Some Rremove
      else if t = 124 then Some Tstat else if t = 125 then Some Rstat
      else if t = 126 then Some Twstat else if t = 127 then Some Rwstat
      else None)"

definition MAXWELEM :: nat where
  "MAXWELEM = 16"

definition QIDSZ :: u32 where
  "QIDSZ = 1 + 4 + 8"

section \<open>The encoder\<close>

definition pstring :: "cstr \<Rightarrow> bytes" where
  "pstring s = (case s of None \<Rightarrow> PBIT16 0 | Some t \<Rightarrow> PBIT16 (of_nat (strlen t)) @ t)"

definition pqid :: "qid \<Rightarrow> bytes" where
  "pqid q = q_type q # PBIT32 (q_vers q) @ PBIT64 (q_path q)"

definition stringsz :: "cstr \<Rightarrow> u32" where
  "stringsz s = (case s of None \<Rightarrow> 2 | Some t \<Rightarrow> 2 + of_nat (strlen t))"

text \<open>
  \<open>sizeS2M\<close>: \<open>None\<close> where the loop over \<open>wname\<close> runs past the array, which it does
  before anything has compared \<open>nwname\<close> with \<open>MAXWELEM\<close>.
\<close>

definition wname_size :: "fcall \<Rightarrow> u32 option" where
  "wname_size f =
     (if unat (f_nwname f) \<le> length (f_wname f)
      then Some (sum_list (map stringsz (take (unat (f_nwname f)) (f_wname f))))
      else None)"

definition sizeS2M :: "fcall \<Rightarrow> u32 option" where
  "sizeS2M f =
     (let n = 4 + 1 + 2 in
      case msgtype_of (f_type f) of
        None \<Rightarrow> Some 0
      | Some t \<Rightarrow>
         (case t of
            Tversion \<Rightarrow> Some (n + 4 + stringsz (f_version f))
          | Tflush \<Rightarrow> Some (n + 2)
          | Tauth \<Rightarrow> Some (n + 4 + stringsz (f_uname f) + stringsz (f_aname f))
          | Tattach \<Rightarrow> Some (n + 4 + 4 + stringsz (f_uname f) + stringsz (f_aname f))
          | Twalk \<Rightarrow> map_option (\<lambda>w. n + 4 + 4 + 2 + w) (wname_size f)
          | Topen \<Rightarrow> Some (n + 4 + 1)
          | Tcreate \<Rightarrow> Some (n + 4 + stringsz (f_name f) + 4 + 1)
          | Tread \<Rightarrow> Some (n + 4 + 8 + 4)
          | Twrite \<Rightarrow> Some (n + 4 + 8 + 4 + f_count f)
          | Tclunk \<Rightarrow> Some (n + 4)
          | Tremove \<Rightarrow> Some (n + 4)
          | Tstat \<Rightarrow> Some (n + 4)
          | Twstat \<Rightarrow> Some (n + 4 + 2 + ucast (f_nstat f))
          | Rversion \<Rightarrow> Some (n + 4 + stringsz (f_version f))
          | Rerror \<Rightarrow> Some (n + stringsz (f_ename f))
          | Rflush \<Rightarrow> Some n
          | Rauth \<Rightarrow> Some (n + QIDSZ)
          | Rattach \<Rightarrow> Some (n + QIDSZ)
          | Rwalk \<Rightarrow> Some (n + 2 + ucast (f_nwqid f) * QIDSZ)
          | Ropen \<Rightarrow> Some (n + QIDSZ + 4)
          | Rcreate \<Rightarrow> Some (n + QIDSZ + 4)
          | Rread \<Rightarrow> Some (n + 4 + f_count f)
          | Rwrite \<Rightarrow> Some (n + 4)
          | Rclunk \<Rightarrow> Some n
          | Rremove \<Rightarrow> Some n
          | Rstat \<Rightarrow> Some (n + 2 + ucast (f_nstat f))
          | Rwstat \<Rightarrow> Some n))"

text \<open>
  What one branch of the switch of \<open>convS2M\<close> does after the header: store these bytes and
  go on, store these and \<open>return 0\<close>, or read past an argument.
\<close>

datatype enc = Cont bytes | Stop bytes | Past

definition ptake :: "nat \<Rightarrow> bytes \<Rightarrow> (bytes \<Rightarrow> enc) \<Rightarrow> enc" where
  "ptake n bs k = (if n \<le> length bs then k (take n bs) else Past)"

fun bodyS2M :: "msgtype \<Rightarrow> fcall \<Rightarrow> enc" where
  "bodyS2M Tversion f = Cont (PBIT32 (f_msize f) @ pstring (f_version f))"
| "bodyS2M Tflush f = Cont (PBIT16 (f_oldtag f))"
| "bodyS2M Tauth f = Cont (PBIT32 (f_afid f) @ pstring (f_uname f) @ pstring (f_aname f))"
| "bodyS2M Tattach f =
     Cont (PBIT32 (f_fid f) @ PBIT32 (f_afid f) @ pstring (f_uname f) @ pstring (f_aname f))"
| "bodyS2M Twalk f =
     (let p = PBIT32 (f_fid f) @ PBIT32 (f_newfid f) @ PBIT16 (f_nwname f) in
      if unat (f_nwname f) > MAXWELEM then Stop p
      else if unat (f_nwname f) \<le> length (f_wname f)
        then Cont (p @ concat (map pstring (take (unat (f_nwname f)) (f_wname f))))
        else Past)"
| "bodyS2M Topen f = Cont (PBIT32 (f_fid f) @ [f_mode f])"
| "bodyS2M Tcreate f =
     Cont (PBIT32 (f_fid f) @ pstring (f_name f) @ PBIT32 (f_perm f) @ [f_mode f])"
| "bodyS2M Tread f =
     Cont (PBIT32 (f_fid f) @ PBIT64 (f_offset f) @ PBIT32 (f_count f))"
| "bodyS2M Twrite f =
     ptake (unat (f_count f)) (f_data f)
       (\<lambda>d. Cont (PBIT32 (f_fid f) @ PBIT64 (f_offset f) @ PBIT32 (f_count f) @ d))"
| "bodyS2M Tclunk f = Cont (PBIT32 (f_fid f))"
| "bodyS2M Tremove f = Cont (PBIT32 (f_fid f))"
| "bodyS2M Tstat f = Cont (PBIT32 (f_fid f))"
| "bodyS2M Twstat f =
     ptake (unat (f_nstat f)) (f_stat f)
       (\<lambda>d. Cont (PBIT32 (f_fid f) @ PBIT16 (f_nstat f) @ d))"
| "bodyS2M Rversion f = Cont (PBIT32 (f_msize f) @ pstring (f_version f))"
| "bodyS2M Rerror f = Cont (pstring (f_ename f))"
| "bodyS2M Rflush f = Cont []"
| "bodyS2M Rauth f = Cont (pqid (f_aqid f))"
| "bodyS2M Rattach f = Cont (pqid (f_qid f))"
| "bodyS2M Rwalk f =
     (if unat (f_nwqid f) > MAXWELEM then Stop (PBIT16 (f_nwqid f))
      else if unat (f_nwqid f) \<le> length (f_wqid f)
        then Cont (PBIT16 (f_nwqid f) @ concat (map pqid (take (unat (f_nwqid f)) (f_wqid f))))
        else Past)"
| "bodyS2M Ropen f = Cont (pqid (f_qid f) @ PBIT32 (f_iounit f))"
| "bodyS2M Rcreate f = Cont (pqid (f_qid f) @ PBIT32 (f_iounit f))"
| "bodyS2M Rread f =
     ptake (unat (f_count f)) (f_data f) (\<lambda>d. Cont (PBIT32 (f_count f) @ d))"
| "bodyS2M Rwrite f = Cont (PBIT32 (f_count f))"
| "bodyS2M Rclunk f = Cont []"
| "bodyS2M Rremove f = Cont []"
| "bodyS2M Rstat f =
     ptake (unat (f_nstat f)) (f_stat f) (\<lambda>d. Cont (PBIT16 (f_nstat f) @ d))"
| "bodyS2M Rwstat f = Cont []"

text \<open>The value returned and the bytes stored at \<open>ap\<close>, or how it went out of bounds.\<close>

datatype s2m = Ret u32 bytes | Oob_read | Overrun

definition stored :: "u32 \<Rightarrow> bytes \<Rightarrow> u32 \<Rightarrow> s2m" where
  "stored nap bs r = (if length bs \<le> unat nap then Ret r bs else Overrun)"

definition convS2M :: "fcall \<Rightarrow> u32 \<Rightarrow> s2m" where
  "convS2M f nap =
     (case sizeS2M f of
        None \<Rightarrow> Oob_read
      | Some sz \<Rightarrow>
         if sz = 0 then Ret 0 []
         else if sz > nap then Ret 0 []
         else
           (let hdr = PBIT32 sz @ [f_type f] @ PBIT16 (f_tag f) in
            case msgtype_of (f_type f) of
              None \<Rightarrow> stored nap hdr 0
            | Some t \<Rightarrow>
               (case bodyS2M t f of
                  Past \<Rightarrow> Oob_read
                | Stop p \<Rightarrow> stored nap (hdr @ p) 0
                | Cont p \<Rightarrow>
                    if unat sz \<noteq> length (hdr @ p) then stored nap (hdr @ p) 0
                    else stored nap (hdr @ p) sz)))"

section \<open>The decoder\<close>

text \<open>
  A position \<open>p\<close> in the message is the list of the bytes from \<open>p\<close> to \<open>ep\<close>. The readers give
  the value and the position after it, \<open>None\<close> where the code's bound check fails.
\<close>

definition rd8 :: "bytes \<Rightarrow> (u8 \<times> bytes) option" where
  "rd8 p = (if length p < 1 then None else map_option (\<lambda>v. (v, drop 1 p)) (GBIT8 p))"

definition rd16 :: "bytes \<Rightarrow> (u16 \<times> bytes) option" where
  "rd16 p = (if length p < 2 then None else map_option (\<lambda>v. (v, drop 2 p)) (GBIT16 p))"

definition rd32 :: "bytes \<Rightarrow> (u32 \<times> bytes) option" where
  "rd32 p = (if length p < 4 then None else map_option (\<lambda>v. (v, drop 4 p)) (GBIT32 p))"

definition rd64 :: "bytes \<Rightarrow> (u64 \<times> bytes) option" where
  "rd64 p = (if length p < 8 then None else map_option (\<lambda>v. (v, drop 8 p)) (GBIT64 p))"

text \<open>A counted run of bytes in place: \<open>if(p+n > ep) return 0; x = p; p += n\<close>.\<close>

definition rdbytes :: "nat \<Rightarrow> bytes \<Rightarrow> (bytes \<times> bytes) option" where
  "rdbytes n p = (if length p < n then None else Some (take n p, drop n p))"

text \<open>
  \<open>gstring\<close> moves the bytes down over their count to make room for the NUL, all within what
  it has consumed, so no later read sees the move. The result is read as a C string: it ends
  at the first NUL.
\<close>

definition gstring :: "bytes \<Rightarrow> (cstr \<times> bytes) option" where
  "gstring p = do {
     (n, p) \<leftarrow> rd16 p;
     if length p < unat n then None
     else Some (Some (cstr_at (take (unat n) p)), drop (unat n) p) }"

definition gqid :: "bytes \<Rightarrow> (qid \<times> bytes) option" where
  "gqid p = do {
     (t, p) \<leftarrow> rd8 p;
     (v, p) \<leftarrow> rd32 p;
     (w, p) \<leftarrow> rd64 p;
     Some (\<lparr>q_path = w, q_vers = v, q_type = t\<rparr>, p) }"

fun repeatM :: "nat \<Rightarrow> (bytes \<Rightarrow> ('a \<times> bytes) option) \<Rightarrow> bytes \<Rightarrow> ('a list \<times> bytes) option" where
  "repeatM 0 g p = Some ([], p)"
| "repeatM (Suc n) g p =
     (case g p of
        None \<Rightarrow> None
      | Some (x, p') \<Rightarrow> map_option (\<lambda>(xs, q). (x # xs, q)) (repeatM n g p'))"

text \<open>The first \<open>n\<close> elements of a fixed-size array are assigned, the rest keeps its value.\<close>

definition assign_prefix :: "'a list \<Rightarrow> 'a list \<Rightarrow> 'a list" where
  "assign_prefix xs old = xs @ drop (length xs) old"

fun bodyM2S :: "msgtype \<Rightarrow> bytes \<Rightarrow> fcall \<Rightarrow> (fcall \<times> bytes) option" where
  "bodyM2S Tversion p f = do {
     (v, p) \<leftarrow> rd32 p; (s, p) \<leftarrow> gstring p; Some (f\<lparr>f_msize := v, f_version := s\<rparr>, p) }"
| "bodyM2S Tflush p f = do { (v, p) \<leftarrow> rd16 p; Some (f\<lparr>f_oldtag := v\<rparr>, p) }"
| "bodyM2S Tauth p f = do {
     (v, p) \<leftarrow> rd32 p; (u, p) \<leftarrow> gstring p; (a, p) \<leftarrow> gstring p;
     Some (f\<lparr>f_afid := v, f_uname := u, f_aname := a\<rparr>, p) }"
| "bodyM2S Tattach p f = do {
     (v, p) \<leftarrow> rd32 p; (w, p) \<leftarrow> rd32 p; (u, p) \<leftarrow> gstring p; (a, p) \<leftarrow> gstring p;
     Some (f\<lparr>f_fid := v, f_afid := w, f_uname := u, f_aname := a\<rparr>, p) }"
| "bodyM2S Twalk p f = do {
     (v, p) \<leftarrow> rd32 p; (w, p) \<leftarrow> rd32 p; (n, p) \<leftarrow> rd16 p;
     if unat n > MAXWELEM then None
     else do {
       (ns, p) \<leftarrow> repeatM (unat n) gstring p;
       Some (f\<lparr>f_fid := v, f_newfid := w, f_nwname := n,
                  f_wname := assign_prefix ns (f_wname f)\<rparr>, p) } }"
| "bodyM2S Topen p f = do {
     (v, p) \<leftarrow> rd32 p; (m, p) \<leftarrow> rd8 p; Some (f\<lparr>f_fid := v, f_mode := m\<rparr>, p) }"
| "bodyM2S Tcreate p f = do {
     (v, p) \<leftarrow> rd32 p; (s, p) \<leftarrow> gstring p; (w, p) \<leftarrow> rd32 p; (m, p) \<leftarrow> rd8 p;
     Some (f\<lparr>f_fid := v, f_name := s, f_perm := w, f_mode := m\<rparr>, p) }"
| "bodyM2S Tread p f = do {
     (v, p) \<leftarrow> rd32 p; (off, p) \<leftarrow> rd64 p; (c, p) \<leftarrow> rd32 p;
     Some (f\<lparr>f_fid := v, f_offset := off, f_count := c\<rparr>, p) }"
| "bodyM2S Twrite p f = do {
     (v, p) \<leftarrow> rd32 p; (off, p) \<leftarrow> rd64 p; (c, p) \<leftarrow> rd32 p;
     (d, p) \<leftarrow> rdbytes (unat c) p;
     Some (f\<lparr>f_fid := v, f_offset := off, f_count := c, f_data := d\<rparr>, p) }"
| "bodyM2S Tclunk p f = do { (v, p) \<leftarrow> rd32 p; Some (f\<lparr>f_fid := v\<rparr>, p) }"
| "bodyM2S Tremove p f = do { (v, p) \<leftarrow> rd32 p; Some (f\<lparr>f_fid := v\<rparr>, p) }"
| "bodyM2S Tstat p f = do { (v, p) \<leftarrow> rd32 p; Some (f\<lparr>f_fid := v\<rparr>, p) }"
| "bodyM2S Twstat p f = do {
     (v, p) \<leftarrow> rd32 p; (n, p) \<leftarrow> rd16 p; (d, p) \<leftarrow> rdbytes (unat n) p;
     Some (f\<lparr>f_fid := v, f_nstat := n, f_stat := d\<rparr>, p) }"
| "bodyM2S Rversion p f = do {
     (v, p) \<leftarrow> rd32 p; (s, p) \<leftarrow> gstring p; Some (f\<lparr>f_msize := v, f_version := s\<rparr>, p) }"
| "bodyM2S Rerror p f = do { (s, p) \<leftarrow> gstring p; Some (f\<lparr>f_ename := s\<rparr>, p) }"
| "bodyM2S Rflush p f = Some (f, p)"
| "bodyM2S Rauth p f = do { (q, p) \<leftarrow> gqid p; Some (f\<lparr>f_aqid := q\<rparr>, p) }"
| "bodyM2S Rattach p f = do { (q, p) \<leftarrow> gqid p; Some (f\<lparr>f_qid := q\<rparr>, p) }"
| "bodyM2S Rwalk p f = do {
     (n, p) \<leftarrow> rd16 p;
     if unat n > MAXWELEM then None
     else do {
       (qs, p) \<leftarrow> repeatM (unat n) gqid p;
       Some (f\<lparr>f_nwqid := n, f_wqid := assign_prefix qs (f_wqid f)\<rparr>, p) } }"
| "bodyM2S Ropen p f = do {
     (q, p) \<leftarrow> gqid p; (v, p) \<leftarrow> rd32 p; Some (f\<lparr>f_qid := q, f_iounit := v\<rparr>, p) }"
| "bodyM2S Rcreate p f = do {
     (q, p) \<leftarrow> gqid p; (v, p) \<leftarrow> rd32 p; Some (f\<lparr>f_qid := q, f_iounit := v\<rparr>, p) }"
| "bodyM2S Rread p f = do {
     (c, p) \<leftarrow> rd32 p; (d, p) \<leftarrow> rdbytes (unat c) p;
     Some (f\<lparr>f_count := c, f_data := d\<rparr>, p) }"
| "bodyM2S Rwrite p f = do { (c, p) \<leftarrow> rd32 p; Some (f\<lparr>f_count := c\<rparr>, p) }"
| "bodyM2S Rclunk p f = Some (f, p)"
| "bodyM2S Rremove p f = Some (f, p)"
| "bodyM2S Rstat p f = do {
     (n, p) \<leftarrow> rd16 p; (d, p) \<leftarrow> rdbytes (unat n) p;
     Some (f\<lparr>f_nstat := n, f_stat := d\<rparr>, p) }"
| "bodyM2S Rwstat p f = Some (f, p)"

text \<open>
  \<open>convM2S\<close> on the \<open>nap\<close> bytes from \<open>ap\<close>: \<open>None\<close> is the return value 0, which leaves
  \<open>f\<close> partly assigned and of no use to a caller.
\<close>

definition convM2S :: "bytes \<Rightarrow> fcall \<Rightarrow> (u32 \<times> fcall) option" where
  "convM2S ap f =
     (if length ap < 4 + 1 + 2 then None
      else do {
        (sz, p) \<leftarrow> rd32 ap;
        if sz < 4 + 1 + 2 then None
        else do {
          (t, p) \<leftarrow> rd8 p;
          (g, p) \<leftarrow> rd16 p;
          m \<leftarrow> msgtype_of t;
          (f', p) \<leftarrow> bodyM2S m p (f\<lparr>f_type := t, f_tag := g\<rparr>);
          if unat sz = length ap - length p then Some (sz, f') else None } })"

section \<open>Framing: a reader looks at what it consumes and at nothing else\<close>

text \<open>
  The contract of every reader of convM2S.c, from the macros with their bound check up to
  the whole body of a message: what it returns is decided by the bytes it passes over.
\<close>

definition framed :: "(bytes \<Rightarrow> ('a \<times> bytes) option) \<Rightarrow> bool" where
  "framed g \<longleftrightarrow>
     (\<forall>p x r. g p = Some (x, r) \<longrightarrow> (\<exists>q. p = q @ r \<and> (\<forall>r'. g (q @ r') = Some (x, r'))))"

lemma framedI:
  assumes "\<And>p x r. g p = Some (x, r) \<Longrightarrow> \<exists>q. p = q @ r \<and> (\<forall>r'. g (q @ r') = Some (x, r'))"
  shows "framed g"
  using assms by (simp add: framed_def)

lemma framedE:
  assumes "framed g" and "g p = Some (x, r)"
  obtains q where "p = q @ r" and "\<And>r'. g (q @ r') = Some (x, r')"
  using assms unfolding framed_def by blast

lemma framed_return [intro]: "framed (\<lambda>p. Some (x, p))"
  by (auto simp: framed_def)

lemma framed_fail [intro]: "framed (\<lambda>p. None)"
  by (simp add: framed_def)

lemma framed_bind [intro]:
  assumes g: "framed g" and h: "\<And>x. framed (h x)"
  shows "framed (\<lambda>p. Option.bind (g p) (\<lambda>(x, p). h x p))"
proof (rule framedI)
  fix p y r
  assume "Option.bind (g p) (\<lambda>(x, p). h x p) = Some (y, r)"
  then obtain x s where gs: "g p = Some (x, s)" and hs: "h x s = Some (y, r)"
    by (auto simp: Option.bind_eq_Some_conv)
  from g gs obtain q1 where q1: "p = q1 @ s" "\<And>r'. g (q1 @ r') = Some (x, r')"
    by (meson framedE)
  from h hs obtain q2 where q2: "s = q2 @ r" "\<And>r'. h x (q2 @ r') = Some (y, r')"
    by (meson framedE)
  have "p = (q1 @ q2) @ r \<and>
      (\<forall>r'. Option.bind (g ((q1 @ q2) @ r')) (\<lambda>(x, p). h x p) = Some (y, r'))"
    using q1 q2 by simp
  then show "\<exists>q. p = q @ r \<and>
      (\<forall>r'. Option.bind (g (q @ r')) (\<lambda>(x, p). h x p) = Some (y, r'))" by blast
qed

lemma framed_if [intro]: "framed g \<Longrightarrow> framed h \<Longrightarrow> framed (\<lambda>p. if b then g p else h p)"
  by (cases b) auto

lemma framed_rdbytes [intro]: "framed (rdbytes n)"
proof (rule framedI)
  fix p x r
  assume "rdbytes n p = Some (x, r)"
  then have "p = take n p @ r \<and> (\<forall>r'. rdbytes n (take n p @ r') = Some (x, r'))"
    by (auto simp: rdbytes_def split: if_splits)
  then show "\<exists>q. p = q @ r \<and> (\<forall>r'. rdbytes n (q @ r') = Some (x, r'))" by blast
qed

lemma framed_bounded: "framed (\<lambda>p. if length p < n then None else map_option (\<lambda>v. (v, drop n p)) (f (take n p)))"
proof (rule framedI)
  fix p x r
  assume "(if length p < n then None else map_option (\<lambda>v. (v, drop n p)) (f (take n p))) = Some (x, r)"
  then have "p = take n p @ r \<and> (\<forall>r'. (if length (take n p @ r') < n then None
      else map_option (\<lambda>v. (v, drop n (take n p @ r'))) (f (take n (take n p @ r')))) = Some (x, r'))"
    by (auto split: if_splits)
  then show "\<exists>q. p = q @ r \<and> (\<forall>r'. (if length (q @ r') < n then None
      else map_option (\<lambda>v. (v, drop n (q @ r'))) (f (take n (q @ r')))) = Some (x, r'))" by blast
qed

lemma GBIT_take:
  "0 < length p \<Longrightarrow> GBIT8 (take (Suc 0) p) = GBIT8 p"
  "2 \<le> length p \<Longrightarrow> GBIT16 (take 2 p) = GBIT16 p"
  "4 \<le> length p \<Longrightarrow> GBIT32 (take 4 p) = GBIT32 p"
  "8 \<le> length p \<Longrightarrow> GBIT64 (take 8 p) = GBIT64 p"
  by (auto simp: numeral_eq_Suc Suc_le_length_iff neq_Nil_conv)

lemma framed_rd [intro]: "framed rd8" "framed rd16" "framed rd32" "framed rd64"
proof -
  have "rd8 = (\<lambda>p. if length p < 1 then None else map_option (\<lambda>v. (v, drop 1 p)) (GBIT8 (take 1 p)))"
    by (rule ext) (auto simp: rd8_def GBIT_take)
  then show "framed rd8" by (rule ssubst) (rule framed_bounded)
  have "rd16 = (\<lambda>p. if length p < 2 then None else map_option (\<lambda>v. (v, drop 2 p)) (GBIT16 (take 2 p)))"
    by (rule ext) (auto simp: rd16_def GBIT_take)
  then show "framed rd16" by (rule ssubst) (rule framed_bounded)
  have "rd32 = (\<lambda>p. if length p < 4 then None else map_option (\<lambda>v. (v, drop 4 p)) (GBIT32 (take 4 p)))"
    by (rule ext) (auto simp: rd32_def GBIT_take)
  then show "framed rd32" by (rule ssubst) (rule framed_bounded)
  have "rd64 = (\<lambda>p. if length p < 8 then None else map_option (\<lambda>v. (v, drop 8 p)) (GBIT64 (take 8 p)))"
    by (rule ext) (auto simp: rd64_def GBIT_take)
  then show "framed rd64" by (rule ssubst) (rule framed_bounded)
qed

lemma framed_gstring [intro]: "framed gstring"
proof -
  have "gstring = (\<lambda>p. Option.bind (rd16 p) (\<lambda>(n, p). Option.bind (rdbytes (unat n) p)
      (\<lambda>(bs, p). Some (Some (cstr_at bs), p))))"
    by (rule ext) (auto simp: gstring_def rdbytes_def split: Option.bind_splits)
  then show ?thesis by (rule ssubst) auto
qed

lemma framed_gqid [intro]: "framed gqid"
  unfolding gqid_def by auto

lemma framed_repeatM [intro]: "framed g \<Longrightarrow> framed (repeatM n g)"
proof (induction n)
  case 0
  show ?case by (auto simp: framed_def)
next
  case (Suc n)
  have "repeatM (Suc n) g = (\<lambda>p. Option.bind (g p) (\<lambda>(x, p).
      Option.bind (repeatM n g p) (\<lambda>(xs, p). Some (x # xs, p))))"
    by (rule ext) (auto simp: map_conv_bind_option case_prod_unfold comp_def split: option.split)
  moreover have "framed \<dots>" using Suc by auto
  ultimately show ?case by (simp only:)
qed

text \<open>A field of the protocol: its writer and its reader, and what the reader makes of a value.\<close>

locale wire_field =
  fixes put :: "'a \<Rightarrow> bytes"
    and get :: "bytes \<Rightarrow> ('a \<times> bytes) option"
    and ok :: "'a \<Rightarrow> bool"
    and norm :: "'a \<Rightarrow> 'a"
  assumes get_put: "ok x \<Longrightarrow> get (put x @ r) = Some (norm x, r)"
    and get_framed: "framed get"
    and get_ok: "get p = Some (x, r) \<Longrightarrow> ok x \<and> norm x = x \<and> length (put x) + length r \<le> length p"
begin

lemma repeat_get_put:
  "list_all ok xs \<Longrightarrow> length xs = n \<Longrightarrow>
   repeatM n get (concat (map put xs) @ r) = Some (map norm xs, r)"
  by (induction xs arbitrary: n) (auto simp: get_put)

lemma repeat_get_length: "repeatM n get p = Some (xs, r) \<Longrightarrow> length xs = n"
  by (induction n arbitrary: p xs r) (auto split: option.splits)

text \<open>Read values are canonical, and writing them again takes no more room.\<close>

lemma repeat_get_ok:
  "repeatM n get p = Some (xs, r) \<Longrightarrow>
   list_all ok xs \<and> map norm xs = xs \<and> length xs = n \<and>
   length (concat (map put xs)) + length r \<le> length p"
proof (induction n arbitrary: p xs r)
  case (Suc n)
  then obtain x p' ys where "get p = Some (x, p')" "repeatM n get p' = Some (ys, r)" "xs = x # ys"
    by (auto split: option.splits)
  with Suc.IH [of p' ys r] get_ok [of p x p'] show ?case by auto
qed simp

end

section \<open>What the readers do with what the writers wrote\<close>

lemma rd8_cons [bytes_simps]: "rd8 (b # r) = Some (b, r)"
  by (simp add: rd8_def)

lemma rd16_PBIT16 [bytes_simps]: "rd16 (PBIT16 v @ r) = Some (v, r)"
  by (simp add: rd16_def bytes_simps)

lemma rd32_PBIT32 [bytes_simps]: "rd32 (PBIT32 v @ r) = Some (v, r)"
  by (simp add: rd32_def bytes_simps)

lemma rd64_PBIT64 [bytes_simps]: "rd64 (PBIT64 v @ r) = Some (v, r)"
  by (simp add: rd64_def bytes_simps)

lemma rdbytes_app [bytes_simps]: "length d = n \<Longrightarrow> rdbytes n (d @ r) = Some (d, r)"
  by (simp add: rdbytes_def)

lemma gqid_pqid [bytes_simps]: "gqid (pqid q @ r) = Some (q, r)"
  by (simp add: gqid_def pqid_def bytes_simps)

text \<open>A C string that the 16-bit count of the protocol can describe.\<close>

definition str_ok :: "cstr \<Rightarrow> bool" where
  "str_ok s \<longleftrightarrow> (case s of None \<Rightarrow> True | Some t \<Rightarrow> is_cstr t \<and> strlen t < 2 ^ 16)"

text \<open>The decoder cannot tell a nil string from an empty one.\<close>

definition unnil :: "cstr \<Rightarrow> cstr" where
  "unnil s = Some (case s of None \<Rightarrow> [] | Some t \<Rightarrow> t)"

lemma gstring_pstring [bytes_simps]: "str_ok s \<Longrightarrow> gstring (pstring s @ r) = Some (unnil s, r)"
  by (cases s)
    (simp_all add: str_ok_def gstring_def pstring_def unnil_def strlen_def bytes_simps
      unat_of_nat)

lemma rd_length:
  "rd8 p = Some (v8, r) \<Longrightarrow> length p = 1 + length r"
  "rd16 p = Some (v16, r) \<Longrightarrow> length p = 2 + length r"
  "rd32 p = Some (v32, r) \<Longrightarrow> length p = 4 + length r"
  "rd64 p = Some (v64, r) \<Longrightarrow> length p = 8 + length r"
  by (auto simp: rd8_def rd16_def rd32_def rd64_def split: if_splits)

lemma rdbytes_ok:
  "rdbytes n p = Some (d, r) \<Longrightarrow> length d = n \<and> length p = n + length r"
  by (auto simp: rdbytes_def split: if_splits)

lemma unat_u16_bound: "unat (x :: u16) < 65536"
  using unsigned_less [of x] by simp

lemma gstring_ok:
  assumes "gstring p = Some (s, r)"
  shows "str_ok s \<and> unnil s = s \<and> length (pstring s) + length r \<le> length p"
proof -
  from assms obtain n q where q: "rd16 p = Some (n, q)" and "unat n \<le> length q"
    and s: "s = Some (cstr_at (take (unat n) q))" and r: "r = drop (unat n) q"
    by (auto simp: gstring_def Option.bind_eq_Some_conv split: if_splits)
  have "length (cstr_at (take (unat n) q)) \<le> unat n"
    using length_cstr_at [of "take (unat n) q"] by simp
  with rd_length(2) [OF q] \<open>unat n \<le> length q\<close> s r unat_u16_bound [of n]
  show ?thesis by (simp add: str_ok_def unnil_def pstring_def strlen_def)
qed

lemma gqid_length: "gqid p = Some (q, r) \<Longrightarrow> length p = 13 + length r"
  by (auto simp: gqid_def Option.bind_eq_Some_conv dest!: rd_length)

lemma length_pqid [simp]: "length (pqid q) = 13"
  by (simp add: pqid_def)

interpretation str_field: wire_field pstring gstring str_ok unnil
  by unfold_locales (auto simp: gstring_pstring dest: gstring_ok)

interpretation qid_field: wire_field pqid gqid "\<lambda>_. True" "\<lambda>q. q"
  by unfold_locales (auto simp: gqid_pqid dest: gqid_length)

lemma repeatM_gqid:
  "length qs = n \<Longrightarrow> repeatM n gqid (concat (map pqid qs) @ r) = Some (qs, r)"
  using qid_field.repeat_get_put [of qs n r] by (simp add: list_all_iff)

lemmas repeatM_fields [bytes_simps] = str_field.repeat_get_put repeatM_gqid

section \<open>Sizes\<close>

lemma stringsz_length: "stringsz s = of_nat (length (pstring s))"
  by (cases s) (simp_all add: stringsz_def pstring_def strlen_def)

lemma length_pqids: "length (concat (map pqid qs)) = 13 * length qs"
  by (induction qs) simp_all

lemma stringsz_sum: "sum_list (map stringsz ss) = of_nat (length (concat (map pstring ss)))"
  by (induction ss) (simp_all add: stringsz_length)

lemma ptake_Cont: "ptake n bs k = Cont p \<longleftrightarrow> n \<le> length bs \<and> k (take n bs) = Cont p"
  by (simp add: ptake_def)

text \<open>\<open>sizeS2M\<close> is the number of bytes that the encoder stores, modulo \<open>2 ^ 32\<close>.\<close>

lemma sizeS2M_body:
  assumes "msgtype_of (f_type f) = Some t" and "bodyS2M t f = Cont p"
  shows "sizeS2M f = Some (of_nat (7 + length p))"
  using assms
  by (cases t)
    (auto simp: sizeS2M_def stringsz_length QIDSZ_def ptake_Cont wname_size_def stringsz_sum
      length_pqids Let_def split: if_splits)

section \<open>Round trip\<close>

text \<open>The fields that a message of type \<open>t\<close> carries, from \<open>f\<close> into \<open>g\<close>.\<close>

fun carried :: "msgtype \<Rightarrow> fcall \<Rightarrow> fcall \<Rightarrow> fcall" where
  "carried Tversion f g = g\<lparr>f_msize := f_msize f, f_version := unnil (f_version f)\<rparr>"
| "carried Rversion f g = g\<lparr>f_msize := f_msize f, f_version := unnil (f_version f)\<rparr>"
| "carried Tflush f g = g\<lparr>f_oldtag := f_oldtag f\<rparr>"
| "carried Tauth f g =
     g\<lparr>f_afid := f_afid f, f_uname := unnil (f_uname f), f_aname := unnil (f_aname f)\<rparr>"
| "carried Tattach f g =
     g\<lparr>f_fid := f_fid f, f_afid := f_afid f, f_uname := unnil (f_uname f),
       f_aname := unnil (f_aname f)\<rparr>"
| "carried Twalk f g =
     g\<lparr>f_fid := f_fid f, f_newfid := f_newfid f, f_nwname := f_nwname f,
       f_wname := assign_prefix (map unnil (take (unat (f_nwname f)) (f_wname f))) (f_wname g)\<rparr>"
| "carried Topen f g = g\<lparr>f_fid := f_fid f, f_mode := f_mode f\<rparr>"
| "carried Tcreate f g =
     g\<lparr>f_fid := f_fid f, f_name := unnil (f_name f), f_perm := f_perm f, f_mode := f_mode f\<rparr>"
| "carried Tread f g = g\<lparr>f_fid := f_fid f, f_offset := f_offset f, f_count := f_count f\<rparr>"
| "carried Twrite f g =
     g\<lparr>f_fid := f_fid f, f_offset := f_offset f, f_count := f_count f,
       f_data := take (unat (f_count f)) (f_data f)\<rparr>"
| "carried Tclunk f g = g\<lparr>f_fid := f_fid f\<rparr>"
| "carried Tremove f g = g\<lparr>f_fid := f_fid f\<rparr>"
| "carried Tstat f g = g\<lparr>f_fid := f_fid f\<rparr>"
| "carried Twstat f g =
     g\<lparr>f_fid := f_fid f, f_nstat := f_nstat f, f_stat := take (unat (f_nstat f)) (f_stat f)\<rparr>"
| "carried Rerror f g = g\<lparr>f_ename := unnil (f_ename f)\<rparr>"
| "carried Rauth f g = g\<lparr>f_aqid := f_aqid f\<rparr>"
| "carried Rattach f g = g\<lparr>f_qid := f_qid f\<rparr>"
| "carried Rwalk f g =
     g\<lparr>f_nwqid := f_nwqid f,
       f_wqid := assign_prefix (take (unat (f_nwqid f)) (f_wqid f)) (f_wqid g)\<rparr>"
| "carried Ropen f g = g\<lparr>f_qid := f_qid f, f_iounit := f_iounit f\<rparr>"
| "carried Rcreate f g = g\<lparr>f_qid := f_qid f, f_iounit := f_iounit f\<rparr>"
| "carried Rread f g =
     g\<lparr>f_count := f_count f, f_data := take (unat (f_count f)) (f_data f)\<rparr>"
| "carried Rwrite f g = g\<lparr>f_count := f_count f\<rparr>"
| "carried Rstat f g =
     g\<lparr>f_nstat := f_nstat f, f_stat := take (unat (f_nstat f)) (f_stat f)\<rparr>"
| "carried _ f g = g"

definition strs_ok :: "fcall \<Rightarrow> bool" where
  "strs_ok f \<longleftrightarrow>
     list_all str_ok [f_version f, f_ename f, f_uname f, f_aname f, f_name f] \<and>
     list_all str_ok (f_wname f)"

lemma list_all_take: "list_all P xs \<Longrightarrow> list_all P (take n xs)"
  by (auto simp: list_all_iff dest: in_set_takeD)

lemma bodyM2S_bodyS2M:
  assumes "strs_ok f" and "bodyS2M t f = Cont p"
  shows "bodyM2S t (p @ r) g = Some (carried t f g, r)"
  using assms
  by (cases t)
    (auto simp: strs_ok_def bytes_simps ptake_Cont list_all_take Let_def split: if_splits)

lemma framed_bodyM2S [intro]: "framed (\<lambda>p. bodyM2S t p f)"
  by (cases t)
    (simp_all only: bodyM2S.simps,
      (intro framed_bind framed_return framed_fail framed_if framed_repeatM framed_rd
        framed_rdbytes framed_gstring framed_gqid)+)

section \<open>Well-formed messages\<close>

text \<open>
  What the callers of \<open>convS2M\<close> keep: a type of the enum, strings and arrays that are there
  and that the protocol's counts can describe, and a data count that fits the arithmetic.
\<close>

definition fcall_wf :: "fcall \<Rightarrow> bool" where
  "fcall_wf f \<longleftrightarrow>
     msgtype_of (f_type f) \<noteq> None \<and> strs_ok f \<and>
     unat (f_nwname f) \<le> MAXWELEM \<and> unat (f_nwname f) \<le> length (f_wname f) \<and>
     unat (f_nwqid f) \<le> MAXWELEM \<and> unat (f_nwqid f) \<le> length (f_wqid f) \<and>
     unat (f_count f) \<le> length (f_data f) \<and> unat (f_count f) + 23 < 2 ^ 32 \<and>
     unat (f_nstat f) \<le> length (f_stat f)"

lemma length_pstring: "str_ok s \<Longrightarrow> length (pstring s) < 2 + 2 ^ 16"
  by (cases s) (simp_all add: str_ok_def pstring_def strlen_def)

lemma length_pstrings:
  "list_all str_ok ss \<Longrightarrow> length (concat (map pstring ss)) \<le> (2 + 2 ^ 16) * length ss"
proof (induction ss)
  case (Cons s ss)
  then show ?case using length_pstring [of s] by simp
qed simp

lemma bodyS2M_wf:
  assumes "fcall_wf f"
  obtains p where "bodyS2M t f = Cont p" and "7 + length p < 2 ^ 32"
proof -
  let ?ws = "take (unat (f_nwname f)) (f_wname f)"
  have "length (concat (map pstring ?ws)) \<le> (2 + 2 ^ 16) * length ?ws"
    using assms by (intro length_pstrings) (auto simp: fcall_wf_def strs_ok_def list_all_take)
  also have "length ?ws \<le> 16"
    using assms by (simp add: fcall_wf_def MAXWELEM_def)
  finally have ws: "length (concat (map pstring ?ws)) \<le> (2 + 2 ^ 16) * 16" by simp
  have ss: "length (pstring (f_version f)) < 2 + 2 ^ 16" "length (pstring (f_ename f)) < 2 + 2 ^ 16"
    "length (pstring (f_uname f)) < 2 + 2 ^ 16" "length (pstring (f_aname f)) < 2 + 2 ^ 16"
    "length (pstring (f_name f)) < 2 + 2 ^ 16"
    using assms by (simp_all only: fcall_wf_def strs_ok_def list.pred_inject length_pstring)
  have "\<exists>p. bodyS2M t f = Cont p \<and> 7 + length p < 2 ^ 32"
    using assms ss ws unat_u16_bound [of "f_nstat f"]
    by (cases t) (auto simp: fcall_wf_def ptake_def Let_def MAXWELEM_def length_pqids)
  then show thesis using that by blast
qed

section \<open>Properties\<close>

lemma convS2M_Ret:
  assumes "convS2M f nap = Ret n bs" and "n \<noteq> 0"
  obtains t p where "msgtype_of (f_type f) = Some t" and "bodyS2M t f = Cont p"
    and "bs = PBIT32 n @ [f_type f] @ PBIT16 (f_tag f) @ p" and "unat n = length bs"
    and "length bs \<le> unat nap" and "sizeS2M f = Some n"
  using assms
  by (auto simp: convS2M_def stored_def Let_def
      split: option.splits if_splits enc.splits)

lemma convM2S_message:
  assumes "msgtype_of t = Some m" and "bodyM2S m p (g\<lparr>f_type := t, f_tag := tg\<rparr>) = Some (f', r)"
    and "7 \<le> unat n" and "unat n + length r = length p + 7"
  shows "convM2S (PBIT32 n @ [t] @ PBIT16 tg @ p) g = Some (n, f')"
proof -
  have "\<not> n < 7" using assms(3) by (simp add: word_less_nat_alt)
  then show ?thesis
    using assms by (simp add: convM2S_def bytes_simps)
qed


definition fcall0 :: fcall where
  "fcall0 = \<lparr>f_type = 0, f_fid = 0, f_tag = 0, f_msize = 0, f_version = None, f_oldtag = 0,
     f_ename = None, f_qid = \<lparr>q_path = 0, q_vers = 0, q_type = 0\<rparr>, f_iounit = 0,
     f_aqid = \<lparr>q_path = 0, q_vers = 0, q_type = 0\<rparr>, f_afid = 0, f_uname = None, f_aname = None,
     f_perm = 0, f_name = None, f_mode = 0, f_newfid = 0, f_nwname = 0,
     f_wname = replicate 16 None, f_nwqid = 0,
     f_wqid = replicate 16 \<lparr>q_path = 0, q_vers = 0, q_type = 0\<rparr>, f_offset = 0, f_count = 0,
     f_data = [], f_nstat = 0, f_stat = []\<rparr>"

text \<open>A Twalk of two names, ``usr'' and ``..'', used by the witnesses.\<close>

definition walk_msg :: fcall where
  "walk_msg = fcall0\<lparr>f_type := 110, f_tag := 7, f_fid := 1, f_newfid := 2, f_nwname := 2,
     f_wname := Some [117, 115, 114] # Some [46, 46] # replicate 14 None\<rparr>"

definition walk_bytes :: bytes where
  "walk_bytes = [26, 0, 0, 0, 110, 7, 0, 1, 0, 0, 0, 2, 0, 0, 0, 2, 0,
     3, 0, 117, 115, 114, 2, 0, 46, 46]"

lemma walk_msg_ok: "strs_ok walk_msg"
  by (simp add: walk_msg_def fcall0_def strs_ok_def str_ok_def is_cstr_def strlen_def list_all_iff)

lemma walk_msg_enc: "convS2M walk_msg 100 = Ret 26 walk_bytes"
  by code_simp


text \<open>
  C29. \<open>sizeS2M\<close> predicts the encoding: a well-formed message is encoded whenever the buffer
  has the predicted size, into exactly that many bytes, and a smaller buffer is left alone.
\<close>

theorem wire_encode_exact:
  assumes "fcall_wf f"
  shows "\<exists>n bs. sizeS2M f = Some n \<and> n \<noteq> 0 \<and> length bs = unat n \<and>
     (\<forall>nap. convS2M f nap = (if n \<le> nap then Ret n bs else Ret 0 []))"
proof -
  from assms obtain t where t: "msgtype_of (f_type f) = Some t" by (auto simp: fcall_wf_def)
  from assms obtain p where p: "bodyS2M t f = Cont p" and len: "7 + length p < 2 ^ 32"
    by (rule bodyS2M_wf)
  define n :: u32 where "n = of_nat (7 + length p)"
  define bs where "bs = PBIT32 n @ [f_type f] @ PBIT16 (f_tag f) @ p"
  have un: "unat n = 7 + length p" using len unfolding n_def by (subst unat_of_nat) simp
  have bs: "length bs = unat n" using un by (simp add: bs_def)
  have n0: "n \<noteq> 0" using un by (auto simp: unat_eq_0)
  have sz: "sizeS2M f = Some n" using sizeS2M_body [OF t p] by (simp add: n_def)
  have "convS2M f nap = (if n \<le> nap then Ret n bs else Ret 0 [])" for nap
    using sz n0 t p bs un
    by (auto simp: convS2M_def stored_def Let_def bs_def word_le_nat_alt word_less_nat_alt)
  with sz n0 bs show ?thesis by blast
qed

theorem wire_encode_exact_witness:
  "\<exists>n bs. sizeS2M walk_msg = Some n \<and> n \<noteq> 0 \<and> length bs = unat n \<and>
     (\<forall>nap. convS2M walk_msg nap = (if n \<le> nap then Ret n bs else Ret 0 []))"
proof (rule wire_encode_exact)
  show "fcall_wf walk_msg"
    using walk_msg_ok
    by (simp add: fcall_wf_def walk_msg_def fcall0_def msgtype_of_def MAXWELEM_def)
qed

lemma list_all_drop: "list_all P xs \<Longrightarrow> list_all P (drop n xs)"
  by (auto simp: list_all_iff dest: in_set_dropD)

text \<open>What the decoder makes of a message is well-formed and encodes again, in no more room.\<close>

lemma bodyM2S_header:
  "bodyM2S t p g = Some (f, r) \<Longrightarrow> f_type f = f_type g \<and> f_tag f = f_tag g"
  by (cases t) (auto simp: Option.bind_eq_Some_conv split: if_splits)

lemma bodyM2S_strs_ok:
  "bodyM2S t p g = Some (f, r) \<Longrightarrow> strs_ok g \<Longrightarrow> strs_ok f"
  by (cases t)
    (auto simp: Option.bind_eq_Some_conv strs_ok_def assign_prefix_def list_all_drop
      dest!: gstring_ok str_field.repeat_get_ok split: if_splits)

lemma bodyM2S_carried: "bodyM2S t p g = Some (f, r) \<Longrightarrow> carried t f g = f"
  by (cases t)
    (auto simp: Option.bind_eq_Some_conv assign_prefix_def
      dest!: gstring_ok rdbytes_ok str_field.repeat_get_ok qid_field.repeat_get_ok
      split: if_splits)

lemma bodyM2S_bodyS2M_length:
  "bodyM2S t p g = Some (f, r) \<Longrightarrow> \<exists>q. bodyS2M t f = Cont q \<and> length q + length r \<le> length p"
  by (cases t)
    (auto simp: Option.bind_eq_Some_conv assign_prefix_def ptake_def Let_def
      dest!: gstring_ok gqid_length rd_length rdbytes_ok str_field.repeat_get_ok
        qid_field.repeat_get_ok
      split: if_splits)

lemma bodyM2S_limits:
  "bodyM2S t p g = Some (f, r) \<Longrightarrow>
   (t = Twalk \<longrightarrow> unat (f_nwname f) \<le> MAXWELEM) \<and> (t = Rwalk \<longrightarrow> unat (f_nwqid f) \<le> MAXWELEM)"
  by (cases t) (auto simp: Option.bind_eq_Some_conv split: if_splits)

lemma rd_PBIT:
  "rd16 p = Some (v16, r) \<Longrightarrow> p = PBIT16 v16 @ r"
  "rd32 p = Some (v32, r) \<Longrightarrow> p = PBIT32 v32 @ r"
  by (auto simp: rd16_def rd32_def PBIT16_bytes PBIT32_bytes
      split: if_splits elim!: GBIT16.elims GBIT32.elims)

lemma rd8_cons_iff: "rd8 p = Some (v, r) \<longleftrightarrow> p = v # r"
  by (cases p) (auto simp: rd8_def)

lemma convM2S_Some:
  assumes "convM2S ap g = Some (n, f)"
  obtains t tg p m r where "ap = PBIT32 n @ [t] @ PBIT16 tg @ p" and "msgtype_of t = Some m"
    and "bodyM2S m p (g\<lparr>f_type := t, f_tag := tg\<rparr>) = Some (f, r)"
    and "7 \<le> unat n" and "unat n + length r = length p + 7" and "length r \<le> length p"
proof -
  from assms obtain p1 t p2 tg p m r where rd: "rd32 ap = Some (n, p1)" "rd8 p1 = Some (t, p2)"
      "rd16 p2 = Some (tg, p)" and m: "msgtype_of t = Some m"
    and b: "bodyM2S m p (g\<lparr>f_type := t, f_tag := tg\<rparr>) = Some (f, r)"
    and n7: "\<not> n < 7" and n: "unat n = length ap - length r"
    by (auto simp: convM2S_def Option.bind_eq_Some_conv split: if_splits)
  have ap: "ap = PBIT32 n @ [t] @ PBIT16 tg @ p"
    using rd rd_PBIT by (simp add: rd8_cons_iff)
  obtain q where "p = q @ r" using framedE [OF framed_bodyM2S b] by metis
  then show thesis
    using that [OF ap m b] n7 n by (simp add: ap word_less_nat_alt)
qed


lemma walk_msg_dec:
  "convM2S walk_bytes fcall0 = Some (26, walk_msg\<lparr>f_wname :=
     Some [117, 115, 114] # Some [46, 46] # replicate 14 None\<rparr>)"
  by code_simp


text \<open>
  A decoded message can always be encoded again: the encoder returns a message that is no
  longer than the one that came in, and decoding that gives the same structure (so the
  encoder normalises what the decoder accepts, and a relay loses nothing).
\<close>

theorem wire_decode_reencode:
  assumes "convM2S ap g = Some (n, f)" and "strs_ok g"
  shows "\<exists>k bs. convS2M f n = Ret k bs \<and> k \<noteq> 0 \<and> k \<le> n \<and> convM2S bs g = Some (k, f)"
proof -
  from assms(1) obtain t tg p m r where m: "msgtype_of t = Some m"
    and b: "bodyM2S m p (g\<lparr>f_type := t, f_tag := tg\<rparr>) = Some (f, r)"
    and n: "7 \<le> unat n" "unat n + length r = length p + 7" "length r \<le> length p"
    by (rule convM2S_Some)
  let ?g = "g\<lparr>f_type := t, f_tag := tg\<rparr>"
  have g: "strs_ok ?g" using assms(2) by (simp add: strs_ok_def)
  have hd: "f_type f = t" "f_tag f = tg" using bodyM2S_header [OF b] by simp_all
  from bodyM2S_bodyS2M_length [OF b] obtain q where q: "bodyS2M m f = Cont q"
    and lq: "length q + length r \<le> length p" by blast
  define k :: u32 where "k = of_nat (7 + length q)"
  have "7 + length q < 2 ^ 32" using lq n unat_u32_bound [of n] by simp
  then have uk: "unat k = 7 + length q" unfolding k_def by (subst unat_of_nat) simp
  have kn: "k \<le> n" "k \<noteq> 0" using uk lq n by (auto simp: word_le_nat_alt)
  have sz: "sizeS2M f = Some k" using sizeS2M_body [of f m q] m q hd by (simp add: k_def)
  define bs where "bs = PBIT32 k @ [t] @ PBIT16 tg @ q"
  have enc: "convS2M f n = Ret k bs"
    using sz kn m q hd uk by (auto simp: convS2M_def stored_def bs_def word_le_nat_alt word_less_nat_alt)
  have "bodyM2S m (q @ []) ?g = Some (f, [])"
    using bodyM2S_bodyS2M [OF bodyM2S_strs_ok [OF b g] q, of "[]" ?g] bodyM2S_carried [OF b]
    by simp
  then have "convM2S bs g = Some (k, f)"
    unfolding bs_def using uk by (intro convM2S_message [OF m]) simp_all
  with enc kn show ?thesis by blast
qed

theorem wire_decode_reencode_witness:
  "\<exists>k bs. convS2M walk_msg 26 = Ret k bs \<and> k \<noteq> 0 \<and> k \<le> 26 \<and>
     convM2S bs fcall0 = Some (k, walk_msg)"
  using wire_decode_reencode [OF walk_msg_dec]
  by (simp add: walk_msg_def fcall0_def strs_ok_def str_ok_def list_all_iff)

text \<open>
  C32. The 32-bit size computation can wrap: an Rread whose count is within 11 of \<open>2 ^ 32\<close>
  gets a small predicted size, passes the check against the buffer, and the copy then runs
  past the end of any buffer.
\<close>

theorem wire_size_wraps:
  assumes "f_type f = 117" and "2 ^ 32 \<le> unat (f_count f) + 11"
    and "unat (f_count f) \<le> length (f_data f)" and "11 + f_count f \<le> nap" and "11 + f_count f \<noteq> 0"
  shows "sizeS2M f = Some (11 + f_count f) \<and> 11 + f_count f < 11 \<and> convS2M f nap = Overrun"
proof -
  have m: "msgtype_of (f_type f) = Some Rread" using assms(1) by (simp add: msgtype_of_def)
  have sz: "sizeS2M f = Some (11 + f_count f)" using m by (simp add: sizeS2M_def)
  have un: "unat (11 + f_count f) = (11 + unat (f_count f)) mod 4294967296"
    by (simp add: unat_word_ariths)
  have small: "11 + f_count f < 11"
    using un assms(2) unat_u32_bound [of "f_count f"]
    by (simp add: word_less_nat_alt le_mod_geq)
  have "unat nap < 11 + unat (f_count f)" using assms(2) unat_u32_bound [of nap] by simp
  moreover have "unat (11 + f_count f) \<noteq> 11 + unat (f_count f)"
    using un assms(2) by simp
  ultimately have "convS2M f nap = Overrun"
    using sz m assms(3-5) by (simp add: convS2M_def stored_def ptake_def Let_def not_less)
  with sz small show ?thesis by simp
qed

theorem wire_size_wraps_witness:
  "convS2M (fcall0\<lparr>f_type := 117, f_count := 0xFFFFFFF8, f_data := replicate 4294967288 0\<rparr>) 3 = Overrun"
  using wire_size_wraps [of "fcall0\<lparr>f_type := 117, f_count := 0xFFFFFFF8, f_data := replicate 4294967288 0\<rparr>" 3]
  by simp

end
