(* ===== verification/Stat9P.thy ===== *)
theory Stat9P
  imports Wire9P
begin

text \<open>
  The directory entry codec of 9P2000: the structure Dir of include/lib9.h, the encoder
  lib9/convD2M.c (\<open>sizeD2M\<close>, \<open>convD2M\<close>) and the decoder and checker lib9/convM2D.c
  (\<open>statcheck\<close>, \<open>statcheckbuf\<close>, \<open>convM2D\<close>). A C ulong is 64 bits wide, as on the LP64 hosts
  whose handling of ~0 the decoder's comment discusses. The sums of string lengths, C ints,
  are natural numbers; where they are stored as 16-bit counts they are truncated.
\<close>

section \<open>Data\<close>

record dir =
  d_type :: u16
  d_dev :: u32
  d_qid :: qid
  d_mode :: u64
  d_atime :: u64
  d_mtime :: u64
  d_length :: u64
  d_name :: cstr
  d_uid :: cstr
  d_gid :: cstr
  d_muid :: cstr

definition STATFIXLEN :: nat where
  "STATFIXLEN = 2 + 13 + 5 * 2 + 4 * 4 + 1 * 8"

section \<open>The encoder\<close>

definition nsv :: "cstr \<Rightarrow> nat" where
  "nsv s = (case s of None \<Rightarrow> 0 | Some t \<Rightarrow> strlen t)"

definition dir_strs :: "dir \<Rightarrow> cstr list" where
  "dir_strs d = [d_name d, d_uid d, d_gid d, d_muid d]"

definition sizeD2M :: "dir \<Rightarrow> nat" where
  "sizeD2M d = STATFIXLEN + sum_list (map nsv (dir_strs d))"

definition dir_fixed :: "dir \<Rightarrow> bytes" where
  "dir_fixed d =
     PBIT16 (d_type d) @ PBIT32 (d_dev d) @ pqid (d_qid d) @ PBIT32 (ucast (d_mode d)) @
     PBIT32 (ucast (d_atime d)) @ PBIT32 (ucast (d_mtime d)) @ PBIT64 (d_length d)"

text \<open>
  The loop over the four strings: what has been stored so far, and whether the loop ended
  by its \<open>return 0\<close>.
\<close>

fun putstrs :: "nat \<Rightarrow> bytes \<Rightarrow> cstr list \<Rightarrow> bool \<times> bytes" where
  "putstrs nbuf acc [] = (True, acc)"
| "putstrs nbuf acc (s # ss) =
     (if length acc + nsv s + 2 > nbuf then (False, acc)
      else putstrs nbuf
             (acc @ PBIT16 (of_nat (nsv s)) @ (case s of None \<Rightarrow> [] | Some t \<Rightarrow> t)) ss)"

text \<open>The value returned, and the bytes stored from \<open>buf\<close> on.\<close>

definition convD2M :: "dir \<Rightarrow> nat \<Rightarrow> nat \<times> bytes" where
  "convD2M d nbuf =
     (if nbuf < 2 then (0, [])
      else
        (let ss = sizeD2M d; p = PBIT16 (of_nat (ss - 2)) in
         if ss > nbuf then (2, p)
         else (case putstrs nbuf (p @ dir_fixed d) (dir_strs d) of
             (ok, bs) \<Rightarrow> if ok \<and> ss = length bs then (length bs, bs) else (0, bs))))"

section \<open>The checker and the decoder\<close>

text \<open>The loop of \<open>statcheck\<close> over the string counts, from \<open>buf\<close> with \<open>remain\<close> bytes left.\<close>

fun statstrs :: "nat \<Rightarrow> bytes \<Rightarrow> bool" where
  "statstrs 0 p \<longleftrightarrow> p = []"
| "statstrs (Suc i) p \<longleftrightarrow>
     (case rd16 p of
        None \<Rightarrow> False
      | Some (n, q) \<Rightarrow> unat n \<le> length q \<and> statstrs i (drop (unat n) q))"

definition statcheck :: "bytes \<Rightarrow> bool" where
  "statcheck buf \<longleftrightarrow>
     \<not> (length buf < STATFIXLEN) \<and>
     (case GBIT16 buf of None \<Rightarrow> False | Some n \<Rightarrow> length buf = 2 + unat n) \<and>
     statstrs 4 (drop (STATFIXLEN - 4 * 2) buf)"

definition statcheckbuf :: "bytes \<Rightarrow> nat option" where
  "statcheckbuf buf =
     (if length buf < 2 then None
      else case GBIT16 buf of
        None \<Rightarrow> None
      | Some n \<Rightarrow>
         (let nbuf = 2 + unat n in
          if nbuf > length buf \<or> \<not> statcheck (take nbuf buf) then None else Some nbuf))"

definition gbit32dontcare :: "u32 \<Rightarrow> u64" where
  "gbit32dontcare v = (if v = 0xFFFFFFFF then - 1 else ucast v)"

text \<open>
  The string loop of \<open>convM2D\<close>. With a \<open>strs\<close> buffer each string is copied there and
  terminated; without one the strings are skipped.
\<close>

fun getstrs :: "nat \<Rightarrow> bytes \<Rightarrow> (bytes list \<times> bytes) option" where
  "getstrs 0 p = Some ([], p)"
| "getstrs (Suc i) p = do {
     (n, p) \<leftarrow> rd16 p;
     (s, p) \<leftarrow> rdbytes (unat n) p;
     (ss, p) \<leftarrow> getstrs i p;
     Some (s # ss, p) }"

definition convM2D :: "bytes \<Rightarrow> bool \<Rightarrow> dir \<Rightarrow> (nat \<times> dir) option" where
  "convM2D buf strs d =
     (if length buf < STATFIXLEN then None
      else do {
        (_, p) \<leftarrow> rd16 buf;
        (ty, p) \<leftarrow> rd16 p;
        (dv, p) \<leftarrow> rd32 p;
        (q, p) \<leftarrow> gqid p;
        (mode, p) \<leftarrow> rd32 p;
        (atime, p) \<leftarrow> rd32 p;
        (mtime, p) \<leftarrow> rd32 p;
        (len, p) \<leftarrow> rd64 p;
        (ss, p) \<leftarrow> getstrs 4 p;
        let sv = map (\<lambda>s. Some (if strs then cstr_at s else [])) ss in
        Some (length buf - length p,
          d\<lparr>d_type := ty, d_dev := dv, d_qid := q, d_mode := gbit32dontcare mode,
            d_atime := gbit32dontcare atime, d_mtime := gbit32dontcare mtime, d_length := len,
            d_name := sv ! 0, d_uid := sv ! 1, d_gid := sv ! 2, d_muid := sv ! 3\<rparr>) })"

section \<open>Lemmas\<close>

lemma length_dir_fixed [simp]: "length (dir_fixed d) = 39"
  by (simp add: dir_fixed_def)

lemma nsv_unnil: "length (case s of None \<Rightarrow> [] | Some t \<Rightarrow> t) = nsv s"
  by (simp add: nsv_def strlen_def split: option.split)

text \<open>The size computed beforehand is enough for the loop, so its check never fires.\<close>

lemma putstrs_ok:
  "length acc + 2 * length ss + sum_list (map nsv ss) \<le> nbuf \<Longrightarrow>
   putstrs nbuf acc ss =
     (True, acc @ concat (map (\<lambda>s. PBIT16 (of_nat (nsv s)) @
        (case s of None \<Rightarrow> [] | Some t \<Rightarrow> t)) ss))"
  by (induction ss arbitrary: acc) (simp_all add: nsv_unnil)

definition dir_encoding :: "dir \<Rightarrow> bytes" where
  "dir_encoding d = PBIT16 (of_nat (sizeD2M d - 2)) @ dir_fixed d @
     concat (map (\<lambda>s. PBIT16 (of_nat (nsv s)) @ (case s of None \<Rightarrow> [] | Some t \<Rightarrow> t)) (dir_strs d))"

lemma length_dir_encoding [simp]: "length (dir_encoding d) = sizeD2M d"
  by (simp add: dir_encoding_def sizeD2M_def STATFIXLEN_def dir_strs_def nsv_unnil)

lemma convD2M_eq:
  "convD2M d nbuf =
     (if nbuf < 2 then (0, [])
      else if sizeD2M d > nbuf then (2, PBIT16 (of_nat (sizeD2M d - 2)))
      else (sizeD2M d, dir_encoding d))"
proof (cases "sizeD2M d \<le> nbuf")
  case True
  let ?p = "PBIT16 (of_nat (sizeD2M d - 2)) @ dir_fixed d"
  have "putstrs nbuf ?p (dir_strs d) = (True, dir_encoding d)"
    using True by (subst putstrs_ok)
      (simp_all add: sizeD2M_def STATFIXLEN_def dir_strs_def dir_encoding_def)
  then show ?thesis using True by (simp add: convD2M_def Let_def)
qed (simp add: convD2M_def Let_def)

lemma getstrs_put:
  "list_all (\<lambda>s. nsv s < 65536) ss \<Longrightarrow>
   getstrs (length ss) (concat (map (\<lambda>s. PBIT16 (of_nat (nsv s)) @
       (case s of None \<Rightarrow> [] | Some t \<Rightarrow> t)) ss) @ r) =
     Some (map (\<lambda>s. case s of None \<Rightarrow> [] | Some t \<Rightarrow> t) ss, r)"
  by (induction ss) (simp_all add: bytes_simps unat_of_nat nsv_unnil)

lemma getstrs_length: "getstrs n p = Some (ss, r) \<Longrightarrow> length ss = n"
  by (induction n arbitrary: p ss r) (auto simp: Option.bind_eq_Some_conv)

lemma statstrs_getstrs: "statstrs n p \<longleftrightarrow> (\<exists>ss. getstrs n p = Some (ss, []))"
proof (induction n arbitrary: p)
  case (Suc n)
  show ?case
    by (cases "rd16 p") (auto simp: Suc rdbytes_def Option.bind_eq_Some_conv not_less split: if_splits)
qed simp

lemma rd_total:
  "2 \<le> length p \<Longrightarrow> \<exists>v. rd16 p = Some (v, drop 2 p)"
  "4 \<le> length p \<Longrightarrow> \<exists>v. rd32 p = Some (v, drop 4 p)"
  "8 \<le> length p \<Longrightarrow> \<exists>v. rd64 p = Some (v, drop 8 p)"
  "13 \<le> length p \<Longrightarrow> \<exists>q. gqid p = Some (q, drop 13 p)"
proof -
  show r16: "2 \<le> length p \<Longrightarrow> \<exists>v. rd16 p = Some (v, drop 2 p)" for p
    by (auto simp: rd16_def numeral_eq_Suc Suc_le_length_iff)
  show r32: "4 \<le> length p \<Longrightarrow> \<exists>v. rd32 p = Some (v, drop 4 p)" for p
    by (auto simp: rd32_def numeral_eq_Suc Suc_le_length_iff)
  show r64: "8 \<le> length p \<Longrightarrow> \<exists>v. rd64 p = Some (v, drop 8 p)" for p
    by (auto simp: rd64_def numeral_eq_Suc Suc_le_length_iff)
  assume p: "13 \<le> length p"
  then have l: "4 \<le> length (drop 1 p)" "8 \<le> length (drop 5 p)" by auto
  from p obtain t where "rd8 p = Some (t, drop 1 p)" by (cases p) (auto simp: rd8_def)
  moreover obtain v where "rd32 (drop 1 p) = Some (v, drop 4 (drop 1 p))"
    using r32 [OF l(1)] by blast
  moreover obtain w where "rd64 (drop 5 p) = Some (w, drop 8 (drop 5 p))"
    using r64 [OF l(2)] by blast
  ultimately show "\<exists>q. gqid p = Some (q, drop 13 p)" by (simp add: gqid_def)
qed

lemma rd_total_at:
  "k + 2 \<le> length p \<Longrightarrow> \<exists>v. rd16 (drop k p) = Some (v, drop (k + 2) p)"
  "k + 4 \<le> length p \<Longrightarrow> \<exists>v. rd32 (drop k p) = Some (v, drop (k + 4) p)"
  "k + 8 \<le> length p \<Longrightarrow> \<exists>v. rd64 (drop k p) = Some (v, drop (k + 8) p)"
  "k + 13 \<le> length p \<Longrightarrow> \<exists>q. gqid (drop k p) = Some (q, drop (k + 13) p)"
  using rd_total [of "drop k p"] by (simp_all add: add.commute)

text \<open>
  The part before the strings: reading 41 bytes succeeds, and writing the values again gives
  the bytes that were read.
\<close>

lemma PBIT64_bytes:
  "PBIT64 ((ucast a OR push_bit 8 (ucast b) OR push_bit 16 (ucast c) OR push_bit 24 (ucast d)) OR
       push_bit 32 (ucast e) OR push_bit 40 (ucast f) OR push_bit 48 (ucast g) OR push_bit 56 (ucast h)) =
   [a, b, c, d, e, f, g, h]"
  unfolding PBIT64_def by (auto intro!: bit_word_eqI simp: bit_simps not_bit_u8)

lemma rd64_PBIT: "rd64 p = Some (v, r) \<Longrightarrow> p = PBIT64 v @ r"
  by (auto simp: rd64_def PBIT64_bytes split: if_splits elim!: GBIT64.elims)

lemma gqid_PBIT: "gqid p = Some (q, r) \<Longrightarrow> p = pqid q @ r"
  by (auto simp: gqid_def pqid_def Option.bind_eq_Some_conv rd8_cons_iff
      dest!: rd_PBIT rd64_PBIT)

lemma dontcare_inverse [simp]: "ucast (gbit32dontcare v) = v"
proof (cases "v = 0xFFFFFFFF")
  case True
  moreover have "ucast (- 1 :: u64) = (- 1 :: u32)"
    by (rule bit_word_eqI) (simp add: bit_simps)
  moreover have "(- 1 :: u32) = 0xFFFFFFFF" by simp
  ultimately show ?thesis by (simp only: gbit32dontcare_def if_True simp_thms)
next
  case False
  then show ?thesis by (auto simp: gbit32dontcare_def intro!: bit_word_eqI simp: bit_simps)
qed

lemma getstrs_bytes:
  "getstrs n p = Some (ss, r) \<Longrightarrow>
   p = concat (map (\<lambda>s. PBIT16 (of_nat (length s)) @ s) ss) @ r"
proof (induction n arbitrary: p ss r)
  case (Suc n)
  then obtain m q s q' ss' where "rd16 p = Some (m, q)" "rdbytes (unat m) q = Some (s, q')"
      "getstrs n q' = Some (ss', r)" "ss = s # ss'"
    by (auto simp: Option.bind_eq_Some_conv)
  with Suc.IH [of q' ss' r] rd_PBIT(1) [of p m q] show ?case
    by (auto simp: rdbytes_def split: if_splits) (metis append_take_drop_id)
qed simp

section \<open>Properties\<close>

text \<open>What the decoder delivers of an encoded entry: 32-bit times and mode, no nil strings.\<close>

definition dir_norm :: "dir \<Rightarrow> dir" where
  "dir_norm d =
     d\<lparr>d_mode := gbit32dontcare (ucast (d_mode d)), d_atime := gbit32dontcare (ucast (d_atime d)),
       d_mtime := gbit32dontcare (ucast (d_mtime d)), d_name := unnil (d_name d),
       d_uid := unnil (d_uid d), d_gid := unnil (d_gid d), d_muid := unnil (d_muid d)\<rparr>"

lemma str_ok_nsv: "str_ok s \<Longrightarrow> nsv s < 65536"
  by (cases s) (auto simp: str_ok_def nsv_def)

lemma str_ok_unnil:
  "str_ok s \<Longrightarrow> Some (cstr_at (case s of None \<Rightarrow> [] | Some t \<Rightarrow> t)) = unnil s"
  by (cases s) (auto simp: str_ok_def unnil_def)

lemma getstrs4_put:
  assumes "list_all str_ok (dir_strs d)"
  shows "getstrs 4 (concat (map (\<lambda>s. PBIT16 (of_nat (nsv s)) @
       (case s of None \<Rightarrow> [] | Some t \<Rightarrow> t)) (dir_strs d)) @ r) =
     Some (map (\<lambda>s. case s of None \<Rightarrow> [] | Some t \<Rightarrow> t) (dir_strs d), r)"
proof -
  have len: "length (dir_strs d) = 4" by (simp add: dir_strs_def)
  have "list_all (\<lambda>s. nsv s < 65536) (dir_strs d)"
    using assms str_ok_nsv unfolding list_all_iff by blast
  from getstrs_put [OF this, of r] show ?thesis by (simp only: len)
qed


definition sample_dir :: dir where
  "sample_dir = \<lparr>d_type = 77, d_dev = 0, d_qid = \<lparr>q_path = 5, q_vers = 1, q_type = 0x80\<rparr>,
     d_mode = -1, d_atime = 7, d_mtime = 8, d_length = 0, d_name = Some [120], d_uid = None,
     d_gid = Some [103, 103], d_muid = None\<rparr>"

lemma sample_dir_ok: "list_all str_ok (dir_strs sample_dir)"
  by (simp add: sample_dir_def dir_strs_def str_ok_def is_cstr_def strlen_def)


text \<open>
  \<open>convD2M\<close> never stores outside its buffer, and its three answers are the documented
  ones: 0 for no room even for the count, 2 with the needed size stored when the entry does
  not fit, and otherwise the whole entry of \<open>sizeD2M\<close> bytes.
\<close>

theorem stat_encode_bounds:
  "case convD2M d nbuf of (n, bs) \<Rightarrow>
     length bs \<le> nbuf \<and> n = length bs \<and>
     (n = 0 \<longleftrightarrow> nbuf < 2) \<and>
     (2 \<le> nbuf \<longrightarrow> GBIT16 bs = Some (of_nat (sizeD2M d - 2))) \<and>
     (sizeD2M d \<le> nbuf \<longrightarrow> n = sizeD2M d)"
proof -
  have "2 < sizeD2M d" by (simp add: sizeD2M_def STATFIXLEN_def)
  moreover have "GBIT16 (dir_encoding d) = Some (of_nat (sizeD2M d - 2))"
    by (simp add: dir_encoding_def bytes_simps)
  moreover have "GBIT16 (PBIT16 w @ []) = Some w" for w
    by (rule GBIT16_PBIT16)
  ultimately show ?thesis by (auto simp: convD2M_eq)
qed

theorem stat_encode_bounds_witness:
  "fst (convD2M sample_dir 100) = sizeD2M sample_dir"
proof -
  have "sizeD2M sample_dir \<le> 100"
    by (simp add: sizeD2M_def STATFIXLEN_def dir_strs_def nsv_def strlen_def sample_dir_def)
  then show ?thesis using stat_encode_bounds [where d = sample_dir and nbuf = 100] by (auto split: prod.splits)
qed

lemma convM2D_total:
  assumes "statcheck buf"
  shows "\<exists>d. convM2D buf strs g = Some (length buf, d)"
proof -
  from assms have len: "49 \<le> length buf" and st: "statstrs 4 (drop 41 buf)"
    by (simp_all add: statcheck_def STATFIXLEN_def)
  from st obtain ss where ss: "getstrs 4 (drop 41 buf) = Some (ss, [])"
    by (auto simp: statstrs_getstrs)
  have l: "2 \<le> length buf" "2 + 2 \<le> length buf" "4 + 4 \<le> length buf" "8 + 13 \<le> length buf"
    "21 + 4 \<le> length buf" "25 + 4 \<le> length buf" "29 + 4 \<le> length buf" "33 + 8 \<le> length buf"
    using len by simp_all
  from rd_total(1) [OF l(1)] obtain a where a: "rd16 buf = Some (a, drop 2 buf)" ..
  from rd_total_at(1) [OF l(2)] obtain b where b: "rd16 (drop 2 buf) = Some (b, drop (2 + 2) buf)" ..
  from rd_total_at(2) [OF l(3)] obtain c where c: "rd32 (drop 4 buf) = Some (c, drop (4 + 4) buf)" ..
  from rd_total_at(4) [OF l(4)] obtain e where e: "gqid (drop 8 buf) = Some (e, drop (8 + 13) buf)" ..
  from rd_total_at(2) [OF l(5)] obtain f where f: "rd32 (drop 21 buf) = Some (f, drop (21 + 4) buf)" ..
  from rd_total_at(2) [OF l(6)] obtain h where h: "rd32 (drop 25 buf) = Some (h, drop (25 + 4) buf)" ..
  from rd_total_at(2) [OF l(7)] obtain i where i: "rd32 (drop 29 buf) = Some (i, drop (29 + 4) buf)" ..
  from rd_total_at(3) [OF l(8)] obtain j where j: "rd64 (drop 33 buf) = Some (j, drop (33 + 8) buf)" ..
  note rds = a b [simplified] c [simplified] e [simplified] f [simplified] h [simplified]
    i [simplified] j [simplified]
  show ?thesis
    using len ss by (simp add: convM2D_def STATFIXLEN_def Let_def rds)
qed



lemma convM2D_Some:
  assumes "convM2D buf True g = Some (n, d)"
  obtains a ty dv q m at mt len s0 s1 s2 s3 r where
    "buf = PBIT16 a @ PBIT16 ty @ PBIT32 dv @ pqid q @ PBIT32 m @ PBIT32 at @ PBIT32 mt @
       PBIT64 len @ concat (map (\<lambda>s. PBIT16 (of_nat (length s)) @ s) [s0, s1, s2, s3]) @ r"
    and "n = length buf - length r"
    and "dir_fixed d = PBIT16 ty @ PBIT32 dv @ pqid q @ PBIT32 m @ PBIT32 at @ PBIT32 mt @ PBIT64 len"
    and "dir_strs d = map (\<lambda>s. Some (cstr_at s)) [s0, s1, s2, s3]"
proof -
  from assms obtain a p1 ty p2 dv p3 q p4 m p5 at p6 mt p7 len p8 ss r where
    rds: "rd16 buf = Some (a, p1)" "rd16 p1 = Some (ty, p2)" "rd32 p2 = Some (dv, p3)"
      "gqid p3 = Some (q, p4)" "rd32 p4 = Some (m, p5)" "rd32 p5 = Some (at, p6)"
      "rd32 p6 = Some (mt, p7)" "rd64 p7 = Some (len, p8)"
    and ss: "getstrs 4 p8 = Some (ss, r)" and n: "n = length buf - length r"
    and d: "d = (let sv = map (\<lambda>s. Some (cstr_at s)) ss in
       g\<lparr>d_type := ty, d_dev := dv, d_qid := q, d_mode := gbit32dontcare m,
         d_atime := gbit32dontcare at, d_mtime := gbit32dontcare mt, d_length := len,
         d_name := sv ! 0, d_uid := sv ! 1, d_gid := sv ! 2, d_muid := sv ! 3\<rparr>)"
    by (auto simp: convM2D_def Option.bind_eq_Some_conv Let_def split: if_splits)
  from getstrs_length [OF ss] obtain s0 s1 s2 s3 where s4: "ss = [s0, s1, s2, s3]"
    by (auto simp: numeral_eq_Suc length_Suc_conv)
  have buf: "buf = PBIT16 a @ PBIT16 ty @ PBIT32 dv @ pqid q @ PBIT32 m @ PBIT32 at @ PBIT32 mt @
       PBIT64 len @ concat (map (\<lambda>s. PBIT16 (of_nat (length s)) @ s) [s0, s1, s2, s3]) @ r"
    by (simp only: rd_PBIT(1) [OF rds(1)] rd_PBIT(1) [OF rds(2)] rd_PBIT(2) [OF rds(3)]
      gqid_PBIT [OF rds(4)] rd_PBIT(2) [OF rds(5)] rd_PBIT(2) [OF rds(6)] rd_PBIT(2) [OF rds(7)]
      rd64_PBIT [OF rds(8)] getstrs_bytes [OF ss] s4)
  show thesis
    by (rule that [OF buf n]) (simp_all add: d s4 dir_fixed_def dir_strs_def Let_def)
qed

lemma getstrs_unique_rest:
  "getstrs n p = Some (ss, r) \<Longrightarrow> statstrs n p \<Longrightarrow> r = []"
  by (auto simp: statstrs_getstrs)

text \<open>
  C31. The encoding is canonical: an entry that passed \<open>statcheck\<close>, decoded and encoded again,
  gives byte for byte the buffer it came from, if none of its strings held a NUL (then the
  decoded entry has the size of the buffer).
\<close>

theorem stat_reencode:
  assumes "statcheck buf" and "convM2D buf True g = Some (n, d)" and "sizeD2M d = n"
  shows "convD2M d n = (n, buf)"
proof -
  from assms(2) obtain a ty dv q m at mt len s0 s1 s2 s3 r where
    buf: "buf = PBIT16 a @ PBIT16 ty @ PBIT32 dv @ pqid q @ PBIT32 m @ PBIT32 at @ PBIT32 mt @
       PBIT64 len @ concat (map (\<lambda>s. PBIT16 (of_nat (length s)) @ s) [s0, s1, s2, s3]) @ r"
    and n: "n = length buf - length r"
    and fx: "dir_fixed d = PBIT16 ty @ PBIT32 dv @ pqid q @ PBIT32 m @ PBIT32 at @ PBIT32 mt @ PBIT64 len"
    and st: "dir_strs d = map (\<lambda>s. Some (cstr_at s)) [s0, s1, s2, s3]"
    by (rule convM2D_Some)
  have "convM2D buf True g = Some (length buf, d)"
    using convM2D_total [OF assms(1), of True g] assms(2) by auto
  then have nl: "n = length buf" using assms(2) by simp
  have "length r \<le> length buf" by (simp add: buf)
  moreover have "49 \<le> length buf" using assms(1) by (simp add: statcheck_def STATFIXLEN_def)
  ultimately have "length r = 0" using n nl by arith
  then have r: "r = []" by simp
  have "length (cstr_at s0) + length (cstr_at s1) + length (cstr_at s2) + length (cstr_at s3) =
      length s0 + length s1 + length s2 + length s3"
    using assms(3) nl by (simp add: sizeD2M_def st nsv_def strlen_def STATFIXLEN_def buf r)
  then have "length (cstr_at s0) = length s0" "length (cstr_at s1) = length s1"
      "length (cstr_at s2) = length s2" "length (cstr_at s3) = length s3"
    using length_cstr_at [of s0] length_cstr_at [of s1] length_cstr_at [of s2]
      length_cstr_at [of s3] by linarith+
  then have cs: "cstr_at s0 = s0" "cstr_at s1 = s1" "cstr_at s2 = s2" "cstr_at s3 = s3"
    unfolding cstr_at_def by (metis takeWhile_eq_take take_all order_refl)+
  have "GBIT16 buf = Some a" by (simp add: buf bytes_simps)
  then have "length buf = 2 + unat a" using assms(1) by (simp add: statcheck_def)
  then have "of_nat (n - 2) = a" using nl by simp
  then have "dir_encoding d = buf"
    using assms(3) by (simp add: dir_encoding_def fx st cs nsv_def strlen_def buf r)
  moreover have "2 \<le> n" using assms(3) by (simp add: sizeD2M_def STATFIXLEN_def)
  ultimately show ?thesis using assms(3) by (simp add: convD2M_eq)
qed

theorem stat_reencode_witness:
  "convD2M (dir_norm sample_dir) 52 = (52, dir_encoding sample_dir)"
proof (rule stat_reencode [of _ sample_dir])
  have sz: "sizeD2M sample_dir = 52"
    by (simp add: sizeD2M_def STATFIXLEN_def dir_strs_def nsv_def strlen_def sample_dir_def)
  have st: "statstrs 4 (drop 41 (dir_encoding sample_dir))"
    by code_simp
  show "statcheck (dir_encoding sample_dir)"
    by code_simp
  show "convM2D (dir_encoding sample_dir) True sample_dir = Some (52, dir_norm sample_dir)"
    by code_simp
  show "sizeD2M (dir_norm sample_dir) = 52"
    by code_simp
qed

end
