(* ===== verification/Utf.thy ===== *)
theory Utf
  imports Prelude
begin

text \<open>
  The UTF-8 routines of lib9: the codec of rune.c (\<open>chartorune\<close>, \<open>runetochar\<close>, \<open>runelen\<close>,
  \<open>runenlen\<close>, \<open>fullrune\<close>) and the string routines over it (utflen.c, utfnlen.c, utfrune.c,
  utfrrune.c, utfecpy.c, strecpy.c). A string is the list of its bytes; the end of the list is the
  NUL, so a routine that reads the byte at the end of the list reads 0.
\<close>

unbundle bit_operations_syntax

section \<open>The constants and macros of rune.c\<close>

definition UTFmax :: nat where "UTFmax = 4"
definition Runeself :: u32 where "Runeself = 0x80"
definition Runesync :: int where "Runesync = 0x80"
definition Runeerror :: u32 where "Runeerror = 0xFFFD"
definition Runemax :: u32 where "Runemax = 0x10FFFF"
definition SurrogateMin :: u32 where "SurrogateMin = 0xD800"
definition SurrogateMax :: u32 where "SurrogateMax = 0xDFFF"

definition Bit :: "nat \<Rightarrow> nat" where "Bit i = 7 - i"
definition Bitx :: nat where "Bitx = Bit 1"

definition T :: "nat \<Rightarrow> u32" where
  "T i = (push_bit (Bit i + 1) 1 - 1) XOR 0xFF"

definition RuneX :: "nat \<Rightarrow> u32" where
  "RuneX i = push_bit (Bit i + (i - 1) * Bitx) 1 - 1"

definition Tx :: u32 where "Tx = T 1"
definition Rune1 :: u32 where "Rune1 = push_bit (Bit 0 + 0 * Bitx) 1 - 1"
definition Maskx :: u32 where "Maskx = push_bit Bitx 1 - 1"
definition Testx :: u32 where "Testx = Maskx XOR 0xFF"

lemmas rune_consts =
  UTFmax_def Runeself_def Runeerror_def Runemax_def SurrogateMin_def SurrogateMax_def
  Bit_def Bitx_def T_def RuneX_def Tx_def Rune1_def Maskx_def Testx_def

section \<open>The codec\<close>

definition byte0 :: "bytes \<Rightarrow> u8" where
  "byte0 s = (case s of [] \<Rightarrow> 0 | b # _ \<Rightarrow> b)"

text \<open>
  The loop of \<open>chartorune\<close> at index \<open>i\<close>: \<open>c0\<close> is the first byte, \<open>l\<close> the bits so far, the
  list the bytes from \<open>str+i\<close> on. A result is the rune and the number of bytes it takes.
\<close>

function c2r :: "nat \<Rightarrow> u32 \<Rightarrow> u32 \<Rightarrow> bytes \<Rightarrow> u32 \<times> nat" where
  "c2r i c0 l s =
     (if i < UTFmax then
        (let c = ucast (byte0 s) XOR Tx in
         if c AND Testx \<noteq> 0 then (Runeerror, 1)
         else
           (let l = push_bit Bitx l OR c in
            if c0 < T (i + 2) then
              (let l = l AND RuneX (i + 1) in
               if i = 1 \<and> (c0 < T 2 \<or> l \<le> Rune1) then (Runeerror, 1)
               else if i \<noteq> 1 \<and> (l \<le> RuneX i \<or> l > Runemax) then (Runeerror, 1)
               else if i = 2 \<and> SurrogateMin \<le> l \<and> l \<le> SurrogateMax then (Runeerror, 1)
               else (l, i + 1))
            else c2r (i + 1) c0 l (tl s)))
      else (Runeerror, 1))"
  by pat_completeness auto
termination
  by (relation "measure (\<lambda>(i, _). UTFmax - i)") auto

definition chartorune :: "bytes \<Rightarrow> u32 \<times> nat" where
  "chartorune s =
     (let c0 = ucast (byte0 s) in
      if c0 < Tx then (c0, 1) else c2r 1 c0 c0 (tl s))"

text \<open>The bytes stored for a rune in the branch for \<open>i\<close> bytes of \<open>runetochar\<close>.\<close>

definition rune_bytes :: "nat \<Rightarrow> u32 \<Rightarrow> bytes" where
  "rune_bytes i c =
     ucast (T i OR drop_bit ((i - 1) * Bitx) c) #
     map (\<lambda>j. ucast (Tx OR (drop_bit ((i - j - 1) * Bitx) c AND Maskx))) [1..<i]"

function r2c :: "nat \<Rightarrow> u32 \<Rightarrow> bytes" where
  "r2c i c =
     (if i < UTFmax + 1 then
        (let c = (if i = 3 \<and> c > Runemax then Runeerror else c);
             c = (if i = 3 \<and> SurrogateMin \<le> c \<and> c \<le> SurrogateMax then Runeerror else c) in
         if c \<le> RuneX i \<or> i = UTFmax then rune_bytes i c else r2c (i + 1) c)
      else [])"
  by pat_completeness auto
termination
  by (relation "measure (\<lambda>(i, _). UTFmax + 1 - i)") auto

definition runetochar :: "u32 \<Rightarrow> bytes" where
  "runetochar c = (if c \<le> Rune1 then [ucast c] else r2c 2 c)"

definition runelen :: "u32 \<Rightarrow> nat" where
  "runelen r =
     (if r \<le> Rune1 then 1 else if r \<le> RuneX 2 then 2
      else if r \<le> RuneX 3 \<or> r > Runemax then 3 else UTFmax)"

fun runenlen :: "u32 list \<Rightarrow> nat" where
  "runenlen [] = 0"
| "runenlen (c # r) = (if c \<le> Rune1 then 1 else runelen c) + runenlen r"

text \<open>The loop \<open>for(i = 3; i < UTFmax + 1; i++)\<close> of \<open>fullrune\<close>.\<close>

function fullrune_loop :: "nat \<Rightarrow> u32 \<Rightarrow> int \<Rightarrow> bool" where
  "fullrune_loop i c n =
     (if i < UTFmax + 1 then
        (if c < T i then n \<ge> int i - 1 else fullrune_loop (i + 1) c n)
      else n \<ge> int UTFmax)"
  by pat_completeness auto
termination
  by (relation "measure (\<lambda>(i, _). UTFmax + 1 - i)") auto

definition fullrune :: "bytes \<Rightarrow> int \<Rightarrow> bool" where
  "fullrune s n =
     (if n \<le> 0 then False
      else (let c = ucast (byte0 s) in if c < Tx then True else fullrune_loop 3 c n))"

declare c2r.simps [simp del] r2c.simps [simp del] fullrune_loop.simps [simp del]

section \<open>Unfolded equations\<close>

lemma T_simps [simp]: "T 2 = 0xC0" "T 3 = 0xE0" "T 4 = 0xF0" "T 5 = 0xF8"
  by (simp_all add: rune_consts)

lemma RuneX_simps [simp]: "RuneX 2 = 0x7FF" "RuneX 3 = 0xFFFF" "RuneX 4 = 0x1FFFFF"
  by (simp_all add: rune_consts)

lemma rune_simps [simp]:
  "Tx = 0x80" "Rune1 = 0x7F" "Maskx = 0x3F" "Testx = 0xC0" "Bitx = 6" "UTFmax = 4"
  by (simp_all add: rune_consts)

text \<open>The payload of a continuation byte, or \<open>None\<close> if the byte is not one.\<close>

definition cont6 :: "u8 \<Rightarrow> u32 option" where
  "cont6 b = (let c = ucast b XOR 0x80 in if c AND 0xC0 \<noteq> 0 then None else Some c)"

text \<open>One more group of six bits. The routines' proofs treat it as opaque.\<close>

definition join6 :: "u32 \<Rightarrow> u32 \<Rightarrow> u32" where
  "join6 l c = push_bit 6 l OR c"

lemma c2r_1:
  "c2r (Suc 0) c0 l s =
     (case cont6 (byte0 s) of
        None \<Rightarrow> (Runeerror, 1)
      | Some c \<Rightarrow>
         (let l = join6 l c in
          if c0 < 0xE0 then
            (if c0 < 0xC0 \<or> l AND 0x7FF \<le> 0x7F then (Runeerror, 1) else (l AND 0x7FF, 2))
          else c2r 2 c0 l (tl s)))"
  by (subst c2r.simps) (simp add: cont6_def join6_def Let_def numeral_2_eq_2 [symmetric] numeral_3_eq_3 [symmetric])

lemma c2r_2:
  "c2r 2 c0 l s =
     (case cont6 (byte0 s) of
        None \<Rightarrow> (Runeerror, 1)
      | Some c \<Rightarrow>
         (let l = join6 l c in
          if c0 < 0xF0 then
            (let l = l AND 0xFFFF in
             if l \<le> 0x7FF \<or> l > 0x10FFFF \<or> 0xD800 \<le> l \<and> l \<le> 0xDFFF then (Runeerror, 1)
             else (l, 3))
          else c2r 3 c0 l (tl s)))"
  by (subst c2r.simps) (simp add: cont6_def join6_def Let_def Runemax_def SurrogateMin_def SurrogateMax_def)

lemma c2r_3:
  "c2r 3 c0 l s =
     (case cont6 (byte0 s) of
        None \<Rightarrow> (Runeerror, 1)
      | Some c \<Rightarrow>
         (let l = join6 l c in
          if c0 < 0xF8 then
            (let l = l AND 0x1FFFFF in
             if l \<le> 0xFFFF \<or> l > 0x10FFFF then (Runeerror, 1) else (l, 4))
          else (Runeerror, 1)))"
  by (subst c2r.simps, subst c2r.simps) (simp add: cont6_def join6_def Let_def Runemax_def)

section \<open>Bit facts\<close>

lemma unat_2p32:
  assumes "k < 32"
  shows "unat (2 ^ k :: u32) = 2 ^ k"
proof -
  have "unat (of_nat (2 ^ k) :: u32) = take_bit 32 (2 ^ k)"
    by (simp only: unsigned_of_nat) simp
  then show ?thesis using assms by simp
qed

lemma unat_push_small:
  fixes y :: u32
  assumes "unat y * 2 ^ k + 2 ^ k \<le> 256"
  shows "unat (push_bit k y) = unat y * 2 ^ k"
proof -
  have "unat (push_bit k y) = take_bit 32 (push_bit k (unat y))"
    by (simp only: unsigned_push_bit_eq) simp
  also have "\<dots> = take_bit 32 (unat y * 2 ^ k)" by (simp only: push_bit_eq_mult)
  also have "\<dots> = unat y * 2 ^ k" using assms by (intro take_bit_nat_eq_self) simp
  finally show ?thesis .
qed

lemma lt_take_bit:
  fixes x :: u32
  assumes "x < 2 ^ k" and "k < 32"
  shows "take_bit k x = x"
proof -
  have "unat (2 ^ k :: u32) = 2 ^ k" using assms(2) by (rule unat_2p32)
  then have "unat x < 2 ^ k" using assms(1) by (simp add: word_less_nat_alt)
  then have "unat (take_bit k x) = unat x"
    by (simp only: unsigned_take_bit_eq take_bit_nat_eq_self)
  then show ?thesis by (rule unsigned_word_eqI)
qed

lemma bit_lead:
  "bit (0x80 :: int) n \<longleftrightarrow> n = 7"
  "bit (0xC0 :: int) n \<longleftrightarrow> 6 \<le> n \<and> n < 8"
  "bit (0xE0 :: int) n \<longleftrightarrow> 5 \<le> n \<and> n < 8"
  "bit (0xF0 :: int) n \<longleftrightarrow> 4 \<le> n \<and> n < 8"
proof -
  have e: "(0x80 :: int) = push_bit 7 (mask 1)" "(0xC0 :: int) = push_bit 6 (mask 2)"
    "(0xE0 :: int) = push_bit 5 (mask 3)" "(0xF0 :: int) = push_bit 4 (mask 4)"
    by (simp_all add: mask_eq_exp_minus_1 push_bit_eq_mult)
  show "bit (0x80 :: int) n \<longleftrightarrow> n = 7"
    unfolding e by (simp only: bit_push_bit_iff bit_mask_iff) auto
  show "bit (0xC0 :: int) n \<longleftrightarrow> 6 \<le> n \<and> n < 8"
    unfolding e by (simp only: bit_push_bit_iff bit_mask_iff) auto
  show "bit (0xE0 :: int) n \<longleftrightarrow> 5 \<le> n \<and> n < 8"
    unfolding e by (simp only: bit_push_bit_iff bit_mask_iff) auto
  show "bit (0xF0 :: int) n \<longleftrightarrow> 4 \<le> n \<and> n < 8"
    unfolding e by (simp only: bit_push_bit_iff bit_mask_iff) auto
qed

lemma masks:
  fixes l :: u32
  shows "l AND 0x3F = take_bit 6 l" "l AND 0x7FF = take_bit 11 l" "l AND 0xFFFF = take_bit 16 l"
    "l AND 0x1FFFFF = take_bit 21 l"
  by (simp_all add: take_bit_eq_mask mask_eq_exp_minus_1)

lemma or_push:
  fixes x :: u32
  assumes "take_bit k x = x"
  shows "push_bit k y OR x = push_bit k y + x"
proof -
  have "push_bit k y AND take_bit k x = 0"
    by (rule bit_word_eqI) (auto simp: bit_simps)
  then show ?thesis using assms by (simp add: disjunctive_add_eq_or)
qed

lemma cont6_enc: "cont6 (ucast (0x80 OR take_bit 6 (y::u32))) = Some (take_bit 6 y)"
proof -
  have x: "ucast (ucast (0x80 OR take_bit 6 y) :: u8) XOR 0x80 = take_bit 6 y"
    by (rule bit_word_eqI) (auto simp: bit_simps bit_lead)
  have "take_bit 6 y AND 0xC0 = 0"
    by (rule bit_word_eqI) (auto simp: bit_simps bit_lead)
  with x show ?thesis by (simp add: cont6_def Let_def)
qed

lemma cont6_Some:
  assumes "cont6 b = Some c"
  shows "take_bit 6 c = c" and "b = ucast (0x80 OR c)"
proof -
  from assms have c: "c = ucast b XOR 0x80" and z: "c AND 0xC0 = 0"
    by (auto simp: cont6_def Let_def split: if_splits)
  have hi: "\<not> bit c n" if "6 \<le> n" for n
  proof (cases "n < 8")
    case True
    have "\<not> bit (c AND 0xC0) n" using z by simp
    with True that show ?thesis by (simp add: bit_simps bit_lead)
  next
    case False
    then show ?thesis by (auto simp: c bit_simps bit_lead not_bit_u8)
  qed
  then show "take_bit 6 c = c"
    by (intro bit_word_eqI) (meson bit_take_bit_iff not_less)
  have b7: "bit b 7" using hi [of 7] by (simp add: c bit_simps bit_lead)
  show "b = ucast (0x80 OR c)"
  proof (rule bit_word_eqI)
    fix n assume "n < LENGTH(8)"
    then have "n < 7 \<or> n = 7" by auto
    then show "bit b n = bit (ucast (0x80 OR c) :: u8) n"
      using b7 by (auto simp: c bit_simps bit_lead)
  qed
qed

text \<open>Lead bytes: a payload below the marker bits, and how to recover it from the byte's range.\<close>

lemma lead_enc:
  fixes x y :: u32
  assumes x: "x < 2 ^ k" and k: "k < 8" and y: "unat y * 2 ^ k + 2 ^ k \<le> 256"
  shows "push_bit k y \<le> push_bit k y OR x" and "push_bit k y OR x < push_bit k y + 2 ^ k"
    and "ucast (ucast (push_bit k y OR x) :: u8) = push_bit k y OR x"
proof -
  have xk: "take_bit k x = x" using x k by (intro lt_take_bit) simp_all
  have ux: "unat x < 2 ^ k" using x k by (simp add: word_less_nat_alt unat_2p32)
  have p: "unat (push_bit k y) = unat y * 2 ^ k"
    using y by (rule unat_push_small)
  have s: "unat (push_bit k y OR x) = unat y * 2 ^ k + unat x"
    using y ux by (simp add: or_push [OF xk] unat_word_ariths p)
  show "push_bit k y \<le> push_bit k y OR x"
    by (simp add: word_le_nat_alt s p)
  have "unat (push_bit k y + 2 ^ k) = unat y * 2 ^ k + 2 ^ k"
    using y k by (simp add: unat_word_ariths p unat_2p32)
  then show "push_bit k y OR x < push_bit k y + 2 ^ k"
    using ux by (simp add: word_less_nat_alt s)
  have "unat (push_bit k y OR x) < 2 ^ 8" using s ux y by simp
  then have "push_bit k y OR x < 2 ^ 8" by (simp add: word_less_nat_alt)
  then have "take_bit 8 (push_bit k y OR x) = push_bit k y OR x"
    by (intro lt_take_bit) simp_all
  then show "ucast (ucast (push_bit k y OR x) :: u8) = push_bit k y OR x"
    by (simp add: byte_piece32)
qed

lemma lead_inv:
  fixes c y :: u32
  assumes lo: "push_bit k y \<le> c" and hi: "c < push_bit k y + 2 ^ k" and k: "k < 8"
    and y: "unat y * 2 ^ k + 2 ^ k \<le> 256"
  shows "c = push_bit k y OR take_bit k c" and "take_bit k c < 2 ^ k"
proof -
  have p: "unat (push_bit k y) = unat y * 2 ^ k"
    using y by (rule unat_push_small)
  have "unat (push_bit k y + 2 ^ k) = unat y * 2 ^ k + 2 ^ k"
    using y k by (simp add: unat_word_ariths p unat_2p32)
  with lo hi have u: "unat y * 2 ^ k \<le> unat c" "unat c < unat y * 2 ^ k + 2 ^ k"
    by (simp_all add: word_le_nat_alt word_less_nat_alt p)
  define x where "x = c - push_bit k y"
  have c: "c = push_bit k y + x" by (simp add: x_def)
  have "unat x = unat c - unat y * 2 ^ k"
    using lo by (simp add: x_def unat_sub_if' p word_le_nat_alt)
  then have "x < 2 ^ k" using u k by (simp add: word_less_nat_alt unat_2p32)
  then have xk: "take_bit k x = x" using k by (intro lt_take_bit) simp_all
  have "take_bit k c = x"
  proof -
    have "take_bit k (push_bit k y OR x) = x"
      using xk by (simp add: take_bit_push_bit)
    then show ?thesis by (simp add: c or_push [OF xk])
  qed
  with c or_push [OF xk] \<open>x < 2 ^ k\<close> show "c = push_bit k y OR take_bit k c" "take_bit k c < 2 ^ k"
    by simp_all
qed

section \<open>The encoder, unfolded\<close>

lemma upt_small: "[Suc 0..<2] = [1]" "[Suc 0..<3] = [1, 2]" "[Suc 0..<4] = [1, 2, 3]"
  by (simp_all add: upt_rec)

lemma rune_bytes_eq:
  "rune_bytes 2 c = [ucast (0xC0 OR drop_bit 6 c), ucast (0x80 OR take_bit 6 c)]"
  "rune_bytes 3 c = [ucast (0xE0 OR drop_bit 12 c), ucast (0x80 OR take_bit 6 (drop_bit 6 c)),
     ucast (0x80 OR take_bit 6 c)]"
  "rune_bytes 4 c = [ucast (0xF0 OR drop_bit 18 c), ucast (0x80 OR take_bit 6 (drop_bit 12 c)),
     ucast (0x80 OR take_bit 6 (drop_bit 6 c)), ucast (0x80 OR take_bit 6 c)]"
  by (simp_all add: rune_bytes_def masks upt_small)

definition valid_rune :: "u32 \<Rightarrow> bool" where
  "valid_rune c \<longleftrightarrow> c \<le> Runemax \<and> \<not> (SurrogateMin \<le> c \<and> c \<le> SurrogateMax)"

lemma runetochar_eq:
  "runetochar c =
     (if c \<le> 0x7F then [ucast c] else if c \<le> 0x7FF then rune_bytes 2 c
      else if \<not> valid_rune c then rune_bytes 3 Runeerror
      else if c \<le> 0xFFFF then rune_bytes 3 c else rune_bytes 4 c)"
  unfolding runetochar_def
  by (subst r2c.simps, subst r2c.simps, subst r2c.simps)
    (auto simp: valid_rune_def Runemax_def SurrogateMin_def SurrogateMax_def Runeerror_def Let_def)

section \<open>The decoder on encoded runes\<close>

lemma enc_lead:
  fixes c :: u32
  shows "c \<le> 0x7FF \<Longrightarrow> ucast (ucast (0xC0 OR drop_bit 6 c) :: u8) = 0xC0 OR drop_bit 6 c"
    and "c \<le> 0x7FF \<Longrightarrow> 0xC0 \<le> 0xC0 OR drop_bit 6 c \<and> 0xC0 OR drop_bit 6 c < 0xE0"
    and "c \<le> 0xFFFF \<Longrightarrow> ucast (ucast (0xE0 OR drop_bit 12 c) :: u8) = 0xE0 OR drop_bit 12 c"
    and "c \<le> 0xFFFF \<Longrightarrow> 0xE0 \<le> 0xE0 OR drop_bit 12 c \<and> 0xE0 OR drop_bit 12 c < 0xF0"
    and "c \<le> 0x10FFFF \<Longrightarrow> ucast (ucast (0xF0 OR drop_bit 18 c) :: u8) = 0xF0 OR drop_bit 18 c"
    and "c \<le> 0x10FFFF \<Longrightarrow> 0xF0 \<le> 0xF0 OR drop_bit 18 c \<and> 0xF0 OR drop_bit 18 c < 0xF8"
proof -
  have d: "drop_bit n c < 2 ^ k" if "unat c < 2 ^ (n + k)" "k < 32" for n k
  proof -
    have "unat (drop_bit n c) = unat c div 2 ^ n"
      by (simp only: unat_drop_bit_eq) (simp only: drop_bit_eq_div)
    then show ?thesis
      using that by (simp only: word_less_nat_alt unat_2p32 less_mult_imp_div_less power_add mult.commute)
  qed
  have p: "push_bit 5 6 = (0xC0 :: u32)" "push_bit 4 14 = (0xE0 :: u32)" "push_bit 3 30 = (0xF0 :: u32)"
    by simp_all
  note e2 = lead_enc [of "drop_bit 6 c" 5 6, unfolded p]
  note e3 = lead_enc [of "drop_bit 12 c" 4 14, unfolded p]
  note e4 = lead_enc [of "drop_bit 18 c" 3 30, unfolded p]
  {
    assume "c \<le> 0x7FF"
    then have "drop_bit 6 c < 2 ^ 5" by (intro d) (simp_all add: word_le_nat_alt)
    from e2 [OF this]
    show "ucast (ucast (0xC0 OR drop_bit 6 c) :: u8) = 0xC0 OR drop_bit 6 c"
      and "0xC0 \<le> 0xC0 OR drop_bit 6 c \<and> 0xC0 OR drop_bit 6 c < 0xE0" by simp_all
  next
    assume "c \<le> 0xFFFF"
    then have "drop_bit 12 c < 2 ^ 4" by (intro d) (simp_all add: word_le_nat_alt)
    from e3 [OF this]
    show "ucast (ucast (0xE0 OR drop_bit 12 c) :: u8) = 0xE0 OR drop_bit 12 c"
      and "0xE0 \<le> 0xE0 OR drop_bit 12 c \<and> 0xE0 OR drop_bit 12 c < 0xF0" by simp_all
  next
    assume "c \<le> 0x10FFFF"
    then have "drop_bit 18 c < 2 ^ 3" by (intro d) (simp_all add: word_le_nat_alt)
    from e4 [OF this]
    show "ucast (ucast (0xF0 OR drop_bit 18 c) :: u8) = 0xF0 OR drop_bit 18 c"
      and "0xF0 \<le> 0xF0 OR drop_bit 18 c \<and> 0xF0 OR drop_bit 18 c < 0xF8" by simp_all
  }
qed

lemma join_rune:
  fixes c :: u32
  shows "take_bit 11 (join6 (0xC0 OR drop_bit 6 c) (take_bit 6 c)) = take_bit 11 c"
    and "take_bit 16 (join6 (join6 (0xE0 OR drop_bit 12 c) (take_bit 6 (drop_bit 6 c)))
           (take_bit 6 c)) = take_bit 16 c"
    and "take_bit 21 (join6 (join6 (join6 (0xF0 OR drop_bit 18 c) (take_bit 6 (drop_bit 12 c)))
           (take_bit 6 (drop_bit 6 c))) (take_bit 6 c)) = take_bit 21 c"
proof -
  have n: "n < 6 \<or> 6 \<le> n \<and> n < 12 \<or> 12 \<le> n \<and> n < 18 \<or> 18 \<le> n" for n :: nat by auto
  have m: "12 \<le> n \<Longrightarrow> \<not> n - 6 < (6::nat)" "18 \<le> n \<Longrightarrow> \<not> n - 12 < (6::nat)" "n < 12 \<Longrightarrow> n < 18"
    "6 \<le> n \<and> n < 12 \<Longrightarrow> n - 6 < 6" "12 \<le> n \<and> n < 18 \<Longrightarrow> n - 12 < 6" for n :: nat by auto
  show "take_bit 11 (join6 (0xC0 OR drop_bit 6 c) (take_bit 6 c)) = take_bit 11 c"
    by (rule bit_word_eqI) (auto simp: join6_def bit_simps bit_lead)
  show "take_bit 16 (join6 (join6 (0xE0 OR drop_bit 12 c) (take_bit 6 (drop_bit 6 c)))
           (take_bit 6 c)) = take_bit 16 c" (is "?l = ?r")
  proof (rule bit_word_eqI)
    fix k show "bit ?l k = bit ?r k"
      using n [of k] m [of k] by (elim disjE) (auto simp: join6_def bit_simps bit_lead)
  qed
  show "take_bit 21 (join6 (join6 (join6 (0xF0 OR drop_bit 18 c) (take_bit 6 (drop_bit 12 c)))
           (take_bit 6 (drop_bit 6 c))) (take_bit 6 c)) = take_bit 21 c" (is "?l = ?r")
  proof (rule bit_word_eqI)
    fix k show "bit ?l k = bit ?r k"
      using n [of k] m [of k] by (elim disjE) (auto simp: join6_def bit_simps bit_lead)
  qed
qed

lemma take_rune:
  fixes c :: u32
  shows "c \<le> 0x7FF \<Longrightarrow> take_bit 11 c = c" and "c \<le> 0xFFFF \<Longrightarrow> take_bit 16 c = c"
    and "c \<le> 0x10FFFF \<Longrightarrow> take_bit 21 c = c"
  by (rule lt_take_bit; simp add: word_less_nat_alt word_le_nat_alt)+

lemma byte0_Cons [simp]: "byte0 (b # s) = b"
  by (simp add: byte0_def)


lemma chartorune_enc2:
  assumes "0x7F < c" "c \<le> 0x7FF"
  shows "chartorune (rune_bytes 2 c @ rest) = (c, 2)"
proof -
  have "\<not> 0xC0 OR drop_bit 6 c < 0x80"
    using enc_lead(2) [OF assms(2)] by (auto simp: word_less_nat_alt word_le_nat_alt)
  then show ?thesis
    using assms enc_lead(1,2) [of c]
    by (simp add: rune_bytes_eq chartorune_def c2r_1 cont6_enc masks
        join_rune take_rune Let_def not_less [symmetric])
qed

lemma chartorune_enc3:
  assumes "0x7FF < c" "c \<le> 0xFFFF" "\<not> (0xD800 \<le> c \<and> c \<le> 0xDFFF)"
  shows "chartorune (rune_bytes 3 c @ rest) = (c, 3)"
proof -
  have "\<not> 0xE0 OR drop_bit 12 c < 0x80" "\<not> 0xE0 OR drop_bit 12 c < 0xE0" "c \<le> 0x10FFFF"
    using enc_lead(4) [OF assms(2)] assms(2) by (auto simp: word_less_nat_alt word_le_nat_alt)
  then show ?thesis
    using assms enc_lead(3,4) [of c]
    by (simp add: rune_bytes_eq chartorune_def c2r_1 c2r_2 cont6_enc masks
        join_rune take_rune Let_def not_less [symmetric])
qed

lemma chartorune_enc4:
  assumes "0xFFFF < c" "c \<le> 0x10FFFF"
  shows "chartorune (rune_bytes 4 c @ rest) = (c, 4)"
proof -
  have "\<not> 0xF0 OR drop_bit 18 c < 0x80" "\<not> 0xF0 OR drop_bit 18 c < 0xE0" "\<not> 0xF0 OR drop_bit 18 c < 0xF0"
    using enc_lead(6) [OF assms(2)] assms(2) by (auto simp: word_less_nat_alt word_le_nat_alt)
  then show ?thesis
    using assms enc_lead(5,6) [of c]
    by (simp add: rune_bytes_eq chartorune_def c2r_1 c2r_2 c2r_3 cont6_enc masks
        join_rune take_rune Let_def not_less [symmetric])
qed

lemma runetochar_1: "c \<le> 0x7F \<Longrightarrow> chartorune (ucast c # rest) = (c, 1)"
  using lt_take_bit [of c 7] lt_take_bit [of c 8]
  by (simp add: chartorune_def byte_piece32 word_less_nat_alt word_le_nat_alt Let_def)

lemma length_rune_bytes [simp]: "2 \<le> i \<Longrightarrow> length (rune_bytes i c) = i"
  by (simp add: rune_bytes_def)

lemma chartorune_runetochar:
  "chartorune (runetochar c @ rest) = (if valid_rune c then c else Runeerror, length (runetochar c))"
proof -
  have e: "chartorune (rune_bytes 3 Runeerror @ rest) = (Runeerror, 3)"
    by (rule chartorune_enc3) (simp_all add: Runeerror_def)
  show ?thesis
    using runetochar_1 [of c rest] chartorune_enc2 [of c rest] chartorune_enc3 [of c rest]
      chartorune_enc4 [of c rest] e
    by (auto simp: runetochar_eq valid_rune_def Runemax_def SurrogateMin_def SurrogateMax_def not_le
       word_less_nat_alt word_le_nat_alt)
qed

lemma runelen_runetochar: "runelen c = length (runetochar c)"
  by (auto simp: runelen_def runetochar_eq valid_rune_def Runemax_def SurrogateMin_def SurrogateMax_def
    word_less_nat_alt word_le_nat_alt)

section \<open>What the decoder accepts\<close>

lemma cont6_byte0: "cont6 (byte0 s) = Some c \<Longrightarrow> \<exists>b t. s = b # t \<and> cont6 b = Some c"
  by (cases s) (auto simp: byte0_def cont6_def)

lemma decode_cases:
  assumes "chartorune s = (r, n)" and "1 < n"
  obtains (two) b0 b1 t c1 where "s = b0 # b1 # t" "cont6 b1 = Some c1" "n = 2"
      "0xC0 \<le> (ucast b0 :: u32)" "(ucast b0 :: u32) < 0xE0"
      "r = take_bit 11 (join6 (ucast b0) c1)" "0x7F < r"
    | (three) b0 b1 b2 t c1 c2 where "s = b0 # b1 # b2 # t" "cont6 b1 = Some c1" "cont6 b2 = Some c2"
      "n = 3" "0xE0 \<le> (ucast b0 :: u32)" "(ucast b0 :: u32) < 0xF0"
      "r = take_bit 16 (join6 (join6 (ucast b0) c1) c2)" "0x7FF < r"
      "r \<le> 0x10FFFF" "\<not> (0xD800 \<le> r \<and> r \<le> 0xDFFF)"
    | (four) b0 b1 b2 b3 t c1 c2 c3 where "s = b0 # b1 # b2 # b3 # t" "cont6 b1 = Some c1"
      "cont6 b2 = Some c2" "cont6 b3 = Some c3" "n = 4" "0xF0 \<le> (ucast b0 :: u32)"
      "(ucast b0 :: u32) < 0xF8" "r = take_bit 21 (join6 (join6 (join6 (ucast b0) c1) c2) c3)"
      "0xFFFF < r" "r \<le> 0x10FFFF"
proof -
  from assms have "s \<noteq> []" by (auto simp: chartorune_def byte0_def)
  then obtain b0 t where s: "s = b0 # t" by (cases s) auto
  show thesis
  proof (cases "cont6 (byte0 t)")
    case None
    then show thesis using assms by (auto simp: s chartorune_def c2r_1 Let_def split: if_splits)
  next
    case (Some c1)
    with cont6_byte0 obtain b1 t1 where t: "t = b1 # t1" and c1: "cont6 b1 = Some c1" by blast
    show thesis
    proof (cases "(ucast b0 :: u32) < 0xE0")
      case True
      then show thesis using assms two [OF _ c1, of b0 t1]
        by (auto simp: s t c1 chartorune_def c2r_1 masks Let_def not_less not_le split: if_splits)
    next
      case f1: False
      have d1: "c2r 2 (ucast b0) (join6 (ucast b0) c1) t1 = (r, n)"
        using assms f1 by (auto simp: s t c1 chartorune_def c2r_1 Let_def split: if_splits)
      show thesis
      proof (cases "cont6 (byte0 t1)")
        case None
        then show thesis using d1 assms(2) by (auto simp: c2r_2 split: if_splits)
      next
        case (Some c2)
        with cont6_byte0 obtain b2 t2 where t1: "t1 = b2 # t2" and c2: "cont6 b2 = Some c2" by blast
        show thesis
        proof (cases "(ucast b0 :: u32) < 0xF0")
          case True
          then show thesis using d1 assms(2) f1 three [OF _ c1 c2, of b0 t2]
            by (auto simp: s t t1 c2 c2r_2 masks Let_def not_less not_le split: if_splits)
        next
          case f2: False
          show thesis
          proof (cases "cont6 (byte0 t2)")
            case None
            then show thesis using d1 assms(2) f2
              by (auto simp: t1 c2 c2r_2 c2r_3 Let_def split: if_splits)
          next
            case (Some c3)
            with cont6_byte0 obtain b3 t3 where t2: "t2 = b3 # t3" and c3: "cont6 b3 = Some c3"
              by blast
            then show thesis using d1 assms(2) f2 four [OF _ c1 c2 c3, of b0 t3]
              by (auto simp: s t t1 t2 c2 c2r_2 c2r_3 masks Let_def not_less not_le split: if_splits)
          qed
        qed
      qed
    qed
  qed
qed

lemma lead_take:
  fixes c :: u32
  shows "0xC0 \<le> c \<Longrightarrow> c < 0xE0 \<Longrightarrow> c = 0xC0 OR take_bit 5 c"
    and "0xE0 \<le> c \<Longrightarrow> c < 0xF0 \<Longrightarrow> c = 0xE0 OR take_bit 4 c"
    and "0xF0 \<le> c \<Longrightarrow> c < 0xF8 \<Longrightarrow> c = 0xF0 OR take_bit 3 c"
  using lead_inv(1) [of 5 6 c] lead_inv(1) [of 4 14 c] lead_inv(1) [of 3 30 c] by simp_all

lemma six_bits:
  fixes c :: u32
  assumes "take_bit 6 c = c" and "6 \<le> n"
  shows "\<not> bit c n"
  using assms by (metis bit_take_bit_iff not_less)

lemma split_rune:
  fixes b c1 c2 c3 :: u32
  assumes c: "take_bit 6 c1 = c1" "take_bit 6 c2 = c2" "take_bit 6 c3 = c3"
  shows "b = 0xC0 OR take_bit 5 b \<Longrightarrow> 0xC0 OR drop_bit 6 (take_bit 11 (join6 b c1)) = b"
    and "take_bit 6 (take_bit 11 (join6 b c1)) = c1"
    and "b = 0xE0 OR take_bit 4 b \<Longrightarrow> 0xE0 OR drop_bit 12 (take_bit 16 (join6 (join6 b c1) c2)) = b"
    and "take_bit 6 (drop_bit 6 (take_bit 16 (join6 (join6 b c1) c2))) = c1"
    and "take_bit 6 (take_bit 16 (join6 (join6 b c1) c2)) = c2"
    and "b = 0xF0 OR take_bit 3 b \<Longrightarrow>
      0xF0 OR drop_bit 18 (take_bit 21 (join6 (join6 (join6 b c1) c2) c3)) = b"
    and "take_bit 6 (drop_bit 12 (take_bit 21 (join6 (join6 (join6 b c1) c2) c3))) = c1"
    and "take_bit 6 (drop_bit 6 (take_bit 21 (join6 (join6 (join6 b c1) c2) c3))) = c2"
    and "take_bit 6 (take_bit 21 (join6 (join6 (join6 b c1) c2) c3)) = c3"
proof -
  note s = c [THEN six_bits]
  have d: "0xC0 OR drop_bit 6 (take_bit 11 (join6 b c1)) = 0xC0 OR take_bit 5 b"
    "0xE0 OR drop_bit 12 (take_bit 16 (join6 (join6 b c1) c2)) = 0xE0 OR take_bit 4 b"
    "0xF0 OR drop_bit 18 (take_bit 21 (join6 (join6 (join6 b c1) c2) c3)) = 0xF0 OR take_bit 3 b"
    by (rule bit_word_eqI, use s in \<open>auto simp: join6_def bit_simps bit_lead\<close>)+
  show "b = 0xC0 OR take_bit 5 b \<Longrightarrow> 0xC0 OR drop_bit 6 (take_bit 11 (join6 b c1)) = b"
    and "b = 0xE0 OR take_bit 4 b \<Longrightarrow> 0xE0 OR drop_bit 12 (take_bit 16 (join6 (join6 b c1) c2)) = b"
    and "b = 0xF0 OR take_bit 3 b \<Longrightarrow>
      0xF0 OR drop_bit 18 (take_bit 21 (join6 (join6 (join6 b c1) c2) c3)) = b"
    by (simp_all only: d)
  show "take_bit 6 (take_bit 11 (join6 b c1)) = c1"
    "take_bit 6 (drop_bit 6 (take_bit 16 (join6 (join6 b c1) c2))) = c1"
    "take_bit 6 (take_bit 16 (join6 (join6 b c1) c2)) = c2"
    "take_bit 6 (drop_bit 12 (take_bit 21 (join6 (join6 (join6 b c1) c2) c3))) = c1"
    "take_bit 6 (drop_bit 6 (take_bit 21 (join6 (join6 (join6 b c1) c2) c3))) = c2"
    "take_bit 6 (take_bit 21 (join6 (join6 (join6 b c1) c2) c3)) = c3"
    by (rule bit_word_eqI, use s in \<open>auto simp: join6_def bit_simps bit_lead\<close>)+
qed

section \<open>String routines\<close>

lemma chartorune_pos: "1 \<le> snd (chartorune s)"
proof -
  have "1 \<le> snd (c2r i c0 l t)" for i c0 l t
    by (induction i c0 l t rule: c2r.induct) (subst c2r.simps, simp add: Let_def)
  then show ?thesis by (simp add: chartorune_def Let_def)
qed

text \<open>The loop of \<open>utflen\<close>, with its counter \<open>n\<close>.\<close>

function utflen_loop :: "bytes \<Rightarrow> nat \<Rightarrow> nat" where
  "utflen_loop s n =
     (let c = (ucast (byte0 s) :: u32) in
      if c < Runeself then (if c = 0 then n else utflen_loop (tl s) (n + 1))
      else utflen_loop (drop (snd (chartorune s)) s) (n + 1))"
  by pat_completeness auto
termination
proof (relation "measure (\<lambda>(s, _). length s)")
  fix s :: bytes and n :: nat and c :: u32
  assume c: "c = ucast (byte0 s)"
  {
    assume "c \<noteq> 0"
    with c show "((tl s, n + 1), (s, n)) \<in> measure (\<lambda>(s, _). length s)"
      by (cases s) (auto simp: byte0_def)
  }
  assume "\<not> c < Runeself"
  with c have "s \<noteq> []" by (auto simp: byte0_def Runeself_def)
  then show "((drop (snd (chartorune s)) s, n + 1), (s, n)) \<in> measure (\<lambda>(s, _). length s)"
    using chartorune_pos [of s] by (cases s) auto
qed simp

definition utflen :: "bytes \<Rightarrow> nat" where
  "utflen s = utflen_loop s 0"

text \<open>
  \<open>utfnlen s m\<close>, whose state is the rest of the string, the distance \<open>es - s\<close> (a signed
  \<open>long\<close>) and the count.
\<close>

function utfnlen_loop :: "bytes \<Rightarrow> int \<Rightarrow> nat \<Rightarrow> nat" where
  "utfnlen_loop s m n =
     (if m > 0 then
        (let c = (ucast (byte0 s) :: u32) in
         if c < Runeself then (if c = 0 then n else utfnlen_loop (tl s) (m - 1) (n + 1))
         else if \<not> fullrune s m then n
         else utfnlen_loop (drop (snd (chartorune s)) s) (m - int (snd (chartorune s))) (n + 1))
      else n)"
  by pat_completeness auto
termination
  by (relation "measure (\<lambda>(_, m, _). nat m)")
    (use chartorune_pos in \<open>auto simp: nat_less_eq_zless zless_nat_conj Suc_le_eq\<close>)

definition utfnlen :: "bytes \<Rightarrow> int \<Rightarrow> nat" where
  "utfnlen s m = utfnlen_loop s m 0"

text \<open>
  The C library's \<open>strchr\<close> and \<open>strrchr\<close> on a byte string: the offset of the first (last) byte
  equal to \<open>(char)c\<close>, the terminating NUL included.
\<close>

fun strchr :: "bytes \<Rightarrow> u8 \<Rightarrow> nat option" where
  "strchr [] b = (if b = 0 then Some 0 else None)"
| "strchr (x # s) b =
     (if x = b then Some 0 else if x = 0 then None else map_option Suc (strchr s b))"

fun strrchr :: "bytes \<Rightarrow> u8 \<Rightarrow> nat option" where
  "strrchr [] b = (if b = 0 then Some 0 else None)"
| "strrchr (x # s) b =
     (if x = 0 then (if b = 0 then Some 0 else None)
      else case strrchr s b of Some k \<Rightarrow> Some (Suc k) | None \<Rightarrow> if x = b then Some 0 else None)"

text \<open>
  The loops of \<open>utfrune\<close> and \<open>utfrrune\<close>: \<open>k\<close> is the offset of \<open>s\<close> in the string, \<open>s1\<close> the last
  match so far. A pointer result is an offset, nil is \<open>None\<close>.
\<close>

function utfrune_loop :: "bytes \<Rightarrow> nat \<Rightarrow> int \<Rightarrow> nat option" where
  "utfrune_loop s k c =
     (let c1 = (ucast (byte0 s) :: u32) in
      if c1 < Runeself then
        (if c1 = 0 then None else if uint c1 = c then Some k else utfrune_loop (tl s) (k + 1) c)
      else
        (let (r, n) = chartorune s in
         if uint r = c then Some k else utfrune_loop (drop n s) (k + n) c))"
  by pat_completeness auto
termination
proof (relation "measure (\<lambda>(s, _). length s)", goal_cases)
  case (2 s k c c1)
  then show ?case by (cases s) (auto simp: byte0_def)
next
  case (3 s k c c1 p r n)
  then have "1 \<le> n" using chartorune_pos [of s] by (metis snd_conv)
  with 3 show ?case by (cases s) (auto simp: byte0_def Runeself_def)
qed simp

definition utfrune :: "bytes \<Rightarrow> int \<Rightarrow> nat option" where
  "utfrune s c = (if c < Runesync then strchr s (word_of_int c) else utfrune_loop s 0 c)"

function utfrrune_loop :: "bytes \<Rightarrow> nat \<Rightarrow> int \<Rightarrow> nat option \<Rightarrow> nat option" where
  "utfrrune_loop s k c s1 =
     (let c1 = (ucast (byte0 s) :: u32) in
      if c1 < Runeself then
        (if c1 = 0 then s1
         else utfrrune_loop (tl s) (k + 1) c (if uint c1 = c then Some k else s1))
      else
        (let (r, n) = chartorune s in
         utfrrune_loop (drop n s) (k + n) c (if uint r = c then Some k else s1)))"
  by pat_completeness auto
termination
proof (relation "measure (\<lambda>(s, _). length s)", goal_cases)
  case (2 s k c s1 c1)
  then show ?case by (cases s) (auto simp: byte0_def)
next
  case (3 s k c s1 c1 p r n)
  then have "1 \<le> n" using chartorune_pos [of s] by (metis snd_conv)
  with 3 show ?case by (cases s) (auto simp: byte0_def Runeself_def)
qed simp

definition utfrrune :: "bytes \<Rightarrow> int \<Rightarrow> nat option" where
  "utfrrune s c = (if c < Runesync then strrchr s (word_of_int c) else utfrrune_loop s 0 c None)"

text \<open>
  \<open>memccpy(to, from, '\0', n)\<close> of the C library: the bytes written at \<open>to\<close>, and whether the
  NUL was met (then the result points after it, otherwise it is nil).
\<close>

definition memccpy0 :: "bytes \<Rightarrow> nat \<Rightarrow> bytes \<times> bool" where
  "memccpy0 from n =
     (let body = takeWhile (\<lambda>b. b \<noteq> 0) from in
      if length body < n then (body @ [0], True) else (take n body, False))"

text \<open>Overwriting the first bytes of a buffer.\<close>

definition overlay :: "bytes \<Rightarrow> bytes \<Rightarrow> bytes" where
  "overlay buf xs = xs @ drop (length xs) buf"

text \<open>
  \<open>strecpy(to, e, from)\<close> and \<open>utfecpy(to, e, from)\<close>, where \<open>buf\<close> holds the \<open>e - to\<close> bytes of the
  destination: the destination afterwards and the offset of the result in it.
\<close>

definition strecpy :: "bytes \<Rightarrow> bytes \<Rightarrow> bytes \<times> nat" where
  "strecpy buf from =
     (if buf = [] then (buf, 0)
      else case memccpy0 from (length buf) of
        (w, True) \<Rightarrow> (overlay buf w, length w - 1)
      | (w, False) \<Rightarrow> ((overlay buf w)[length buf - 1 := 0], length buf - 1))"

text \<open>\<open>while(end>to && (*--end&0xC0)==0x80);\<close>\<close>

fun utfback :: "bytes \<Rightarrow> nat \<Rightarrow> nat" where
  "utfback w 0 = 0"
| "utfback w (Suc k) = (if w ! k AND 0xC0 = 0x80 then utfback w k else k)"

definition utfecpy :: "bytes \<Rightarrow> bytes \<Rightarrow> bytes \<times> nat" where
  "utfecpy buf from =
     (if buf = [] then (buf, 0)
      else case memccpy0 from (length buf) of
        (w, True) \<Rightarrow> (overlay buf w, length w - 1)
      | (w, False) \<Rightarrow>
         (let w' = overlay buf w; k = utfback w' (length buf) in (w'[k := 0], k)))"

text \<open>\<open>runestrlen\<close>: the runes before the first zero rune.\<close>

fun runestrlen :: "u32 list \<Rightarrow> nat" where
  "runestrlen [] = 0"
| "runestrlen (r # s) = (if r \<noteq> 0 then Suc (runestrlen s) else 0)"

declare utflen_loop.simps [simp del] utfnlen_loop.simps [simp del]
  utfrune_loop.simps [simp del] utfrrune_loop.simps [simp del]

section \<open>Properties of the codec\<close>

text \<open>
  C23. Encoding and then decoding a rune, whatever follows it, gives the rune back (the error rune
  for a value above \<open>Runemax\<close> or a surrogate half) and consumes exactly the bytes written, which
  is the length \<open>runelen\<close> and \<open>runenlen\<close> promise.
\<close>
theorem utf_roundtrip:
  "chartorune (runetochar c @ rest) = (if valid_rune c then c else Runeerror, length (runetochar c))
   \<and> runelen c = length (runetochar c)
   \<and> runenlen rs = length (concat (map runetochar rs))"
proof (intro conjI)
  show "runenlen rs = length (concat (map runetochar rs))"
    by (induction rs) (simp_all add: runelen_runetochar runetochar_eq)
qed (simp_all add: chartorune_runetochar runelen_runetochar)

lemma ucast_back [simp]: "ucast (ucast (b :: u8) :: u32) = b"
  by (rule bit_word_eqI) (simp add: bit_simps)

lemma take_bit_bounds:
  fixes x :: u32
  shows "take_bit 11 x \<le> 0x7FF" and "take_bit 16 x \<le> 0xFFFF"
proof -
  have "unat (take_bit k x) < 2 ^ k" for k by (simp add: unsigned_take_bit_eq)
  from this [of 11] this [of 16] show "take_bit 11 x \<le> 0x7FF" and "take_bit 16 x \<le> 0xFFFF"
    by (simp_all add: word_le_nat_alt)
qed

lemma decode_exact:
  assumes "chartorune s = (r, n)" and "1 < n"
  shows "runetochar r = take n s \<and> valid_rune r \<and> 0x7F < r \<and> n \<le> 4"
  using assms
proof (cases rule: decode_cases)
  case (two b0 b1 t c1)
  note f = cont6_Some [OF two(2)]
  have r: "r \<le> 0x7FF" using take_bit_bounds(1) two(6) by simp
  have "rune_bytes 2 r = take n s"
    using split_rune(1,2) [OF f(1) f(1) f(1), of "ucast b0"] lead_take(1) [OF two(4,5)]
    by (simp add: rune_bytes_eq two(1,3,6) f(2) del: take_bit_take_bit)
  moreover have "runetochar r = rune_bytes 2 r"
    using two(7) r by (simp add: runetochar_eq not_le [symmetric])
  moreover have "valid_rune r"
    using r by (auto simp: valid_rune_def Runemax_def SurrogateMin_def word_le_nat_alt)
  ultimately show ?thesis using two(3,7) by simp
next
  case (three b0 b1 b2 t c1 c2)
  note f = cont6_Some [OF three(2)] cont6_Some [OF three(3)]
  have r: "r \<le> 0xFFFF" using take_bit_bounds(2) three(7) by simp
  have "rune_bytes 3 r = take n s"
    using split_rune(3,4,5) [OF f(1) f(3) f(3), of "ucast b0"] lead_take(2) [OF three(5,6)]
    by (simp add: rune_bytes_eq three(1,4,7) f(2,4) del: take_bit_take_bit)
  moreover have v: "valid_rune r"
    using three(9,10) by (auto simp: valid_rune_def Runemax_def SurrogateMin_def SurrogateMax_def)
  moreover have "0x7F < r" "\<not> r \<le> 0x7FF" using three(8) by (simp_all add: word_less_nat_alt not_le)
  then have "runetochar r = rune_bytes 3 r" "0x7F < r"
    using r v by (auto simp: runetochar_eq)
  ultimately show ?thesis using three(4) by simp
next
  case (four b0 b1 b2 b3 t c1 c2 c3)
  note f = cont6_Some [OF four(2)] cont6_Some [OF four(3)] cont6_Some [OF four(4)]
  have "rune_bytes 4 r = take n s"
    using split_rune(6,7,8,9) [OF f(1) f(3) f(5), of "ucast b0"] lead_take(3) [OF four(6,7)]
    by (simp add: rune_bytes_eq four(1,5,8) f(2,4,6) del: take_bit_take_bit)
  moreover have v: "valid_rune r"
    using four(9,10) by (auto simp: valid_rune_def Runemax_def SurrogateMin_def SurrogateMax_def
      word_less_nat_alt word_le_nat_alt)
  moreover have "0x7F < r" "\<not> r \<le> 0x7FF" "\<not> r \<le> 0xFFFF"
    using four(9) by (simp_all add: word_less_nat_alt not_le)
  then have "runetochar r = rune_bytes 4 r" "0x7F < r"
    using v by (auto simp: runetochar_eq)
  ultimately show ?thesis using four(5) by simp
qed

lemma fullrune_eq:
  "fullrune s n \<longleftrightarrow> n > 0 \<and>
     (let c = (ucast (byte0 s) :: u32) in
      c < 0x80 \<or> (if c < 0xE0 then n \<ge> 2 else if c < 0xF0 then n \<ge> 3 else n \<ge> 4))"
  unfolding fullrune_def
  by (subst fullrune_loop.simps, subst fullrune_loop.simps, subst fullrune_loop.simps)
    (auto simp: Let_def)


lemma decode_length:
  assumes "chartorune s = (r, n)" and "1 < n"
  shows "n \<le> length s"
proof -
  have d: "runetochar r = take n s \<and> valid_rune r"
    using decode_exact [OF assms] by simp
  have "length (runetochar r) = n"
    using chartorune_runetochar [of r "drop n s"] d assms by simp
  with d show ?thesis by (simp add: min_def split: if_splits)
qed

text \<open>
  C24. The decoder accepts only the shortest form of a scalar value: a result of more than one
  byte is a valid rune whose encoding is exactly the bytes consumed, at most four of them and all
  of them present. So no overlong form, surrogate half or value above \<open>Runemax\<close> is ever decoded.
\<close>
theorem utf_decode_shortest:
  assumes "chartorune s = (r, n)" and "1 < n"
  shows "runetochar r = take n s \<and> valid_rune r \<and> 0x7F < r \<and> n \<le> UTFmax \<and> n \<le> length s"
  using decode_exact [OF assms] decode_length [OF assms] by simp

theorem utf_decode_shortest_witness:
  "chartorune [0xE2, 0x82, 0xAC, 0x41] = (0x20AC, 3) \<and>
   runetochar 0x20AC = take 3 [0xE2, 0x82, 0xAC, 0x41]"
proof -
  have a: "chartorune [0xE2, 0x82, 0xAC, 0x41] = (0x20AC, 3)" by code_simp
  from utf_decode_shortest [OF a] show ?thesis using a by simp
qed

lemma chartorune_prefix:
  assumes "fullrune s n" and "n \<le> int (length s)"
  shows "chartorune (take (nat n) s @ t) = chartorune s"
proof -
  have n: "n > 0" using assms(1) by (simp add: fullrune_def split: if_splits)
  define k where "k = nat n"
  from n have k: "0 < k" "k \<le> length s" "n = int k" using assms(2) by (auto simp: k_def)
  from k obtain b0 s1 where s: "s = b0 # s1" by (cases s) auto
  let ?c = "ucast b0 :: u32"
  consider "?c < 0x80" | "\<not> ?c < 0x80" "?c < 0xE0" "2 \<le> k" | "\<not> ?c < 0xE0" "?c < 0xF0" "3 \<le> k"
    | "\<not> ?c < 0xF0" "4 \<le> k"
    using assms(1) k by (auto simp: fullrune_eq s Let_def split: if_splits)
  then have "chartorune (take k s @ t) = chartorune s"
  proof cases
    case 1
    then show ?thesis using k by (cases k) (simp_all add: s chartorune_def)
  next
    case 2
    then obtain b1 s2 j where e: "s1 = b1 # s2" "k = Suc (Suc j)"
      using k s by (cases s1; cases k; cases "k - 1") auto
    show ?thesis using 2 by (simp add: s e chartorune_def c2r_1 Let_def split: option.split)
  next
    case 3
    then obtain b1 b2 s2 j where e: "s1 = b1 # b2 # s2" "k = Suc (Suc (Suc j))"
      using k s by (cases s1; cases "tl s1"; cases k; cases "k - 1"; cases "k - 2") auto
    show ?thesis using 3 by (simp add: s e chartorune_def c2r_1 c2r_2 Let_def split: option.split)
  next
    case 4
    then obtain b1 b2 b3 s2 j where e: "s1 = b1 # b2 # b3 # s2" "k = Suc (Suc (Suc (Suc j)))"
      using k s by (cases s1; cases "tl s1"; cases "tl (tl s1)"; cases k; cases "k - 1"; cases "k - 2"; cases "k - 3") auto
    show ?thesis using 4 by (simp add: s e chartorune_def c2r_1 c2r_2 c2r_3 Let_def split: option.split)
  qed
  then show ?thesis by (simp add: k_def)
qed

lemma fullrune_length:
  assumes "fullrune s n" and "n \<le> int (length s)"
  shows "int (snd (chartorune s)) \<le> n"
proof -
  obtain r m where c: "chartorune (take (nat n) s @ []) = (r, m)" by (cases "chartorune (take (nat n) s @ [])")
  have n: "n > 0" using assms(1) by (simp add: fullrune_def split: if_splits)
  have "m \<le> nat n"
  proof (cases "1 < m")
    case True
    with decode_length [OF c] show ?thesis by simp
  qed (use n in auto)
  then show ?thesis using c chartorune_prefix [OF assms, of "[]"] n by (cases "chartorune s") simp
qed

text \<open>
  When \<open>fullrune(s, n)\<close> answers yes, the first \<open>n\<close> bytes settle the rune: whatever bytes
  replace the rest, \<open>chartorune\<close> gives the same rune and length and stays within the \<open>n\<close> bytes.
\<close>
theorem fullrune_sufficient:
  assumes "fullrune s n" and "n \<le> int (length s)"
  shows "chartorune (take (nat n) s @ t) = chartorune s \<and> int (snd (chartorune s)) \<le> n"
  using chartorune_prefix [OF assms] fullrune_length [OF assms] by simp

theorem fullrune_sufficient_witness:
  "fullrune [0xC3, 0xA9, 0x80] 2 \<and>
   chartorune (take 2 [0xC3, 0xA9, 0x80] @ [0x41]) = chartorune [0xC3, 0xA9, 0x80]"
proof -
  have f: "fullrune [0xC3, 0xA9, 0x80] 2" by code_simp
  from fullrune_sufficient [OF f, of "[0x41]"] f show ?thesis by simp
qed

section \<open>Properties of the string routines\<close>

abbreviation encs :: "u32 list \<Rightarrow> bytes" where
  "encs rs \<equiv> concat (map runetochar rs)"

lemma ascii_back: "c \<le> 0x7F \<Longrightarrow> ucast (ucast c :: u8) = (c :: u32)"
  using lt_take_bit [of c 8] by (simp add: byte_piece32 word_less_nat_alt word_le_nat_alt)

lemma runetochar_cases:
  obtains (ascii) "runetochar c = [ucast c]" "ucast (ucast c :: u8) = c" "c < 0x80"
    | (multi) "\<And>rest. \<not> (ucast (byte0 (runetochar c @ rest)) :: u32) < 0x80" "\<not> c < 0x80"
proof (cases "c \<le> 0x7F")
  case True
  then have "c < 0x80" by (simp add: word_less_nat_alt word_le_nat_alt)
  with True ascii_back [of c] show ?thesis by (intro that(1)) (simp_all add: runetochar_eq)
next
  case False
  then have c: "\<not> c < 0x80" by (simp add: word_less_nat_alt word_le_nat_alt)
  have "\<not> (ucast (byte0 (runetochar c @ rest)) :: u32) < 0x80" for rest
  proof
    assume "(ucast (byte0 (runetochar c @ rest)) :: u32) < 0x80"
    then have "snd (chartorune (runetochar c @ rest)) = 1" by (simp add: chartorune_def)
    then have "runelen c = 1" by (simp add: chartorune_runetochar runelen_runetochar)
    with False show False by (simp add: runelen_def split: if_splits)
  qed
  with c show ?thesis by (intro that(2))
qed

lemma length_runetochar_pos: "runetochar c \<noteq> []"
  using chartorune_pos [of "runetochar c @ []"] by (auto simp: chartorune_runetochar simp del: append_Nil2)

lemma utflen_loop_enc:
  "0 \<notin> set rs \<Longrightarrow> utflen_loop (encs rs @ t) n = utflen_loop t (n + length rs)"
proof (induction rs arbitrary: n)
  case (Cons r rs)
  show ?case
  proof (cases r rule: runetochar_cases)
    case ascii
    with Cons show ?thesis by (subst utflen_loop.simps) (simp add: Let_def Runeself_def)
  next
    case multi
    have "\<not> ucast (byte0 (concat (map runetochar (r # rs)) @ t)) < Runeself"
      using multi(1) [of "encs rs @ t"] by (simp add: Runeself_def)
    with Cons show ?thesis
      by (subst utflen_loop.simps) (simp add: Let_def chartorune_runetochar)
  qed
qed simp

lemma utflen_loop_end: "byte0 t = 0 \<Longrightarrow> utflen_loop t n = n"
  by (subst utflen_loop.simps) (simp add: Runeself_def)

lemma fullrune_enc:
  assumes "\<not> r < 0x80"
  shows "fullrune (runetochar r @ t) m \<longleftrightarrow> int (length (runetochar r)) \<le> m"
proof -
  have "\<not> r \<le> 0x7F" using assms(1) by (simp add: word_less_nat_alt word_le_nat_alt)
  then consider (two) "r \<le> 0x7FF" "runetochar r = rune_bytes 2 r"
    | (three) "r \<le> 0xFFFF" "runetochar r = rune_bytes 3 r"
    | (err) "runetochar r = rune_bytes 3 Runeerror"
    | (four) "r \<le> 0x10FFFF" "runetochar r = rune_bytes 4 r"
    unfolding runetochar_eq valid_rune_def Runemax_def
    by (cases "r \<le> 0x7FF"; cases "r \<le> 0x10FFFF"; cases "r \<le> 0xFFFF"; cases "SurrogateMin \<le> r \<and> r \<le> SurrogateMax") simp_all
  then show ?thesis
  proof cases
    case two
    have "\<not> 0xC0 OR drop_bit 6 r < 0x80"
      using enc_lead(2) [OF two(1)] by (auto simp: word_less_nat_alt word_le_nat_alt)
    with two show ?thesis using enc_lead(1,2) [of r] by (auto simp: fullrune_eq rune_bytes_eq Let_def)
  next
    case three
    have "\<not> 0xE0 OR drop_bit 12 r < 0x80" "\<not> 0xE0 OR drop_bit 12 r < 0xE0"
      using enc_lead(4) [OF three(1)] by (auto simp: word_less_nat_alt word_le_nat_alt)
    with three show ?thesis using enc_lead(3,4) [of r] by (auto simp: fullrune_eq rune_bytes_eq Let_def)
  next
    case err
    then show ?thesis
      by (auto simp: fullrune_eq rune_bytes_eq Runeerror_def Let_def)
  next
    case four
    have "\<not> 0xF0 OR drop_bit 18 r < 0x80" "\<not> 0xF0 OR drop_bit 18 r < 0xE0"
      "\<not> 0xF0 OR drop_bit 18 r < 0xF0"
      using enc_lead(6) [OF four(1)] by (auto simp: word_less_nat_alt word_le_nat_alt)
    with four show ?thesis using enc_lead(5,6) [of r] by (auto simp: fullrune_eq rune_bytes_eq Let_def)
  qed
qed

lemma utfnlen_loop_enc:
  assumes "0 \<notin> set rs" and "k \<le> length rs" and "int (length (encs (take k rs))) \<le> m"
    and "k < length rs \<Longrightarrow> m < int (length (encs (take (Suc k) rs)))"
    and "k = length rs \<Longrightarrow> byte0 t = 0"
  shows "utfnlen_loop (encs rs @ t) m n = n + k"
  using assms
proof (induction rs arbitrary: n m k)
  case Nil
  then show ?case by (subst utfnlen_loop.simps) (simp add: Runeself_def)
next
  case (Cons r rs)
  show ?case
  proof (cases r rule: runetochar_cases)
    case ascii
    show ?thesis
    proof (cases k)
      case 0
      with Cons.prems(4) ascii(1) have "m \<le> 0" by simp
      then show ?thesis by (subst utfnlen_loop.simps) (simp add: 0)
    next
      case (Suc j)
      have "utfnlen_loop (encs rs @ t) (m - 1) (Suc n) = Suc n + j"
        using Cons.prems ascii(1) Suc by (intro Cons.IH) auto
      then show ?thesis using Cons.prems(1,3) ascii Suc
        by (subst utfnlen_loop.simps) (simp add: Let_def Runeself_def)
    qed
  next
    case multi
    have c: "\<not> ucast (byte0 (concat (map runetochar (r # rs)) @ t)) < Runeself"
      using multi(1) [of "encs rs @ t"] by (simp add: Runeself_def)
    have f: "fullrune (runetochar r @ encs rs @ t) m \<longleftrightarrow> int (length (runetochar r)) \<le> m"
      using multi(2) by (rule fullrune_enc)
    show ?thesis
    proof (cases k)
      case 0
      with Cons.prems(4) have "m < int (length (runetochar r))" by simp
      then show ?thesis using c f by (subst utfnlen_loop.simps) (simp add: 0 Let_def)
    next
      case (Suc j)
      have "utfnlen_loop (encs rs @ t) (m - int (length (runetochar r))) (Suc n) = Suc n + j"
        using Cons.prems Suc by (intro Cons.IH) auto
      moreover have "int (length (runetochar r)) \<le> m" using Cons.prems(3) by (simp add: Suc)
      moreover have "m > 0" using calculation(2) length_runetochar_pos [of r]
        by (cases "runetochar r") auto
      ultimately show ?thesis using c f
        by (subst utfnlen_loop.simps) (simp add: Let_def chartorune_runetochar Suc)
    qed
  qed
qed

text \<open>
  On the encoding of a sequence of non-zero runes followed by the NUL, \<open>utflen\<close> counts the
  runes, and \<open>utfnlen\<close> counts those that lie completely within its first \<open>m\<close> bytes.
\<close>
theorem utflen_counts:
  assumes "0 \<notin> set rs"
    and "k \<le> length rs" and "int (length (encs (take k rs))) \<le> m"
    and "k < length rs \<Longrightarrow> m < int (length (encs (take (Suc k) rs)))"
  shows "utflen (encs rs @ 0 # t) = length rs \<and> utfnlen (encs rs @ 0 # t) m = k"
  using assms utfnlen_loop_enc [of rs k m "0 # t" 0]
  by (simp add: utflen_def utfnlen_def utflen_loop_enc utflen_loop_end)

theorem utflen_counts_witness:
  "utflen (encs [0x41, 0xE9, 0x20AC] @ 0 # []) = 3 \<and> utfnlen (encs [0x41, 0xE9, 0x20AC] @ 0 # []) 5 = 2"
  using utflen_counts [of "[0x41, 0xE9, 0x20AC]" 2 5 "[]"]
  by (simp add: runetochar_eq valid_rune_def Runemax_def SurrogateMin_def)

lemma uint_same [simp]: "uint (r :: u32) = uint c \<longleftrightarrow> r = c"
  by (simp add: word_uint_eq_iff)

lemma utfrune_loop_enc:
  assumes "0 \<notin> set rs" and "byte0 t = 0" and "\<forall>r\<in>set rs. valid_rune r"
  shows "utfrune_loop (encs rs @ t) k (uint c) =
    (if c \<in> set rs then Some (k + length (encs (takeWhile (\<lambda>r. r \<noteq> c) rs))) else None)"
  using assms
proof (induction rs arbitrary: k)
  case Nil
  then show ?case by (subst utfrune_loop.simps) (simp add: Runeself_def)
next
  case (Cons r rs)
  show ?case
  proof (cases r rule: runetochar_cases)
    case ascii
    then show ?thesis using Cons
      by (subst utfrune_loop.simps) (auto simp add: Let_def Runeself_def)
  next
    case multi
    have c: "\<not> ucast (byte0 (concat (map runetochar (r # rs)) @ t)) < Runeself"
      using multi(1) [of "encs rs @ t"] by (simp add: Runeself_def)
    show ?thesis using Cons c
      by (subst utfrune_loop.simps) (auto simp add: Let_def chartorune_runetochar)
  qed
qed

text \<open>The offset of the last occurrence, as a fold from the left.\<close>

fun last_offset :: "u32 \<Rightarrow> u32 list \<Rightarrow> nat \<Rightarrow> nat option \<Rightarrow> nat option" where
  "last_offset c [] k found = found"
| "last_offset c (r # rs) k found =
     last_offset c rs (k + length (runetochar r)) (if r = c then Some k else found)"

lemma utfrrune_loop_enc:
  assumes "0 \<notin> set rs" and "byte0 t = 0" and "\<forall>r\<in>set rs. valid_rune r"
  shows "utfrrune_loop (encs rs @ t) k (uint c) s1 = last_offset c rs k s1"
  using assms
proof (induction rs arbitrary: k s1)
  case Nil
  then show ?case by (subst utfrrune_loop.simps) (simp add: Runeself_def)
next
  case (Cons r rs)
  show ?case
  proof (cases r rule: runetochar_cases)
    case ascii
    then show ?thesis using Cons
      by (subst utfrrune_loop.simps) (auto simp add: Let_def Runeself_def)
  next
    case multi
    have c: "\<not> ucast (byte0 (concat (map runetochar (r # rs)) @ t)) < Runeself"
      using multi(1) [of "encs rs @ t"] by (simp add: Runeself_def)
    show ?thesis using Cons c
      by (subst utfrrune_loop.simps) (auto simp add: Let_def chartorune_runetochar)
  qed
qed

lemma last_offset_split:
  "c \<notin> set rs2 \<Longrightarrow> last_offset c (rs1 @ c # rs2) k f = Some (k + length (encs rs1))"
  "c \<notin> set rs2 \<Longrightarrow> last_offset c rs2 k f = f"
proof -
  show n: "c \<notin> set rs2 \<Longrightarrow> last_offset c rs2 k f = f" for k f
    by (induction rs2 arbitrary: k f) auto
  show "c \<notin> set rs2 \<Longrightarrow> last_offset c (rs1 @ c # rs2) k f = Some (k + length (encs rs1))"
    by (induction rs1 arbitrary: k f) (simp_all add: n add.assoc)
qed

text \<open>Bytes of a multi-byte rune: the lead byte and the continuation bytes.\<close>

lemma lead_bits:
  assumes "r \<noteq> 0"
  obtains b t where "runetochar r = b # t" "b AND 0xC0 \<noteq> 0x80" "b \<noteq> 0"
    "\<forall>x\<in>set t. x AND 0xC0 = 0x80" "t = [] \<or> bit b 7"
proof (cases r rule: runetochar_cases)
  case ascii
  have "(ucast r :: u8) \<noteq> 0" using ascii(2) assms by auto
  moreover have "(ucast r :: u8) AND 0xC0 \<noteq> 0x80"
  proof
    assume "(ucast r :: u8) AND 0xC0 = 0x80"
    then have "bit ((ucast r :: u8) AND 0xC0) 7" by (simp add: bit_lead bit_simps)
    then have "bit r 7" by (simp add: bit_simps)
    moreover have "take_bit 7 r = r" using ascii(3) by (intro lt_take_bit) simp_all
    ultimately show False by (metis bit_take_bit_iff less_irrefl)
  qed
  ultimately show ?thesis using ascii(1) by (intro that [of "ucast r" "[]"]) simp_all
next
  case multi
  have b7: "bit (ucast (0x80 OR y) :: u8) 7" "(ucast (0x80 OR take_bit 6 y) :: u8) AND 0xC0 = 0x80" for y :: u32
    by (simp add: bit_simps bit_lead) (rule bit_word_eqI, auto simp: bit_simps bit_lead)
  have b6: "bit (ucast (0xC0 OR y) :: u8) 7 \<and> bit (ucast (0xC0 OR y) :: u8) 6"
    "bit (ucast (0xE0 OR y) :: u8) 7 \<and> bit (ucast (0xE0 OR y) :: u8) 6"
    "bit (ucast (0xF0 OR y) :: u8) 7 \<and> bit (ucast (0xF0 OR y) :: u8) 6" for y :: u32
    by (simp_all add: bit_simps bit_lead)
  have nb: "x AND 0xC0 \<noteq> 0x80 \<and> x \<noteq> 0" if "bit x 7 \<and> bit x 6" for x :: u8
  proof -
    have "bit (x AND 0xC0) 6" using that by (simp add: bit_simps bit_lead)
    then show ?thesis using that by (auto simp: bit_lead)
  qed
  have "\<not> r \<le> 0x7F" using multi(2) by (simp add: word_less_nat_alt word_le_nat_alt)
  then have "\<exists>i c. (i = 2 \<or> i = 3 \<or> i = 4) \<and> runetochar r = rune_bytes i c"
    by (cases "r \<le> 0x7FF"; cases "valid_rune r"; cases "r \<le> 0xFFFF") (auto simp: runetochar_eq)
  then obtain i c where "i = 2 \<or> i = 3 \<or> i = 4" "runetochar r = rune_bytes i c"
    by blast
  then show ?thesis
  proof (elim disjE)
    assume i: "i = 2" "runetochar r = rune_bytes i c"
    show ?thesis using nb [OF b6(1)] b6(1) b7 i
      by (intro that [of "ucast (0xC0 OR drop_bit 6 c)"]) (auto simp: rune_bytes_eq)
  next
    assume i: "i = 3" "runetochar r = rune_bytes i c"
    show ?thesis using nb [OF b6(2)] b6(2) b7 i
      by (intro that [of "ucast (0xE0 OR drop_bit 12 c)"]) (auto simp: rune_bytes_eq)
  next
    assume i: "i = 4" "runetochar r = rune_bytes i c"
    show ?thesis using nb [OF b6(3)] b6(3) b7 i
      by (intro that [of "ucast (0xF0 OR drop_bit 18 c)"]) (auto simp: rune_bytes_eq)
  qed
qed

lemma cont_bit: "x AND 0xC0 = 0x80 \<Longrightarrow> bit x 7" for x :: u8
proof -
  assume "x AND 0xC0 = 0x80"
  then have "bit (x AND 0xC0) 7" by (simp add: bit_lead)
  then show "bit x 7" by (simp add: bit_simps)
qed

lemma runetochar_high:
  assumes "r \<noteq> 0" and "\<not> r < 0x80" and "x \<in> set (runetochar r)"
  shows "bit x 7"
proof (rule lead_bits [OF assms(1)])
  fix b t
  assume e: "runetochar r = b # t" and t: "\<forall>x\<in>set t. x AND 0xC0 = 0x80" "t = [] \<or> bit b 7"
  have "t \<noteq> []"
    using assms(2) e runelen_runetochar [of r]
    by (auto simp: runelen_def word_less_nat_alt word_le_nat_alt split: if_splits)
  then show "bit x 7" using assms(3) e t cont_bit by auto
qed

lemma encs_nonzero: "0 \<notin> set rs \<Longrightarrow> 0 \<notin> set (encs rs)"
proof (induction rs)
  case (Cons r rs)
  have "0 \<notin> set (runetochar r)"
    by (rule lead_bits [of r]) (use Cons.prems in auto)
  with Cons show ?case by simp
qed simp

lemma takeWhile_nul: "0 \<notin> set xs \<Longrightarrow> takeWhile (\<lambda>b. b \<noteq> 0) (xs @ 0 # t) = (xs :: bytes)"
  by (induction xs) auto

lemma strchr_skip:
  "\<forall>x\<in>set xs. x \<noteq> b \<and> x \<noteq> 0 \<Longrightarrow> strchr (xs @ s) b = map_option ((+) (length xs)) (strchr s b)"
  by (induction xs) (cases "strchr s b"; simp)+

lemma strrchr_skip:
  "\<forall>x\<in>set xs. x \<noteq> b \<and> x \<noteq> 0 \<Longrightarrow> strrchr (xs @ s) b = map_option ((+) (length xs)) (strrchr s b)"
  by (induction xs) (cases "strrchr s b"; simp)+

lemma ascii_other:
  assumes "c < 0x80" "c \<noteq> 0" "r \<noteq> 0" "r \<noteq> c"
  shows "\<forall>x\<in>set (runetochar r). x \<noteq> ucast c \<and> x \<noteq> 0"
proof (cases r rule: runetochar_cases)
  case ascii
  have "ucast (ucast c :: u8) = c"
    using assms(1) by (intro ascii_back) (simp add: word_less_nat_alt word_le_nat_alt)
  with ascii assms show ?thesis by auto
next
  case multi
  have "take_bit 7 c = c" using assms(1) by (intro lt_take_bit) simp_all
  then have "\<not> bit c 7" by (metis bit_take_bit_iff less_irrefl)
  then have "\<not> bit (ucast c :: u8) 7" by (simp add: bit_simps)
  with runetochar_high [OF assms(3) multi(2)] runetochar_high [OF assms(3) multi(2), of 0]
  show ?thesis by auto
qed

lemma strchr_enc:
  assumes "c < 0x80" "c \<noteq> 0" "0 \<notin> set rs"
  shows "strchr (encs rs @ 0 # t) (ucast c) =
    (if c \<in> set rs then Some (length (encs (takeWhile (\<lambda>r. r \<noteq> c) rs))) else None)"
  using assms(3)
proof (induction rs)
  case Nil
  have "ucast (ucast c :: u8) = c"
    using assms(1) by (intro ascii_back) (simp add: word_less_nat_alt word_le_nat_alt)
  then show ?case using assms(2) by auto
next
  case (Cons r rs)
  show ?case
  proof (cases "r = c")
    case True
    have "runetochar c = [ucast c]" using assms(1)
      by (simp add: runetochar_eq word_less_nat_alt word_le_nat_alt)
    then show ?thesis by (simp add: True)
  next
    case False
    then show ?thesis
      using Cons strchr_skip [OF ascii_other [OF assms(1,2) _ False], of "encs rs @ 0 # t"] by simp
  qed
qed

lemma strrchr_enc:
  assumes "c < 0x80" "c \<noteq> 0" "0 \<notin> set rs"
  shows "strrchr (encs rs @ 0 # t) (ucast c) = last_offset c rs 0 None"
proof -
  have s: "last_offset c rs (n + k) (map_option ((+) n) f) = map_option ((+) n) (last_offset c rs k f)"
    for rs n k f
  proof (induction rs arbitrary: k f)
    case (Cons r rs)
    from Cons [of "k + length (runetochar r)" "if r = c then Some k else f"] show ?case
      by (simp add: add.assoc split: if_splits)
  qed simp
  have m: "last_offset c rs k f = (case last_offset c rs k None of None \<Rightarrow> f | Some x \<Rightarrow> Some x)" for rs k f
  proof (induction rs arbitrary: k f)
    case (Cons r rs)
    from Cons [of "k + length (runetochar r)" "if r = c then Some k else f"]
      Cons [of "k + length (runetochar r)" "if r = c then Some k else None"] show ?case
      by (auto split: option.splits if_splits)
  qed simp
  have u: "ucast (ucast c :: u8) = c"
    using assms(1) by (intro ascii_back) (simp add: word_less_nat_alt word_le_nat_alt)
  show ?thesis
    using assms(3)
  proof (induction rs)
    case Nil
    then show ?case using assms(2) u by auto
  next
    case (Cons r rs)
    have s': "last_offset c rs n None = map_option ((+) n) (last_offset c rs 0 None)" for n
      using s [of rs n 0 None] by simp
    show ?case
    proof (cases "r = c")
      case True
      have "runetochar c = [ucast c]" using assms(1)
        by (simp add: runetochar_eq word_less_nat_alt word_le_nat_alt)
      then show ?thesis using Cons assms(2) u s' [of 1] m [of rs 1 "Some 0"]
        by (auto simp: True split: option.splits)
    next
      case False
      then show ?thesis
        using Cons strrchr_skip [OF ascii_other [OF assms(1,2) _ False], of "encs rs @ 0 # t"]
          s' [of "length (runetochar r)"] by simp
    qed
  qed
qed

lemma utfback_eq:
  "k < m \<Longrightarrow> w ! k AND 0xC0 \<noteq> 0x80 \<Longrightarrow> \<forall>i. k < i \<and> i < m \<longrightarrow> w ! i AND 0xC0 = 0x80 \<Longrightarrow>
    utfback w m = k"
  by (induction m) (auto simp: less_Suc_eq)

lemma encs_split:
  "0 < m \<Longrightarrow> m \<le> length (encs rs) \<Longrightarrow>
    \<exists>rs1 r rs2. rs = rs1 @ r # rs2 \<and> length (encs rs1) < m \<and> m \<le> length (encs rs1) + length (runetochar r)"
proof (induction rs arbitrary: m)
  case (Cons r rs)
  show ?case
  proof (cases "m \<le> length (runetochar r)")
    case True
    with Cons.prems show ?thesis by (intro exI [of _ "[]"]) auto
  next
    case False
    with Cons.prems have "0 < m - length (runetochar r)" "m - length (runetochar r) \<le> length (encs rs)"
      by auto
    from Cons.IH [OF this] obtain rs1 r' rs2 where
      "rs = rs1 @ r' # rs2" "length (encs rs1) < m - length (runetochar r)"
      "m - length (runetochar r) \<le> length (encs rs1) + length (runetochar r')" by blast
    then show ?thesis using False by (intro exI [of _ "r # rs1"]) auto
  qed
qed simp

text \<open>
  Searching the encoding of a sequence of valid non-zero runes: \<open>utfrune\<close> returns the offset
  of the first occurrence of \<open>c\<close> at a rune boundary, \<open>utfrrune\<close> that of the last one, and both
  return nil when \<open>c\<close> does not occur, whether \<open>c\<close> takes the one-byte path or the decoding loop.
\<close>
theorem utfrune_search:
  assumes "0 \<notin> set rs1" "0 \<notin> set rs2" "\<forall>r\<in>set rs1 \<union> set rs2. valid_rune r" "c \<noteq> 0"
  shows "(c \<notin> set rs1 \<longrightarrow> valid_rune c \<longrightarrow>
            utfrune (encs (rs1 @ c # rs2) @ [0]) (uint c) = Some (length (encs rs1)))
    \<and> (c \<notin> set rs2 \<longrightarrow> valid_rune c \<longrightarrow>
            utfrrune (encs (rs1 @ c # rs2) @ [0]) (uint c) = Some (length (encs rs1)))
    \<and> (c \<notin> set rs1 \<longrightarrow> utfrune (encs rs1 @ [0]) (uint c) = None \<and> utfrrune (encs rs1 @ [0]) (uint c) = None)"
proof -
  have w: "word_of_int (uint c) = (ucast c :: u8)" by (simp only: ucast_eq)
  have r: "uint c < Runesync \<longleftrightarrow> c < 0x80" by (simp add: Runesync_def word_less_def)
  have t: "takeWhile (\<lambda>r. r \<noteq> c) (rs1 @ c # rs2) = rs1" if "c \<notin> set rs1"
    using that by (induction rs1) auto
  show ?thesis
  proof (intro conjI impI)
    assume "c \<notin> set rs1" "valid_rune c"
    then show "utfrune (encs (rs1 @ c # rs2) @ [0]) (uint c) = Some (length (encs rs1))"
      using assms t strchr_enc [of c "rs1 @ c # rs2" "[]"] utfrune_loop_enc [of "rs1 @ c # rs2" "[0]" 0 c]
      by (auto simp: utfrune_def w r ball_Un)
  next
    assume "c \<notin> set rs2" "valid_rune c"
    then show "utfrrune (encs (rs1 @ c # rs2) @ [0]) (uint c) = Some (length (encs rs1))"
      using assms strrchr_enc [of c "rs1 @ c # rs2" "[]"] utfrrune_loop_enc [of "rs1 @ c # rs2" "[0]" 0 c]
      by (auto simp: utfrrune_def w r ball_Un last_offset_split)
  next
    assume "c \<notin> set rs1"
    then show "utfrune (encs rs1 @ [0]) (uint c) = None" and "utfrrune (encs rs1 @ [0]) (uint c) = None"
      using assms strchr_enc [of c rs1 "[]"] strrchr_enc [of c rs1 "[]"]
        utfrune_loop_enc [of rs1 "[0]" 0 c] utfrrune_loop_enc [of rs1 "[0]" 0 c None]
      by (simp_all add: utfrune_def utfrrune_def w r last_offset_split)
  qed
qed

theorem utfrune_search_witness:
  "utfrune (encs ([0x41, 0xE9] @ 0x20AC # [0x41]) @ [0]) (uint (0x20AC :: u32)) = Some 3"
  using utfrune_search [of "[0x41, 0xE9]" "[0x41]" "0x20AC"]
  by (simp add: runetochar_eq valid_rune_def Runemax_def SurrogateMin_def SurrogateMax_def)

text \<open>
  Copying the encoding of non-zero runes into a non-empty buffer never splits a rune:
  \<open>utfecpy\<close> leaves the encoding of a prefix of the runes followed by a NUL at the offset it
  returns, inside the buffer, whose length is unchanged, and the prefix is the whole string unless
  the next rune and its NUL would not have fitted.
\<close>
theorem utfecpy_whole_runes:
  assumes "0 \<notin> set rs" and "buf \<noteq> []" and "utfecpy buf (encs rs @ 0 # t) = (buf', k)"
  shows "\<exists>rs1 rs2. rs = rs1 @ rs2 \<and> take k buf' = encs rs1 \<and> k = length (encs rs1)
    \<and> k < length buf \<and> buf' ! k = 0 \<and> length buf' = length buf
    \<and> (rs2 = [] \<or> length buf \<le> length (encs rs1) + length (runetochar (hd rs2)))"
proof -
  have body: "takeWhile (\<lambda>b. b \<noteq> 0) (encs rs @ 0 # t) = encs rs"
    using encs_nonzero [OF assms(1)] by (rule takeWhile_nul)
  show ?thesis
  proof (cases "length (encs rs) < length buf")
    case True
    then have "buf' = encs rs @ 0 # drop (Suc (length (encs rs))) buf" "k = length (encs rs)"
      using assms(2,3) body by (auto simp: utfecpy_def memccpy0_def overlay_def Let_def)
    then show ?thesis using True by (intro exI [of _ rs] exI [of _ "[]"]) (auto simp: nth_append)
  next
    case False
    let ?m = "length buf" let ?w = "take ?m (encs rs)"
    from False assms(2) encs_split [of ?m rs] obtain rs1 r rs2 where s: "rs = rs1 @ r # rs2"
      "length (encs rs1) < ?m" "?m \<le> length (encs rs1) + length (runetochar r)" by auto
    have "r \<noteq> 0" using assms(1) s(1) by auto
    then obtain b u where r: "runetochar r = b # u" "b AND 0xC0 \<noteq> 0x80"
      "\<forall>x\<in>set u. x AND 0xC0 = 0x80" by (rule lead_bits)
    have "utfback ?w ?m = length (encs rs1)"
    proof (rule utfback_eq)
      show "?w ! length (encs rs1) AND 0xC0 \<noteq> 0x80" using s r by (simp add: nth_append)
      show "\<forall>i. length (encs rs1) < i \<and> i < ?m \<longrightarrow> ?w ! i AND 0xC0 = 0x80"
      proof (intro allI impI)
        fix i assume i: "length (encs rs1) < i \<and> i < ?m"
        then have "encs rs ! i = u ! (i - Suc (length (encs rs1)))"
          "i - Suc (length (encs rs1)) < length u"
          using s r by (auto simp: nth_append nth_Cons')
        then show "?w ! i AND 0xC0 = 0x80" using i r by simp
      qed
    qed (use s in simp)
    then have "buf' = ?w[k := 0]" "k = length (encs rs1)"
      using assms(2,3) body False by (auto simp: utfecpy_def memccpy0_def overlay_def Let_def min_def)
    moreover have "take (length (encs rs1)) ?w = encs rs1" using s by (simp add: min_def)
    ultimately show ?thesis using s False by (intro exI [of _ rs1] exI [of _ "r # rs2"]) auto
  qed
qed

theorem utfecpy_whole_runes_witness:
  "utfecpy [9, 9, 9, 9] (encs [0x41, 0x20AC] @ 0 # []) = ([0x41, 0, 0x82, 0xAC], 1)
   \<and> (\<exists>rs1 rs2. [0x41, 0x20AC] = rs1 @ rs2 \<and> take 1 [0x41, 0, 0x82, 0xAC] = encs rs1)"
proof -
  have c: "utfecpy [9, 9, 9, 9] (encs [0x41, 0x20AC] @ 0 # []) = ([0x41, 0, 0x82, 0xAC], 1)"
    by code_simp
  from utfecpy_whole_runes [OF _ _ c] c show ?thesis by auto
qed

end
