(* ===== verification/Paths.thy ===== *)
theory Paths
  imports Utf
begin

text \<open>
  Path names: \<open>cleanname\<close> of lib9/cleanname.c, which rewrites a name in place, and the name routines
  of emu/port/chan.c (\<open>isdotdot\<close>, \<open>skipslash\<close>, \<open>parsename\<close>, \<open>validname\<close>, \<open>cleancname\<close>, \<open>kstrcpy\<close>).
  A string is the list of its bytes without the NUL, a buffer the list of all its bytes.
\<close>

unbundle bit_operations_syntax

abbreviation slash :: u8 where "slash \<equiv> 47"
abbreviation dot :: u8 where "dot \<equiv> 46"

text \<open>The byte at an offset of a string or buffer; past its end stands the NUL.\<close>

definition at :: "bytes \<Rightarrow> nat \<Rightarrow> u8" where
  "at b i = (if i < length b then b ! i else 0)"

lemma at_nz: "at b i \<noteq> 0 \<Longrightarrow> i < length b"
  by (simp add: at_def split: if_splits)

lemma at_char: "at b i = slash \<Longrightarrow> i < length b" "at b i = dot \<Longrightarrow> i < length b"
  by (auto simp: at_def split: if_splits)

section \<open>cleanname\<close>

definition SEP :: "u8 \<Rightarrow> bool" where
  "SEP x \<longleftrightarrow> x = slash \<or> x = 0"

text \<open>\<open>while((*q = *p) != '/' && *q != 0) p++, q++;\<close>\<close>

function copy_elem :: "bytes \<Rightarrow> nat \<Rightarrow> nat \<Rightarrow> bytes \<times> nat \<times> nat" where
  "copy_elem b p q =
     (let x = at b p; b' = b[q := x] in
      if x \<noteq> slash \<and> x \<noteq> 0 then copy_elem b' (p + 1) (q + 1) else (b', p, q))"
  by pat_completeness auto
termination
  by (relation "measure (\<lambda>(b, p, _). length b - p)") (auto simp: at_def split: if_splits)

text \<open>\<open>while(--q > dotdot && *q != '/');\<close>, entered with \<open>q > dotdot\<close>.\<close>

function backtrack :: "bytes \<Rightarrow> nat \<Rightarrow> nat \<Rightarrow> nat" where
  "backtrack b q dotdot =
     (let q' = q - 1 in if q' > dotdot \<and> at b q' \<noteq> slash then backtrack b q' dotdot else q')"
  by pat_completeness auto
termination
  by (relation "measure (\<lambda>(_, q, _). q)") auto

declare copy_elem.simps [simp del] backtrack.simps [simp del]

lemma copy_elem_ge: "copy_elem b p q = (b', p', q') \<Longrightarrow> p \<le> p' \<and> length b' = length b"
proof (induction b p q rule: copy_elem.induct)
  case (1 b p q)
  show ?case
  proof (cases "at b p \<noteq> slash \<and> at b p \<noteq> 0")
    case True
    have "copy_elem (b[q := at b p]) (p + 1) (q + 1) = (b', p', q')"
      using 1(2) True by (subst (asm) copy_elem.simps) (simp add: Let_def)
    with 1(1) [OF refl refl True] show ?thesis by simp
  next
    case False
    with 1(2) show ?thesis by (subst (asm) copy_elem.simps) (auto simp: Let_def)
  qed
qed

lemma copy_elem_gt:
  assumes "copy_elem b p q = (b', p', q')" and "at b p \<noteq> slash" and "at b p \<noteq> 0"
  shows "p < p' \<and> length b' = length b"
proof -
  from assms have "copy_elem (b[q := at b p]) (p + 1) (q + 1) = (b', p', q')"
    by (subst (asm) copy_elem.simps) (simp add: Let_def)
  then show ?thesis using copy_elem_ge by fastforce
qed

text \<open>The last branch of the loop, a real path element.\<close>

definition real_elem :: "bool \<Rightarrow> bytes \<Rightarrow> nat \<Rightarrow> nat \<Rightarrow> bytes \<times> nat \<times> nat" where
  "real_elem rooted b p q =
     (if q \<noteq> (if rooted then 1 else 0) then copy_elem (b[q := slash]) p (q + 1)
      else copy_elem b p q)"

lemma length_real_elem: "real_elem rooted b p q = (b', p', q') \<Longrightarrow> length b' = length b"
  using copy_elem_ge by (fastforce simp: real_elem_def split: if_splits)

lemma real_elem_less:
  "(b', p', q') = real_elem rooted b p q \<Longrightarrow> at b p \<noteq> 0 \<Longrightarrow> p < p' \<Longrightarrow> length b' - p' < length b - p"
  using length_real_elem [of rooted b p q b' p' q'] at_nz [of b p] by simp

text \<open>
  The loop of \<open>cleanname\<close> on the buffer \<open>b\<close>; \<open>p\<close>, \<open>q\<close> and \<open>dotdot\<close> are offsets from \<open>name\<close>. It
  returns the buffer and \<open>q\<close>. The test \<open>p < p2\<close> only serves termination: it holds because \<open>q\<close> stays
  behind \<open>p\<close> (theory \<open>PathProps\<close>).
\<close>

function clean_loop :: "bool \<Rightarrow> bytes \<Rightarrow> nat \<Rightarrow> nat \<Rightarrow> nat \<Rightarrow> bytes \<times> nat" where
  "clean_loop rooted b p q dotdot =
     (if at b p = 0 then (b, q)
      else if at b p = slash then clean_loop rooted b (p + 1) q dotdot
      else if at b p = dot \<and> SEP (at b (p + 1)) then clean_loop rooted b (p + 1) q dotdot
      else if at b p = dot \<and> at b (p + 1) = dot \<and> SEP (at b (p + 2)) then
        (if q > dotdot then clean_loop rooted b (p + 2) (backtrack b q dotdot) dotdot
         else if \<not> rooted then
           (if q \<noteq> 0 then clean_loop rooted (b[q := slash, q + 1 := dot, q + 2 := dot]) (p + 2) (q + 3) (q + 3)
            else clean_loop rooted (b[q := dot, q + 1 := dot]) (p + 2) (q + 2) (q + 2))
         else clean_loop rooted b (p + 2) q dotdot)
      else
        (case real_elem rooted b p q of
           (b2, p2, q2) \<Rightarrow> if p < p2 then clean_loop rooted b2 p2 q2 dotdot else (b2, q2)))"
  by pat_completeness auto
termination
  by (relation "measure (\<lambda>(_, b, p, _, _). length b - p)")
    (auto dest: at_char intro: real_elem_less)

definition cleanname :: "bytes \<Rightarrow> bytes" where
  "cleanname b =
     (let rooted = (at b 0 = slash); r = (if rooted then 1 else 0);
          (b1, q1) = clean_loop rooted b r r r;
          (b2, q2) = (if q1 = 0 then (b1[q1 := dot], q1 + 1) else (b1, q1))
      in b2[q2 := 0])"

declare clean_loop.simps [simp del]

section \<open>Names of the kernel\<close>

definition isdotdot :: "bytes \<Rightarrow> bool" where
  "isdotdot p \<longleftrightarrow> at p 0 = dot \<and> at p 1 = dot \<and> at p 2 = 0"

text \<open>\<open>cleancname\<close> on the text of a \<open>Cname\<close>, whose buffer has room after the NUL.\<close>

definition cleanstr :: "bytes \<Rightarrow> bytes" where
  "cleanstr s = cstr_at (cleanname (s @ [0, 0]))"

definition cleancname :: "bytes \<Rightarrow> bytes" where
  "cleancname s =
     (if at s 0 = 35 then
        (case strchr s slash of
           None \<Rightarrow> s
         | Some k \<Rightarrow>
             (let p = cleanstr (drop k s) in
              if p = [slash] \<and> at s 1 \<noteq> slash then take k s else take k s @ p))
      else cleanstr s)"

fun skipslash :: "bytes \<Rightarrow> bytes" where
  "skipslash [] = []"
| "skipslash (x # s) =
     (if x = slash \<or> x = dot \<and> (at s 0 = 0 \<or> at s 0 = slash) then skipslash s else x # s)"

text \<open>
  \<open>parsename\<close>: the elements, the offsets \<open>off\<close> (as distances from the end of the name, since the
  rest of the name shrinks) and \<open>mustbedir\<close>.
\<close>

record elemlist =
  e_elems :: "bytes list"
  e_off :: "nat list"
  e_mustbedir :: bool

lemma skipslash_length: "length (skipslash s) \<le> length s"
  by (induction s) auto

lemma strchr_bound: "strchr s b = Some k \<Longrightarrow> k \<le> length s"
  by (induction s arbitrary: k) (auto split: if_splits)

function parse_loop :: "nat \<Rightarrow> bytes \<Rightarrow> elemlist \<Rightarrow> elemlist" where
  "parse_loop len name e =
     (let name = skipslash name in
      if name = [] then e\<lparr>e_mustbedir := True\<rparr>
      else
        (case utfrune name (uint slash) of
           None \<Rightarrow> e\<lparr>e_elems := e_elems e @ [name], e_off := e_off e @ [len], e_mustbedir := False\<rparr>
         | Some k \<Rightarrow>
             parse_loop len (drop (k + 1) name)
               (e\<lparr>e_elems := e_elems e @ [take k name], e_off := e_off e @ [len - length name + k]\<rparr>)))"
  by pat_completeness auto
termination
proof (relation "measure (\<lambda>(_, name, _). length name)", goal_cases)
  case (2 len name e x k)
  then show ?case using skipslash_length [of name] by (cases "skipslash name") auto
qed simp

definition parsename :: "bytes \<Rightarrow> elemlist" where
  "parsename name =
     parse_loop (length name) name
       \<lparr>e_elems = [], e_off = [length name - length (skipslash name)], e_mustbedir = False\<rparr>"

declare parse_loop.simps [simp del]

text \<open>The table \<open>isfrog\<close> after \<open>chandevinit\<close>, and the loop of \<open>validname\<close>.\<close>

definition isfrog :: "u8 \<Rightarrow> bool" where
  "isfrog c \<longleftrightarrow> c < 32 \<or> c = slash \<or> c = 0x7F"

datatype namecheck = Name_ok | Name_too_long | Bad_char

function validname_loop :: "bytes \<Rightarrow> bool \<Rightarrow> namecheck" where
  "validname_loop name slashok =
     (if at name 0 = 0 then Name_ok
      else if (ucast (at name 0) :: u32) \<ge> Runeself then
        validname_loop (drop (snd (chartorune name)) name) slashok
      else if isfrog (at name 0) \<and> (\<not> slashok \<or> at name 0 \<noteq> slash) then Bad_char
      else validname_loop (tl name) slashok)"
  by pat_completeness auto
termination
proof (relation "measure (\<lambda>(name, _). length name)", goal_cases)
  case (2 name slashok)
  then show ?case using chartorune_pos [of name] by (cases name) (auto simp: at_def)
next
  case (3 name slashok)
  then show ?case by (cases name) (auto simp: at_def)
qed simp

definition validname :: "bytes \<Rightarrow> bool \<Rightarrow> namecheck" where
  "validname name slashok =
     (if length name \<ge> 2 ^ 16 then Name_too_long else validname_loop name slashok)"

declare validname_loop.simps [simp del]

text \<open>\<open>while(ns>0 && (s[--ns]&0xC0)==0x80);\<close> is \<open>utfback\<close>. \<open>kstrcpy\<close> on a buffer of \<open>ns\<close> bytes.\<close>

definition kstrcpy :: "bytes \<Rightarrow> bytes \<Rightarrow> int \<Rightarrow> bytes" where
  "kstrcpy s t ns =
     (if ns \<le> 0 then s
      else
        (let nt = length t in
         if int nt < ns then (overlay s t)[nt := 0]
         else
           (let nt = nat (ns - 1); s1 = (overlay s (take nt t))[nt := 0] in
            if ns < 4 then s1
            else (let k = utfback s1 (nat (ns - 4)) in
                  s1[k := dot, k + 1 := dot, k + 2 := dot, k + 3 := 0]))))"

end
