(* ===== verification/PathProps.thy ===== *)
theory PathProps
  imports Paths
begin

text \<open>
  What the name routines compute: \<open>parsename\<close> the components of a name that name something, and
  \<open>cleanname\<close>, which works in place on one buffer, a stack of elements (\<open>clean_ref\<close>).
\<close>

section \<open>The elements of a name\<close>

text \<open>The components of a name: the pieces between its slashes, empty ones included.\<close>

fun components :: "bytes \<Rightarrow> bytes list" where
  "components [] = [[]]"
| "components (x # s) =
     (if x = slash then [] # components s else (x # hd (components s)) # tl (components s))"

text \<open>A component that names something: neither empty nor a dot.\<close>

definition named :: "bytes \<Rightarrow> bool" where
  "named e \<longleftrightarrow> e \<noteq> [] \<and> e \<noteq> [dot]"

lemma named_simps [simp]: "\<not> named []" "\<not> named [dot]"
  by (simp_all add: named_def)

lemma components_ne [simp]: "components s \<noteq> []"
  by (cases s) simp_all

lemma strchr_components:
  "strchr s slash = Some k \<Longrightarrow> components s = take k s # components (drop (k + 1) s)"
  by (induction s arbitrary: k) (auto split: if_splits)

lemma strchr_no_components: "strchr s slash = None \<Longrightarrow> 0 \<notin> set s \<Longrightarrow> components s = [s]"
  by (induction s) (auto split: if_splits)

lemma components_slashless: "e \<in> set (components s) \<Longrightarrow> slash \<notin> set e"
proof (induction s arbitrary: e)
  case (Cons x s)
  have "slash \<notin> set (hd (components s))" "\<And>e. e \<in> set (tl (components s)) \<Longrightarrow> slash \<notin> set e"
    using Cons.IH by (simp_all add: list.set_sel)
  then show ?case using Cons.prems Cons.IH by (auto split: if_splits)
qed simp

lemma components_set: "e \<in> set (components s) \<Longrightarrow> set e \<subseteq> set s"
proof (induction s arbitrary: e)
  case (Cons x s)
  have "set (hd (components s)) \<subseteq> set s" "\<And>e. e \<in> set (tl (components s)) \<Longrightarrow> set e \<subseteq> set s"
    using Cons.IH by (simp_all add: list.set_sel)
  then show ?case using Cons.prems Cons.IH [of e] by (cases "x = slash") auto
qed simp

text \<open>\<open>skipslash\<close> drops components that name nothing, and stops at one that does.\<close>

lemma skipslash_components:
  assumes "0 \<notin> set s"
  shows "filter named (components (skipslash s)) = filter named (components s)"
    and "named (last (components (skipslash s))) = named (last (components s))"
    and "set (skipslash s) \<subseteq> set s"
proof -
  have "filter named (components (skipslash s)) = filter named (components s) \<and>
      named (last (components (skipslash s))) = named (last (components s)) \<and> set (skipslash s) \<subseteq> set s"
    using assms
  proof (induction s)
    case (Cons x s)
    then have IH: "filter named (components (skipslash s)) = filter named (components s)"
      "named (last (components (skipslash s))) = named (last (components s))" "set (skipslash s) \<subseteq> set s" by auto
    consider "x = slash" | "x = dot" "s = []" | r where "x = dot" "s = slash # r"
      | "\<not> (x = slash \<or> x = dot \<and> (at s 0 = 0 \<or> at s 0 = slash))"
      using Cons.prems by (cases s) (auto simp: at_def)
    then show ?case
    proof cases
      case 3
      then have "filter named (components (skipslash (slash # r))) = filter named (components (slash # r))"
        "named (last (components (skipslash (slash # r)))) = named (last (components (slash # r)))" using IH by simp_all
      then show ?thesis using 3 IH(3) by (auto simp: at_def)
    next
      case 4
      then have "skipslash (x # s) = x # s" by auto
      then show ?thesis by (simp only: order_refl)
    qed (use IH in \<open>auto simp: at_def\<close>)
  qed simp
  then show "filter named (components (skipslash s)) = filter named (components s)"
    "named (last (components (skipslash s))) = named (last (components s))" "set (skipslash s) \<subseteq> set s" by blast+
qed

lemma skipslash_named:
  assumes "0 \<notin> set s" and "skipslash s \<noteq> []" shows "named (hd (components (skipslash s)))"
  using assms
proof (induction s)
  case (Cons x s)
  show ?case
  proof (cases "x = slash \<or> x = dot \<and> (at s 0 = 0 \<or> at s 0 = slash)")
    case False
    then show ?thesis using Cons.prems by (cases s) (auto simp: named_def at_def)
  qed (use Cons in auto)
qed simp

lemma parse_loop_elems:
  assumes "0 \<notin> set name"
  shows "e_elems (parse_loop len name e) = e_elems e @ filter named (components name)
    \<and> e_mustbedir (parse_loop len name e) = (\<not> named (last (components name)))"
  using assms
proof (induction len name e rule: parse_loop.induct)
  case (1 len name e)
  define t where "t = skipslash name"
  note sk = skipslash_components [OF 1(2), folded t_def]
  have z: "0 \<notin> set t" using sk(3) 1(2) by auto
  show ?case
  proof (cases "t = []")
    case True
    then have "\<not> named (last (components name))" "filter named (components name) = []"
      using sk(1,2) by (simp_all add: named_def)
    then show ?thesis by (simp add: parse_loop.simps [of len name] True flip: t_def)
  next
    case False
    have nm: "named (hd (components t))" using skipslash_named [OF 1(2)] False by (simp add: t_def)
    have uf: "utfrune t 47 = strchr t slash" by (simp add: utfrune_def Runesync_def)
    show ?thesis
    proof (cases "strchr t slash")
      case None
      then have "components t = [t]" using strchr_no_components z by blast
      then show ?thesis using sk(1,2) nm None False
        by (simp add: parse_loop.simps [of len name] uf flip: t_def)
    next
      case (Some k)
      note c = strchr_components [OF Some]
      let ?e = "e\<lparr>e_elems := e_elems e @ [take k t], e_off := e_off e @ [len - length t + k]\<rparr>"
      have z': "0 \<notin> set (drop (k + 1) t)" using z by (auto dest: in_set_dropD)
      have IH: "e_elems (parse_loop len (drop (k + 1) t) ?e) = e_elems ?e @ filter named (components (drop (k + 1) t))
          \<and> e_mustbedir (parse_loop len (drop (k + 1) t) ?e) = (\<not> named (last (components (drop (k + 1) t))))"
        using 1(1) [OF t_def False _ z'] Some uf by simp
      have p: "parse_loop len name e = parse_loop len (drop (k + 1) t) ?e"
        using Some False by (simp add: parse_loop.simps [of len name] uf flip: t_def)
      show ?thesis using IH sk(1,2) nm by (simp add: p c)
    qed
  qed
qed

text \<open>
  C33. \<open>parsename\<close> splits a name at its slashes and keeps exactly the components that name something: none
  of its elements is empty, a dot, or has a slash in it. The name must be a directory if and only if its
  last component names nothing.
\<close>

theorem parsename_components:
  assumes "0 \<notin> set name"
  shows "e_elems (parsename name) = filter named (components name)
    \<and> (e_mustbedir (parsename name) \<longleftrightarrow> \<not> named (last (components name)))
    \<and> (\<forall>e\<in>set (e_elems (parsename name)). e \<noteq> [] \<and> \<not> (at e 0 = dot \<and> at e 1 = 0) \<and> slash \<notin> set e)"
proof -
  note p = parse_loop_elems [OF assms]
  have "e \<noteq> [] \<and> \<not> (at e 0 = dot \<and> at e 1 = 0) \<and> slash \<notin> set e" if e: "e \<in> set (filter named (components name))" for e
  proof -
    have "e \<noteq> []" "e \<noteq> [dot]" "0 \<notin> set e" "slash \<notin> set e"
      using e assms components_set [of e name] components_slashless [of e name] by (auto simp: named_def)
    then show ?thesis by (cases e; cases "tl e") (auto simp: at_def)
  qed
  then show ?thesis using p by (simp add: parsename_def)
qed

theorem parsename_components_witness:
  "e_elems (parsename [slash, 97, slash, slash, dot, slash, dot, dot, slash]) = [[97], [dot, dot]]
   \<and> e_mustbedir (parsename [slash, 97, slash, slash, dot, slash, dot, dot, slash])"
  using parsename_components [of "[slash, 97, slash, slash, dot, slash, dot, dot, slash]"]
  by (simp add: named_def)

section \<open>cleanname rewrites a name as its reference says\<close>

text \<open>
  The reference: a stack of elements above a number of leading dot-dots. A dot-dot takes the last
  element away; where there is none it is dropped in a rooted name and kept in another.
\<close>

fun clean_step :: "bool \<Rightarrow> bytes \<Rightarrow> nat \<times> bytes list \<Rightarrow> nat \<times> bytes list" where
  "clean_step rooted e (up, els) =
     (if \<not> named e then (up, els)
      else if e = [dot, dot] then
        (if els \<noteq> [] then (up, butlast els) else if rooted then (up, els) else (up + 1, els))
      else (up, els @ [e]))"

fun join :: "bytes list \<Rightarrow> bytes" where
  "join [] = []"
| "join (e # es) = (if es = [] then e else e @ slash # join es)"

definition render :: "bool \<Rightarrow> nat \<times> bytes list \<Rightarrow> bytes" where
  "render rooted st = (if rooted then [slash] else []) @ join (replicate (fst st) [dot, dot] @ snd st)"

definition clean_ref :: "bytes \<Rightarrow> bytes" where
  "clean_ref name =
     (let rooted = (at name 0 = slash);
          r = render rooted (fold (clean_step rooted) (components name) (0, []))
      in if r = [] then [dot] else r)"

lemma join_snoc: "join (es @ [e]) = (if es = [] then e else join es @ slash # e)"
  by (induction es) auto

lemma join_empty: "[] \<notin> set es \<Longrightarrow> join es = [] \<longleftrightarrow> es = []"
  by (cases es) auto

lemma render_snoc:
  "render r (up, els @ [e]) = render r (up, els) @ (if up = 0 \<and> els = [] then [] else [slash]) @ e"
  using join_snoc [of "replicate up [dot, dot] @ els" e] by (auto simp: render_def)

lemma render_up: "render r (Suc up, []) = render r (up, []) @ (if up = 0 then [] else [slash]) @ [dot, dot]"
proof (cases "up = 0")
  case False
  then show ?thesis using join_snoc [of "replicate up [dot, dot]" "[dot, dot]"]
    by (auto simp: render_def replicate_append_same simp flip: replicate_Suc)
qed (simp add: render_def)

lemma render_start: "render r (up, els) = (if r then [slash] else []) \<longleftrightarrow> up = 0 \<and> els = []" if "[] \<notin> set els"
  using that join_empty [of "replicate up [dot, dot] @ els"] by (auto simp: render_def)

lemma render_longer: "length (render r (up, [])) + (if els = [] then 0 else 1) \<le> length (render r (up, els))"
  if "[] \<notin> set els"
  using that
proof (induction els rule: rev_induct)
  case (snoc e els)
  then show ?case by (cases e) (auto simp: render_snoc split: if_splits)
qed simp

text \<open>The parts of the loop.\<close>

lemma at_drop: "at b (p + i) = at (drop p b) i"
  by (auto simp: at_def)

lemma at_append: "at (e @ s) (length e) = at s 0"
  by (simp add: at_def nth_append)

lemma backtrack_to:
  "d \<le> r \<Longrightarrow> r < q \<Longrightarrow> r = d \<or> at b r = slash \<Longrightarrow> \<forall>i. r < i \<and> i < q \<longrightarrow> at b i \<noteq> slash \<Longrightarrow> backtrack b q d = r"
proof (induction b q d rule: backtrack.induct)
  case (1 b q d)
  show ?case
  proof (cases "q - 1 = r")
    case True
    then show ?thesis using "1.prems" by (subst backtrack.simps) (auto simp: Let_def)
  next
    case False
    then have q: "q - 1 > d" "at b (q - 1) \<noteq> slash" "r < q - 1" using "1.prems" by auto
    then have "backtrack b (q - 1) d = r" using "1.prems" by (intro "1.IH" [OF refl]) auto
    then show ?thesis using q by (subst backtrack.simps) (simp add: Let_def)
  qed
qed

lemma copy_elem_copies:
  assumes "drop p b = e @ t @ u" and "\<forall>x\<in>set e. x \<noteq> slash \<and> x \<noteq> 0" and "at b (p + length e) = slash \<or> at b (p + length e) = 0"
    and "q \<le> p" and "copy_elem b p q = (b', p', q')" and "p + length e < length b"
  shows "p' = p + length e" and "q' = q + length e" and "take q' b' = take q b @ e" and "drop p' b' = drop p' b"
    and "length b' = length b"
proof -
  have "p' = p + length e \<and> q' = q + length e \<and> take q' b' = take q b @ e \<and> drop p' b' = drop p' b"
    using assms
  proof (induction e arbitrary: b p q)
    case Nil
    then have "(b', p', q') = (b[q := at b p], p, q)" by (subst (asm) copy_elem.simps) (auto simp: Let_def)
    moreover have "drop p (b[q := at b p]) = drop p b"
      using Nil(4) by (cases "q = p") (auto simp: at_def list_eq_iff_nth_eq nth_list_update)
    ultimately show ?case by simp
  next
    case (Cons x e)
    have x: "at b p = x" "x \<noteq> slash" "x \<noteq> 0" using at_drop [of b p 0] Cons(2,3) by (simp_all add: at_def)
    have l: "p < length b" "q < length b" using Cons(5,7) by auto
    let ?b = "b[q := x]"
    have c: "copy_elem ?b (p + 1) (q + 1) = (b', p', q')"
      using Cons(6) x by (subst (asm) copy_elem.simps) (simp add: Let_def)
    have d: "drop k ?b = drop k b" if "k > p" for k using that Cons(5) by simp
    have a: "at ?b k = at b k" if "k > p" for k using that Cons(5) by (simp add: at_def)
    have d1: "drop (p + 1) ?b = e @ t @ u" using Cons(2) d [of "p + 1"] by (simp add: drop_Suc tl_drop [symmetric])
    have "at ?b (p + 1 + length e) = slash \<or> at ?b (p + 1 + length e) = 0" using Cons(4) a [of "p + 1 + length e"] by simp
    from Cons(1) [OF d1 _ this _ c] Cons(3,5,7)
    have i: "p' = p + 1 + length e" "q' = q + 1 + length e" "take q' b' = take (q + 1) ?b @ e" "drop p' b' = drop p' ?b"
      by auto
    have "take (q + 1) ?b = take q b @ [x]" using l by (simp add: take_Suc_conv_app_nth)
    then show ?case using i d [of p'] by simp
  qed
  then show "p' = p + length e" "q' = q + length e" "take q' b' = take q b @ e" "drop p' b' = drop p' b" by blast+
  show "length b' = length b" using copy_elem_ge [OF assms(5)] by simp
qed

lemma real_elem_writes:
  assumes "drop p b = e @ t @ u" and "\<forall>x\<in>set e. x \<noteq> slash \<and> x \<noteq> 0" and "at (t @ u) 0 = slash \<or> at (t @ u) 0 = 0"
    and "e \<noteq> []" and "t @ u \<noteq> []" and "q < p \<or> q = p \<and> q = (if rooted then 1 else 0)"
    and "real_elem rooted b p q = (b', p', q')"
  shows "p' = p + length e"
    and "take q' b' = take q b @ (if q = (if rooted then 1 else 0) then [] else [slash]) @ e" and "drop p' b' = t @ u"
    and "length b' = length b" and "q' = q + (if q = (if rooted then 1 else 0) then 0 else 1) + length e"
proof -
  let ?r = "if rooted then 1 else 0 :: nat"
  define c where "c = (if q = ?r then b else b[q := slash])"
  define k where "k = (if q = ?r then q else q + 1)"
  have l: "length b = p + length e + length (t @ u)" using assms(1,4,5) by (metis length_append length_drop add.assoc
        append_is_Nil_conv drop_eq_Nil le_add_diff_inverse nat_le_linear)
  have cp: "copy_elem c p k = (b', p', q')" using assms(7) by (auto simp: real_elem_def c_def k_def split: if_splits)
  have d: "drop p c = e @ t @ u" using assms(1,6) by (auto simp: c_def)
  have k: "k \<le> p" using assms(6) by (auto simp: k_def)
  have e: "at c (p + length e) = slash \<or> at c (p + length e) = 0" using assms(3) d by (simp add: at_drop at_append)
  have pl: "p + length e < length c" using l assms(5) by (cases "t @ u") (auto simp: c_def)
  note r = copy_elem_copies [OF d assms(2) e k cp pl]
  have q: "q < length b" using assms(6) l assms(4) by (cases e) auto
  have tk: "take k c = take q b @ (if q = ?r then [] else [slash])"
    using q by (simp add: c_def k_def take_Suc_conv_app_nth)
  show "p' = p + length e" by (rule r(1))
  show "take q' b' = take q b @ (if q = ?r then [] else [slash]) @ e" using r(3) tk by simp
  show "drop p' b' = t @ u" using r(1,4) d drop_drop [of "length e" p c] by (simp add: add.commute)
  show "length b' = length b" using r(5) by (simp add: c_def)
  show "q' = q + (if q = ?r then 0 else 1) + length e" using r(2) by (simp add: k_def)
qed

text \<open>
  The invariant of the loop: what is written is the rendering of the stack so far, and \<open>q\<close> has room for
  the slash before the next element.
\<close>

definition clean_inv :: "bool \<Rightarrow> bytes \<Rightarrow> nat \<Rightarrow> nat \<Rightarrow> nat \<Rightarrow> nat \<times> bytes list \<Rightarrow> bytes \<Rightarrow> bytes \<Rightarrow> bool" where
  "clean_inv rooted b p q dotdot st t u \<longleftrightarrow>
     drop p b = t @ 0 # u \<and> 0 \<notin> set t \<and> q \<le> p \<and> take q b = render rooted st \<and> q = length (render rooted st) \<and>
     dotdot = length (render rooted (fst st, [])) \<and> (rooted \<longrightarrow> fst st = 0) \<and>
     (\<forall>e\<in>set (snd st). e \<noteq> [] \<and> slash \<notin> set e) \<and>
     (q < p \<or> st = (0, []) \<or> at t 0 = slash \<or> t = [])"

lemma clean_dotdot:
  assumes "clean_inv rooted b p q dotdot (up, els @ [e]) t u"
  shows "backtrack b q dotdot = length (render rooted (up, els))" and "dotdot < q"
    and "take (length (render rooted (up, els))) b = render rooted (up, els)"
proof -
  let ?r = "length (render rooted (up, els))"
  define m where "m = (if up = 0 \<and> els = [] then [] else [slash])"
  have e: "e \<noteq> []" "slash \<notin> set e" "[] \<notin> set els" using assms by (auto simp: clean_inv_def)
  have o: "take q b = render rooted (up, els @ [e])" "q = length (render rooted (up, els @ [e]))"
    using assms by (auto simp only: clean_inv_def)
  note out = o(1) [unfolded render_snoc, folded m_def] o(2) [unfolded render_snoc, folded m_def, simplified length_append add.assoc [symmetric]]
  have d: "dotdot \<le> ?r" "m = [] \<Longrightarrow> dotdot = ?r"
    using assms render_longer [OF e(3), of rooted up] by (auto simp: clean_inv_def m_def split: if_splits)
  have ql: "q \<le> length b" using out by (metis length_append length_take min.cobounded1 min_def add.assoc)
  have at: "at b i = (render rooted (up, els) @ m @ e) ! i" if "i < q" for i
    using that ql out(1) by (metis at_def nth_take order_less_le_trans)
  have "?r < q" using out(2) e(1) by simp
  moreover have "?r = dotdot \<or> at b ?r = slash"
    using at [of ?r] calculation d(2) by (cases "m = []") (auto simp: m_def nth_append split: if_splits)
  moreover have "at b i \<noteq> slash" if i: "?r < i" "i < q" for i
  proof -
    have "at b i = e ! (i - ?r - length m)" using at [OF i(2)] i(1) by (auto simp: nth_append m_def)
    moreover have "i - ?r - length m < length e" using i out(2) by (auto simp: m_def)
    ultimately show ?thesis using e(2) nth_mem by metis
  qed
  ultimately show "backtrack b q dotdot = ?r" "dotdot < q" using backtrack_to [OF d(1), of q b] d(1) by auto
  have "take ?r (take q b) = render rooted (up, els)" unfolding out(1) by simp
  then show "take ?r b = render rooted (up, els)" using \<open>?r < q\<close> by simp
qed

lemma components_elem:
  assumes "slash \<notin> set e" and "at t 0 = slash \<or> t = []"
  shows "components (e @ t) = e # tl (components t)"
  using assms(1)
proof (induction e)
  case Nil
  then show ?case using assms(2) by (cases t) (auto simp: at_def)
qed auto

lemma clean_fold_elem:
  assumes "slash \<notin> set e" and "at t 0 = slash \<or> t = []"
  shows "fold (clean_step r) (components (e @ t)) st = fold (clean_step r) (components t) (clean_step r e st)"
proof -
  have "components t = [] # tl (components t)" using assms(2) by (cases t) (auto simp: at_def split: if_splits)
  moreover have "clean_step r [] st' = st'" for st' by (cases st') simp
  ultimately show ?thesis using components_elem [OF assms] by (metis comp_apply fold_simps(2))
qed

lemma clean_invD:
  assumes "clean_inv rooted b p q dotdot st t u"
  shows "drop p b = t @ 0 # u" and "0 \<notin> set t" and "q \<le> p" and "take q b = render rooted st" and "q = length (render rooted st)"
    and "dotdot = length (render rooted (fst st, []))" and "rooted \<Longrightarrow> fst st = 0"
    and "\<forall>e\<in>set (snd st). e \<noteq> [] \<and> slash \<notin> set e" and "at t 0 \<noteq> slash \<Longrightarrow> t \<noteq> [] \<Longrightarrow> q < p \<or> st = (0, [])"
    and "at b (p + i) = at (t @ 0 # u) i" and "p + length t < length b"
    and "q = (if rooted then 1 else 0) \<longleftrightarrow> st = (0, [])"
proof -
  show "at b (p + i) = at (t @ 0 # u) i" using assms by (simp add: clean_inv_def at_drop)
  have d: "drop p b = t @ 0 # u" using assms by (simp add: clean_inv_def)
  show "p + length t < length b" using arg_cong [OF d, of length] by (simp only: length_drop length_append length_Cons)
  have "[] \<notin> set (snd st)" using assms by (auto simp: clean_inv_def)
  then show "q = (if rooted then 1 else 0) \<longleftrightarrow> st = (0, [])"
    using assms join_empty [of "replicate (fst st) [dot, dot] @ snd st"] by (cases st) (auto simp: clean_inv_def render_def)
qed (use assms in \<open>auto simp only: clean_inv_def\<close>)

lemma clean_inv_skip:
  assumes "clean_inv rooted b p q dotdot st (x @ t) u" and "x \<noteq> []"
  shows "clean_inv rooted b (p + length x) q dotdot st t u"
proof -
  note i = clean_invD [OF assms(1)]
  have "drop (p + length x) b = t @ 0 # u" using i(1) drop_drop [of "length x" p b] by (simp add: add.commute)
  moreover have "q < p + length x" using i(3) assms(2) by (cases x) auto
  ultimately show ?thesis using i(2,4-8) by (auto simp: clean_inv_def)
qed

lemma clean_inv_pop:
  assumes "clean_inv rooted b p q dotdot (up, els @ [e]) (x @ t) u" and "x \<noteq> []"
  shows "clean_inv rooted b (p + length x) (backtrack b q dotdot) dotdot (up, els) t u"
proof -
  note i = clean_invD [OF clean_inv_skip [OF assms]]
  note c = clean_dotdot [OF assms(1)]
  have "length (render rooted (up, els)) < q" using i(5) i(8) by (auto simp: render_snoc)
  then show ?thesis using i c clean_invD(3) [OF assms(1)] assms(2) by (cases x) (auto simp: clean_inv_def)
qed

lemma take_store3:
  "q + 2 < length b \<Longrightarrow> take (q + 3) (b[q := x, q + 1 := y, q + 2 := z]) = take q b @ [x, y, z]"
  by (simp add: numeral_3_eq_3 numeral_2_eq_2 take_Suc_conv_app_nth)

lemma take_store2: "q + 1 < length b \<Longrightarrow> take (q + 2) (b[q := x, q + 1 := y]) = take q b @ [x, y]"
  by (simp add: numeral_2_eq_2 take_Suc_conv_app_nth)

lemma clean_inv_up:
  assumes "clean_inv False b p q dotdot (up, []) (dot # dot # t) u"
    and "at t 0 = slash \<or> t = []"
  shows "q \<noteq> 0 \<Longrightarrow> clean_inv False (b[q := slash, q + 1 := dot, q + 2 := dot]) (p + 2) (q + 3) (q + 3) (Suc up, []) t u"
    and "q = 0 \<Longrightarrow> clean_inv False (b[q := dot, q + 1 := dot]) (p + 2) (q + 2) (q + 2) (Suc up, []) t u"
proof -
  note i = clean_invD [OF assms(1)]
  have d: "drop (p + 2) b = t @ 0 # u" using i(1) drop_drop [of 2 p b] by (simp add: add.commute numeral_2_eq_2)
  have t: "0 \<notin> set t" "p + 2 < length b" using i(2,11) by auto
  have up: "q = 0 \<longleftrightarrow> up = 0" using i(12) by auto
  have r: "render False (Suc up, []) = take q b @ (if q = 0 then [] else [slash]) @ [dot, dot]"
    unfolding render_up up using i(4) by simp
  have l: "length (render False (up, [])) = q" using i(5) by simp
  {
    assume "q \<noteq> 0"
    then have "q < p" using i(9) up by (auto simp: at_def)
    then show "clean_inv False (b[q := slash, q + 1 := dot, q + 2 := dot]) (p + 2) (q + 3) (q + 3) (Suc up, []) t u"
      using assms(2) \<open>q \<noteq> 0\<close> d t r l take_store3 [of q b slash dot dot]
      by (auto simp: clean_inv_def at_def)
  next
    assume "q = 0"
    then show "clean_inv False (b[q := dot, q + 1 := dot]) (p + 2) (q + 2) (q + 2) (Suc up, []) t u"
      using assms(2) d t r l take_store2 [of q b dot dot] by (auto simp: clean_inv_def)
  }
qed

lemma clean_inv_push:
  assumes "clean_inv rooted b p q dotdot (up, els) (e @ t) u" and "e \<noteq> []" and "slash \<notin> set e"
    and "at t 0 = slash \<or> t = []" and "real_elem rooted b p q = (b', p', q')"
  shows "clean_inv rooted b' p' q' dotdot (up, els @ [e]) t u" and "p' = p + length e" and "length b' = length b"
proof -
  note i = clean_invD [OF assms(1)]
  have d: "drop p b = e @ t @ 0 # u" using i(1) by simp
  have e: "\<forall>x\<in>set e. x \<noteq> slash \<and> x \<noteq> 0" using i(2) assms(3) by auto
  have t: "at (t @ 0 # u) 0 = slash \<or> at (t @ 0 # u) 0 = 0" using assms(4) by (cases t) (auto simp: at_def)
  have "at (e @ t) 0 \<noteq> slash" "e @ t \<noteq> []" using e assms(2) by (cases e; simp add: at_def)+
  then have q: "q < p \<or> q = p \<and> q = (if rooted then 1 else 0)" using i(3,9,12) by (cases "q < p") auto
  note r = real_elem_writes [OF d e t assms(2) _ q assms(5)]
  have s: "(up = 0 \<and> els = []) = (q = (if rooted then 1 else 0))" using i(12) by auto
  have w: "take q' b' = render rooted (up, els @ [e])" using r(2) i(4) by (simp add: render_snoc s)
  moreover have "q' = length (render rooted (up, els @ [e]))" using r(5) i(5) by (simp add: render_snoc s)
  moreover have "q' \<le> p'" using r(1,5) q by auto
  ultimately show "clean_inv rooted b' p' q' dotdot (up, els @ [e]) t u"
    using r(3) i(2,6,7,8) assms(2-4) by (auto simp: clean_inv_def)
  show "p' = p + length e" "length b' = length b" using r(1,4) by simp_all
qed

text \<open>What the loop returns.\<close>

definition clean_done :: "bool \<Rightarrow> bytes \<Rightarrow> nat \<Rightarrow> nat \<times> bytes list \<Rightarrow> bytes \<Rightarrow> bytes \<times> nat \<Rightarrow> bool" where
  "clean_done rooted b p st u x \<longleftrightarrow>
     snd x = length (render rooted st) \<and> take (snd x) (fst x) = render rooted st \<and> drop p (fst x) = 0 # u \<and>
     length (fst x) = length b \<and> snd x \<le> p"

lemma clean_done_length: "length b' = length b \<Longrightarrow> clean_done r b' = clean_done r b"
  by (auto simp: clean_done_def fun_eq_iff)

lemma clean_done_store [simp]: "clean_done r (b[i := x]) = clean_done r b"
  by (rule clean_done_length) simp

lemma at_Cons: "at (x # s) 0 = x" "at (x # s) (Suc i) = at s i" "at [] i = 0"
  by (simp_all add: at_def)

lemma at_end: "at (t @ 0 # u) i = at t i" if "i \<le> length t"
  using that by (auto simp: at_def nth_append)

lemma clean_loop_done:
  assumes "clean_inv rooted b p q dotdot st t u"
  shows "clean_done rooted b (p + length t) (fold (clean_step rooted) (components t) st) u (clean_loop rooted b p q dotdot)"
  using assms
proof (induction rooted b p q dotdot arbitrary: st t rule: clean_loop.induct)
  case (1 rooted b p q dotdot)
  note IH = 1(1-7) and inv = 1(8) and i = clean_invD [OF 1(8)]
  obtain up els where st: "st = (up, els)" by (cases st)
  have at0: "at b p = at t 0" using i(10) [of 0] by (simp add: at_end)
  show ?case
  proof (cases t)
    case Nil
    then have "clean_loop rooted b p q dotdot = (b, q)" using at0 by (simp add: clean_loop.simps [of rooted b p] at_Cons)
    then show ?thesis using i(1,3-5) Nil by (simp add: clean_done_def st)
  next
    case (Cons x r)
    have x: "x \<noteq> 0" "at b p = x" "at b (p + 1) = at r 0" using i(2) at0 i(10) [of 1] Cons by (auto simp: at_Cons at_end)
    consider "x = slash" | "x = dot" "SEP (at r 0)" | r' where "x = dot" "r = dot # r'" "SEP (at r' 0)"
      | "x \<noteq> slash" "\<not> (x = dot \<and> SEP (at r 0))" "\<not> (x = dot \<and> at r 0 = dot \<and> SEP (at r 1))"
      by (cases r) (auto simp: at_Cons)
    then show ?thesis
    proof cases
      case 1
      have inv': "clean_inv rooted b (p + 1) q dotdot st r u"
        using clean_inv_skip [of rooted b p q dotdot st "[x]" r u] inv Cons by simp
      have "clean_loop rooted b p q dotdot = clean_loop rooted b (p + 1) q dotdot"
        using x 1 by (subst clean_loop.simps) simp
      then show ?thesis using IH(1) [OF _ _ inv'] x 1 by (simp add: Cons st)
    next
      case 2
      have inv': "clean_inv rooted b (p + 1) q dotdot st r u"
        using clean_inv_skip [of rooted b p q dotdot st "[x]" r u] inv Cons by simp
      have l: "clean_loop rooted b p q dotdot = clean_loop rooted b (p + 1) q dotdot"
        using x 2 by (subst clean_loop.simps) simp
      have "at r 0 = slash \<or> r = []" using 2(2) i(2) Cons by (cases r) (auto simp: SEP_def at_Cons)
      then have "fold (clean_step rooted) (components t) st = fold (clean_step rooted) (components r) st"
        using clean_fold_elem [of "[dot]" r rooted st] 2 Cons by (simp add: st)
      then show ?thesis using IH(2) [OF _ _ _ inv'] x 2 l by (simp add: Cons)
    next
      case (3 r')
      have b: "at b (p + 1) = dot" "at b (p + 2) = at r' 0"
        using x i(10) [of 2] 3 i(2) Cons by (auto simp: at_Cons at_end numeral_2_eq_2)
      have r': "at r' 0 = slash \<or> r' = []" using 3 i(2) Cons by (cases r') (auto simp: SEP_def at_Cons)
      have f: "fold (clean_step rooted) (components t) st =
          fold (clean_step rooted) (components r') (clean_step rooted [dot, dot] st)"
        using clean_fold_elem [of "[dot, dot]" r' rooted st] 3 Cons r' by simp
      note c = x(1) 3(1) b 3(3)
      have nsep: "\<not> SEP dot" by (simp add: SEP_def)
      have n: "p + length t = p + 2 + length r'" using 3 Cons by simp
      consider (pop) els0 e where "els = els0 @ [e]" | (up) "els = []" "\<not> rooted" | (top) "els = []" "rooted"
        by (cases els rule: rev_cases) auto
      then show ?thesis
      proof cases
        case pop
        have inv0: "clean_inv rooted b p q dotdot (up, els0 @ [e]) ([dot, dot] @ r') u" using inv st pop 3 Cons by simp
        have inv': "clean_inv rooted b (p + 2) (backtrack b q dotdot) dotdot (up, els0) r' u"
          using clean_inv_pop [OF inv0] by (simp add: numeral_2_eq_2)
        have g: "q > dotdot" using clean_dotdot(2) [OF inv0] .
        have "clean_loop rooted b p q dotdot = clean_loop rooted b (p + 2) (backtrack b q dotdot) dotdot"
          using c x g nsep by (subst clean_loop.simps) simp
        then show ?thesis using IH(3) [OF _ _ _ _ _ inv'] c x g nsep by (simp add: f [unfolded st pop] st pop n named_def)
      next
        case up
        have g: "\<not> q > dotdot" using i(5,6) st up by simp
        have inv0: "clean_inv False b p q dotdot (up, []) (dot # dot # r') u" using inv st up 3 Cons by simp
        show ?thesis
        proof (cases "q = 0")
          case False
          have "clean_loop rooted b p q dotdot = clean_loop rooted (b[q := slash, q + 1 := dot, q + 2 := dot]) (p + 2) (q + 3) (q + 3)"
            using c x g nsep False up by (subst clean_loop.simps) simp
          moreover have i4: "clean_inv rooted (b[q := slash, q + 1 := dot, q + 2 := dot]) (p + 2) (q + 3) (q + 3) (Suc up, []) r' u"
            using clean_inv_up(1) [OF inv0 r' False] up(2) by simp
          ultimately show ?thesis using IH(4) [OF _ _ _ _ _ _ _ i4] c x g nsep False up f [unfolded st up(1)]
            by (simp add: st n named_def)
        next
          case True
          have "clean_loop rooted b p q dotdot = clean_loop rooted (b[q := dot, q + 1 := dot]) (p + 2) (q + 2) (q + 2)"
            using c x g nsep True up by (subst clean_loop.simps) simp
          moreover have i5: "clean_inv rooted (b[q := dot, q + 1 := dot]) (p + 2) (q + 2) (q + 2) (Suc up, []) r' u"
            using clean_inv_up(2) [OF inv0 r' True] up(2) by simp
          ultimately show ?thesis using IH(5) [OF _ _ _ _ _ _ _ i5] c x g nsep True up f [unfolded st up(1)]
            by (simp add: st n named_def)
        qed
      next
        case top
        have g: "\<not> q > dotdot" using i(5,6) st top by simp
        have inv': "clean_inv rooted b (p + 2) q dotdot st r' u"
          using clean_inv_skip [of rooted b p q dotdot st "[dot, dot]" r' u] inv 3 Cons by (simp add: numeral_2_eq_2)
        have "clean_loop rooted b p q dotdot = clean_loop rooted b (p + 2) q dotdot"
          using c x g nsep top by (subst clean_loop.simps) simp
        then show ?thesis using IH(6) [OF _ _ _ _ _ _ inv'] c x g nsep top f [unfolded st top(1)] by (simp add: st n named_def)
      qed
    next
      case 4
      define e t' where "e = takeWhile (\<lambda>c. c \<noteq> slash) t" and "t' = dropWhile (\<lambda>c. c \<noteq> slash) t"
      have tt: "t = e @ t'" by (simp add: e_def t'_def)
      have e: "e \<noteq> []" "slash \<notin> set e" using 4(1) Cons by (auto simp: e_def dest: set_takeWhileD)
      have t': "at t' 0 = slash \<or> t' = []" unfolding t'_def by (induction t) (auto simp: at_Cons)
      have sep: "SEP (at t' 0)" using t' by (auto simp: SEP_def at_Cons)
      have nm: "named e" "e \<noteq> [dot, dot]" using 4(2,3) sep e(1) tt Cons by (auto simp: named_def at_Cons)
      obtain b' p' q' where re: "real_elem rooted b p q = (b', p', q')" by (cases "real_elem rooted b p q") auto
      have inv0: "clean_inv rooted b p q dotdot (up, els) (e @ t') u" using inv st tt by simp
      note pu = clean_inv_push [OF inv0 e t' re]
      have "p < p'" using pu(2) e(1) by simp
      have b2: "at b (p + 2) = at r 1" if "at r 0 = dot"
      proof -
        have "r \<noteq> []" using that by (auto simp: at_def)
        then show ?thesis using i(10) [of 2] Cons by (cases r) (simp_all add: at_Cons at_end numeral_2_eq_2)
      qed
      have c: "\<not> at b p = 0" "\<not> at b p = slash" "\<not> (at b p = dot \<and> SEP (at b (p + 1)))"
        "\<not> (at b p = dot \<and> at b (p + 1) = dot \<and> SEP (at b (p + 2)))"
        using x 4 b2 by auto
      have l: "clean_loop rooted b p q dotdot = clean_loop rooted b' p' q' dotdot"
        by (subst clean_loop.simps) (simp only: c if_False re prod.case \<open>p < p'\<close> if_True)
      have f: "fold (clean_step rooted) (components t) st = fold (clean_step rooted) (components t') (up, els @ [e])"
        using clean_fold_elem [OF e(2) t', of rooted st] nm by (simp add: tt st)
      show ?thesis using IH(7) [OF c re [symmetric] refl \<open>p < p'\<close> pu(1)] pu(2) l
        by (simp add: f [unfolded tt] tt clean_done_length [OF pu(3)] add.assoc)
    qed
  qed
qed

lemma join_bytes: "set (join es) \<subseteq> insert slash (\<Union> (set ` set es))"
  by (induction es) auto

lemma clean_fold_bytes:
  "\<forall>e\<in>set cs. 0 \<notin> set e \<Longrightarrow> \<forall>e\<in>set (snd st). 0 \<notin> set e \<Longrightarrow> e \<in> set (snd (fold (clean_step r) cs st)) \<Longrightarrow> 0 \<notin> set e"
proof (induction cs arbitrary: st)
  case (Cons c cs)
  have "\<forall>e\<in>set (snd (clean_step r c st)). 0 \<notin> set e"
    using Cons.prems(1,2) by (cases st) (auto dest: in_set_butlastD)
  then show ?case using Cons by simp
qed simp

lemma render_bytes: "\<forall>e\<in>set (snd st). 0 \<notin> set e \<Longrightarrow> 0 \<notin> set (render r st)"
  using join_bytes [of "replicate (fst st) [dot, dot] @ snd st"] by (auto simp: render_def split: if_splits)

lemma clean_start: "clean_inv (at name 0 = slash) (name @ 0 # rest) (if at name 0 = slash then 1 else 0)
    (if at name 0 = slash then 1 else 0) (if at name 0 = slash then 1 else 0) (0, [])
    (if at name 0 = slash then tl name else name) rest" if "0 \<notin> set name"
  using that by (cases name) (auto simp: clean_inv_def render_def at_Cons)

text \<open>
  C25. \<open>cleanname\<close>, in place and in one pass over the buffer, computes the reference: the components that
  name nothing are gone, each dot-dot has taken away the element before it, dot-dots are left at the
  front of a name that is not rooted only, and an empty result is a dot. It never writes past the NUL
  of the name, except for the empty name, which needs a second byte.
\<close>

theorem cleanname_computes_reference:
  assumes "0 \<notin> set name" and "name \<noteq> [] \<or> rest \<noteq> []"
  shows "cstr_at (cleanname (name @ 0 # rest)) = clean_ref name
    \<and> length (cleanname (name @ 0 # rest)) = length name + 1 + length rest
    \<and> (name \<noteq> [] \<longrightarrow> drop (length name + 1) (cleanname (name @ 0 # rest)) = rest)"
proof -
  let ?b = "name @ 0 # rest" and ?r = "at name 0 = slash"
  let ?t = "if ?r then tl name else name"
  define k where "k = (if ?r then 1 else 0 :: nat)"
  define st where "st = fold (clean_step ?r) (components name) (0, [])"
  obtain b1 q1 where cl: "clean_loop ?r ?b k k k = (b1, q1)" by fastforce
  have k: "k + length ?t = length name" by (cases name) (auto simp: k_def at_Cons)
  have "fold (clean_step ?r) (components ?t) (0, []) = st" by (cases name) (auto simp: st_def at_Cons)
  then have d: "clean_done ?r ?b (length name) st rest (b1, q1)"
    using clean_loop_done [OF clean_start [OF assms(1), of rest, folded k_def]] cl k by simp
  have "\<forall>e\<in>set (components name). 0 \<notin> set e" using assms(1) components_set by blast
  then have "\<forall>e\<in>set (snd st). 0 \<notin> set e" using clean_fold_bytes [of "components name" "(0, [])"] by (auto simp: st_def)
  then have zero: "0 \<notin> set (render ?r st)" by (rule render_bytes)
  define R where "R = render ?r st"
  have R: "q1 = length R" "take q1 b1 = R" "drop (length name) b1 = 0 # rest" "length b1 = length ?b" "q1 \<le> length name"
    using d unfolding clean_done_def R_def fst_conv snd_conv by blast+
  have ref: "clean_ref name = (if R = [] then [dot] else R)" by (simp add: clean_ref_def Let_def R_def st_def)
  have cn: "cleanname ?b = (if R = [] then b1[0 := dot, 1 := 0] else b1[q1 := 0])"
    using cl R(1) by (cases name) (auto simp: cleanname_def k_def at_Cons)
  have cut: "cstr_at (b[length x := 0]) = x" if "take (length x) b = x" "length x < length b" "0 \<notin> set x" for x b
  proof -
    have "b[length x := 0] = x @ 0 # drop (length x + 1) b" using that by (simp add: upd_conv_take_nth_drop)
    moreover have "0 \<notin> set x \<Longrightarrow> takeWhile (\<lambda>b. b \<noteq> 0) (x @ 0 # y) = x" for x y :: bytes by (induction x) auto
    ultimately show ?thesis using that(3) by (simp add: cstr_at_def)
  qed
  have rest: "drop (length name + 1) b1 = rest" using R(3) drop_drop [of 1 "length name" b1] by simp
  show ?thesis
  proof (cases "R = []")
    case True
    have "1 < length b1" using R(4) assms(2) by (cases name; cases rest) auto
    then have "cstr_at (b1[0 := dot, 1 := 0]) = [dot]" using cut [of "[dot]" "b1[0 := dot]"] by (cases b1) auto
    then show ?thesis using R(4) rest True by (auto simp: cn ref)
  next
    case False
    have "cstr_at (b1[q1 := 0]) = R" using cut [of R b1] R zero by (simp add: R_def)
    then show ?thesis using R(4,5) rest False by (auto simp: cn ref)
  qed
qed


theorem cleanname_computes_reference_witness:
  "cstr_at (cleanname ([97, slash, slash, 98, slash, dot, slash, dot, dot, slash, 99] @ 0 # [])) = [97, slash, 99]"
proof -
  have "clean_ref [97, slash, slash, 98, slash, dot, slash, dot, dot, slash, 99] = [97, slash, 99]" by code_simp
  then show ?thesis
    using cleanname_computes_reference [of "[97, slash, slash, 98, slash, dot, slash, dot, dot, slash, 99]" "[]"] by simp
qed

end
