(* ===== verification/Chan.thy ===== *)
theory Chan
  imports Wire9P Paths "HOL-Library.Multiset"
begin

text \<open>
  Channels, path names and mount heads of the emulator kernel (emu/port/dat.h, emu/port/chan.c)
  and their reference counts.

  The kernel's heap is an explicit store: one list of objects per kind, a pointer is the index of
  the object, nil is \<open>None\<close>. Channels are recycled through the free list \<open>chanalloc.free\<close>; the
  other kinds are never reused once freed. \<open>panic()\<close>, a use of freed memory and a wild pointer set
  \<open>fault\<close>, which nothing clears; the theorems show it is never set. Memory allocation is taken to
  succeed.

  \<open>cclose\<close>, \<open>chanfree\<close>, \<open>cnameclose\<close>, \<open>mtptfree\<close> and \<open>putmhead\<close> call each other. \<open>release\<close> is their
  joint execution with the calls still to make kept in a list, in the order the code makes them.

  What the code has to get right here, that every reference count is the number of pointers to the object,
  is stated and proved in theory RefCount.
\<close>

unbundle bit_operations_syntax

section \<open>Constants\<close>

definition COPEN :: u16 where "COPEN = 0x0001"
definition CMSG :: u16 where "CMSG = 0x0002"
definition CCEXEC :: u16 where "CCEXEC = 0x0008"
definition CFREE :: u16 where "CFREE = 0x0010"
definition CRCLOSE :: u16 where "CRCLOSE = 0x0020"
definition CCACHE :: u16 where "CCACHE = 0x0080"

definition MORDER :: u32 where "MORDER = 0x0003"
definition MREPL :: u32 where "MREPL = 0x0000"
definition MBEFORE :: u32 where "MBEFORE = 0x0001"
definition MAFTER :: u32 where "MAFTER = 0x0002"
definition MCREATE :: u32 where "MCREATE = 0x0004"
definition MREADONLY :: u32 where "MREADONLY = 0x0008"

definition QTDIR :: u8 where "QTDIR = 0x80"

definition MNTHASH :: nat where "MNTHASH = 32"

section \<open>The objects\<close>

text \<open>
  \<open>struct Chan\<close>. Left out are the locks, the links of the allocator's lists (they are lists of the
  store), and the fields that belong to devices (\<open>mountid\<close>, \<open>mcp\<close>, \<open>mux\<close>, \<open>aux\<close>).
\<close>

record chan =
  c_ref :: int
  c_offset :: int
  c_type :: u16
  c_dev :: u64
  c_mode :: u16
  c_flag :: u16
  c_qid :: qid
  c_fid :: nat
  c_iounit :: nat
  c_umh :: "nat option"
  c_umc :: "nat option"
  c_uri :: int
  c_dri :: int
  c_mflag :: u32
  c_mchan :: "nat option"
  c_mqid :: qid
  c_name :: "nat option"

text \<open>\<open>struct Cname\<close>: the text and the stack of mount points crossed. Capacities are left out.\<close>

record cname =
  n_ref :: int
  n_s :: bytes
  n_mtpt :: "nat option list"
  n_free :: bool

record mount =
  mt_id :: nat
  mt_to :: nat
  mt_flag :: u32
  mt_spec :: "bytes option"

text \<open>\<open>struct Mhead\<close>; the \<open>next\<close> chain of its mounts is a list.\<close>

record mhead =
  mh_ref :: int
  mh_from :: nat
  mh_mount :: "mount list"
  mh_free :: bool

text \<open>\<open>struct Pgrp\<close>; each hash chain of \<open>mnthash\<close> is a list.\<close>

record pgrp =
  pg_ref :: int
  pg_id :: int
  pg_hash :: "nat list list"
  pg_progmode :: nat
  pg_dot :: "nat option"
  pg_slash :: "nat option"
  pg_nodevs :: bool
  pg_free :: bool

record fgrp =
  fg_ref :: int
  fg_fd :: "nat option list"
  fg_maxfd :: int
  fg_minfd :: int
  fg_free :: bool

text \<open>The kernel state; \<open>'d\<close> is the state of the devices.\<close>

record 'd kst =
  chans :: "chan list"
  cfree :: "nat list"
  fidgen :: nat
  cnames :: "cname list"
  ncname :: int
  mheads :: "mhead list"
  mountid :: nat
  pgrps :: "pgrp list"
  pgrpid :: int
  fgrps :: "fgrp list"
  dst :: 'd
  fault :: bool

text \<open>The strings \<open>error()\<close> is called with; a result is an error or a value.\<close>

datatype kerror =
    Emount | Eunmount | Eunion | Enocreate | Eexist | Ebadsharp | Enotdir | Efilename | Ebadchar
  | Eperm | Enoattach | Edoesnotexist | Eclone | Etoolong | Eempty | Enodmdir | Eexecdir
  | Ebadfd | Ebadusefd | Ebadarg | Enofd | Eisdir | Enegoff | Etoosmall | Eisstream | Ebadstat | Estat | Ebaddir
  | Edev bytes

type_synonym 'a res = "kerror + 'a"

text \<open>
  The devices (\<open>devtab\<close>), which are not modelled. \<open>dwalk\<close> answers a walk of the given names from a
  channel: \<open>None\<close> is the nil of a walk refused at its first name, otherwise the qids of the names
  walked. \<open>dclose\<close> tells the device that the last reference has gone. \<open>ddevno\<close> is the index in \<open>devtab\<close>
  of the device with a letter, \<open>dattach\<close> the qid and dev of its root for a specifier, \<open>dopen\<close> and
  \<open>dcreate\<close> the qid and mode of the file opened or created, or the error raised.
\<close>

record 'd devops =
  dwalk :: "'d \<Rightarrow> chan \<Rightarrow> bytes list \<Rightarrow> qid list option"
  dclose :: "'d \<Rightarrow> chan \<Rightarrow> 'd"
  ddevno :: "u32 \<Rightarrow> u16 option"
  dattach :: "'d \<Rightarrow> u16 \<Rightarrow> bytes \<Rightarrow> (qid \<times> u64) res"
  dopen :: "'d \<Rightarrow> chan \<Rightarrow> u32 \<Rightarrow> (qid \<times> u16) res"
  dcreate :: "'d \<Rightarrow> chan \<Rightarrow> bytes \<Rightarrow> u32 \<Rightarrow> u32 \<Rightarrow> (qid \<times> u16) res"

definition qid0 :: qid where
  "qid0 = \<lparr>q_path = 0, q_vers = 0, q_type = 0\<rparr>"

definition chan0 :: chan where
  "chan0 = \<lparr>c_ref = 0, c_offset = 0, c_type = 0, c_dev = 0, c_mode = 0, c_flag = 0, c_qid = qid0,
    c_fid = 0, c_iounit = 0, c_umh = None, c_umc = None, c_uri = 0, c_dri = 0, c_mflag = 0,
    c_mchan = None, c_mqid = qid0, c_name = None\<rparr>"

definition is_free :: "chan \<Rightarrow> bool" where
  "is_free c \<longleftrightarrow> c_flag c AND CFREE \<noteq> 0"

definition is_dir :: "qid \<Rightarrow> bool" where
  "is_dir q \<longleftrightarrow> q_type q AND QTDIR \<noteq> 0"

section \<open>Access to the store\<close>

definition upd_chan :: "nat \<Rightarrow> (chan \<Rightarrow> chan) \<Rightarrow> 'd kst \<Rightarrow> 'd kst" where
  "upd_chan c f s = s\<lparr>chans := (chans s)[c := f (chans s ! c)]\<rparr>"

definition upd_name :: "nat \<Rightarrow> (cname \<Rightarrow> cname) \<Rightarrow> 'd kst \<Rightarrow> 'd kst" where
  "upd_name n f s = s\<lparr>cnames := (cnames s)[n := f (cnames s ! n)]\<rparr>"

definition upd_mhead :: "nat \<Rightarrow> (mhead \<Rightarrow> mhead) \<Rightarrow> 'd kst \<Rightarrow> 'd kst" where
  "upd_mhead m f s = s\<lparr>mheads := (mheads s)[m := f (mheads s ! m)]\<rparr>"

definition upd_pgrp :: "nat \<Rightarrow> (pgrp \<Rightarrow> pgrp) \<Rightarrow> 'd kst \<Rightarrow> 'd kst" where
  "upd_pgrp p f s = s\<lparr>pgrps := (pgrps s)[p := f (pgrps s ! p)]\<rparr>"

definition upd_fgrp :: "nat \<Rightarrow> (fgrp \<Rightarrow> fgrp) \<Rightarrow> 'd kst \<Rightarrow> 'd kst" where
  "upd_fgrp p f s = s\<lparr>fgrps := (fgrps s)[p := f (fgrps s ! p)]\<rparr>"

abbreviation the_chan :: "'d kst \<Rightarrow> nat \<Rightarrow> chan" where "the_chan s c \<equiv> chans s ! c"
abbreviation the_name :: "'d kst \<Rightarrow> nat \<Rightarrow> cname" where "the_name s n \<equiv> cnames s ! n"
abbreviation the_mhead :: "'d kst \<Rightarrow> nat \<Rightarrow> mhead" where "the_mhead s m \<equiv> mheads s ! m"
abbreviation the_pgrp :: "'d kst \<Rightarrow> nat \<Rightarrow> pgrp" where "the_pgrp s p \<equiv> pgrps s ! p"

section \<open>Reference counts\<close>

text \<open>\<open>incref\<close> and \<open>decref\<close> on the reference count of a channel, name or mount head.\<close>

definition incref :: "int \<Rightarrow> int" where "incref r = r + 1"

definition incref_chan :: "nat \<Rightarrow> 'd kst \<Rightarrow> 'd kst" where
  "incref_chan c = upd_chan c (\<lambda>x. x\<lparr>c_ref := incref (c_ref x)\<rparr>)"

definition incref_name :: "nat \<Rightarrow> 'd kst \<Rightarrow> 'd kst" where
  "incref_name n = upd_name n (\<lambda>x. x\<lparr>n_ref := incref (n_ref x)\<rparr>)"

definition incref_mhead :: "nat \<Rightarrow> 'd kst \<Rightarrow> 'd kst" where
  "incref_mhead m = upd_mhead m (\<lambda>x. x\<lparr>mh_ref := incref (mh_ref x)\<rparr>)"

text \<open>A call still to be made: \<open>cclose\<close>, \<open>cnameclose\<close>, \<open>putmhead\<close>, the end of \<open>chanfree\<close>.\<close>

datatype call = Cclose nat | Cnameclose nat | Putmhead nat | Linkfree nat

definition opt_call :: "(nat \<Rightarrow> call) \<Rightarrow> nat option \<Rightarrow> call list" where
  "opt_call f x = (case x of None \<Rightarrow> [] | Some y \<Rightarrow> [f y])"

text \<open>\<open>chanfree\<close>: the channel after its assignments, and the calls it makes on the way.\<close>

definition chanfree_chan :: "chan \<Rightarrow> chan" where
  "chanfree_chan x = x\<lparr>c_flag := CFREE, c_umh := None, c_umc := None, c_mchan := None\<rparr>"

definition chanfree_calls :: "nat \<Rightarrow> chan \<Rightarrow> call list" where
  "chanfree_calls c x =
     opt_call Putmhead (c_umh x) @ opt_call Cclose (c_umc x) @ opt_call Cclose (c_mchan x) @
     opt_call Cnameclose (c_name x) @ [Linkfree c]"

text \<open>\<open>mtptfree\<close>: the calls on the slots in use.\<close>

definition mtptfree_calls :: "nat option list \<Rightarrow> call list" where
  "mtptfree_calls mtpt = concat (map (opt_call Cclose) mtpt)"

definition set_fault :: "'d kst \<Rightarrow> 'd kst" where "set_fault s = s\<lparr>fault := True\<rparr>"

definition close_step :: "'d devops \<Rightarrow> call \<Rightarrow> 'd kst \<Rightarrow> 'd kst \<times> call list" where
  "close_step dev k s =
     (case k of
        Cclose c \<Rightarrow>
          (if length (chans s) \<le> c \<or> is_free (the_chan s c) then (set_fault s, [])
           else
             (let x = c_ref (the_chan s c) - 1; s1 = upd_chan c (\<lambda>y. y\<lparr>c_ref := x\<rparr>) s in
              if x < 0 then (set_fault s1, [])
              else if x \<noteq> 0 then (s1, [])
              else
                (upd_chan c chanfree_chan (s1\<lparr>dst := dclose dev (dst s1) (the_chan s1 c)\<rparr>),
                 chanfree_calls c (the_chan s1 c))))
      | Cnameclose n \<Rightarrow>
          (if length (cnames s) \<le> n \<or> n_free (the_name s n) then (set_fault s, [])
           else
             (let x = n_ref (the_name s n) - 1; s1 = upd_name n (\<lambda>y. y\<lparr>n_ref := x\<rparr>) s in
              if x < 0 then (set_fault s1, [])
              else if x \<noteq> 0 then (s1, [])
              else
                (upd_name n (\<lambda>y. y\<lparr>n_mtpt := [], n_free := True\<rparr>) (s1\<lparr>ncname := ncname s1 - 1\<rparr>),
                 mtptfree_calls (n_mtpt (the_name s1 n)))))
      | Putmhead m \<Rightarrow>
          (if length (mheads s) \<le> m \<or> mh_free (the_mhead s m) then (set_fault s, [])
           else
             (let x = mh_ref (the_mhead s m) - 1; s1 = upd_mhead m (\<lambda>y. y\<lparr>mh_ref := x\<rparr>) s in
              if x < 0 then (set_fault s1, [])
              else if x \<noteq> 0 then (s1, [])
              else (upd_mhead m (\<lambda>y. y\<lparr>mh_mount := [], mh_free := True\<rparr>) s1, [])))
      | Linkfree c \<Rightarrow> (s\<lparr>cfree := c # cfree s\<rparr>, []))"

text \<open>The sum of all reference counts, which every close decreases.\<close>

definition total_refs :: "'d kst \<Rightarrow> nat" where
  "total_refs s = sum_list (map (nat \<circ> c_ref) (chans s)) + sum_list (map (nat \<circ> n_ref) (cnames s))
     + sum_list (map (nat \<circ> mh_ref) (mheads s))"

lemma sum_list_upd:
  fixes f :: "'a \<Rightarrow> 'b :: comm_monoid_add"
  shows "i < length xs \<Longrightarrow> sum_list (map f (xs[i := y])) + f (xs ! i) = sum_list (map f xs) + f y"
  by (induction xs arbitrary: i) (auto simp: ac_simps split: nat.split)

lemma sum_list_upd_less:
  fixes f :: "'a \<Rightarrow> nat"
  shows "i < length xs \<Longrightarrow> f y < f (xs ! i) \<Longrightarrow> sum_list (map f (xs[i := y])) < sum_list (map f xs)"
  using sum_list_upd [of i xs f y] by linarith

lemma sum_list_upd_same:
  fixes f :: "'a \<Rightarrow> 'b :: cancel_comm_monoid_add"
  shows "i < length xs \<Longrightarrow> f y = f (xs ! i) \<Longrightarrow> sum_list (map f (xs[i := y])) = sum_list (map f xs)"
  using sum_list_upd [of i xs f y] by simp

lemmas upd_defs = upd_chan_def upd_name_def upd_mhead_def upd_pgrp_def upd_fgrp_def

lemma close_step_less:
  assumes "close_step dev k s = (s', ks)" and "\<not> fault s'"
  shows "total_refs s' < total_refs s \<or> total_refs s' = total_refs s \<and> ks = []"
proof (cases k)
  case (Cclose c)
  let ?x = "chans s ! c"
  have c: "c < length (chans s)" "0 \<le> c_ref ?x - 1" and s': "length (chans s') = length (chans s)"
    "\<exists>y. chans s' = (chans s)[c := y] \<and> c_ref y = c_ref ?x - 1" "cnames s' = cnames s" "mheads s' = mheads s"
    using assms
    by (auto simp: close_step_def Cclose Let_def set_fault_def upd_defs chanfree_chan_def split: if_splits)
  then obtain y where "chans s' = (chans s)[c := y]" "c_ref y = c_ref ?x - 1" by blast
  then show ?thesis using c s' sum_list_upd_less [of c "chans s" "nat \<circ> c_ref" y]
    by (simp add: total_refs_def)
next
  case (Cnameclose n)
  let ?x = "cnames s ! n"
  have c: "n < length (cnames s)" "0 \<le> n_ref ?x - 1" and s': "chans s' = chans s" "mheads s' = mheads s"
    "\<exists>y. cnames s' = (cnames s)[n := y] \<and> n_ref y = n_ref ?x - 1"
    using assms
    by (auto simp: close_step_def Cnameclose Let_def set_fault_def upd_defs split: if_splits)
  then obtain y where "cnames s' = (cnames s)[n := y]" "n_ref y = n_ref ?x - 1" by blast
  then show ?thesis using c s' sum_list_upd_less [of n "cnames s" "nat \<circ> n_ref" y]
    by (simp add: total_refs_def)
next
  case (Putmhead m)
  let ?x = "mheads s ! m"
  have c: "m < length (mheads s)" "0 \<le> mh_ref ?x - 1" and s': "chans s' = chans s" "cnames s' = cnames s"
    "\<exists>y. mheads s' = (mheads s)[m := y] \<and> mh_ref y = mh_ref ?x - 1"
    using assms
    by (auto simp: close_step_def Putmhead Let_def set_fault_def upd_defs split: if_splits)
  then obtain y where "mheads s' = (mheads s)[m := y]" "mh_ref y = mh_ref ?x - 1" by blast
  then show ?thesis using c s' sum_list_upd_less [of m "mheads s" "nat \<circ> mh_ref" y]
    by (simp add: total_refs_def)
next
  case (Linkfree c)
  then show ?thesis using assms by (auto simp: close_step_def total_refs_def)
qed

text \<open>Runs the calls of a list, first one first, each followed by the calls it makes.\<close>

function release :: "'d devops \<Rightarrow> call list \<Rightarrow> 'd kst \<Rightarrow> 'd kst" where
  "release dev [] s = s"
| "release dev (k # ks) s =
     (let (s', js) = close_step dev k s in if fault s' then s' else release dev (js @ ks) s')"
  by pat_completeness auto
termination
proof (relation "measures [\<lambda>(_, _, s). total_refs s, \<lambda>(_, ks, _). length ks]", goal_cases)
  case (2 dev k ks s x s' js)
  with close_step_less [of dev k s s' js] show ?case by auto
qed simp

definition cclose :: "'d devops \<Rightarrow> nat option \<Rightarrow> 'd kst \<Rightarrow> 'd kst" where
  "cclose dev c = release dev (opt_call Cclose c)"

definition cnameclose :: "'d devops \<Rightarrow> nat option \<Rightarrow> 'd kst \<Rightarrow> 'd kst" where
  "cnameclose dev n = release dev (opt_call Cnameclose n)"

definition putmhead :: "'d devops \<Rightarrow> nat option \<Rightarrow> 'd kst \<Rightarrow> 'd kst" where
  "putmhead dev m = release dev (opt_call Putmhead m)"

section \<open>Channels\<close>

text \<open>The assignments of \<open>newchan\<close>; \<open>mode\<close>, \<open>qid\<close>, \<open>umc\<close> and \<open>fid\<close> keep what they had.\<close>

definition newchan_init :: "chan \<Rightarrow> chan" where
  "newchan_init c = c\<lparr>c_type := 0, c_flag := 0, c_ref := 1, c_dev := 0, c_offset := 0, c_iounit := 0,
     c_umh := None, c_uri := 0, c_dri := 0, c_mchan := None, c_mqid := qid0, c_mflag := 0,
     c_name := None\<rparr>"

definition newchan :: "'d kst \<Rightarrow> nat \<times> 'd kst" where
  "newchan s =
     (case cfree s of
        c # fs \<Rightarrow> (c, upd_chan c newchan_init (s\<lparr>cfree := fs\<rparr>))
      | [] \<Rightarrow>
          (let c = length (chans s); fid = fidgen s + 1 in
           (c, s\<lparr>fidgen := fid, chans := chans s @ [newchan_init (chan0\<lparr>c_fid := fid\<rparr>)]\<rparr>)))"

definition eqqid :: "qid \<Rightarrow> qid \<Rightarrow> bool" where
  "eqqid a b \<longleftrightarrow> q_path a = q_path b \<and> q_vers a = q_vers b"

definition eqchan :: "chan \<Rightarrow> chan \<Rightarrow> bool \<Rightarrow> bool" where
  "eqchan a b pathonly =
     (if q_path (c_qid a) \<noteq> q_path (c_qid b) then False
      else if \<not> pathonly \<and> q_vers (c_qid a) \<noteq> q_vers (c_qid b) then False
      else if c_type a \<noteq> c_type b then False
      else if c_dev a \<noteq> c_dev b then False
      else True)"

text \<open>\<open>type\<close> and \<open>dev\<close> are \<open>int\<close>s here; the comparisons widen them to the fields' types.\<close>

definition eqchantdqid :: "chan \<Rightarrow> 32 word \<Rightarrow> 32 word \<Rightarrow> qid \<Rightarrow> bool \<Rightarrow> bool" where
  "eqchantdqid a type dev q pathonly =
     (if q_path (c_qid a) \<noteq> q_path q then False
      else if \<not> pathonly \<and> q_vers (c_qid a) \<noteq> q_vers q then False
      else if ucast (c_type a) \<noteq> type then False
      else if c_dev a \<noteq> scast dev then False
      else True)"

text \<open>
  \<open>devclone\<close> of emu/port/dev.c, and the walk of a device as \<open>mntwalk\<close> of emu/port/devmnt.c does it, with
  the device's answer \<open>dwalk\<close>: \<open>None\<close> is nil, otherwise the qids and the clone, which there is when
  every name was walked. The clone is of the same device, at the last qid, and shares the message
  channel of a mounted server. An answer with more qids than names is an error, one with none for
  some names is a walk refused at its first name. The clone made and closed again when the walk
  fails is left out.
\<close>

definition devclone_init :: "chan \<Rightarrow> chan \<Rightarrow> chan" where
  "devclone_init c nc = nc\<lparr>c_type := c_type c, c_dev := c_dev c, c_mode := c_mode c, c_qid := c_qid c,
     c_offset := c_offset c, c_umh := None, c_mflag := c_mflag c, c_mqid := c_mqid c\<rparr>"

definition devclone :: "nat \<Rightarrow> 'd kst \<Rightarrow> nat \<times> 'd kst" where
  "devclone c s =
     (if c_flag (the_chan s c) AND COPEN \<noteq> 0 then (c, set_fault s)
      else (let (nc, s1) = newchan s in (nc, upd_chan nc (devclone_init (the_chan s c)) s1)))"

definition incref_opt :: "nat option \<Rightarrow> 'd kst \<Rightarrow> 'd kst" where
  "incref_opt x s = (case x of None \<Rightarrow> s | Some c \<Rightarrow> incref_chan c s)"

definition walkdev ::
  "'d devops \<Rightarrow> nat \<Rightarrow> bytes list \<Rightarrow> 'd kst \<Rightarrow> (qid list \<times> nat option) option \<times> 'd kst" where
  "walkdev dev c names s =
     (case dwalk dev (dst s) (the_chan s c) names of
        None \<Rightarrow> (None, s)
      | Some qids \<Rightarrow>
          (if length qids > length names then (None, s)
           else if length qids < length names then
             ((if qids = [] then None else Some (qids, None)), s)
           else
             (let (nc, s1) = devclone c s;
                  m = c_mchan (the_chan s c);
                  q = (if qids = [] then c_qid (the_chan s c) else last qids);
                  s2 = upd_chan nc (\<lambda>x. x\<lparr>c_qid := q, c_mchan := m\<rparr>) (incref_opt m s1)
              in (Some (qids, Some nc), s2))))"

lemma walkdev_cases:
  assumes "walkdev dev c names s = (r, s')"
  obtains (refused) "r = None" "s' = s"
  | (partly) qids where "r = Some (qids, None)" "s' = s" "qids \<noteq> []" "length qids < length names"
  | (clone) qids nc s1 where "r = Some (qids, Some nc)" "length qids = length names" "devclone c s = (nc, s1)"
      "s' = upd_chan nc (\<lambda>x. x\<lparr>c_qid := (if qids = [] then c_qid (the_chan s c) else last qids),
         c_mchan := c_mchan (the_chan s c)\<rparr>) (incref_opt (c_mchan (the_chan s c)) s1)"
proof (cases "dwalk dev (dst s) (the_chan s c) names")
  case None
  show ?thesis by (rule refused) (use assms None in \<open>simp_all add: walkdev_def\<close>)
next
  case (Some qids)
  consider "length qids > length names" | "length qids < length names" | "length qids = length names" by linarith
  then show ?thesis
  proof cases
    case 1
    show ?thesis by (rule refused) (use assms Some 1 in \<open>simp_all add: walkdev_def\<close>)
  next
    case 2
    show ?thesis
    proof (cases "qids = []")
      case True
      show ?thesis by (rule refused) (use assms Some 2 True in \<open>simp_all add: walkdev_def\<close>)
    next
      case False
      show ?thesis by (rule partly [OF _ _ False 2]) (use assms Some 2 False in \<open>simp_all add: walkdev_def\<close>)
    qed
  next
    case 3
    obtain nc s1 where dc: "devclone c s = (nc, s1)" by (cases "devclone c s")
    show ?thesis
      by (rule clone [OF _ 3 dc]) (use assms Some 3 dc in \<open>simp_all add: walkdev_def Let_def\<close>)
  qed
qed

definition incref_name_opt :: "nat option \<Rightarrow> 'd kst \<Rightarrow> 'd kst" where
  "incref_name_opt x s = (case x of None \<Rightarrow> s | Some n \<Rightarrow> incref_name n s)"

definition cclone :: "'d devops \<Rightarrow> nat \<Rightarrow> 'd kst \<Rightarrow> nat res \<times> 'd kst" where
  "cclone dev c s =
     (case walkdev dev c [] s of
        (Some (_, Some nc), s1) \<Rightarrow>
          (Inr nc,
           incref_name_opt (c_name (the_chan s c))
             (upd_chan nc (\<lambda>x. x\<lparr>c_name := c_name (the_chan s c), c_mflag := c_mflag (the_chan s c)\<rparr>) s1))
      | (_, s1) \<Rightarrow> (Inl Eclone, s1))"

text \<open>The last step of \<open>cunique\<close>: the new channel forgets the mount head it came through.\<close>

definition drop_umh :: "'d devops \<Rightarrow> nat \<Rightarrow> 'd kst \<Rightarrow> 'd kst" where
  "drop_umh dev c s =
     (case c_umh (the_chan s c) of
        None \<Rightarrow> s
      | Some m \<Rightarrow> putmhead dev (Some m) (upd_chan c (\<lambda>x. x\<lparr>c_umh := None\<rparr>) s))"

definition cunique :: "'d devops \<Rightarrow> nat \<Rightarrow> 'd kst \<Rightarrow> nat res \<times> 'd kst" where
  "cunique dev c s =
     (if c_ref (the_chan s c) \<noteq> 1 then
        (case cclone dev c s of
           (Inl e, s1) \<Rightarrow> (Inl e, s1)
         | (Inr nc, s1) \<Rightarrow> (Inr nc, drop_umh dev nc (cclose dev (Some c) s1)))
      else (Inr c, drop_umh dev c s))"

section \<open>Path names with their mount points\<close>

definition newcname :: "bytes \<Rightarrow> 'd kst \<Rightarrow> nat \<times> 'd kst" where
  "newcname t s =
     (length (cnames s),
      s\<lparr>ncname := ncname s + 1,
        cnames := cnames s @ [\<lparr>n_ref = 1, n_s = t, n_mtpt = [], n_free = False\<rparr>]\<rparr>)"

text \<open>\<open>mtptcopy\<close>: the slots of \<open>src\<close>, each with a new reference.\<close>

definition mtptcopy :: "nat \<Rightarrow> nat \<Rightarrow> 'd kst \<Rightarrow> 'd kst" where
  "mtptcopy dest src s =
     fold incref_opt (n_mtpt (the_name s src)) (upd_name dest (\<lambda>x. x\<lparr>n_mtpt := n_mtpt (the_name s src)\<rparr>) s)"

text \<open>\<open>if(n->r.ref > 1){ new = newcname(n->s); mtptcopy(new, n); cnameclose(n); n = new; }\<close>\<close>

definition cname_unique :: "'d devops \<Rightarrow> nat \<Rightarrow> 'd kst \<Rightarrow> nat \<times> 'd kst" where
  "cname_unique dev n s =
     (if n_ref (the_name s n) > 1 then
        (let (new, s1) = newcname (n_s (the_name s n)) s
         in (new, cnameclose dev (Some n) (mtptcopy new n s1)))
      else (n, s))"

definition cnamepush :: "nat \<Rightarrow> nat option \<Rightarrow> 'd kst \<Rightarrow> 'd kst" where
  "cnamepush n mp s = incref_opt mp (upd_name n (\<lambda>x. x\<lparr>n_mtpt := n_mtpt x @ [mp]\<rparr>) s)"

definition cnamecross :: "'d devops \<Rightarrow> nat \<Rightarrow> nat option \<Rightarrow> 'd kst \<Rightarrow> nat \<times> 'd kst" where
  "cnamecross dev n mp s =
     (if mp = None \<or> n_mtpt (the_name s n) = [] then (n, s)
      else
        (let (n, s) = cname_unique dev n s;
             i = length (n_mtpt (the_name s n)) - 1;
             old = n_mtpt (the_name s n) ! i;
             s = upd_name n (\<lambda>x. x\<lparr>n_mtpt := (n_mtpt x)[i := None]\<rparr>) s;
             s = cclose dev old s;
             s = upd_name n (\<lambda>x. x\<lparr>n_mtpt := (n_mtpt x)[i := mp]\<rparr>) s
         in (n, incref_opt mp s)))"

text \<open>The text part of \<open>addelem\<close>: the element after a slash, unless one is there.\<close>

definition addtext :: "bytes \<Rightarrow> bytes \<Rightarrow> bytes" where
  "addtext t e =
     (if t \<noteq> [] \<and> last t \<noteq> slash \<and> at e 0 \<noteq> slash then t @ [slash] @ e else t @ e)"

definition addelem :: "'d devops \<Rightarrow> nat \<Rightarrow> bytes \<Rightarrow> 'd kst \<Rightarrow> nat \<times> 'd kst" where
  "addelem dev n e s =
     (if at e 0 = dot \<and> at e 1 = 0 then (n, s)
      else
        (let (n, s) = cname_unique dev n s;
             s = upd_name n (\<lambda>x. x\<lparr>n_s := addtext (n_s x) e\<rparr>) s
         in
           if isdotdot e then
             (let s = upd_name n (\<lambda>x. x\<lparr>n_s := cleancname (n_s x)\<rparr>) s; mt = n_mtpt (the_name s n) in
              if length mt > 1 then
                (n, cclose dev (last mt) (upd_name n (\<lambda>x. x\<lparr>n_mtpt := butlast (n_mtpt x)\<rparr>) s))
              else (n, s))
           else (n, s)))"

section \<open>Mount heads\<close>

definition newmhead :: "nat \<Rightarrow> 'd kst \<Rightarrow> nat \<times> 'd kst" where
  "newmhead from s =
     (length (mheads s),
      incref_chan from (s\<lparr>mheads := mheads s @ [\<lparr>mh_ref = 1, mh_from = from, mh_mount = [], mh_free = False\<rparr>]\<rparr>))"

definition newmount :: "nat \<Rightarrow> u32 \<Rightarrow> bytes option \<Rightarrow> 'd kst \<Rightarrow> mount \<times> 'd kst" where
  "newmount to flag spec s =
     (let s = incref_chan to s; s = s\<lparr>mountid := mountid s + 1\<rparr>
      in (\<lparr>mt_id = mountid s, mt_to = to, mt_flag = flag, mt_spec = spec\<rparr>, s))"

definition mountfree :: "'d devops \<Rightarrow> mount list \<Rightarrow> 'd kst \<Rightarrow> 'd kst" where
  "mountfree dev ms = release dev (map (Cclose \<circ> mt_to) ms)"

definition mheadflag :: "nat option \<Rightarrow> 'd kst \<Rightarrow> u32" where
  "mheadflag m s =
     (case m of
        None \<Rightarrow> 0
      | Some m \<Rightarrow> (case mh_mount (the_mhead s m) of [] \<Rightarrow> 0 | f # _ \<Rightarrow> mt_flag f))"

end
