(* ===== verification/RefCount.thy ===== *)
theory RefCount
  imports Chan
begin

text \<open>
  The accounting of references. \<open>counted s H\<close> holds when the reference count of every channel, name
  and mount head is the number of references to it: those stored in live objects (\<open>ownC\<close>, \<open>ownN\<close>,
  \<open>ownM\<close>) and those held outside the store (\<open>H\<close>, by local variables and the caller). Exactly the
  objects with count zero are free. Each operation of theory Chan has a rule that says which
  references it consumes and which it hands out; a fault would be a reference that nothing backs.
\<close>

unbundle bit_operations_syntax

section \<open>Counters\<close>

text \<open>
  \<open>refs_ok rf fr n R\<close>: of \<open>n\<close> objects, each has the count of its occurrences in the multiset \<open>R\<close> of
  all references, and is free exactly when that is zero; no reference is wild.
\<close>

definition refs_ok :: "(nat \<Rightarrow> int) \<Rightarrow> (nat \<Rightarrow> bool) \<Rightarrow> nat \<Rightarrow> nat multiset \<Rightarrow> bool" where
  "refs_ok rf fr n R \<longleftrightarrow>
     (\<forall>i<n. rf i = int (count R i) \<and> (fr i \<longleftrightarrow> rf i = 0)) \<and> (\<forall>i\<in>#R. i < n)"

text \<open>
  The interface the three kinds of counted object share: how many there are, the count of one, the
  test for a free one, and the adjustment of one count.
\<close>

locale counted_kind =
  fixes len :: "'s \<Rightarrow> nat" and rf :: "'s \<Rightarrow> nat \<Rightarrow> int" and fr :: "'s \<Rightarrow> nat \<Rightarrow> bool"
    and bump :: "int \<Rightarrow> nat \<Rightarrow> 's \<Rightarrow> 's"
  assumes len_bump: "len (bump d i s) = len s"
    and rf_bump: "i < len s \<Longrightarrow> j < len s \<Longrightarrow> rf (bump d i s) j = rf s j + (if j = i then d else 0)"
    and fr_bump: "i < len s \<Longrightarrow> j < len s \<Longrightarrow> fr (bump d i s) j = fr s j"
begin

definition ok :: "'s \<Rightarrow> nat multiset \<Rightarrow> bool" where
  "ok s R \<longleftrightarrow> refs_ok (rf s) (fr s) (len s) R"

lemma held_live: "ok s R \<Longrightarrow> i \<in># R \<Longrightarrow> i < len s \<and> 0 < rf s i \<and> \<not> fr s i"
  by (auto simp: ok_def refs_ok_def)

lemma take_ref: "ok s R \<Longrightarrow> i \<in># R \<Longrightarrow> ok (bump 1 i s) (add_mset i R)"
  by (auto simp: ok_def refs_ok_def len_bump rf_bump fr_bump)

lemma drop_ref: "ok s (add_mset i R) \<Longrightarrow> i \<in># R \<Longrightarrow> ok (bump (-1) i s) R"
  by (auto simp: ok_def refs_ok_def len_bump rf_bump fr_bump)

lemma last_ref: "ok s (add_mset i R) \<Longrightarrow> i \<notin># R \<longleftrightarrow> rf s i = 1"
  by (auto simp: ok_def refs_ok_def not_in_iff)

lemma count_is: "ok s R \<Longrightarrow> i < len s \<Longrightarrow> rf s i = int (count R i)"
  by (simp add: ok_def refs_ok_def)

end

definition bump_chan :: "int \<Rightarrow> nat \<Rightarrow> 'd kst \<Rightarrow> 'd kst" where
  "bump_chan d c = upd_chan c (\<lambda>x. x\<lparr>c_ref := c_ref x + d\<rparr>)"

definition bump_name :: "int \<Rightarrow> nat \<Rightarrow> 'd kst \<Rightarrow> 'd kst" where
  "bump_name d c = upd_name c (\<lambda>x. x\<lparr>n_ref := n_ref x + d\<rparr>)"

definition bump_mhead :: "int \<Rightarrow> nat \<Rightarrow> 'd kst \<Rightarrow> 'd kst" where
  "bump_mhead d c = upd_mhead c (\<lambda>x. x\<lparr>mh_ref := mh_ref x + d\<rparr>)"

interpretation chanrc: counted_kind
  "\<lambda>s. length (chans s)" "\<lambda>s i. c_ref (chans s ! i)" "\<lambda>s i. is_free (chans s ! i)" bump_chan
  by unfold_locales (auto simp: bump_chan_def upd_chan_def is_free_def nth_list_update)

interpretation namerc: counted_kind
  "\<lambda>s. length (cnames s)" "\<lambda>s i. n_ref (cnames s ! i)" "\<lambda>s i. n_free (cnames s ! i)" bump_name
  by unfold_locales (auto simp: bump_name_def upd_name_def nth_list_update)

interpretation headrc: counted_kind
  "\<lambda>s. length (mheads s)" "\<lambda>s i. mh_ref (mheads s ! i)" "\<lambda>s i. mh_free (mheads s ! i)" bump_mhead
  by unfold_locales (auto simp: bump_mhead_def upd_mhead_def nth_list_update)

section \<open>What the objects refer to\<close>

definition opt_ms :: "nat option \<Rightarrow> nat multiset" where
  "opt_ms x = (case x of None \<Rightarrow> {#} | Some y \<Rightarrow> {#y#})"

lemma opt_ms_simps [simp]: "opt_ms None = {#}" "opt_ms (Some y) = {#y#}"
  by (simp_all add: opt_ms_def)

definition opts_ms :: "nat option list \<Rightarrow> nat multiset" where
  "opts_ms xs = sum_list (map opt_ms xs)"

definition chanC :: "chan \<Rightarrow> nat multiset" where
  "chanC c = (if is_free c then {#} else opt_ms (c_umc c) + opt_ms (c_mchan c))"

definition chanN :: "chan \<Rightarrow> nat multiset" where
  "chanN c = (if is_free c then {#} else opt_ms (c_name c))"

definition chanM :: "chan \<Rightarrow> nat multiset" where
  "chanM c = (if is_free c then {#} else opt_ms (c_umh c))"

definition nameC :: "cname \<Rightarrow> nat multiset" where
  "nameC n = opts_ms (n_mtpt n)"

text \<open>A head holds the channel mounted upon as long as something is mounted.\<close>

definition mountsC :: "nat \<Rightarrow> mount list \<Rightarrow> nat multiset" where
  "mountsC from ms = (if ms = [] then {#} else add_mset from (mset (map mt_to ms)))"

definition headC :: "mhead \<Rightarrow> nat multiset" where
  "headC m = mountsC (mh_from m) (mh_mount m)"

definition pgrpC :: "pgrp \<Rightarrow> nat multiset" where
  "pgrpC p = (if pg_ref p > 0 then opt_ms (pg_dot p) + opt_ms (pg_slash p) else {#})"

definition pgrpM :: "pgrp \<Rightarrow> nat multiset" where
  "pgrpM p = (if pg_ref p > 0 then mset (concat (pg_hash p)) else {#})"

definition fgrpC :: "fgrp \<Rightarrow> nat multiset" where
  "fgrpC f = (if fg_ref f > 0 then opts_ms (fg_fd f) else {#})"

definition tot :: "('a \<Rightarrow> nat multiset) \<Rightarrow> 'a list \<Rightarrow> nat multiset" where
  "tot f xs = sum_list (map f xs)"

text \<open>The channels of the name space: mount points crossed, mounts, and the groups' directories.\<close>

definition nsC :: "'d kst \<Rightarrow> nat multiset" where
  "nsC s = tot nameC (cnames s) + tot headC (mheads s) + tot pgrpC (pgrps s)"

definition ownC :: "'d kst \<Rightarrow> nat multiset" where
  "ownC s = tot chanC (chans s) + nsC s + tot fgrpC (fgrps s)"

definition is_open :: "chan \<Rightarrow> bool" where
  "is_open c \<longleftrightarrow> c_flag c AND COPEN \<noteq> 0"

definition ownN :: "'d kst \<Rightarrow> nat multiset" where
  "ownN s = tot chanN (chans s)"

definition links :: "'d kst \<Rightarrow> nat multiset" where
  "links s = tot pgrpM (pgrps s)"

definition ownM :: "'d kst \<Rightarrow> nat multiset" where
  "ownM s = tot chanM (chans s) + links s"

text \<open>
  References outside the store: to channels, names and heads, to heads in place of a hash chain
  (\<open>hL\<close>), and freed channels on their way to the free list. A channel of the name space is not open
  for i/o, since it has to be cloned to be walked.
\<close>

record held =
  hC :: "nat multiset"
  hN :: "nat multiset"
  hM :: "nat multiset"
  hL :: "nat multiset"
  hF :: "nat multiset"

definition frees :: "'d kst \<Rightarrow> nat multiset" where
  "frees s = mset (filter (\<lambda>c. is_free (chans s ! c)) [0..<length (chans s)])"

definition counted :: "'d kst \<Rightarrow> held \<Rightarrow> bool" where
  "counted s H \<longleftrightarrow>
     \<not> fault s \<and>
     chanrc.ok s (ownC s + hC H) \<and>
     namerc.ok s (ownN s + hN H) \<and>
     headrc.ok s (ownM s + hM H + hL H) \<and>
     (\<forall>n<length (cnames s). n_free (cnames s ! n) \<longrightarrow> n_mtpt (cnames s ! n) = []) \<and>
     (\<forall>m<length (mheads s). mh_mount (mheads s ! m) \<noteq> [] \<longrightarrow> m \<in># links s + hL H) \<and>
     mset (cfree s) + hF H = frees s \<and>
     (\<forall>c<length (chans s). is_free (chans s ! c) \<longrightarrow> c_umc (chans s ! c) = None) \<and>
     (\<forall>c\<in>#nsC s. \<not> is_open (chans s ! c))"

lemma tot_upd: "i < length xs \<Longrightarrow> tot f (xs[i := y]) + f (xs ! i) = tot f xs + f y"
  unfolding tot_def by (rule sum_list_upd)

lemma tot_upd_same: "f y = f (xs ! i) \<Longrightarrow> tot f (xs[i := y]) = tot f xs"
  by (cases "i < length xs") (simp_all add: tot_def sum_list_upd_same list_update_beyond)

lemma tot_append [simp]: "tot f (xs @ ys) = tot f xs + tot f ys"
  by (simp add: tot_def)

lemma tot_simps [simp]: "tot f [] = {#}" "tot f (x # xs) = f x + tot f xs"
  by (simp_all add: tot_def)

lemma tot_in: "i < length xs \<Longrightarrow> f (xs ! i) \<subseteq># tot f xs"
  by (induction xs arbitrary: i) (auto simp: nth_Cons' less_Suc_eq_0_disj intro: subset_mset.add_increasing)

section \<open>Effect of an update on what is owned\<close>

lemma own_frame [simp]:
  "ownC (s\<lparr>dst := d\<rparr>) = ownC s" "ownN (s\<lparr>dst := d\<rparr>) = ownN s" "ownM (s\<lparr>dst := d\<rparr>) = ownM s"
  "links (s\<lparr>dst := d\<rparr>) = links s"
  "ownC (s\<lparr>ncname := k\<rparr>) = ownC s" "ownN (s\<lparr>ncname := k\<rparr>) = ownN s" "ownM (s\<lparr>ncname := k\<rparr>) = ownM s"
  "links (s\<lparr>ncname := k\<rparr>) = links s"
  "ownC (s\<lparr>cfree := l\<rparr>) = ownC s" "ownN (s\<lparr>cfree := l\<rparr>) = ownN s" "ownM (s\<lparr>cfree := l\<rparr>) = ownM s"
  "links (s\<lparr>cfree := l\<rparr>) = links s"
  "ownC (s\<lparr>fidgen := i\<rparr>) = ownC s" "ownN (s\<lparr>fidgen := i\<rparr>) = ownN s" "ownM (s\<lparr>fidgen := i\<rparr>) = ownM s"
  "links (s\<lparr>fidgen := i\<rparr>) = links s"
  "ownC (s\<lparr>mountid := i\<rparr>) = ownC s" "ownN (s\<lparr>mountid := i\<rparr>) = ownN s" "ownM (s\<lparr>mountid := i\<rparr>) = ownM s"
  "links (s\<lparr>mountid := i\<rparr>) = links s"
  "ownC (s\<lparr>pgrpid := k\<rparr>) = ownC s" "ownN (s\<lparr>pgrpid := k\<rparr>) = ownN s" "ownM (s\<lparr>pgrpid := k\<rparr>) = ownM s"
  "links (s\<lparr>pgrpid := k\<rparr>) = links s"
  "nsC (s\<lparr>dst := d\<rparr>) = nsC s" "nsC (s\<lparr>ncname := k\<rparr>) = nsC s" "nsC (s\<lparr>cfree := l\<rparr>) = nsC s"
  "nsC (s\<lparr>fidgen := i\<rparr>) = nsC s" "nsC (s\<lparr>mountid := i\<rparr>) = nsC s" "nsC (s\<lparr>pgrpid := k\<rparr>) = nsC s"
  by (simp_all add: ownC_def ownN_def ownM_def links_def nsC_def)

lemma nsC_upd [simp]: "nsC (upd_chan c f s) = nsC s"
  by (simp add: nsC_def upd_chan_def)

lemma nsC_upd_name:
  "n < length (cnames s) \<Longrightarrow> nsC (upd_name n f s) + nameC (cnames s ! n) = nsC s + nameC (f (cnames s ! n))"
  using tot_upd [of n "cnames s" nameC "f (cnames s ! n)"] by (simp add: nsC_def upd_name_def ac_simps)

lemma nsC_upd_name_same:
  "nameC (f (cnames s ! n)) = nameC (cnames s ! n) \<Longrightarrow> nsC (upd_name n f s) = nsC s"
  by (simp add: nsC_def upd_name_def tot_upd_same)

lemma nsC_upd_mhead:
  "m < length (mheads s) \<Longrightarrow> nsC (upd_mhead m f s) + headC (mheads s ! m) = nsC s + headC (f (mheads s ! m))"
  using tot_upd [of m "mheads s" headC "f (mheads s ! m)"] by (simp add: nsC_def upd_mhead_def ac_simps)

lemma nsC_upd_mhead_same:
  "headC (f (mheads s ! m)) = headC (mheads s ! m) \<Longrightarrow> nsC (upd_mhead m f s) = nsC s"
  by (simp add: nsC_def upd_mhead_def tot_upd_same)

lemma nsC_upd_pgrp:
  "p < length (pgrps s) \<Longrightarrow> nsC (upd_pgrp p f s) + pgrpC (pgrps s ! p) = nsC s + pgrpC (f (pgrps s ! p))"
  using tot_upd [of p "pgrps s" pgrpC "f (pgrps s ! p)"] by (simp add: nsC_def upd_pgrp_def ac_simps)

lemma nsC_own: "c \<in># nsC s \<Longrightarrow> c \<in># ownC s"
  by (simp add: ownC_def)

text \<open>A part of a sum with another part replaced.\<close>

lemma replaced: "A + x = B + y \<Longrightarrow> c \<in># (A :: nat multiset) \<Longrightarrow> c \<in># B \<or> c \<in># y"
  by (metis union_iff)

lemma own_upd_chan:
  assumes "c < length (chans s)"
  shows "ownC (upd_chan c f s) + chanC (chans s ! c) = ownC s + chanC (f (chans s ! c))"
    and "ownN (upd_chan c f s) + chanN (chans s ! c) = ownN s + chanN (f (chans s ! c))"
    and "ownM (upd_chan c f s) + chanM (chans s ! c) = ownM s + chanM (f (chans s ! c))"
    and "links (upd_chan c f s) = links s"
  using tot_upd [OF assms, of chanC "f (chans s ! c)"] tot_upd [OF assms, of chanN "f (chans s ! c)"]
    tot_upd [OF assms, of chanM "f (chans s ! c)"]
  by (simp_all add: ownC_def nsC_def ownN_def ownM_def links_def upd_chan_def ac_simps)

lemma own_upd_chan_same:
  assumes "chanC (f (chans s ! c)) = chanC (chans s ! c)" "chanN (f (chans s ! c)) = chanN (chans s ! c)"
    "chanM (f (chans s ! c)) = chanM (chans s ! c)"
  shows "ownC (upd_chan c f s) = ownC s" "ownN (upd_chan c f s) = ownN s" "ownM (upd_chan c f s) = ownM s"
    "links (upd_chan c f s) = links s"
  using assms by (simp_all add: ownC_def nsC_def ownN_def ownM_def links_def upd_chan_def tot_upd_same)

lemma own_upd_name:
  assumes "n < length (cnames s)"
  shows "ownC (upd_name n f s) + nameC (cnames s ! n) = ownC s + nameC (f (cnames s ! n))"
    and "ownN (upd_name n f s) = ownN s" and "ownM (upd_name n f s) = ownM s"
    and "links (upd_name n f s) = links s"
  using tot_upd [OF assms, of nameC "f (cnames s ! n)"]
  by (simp_all add: ownC_def nsC_def ownN_def ownM_def links_def upd_name_def ac_simps)

lemma own_upd_name_same:
  assumes "nameC (f (cnames s ! n)) = nameC (cnames s ! n)"
  shows "ownC (upd_name n f s) = ownC s" "ownN (upd_name n f s) = ownN s" "ownM (upd_name n f s) = ownM s"
    "links (upd_name n f s) = links s"
  using assms by (simp_all add: ownC_def nsC_def ownN_def ownM_def links_def upd_name_def tot_upd_same)

lemma own_upd_mhead:
  assumes "m < length (mheads s)"
  shows "ownC (upd_mhead m f s) + headC (mheads s ! m) = ownC s + headC (f (mheads s ! m))"
    and "ownN (upd_mhead m f s) = ownN s" and "ownM (upd_mhead m f s) = ownM s"
    and "links (upd_mhead m f s) = links s"
  using tot_upd [OF assms, of headC "f (mheads s ! m)"]
  by (simp_all add: ownC_def nsC_def ownN_def ownM_def links_def upd_mhead_def ac_simps)

lemma own_upd_mhead_same:
  assumes "headC (f (mheads s ! m)) = headC (mheads s ! m)"
  shows "ownC (upd_mhead m f s) = ownC s" "ownN (upd_mhead m f s) = ownN s" "ownM (upd_mhead m f s) = ownM s"
    "links (upd_mhead m f s) = links s"
  using assms by (simp_all add: ownC_def nsC_def ownN_def ownM_def links_def upd_mhead_def tot_upd_same)

lemma own_upd_pgrp:
  assumes "p < length (pgrps s)"
  shows "ownC (upd_pgrp p f s) + pgrpC (pgrps s ! p) = ownC s + pgrpC (f (pgrps s ! p))"
    and "links (upd_pgrp p f s) + pgrpM (pgrps s ! p) = links s + pgrpM (f (pgrps s ! p))"
    and "ownM (upd_pgrp p f s) + pgrpM (pgrps s ! p) = ownM s + pgrpM (f (pgrps s ! p))"
    and "ownN (upd_pgrp p f s) = ownN s"
  using tot_upd [OF assms, of pgrpC "f (pgrps s ! p)"] tot_upd [OF assms, of pgrpM "f (pgrps s ! p)"]
  by (simp_all add: ownC_def nsC_def ownN_def ownM_def links_def upd_pgrp_def ac_simps)

lemma own_bump [simp]:
  "ownC (bump_chan d c s) = ownC s" "ownN (bump_chan d c s) = ownN s" "ownM (bump_chan d c s) = ownM s"
  "links (bump_chan d c s) = links s"
  "ownC (bump_name d c s) = ownC s" "ownN (bump_name d c s) = ownN s" "ownM (bump_name d c s) = ownM s"
  "links (bump_name d c s) = links s"
  "ownC (bump_mhead d c s) = ownC s" "ownN (bump_mhead d c s) = ownN s" "ownM (bump_mhead d c s) = ownM s"
  "links (bump_mhead d c s) = links s"
  "nsC (bump_chan d c s) = nsC s" "nsC (bump_name d c s) = nsC s" "nsC (bump_mhead d c s) = nsC s"
  unfolding bump_chan_def bump_name_def bump_mhead_def
  by (simp_all add: own_upd_chan_same own_upd_name_same own_upd_mhead_same chanC_def chanN_def chanM_def
      nameC_def headC_def is_free_def nsC_upd_name_same nsC_upd_mhead_same)

text \<open>The parts of the state an update leaves alone.\<close>

lemma upd_frame [simp]:
  "cnames (upd_chan c f s) = cnames s" "mheads (upd_chan c f s) = mheads s" "pgrps (upd_chan c f s) = pgrps s"
  "cfree (upd_chan c f s) = cfree s" "fault (upd_chan c f s) = fault s" "dst (upd_chan c f s) = dst s"
  "length (chans (upd_chan c f s)) = length (chans s)" "fgrps (upd_chan c f s) = fgrps s"
  "mountid (upd_chan c f s) = mountid s"
  "chans (upd_name n g s) = chans s" "mheads (upd_name n g s) = mheads s" "pgrps (upd_name n g s) = pgrps s"
  "cfree (upd_name n g s) = cfree s" "fault (upd_name n g s) = fault s" "dst (upd_name n g s) = dst s"
  "length (cnames (upd_name n g s)) = length (cnames s)" "fgrps (upd_name n g s) = fgrps s"
  "mountid (upd_name n g s) = mountid s"
  "chans (upd_mhead m h s) = chans s" "cnames (upd_mhead m h s) = cnames s" "pgrps (upd_mhead m h s) = pgrps s"
  "cfree (upd_mhead m h s) = cfree s" "fault (upd_mhead m h s) = fault s" "dst (upd_mhead m h s) = dst s"
  "length (mheads (upd_mhead m h s)) = length (mheads s)" "fgrps (upd_mhead m h s) = fgrps s"
  "mountid (upd_mhead m h s) = mountid s"
  "chans (upd_pgrp p k s) = chans s" "cnames (upd_pgrp p k s) = cnames s" "mheads (upd_pgrp p k s) = mheads s"
  "cfree (upd_pgrp p k s) = cfree s" "fault (upd_pgrp p k s) = fault s" "dst (upd_pgrp p k s) = dst s"
  "length (pgrps (upd_pgrp p k s)) = length (pgrps s)" "fgrps (upd_pgrp p k s) = fgrps s"
  "mountid (upd_pgrp p k s) = mountid s"
  by (simp_all add: upd_defs)

lemma upd_nth:
  "i < length (chans s) \<Longrightarrow> chans (upd_chan c f s) ! i = (if i = c then f (chans s ! c) else chans s ! i)"
  "i < length (cnames s) \<Longrightarrow> cnames (upd_name c g s) ! i = (if i = c then g (cnames s ! c) else cnames s ! i)"
  "i < length (mheads s) \<Longrightarrow> mheads (upd_mhead c h s) ! i = (if i = c then h (mheads s ! c) else mheads s ! i)"
  "i < length (pgrps s) \<Longrightarrow> pgrps (upd_pgrp c k s) ! i = (if i = c then k (pgrps s ! c) else pgrps s ! i)"
  by (simp_all add: upd_defs nth_list_update)

lemma count_filter_upt: "count (mset (filter P [0..<n])) i = (if i < n \<and> P i then 1 else 0)"
  by (induction n) (auto simp: less_Suc_eq)

section \<open>Calls and the references they consume\<close>

definition callC :: "call \<Rightarrow> nat multiset" where
  "callC k = (case k of Cclose c \<Rightarrow> {#c#} | _ \<Rightarrow> {#})"
definition callN :: "call \<Rightarrow> nat multiset" where
  "callN k = (case k of Cnameclose n \<Rightarrow> {#n#} | _ \<Rightarrow> {#})"
definition callM :: "call \<Rightarrow> nat multiset" where
  "callM k = (case k of Putmhead m \<Rightarrow> {#m#} | _ \<Rightarrow> {#})"
definition callF :: "call \<Rightarrow> nat multiset" where
  "callF k = (case k of Linkfree c \<Rightarrow> {#c#} | _ \<Rightarrow> {#})"

lemmas call_defs = callC_def callN_def callM_def callF_def

definition withcalls :: "call list \<Rightarrow> held \<Rightarrow> held" where
  "withcalls ks H = \<lparr>hC = hC H + tot callC ks, hN = hN H + tot callN ks, hM = hM H + tot callM ks,
     hL = hL H, hF = hF H + tot callF ks\<rparr>"

lemma withcalls_Nil [simp]: "withcalls [] H = H"
  by (simp add: withcalls_def)

lemma withcalls_app: "withcalls (js @ ks) H = withcalls js (withcalls ks H)"
  by (simp add: withcalls_def ac_simps)

lemma tot_opt_call [simp]:
  "tot callC (opt_call Cclose x) = opt_ms x" "tot callN (opt_call Cclose x) = {#}"
  "tot callM (opt_call Cclose x) = {#}" "tot callF (opt_call Cclose x) = {#}"
  "tot callN (opt_call Cnameclose x) = opt_ms x" "tot callC (opt_call Cnameclose x) = {#}"
  "tot callM (opt_call Cnameclose x) = {#}" "tot callF (opt_call Cnameclose x) = {#}"
  "tot callM (opt_call Putmhead x) = opt_ms x" "tot callC (opt_call Putmhead x) = {#}"
  "tot callN (opt_call Putmhead x) = {#}" "tot callF (opt_call Putmhead x) = {#}"
  by (simp_all add: opt_call_def call_defs split: option.split)

lemma tot_mtptfree [simp]:
  "tot callC (mtptfree_calls xs) = opts_ms xs" "tot callN (mtptfree_calls xs) = {#}"
  "tot callM (mtptfree_calls xs) = {#}" "tot callF (mtptfree_calls xs) = {#}"
  unfolding mtptfree_calls_def opts_ms_def by (induction xs) (simp_all add: ac_simps)

lemma tot_chanfree [simp]:
  "tot callC (chanfree_calls c x) = opt_ms (c_umc x) + opt_ms (c_mchan x)"
  "tot callN (chanfree_calls c x) = opt_ms (c_name x)" "tot callM (chanfree_calls c x) = opt_ms (c_umh x)"
  "tot callF (chanfree_calls c x) = {#c#}"
  by (simp_all add: chanfree_calls_def) (simp_all add: call_defs)

lemma countedD:
  assumes "counted s H"
  shows "\<not> fault s" "chanrc.ok s (ownC s + hC H)" "namerc.ok s (ownN s + hN H)"
    "headrc.ok s (ownM s + hM H + hL H)"
    "\<And>n. n < length (cnames s) \<Longrightarrow> n_free (cnames s ! n) \<Longrightarrow> n_mtpt (cnames s ! n) = []"
    "\<And>m. m < length (mheads s) \<Longrightarrow> mh_mount (mheads s ! m) \<noteq> [] \<Longrightarrow> m \<in># links s + hL H"
    "mset (cfree s) + hF H = frees s"
    "\<And>c. c < length (chans s) \<Longrightarrow> is_free (chans s ! c) \<Longrightarrow> c_umc (chans s ! c) = None"
    "\<And>c. c \<in># nsC s \<Longrightarrow> \<not> is_open (chans s ! c)"
  using assms unfolding counted_def by blast+

lemma countedI:
  assumes "\<not> fault s" "chanrc.ok s (ownC s + hC H)" "namerc.ok s (ownN s + hN H)"
    "headrc.ok s (ownM s + hM H + hL H)"
    "\<And>n. n < length (cnames s) \<Longrightarrow> n_free (cnames s ! n) \<Longrightarrow> n_mtpt (cnames s ! n) = []"
    "\<And>m. m < length (mheads s) \<Longrightarrow> mh_mount (mheads s ! m) \<noteq> [] \<Longrightarrow> m \<in># links s + hL H"
    "mset (cfree s) + hF H = frees s"
    "\<And>c. c < length (chans s) \<Longrightarrow> is_free (chans s ! c) \<Longrightarrow> c_umc (chans s ! c) = None"
    "\<And>c. c \<in># nsC s \<Longrightarrow> \<not> is_open (chans s ! c)"
  shows "counted s H"
  using assms unfolding counted_def by blast

text \<open>Rewriting with the multisets that a rule changes.\<close>

lemma is_free_ref [simp]: "is_free (x\<lparr>c_ref := r\<rparr>) = is_free x"
  by (simp add: is_free_def)

lemma is_free_chanfree [simp]: "is_free (chanfree_chan x)"
  by (simp add: is_free_def chanfree_chan_def CFREE_def)

lemma chanfree_ref [simp]: "c_ref (chanfree_chan x) = c_ref x"
  by (simp add: chanfree_chan_def)

lemma chan_freed [simp]: "is_free x \<Longrightarrow> chanC x = {#}" "is_free x \<Longrightarrow> chanN x = {#}" "is_free x \<Longrightarrow> chanM x = {#}"
  by (simp_all add: chanC_def chanN_def chanM_def)

lemma frees_upd:
  assumes "c < length (chans s)"
  shows "frees (upd_chan c f s) + (if is_free (chans s ! c) then {#c#} else {#})
    = frees s + (if is_free (f (chans s ! c)) then {#c#} else {#})"
  using assms
  by (intro multiset_eqI) (auto simp: frees_def count_filter_upt upd_nth simp del: mset_filter)

lemma frees_upd_same:
  assumes "is_free (f (chans s ! c)) = is_free (chans s ! c)"
  shows "frees (upd_chan c f s) = frees s"
proof -
  have "is_free (chans (upd_chan c f s) ! i) = is_free (chans s ! i)" if "i < length (chans s)" for i
    using that assms by (auto simp: upd_nth)
  then show ?thesis unfolding frees_def
    by (intro arg_cong [where f = mset]) (auto intro: filter_cong)
qed

lemma frees_frame [simp]:
  "frees (upd_name n g s) = frees s" "frees (upd_mhead m h s) = frees s" "frees (upd_pgrp p k s) = frees s"
  "frees (bump_chan d c s) = frees s" "frees (bump_name d n s) = frees s" "frees (bump_mhead d m s) = frees s"
  "frees (s\<lparr>dst := dd\<rparr>) = frees s" "frees (s\<lparr>ncname := k'\<rparr>) = frees s" "frees (s\<lparr>cfree := fs\<rparr>) = frees s"
  "frees (s\<lparr>mountid := i\<rparr>) = frees s"
  by (simp_all add: bump_chan_def bump_name_def bump_mhead_def frees_upd_same)
    (simp_all add: frees_def upd_defs)

lemma bump_frame [simp]:
  "cnames (bump_chan d c s) = cnames s" "mheads (bump_chan d c s) = mheads s"
  "cfree (bump_chan d c s) = cfree s" "fault (bump_chan d c s) = fault s"
  "chans (bump_name d c s) = chans s" "mheads (bump_name d c s) = mheads s"
  "cfree (bump_name d c s) = cfree s" "fault (bump_name d c s) = fault s"
  "chans (bump_mhead d c s) = chans s" "cnames (bump_mhead d c s) = cnames s"
  "cfree (bump_mhead d c s) = cfree s" "fault (bump_mhead d c s) = fault s"
  "length (chans (bump_chan d c s)) = length (chans s)"
  "length (cnames (bump_name d c s)) = length (cnames s)"
  "length (mheads (bump_mhead d c s)) = length (mheads s)"
  by (simp_all add: bump_chan_def bump_name_def bump_mhead_def)

lemma nth_upd_all: "xs[k := y] ! i = (if i = k \<and> k < length xs then y else xs ! i)"
  by (cases "k < length xs") (simp_all add: nth_list_update list_update_beyond)

lemma is_open_upd:
  "(\<And>x. is_open (f x) = is_open x) \<Longrightarrow> is_open (chans (upd_chan c f s) ! i) = is_open (chans s ! i)"
  by (simp add: upd_chan_def nth_upd_all)

lemma is_open_bump [simp]:
  "is_open (chans (bump_chan d c s) ! i) = is_open (chans s ! i)"
  by (simp add: bump_chan_def upd_chan_def nth_upd_all is_open_def)

lemma bump_nth [simp]:
  "n < length (cnames s) \<Longrightarrow> n_mtpt (cnames (bump_name d c s) ! n) = n_mtpt (cnames s ! n)"
  "n < length (cnames s) \<Longrightarrow> n_s (cnames (bump_name d c s) ! n) = n_s (cnames s ! n)"
  "n < length (cnames s) \<Longrightarrow> n_free (cnames (bump_name d c s) ! n) = n_free (cnames s ! n)"
  "i < length (chans s) \<Longrightarrow> is_free (chans (bump_chan d c s) ! i) = is_free (chans s ! i)"
  "i < length (chans s) \<Longrightarrow> c_umc (chans (bump_chan d c s) ! i) = c_umc (chans s ! i)"
  "m < length (mheads s) \<Longrightarrow> mh_mount (mheads (bump_mhead d c s) ! m) = mh_mount (mheads s ! m)"
  "m < length (mheads s) \<Longrightarrow> mh_from (mheads (bump_mhead d c s) ! m) = mh_from (mheads s ! m)"
  by (auto simp: bump_chan_def bump_name_def bump_mhead_def upd_nth)

text \<open>The three counters are independent of each other.\<close>

lemma ok_frame [simp]:
  "namerc.ok (upd_chan c f s) = namerc.ok s" "headrc.ok (upd_chan c f s) = headrc.ok s"
  "chanrc.ok (upd_name n g s) = chanrc.ok s" "headrc.ok (upd_name n g s) = headrc.ok s"
  "chanrc.ok (upd_mhead m h s) = chanrc.ok s" "namerc.ok (upd_mhead m h s) = namerc.ok s"
  "chanrc.ok (upd_pgrp p k s) = chanrc.ok s" "namerc.ok (upd_pgrp p k s) = namerc.ok s"
  "headrc.ok (upd_pgrp p k s) = headrc.ok s"
  "namerc.ok (bump_chan d c s) = namerc.ok s" "headrc.ok (bump_chan d c s) = headrc.ok s"
  "chanrc.ok (bump_name d c s) = chanrc.ok s" "headrc.ok (bump_name d c s) = headrc.ok s"
  "chanrc.ok (bump_mhead d c s) = chanrc.ok s" "namerc.ok (bump_mhead d c s) = namerc.ok s"
  "chanrc.ok (s\<lparr>dst := dd\<rparr>) = chanrc.ok s" "namerc.ok (s\<lparr>dst := dd\<rparr>) = namerc.ok s"
  "headrc.ok (s\<lparr>dst := dd\<rparr>) = headrc.ok s"
  "chanrc.ok (s\<lparr>ncname := k'\<rparr>) = chanrc.ok s" "namerc.ok (s\<lparr>ncname := k'\<rparr>) = namerc.ok s"
  "headrc.ok (s\<lparr>ncname := k'\<rparr>) = headrc.ok s"
  "chanrc.ok (s\<lparr>cfree := fs\<rparr>) = chanrc.ok s" "namerc.ok (s\<lparr>cfree := fs\<rparr>) = namerc.ok s"
  "headrc.ok (s\<lparr>cfree := fs\<rparr>) = headrc.ok s"
  "chanrc.ok (s\<lparr>mountid := i\<rparr>) = chanrc.ok s" "namerc.ok (s\<lparr>mountid := i\<rparr>) = namerc.ok s"
  "headrc.ok (s\<lparr>mountid := i\<rparr>) = headrc.ok s"
  by (simp_all add: chanrc.ok_def namerc.ok_def headrc.ok_def fun_eq_iff)

lemma close_chan_counted:
  assumes "counted s (withcalls [Cclose c] H)" and "close_step dev (Cclose c) s = (s', ks)"
  shows "counted s' (withcalls ks H)"
proof -
  let ?x = "chans s ! c" and ?R = "ownC s + hC H"
  note d = countedD [OF assms(1)]
  have ok: "chanrc.ok s (add_mset c ?R)" using d(2) by (simp add: withcalls_def call_defs)
  then have c: "c < length (chans s)" "0 < c_ref ?x" "\<not> is_free ?x" using chanrc.held_live by fastforce+
  show ?thesis
  proof (cases "c_ref ?x = 1")
    case False
    have "s' = bump_chan (-1) c s" "ks = []"
      using assms(2) c False by (auto simp: close_step_def Let_def bump_chan_def upd_chan_def)
    moreover have "chanrc.ok (bump_chan (-1) c s) ?R"
      using ok False chanrc.last_ref [OF ok] by (intro chanrc.drop_ref) auto
    ultimately show ?thesis using d
      by (intro countedI) (auto simp: withcalls_def call_defs)
  next
    case True
    define t where "t = upd_chan c (\<lambda>y. chanfree_chan (y\<lparr>c_ref := 0\<rparr>)) s"
    have ks: "ks = chanfree_calls c ?x" and s': "s' = t\<lparr>dst := dst s'\<rparr>"
      using assms(2) c True
      by (auto simp: close_step_def Let_def upd_chan_def t_def chanfree_calls_def)
    have nc: "c \<notin># ?R" using ok True chanrc.last_ref by fastforce
    note u = own_upd_chan [OF c(1), of "\<lambda>y. chanfree_chan (y\<lparr>c_ref := 0\<rparr>)", folded t_def, simplified]
    have own: "ownC t + chanC ?x = ownC s" "ownN t + chanN ?x = ownN s" "ownM t + chanM ?x = ownM s"
      "links t = links s" using u by simp_all
    have "chanrc.ok t ?R"
      using ok nc c(1) by (auto simp: chanrc.ok_def refs_ok_def t_def upd_nth not_in_iff)
    have e: "ownC t + hC (withcalls ks H) = ?R" "ownN t + hN (withcalls ks H) = ownN s + hN H"
      "ownM t + hM (withcalls ks H) + hL (withcalls ks H) = ownM s + hM H + hL H"
      using own c(3) by (simp_all add: withcalls_def ks chanC_def chanN_def chanM_def ac_simps)
    have "mset (cfree t) + hF (withcalls ks H) = frees t"
      using frees_upd [OF c(1), of "\<lambda>y. chanfree_chan (y\<lparr>c_ref := 0\<rparr>)"] d(7) c(3)
      by (simp add: t_def withcalls_def ks call_defs)
    moreover have "links t + hL (withcalls ks H) = links s + hL H" by (simp add: own withcalls_def)
    moreover have "\<not> is_open (chans t ! i)" if "i \<in># nsC t" for i
    proof -
      have "nsC t = nsC s" by (simp add: t_def)
      with that d(9) [of i] have "\<not> is_open (chans s ! i)" by simp
      then show ?thesis
        by (auto simp: t_def upd_chan_def nth_upd_all is_open_def chanfree_chan_def CFREE_def COPEN_def)
    qed
    ultimately have "counted t (withcalls ks H)"
      using d(1,3,4,5,6,8) \<open>chanrc.ok t ?R\<close>
      by (intro countedI; simp only: e)
        (auto simp: t_def withcalls_def call_defs upd_nth chanfree_chan_def split: if_splits)
    then show ?thesis by (subst s') (simp add: counted_def)
  qed
qed

lemma close_name_counted:
  assumes "counted s (withcalls [Cnameclose n] H)" and "close_step dev (Cnameclose n) s = (s', ks)"
  shows "counted s' (withcalls ks H)"
proof -
  let ?x = "cnames s ! n" and ?R = "ownN s + hN H"
  note d = countedD [OF assms(1)]
  have ok: "namerc.ok s (add_mset n ?R)" using d(3) by (simp add: withcalls_def call_defs)
  then have n: "n < length (cnames s)" "0 < n_ref ?x" "\<not> n_free ?x" using namerc.held_live by fastforce+
  show ?thesis
  proof (cases "n_ref ?x = 1")
    case False
    have "s' = bump_name (-1) n s" "ks = []"
      using assms(2) n False by (auto simp: close_step_def Let_def bump_name_def upd_name_def)
    moreover have "namerc.ok (bump_name (-1) n s) ?R"
      using ok False namerc.last_ref [OF ok] by (intro namerc.drop_ref) auto
    ultimately show ?thesis using d
      by (intro countedI) (auto simp: withcalls_def call_defs)
  next
    case True
    define t where "t = upd_name n (\<lambda>y. y\<lparr>n_ref := 0, n_mtpt := [], n_free := True\<rparr>) s"
    have ks: "ks = mtptfree_calls (n_mtpt ?x)" and s': "s' = t\<lparr>ncname := ncname s'\<rparr>"
      using assms(2) n True by (auto simp: close_step_def Let_def upd_name_def t_def)
    have nc: "n \<notin># ?R" using ok True namerc.last_ref by fastforce
    note u = own_upd_name [OF n(1), of "\<lambda>y. y\<lparr>n_ref := 0, n_mtpt := [], n_free := True\<rparr>", folded t_def]
    have own: "ownC t + nameC ?x = ownC s" using u(1) by (simp add: nameC_def opts_ms_def)
    have no: "\<not> is_open (chans t ! i)" if "i \<in># nsC t" for i
    proof -
      have "nsC t + nameC ?x = nsC s"
        using nsC_upd_name [OF n(1), of "\<lambda>y. y\<lparr>n_ref := 0, n_mtpt := [], n_free := True\<rparr>"]
        by (simp add: t_def nameC_def opts_ms_def)
      then have "i \<in># nsC s" using that by (metis union_iff)
      then show ?thesis using d(9) by (simp add: t_def)
    qed
    have nt: "namerc.ok t ?R"
      using ok nc n(1) by (auto simp: namerc.ok_def refs_ok_def t_def upd_nth not_in_iff)
    have e: "ownC t + hC (withcalls ks H) = ownC s + hC H"
      using own by (simp add: withcalls_def ks nameC_def ac_simps)
    have "fault t = fault s" "cfree t = cfree s" "frees t = frees s" "mheads t = mheads s" "chans t = chans s"
      "chanrc.ok t = chanrc.ok s" "headrc.ok t = headrc.ok s" by (simp_all add: t_def)
    moreover have "n_mtpt (cnames t ! i) = []" if "i < length (cnames t)" "n_free (cnames t ! i)" for i
      using that d(5) [of i] by (auto simp: t_def upd_nth split: if_splits)
    ultimately have "counted t (withcalls ks H)"
      using d u(2,3,4) nt no
      by (intro countedI; (simp only: e)?) (auto simp: withcalls_def ks call_defs)
    then show ?thesis by (subst s') (simp add: counted_def)
  qed
qed

lemma close_mhead_counted:
  assumes "counted s (withcalls [Putmhead m] H)" and "close_step dev (Putmhead m) s = (s', ks)"
  shows "counted s' (withcalls ks H)"
proof -
  let ?x = "mheads s ! m" and ?R = "ownM s + hM H + hL H"
  note d = countedD [OF assms(1)]
  have ok: "headrc.ok s (add_mset m ?R)" using d(4) by (simp add: withcalls_def call_defs)
  then have m: "m < length (mheads s)" "0 < mh_ref ?x" "\<not> mh_free ?x" using headrc.held_live by fastforce+
  show ?thesis
  proof (cases "mh_ref ?x = 1")
    case False
    have "s' = bump_mhead (-1) m s" "ks = []"
      using assms(2) m False by (auto simp: close_step_def Let_def bump_mhead_def upd_mhead_def)
    moreover have "headrc.ok (bump_mhead (-1) m s) ?R"
      using ok False headrc.last_ref [OF ok] by (intro headrc.drop_ref) auto
    ultimately show ?thesis using d
      by (intro countedI) (auto simp: withcalls_def call_defs)
  next
    case True
    have nc: "m \<notin># ?R" using ok True headrc.last_ref by fastforce
    then have e: "mh_mount ?x = []" using d(6) [OF m(1)] by (auto simp: ownM_def withcalls_def)
    define t where "t = upd_mhead m (\<lambda>y. y\<lparr>mh_ref := 0, mh_mount := [], mh_free := True\<rparr>) s"
    have ks: "ks = []" and s': "s' = t"
      using assms(2) m True by (auto simp: close_step_def Let_def upd_mhead_def t_def)
    have "headrc.ok t ?R"
      using ok nc m(1) by (auto simp: headrc.ok_def refs_ok_def t_def upd_nth not_in_iff)
    moreover have "ownC t = ownC s" "ownN t = ownN s" "ownM t = ownM s" "links t = links s" "nsC t = nsC s"
      using e by (simp_all add: t_def own_upd_mhead_same nsC_upd_mhead_same headC_def)
    ultimately show ?thesis
      using d unfolding s'
      by (intro countedI) (auto simp: withcalls_def ks t_def call_defs upd_nth split: if_splits)
  qed
qed

lemma close_step_counted:
  assumes "counted s (withcalls [k] H)" and "close_step dev k s = (s', ks)"
  shows "counted s' (withcalls ks H)"
proof (cases k)
  case (Linkfree c)
  then show ?thesis using assms
    by (auto simp: close_step_def counted_def withcalls_def call_defs)
qed (use assms close_chan_counted close_name_counted close_mhead_counted in blast)+

text \<open>The calls consume exactly the references they are made for, and no fault occurs.\<close>

lemma release_counted: "counted s (withcalls ks H) \<Longrightarrow> counted (release dev ks s) H"
proof (induction dev ks s rule: release.induct)
  case (2 dev k ks s)
  obtain s' js where k: "close_step dev k s = (s', js)" by (cases "close_step dev k s")
  have "counted s (withcalls [k] (withcalls ks H))" using 2(2) withcalls_app [of "[k]" ks] by simp
  then have c: "counted s' (withcalls js (withcalls ks H))" using k by (rule close_step_counted)
  then have "\<not> fault s'" by (rule countedD)
  with 2(1) k c show ?case by (simp add: withcalls_app)
qed simp

section \<open>Rules for the primitive steps\<close>

definition addC :: "nat multiset \<Rightarrow> held \<Rightarrow> held" where "addC m H = H\<lparr>hC := hC H + m\<rparr>"
definition addN :: "nat multiset \<Rightarrow> held \<Rightarrow> held" where "addN m H = H\<lparr>hN := hN H + m\<rparr>"
definition addM :: "nat multiset \<Rightarrow> held \<Rightarrow> held" where "addM m H = H\<lparr>hM := hM H + m\<rparr>"
definition addL :: "nat multiset \<Rightarrow> held \<Rightarrow> held" where "addL m H = H\<lparr>hL := hL H + m\<rparr>"

lemma add_sel [simp]:
  "hC (addC m H) = hC H + m" "hN (addC m H) = hN H" "hM (addC m H) = hM H" "hL (addC m H) = hL H" "hF (addC m H) = hF H"
  "hC (addN m H) = hC H" "hN (addN m H) = hN H + m" "hM (addN m H) = hM H" "hL (addN m H) = hL H" "hF (addN m H) = hF H"
  "hC (addM m H) = hC H" "hN (addM m H) = hN H" "hM (addM m H) = hM H + m" "hL (addM m H) = hL H" "hF (addM m H) = hF H"
  "hC (addL m H) = hC H" "hN (addL m H) = hN H" "hM (addL m H) = hM H" "hL (addL m H) = hL H + m" "hF (addL m H) = hF H"
  by (simp_all add: addC_def addN_def addM_def addL_def)

lemma add_zero [simp]: "addC {#} H = H" "addN {#} H = H" "addM {#} H = H" "addL {#} H = H"
  by (simp_all add: addC_def addN_def addM_def addL_def)

lemma add_comm:
  "addC m (addC k H) = addC (m + k) H" "addN m (addN k H) = addN (m + k) H"
  "addM m (addM k H) = addM (m + k) H" "addL m (addL k H) = addL (m + k) H"
  "addN m (addC k H) = addC k (addN m H)" "addM m (addC k H) = addC k (addM m H)"
  "addM m (addN k H) = addN k (addM m H)" "addL m (addC k H) = addC k (addL m H)"
  "addL m (addN k H) = addN k (addL m H)" "addL m (addM k H) = addM k (addL m H)"
  by (simp_all add: addC_def addN_def addM_def addL_def ac_simps)

lemma withcalls_add:
  "withcalls ks H = addC (tot callC ks) (addN (tot callN ks) (addM (tot callM ks) (H\<lparr>hF := hF H + tot callF ks\<rparr>)))"
  by (simp add: withcalls_def addC_def addN_def addM_def)

lemma withcalls_opt [simp]:
  "withcalls (opt_call Cclose x) H = addC (opt_ms x) H"
  "withcalls (opt_call Cnameclose x) H = addN (opt_ms x) H"
  "withcalls (opt_call Putmhead x) H = addM (opt_ms x) H"
  "withcalls (mtptfree_calls xs) H = addC (opts_ms xs) H"
  by (simp_all add: withcalls_add)

lemma counted_more:
  assumes "counted s H" and "hC H = hC H'" "hN H = hN H'" "hM H = hM H'" "hL H = hL H'" "hF H = hF H'"
  shows "counted s H'"
  using assms by (simp add: counted_def)

lemma cclose_counted: "counted s (addC (opt_ms c) H) \<Longrightarrow> counted (cclose dev c s) H"
  unfolding cclose_def by (rule release_counted) simp

lemma cnameclose_counted: "counted s (addN (opt_ms n) H) \<Longrightarrow> counted (cnameclose dev n s) H"
  unfolding cnameclose_def by (rule release_counted) simp

lemma putmhead_counted: "counted s (addM (opt_ms m) H) \<Longrightarrow> counted (putmhead dev m s) H"
  unfolding putmhead_def by (rule release_counted) simp

lemma mountfree_counted:
  assumes "counted s (addC (mset (map mt_to ms)) H)"
  shows "counted (mountfree dev ms s) H"
proof -
  have "tot callC (map (Cclose \<circ> mt_to) ms) = mset (map mt_to ms)" "tot callN (map (Cclose \<circ> mt_to) ms) = {#}"
    "tot callM (map (Cclose \<circ> mt_to) ms) = {#}" "tot callF (map (Cclose \<circ> mt_to) ms) = {#}"
    by (induction ms) (simp_all add: call_defs)
  then show ?thesis unfolding mountfree_def using assms by (intro release_counted) (simp add: withcalls_add)
qed

text \<open>Objects that are referred to are live.\<close>

lemma counted_liveC:
  "counted s H \<Longrightarrow> c \<in># ownC s + hC H \<Longrightarrow>
    c < length (chans s) \<and> 0 < c_ref (chans s ! c) \<and> \<not> is_free (chans s ! c)"
  using chanrc.held_live countedD(2) by blast

lemma counted_liveN:
  "counted s H \<Longrightarrow> n \<in># ownN s + hN H \<Longrightarrow>
    n < length (cnames s) \<and> 0 < n_ref (cnames s ! n) \<and> \<not> n_free (cnames s ! n)"
  using namerc.held_live countedD(3) by blast

lemma counted_liveM:
  "counted s H \<Longrightarrow> m \<in># ownM s + hM H + hL H \<Longrightarrow>
    m < length (mheads s) \<and> 0 < mh_ref (mheads s ! m) \<and> \<not> mh_free (mheads s ! m)"
  using headrc.held_live countedD(4) by blast

lemma incref_is_bump:
  "incref_chan c = bump_chan 1 c" "incref_name n = bump_name 1 n" "incref_mhead m = bump_mhead 1 m"
  by (simp_all add: incref_chan_def incref_name_def incref_mhead_def incref_def bump_chan_def
      bump_name_def bump_mhead_def)

lemma incref_chan_counted:
  assumes "counted s H" and "c \<in># ownC s + hC H"
  shows "counted (incref_chan c s) (addC {#c#} H)"
proof -
  note d = countedD [OF assms(1)]
  have "chanrc.ok (bump_chan 1 c s) (add_mset c (ownC s + hC H))" using d(2) assms(2) by (rule chanrc.take_ref)
  then show ?thesis unfolding incref_is_bump using d by (intro countedI) auto
qed

lemma incref_name_counted:
  assumes "counted s H" and "n \<in># ownN s + hN H"
  shows "counted (incref_name n s) (addN {#n#} H)"
proof -
  note d = countedD [OF assms(1)]
  have "namerc.ok (bump_name 1 n s) (add_mset n (ownN s + hN H))" using d(3) assms(2) by (rule namerc.take_ref)
  then show ?thesis unfolding incref_is_bump using d by (intro countedI) auto
qed

lemma incref_mhead_counted:
  assumes "counted s H" and "m \<in># ownM s + hM H + hL H"
  shows "counted (incref_mhead m s) (addM {#m#} H)"
proof -
  note d = countedD [OF assms(1)]
  have "headrc.ok (bump_mhead 1 m s) (add_mset m (ownM s + hM H + hL H))"
    using d(4) assms(2) by (rule headrc.take_ref)
  then show ?thesis unfolding incref_is_bump using d by (intro countedI) auto
qed

text \<open>A change of fields that hold no reference.\<close>

lemma upd_chan_counted:
  assumes "counted s H"
    and "let x = chans s ! c; y = f x in c_ref y = c_ref x \<and> is_free y = is_free x \<and> c_umh y = c_umh x
      \<and> c_umc y = c_umc x \<and> c_mchan y = c_mchan x \<and> c_name y = c_name x"
    and "is_open (f (chans s ! c)) = is_open (chans s ! c) \<or> c \<notin># nsC s"
  shows "counted (upd_chan c f s) H"
proof -
  note d = countedD [OF assms(1)]
  note x = assms(2) [unfolded Let_def]
  have o: "ownC (upd_chan c f s) = ownC s" "ownN (upd_chan c f s) = ownN s" "ownM (upd_chan c f s) = ownM s"
    "links (upd_chan c f s) = links s"
    using x by (simp_all add: own_upd_chan_same chanC_def chanN_def chanM_def)
  have "chanrc.ok (upd_chan c f s) (ownC s + hC H)"
    using d(2) x by (auto simp: chanrc.ok_def refs_ok_def upd_nth)
  moreover have "\<not> is_open (chans (upd_chan c f s) ! i)" if "i \<in># nsC s" for i
    using that d(9) [OF that] assms(3) by (auto simp: upd_chan_def nth_upd_all)
  ultimately show ?thesis using d(1-8) x
    by (intro countedI) (auto simp: o frees_upd_same upd_nth split: if_splits)
qed

lemma upd_name_counted:
  assumes "counted s H" and "\<And>x. n_ref (f x) = n_ref x \<and> n_free (f x) = n_free x \<and> n_mtpt (f x) = n_mtpt x"
  shows "counted (upd_name n f s) H"
proof -
  note d = countedD [OF assms(1)]
  have o: "ownC (upd_name n f s) = ownC s" "ownN (upd_name n f s) = ownN s" "ownM (upd_name n f s) = ownM s"
    "links (upd_name n f s) = links s"
    "nsC (upd_name n f s) = nsC s"
    using assms(2) by (simp_all add: own_upd_name_same nsC_upd_name_same nameC_def)
  have "namerc.ok (upd_name n f s) (ownN s + hN H)"
    using d(3) assms(2) by (auto simp: namerc.ok_def refs_ok_def upd_nth)
  then show ?thesis using d assms(2) by (intro countedI) (auto simp: o upd_nth split: if_splits)
qed

text \<open>Moving references between the store and the outside.\<close>

lemma set_umh_counted:
  assumes "counted s (addM (opt_ms v) H)" and "c < length (chans s)" and "\<not> is_free (chans s ! c)"
  shows "counted (upd_chan c (\<lambda>x. x\<lparr>c_umh := v\<rparr>) s) (addM (opt_ms (c_umh (chans s ! c))) H)"
proof -
  let ?f = "\<lambda>x. x\<lparr>c_umh := v\<rparr>" and ?x = "chans s ! c"
  have f: "is_free (?f x) = is_free x" "is_open (?f x) = is_open x" for x
    by (simp_all add: is_free_def is_open_def)
  note d = countedD [OF assms(1)]
  note u = own_upd_chan [OF assms(2), of ?f]
  have e: "ownM (upd_chan c ?f s) + (hM H + opt_ms (c_umh ?x)) + hL H = ownM s + (hM H + opt_ms v) + hL H"
    using u(3) assms(3) by (simp add: chanM_def f ac_simps)
  have o: "ownC (upd_chan c ?f s) = ownC s" "ownN (upd_chan c ?f s) = ownN s" "links (upd_chan c ?f s) = links s"
    using u(1,2,4) assms(3) by (simp_all add: chanC_def chanN_def f)
  have "chanrc.ok (upd_chan c ?f s) (ownC s + hC H)"
    using d(2) by (auto simp: chanrc.ok_def refs_ok_def upd_nth f)
  then show ?thesis using d
    by (intro countedI; simp only: add_sel e) (auto simp: o frees_upd_same is_open_upd upd_nth f split: if_splits)
qed

lemma set_name_field_counted:
  assumes "counted s (addN (opt_ms v) H)" and "c < length (chans s)" and "\<not> is_free (chans s ! c)"
  shows "counted (upd_chan c (\<lambda>x. x\<lparr>c_name := v\<rparr>) s) (addN (opt_ms (c_name (chans s ! c))) H)"
proof -
  let ?f = "\<lambda>x. x\<lparr>c_name := v\<rparr>" and ?x = "chans s ! c"
  have f: "is_free (?f x) = is_free x" "is_open (?f x) = is_open x" for x
    by (simp_all add: is_free_def is_open_def)
  note d = countedD [OF assms(1)]
  note u = own_upd_chan [OF assms(2), of ?f]
  have e: "ownN (upd_chan c ?f s) + (hN H + opt_ms (c_name ?x)) = ownN s + (hN H + opt_ms v)"
    using u(2) assms(3) by (simp add: chanN_def f ac_simps)
  have o: "ownC (upd_chan c ?f s) = ownC s" "ownM (upd_chan c ?f s) = ownM s" "links (upd_chan c ?f s) = links s"
    using u(1,3,4) assms(3) by (simp_all add: chanC_def chanM_def f)
  have "chanrc.ok (upd_chan c ?f s) (ownC s + hC H)"
    using d(2) by (auto simp: chanrc.ok_def refs_ok_def upd_nth f)
  then show ?thesis using d
    by (intro countedI; simp only: add_sel e) (auto simp: o frees_upd_same is_open_upd upd_nth f split: if_splits)
qed

lemma set_mchan_counted:
  assumes "counted s (addC (opt_ms v) H)" and "c < length (chans s)" and "\<not> is_free (chans s ! c)"
  shows "counted (upd_chan c (\<lambda>x. x\<lparr>c_mchan := v\<rparr>) s) (addC (opt_ms (c_mchan (chans s ! c))) H)"
proof -
  let ?f = "\<lambda>x. x\<lparr>c_mchan := v\<rparr>" and ?x = "chans s ! c"
  have f: "is_free (?f x) = is_free x" "is_open (?f x) = is_open x" for x
    by (simp_all add: is_free_def is_open_def)
  note d = countedD [OF assms(1)]
  note u = own_upd_chan [OF assms(2), of ?f]
  have e: "ownC (upd_chan c ?f s) + (hC H + opt_ms (c_mchan ?x)) = ownC s + (hC H + opt_ms v)"
    using u(1) assms(3) by (simp add: chanC_def f ac_simps)
  have o: "ownN (upd_chan c ?f s) = ownN s" "ownM (upd_chan c ?f s) = ownM s" "links (upd_chan c ?f s) = links s"
    using u(2,3,4) assms(3) by (simp_all add: chanN_def chanM_def f)
  have "chanrc.ok (upd_chan c ?f s) (ownC s + (hC H + opt_ms v))"
    using d(2) by (auto simp: chanrc.ok_def refs_ok_def upd_nth f)
  then show ?thesis using d
    by (intro countedI; simp only: add_sel e) (auto simp: o frees_upd_same is_open_upd upd_nth f split: if_splits)
qed

lemma set_mtpt_counted:
  assumes "counted s (addC (opts_ms (g (n_mtpt (cnames s ! n)))) H)" and "n < length (cnames s)"
    and "\<not> n_free (cnames s ! n)"
    and "\<And>c. c \<in># opts_ms (g (n_mtpt (cnames s ! n))) \<Longrightarrow> \<not> is_open (chans s ! c)"
  shows "counted (upd_name n (\<lambda>x. x\<lparr>n_mtpt := g (n_mtpt x)\<rparr>) s) (addC (opts_ms (n_mtpt (cnames s ! n))) H)"
proof -
  let ?f = "\<lambda>x. x\<lparr>n_mtpt := g (n_mtpt x)\<rparr>" and ?x = "cnames s ! n"
  note d = countedD [OF assms(1)]
  note u = own_upd_name [OF assms(2), of ?f]
  have e: "ownC (upd_name n ?f s) + (hC H + opts_ms (n_mtpt ?x)) = ownC s + (hC H + opts_ms (g (n_mtpt ?x)))"
    using u(1) by (simp add: nameC_def ac_simps)
  have "namerc.ok (upd_name n ?f s) (ownN s + hN H)"
    using d(3) by (auto simp: namerc.ok_def refs_ok_def upd_nth)
  moreover have "\<not> is_open (chans s ! c)" if "c \<in># nsC (upd_name n ?f s)" for c
    using replaced [OF nsC_upd_name [OF assms(2)] that] d(9) assms(4) by (auto simp: nameC_def)
  ultimately show ?thesis using d(1-8) assms(3)
    by (intro countedI; simp only: add_sel e) (auto simp: u upd_nth split: if_splits)
qed

lemma set_mounts_counted:
  assumes "counted s (addC (mountsC (mh_from (mheads s ! m)) l) H)" and "m < length (mheads s)"
    and "l \<noteq> [] \<Longrightarrow> m \<in># links s + hL H"
    and "\<And>c. c \<in># mountsC (mh_from (mheads s ! m)) l \<Longrightarrow> \<not> is_open (chans s ! c)"
  shows "counted (upd_mhead m (\<lambda>x. x\<lparr>mh_mount := l\<rparr>) s) (addC (headC (mheads s ! m)) H)"
proof -
  let ?f = "\<lambda>x. x\<lparr>mh_mount := l\<rparr>" and ?x = "mheads s ! m"
  note d = countedD [OF assms(1)]
  note u = own_upd_mhead [OF assms(2), of ?f]
  have e: "ownC (upd_mhead m ?f s) + (hC H + headC ?x) = ownC s + (hC H + mountsC (mh_from ?x) l)"
    using u(1) by (simp add: headC_def ac_simps)
  have "headrc.ok (upd_mhead m ?f s) (ownM s + hM H + hL H)"
    using d(4) by (auto simp: headrc.ok_def refs_ok_def upd_nth)
  moreover have "\<not> is_open (chans s ! c)" if "c \<in># nsC (upd_mhead m ?f s)" for c
    using replaced [OF nsC_upd_mhead [OF assms(2)] that] d(9) assms(4) by (auto simp: headC_def)
  ultimately show ?thesis using d(1-8) assms(3)
    by (intro countedI; simp only: add_sel e) (auto simp: u upd_nth split: if_splits)
qed

lemma upd_pgrp_counted:
  assumes "counted s (addC (pgrpC (f (pgrps s ! p))) (addL (pgrpM (f (pgrps s ! p))) H))"
    and "p < length (pgrps s)" and "\<And>c. c \<in># pgrpC (f (pgrps s ! p)) \<Longrightarrow> \<not> is_open (chans s ! c)"
  shows "counted (upd_pgrp p f s) (addC (pgrpC (pgrps s ! p)) (addL (pgrpM (pgrps s ! p)) H))"
proof -
  let ?x = "pgrps s ! p"
  note d = countedD [OF assms(1)]
  note u = own_upd_pgrp [OF assms(2), of f]
  have e: "ownC (upd_pgrp p f s) + (hC H + pgrpC ?x) = ownC s + (hC H + pgrpC (f ?x))"
    "ownM (upd_pgrp p f s) + hM H + (hL H + pgrpM ?x) = ownM s + hM H + (hL H + pgrpM (f ?x))"
    "links (upd_pgrp p f s) + (hL H + pgrpM ?x) = links s + (hL H + pgrpM (f ?x))"
    using u by (simp_all add: ac_simps)
  have "\<not> is_open (chans s ! c)" if "c \<in># nsC (upd_pgrp p f s)" for c
    using replaced [OF nsC_upd_pgrp [OF assms(2)] that] d(9) assms(3) by auto
  then show ?thesis using d(1-8)
    by (intro countedI; simp only: add_sel e) (auto simp: u(4))
qed

text \<open>A link of a head with nothing mounted is an ordinary reference, and any reference can be one.\<close>

lemma link_to_ref:
  assumes "counted s (addL {#m#} H)" and "mh_mount (mheads s ! m) = []"
  shows "counted s (addM {#m#} H)"
  using assms unfolding counted_def by (auto simp: ac_simps)

lemma ref_to_link: "counted s (addM {#m#} H) \<Longrightarrow> counted s (addL {#m#} H)"
  unfolding counted_def by (auto simp: ac_simps)

text \<open>Allocation.\<close>

lemma newname_counted:
  assumes "counted s H" and "newcname t s = (n, s')"
  shows "counted s' (addN {#n#} H)" and "n = length (cnames s)" and "n_mtpt (cnames s' ! n) = []"
    and "n_ref (cnames s' ! n) = 1" and "n_s (cnames s' ! n) = t"
    and "length (cnames s') = Suc (length (cnames s))"
proof -
  note d = countedD [OF assms(1)]
  have s': "s' = s\<lparr>ncname := ncname s + 1, cnames := cnames s @ [\<lparr>n_ref = 1, n_s = t, n_mtpt = [], n_free = False\<rparr>]\<rparr>"
    and n: "n = length (cnames s)" using assms(2) by (auto simp: newcname_def)
  then show "n = length (cnames s)" "n_mtpt (cnames s' ! n) = []" "n_ref (cnames s' ! n) = 1"
    "n_s (cnames s' ! n) = t" "length (cnames s') = Suc (length (cnames s))" by simp_all
  have o: "ownC s' = ownC s" "ownN s' = ownN s" "ownM s' = ownM s" "links s' = links s" "frees s' = frees s"
    "nsC s' = nsC s"
    by (simp_all add: s' ownC_def nsC_def ownN_def ownM_def links_def nameC_def opts_ms_def frees_def)
  have "n \<notin># ownN s + hN H" using d(3) n by (auto simp: namerc.ok_def refs_ok_def)
  then have "namerc.ok s' (add_mset n (ownN s + hN H))"
    using d(3) by (auto simp: namerc.ok_def refs_ok_def s' n nth_append less_Suc_eq not_in_iff)
  moreover have "chanrc.ok s' = chanrc.ok s" "headrc.ok s' = headrc.ok s"
    by (simp_all add: s' chanrc.ok_def headrc.ok_def fun_eq_iff)
  ultimately show "counted s' (addN {#n#} H)" using d
    by (intro countedI) (auto simp: o, auto simp: s' nth_append less_Suc_eq)
qed

lemma newmhead_counted:
  assumes "counted s H" and "newmhead from s = (m, s')" and "from \<in># ownC s + hC H"
  shows "counted s' (addC {#from#} (addM {#m#} H))" and "m = length (mheads s)" and "mh_mount (mheads s' ! m) = []"
    and "mh_from (mheads s' ! m) = from" and "mh_ref (mheads s' ! m) = 1"
    and "length (mheads s') = Suc (length (mheads s))"
proof -
  define t where "t = s\<lparr>mheads := mheads s @ [\<lparr>mh_ref = 1, mh_from = from, mh_mount = [], mh_free = False\<rparr>]\<rparr>"
  note d = countedD [OF assms(1)]
  have s': "s' = incref_chan from t" and m: "m = length (mheads s)" using assms(2) by (auto simp: newmhead_def t_def)
  then show "m = length (mheads s)" "mh_mount (mheads s' ! m) = []" "mh_from (mheads s' ! m) = from"
    "mh_ref (mheads s' ! m) = 1" "length (mheads s') = Suc (length (mheads s))"
    by (simp_all add: incref_is_bump) (simp_all add: t_def)
  have o: "ownC t = ownC s" "ownN t = ownN s" "ownM t = ownM s" "links t = links s" "frees t = frees s"
    "nsC t = nsC s"
    by (simp_all add: t_def ownC_def nsC_def ownN_def ownM_def links_def headC_def mountsC_def frees_def)
  have "m \<notin># ownM s + hM H + hL H" using d(4) m by (auto simp: headrc.ok_def refs_ok_def)
  then have "headrc.ok t (add_mset m (ownM s + hM H + hL H))"
    using d(4) by (auto simp: headrc.ok_def refs_ok_def t_def m nth_append less_Suc_eq not_in_iff)
  moreover have "chanrc.ok t = chanrc.ok s" "namerc.ok t = namerc.ok s"
    by (simp_all add: t_def chanrc.ok_def namerc.ok_def fun_eq_iff)
  ultimately have "counted t (addM {#m#} H)" using d
    by (intro countedI) (auto simp: o, (use d(6) in \<open>auto simp: t_def nth_append less_Suc_eq\<close>)?, blast?)
  then show "counted s' (addC {#from#} (addM {#m#} H))" unfolding s'
    using assms(3) by (intro incref_chan_counted) (auto simp: o)
qed

section \<open>Rules for the operations on channels\<close>

lemma newchan_init_sel [simp]:
  "\<not> is_free (newchan_init x)" "c_ref (newchan_init x) = 1" "c_umh (newchan_init x) = None"
  "c_umc (newchan_init x) = c_umc x" "c_mchan (newchan_init x) = None" "c_name (newchan_init x) = None"
  "c_flag (newchan_init x) = 0"
  by (simp_all add: newchan_init_def is_free_def)

lemma chan0_umc [simp]: "c_umc (chan0\<lparr>c_fid := i\<rparr>) = None"
  by (simp add: chan0_def)

lemma newchan_counted:
  assumes "counted s H" and "newchan s = (c, s')"
  shows "counted s' (addC {#c#} H)" and "c < length (chans s')" and "c \<notin># ownC s + hC H"
    and "c_ref (chans s' ! c) = 1 \<and> \<not> is_free (chans s' ! c) \<and> c_umh (chans s' ! c) = None
      \<and> c_mchan (chans s' ! c) = None \<and> c_umc (chans s' ! c) = None \<and> c_name (chans s' ! c) = None
      \<and> c_flag (chans s' ! c) = 0"
    and "\<And>i. i < length (chans s) \<Longrightarrow> i \<noteq> c \<Longrightarrow> i < length (chans s') \<and> chans s' ! i = chans s ! i"
    and "cnames s' = cnames s \<and> mheads s' = mheads s \<and> pgrps s' = pgrps s \<and> fgrps s' = fgrps s
      \<and> mountid s' = mountid s \<and> dst s' = dst s"
    and "ownC s' = ownC s \<and> ownN s' = ownN s \<and> ownM s' = ownM s \<and> links s' = links s \<and> nsC s' = nsC s"
proof -
  note d = countedD [OF assms(1)]
  let ?R = "ownC s + hC H"
  have "counted s' (addC {#c#} H) \<and> c < length (chans s') \<and> c \<notin># ?R
    \<and> (c_ref (chans s' ! c) = 1 \<and> \<not> is_free (chans s' ! c) \<and> c_umh (chans s' ! c) = None
      \<and> c_mchan (chans s' ! c) = None \<and> c_umc (chans s' ! c) = None \<and> c_name (chans s' ! c) = None
      \<and> c_flag (chans s' ! c) = 0)
    \<and> (\<forall>i<length (chans s). i \<noteq> c \<longrightarrow> i < length (chans s') \<and> chans s' ! i = chans s ! i)
    \<and> (cnames s' = cnames s \<and> mheads s' = mheads s \<and> pgrps s' = pgrps s \<and> fgrps s' = fgrps s
      \<and> mountid s' = mountid s \<and> dst s' = dst s)
    \<and> (ownC s' = ownC s \<and> ownN s' = ownN s \<and> ownM s' = ownM s \<and> links s' = links s \<and> nsC s' = nsC s)"
  proof (cases "cfree s")
    case Nil
    then have c: "c = length (chans s)" and s': "s' = s\<lparr>fidgen := fidgen s + 1,
        chans := chans s @ [newchan_init (chan0\<lparr>c_fid := fidgen s + 1\<rparr>)]\<rparr>"
      using assms(2) by (simp_all add: newchan_def Let_def)
    have o: "ownC s' = ownC s" "ownN s' = ownN s" "ownM s' = ownM s" "links s' = links s" "nsC s' = nsC s"
      by (simp_all add: s' ownC_def ownN_def ownM_def links_def nsC_def chanC_def chanN_def chanM_def)
    have fr: "frees s' = frees s"
      by (intro multiset_eqI) (auto simp: frees_def count_filter_upt s' nth_append simp del: mset_filter)
    have n: "c \<notin># ?R" using d(2) c by (auto simp: chanrc.ok_def refs_ok_def)
    have "chanrc.ok s' (add_mset c ?R)"
      using d(2) n by (auto simp: chanrc.ok_def refs_ok_def s' c nth_append less_Suc_eq not_in_iff)
    moreover have "namerc.ok s' = namerc.ok s" "headrc.ok s' = headrc.ok s"
      by (simp_all add: s' namerc.ok_def headrc.ok_def fun_eq_iff)
    moreover have "c_umc (chans s' ! i) = None" if "i < length (chans s')" "is_free (chans s' ! i)" for i
      using that d(8) [of i] by (auto simp: s' nth_append less_Suc_eq split: if_splits)
    moreover have "cnames s' = cnames s" "mheads s' = mheads s" "cfree s' = cfree s" "fault s' = fault s"
      by (simp_all add: s')
    moreover have "\<not> is_open (chans s' ! i)" if "i \<in># nsC s" for i
      using that d(9) [of i] chanrc.held_live [OF d(2), of i] nsC_own [OF that]
      by (simp add: s' nth_append)
    ultimately have "counted s' (addC {#c#} H)" using d by (intro countedI) (auto simp: o fr)
    then show ?thesis using o n by (auto simp: s' c nth_append)
  next
    case (Cons a fs)
    then have c: "cfree s = c # fs" and s': "s' = upd_chan c newchan_init (s\<lparr>cfree := fs\<rparr>)"
      using assms(2) by (auto simp: newchan_def)
    have "c \<in># frees s" using d(7) c by (auto simp flip: d(7))
    then have f: "c < length (chans s)" "is_free (chans s ! c)"
      by (auto simp: frees_def simp del: mset_filter)
    have u: "c_umc (chans s ! c) = None" using d(8) f by blast
    have n: "c \<notin># ?R" using d(2) f by (auto simp: chanrc.ok_def refs_ok_def not_in_iff)
    note o' = own_upd_chan [of c "s\<lparr>cfree := fs\<rparr>" newchan_init, folded s', simplified]
    have o: "ownC s' = ownC s" "ownN s' = ownN s" "ownM s' = ownM s" "links s' = links s" "nsC s' = nsC s"
      using o' f u by (simp_all add: chanC_def chanN_def chanM_def) (simp add: s')
    have no: "\<not> is_open (chans s' ! i)" if "i \<in># nsC s" for i
      using that d(9) [of i] by (auto simp: s' upd_chan_def nth_upd_all is_open_def newchan_init_def)
    have "frees s' + {#c#} = frees s"
      using frees_upd [of c "s\<lparr>cfree := fs\<rparr>" newchan_init, folded s', simplified] f by simp
    moreover have cf: "cfree s' = fs" by (simp add: s')
    ultimately have "add_mset c (mset (cfree s') + hF H) = add_mset c (frees s')"
      using d(7) c by (simp only: cf) simp
    then have fr: "mset (cfree s') + hF H = frees s'" by simp
    have "chanrc.ok s' (add_mset c ?R)"
      using d(2) n f by (auto simp: chanrc.ok_def refs_ok_def s' upd_nth not_in_iff)
    moreover have "c_umc (chans s' ! i) = None" if "i < length (chans s')" "is_free (chans s' ! i)" for i
      using that d(8) [of i] by (auto simp: s' upd_nth split: if_splits)
    moreover have "cnames s' = cnames s" "mheads s' = mheads s" "fault s' = fault s"
      "namerc.ok s' = namerc.ok s" "headrc.ok s' = headrc.ok s"
      by (simp_all add: s')
    moreover note no
    ultimately have "counted s' (addC {#c#} H)" using d by (intro countedI) (auto simp: o fr)
    then show ?thesis using o n f u by (auto simp: s' upd_nth)
  qed
  then show "counted s' (addC {#c#} H)" "c < length (chans s')" "c \<notin># ownC s + hC H"
    "c_ref (chans s' ! c) = 1 \<and> \<not> is_free (chans s' ! c) \<and> c_umh (chans s' ! c) = None
      \<and> c_mchan (chans s' ! c) = None \<and> c_umc (chans s' ! c) = None \<and> c_name (chans s' ! c) = None
      \<and> c_flag (chans s' ! c) = 0"
    "\<And>i. i < length (chans s) \<Longrightarrow> i \<noteq> c \<Longrightarrow> i < length (chans s') \<and> chans s' ! i = chans s ! i"
    "cnames s' = cnames s \<and> mheads s' = mheads s \<and> pgrps s' = pgrps s \<and> fgrps s' = fgrps s
      \<and> mountid s' = mountid s \<and> dst s' = dst s"
    "ownC s' = ownC s \<and> ownN s' = ownN s \<and> ownM s' = ownM s \<and> links s' = links s \<and> nsC s' = nsC s"
    by blast+
qed

section \<open>What closing leaves alone\<close>

definition ident :: "chan \<Rightarrow> u16 \<times> u64 \<times> qid" where
  "ident c = (c_type c, c_dev c, c_qid c)"

definition kept_chan :: "chan \<Rightarrow> chan \<Rightarrow> bool" where
  "kept_chan x y \<longleftrightarrow> ident y = ident x \<and> c_mflag y = c_mflag x \<and>
     (\<not> is_free y \<longrightarrow> \<not> is_free x \<and> c_name y = c_name x \<and> c_umh y = c_umh x \<and> c_mchan y = c_mchan x
        \<and> c_flag y = c_flag x) \<and> chanC y \<subseteq># chanC x"

definition kept_name :: "cname \<Rightarrow> cname \<Rightarrow> bool" where
  "kept_name x y \<longleftrightarrow> n_s y = n_s x \<and> nameC y \<subseteq># nameC x \<and> (\<not> n_free y \<longrightarrow> \<not> n_free x \<and> n_mtpt y = n_mtpt x)"

definition kept_head :: "mhead \<Rightarrow> mhead \<Rightarrow> bool" where
  "kept_head x y \<longleftrightarrow> mh_from y = mh_from x \<and> headC y \<subseteq># headC x \<and> (\<not> mh_free y \<longrightarrow> \<not> mh_free x \<and> mh_mount y = mh_mount x)"

definition kept :: "'d kst \<Rightarrow> 'd kst \<Rightarrow> bool" where
  "kept s s' \<longleftrightarrow>
     length (chans s') = length (chans s) \<and> length (cnames s') = length (cnames s) \<and>
     length (mheads s') = length (mheads s) \<and> pgrps s' = pgrps s \<and> fgrps s' = fgrps s \<and>
     mountid s' = mountid s \<and>
     (\<forall>c. kept_chan (chans s ! c) (chans s' ! c)) \<and> (\<forall>n. kept_name (cnames s ! n) (cnames s' ! n)) \<and>
     (\<forall>m. kept_head (mheads s ! m) (mheads s' ! m))"

lemma kept_refl [simp]: "kept s s"
  by (simp add: kept_def kept_chan_def kept_name_def kept_head_def)

lemma kept_trans: "kept s t \<Longrightarrow> kept t u \<Longrightarrow> kept s u"
  unfolding kept_def kept_chan_def kept_name_def kept_head_def by (auto intro: subset_mset.order_trans)

lemma kept_upd:
  "(\<And>x. kept_chan x (f x)) \<Longrightarrow> kept s (upd_chan c f s)"
  "(\<And>x. kept_name x (g x)) \<Longrightarrow> kept s (upd_name c g s)"
  "(\<And>x. kept_head x (h x)) \<Longrightarrow> kept s (upd_mhead c h s)"
  "kept s (set_fault s)" "kept s (s\<lparr>dst := d\<rparr>)" "kept s (s\<lparr>ncname := j\<rparr>)" "kept s (s\<lparr>cfree := fs\<rparr>)"
proof -
  have r: "kept_chan x x" "kept_name y y" "kept_head z z" for x y z
    by (simp_all add: kept_chan_def kept_name_def kept_head_def)
  have n: "xs[k := y] ! i = (if i = k \<and> k < length xs then y else xs ! i)" for xs :: "'x list" and k y i
    by (cases "k < length xs") (simp_all add: nth_list_update list_update_beyond)
  show "(\<And>x. kept_chan x (f x)) \<Longrightarrow> kept s (upd_chan c f s)"
    using r by (simp add: kept_def upd_chan_def n)
  show "(\<And>x. kept_name x (g x)) \<Longrightarrow> kept s (upd_name c g s)"
    using r by (simp add: kept_def upd_name_def n)
  show "(\<And>x. kept_head x (h x)) \<Longrightarrow> kept s (upd_mhead c h s)"
    using r by (simp add: kept_def upd_mhead_def n)
qed (simp_all add: kept_def set_fault_def kept_chan_def kept_name_def kept_head_def)

lemma kept_close_step: "close_step dev k s = (s', ks) \<Longrightarrow> kept s s'"
proof -
  assume a: "close_step dev k s = (s', ks)"
  have c: "kept_chan x (x\<lparr>c_ref := i\<rparr>)" "kept_chan x (chanfree_chan x)"
    "kept_name y (y\<lparr>n_ref := i\<rparr>)" "kept_name y (y\<lparr>n_mtpt := [], n_free := True\<rparr>)"
    "kept_head z (z\<lparr>mh_ref := i\<rparr>)" "kept_head z (z\<lparr>mh_mount := [], mh_free := True\<rparr>)" for x y z i
    by (simp_all add: kept_chan_def kept_name_def kept_head_def ident_def chanC_def nameC_def headC_def mountsC_def opts_ms_def)
      (simp_all add: chanfree_chan_def is_free_def CFREE_def)
  note u = kept_upd(1) [OF c(1)] kept_upd(2) [OF c(3)] kept_upd(3) [OF c(5)]
  have "kept s (upd_chan n chanfree_chan ((upd_chan n (\<lambda>y. y\<lparr>c_ref := i\<rparr>) s)\<lparr>dst := d\<rparr>))" for n i d
    using kept_trans [OF u(1) kept_trans [OF kept_upd(5) kept_upd(1) [OF c(2)]]] .
  moreover have "kept s (upd_name n (\<lambda>y. y\<lparr>n_mtpt := [], n_free := True\<rparr>)
      ((upd_name n (\<lambda>y. y\<lparr>n_ref := i\<rparr>) s)\<lparr>ncname := d\<rparr>))" for n i d
    using kept_trans [OF u(2) kept_trans [OF kept_upd(6) kept_upd(2) [OF c(4)]]] .
  moreover have "kept s (upd_mhead n (\<lambda>y. y\<lparr>mh_mount := [], mh_free := True\<rparr>)
      (upd_mhead n (\<lambda>y. y\<lparr>mh_ref := i\<rparr>) s))" for n i
    using kept_trans [OF u(3) kept_upd(3) [OF c(6)]] .
  moreover note u kept_trans [OF u(1) kept_upd(4)] kept_trans [OF u(2) kept_upd(4)] kept_trans [OF u(3) kept_upd(4)]
    kept_upd(4,7)
  ultimately show "kept s s'"
    using a by (cases k) (auto simp add: close_step_def Let_def split: if_splits)
qed

lemma kept_release: "kept s (release dev ks s)"
proof (induction dev ks s rule: release.induct)
  case (2 dev k ks s)
  obtain s' js where k: "close_step dev k s = (s', js)" by (cases "close_step dev k s")
  have "kept s s'" using k by (rule kept_close_step)
  with 2 k show ?case by (auto intro: kept_trans)
qed simp

lemma kept_closes [simp]:
  "kept s (cclose dev c s)" "kept s (cnameclose dev n s)" "kept s (putmhead dev m s)" "kept s (mountfree dev ms s)"
  by (simp_all add: cclose_def cnameclose_def putmhead_def mountfree_def kept_release)

lemma keptD:
  assumes "kept s s'"
  shows "length (chans s') = length (chans s)" "length (cnames s') = length (cnames s)"
    "length (mheads s') = length (mheads s)" "pgrps s' = pgrps s" "fgrps s' = fgrps s" "mountid s' = mountid s"
    "ident (chans s' ! c) = ident (chans s ! c)" "c_mflag (chans s' ! c) = c_mflag (chans s ! c)"
    "c_type (chans s' ! c) = c_type (chans s ! c)" "c_dev (chans s' ! c) = c_dev (chans s ! c)"
    "c_qid (chans s' ! c) = c_qid (chans s ! c)"
    "\<not> is_free (chans s' ! c) \<Longrightarrow> c_name (chans s' ! c) = c_name (chans s ! c)"
    "\<not> is_free (chans s' ! c) \<Longrightarrow> c_umh (chans s' ! c) = c_umh (chans s ! c)"
    "\<not> is_free (chans s' ! c) \<Longrightarrow> c_mchan (chans s' ! c) = c_mchan (chans s ! c)"
    "\<not> is_free (chans s' ! c) \<Longrightarrow> c_flag (chans s' ! c) = c_flag (chans s ! c)"
    "n_s (cnames s' ! n) = n_s (cnames s ! n)"
    "\<not> n_free (cnames s' ! n) \<Longrightarrow> n_mtpt (cnames s' ! n) = n_mtpt (cnames s ! n)"
    "mh_from (mheads s' ! m) = mh_from (mheads s ! m)"
    "\<not> mh_free (mheads s' ! m) \<Longrightarrow> mh_mount (mheads s' ! m) = mh_mount (mheads s ! m)"
  using assms unfolding kept_def kept_chan_def kept_name_def kept_head_def ident_def by auto

lemma tot_mono:
  "length ys = length xs \<Longrightarrow> (\<And>i. i < length xs \<Longrightarrow> f (ys ! i) \<subseteq># f (xs ! i)) \<Longrightarrow> tot f ys \<subseteq># tot f xs"
proof (induction xs arbitrary: ys)
  case (Cons x xs)
  then obtain y zs where ys: "ys = y # zs" by (cases ys) auto
  have "f y \<subseteq># f x" using Cons(3) [of 0] ys by simp
  moreover have "tot f zs \<subseteq># tot f xs" using Cons(1) [of zs] Cons(2) Cons(3) [of "Suc _"] ys by simp
  ultimately show ?case by (simp add: ys subset_mset.add_mono)
qed simp

text \<open>Closing takes references out of the store and puts none there.\<close>

lemma kept_own:
  assumes "kept s s'"
  shows "nsC s' \<subseteq># nsC s" and "ownC s' \<subseteq># ownC s"
proof -
  have "tot chanC (chans s') \<subseteq># tot chanC (chans s)" "tot nameC (cnames s') \<subseteq># tot nameC (cnames s)"
    "tot headC (mheads s') \<subseteq># tot headC (mheads s)"
    using assms by (auto simp: kept_def kept_chan_def kept_name_def kept_head_def intro!: tot_mono)
  then show "nsC s' \<subseteq># nsC s" "ownC s' \<subseteq># ownC s"
    using assms by (simp_all add: kept_def nsC_def ownC_def subset_mset.add_mono)
qed

text \<open>A head with mounts is linked, so closing does not free it: the mounts of every head stay.\<close>

lemma kept_mounts:
  assumes "kept s s'" and "counted s H" and "counted s' H'" and "hL H' = hL H" and "m < length (mheads s)"
  shows "mh_mount (mheads s' ! m) = mh_mount (mheads s ! m)"
proof (cases "mh_free (mheads s' ! m)")
  case True
  have l: "links s' = links s" using keptD(4) [OF assms(1)] by (simp add: links_def)
  have m: "m < length (mheads s')" using keptD(3) [OF assms(1)] assms(5) by simp
  have "m \<notin># ownM s' + hM H' + hL H'"
    using True counted_liveM [OF assms(3)] by blast
  then have n: "m \<notin># links s' + hL H'" by (auto simp: ownM_def)
  then have "mh_mount (mheads s' ! m) = []" using countedD(6) [OF assms(3) m] by blast
  moreover have "mh_mount (mheads s ! m) = []" using countedD(6) [OF assms(2,5)] n l assms(4) by auto
  ultimately show ?thesis by simp
qed (use keptD(19) [OF assms(1)] in blast)

section \<open>What an operation leaves alone\<close>

text \<open>
  \<open>steady H s s'\<close>: the tables are the same, and so are the channels that \<open>H\<close> holds, the mount table
  refers to or a process group has as its directories, the names that \<open>H\<close> holds or such a channel has, and the files of the channels in
  the slots of those names. An operation that is given references beyond \<open>H\<close> and changes nothing else
  satisfies it.
\<close>

definition same_chan :: "chan \<Rightarrow> chan \<Rightarrow> bool" where
  "same_chan x y \<longleftrightarrow> ident y = ident x \<and> c_name y = c_name x \<and> c_umh y = c_umh x \<and> c_flag y = c_flag x"

definition anchors :: "held \<Rightarrow> 'd kst \<Rightarrow> nat multiset" where
  "anchors H s = hC H + tot headC (mheads s) + tot pgrpC (pgrps s)"

definition known :: "held \<Rightarrow> 'd kst \<Rightarrow> nat \<Rightarrow> bool" where
  "known H s n \<longleftrightarrow> n \<in># hN H \<or> (\<exists>c\<in>#anchors H s. c_name (chans s ! c) = Some n)"

definition steady :: "held \<Rightarrow> 'd kst \<Rightarrow> 'd kst \<Rightarrow> bool" where
  "steady H s s' \<longleftrightarrow>
     pgrps s' = pgrps s \<and> fgrps s' = fgrps s \<and> mountid s' = mountid s \<and>
     length (mheads s') = length (mheads s) \<and>
     (\<forall>m<length (mheads s). mh_from (mheads s' ! m) = mh_from (mheads s ! m)
        \<and> mh_mount (mheads s' ! m) = mh_mount (mheads s ! m)) \<and>
     (\<forall>c\<in>#anchors H s. same_chan (chans s ! c) (chans s' ! c)) \<and>
     (\<forall>n. known H s n \<longrightarrow> n_s (cnames s' ! n) = n_s (cnames s ! n) \<and> n_mtpt (cnames s' ! n) = n_mtpt (cnames s ! n)
        \<and> (\<forall>c\<in>#nameC (cnames s ! n). ident (chans s' ! c) = ident (chans s ! c)))"

lemma anchors_held: "c \<in># hC H \<Longrightarrow> c \<in># anchors H s" "n \<in># hN H \<Longrightarrow> known H s n"
  by (simp_all add: anchors_def known_def)

lemma anchors_own: "c \<in># anchors H s \<Longrightarrow> c \<in># ownC s + hC H"
  by (auto simp: anchors_def ownC_def nsC_def)

lemma known_own:
  assumes "counted s H'" and "hC H \<subseteq># hC H'" and "hN H \<subseteq># hN H'" and "known H s n"
  shows "n \<in># ownN s + hN H" and "n < length (cnames s)"
proof -
  show 1: "n \<in># ownN s + hN H"
  proof (cases "n \<in># hN H")
    case False
    then obtain c where c: "c \<in># anchors H s" "c_name (chans s ! c) = Some n" using assms(4) by (auto simp: known_def)
    have "c \<in># ownC s + hC H'" using anchors_own [OF c(1)] assms(2) by (auto dest: mset_subset_eqD)
    then have "c < length (chans s)" "\<not> is_free (chans s ! c)" using chanrc.held_live countedD(2) [OF assms(1)] by blast+
    then show ?thesis using tot_in [of c "chans s" chanN] c(2) by (auto simp: ownN_def chanN_def dest: mset_subset_eqD)
  qed simp
  then have "n \<in># ownN s + hN H'" using assms(3) by (auto dest: mset_subset_eqD)
  then show "n < length (cnames s)" using namerc.held_live countedD(3) [OF assms(1)] by blast
qed

lemma known_slot:
  assumes "counted s H'" and "hC H \<subseteq># hC H'" and "hN H \<subseteq># hN H'" and "known H s n" and "c \<in># nameC (cnames s ! n)"
  shows "c \<in># nsC s" and "c \<in># ownC s"
  using known_own(2) [OF assms(1-4)] assms(5) tot_in [of n "cnames s" nameC]
  by (auto simp: ownC_def nsC_def dest: mset_subset_eqD)

lemma steady_refl [simp]: "steady H s s"
  by (simp add: steady_def same_chan_def)

lemma tot_cong: "length ys = length xs \<Longrightarrow> (\<And>i. i < length xs \<Longrightarrow> f (ys ! i) = f (xs ! i)) \<Longrightarrow> tot f ys = tot f xs"
  unfolding tot_def by (rule arg_cong [where f = sum_list], rule nth_equalityI) simp_all

lemma steady_anchors:
  assumes "steady H s s'"
  shows "anchors K s' = anchors K s" and "known H s n \<Longrightarrow> known H s' n"
proof -
  have "tot headC (mheads s') = tot headC (mheads s)"
    by (rule tot_cong) (use assms in \<open>simp_all add: steady_def headC_def\<close>)
  then show a: "anchors K s' = anchors K s" for K using assms by (simp add: anchors_def steady_def)
  show "known H s n \<Longrightarrow> known H s' n"
    using assms a unfolding known_def steady_def same_chan_def by auto
qed

lemma steady_trans:
  assumes "steady H s t" and "steady H t u" shows "steady H s u"
proof -
  note a = steady_anchors [OF assms(1)]
  have n: "n_s (cnames u ! n) = n_s (cnames s ! n) \<and> n_mtpt (cnames u ! n) = n_mtpt (cnames s ! n)
      \<and> (\<forall>c\<in>#nameC (cnames s ! n). ident (chans u ! c) = ident (chans s ! c))" if k: "known H s n" for n
  proof -
    have "n_mtpt (cnames t ! n) = n_mtpt (cnames s ! n)" "n_s (cnames t ! n) = n_s (cnames s ! n)"
      "\<forall>c\<in>#nameC (cnames s ! n). ident (chans t ! c) = ident (chans s ! c)"
      using assms(1) k unfolding steady_def by blast+
    moreover have "n_mtpt (cnames u ! n) = n_mtpt (cnames t ! n)" "n_s (cnames u ! n) = n_s (cnames t ! n)"
      "\<forall>c\<in>#nameC (cnames t ! n). ident (chans u ! c) = ident (chans t ! c)"
      using assms(2) a(2) [OF k] unfolding steady_def by blast+
    ultimately show ?thesis by (simp add: nameC_def)
  qed
  then show ?thesis using assms a(1) [of H] unfolding steady_def same_chan_def by simp
qed

lemma steady_mono:
  "steady (addC m H) s t \<Longrightarrow> steady H s t" "steady (addN m H) s t \<Longrightarrow> steady H s t"
  "steady (addM m H) s t \<Longrightarrow> steady H s t" "steady (addL m H) s t \<Longrightarrow> steady H s t"
  unfolding steady_def known_def anchors_def by auto

lemma steadyD:
  assumes "steady H s s'"
  shows "pgrps s' = pgrps s" "fgrps s' = fgrps s" "mountid s' = mountid s"
    "length (mheads s') = length (mheads s)"
    "m < length (mheads s) \<Longrightarrow> mh_from (mheads s' ! m) = mh_from (mheads s ! m)"
    "m < length (mheads s) \<Longrightarrow> mh_mount (mheads s' ! m) = mh_mount (mheads s ! m)"
    "c \<in># hC H \<Longrightarrow> ident (chans s' ! c) = ident (chans s ! c)"
    "c \<in># hC H \<Longrightarrow> c_name (chans s' ! c) = c_name (chans s ! c)"
    "c \<in># hC H \<Longrightarrow> c_umh (chans s' ! c) = c_umh (chans s ! c)"
    "c \<in># hC H \<Longrightarrow> c_flag (chans s' ! c) = c_flag (chans s ! c)"
    "n \<in># hN H \<Longrightarrow> n_s (cnames s' ! n) = n_s (cnames s ! n)"
    "n \<in># hN H \<Longrightarrow> n_mtpt (cnames s' ! n) = n_mtpt (cnames s ! n)"
    "n \<in># hN H \<Longrightarrow> c \<in># nameC (cnames s ! n) \<Longrightarrow> ident (chans s' ! c) = ident (chans s ! c)"
  using assms unfolding steady_def same_chan_def by (simp_all add: anchors_held) (meson anchors_held(2))

lemma steady_anchorD:
  assumes "steady H s s'" and "c \<in># anchors H s"
  shows "ident (chans s' ! c) = ident (chans s ! c)" "c_name (chans s' ! c) = c_name (chans s ! c)"
    "c_flag (chans s' ! c) = c_flag (chans s ! c)"
    "c_name (chans s ! c) = Some n \<Longrightarrow> n_mtpt (cnames s' ! n) = n_mtpt (cnames s ! n)"
    "c_name (chans s ! c) = Some n \<Longrightarrow> x \<in># nameC (cnames s ! n) \<Longrightarrow> ident (chans s' ! x) = ident (chans s ! x)"
  using assms unfolding steady_def same_chan_def known_def by blast+

lemma kept_steady:
  assumes "kept s s'" and "counted s (addC a (addN b (addM d H)))" and "counted s' H"
  shows "steady H s s'"
proof -
  have m: "mh_mount (mheads s' ! m) = mh_mount (mheads s ! m)" if "m < length (mheads s)" for m
    using kept_mounts [OF assms(1,2,3) _ that] by simp
  have "tot headC (mheads s') = tot headC (mheads s)"
    by (rule tot_cong) (use keptD(3,18) [OF assms(1)] m in \<open>simp_all add: headC_def\<close>)
  then have an: "anchors H s' = anchors H s" by (simp add: anchors_def keptD(4) [OF assms(1)])
  have c: "same_chan (chans s ! c) (chans s' ! c)" if "c \<in># anchors H s" for c
    using counted_liveC [OF assms(3), of c] anchors_own [of c H s'] that an keptD [OF assms(1)] by (simp add: same_chan_def)
  have n: "\<not> n_free (cnames s' ! n)" if "known H s n" for n
  proof -
    have "known H s' n" using that c an by (auto simp: known_def same_chan_def)
    then show ?thesis using known_own(1) [OF assms(3), of H n] counted_liveN [OF assms(3), of n] by simp
  qed
  show ?thesis
    unfolding steady_def using keptD(1-7,16-18) [OF assms(1)] keptD(17) [OF assms(1) n] m c by simp
qed

lemma closes_steady:
  "counted s (addC (opt_ms c) H) \<Longrightarrow> steady H s (cclose dev c s)"
  "counted s (addN (opt_ms n) H) \<Longrightarrow> steady H s (cnameclose dev n s)"
  "counted s (addM (opt_ms m) H) \<Longrightarrow> steady H s (putmhead dev m s)"
  by (rule kept_steady [where a = "opt_ms c" and b = "{#}" and d = "{#}"], simp_all add: cclose_counted)
    (rule kept_steady [where a = "{#}" and b = "opt_ms n" and d = "{#}"], simp_all add: cnameclose_counted,
     rule kept_steady [where a = "{#}" and b = "{#}" and d = "opt_ms m"], simp_all add: putmhead_counted)

lemma incref_steady [simp]:
  "steady H s (incref_chan c s)" "steady H s (incref_name n s)" "steady H s (incref_mhead m s)"
  by (auto simp: incref_is_bump bump_chan_def bump_name_def bump_mhead_def steady_def upd_defs nth_upd_all
      same_chan_def ident_def)

section \<open>Cloning a channel\<close>

lemma steady_newchan:
  assumes "counted s H" and "newchan s = (c, s')"
  shows "steady H s s'"
proof -
  note n = newchan_counted [OF assms]
  have k: "chans s' ! i = chans s ! i" if "i \<in># ownC s + hC H" for i
    using counted_liveC [OF assms(1) that] n(3) n(5) [of i] that by blast
  have "i \<in># ownC s" if "i \<in># nameC (cnames s ! m)" "known H s m" for i m
    using known_slot(2) [OF assms(1) _ _ that(2,1)] by simp
  with k n(6) show ?thesis using anchors_own [of _ H s] by (auto simp: steady_def same_chan_def)
qed

lemma is_free_devclone [simp]: "is_free (devclone_init x nc) = is_free nc"
  by (simp add: is_free_def devclone_init_def)

lemma devclone_counted:
  assumes "counted s H" and "c \<in># ownC s + hC H" and "\<not> is_open (chans s ! c)"
    and "devclone c s = (nc, s')"
  shows "counted s' (addC {#nc#} H)" and "steady H s s'" and "nc \<notin># ownC s + hC H" and "nc < length (chans s')"
    and "c_ref (chans s' ! nc) = 1 \<and> \<not> is_free (chans s' ! nc) \<and> c_umh (chans s' ! nc) = None
      \<and> c_mchan (chans s' ! nc) = None \<and> c_umc (chans s' ! nc) = None \<and> c_name (chans s' ! nc) = None
      \<and> c_flag (chans s' ! nc) = 0 \<and> ident (chans s' ! nc) = ident (chans s ! c)
      \<and> c_mflag (chans s' ! nc) = c_mflag (chans s ! c)"
    and "ownC s' = ownC s" "ownN s' = ownN s" "ownM s' = ownM s" "links s' = links s" "nsC s' = nsC s"
    and "\<And>i. i \<in># ownC s + hC H \<Longrightarrow> chans s' ! i = chans s ! i" and "cnames s' = cnames s" and "mheads s' = mheads s"
    and "dst s' = dst s"
proof -
  obtain s1 where n: "newchan s = (nc, s1)" and s': "s' = upd_chan nc (devclone_init (chans s ! c)) s1"
    using assms(3,4) by (auto simp: devclone_def is_open_def split: prod.splits)
  note r = newchan_counted [OF assms(1) n]
  have "counted s' (addC {#nc#} H)"
    unfolding s'
    using r(3,4,7) nsC_own [of nc s1] nsC_own [of nc s]
    by (intro upd_chan_counted [OF r(1)]) (auto simp: devclone_init_def is_free_def Let_def)
  then show "counted s' (addC {#nc#} H)" .
  have st: "steady H s s1" using assms(1) n by (rule steady_newchan)
  have ne: "i \<noteq> nc" if "i \<in># ownC s + hC H" for i using that r(3) by blast
  have sl: "i \<in># ownC s" if "i \<in># nameC (cnames s ! m)" "known H s m" for i m
    using known_slot(2) [OF assms(1) _ _ that(2,1)] by simp
  have i: "i < length (chans s)" if "i \<in># ownC s + hC H" for i using counted_liveC [OF assms(1) that] by blast
  then have same: "chans s' ! i = chans s ! i" if "i \<in># ownC s + hC H" for i
    using r(5) [of i] ne [OF that] that by (simp add: s' upd_nth)
  then show "\<And>i. i \<in># ownC s + hC H \<Longrightarrow> chans s' ! i = chans s ! i" .
  show "steady H s s'" using same sl r(6) anchors_own [of _ H s] by (auto simp: steady_def same_chan_def s')
  show "nc \<notin># ownC s + hC H" by (rule r(3))
  show "nc < length (chans s')" using r(2) by (simp add: s')
  show "c_ref (chans s' ! nc) = 1 \<and> \<not> is_free (chans s' ! nc) \<and> c_umh (chans s' ! nc) = None
      \<and> c_mchan (chans s' ! nc) = None \<and> c_umc (chans s' ! nc) = None \<and> c_name (chans s' ! nc) = None
      \<and> c_flag (chans s' ! nc) = 0 \<and> ident (chans s' ! nc) = ident (chans s ! c)
      \<and> c_mflag (chans s' ! nc) = c_mflag (chans s ! c)"
    using r(2,4) by (simp add: s' upd_nth) (simp add: devclone_init_def ident_def is_free_def)
  have "chanC (devclone_init (chans s ! c) (chans s1 ! nc)) = chanC (chans s1 ! nc)"
    "chanN (devclone_init (chans s ! c) (chans s1 ! nc)) = chanN (chans s1 ! nc)"
    "chanM (devclone_init (chans s ! c) (chans s1 ! nc)) = chanM (chans s1 ! nc)"
    using r(4) by (auto simp: chanC_def chanN_def chanM_def devclone_init_def is_free_def)
  then show "ownC s' = ownC s" "ownN s' = ownN s" "ownM s' = ownM s" "links s' = links s" "nsC s' = nsC s"
    using r(7) by (simp_all add: s' own_upd_chan_same)
  show "cnames s' = cnames s" "mheads s' = mheads s" "dst s' = dst s" using r(6) by (simp_all add: s' upd_chan_def)
qed

lemma ownN_same: "chanN (f (chans s ! c)) = chanN (chans s ! c) \<Longrightarrow> ownN (upd_chan c f s) = ownN s"
  by (simp add: ownN_def upd_chan_def tot_upd_same)

lemma upd_chan_comp: "c < length (chans s) \<Longrightarrow> upd_chan c f (upd_chan c g s) = upd_chan c (\<lambda>x. f (g x)) s"
  by (simp add: upd_chan_def)

lemma sub_left: "A \<subseteq># B \<Longrightarrow> A \<subseteq># B + (C :: nat multiset)"
  by (rule subset_mset.order_trans [OF _ mset_subset_eq_add_left])

lemma held_slot: "counted s H \<Longrightarrow> n \<in># hN H \<Longrightarrow> i \<in># nameC (cnames s ! n) \<Longrightarrow> i \<in># nsC s \<and> i \<in># ownC s"
  using counted_liveN [of s H n] tot_in [of n "cnames s" nameC]
  by (auto simp: ownC_def nsC_def dest: mset_subset_eqD)

lemma steady_chans:
  assumes "pgrps s' = pgrps s" "fgrps s' = fgrps s" "mountid s' = mountid s" "mheads s' = mheads s"
    and "cnames s' = cnames s" and "\<And>i. i \<noteq> nc \<Longrightarrow> chans s' ! i = chans s ! i" and "nc \<notin># anchors H s"
    and "\<And>n. known H s n \<Longrightarrow> nc \<in># nameC (cnames s ! n) \<Longrightarrow> ident (chans s' ! nc) = ident (chans s ! nc)"
  shows "steady H s s'"
proof -
  have "ident (chans s' ! i) = ident (chans s ! i)" if "known H s n" "i \<in># nameC (cnames s ! n)" for n i
    using assms(6) [of i] assms(8) [of n] that by (cases "i = nc") auto
  moreover have "same_chan (chans s ! i) (chans s' ! i)" if "i \<in># anchors H s" for i
    using assms(6) [of i] assms(7) that by (cases "i = nc") (auto simp: same_chan_def)
  ultimately show ?thesis using assms(1-5) by (simp add: steady_def)
qed

lemma anchors_ns: "c \<in># anchors H s \<Longrightarrow> c \<in># nsC s + hC H"
  by (auto simp: anchors_def nsC_def)

lemma steady_fresh:
  assumes "counted s H'" and "hC H \<subseteq># hC H'" and "hN H \<subseteq># hN H'" and "nc \<notin># nsC s + hC H"
    and "pgrps s' = pgrps s" "fgrps s' = fgrps s" "mountid s' = mountid s" "mheads s' = mheads s"
    and "cnames s' = cnames s" and "\<And>i. i \<noteq> nc \<Longrightarrow> chans s' ! i = chans s ! i"
  shows "steady H s s'"
  using assms(5-10) anchors_ns [of nc H s] known_slot(1) [OF assms(1-3), of _ nc] assms(4)
  by (intro steady_chans [where nc = nc]) auto

lemma incref_opt_counted:
  assumes "counted s H" and "opt_ms x \<subseteq># ownC s + hC H"
  shows "counted (incref_opt x s) (addC (opt_ms x) H)" and "steady H s (incref_opt x s)"
  using assms by (auto simp: incref_opt_def intro!: incref_chan_counted split: option.splits)

lemma incref_name_opt_counted:
  assumes "counted s H" and "opt_ms x \<subseteq># ownN s + hN H"
  shows "counted (incref_name_opt x s) (addN (opt_ms x) H)" and "steady H s (incref_name_opt x s)"
  using assms by (auto simp: incref_name_opt_def intro!: incref_name_counted split: option.splits)

lemma incref_opt_frame [simp]:
  "ownC (incref_opt x s) = ownC s" "ownN (incref_opt x s) = ownN s" "ownM (incref_opt x s) = ownM s"
  "links (incref_opt x s) = links s" "nsC (incref_opt x s) = nsC s" "length (chans (incref_opt x s)) = length (chans s)"
  "cnames (incref_opt x s) = cnames s" "mheads (incref_opt x s) = mheads s" "pgrps (incref_opt x s) = pgrps s"
  "is_free (chans (incref_opt x s) ! i) = is_free (chans s ! i)"
  "ident (chans (incref_opt x s) ! i) = ident (chans s ! i)"
  "c_umh (chans (incref_opt x s) ! i) = c_umh (chans s ! i)"
  "c_umc (chans (incref_opt x s) ! i) = c_umc (chans s ! i)"
  "c_mchan (chans (incref_opt x s) ! i) = c_mchan (chans s ! i)"
  "c_name (chans (incref_opt x s) ! i) = c_name (chans s ! i)"
  "c_flag (chans (incref_opt x s) ! i) = c_flag (chans s ! i)"
  "c_mflag (chans (incref_opt x s) ! i) = c_mflag (chans s ! i)"
  by (auto simp: incref_opt_def incref_is_bump bump_chan_def upd_chan_def nth_upd_all ident_def is_free_def
      split: option.split)
    (simp_all add: ownC_def ownN_def ownM_def links_def nsC_def tot_upd_same chanC_def chanN_def chanM_def is_free_def)

lemma incref_opt_ref:
  "x \<noteq> Some i \<Longrightarrow> c_ref (chans (incref_opt x s) ! i) = c_ref (chans s ! i)"
  by (auto simp: incref_opt_def incref_is_bump bump_chan_def upd_chan_def nth_upd_all split: option.split)

text \<open>The facts a new clone satisfies.\<close>

definition fresh_clone :: "'d kst \<Rightarrow> nat \<Rightarrow> nat \<Rightarrow> 'd kst \<Rightarrow> bool" where
  "fresh_clone s c nc s' \<longleftrightarrow> nc < length (chans s') \<and> \<not> is_free (chans s' ! nc) \<and> c_ref (chans s' ! nc) = 1
     \<and> c_umh (chans s' ! nc) = None \<and> c_flag (chans s' ! nc) = 0
     \<and> c_type (chans s' ! nc) = c_type (chans s ! c) \<and> c_dev (chans s' ! nc) = c_dev (chans s ! c)"

lemma chan_owned:
  assumes "counted s H" and "c \<in># ownC s + hC H"
  shows "opt_ms (c_mchan (chans s ! c)) \<subseteq># ownC s" and "opt_ms (c_name (chans s ! c)) \<subseteq># ownN s"
    and "opt_ms (c_umh (chans s ! c)) \<subseteq># ownM s"
proof -
  have c: "c < length (chans s)" "\<not> is_free (chans s ! c)" using counted_liveC [OF assms] by blast+
  have "chanC (chans s ! c) \<subseteq># ownC s" "chanN (chans s ! c) \<subseteq># ownN s" "chanM (chans s ! c) \<subseteq># ownM s"
    using tot_in [OF c(1), of chanC] tot_in [OF c(1), of chanN] tot_in [OF c(1), of chanM]
    by (simp_all add: ownC_def ownN_def ownM_def sub_left)
  then show "opt_ms (c_mchan (chans s ! c)) \<subseteq># ownC s" "opt_ms (c_name (chans s ! c)) \<subseteq># ownN s"
    "opt_ms (c_umh (chans s ! c)) \<subseteq># ownM s"
    using c(2) by (auto simp: chanC_def chanN_def chanM_def intro: subset_mset.order_trans [rotated])
qed

lemma walkdev_counted:
  assumes "counted s H" and "c \<in># ownC s + hC H" and "\<not> is_open (chans s ! c)"
    and "walkdev dev c names s = (Some (qids, Some nc), s')"
  shows "counted s' (addC {#nc#} H)" and "steady H s s'" and "fresh_clone s c nc s'"
    and "nc \<notin># ownC s + hC H" and "c_name (chans s' ! nc) = None" and "nc \<notin># nsC s'"
    and "c_qid (chans s' ! nc) = (if qids = [] then c_qid (chans s ! c) else last qids)"
    and "ownN s' = ownN s" and "cnames s' = cnames s" and "c_mflag (chans s' ! nc) = c_mflag (chans s ! c)"
    and "mheads s' = mheads s"
proof -
  let ?m = "c_mchan (chans s ! c)" and ?q = "if qids = [] then c_qid (chans s ! c) else last qids"
  obtain s1 where dc: "devclone c s = (nc, s1)"
    and s': "s' = upd_chan nc (\<lambda>x. x\<lparr>c_qid := ?q, c_mchan := ?m\<rparr>) (incref_opt ?m s1)"
    using assms(4) by (cases rule: walkdev_cases) simp_all
  note d = devclone_counted [OF assms(1-3) dc]
  have m: "opt_ms ?m \<subseteq># ownC s1 + hC (addC {#nc#} H)"
    using sub_left [OF chan_owned(1) [OF assms(1,2)]] d(6) by (simp only:)
  define s2 where "s2 = incref_opt ?m s1"
  have c2: "counted s2 (addC (opt_ms ?m) (addC {#nc#} H))"
    unfolding s2_def by (rule incref_opt_counted(1) [OF d(1) m])
  have l: "nc < length (chans s2)" "\<not> is_free (chans s2 ! nc)" using d(4,5) by (simp_all add: s2_def)
  define s3 where "s3 = upd_chan nc (\<lambda>x. x\<lparr>c_mchan := ?m\<rparr>) s2"
  have "c_mchan (chans s2 ! nc) = None" using d(5) by (simp add: s2_def)
  then have c3: "counted s3 (addC {#nc#} H)"
    using set_mchan_counted [OF c2 l] by (simp add: s3_def)
  have fe: "(\<lambda>x. x\<lparr>c_qid := ?q, c_mchan := ?m\<rparr>) = (\<lambda>x. x\<lparr>c_mchan := ?m, c_qid := ?q\<rparr>)"
    by (rule ext) simp
  have e: "s' = upd_chan nc (\<lambda>x. x\<lparr>c_qid := ?q\<rparr>) s3"
    using l(1) unfolding s3_def by (subst upd_chan_comp) (simp_all only: s' s2_def fe)
  show "counted s' (addC {#nc#} H)"
    unfolding e by (rule upd_chan_counted [OF c3]) (simp_all add: is_free_def is_open_def Let_def)
  have nm: "nc \<notin># opt_ms ?m" using chan_owned(1) [OF assms(1,2)] d(3) by (auto dest: mset_subset_eqD)
  show "nc \<notin># ownC s + hC H" by (rule d(3))
  show "fresh_clone s c nc s'"
    using d(4,5) nm l incref_opt_ref [of ?m nc s1]
    by (cases ?m) (auto simp: fresh_clone_def s' upd_nth ident_def is_free_def incref_opt_def
      incref_is_bump bump_chan_def upd_chan_def nth_upd_all)
  show "c_name (chans s' ! nc) = None" "c_qid (chans s' ! nc) = ?q"
    "c_mflag (chans s' ! nc) = c_mflag (chans s ! c)"
    using d(4,5) by (simp_all add: s' upd_nth)
  show "ownN s' = ownN s"
    using d(4,7) by (simp add: s' ownN_same chanN_def is_free_def)
  show "cnames s' = cnames s" "mheads s' = mheads s" using d(12,13) by (simp_all add: s')
  show "nc \<notin># nsC s'" using d(3,10) nsC_own [of nc s] by (auto simp: s')
  have "steady H s s2" using steady_trans [OF d(2) incref_opt_counted(2) [OF d(1) m, THEN steady_mono(1)]]
    by (simp add: s2_def)
  moreover have "steady H s2 s'"
  proof (rule steady_fresh [where nc = nc, OF c2])
    show "chans s' ! i = chans s2 ! i" if "i \<noteq> nc" for i
      using that by (simp add: s' s2_def upd_chan_def nth_upd_all)
    show "nc \<notin># nsC s2 + hC H" using d(3,10) nsC_own [of nc s] by (auto simp: s2_def)
  qed (simp_all add: s' s2_def upd_chan_def)
  ultimately show "steady H s s'" by (rule steady_trans)
qed

lemma walkdev_none:
  "walkdev dev c names s = (None, s') \<Longrightarrow> s' = s"
  "walkdev dev c names s = (Some (qids, None), s') \<Longrightarrow> s' = s"
  by (erule walkdev_cases; simp)+

lemma cclone_error: "cclone dev c s = (Inl e, s') \<Longrightarrow> walkdev dev c [] s = (None, s') \<and> e = Eclone"
  by (auto simp: cclone_def split: option.splits prod.splits) (erule walkdev_cases; simp)+

lemma cclone_counted:
  assumes "counted s H" and "c \<in># ownC s + hC H" and "\<not> is_open (chans s ! c)"
    and "cclone dev c s = (r, s')"
  shows "steady H s s'"
    and "r = Inl e \<Longrightarrow> s' = s"
    and "r = Inr nc \<Longrightarrow> counted s' (addC {#nc#} H) \<and> fresh_clone s c nc s' \<and> nc \<notin># ownC s + hC H \<and> nc \<notin># nsC s'
      \<and> c_name (chans s' ! nc) = c_name (chans s ! c)"
proof -
  have "steady H s s' \<and> (\<forall>e. r = Inl e \<longrightarrow> s' = s) \<and> (\<forall>nc. r = Inr nc \<longrightarrow> counted s' (addC {#nc#} H)
    \<and> fresh_clone s c nc s' \<and> nc \<notin># ownC s + hC H \<and> nc \<notin># nsC s' \<and> c_name (chans s' ! nc) = c_name (chans s ! c))"
  proof (cases r)
    case (Inl e)
    with assms(4) cclone_error have "walkdev dev c [] s = (None, s')" by blast
    then have "s' = s" by (rule walkdev_none)
    with Inl show ?thesis by simp
  next
    case (Inr nc)
    let ?n = "c_name (chans s ! c)" and ?f = "c_mflag (chans s ! c)"
    obtain qids s1 where w: "walkdev dev c [] s = (Some (qids, Some nc), s1)"
      and s': "s' = incref_name_opt ?n (upd_chan nc (\<lambda>x. x\<lparr>c_name := ?n, c_mflag := ?f\<rparr>) s1)"
      using assms(4) Inr by (auto simp: cclone_def split: option.splits prod.splits)
    note d = walkdev_counted [OF assms(1-3) w]
    have l: "nc < length (chans s1)" "\<not> is_free (chans s1 ! nc)" "nc \<notin># nsC s1"
      using d(3,6) by (simp_all add: fresh_clone_def)
    define s2 where "s2 = incref_name_opt ?n s1"
    have n: "opt_ms ?n \<subseteq># ownN s1 + hN (addC {#nc#} H)"
      using sub_left [OF chan_owned(2) [OF assms(1,2)]] d(8) by (simp only:)
    have c2: "counted s2 (addN (opt_ms ?n) (addC {#nc#} H))"
      unfolding s2_def by (rule incref_name_opt_counted(1) [OF d(1) n])
    have ch: "chans s2 = chans s1" "nsC s2 = nsC s1" "ownC s2 = ownC s1"
      by (simp_all add: s2_def incref_name_opt_def incref_is_bump split: option.split)
    have c3: "counted (upd_chan nc (\<lambda>x. x\<lparr>c_name := ?n\<rparr>) s2) (addC {#nc#} H)"
      using set_name_field_counted [OF c2, of nc] l d(5) by (simp add: ch)
    have "counted (upd_chan nc (\<lambda>x. x\<lparr>c_mflag := ?f\<rparr>) (upd_chan nc (\<lambda>x. x\<lparr>c_name := ?n\<rparr>) s2)) (addC {#nc#} H)"
      by (rule upd_chan_counted [OF c3]) (simp_all add: is_free_def is_open_def Let_def)
    moreover have e: "s' = upd_chan nc (\<lambda>x. x\<lparr>c_name := ?n, c_mflag := ?f\<rparr>) s2"
      by (simp add: s' s2_def incref_name_opt_def incref_name_def upd_defs split: option.split)
    ultimately have "counted s' (addC {#nc#} H)" using l(1) by (simp add: upd_chan_comp ch)
    moreover have "fresh_clone s c nc s'"
      using d(3) l by (simp add: e fresh_clone_def upd_nth ch is_free_def)
    moreover have "c_name (chans s' ! nc) = ?n" using l by (simp add: e upd_nth ch)
    moreover have "nc \<notin># nsC s'" using l by (simp add: e ch)
    moreover have "steady H s1 s'"
    proof (rule steady_trans)
      show "steady H s1 s2"
        using incref_name_opt_counted(2) [OF d(1) n, THEN steady_mono(1)] by (simp add: s2_def)
      show "steady H s2 s'"
      proof (rule steady_fresh [where nc = nc, OF c2])
        show "chans s' ! i = chans s2 ! i" if "i \<noteq> nc" for i
          using that by (simp add: e upd_chan_def nth_upd_all)
        show "nc \<notin># nsC s2 + hC H" using d(4) l(3) by (simp add: ch)
      qed (simp_all add: e upd_chan_def)
    qed
    then have "steady H s s'" by (rule steady_trans [OF d(2)])
    ultimately show ?thesis using Inr d(4) by simp
  qed
  then show "steady H s s'" "r = Inl e \<Longrightarrow> s' = s"
    "r = Inr nc \<Longrightarrow> counted s' (addC {#nc#} H) \<and> fresh_clone s c nc s' \<and> nc \<notin># ownC s + hC H \<and> nc \<notin># nsC s'
      \<and> c_name (chans s' ! nc) = c_name (chans s ! c)"
    by blast+
qed

lemma drop_umh_counted:
  assumes "counted s (addC {#c#} H)" and "c \<notin># nsC s + hC H"
  shows "counted (drop_umh dev c s) (addC {#c#} H)" and "steady H s (drop_umh dev c s)"
    and "ident (chans (drop_umh dev c s) ! c) = ident (chans s ! c)"
    and "c_name (chans (drop_umh dev c s) ! c) = c_name (chans s ! c)"
    and "c_flag (chans (drop_umh dev c s) ! c) = c_flag (chans s ! c)"
    and "c_umh (chans (drop_umh dev c s) ! c) = None"
proof -
  have l: "c < length (chans s)" "\<not> is_free (chans s ! c)" using counted_liveC [OF assms(1), of c] by simp_all
  have "counted (drop_umh dev c s) (addC {#c#} H) \<and> steady H s (drop_umh dev c s)
    \<and> ident (chans (drop_umh dev c s) ! c) = ident (chans s ! c)
    \<and> c_name (chans (drop_umh dev c s) ! c) = c_name (chans s ! c)
    \<and> c_flag (chans (drop_umh dev c s) ! c) = c_flag (chans s ! c) \<and> c_umh (chans (drop_umh dev c s) ! c) = None"
  proof (cases "c_umh (chans s ! c)")
    case None
    then show ?thesis using assms(1) by (simp add: drop_umh_def)
  next
    case (Some m)
    define t where "t = upd_chan c (\<lambda>x. x\<lparr>c_umh := None\<rparr>) s"
    have e: "drop_umh dev c s = putmhead dev (Some m) t" by (simp add: drop_umh_def Some t_def)
    have ct: "counted t (addM (opt_ms (Some m)) (addC {#c#} H))"
      using set_umh_counted [of s None "addC {#c#} H", OF _ l] assms(1) Some by (simp add: t_def)
    note p = putmhead_counted [OF ct, of dev]
    have k: "kept t (putmhead dev (Some m) t)" by simp
    have "\<not> is_free (chans (putmhead dev (Some m) t) ! c)" using counted_liveC [OF p, of c] by simp
    then have f: "c_name (chans (putmhead dev (Some m) t) ! c) = c_name (chans t ! c)"
      "c_umh (chans (putmhead dev (Some m) t) ! c) = c_umh (chans t ! c)"
      "c_flag (chans (putmhead dev (Some m) t) ! c) = c_flag (chans t ! c)"
      using keptD(12,13,15) [OF k] by blast+
    have "steady H s t"
      by (rule steady_fresh [OF assms(1) _ _ assms(2)]) (simp_all add: t_def upd_chan_def)
    then have "steady H s (putmhead dev (Some m) t)"
      by (rule steady_trans [OF _ steady_mono(1) [OF closes_steady(3) [OF ct]]])
    then show ?thesis using p f keptD(7) [OF k, of c] l
      by (simp add: e) (simp add: t_def upd_nth ident_def)
  qed
  then show "counted (drop_umh dev c s) (addC {#c#} H)" "steady H s (drop_umh dev c s)"
    "ident (chans (drop_umh dev c s) ! c) = ident (chans s ! c)"
    "c_name (chans (drop_umh dev c s) ! c) = c_name (chans s ! c)"
    "c_flag (chans (drop_umh dev c s) ! c) = c_flag (chans s ! c)"
    "c_umh (chans (drop_umh dev c s) ! c) = None" by blast+
qed

end
