(* ===== verification/RefOps.thy ===== *)
theory RefOps
  imports RefCount
begin

text \<open>
  The accounting rules of the composed operations of emu/port/chan.c: \<open>cunique\<close>, and the operations on
  path names with their stack of mount points (\<open>mtptcopy\<close>, \<open>cnamepush\<close>, \<open>cnamecross\<close>, \<open>addelem\<close>).
  Each rule says which references are consumed and handed out, that what others hold is left alone,
  and what becomes of the stack of the name.
\<close>

section \<open>A channel of our own\<close>

lemma walkdev_qids: "walkdev dev c names s = (Some (qids, x), s') \<Longrightarrow> length qids \<le> length names"
  by (erule walkdev_cases) simp_all

lemma cclone_ident:
  assumes "counted s H" and "c \<in># ownC s + hC H" and "\<not> is_open (chans s ! c)" and "cclone dev c s = (Inr nc, s')"
  shows "ident (chans s' ! nc) = ident (chans s ! c)" and "c_mflag (chans s' ! nc) = c_mflag (chans s ! c)"
proof -
  let ?n = "c_name (chans s ! c)" and ?f = "c_mflag (chans s ! c)"
  obtain qids s1 where w: "walkdev dev c [] s = (Some (qids, Some nc), s1)"
    and s': "s' = incref_name_opt ?n (upd_chan nc (\<lambda>x. x\<lparr>c_name := ?n, c_mflag := ?f\<rparr>) s1)"
    using assms(4) by (auto simp: cclone_def split: option.splits prod.splits)
  note d = walkdev_counted [OF assms(1-3) w]
  have "qids = []" using walkdev_qids [OF w] by simp
  then have "ident (chans s1 ! nc) = ident (chans s ! c)" "nc < length (chans s1)"
    using d(3,7) by (simp_all add: fresh_clone_def ident_def)
  moreover have "chans s' = chans (upd_chan nc (\<lambda>x. x\<lparr>c_name := ?n, c_mflag := ?f\<rparr>) s1)"
    by (simp add: s' incref_name_opt_def incref_is_bump split: option.split)
  ultimately show "ident (chans s' ! nc) = ident (chans s ! c)" "c_mflag (chans s' ! nc) = ?f"
    by (simp_all add: upd_nth ident_def)
qed

lemma last_refC: "counted s (addC {#c#} H) \<Longrightarrow> c \<notin># ownC s + hC H \<longleftrightarrow> c_ref (chans s ! c) = 1"
  using chanrc.last_ref [of s c "ownC s + hC H"] countedD(2) by fastforce

lemma last_refN: "counted s (addN {#n#} H) \<Longrightarrow> n \<notin># ownN s + hN H \<longleftrightarrow> n_ref (cnames s ! n) = 1"
  using namerc.last_ref [of s n "ownN s + hN H"] countedD(3) by fastforce

lemma kept_ownN:
  assumes "kept s s'" shows "ownN s' \<subseteq># ownN s"
proof -
  have "chanN (chans s' ! i) \<subseteq># chanN (chans s ! i)" for i
    using assms by (cases "is_free (chans s' ! i)") (simp_all add: kept_def kept_chan_def chanN_def)
  then show ?thesis using assms by (auto simp: ownN_def kept_def intro!: tot_mono)
qed

lemma kept_notin:
  assumes "kept s s'"
  shows "c \<notin># ownC s \<Longrightarrow> c \<notin># ownC s'" "c \<notin># nsC s \<Longrightarrow> c \<notin># nsC s'" "n \<notin># ownN s \<Longrightarrow> n \<notin># ownN s'"
  using kept_own [OF assms] kept_ownN [OF assms] by (auto dest: mset_subset_eqD)

text \<open>\<open>cunique\<close>: a channel that nobody else refers to, on the same file.\<close>

definition own_copy :: "held \<Rightarrow> 'd kst \<Rightarrow> nat \<Rightarrow> 'd kst \<Rightarrow> nat \<Rightarrow> bool" where
  "own_copy H s c s' nc \<longleftrightarrow> counted s' (addC {#nc#} H) \<and> steady H s s' \<and> nc \<notin># ownC s' + hC H \<and>
     ident (chans s' ! nc) = ident (chans s ! c) \<and> c_mflag (chans s' ! nc) = c_mflag (chans s ! c) \<and>
     c_name (chans s' ! nc) = c_name (chans s ! c) \<and> \<not> is_open (chans s' ! nc) \<and> c_umh (chans s' ! nc) = None"

lemma drop_umh_kept:
  assumes "counted s (addC {#c#} H)"
  shows "ownC (drop_umh dev c s) \<subseteq># ownC s" and "c_mflag (chans (drop_umh dev c s) ! c) = c_mflag (chans s ! c)"
proof -
  have c: "c < length (chans s)" "\<not> is_free (chans s ! c)" using counted_liveC [OF assms, of c] by simp_all
  have o: "ownC (upd_chan c (\<lambda>x. x\<lparr>c_umh := None\<rparr>) s) = ownC s"
    by (simp add: ownC_def nsC_def upd_chan_def tot_upd_same chanC_def is_free_def)
  have k: "kept (upd_chan c (\<lambda>x. x\<lparr>c_umh := None\<rparr>) s) (putmhead dev m (upd_chan c (\<lambda>x. x\<lparr>c_umh := None\<rparr>) s))" for m
    by simp
  show "ownC (drop_umh dev c s) \<subseteq># ownC s"
    using kept_own(2) [OF k] by (auto simp: drop_umh_def o split: option.split)
  show "c_mflag (chans (drop_umh dev c s) ! c) = c_mflag (chans s ! c)"
    using keptD(8) [OF k, of _ c] c by (auto simp: drop_umh_def upd_nth split: option.split)
qed

lemma drop_umh_own:
  assumes "counted s (addC {#c#} H)" and "c \<notin># ownC s + hC H" and "\<not> is_open (chans s ! c)"
  shows "own_copy H s c (drop_umh dev c s) c"
proof -
  have n: "c \<notin># nsC s + hC H" using assms(2) nsC_own [of c s] by auto
  note d = drop_umh_counted [OF assms(1) n, of dev]
  show ?thesis
    using d drop_umh_kept [OF assms(1), of dev] assms(2,3)
    by (auto simp: own_copy_def is_open_def dest: mset_subset_eqD)
qed

lemma cunique_counted:
  assumes "counted s (addC {#c#} H)" and "\<not> is_open (chans s ! c)" and "cunique dev c s = (r, s')"
  shows "r = Inl e \<Longrightarrow> s' = s" and "r = Inr nc \<Longrightarrow> own_copy H s c s' nc"
proof -
  have "case r of Inl e \<Rightarrow> s' = s | Inr nc \<Rightarrow> own_copy H s c s' nc"
  proof (cases "c_ref (chans s ! c) = 1")
    case True
    then have "r = Inr c" "s' = drop_umh dev c s" using assms(3) by (simp_all add: cunique_def)
    then show ?thesis using drop_umh_own [OF assms(1) _ assms(2)] last_refC [OF assms(1)] True by simp
  next
    case False
    obtain r1 s1 where cl: "cclone dev c s = (r1, s1)" by (cases "cclone dev c s")
    have c: "c \<in># ownC s + hC (addC {#c#} H)" by simp
    note k = cclone_counted [OF assms(1) c assms(2) cl]
    show ?thesis
    proof (cases r1)
      case (Inl e)
      then show ?thesis using assms(3) False cl k(2) [OF Inl] by (auto simp: cunique_def)
    next
      case (Inr nc)
      then have r: "r = Inr nc" "s' = drop_umh dev nc (cclose dev (Some c) s1)"
        using assms(3) False cl by (simp_all add: cunique_def)
      let ?t = "cclose dev (Some c) s1"
      note k3 = k(3) [OF Inr]
      have n: "counted s1 (addC {#c#} (addC {#nc#} H))" "fresh_clone s c nc s1" "nc \<notin># ownC s1 + hC H"
        "c_name (chans s1 ! nc) = c_name (chans s ! c)" "nc \<noteq> c"
        using k3 last_refC [of s1 nc "addC {#c#} H"] by (auto simp: add_comm ac_simps fresh_clone_def)
      note i = cclone_ident [OF assms(1) c assms(2), of dev nc s1]
      have ct: "counted ?t (addC {#nc#} H)" using n(1) cclose_counted [of s1 "Some c"] by simp
      have kp: "kept s1 ?t" by simp
      have nt: "nc \<notin># ownC ?t + hC H" using n(3) kept_notin(1) [OF kp] by simp
      have fr: "\<not> is_free (chans ?t ! nc)" using counted_liveC [OF ct, of nc] by simp
      have same: "ident (chans ?t ! nc) = ident (chans s ! c)" "c_mflag (chans ?t ! nc) = c_mflag (chans s ! c)"
        "c_name (chans ?t ! nc) = c_name (chans s ! c)" "\<not> is_open (chans ?t ! nc)"
        using keptD(7,8) [OF kp, of nc] keptD(12,15) [OF kp fr] i n(2,4) cl Inr
        by (simp_all add: is_open_def fresh_clone_def)
      have "own_copy H ?t nc s' nc" using drop_umh_own [OF ct nt same(4)] r(2) by simp
      moreover have "steady H s ?t"
        using steady_mono(1) [OF k(1)] steady_mono(1) [OF closes_steady(1) [of s1 "Some c"]] n(1)
        by (auto intro: steady_trans)
      ultimately show ?thesis using r same by (auto simp: own_copy_def intro: steady_trans)
    qed
  qed
  then show "r = Inl e \<Longrightarrow> s' = s" "r = Inr nc \<Longrightarrow> own_copy H s c s' nc" by simp_all
qed

section \<open>Rules for the operations on path names\<close>

lemma ownN_upd_name [simp]: "ownN (upd_name n f s) = ownN s"
  by (simp add: ownN_def)

text \<open>The general forms of the rules for slots, mounts and groups: \<open>a\<close> goes in and \<open>b\<close> comes out.\<close>

lemma swap_slots:
  assumes "counted s (addC a H)" and "n < length (cnames s)" and "\<not> n_free (cnames s ! n)"
    and "opts_ms (g (n_mtpt (cnames s ! n))) + b = opts_ms (n_mtpt (cnames s ! n)) + a"
    and "\<forall>c\<in>#opts_ms (g (n_mtpt (cnames s ! n))). \<not> is_open (chans s ! c)"
  shows "counted (upd_name n (\<lambda>x. x\<lparr>n_mtpt := g (n_mtpt x)\<rparr>) s) (addC b H)"
proof -
  let ?f = "\<lambda>x. x\<lparr>n_mtpt := g (n_mtpt x)\<rparr>" and ?x = "cnames s ! n"
  note d = countedD [OF assms(1)]
  note u = own_upd_name [OF assms(2), of ?f]
  have "ownC (upd_name n ?f s) + opts_ms (n_mtpt ?x) + (opts_ms (g (n_mtpt ?x)) + b)
      = ownC s + opts_ms (g (n_mtpt ?x)) + (opts_ms (n_mtpt ?x) + a)"
    using u(1) assms(4) by (simp add: nameC_def)
  then have e: "ownC (upd_name n ?f s) + (hC H + b) = ownC s + (hC H + a)" by simp
  have "namerc.ok (upd_name n ?f s) (ownN s + hN H)"
    using d(3) by (auto simp: namerc.ok_def refs_ok_def upd_nth)
  moreover have "\<not> is_open (chans s ! c)" if "c \<in># nsC (upd_name n ?f s)" for c
    using replaced [OF nsC_upd_name [OF assms(2)] that] d(9) assms(5) by (auto simp: nameC_def)
  ultimately show ?thesis using d(1-8) assms(3)
    by (intro countedI; simp only: add_sel e) (auto simp: u upd_nth split: if_splits)
qed

lemma swap_mounts:
  assumes "counted s (addC a H)" and "m < length (mheads s)" and "l \<noteq> [] \<Longrightarrow> m \<in># links s + hL H"
    and "mountsC (mh_from (mheads s ! m)) l + b = headC (mheads s ! m) + a"
    and "\<forall>c\<in>#mountsC (mh_from (mheads s ! m)) l. \<not> is_open (chans s ! c)"
  shows "counted (upd_mhead m (\<lambda>x. x\<lparr>mh_mount := l\<rparr>) s) (addC b H)"
proof -
  let ?f = "\<lambda>x. x\<lparr>mh_mount := l\<rparr>" and ?x = "mheads s ! m"
  note d = countedD [OF assms(1)]
  note u = own_upd_mhead [OF assms(2), of ?f]
  have "ownC (upd_mhead m ?f s) + headC ?x + (mountsC (mh_from ?x) l + b)
      = ownC s + mountsC (mh_from ?x) l + (headC ?x + a)"
    using u(1) assms(4) by (simp add: headC_def)
  then have e: "ownC (upd_mhead m ?f s) + (hC H + b) = ownC s + (hC H + a)" by simp
  have "headrc.ok (upd_mhead m ?f s) (ownM s + hM H + hL H)"
    using d(4) by (auto simp: headrc.ok_def refs_ok_def upd_nth)
  moreover have "\<not> is_open (chans s ! c)" if "c \<in># nsC (upd_mhead m ?f s)" for c
    using replaced [OF nsC_upd_mhead [OF assms(2)] that] d(9) assms(5) by (auto simp: headC_def)
  ultimately show ?thesis using d(1-8) assms(3)
    by (intro countedI; simp only: add_sel e) (auto simp: u upd_nth split: if_splits)
qed

lemma swap_pgrp:
  assumes "counted s (addC a (addL k H))" and "p < length (pgrps s)"
    and "pgrpC (f (pgrps s ! p)) + b = pgrpC (pgrps s ! p) + a"
    and "pgrpM (f (pgrps s ! p)) + l = pgrpM (pgrps s ! p) + k"
    and "\<forall>c\<in>#pgrpC (f (pgrps s ! p)). \<not> is_open (chans s ! c)"
  shows "counted (upd_pgrp p f s) (addC b (addL l H))"
proof -
  let ?x = "pgrps s ! p"
  note d = countedD [OF assms(1)]
  note u = own_upd_pgrp [OF assms(2), of f]
  have "ownC (upd_pgrp p f s) + pgrpC ?x + (pgrpC (f ?x) + b) = ownC s + pgrpC (f ?x) + (pgrpC ?x + a)"
    "links (upd_pgrp p f s) + pgrpM ?x + (pgrpM (f ?x) + l) = links s + pgrpM (f ?x) + (pgrpM ?x + k)"
    "ownM (upd_pgrp p f s) + pgrpM ?x + (pgrpM (f ?x) + l) = ownM s + pgrpM (f ?x) + (pgrpM ?x + k)"
    using u(1-3) assms(3,4) by simp_all
  then have e: "ownC (upd_pgrp p f s) + (hC H + b) = ownC s + (hC H + a)"
    "ownM (upd_pgrp p f s) + hM H + (hL H + l) = ownM s + hM H + (hL H + k)"
    "links (upd_pgrp p f s) + (hL H + l) = links s + (hL H + k)"
    by simp_all
  have "\<not> is_open (chans s ! c)" if "c \<in># nsC (upd_pgrp p f s)" for c
    using replaced [OF nsC_upd_pgrp [OF assms(2)] that] d(9) assms(5) by auto
  then show ?thesis using d(1-8)
    by (intro countedI; simp only: add_sel e) (auto simp: u(4))
qed

text \<open>
  A name operation takes over our reference to a name and gives one to a name. It moves no channel:
  every channel keeps its file.
\<close>

definition name_op :: "held \<Rightarrow> 'd kst \<Rightarrow> 'd kst \<Rightarrow> nat \<Rightarrow> bool" where
  "name_op H s s' n \<longleftrightarrow> counted s' (addN {#n#} H) \<and> steady H s s' \<and>
     (\<forall>c. ident (chans s' ! c) = ident (chans s ! c)) \<and> (\<forall>c. c_mflag (chans s' ! c) = c_mflag (chans s ! c)) \<and>
     length (chans s') = length (chans s) \<and> (\<forall>c. c \<in># ownC s + hC H \<or> c \<notin># ownC s' + hC H)"

lemma steady_names:
  assumes "counted s H'" and "hC H \<subseteq># hC H'" and "hN H \<subseteq># hN H'" and "n \<notin># ownN s + hN H"
    and "pgrps s' = pgrps s" "fgrps s' = fgrps s" "mountid s' = mountid s" "mheads s' = mheads s"
    and "chans s' = chans s" and "\<And>i. i \<noteq> n \<Longrightarrow> i < length (cnames s) \<Longrightarrow> cnames s' ! i = cnames s ! i"
  shows "steady H s s'"
proof -
  have "cnames s' ! i = cnames s ! i" if "known H s i" for i
    using assms(10) [of i] known_own [OF assms(1-3) that] assms(4) by (cases "i = n") auto
  then show ?thesis using assms(5-9) by (simp add: steady_def same_chan_def)
qed

lemma held_liveN: "counted s H \<Longrightarrow> i \<in># hN H \<Longrightarrow> i < length (cnames s)"
  using counted_liveN [of s H i] by simp

lemma fold_incref_counted:
  assumes "counted s H" and "set_mset (opts_ms xs) \<subseteq> set_mset (ownC s + hC H)"
  shows "counted (fold incref_opt xs s) (addC (opts_ms xs) H) \<and> steady H s (fold incref_opt xs s)"
  using assms
proof (induction xs arbitrary: s H)
  case (Cons x xs)
  have "set_mset (opt_ms x) \<subseteq> set_mset (ownC s + hC H)" using Cons(3) by (simp add: opts_ms_def)
  then have "opt_ms x \<subseteq># ownC s + hC H" by (cases x) (auto simp: opt_ms_def)
  note i = incref_opt_counted [OF Cons(2) this]
  have "set_mset (opts_ms xs) \<subseteq> set_mset (ownC (incref_opt x s) + hC (addC (opt_ms x) H))"
    using Cons(3) by (auto simp: opts_ms_def)
  note j = Cons(1) [OF i(1) this]
  from j i(2) show ?case
    by (auto simp: add_comm opts_ms_def ac_simps intro: steady_trans steady_mono)
qed (simp add: opts_ms_def)

lemma fold_incref_frame [simp]:
  "ownC (fold incref_opt xs s) = ownC s" "ownN (fold incref_opt xs s) = ownN s" "nsC (fold incref_opt xs s) = nsC s"
  "length (chans (fold incref_opt xs s)) = length (chans s)"
  "cnames (fold incref_opt xs s) = cnames s" "mheads (fold incref_opt xs s) = mheads s"
  "ident (chans (fold incref_opt xs s) ! i) = ident (chans s ! i)"
  "c_flag (chans (fold incref_opt xs s) ! i) = c_flag (chans s ! i)"
  "c_mflag (chans (fold incref_opt xs s) ! i) = c_mflag (chans s ! i)"
  by (induction xs arbitrary: s) simp_all

lemma incref_opt_upd_name: "incref_opt x (upd_name n f s) = upd_name n f (incref_opt x s)"
  by (simp add: incref_opt_def incref_is_bump bump_chan_def upd_defs split: option.split)

lemma fold_incref_upd_name: "fold incref_opt xs (upd_name n f s) = upd_name n f (fold incref_opt xs s)"
  by (induction xs arbitrary: s) (simp_all add: incref_opt_upd_name)

lemma cname_unique_counted:
  assumes "counted s (addN {#n#} H)" and "cname_unique dev n s = (n', s')"
  shows "name_op H s s' n'" and "n_mtpt (cnames s' ! n') = n_mtpt (cnames s ! n)"
    and "n_s (cnames s' ! n') = n_s (cnames s ! n)" and "n' \<notin># ownN s' + hN H"
proof -
  have n: "n < length (cnames s)" "0 < n_ref (cnames s ! n)" "\<not> n_free (cnames s ! n)"
    using counted_liveN [OF assms(1), of n] by simp_all
  have "name_op H s s' n' \<and> n_mtpt (cnames s' ! n') = n_mtpt (cnames s ! n)
    \<and> n_s (cnames s' ! n') = n_s (cnames s ! n) \<and> n' \<notin># ownN s' + hN H"
  proof (cases "n_ref (cnames s ! n) > 1")
    case False
    then have "n_ref (cnames s ! n) = 1" using n(2) by simp
    then show ?thesis using assms False last_refN [OF assms(1)] by (auto simp: cname_unique_def name_op_def)
  next
    case True
    let ?L = "n_mtpt (cnames s ! n)"
    obtain s1 where nn: "newcname (n_s (cnames s ! n)) s = (n', s1)"
      and s': "s' = cnameclose dev (Some n) (mtptcopy n' n s1)"
      using assms(2) True by (auto simp: cname_unique_def split: prod.splits)
    note r = newname_counted [OF assms(1) nn]
    have c1: "chans s1 = chans s" "pgrps s1 = pgrps s" "fgrps s1 = fgrps s" "mountid s1 = mountid s"
      "mheads s1 = mheads s" "ownC s1 = ownC s" "ownN s1 = ownN s" "nsC s1 = nsC s"
      "\<And>i. i < length (cnames s) \<Longrightarrow> cnames s1 ! i = cnames s ! i"
      using nn by (auto simp: newcname_def nth_append ownC_def ownN_def nsC_def nameC_def opts_ms_def)
    define s2 where "s2 = fold incref_opt ?L s1"
    have m: "mtptcopy n' n s1 = upd_name n' (\<lambda>x. x\<lparr>n_mtpt := ?L\<rparr>) s2"
      using c1(9) n(1) by (simp add: mtptcopy_def fold_incref_upd_name s2_def)
    have slots: "c \<in># nsC s \<and> c \<in># ownC s" if "c \<in># opts_ms ?L" for c
      using held_slot [OF assms(1), of n c] that by (simp add: nameC_def)
    let ?H1 = "addN {#n'#} (addN {#n#} H)"
    have "counted s2 (addC (opts_ms ?L) ?H1) \<and> steady ?H1 s1 s2" unfolding s2_def
      by (rule fold_incref_counted [OF r(1)]) (use slots c1(6) in auto)
    then have c2: "counted s2 (addC (opts_ms ?L) ?H1)" "steady ?H1 s1 s2" by simp_all
    have nm: "cnames s2 = cnames s1" by (simp add: s2_def)
    have l2: "n' < length (cnames s2)" "\<not> n_free (cnames s2 ! n')"
      using counted_liveN [OF c2(1), of n'] by simp_all
    have "\<not> is_open (chans s2 ! c)" if "c \<in># opts_ms ?L" for c
      using slots [OF that] countedD(9) [OF assms(1), of c] c1(1) by (simp add: s2_def is_open_def)
    then have c3: "counted (mtptcopy n' n s1) ?H1"
      using set_mtpt_counted [OF c2(1) [THEN counted_more, of "addC (opts_ms ((\<lambda>_. ?L) (n_mtpt (cnames s2 ! n')))) ?H1"] l2]
        r(3) unfolding m nm by (simp add: opts_ms_def)
    let ?t = "mtptcopy n' n s1"
    have c4: "counted s' (addN {#n'#} H)"
      unfolding s' by (rule cnameclose_counted) (use c3 in \<open>simp add: add_comm ac_simps\<close>)
    have k: "kept ?t s'" by (simp add: s')
    have ne: "n' \<noteq> n" "n' \<notin># hN H"
      using n(1) r(2) held_liveN [OF assms(1)] by auto
    have fr: "n' \<notin># ownN s" using counted_liveN [OF assms(1), of n'] r(2) by auto
    have "steady H s s1"
      using c1 r(2) ne fr by (intro steady_names [where n = n', OF assms(1)]) auto
    moreover have "steady H s1 s2" using c2(2) steady_mono(2) by blast
    moreover have "steady H s2 ?t" unfolding m
      using ne fr c1 by (intro steady_names [where n = n', OF c2(1)]) (simp_all add: upd_name_def s2_def)
    moreover have "steady H ?t s'"
      unfolding s' by (rule steady_mono(2) [OF closes_steady(2) [where H = "addN {#n'#} H"]]) (use c3 in \<open>simp add: add_comm ac_simps\<close>)
    ultimately have st: "steady H s s'" by (blast intro: steady_trans)
    have "n' \<notin># ownN ?t" using fr by (simp add: m s2_def c1)
    then have nt: "n' \<notin># ownN s'" using kept_notin(3) [OF k] by simp
    have id: "ident (chans s' ! c) = ident (chans s ! c) \<and> c_mflag (chans s' ! c) = c_mflag (chans s ! c)" for c
      using keptD(7,8) [OF k, of c] by (simp add: m s2_def c1)
    have ln: "length (chans s') = length (chans s)" using keptD(1) [OF k] by (simp add: m s2_def c1)
    have oc: "c \<in># ownC s + hC H \<or> c \<notin># ownC s' + hC H" for c
    proof -
      have "ownC ?t = ownC s + opts_ms ?L"
        using own_upd_name(1) [OF l2(1), of "\<lambda>x. x\<lparr>n_mtpt := ?L\<rparr>"] r(3)
        unfolding m nm by (simp add: nameC_def s2_def c1 opts_ms_def)
      then show ?thesis using kept_notin(1) [OF k, of c] slots by auto
    qed
    have fr: "\<not> n_free (cnames s' ! n')" using counted_liveN [OF c4, of n'] by simp
    have "n_mtpt (cnames s' ! n') = ?L" "n_s (cnames s' ! n') = n_s (cnames s ! n)"
      using keptD(16) [OF k, of n'] keptD(17) [OF k fr] l2 r(5) by (simp_all add: m upd_nth nm)
    then show ?thesis using c4 st nt ne id ln oc by (simp add: name_op_def)
  qed
  then show "name_op H s s' n'" "n_mtpt (cnames s' ! n') = n_mtpt (cnames s ! n)"
    "n_s (cnames s' ! n') = n_s (cnames s ! n)" "n' \<notin># ownN s' + hN H" by simp_all
qed

lemma name_opD:
  assumes "name_op H s s' n"
  shows "counted s' (addN {#n#} H)" "steady H s s'"
    "ident (chans s' ! c) = ident (chans s ! c)" "c_mflag (chans s' ! c) = c_mflag (chans s ! c)"
    "length (chans s') = length (chans s)" "c \<in># ownC s' + hC H \<Longrightarrow> c \<in># ownC s + hC H"
  using assms unfolding name_op_def by blast+

lemma name_op_trans: "name_op H s t n \<Longrightarrow> name_op H t u m \<Longrightarrow> name_op H s u m"
  unfolding name_op_def using steady_trans by metis

text \<open>The slots of a name that is ours alone may be changed, and what falls out of them released.\<close>

lemma slots_op:
  assumes "counted s (addC a (addN {#n#} H))" and "n \<notin># ownN s + hN H"
    and "opts_ms (g (n_mtpt (cnames s ! n))) + b = opts_ms (n_mtpt (cnames s ! n)) + a"
    and "\<forall>c\<in>#opts_ms (g (n_mtpt (cnames s ! n))). \<not> is_open (chans s ! c)"
    and "set_mset a \<subseteq> set_mset (ownC s + hC H)" and "s' = upd_name n (\<lambda>x. x\<lparr>n_mtpt := g (n_mtpt x)\<rparr>) s"
  shows "counted s' (addC b (addN {#n#} H))" and "steady H s s'" and "n \<notin># ownN s' + hN H"
    and "n_mtpt (cnames s' ! n) = g (n_mtpt (cnames s ! n))" and "n_s (cnames s' ! n) = n_s (cnames s ! n)"
    and "\<And>c. c \<in># ownC s' + hC H \<Longrightarrow> c \<in># ownC s + hC H"
proof -
  have n: "n < length (cnames s)" "\<not> n_free (cnames s ! n)"
    using counted_liveN [OF assms(1), of n] by simp_all
  show "counted s' (addC b (addN {#n#} H))"
    unfolding assms(6) by (rule swap_slots [where g = g, OF assms(1) n assms(3,4)])
  show "steady H s s'"
    using assms(2) unfolding assms(6)
    by (intro steady_names [where n = n, OF assms(1)]) (auto simp: upd_name_def)
  show "n \<notin># ownN s' + hN H" using assms(2) by (simp add: assms(6))
  show "n_mtpt (cnames s' ! n) = g (n_mtpt (cnames s ! n))" "n_s (cnames s' ! n) = n_s (cnames s ! n)"
    using n by (simp_all add: assms(6) upd_nth)
  have "c \<in># ownC s" if "c \<in># nameC (cnames s ! n)" for c
    using that tot_in [OF n(1), of nameC] by (auto simp: ownC_def nsC_def dest: mset_subset_eqD)
  then have "set_mset (opts_ms (g (n_mtpt (cnames s ! n)))) \<subseteq> set_mset (ownC s + hC H)"
    using assms(5) arg_cong [OF assms(3), of set_mset] by (auto simp: nameC_def dest: mset_subset_eqD)
  then show "c \<in># ownC s + hC H" if "c \<in># ownC s' + hC H" for c
    using that replaced [OF own_upd_name(1) [OF n(1), of "\<lambda>x. x\<lparr>n_mtpt := g (n_mtpt x)\<rparr>"], of c]
    by (auto simp: assms(6) nameC_def)
qed

lemma cnamepush_op:
  assumes "counted s (addN {#n#} H)" and "n \<notin># ownN s + hN H" and "opt_ms mp \<subseteq># ownC s + hC H"
    and "\<And>c. mp = Some c \<Longrightarrow> \<not> is_open (chans s ! c)"
  shows "name_op H s (cnamepush n mp s) n"
    and "n_mtpt (cnames (cnamepush n mp s) ! n) = n_mtpt (cnames s ! n) @ [mp]"
    and "n_s (cnames (cnamepush n mp s) ! n) = n_s (cnames s ! n)"
    and "n \<notin># ownN (cnamepush n mp s) + hN H"
proof -
  let ?t = "incref_opt mp s" and ?g = "\<lambda>l. l @ [mp]"
  have i: "counted ?t (addC (opt_ms mp) (addN {#n#} H))" "steady H s ?t"
    using incref_opt_counted [OF assms(1), of mp] assms(3) steady_mono(2) by auto
  have e: "cnamepush n mp s = upd_name n (\<lambda>x. x\<lparr>n_mtpt := ?g (n_mtpt x)\<rparr>) ?t"
    by (simp add: cnamepush_def incref_opt_upd_name)
  have op: "\<forall>c\<in>#opts_ms (?g (n_mtpt (cnames ?t ! n))). \<not> is_open (chans ?t ! c)"
    using held_slot [OF assms(1), of n] countedD(9) [OF assms(1)] assms(4)
    by (cases mp) (auto simp: opts_ms_def nameC_def is_open_def)
  have p: "n \<notin># ownN ?t + hN H" "opts_ms (?g (n_mtpt (cnames ?t ! n))) + {#} = opts_ms (n_mtpt (cnames ?t ! n)) + opt_ms mp"
    "set_mset (opt_ms mp) \<subseteq> set_mset (ownC ?t + hC H)"
    using assms(2,3) by (auto simp: opts_ms_def dest: mset_subset_eqD)
  note r = slots_op [where g = ?g, OF i(1) p(1,2) op p(3) e]
  show "n_mtpt (cnames (cnamepush n mp s) ! n) = n_mtpt (cnames s ! n) @ [mp]"
    "n_s (cnames (cnamepush n mp s) ! n) = n_s (cnames s ! n)"
    "n \<notin># ownN (cnamepush n mp s) + hN H"
    using r(3-5) by (simp_all add: e)
  show "name_op H s (cnamepush n mp s) n"
    using r(1,2,3,6) steady_trans [OF i(2)] by (auto simp: name_op_def e)
qed

definition headsC :: "'d kst \<Rightarrow> nat multiset" where
  "headsC s = tot headC (mheads s)"

lemma headsC_steady: "steady H s s' \<Longrightarrow> headsC s' = headsC s"
proof -
  assume st: "steady H s s'"
  have "map headC (mheads s') = map headC (mheads s)"
    by (rule nth_equalityI) (simp_all add: headC_def steadyD(4-6) [OF st])
  then show ?thesis by (simp add: headsC_def tot_def)
qed

lemma headsC_own: "c \<in># headsC s \<Longrightarrow> c \<in># nsC s \<and> c \<in># ownC s"
  by (simp add: headsC_def ownC_def nsC_def)

lemma opts_ms_upd: "i < length xs \<Longrightarrow> opts_ms (xs[i := x]) + opt_ms (xs ! i) = opts_ms xs + opt_ms x"
  unfolding opts_ms_def by (rule sum_list_upd)

lemma opts_ms_butlast: "xs \<noteq> [] \<Longrightarrow> opts_ms (butlast xs) + opt_ms (last xs) = opts_ms xs"
  by (induction xs) (auto simp: opts_ms_def ac_simps)

lemma opts_ms_upd_in: "c \<in># opts_ms (xs[i := x]) \<Longrightarrow> c \<in># opts_ms xs \<or> x = Some c"
  using replaced [OF opts_ms_upd [of i xs x], of c]
  by (cases "i < length xs"; cases x) (auto simp: list_update_beyond)

lemma slots_closed:
  assumes "counted s (addN {#n#} H)" and "c \<in># opts_ms (n_mtpt (cnames s ! n))"
  shows "\<not> is_open (chans s ! c)" and "c \<in># ownC s"
  using held_slot [OF assms(1), of n c] countedD(9) [OF assms(1), of c] assms(2) by (auto simp: nameC_def)

lemma cnamecross_op:
  assumes "counted s (addN {#n#} H)" and "set_mset (opt_ms mp) \<subseteq> set_mset (headsC s)"
    and "cnamecross dev n mp s = (n', s')"
  shows "name_op H s s' n'"
    and "n_mtpt (cnames s' ! n') = (if mp = None \<or> n_mtpt (cnames s ! n) = [] then n_mtpt (cnames s ! n)
      else (n_mtpt (cnames s ! n))[length (n_mtpt (cnames s ! n)) - 1 := mp])"
    and "n_s (cnames s' ! n') = n_s (cnames s ! n)"
proof -
  let ?L = "n_mtpt (cnames s ! n)"
  let ?R = "if mp = None \<or> ?L = [] then ?L else ?L[length ?L - 1 := mp]"
  have "name_op H s s' n' \<and> n_mtpt (cnames s' ! n') = ?R \<and> n_s (cnames s' ! n') = n_s (cnames s ! n)"
  proof (cases "mp = None \<or> ?L = []")
    case True
    then show ?thesis using assms by (auto simp: cnamecross_def name_op_def)
  next
    case False
    obtain n1 s1 where u: "cname_unique dev n s = (n1, s1)" by (cases "cname_unique dev n s")
    note r1 = cname_unique_counted [OF assms(1) u]
    let ?i = "length ?L - 1"
    have i: "?i < length ?L" using False by (cases ?L) auto
    define s2 where "s2 = upd_name n1 (\<lambda>x. x\<lparr>n_mtpt := (n_mtpt x)[?i := None]\<rparr>) s1"
    define s3 where "s3 = cclose dev (?L ! ?i) s2"
    define s4 where "s4 = upd_name n1 (\<lambda>x. x\<lparr>n_mtpt := (n_mtpt x)[?i := mp]\<rparr>) (incref_opt mp s3)"
    have s': "n' = n1" "s' = s4"
      using assms(3) False u r1(2) i
      by (auto simp: cnamecross_def s2_def s3_def s4_def incref_opt_upd_name Let_def)
    have c1: "counted s1 (addC {#} (addN {#n1#} H))" using name_opD(1) [OF r1(1)] by simp
    have o1: "\<forall>c\<in>#opts_ms ((n_mtpt (cnames s1 ! n1))[?i := None]). \<not> is_open (chans s1 ! c)"
      using slots_closed [OF name_opD(1) [OF r1(1)]] by (auto dest: opts_ms_upd_in)
    have "opts_ms ((n_mtpt (cnames s1 ! n1))[?i := None]) + opt_ms (?L ! ?i) = opts_ms (n_mtpt (cnames s1 ! n1)) + {#}"
      using opts_ms_upd [OF i, of None] r1(2) by simp
    note r2 = slots_op [where g = "\<lambda>l. l[?i := None]", OF c1 r1(4) this o1 _ s2_def, simplified]
    have c3: "counted s3 (addN {#n1#} H)"
      unfolding s3_def by (rule cclose_counted) (use r2(1) in simp)
    have k: "kept s2 s3" by (simp add: s3_def)
    have st: "steady H s1 s3"
      using steady_trans [OF r2(2) steady_mono(2) [OF closes_steady(1) [OF r2(1)]]] by (simp add: s3_def)
    have n1: "\<not> n_free (cnames s3 ! n1)" using counted_liveN [OF c3, of n1] by simp
    have L3: "n_mtpt (cnames s3 ! n1) = ?L[?i := None]" "n_s (cnames s3 ! n1) = n_s (cnames s ! n)"
      using keptD(16) [OF k] keptD(17) [OF k n1] r2(4,5) r1(2,3) by simp_all
    have a3: "n1 \<notin># ownN s3 + hN H" using r2(3) kept_notin(3) [OF k] by simp
    have hc: "headsC s3 = headsC s" using headsC_steady [OF steady_trans [OF name_opD(2) [OF r1(1)] st]] .
    have m3: "opt_ms mp \<subseteq># ownC s3 + hC (addN {#n1#} H)"
      using assms(2) headsC_own [of _ s3] hc by (cases mp) auto
    note i3 = incref_opt_counted [OF c3 m3]
    have o3: "\<forall>c\<in>#opts_ms ((n_mtpt (cnames (incref_opt mp s3) ! n1))[?i := mp]). \<not> is_open (chans (incref_opt mp s3) ! c)"
      using slots_closed [OF c3] countedD(9) [OF c3] headsC_own [of _ s3] hc assms(2)
      by (auto dest!: opts_ms_upd_in simp: is_open_def)
    have e3: "opts_ms ((n_mtpt (cnames (incref_opt mp s3) ! n1))[?i := mp]) + {#}
        = opts_ms (n_mtpt (cnames (incref_opt mp s3) ! n1)) + opt_ms mp"
      using opts_ms_upd [of ?i "?L[?i := None]" mp] i L3 by simp
    have a4: "n1 \<notin># ownN (incref_opt mp s3) + hN H" using a3 by simp
    have m4: "set_mset (opt_ms mp) \<subseteq> set_mset (ownC (incref_opt mp s3) + hC H)"
      using assms(2) headsC_own [of _ s3] hc by auto
    note r4 = slots_op [where g = "\<lambda>l. l[?i := mp]", OF i3(1) a4 e3 o3 m4 s4_def, simplified]
    have id: "ident (chans s4 ! c) = ident (chans s ! c) \<and> c_mflag (chans s4 ! c) = c_mflag (chans s ! c)" for c
      using keptD(7,8) [OF k, of c] name_opD(3,4) [OF r1(1), of c] by (simp add: s4_def s2_def)
    have ln: "length (chans s4) = length (chans s)"
      using keptD(1) [OF k] name_opD(5) [OF r1(1)] by (simp add: s4_def s2_def)
    have oc: "c \<in># ownC s + hC H" if "c \<in># ownC s4 + hC H" for c
      using that r4(6) [of c] r2(6) [of c] name_opD(6) [OF r1(1), of c] kept_notin(1) [OF k, of c]
      by auto
    have "steady H s s4"
      using name_opD(2) [OF r1(1)] st i3(2) steady_mono(2) r4(2) by (blast intro: steady_trans)
    then show ?thesis using r4(1,4,5) L3 id ln oc False by (auto simp: name_op_def s')
  qed
  then show "name_op H s s' n'" "n_mtpt (cnames s' ! n') = ?R" "n_s (cnames s' ! n') = n_s (cnames s ! n)"
    by simp_all
qed

lemma text_op:
  assumes "counted s (addN {#n#} H)" and "n \<notin># ownN s + hN H"
    and "s' = upd_name n (\<lambda>x. x\<lparr>n_s := g (n_s x)\<rparr>) s"
  shows "name_op H s s' n" and "n \<notin># ownN s' + hN H" and "n_mtpt (cnames s' ! n) = n_mtpt (cnames s ! n)"
proof -
  have n: "n < length (cnames s)" using counted_liveN [OF assms(1), of n] by simp
  have "counted s' (addN {#n#} H)" unfolding assms(3) by (rule upd_name_counted [OF assms(1)]) simp
  moreover have "steady H s s'"
    using assms(2) unfolding assms(3)
    by (intro steady_names [where n = n, OF assms(1)]) (auto simp: upd_name_def)
  moreover have "ownC s' = ownC s" by (simp add: assms(3) own_upd_name_same nameC_def)
  ultimately show "name_op H s s' n" by (auto simp: name_op_def assms(3))
  show "n \<notin># ownN s' + hN H" "n_mtpt (cnames s' ! n) = n_mtpt (cnames s ! n)"
    using assms(2) n by (simp_all add: assms(3) upd_nth)
qed

text \<open>Dropping the last slot.\<close>

lemma pop_op:
  assumes "counted s (addN {#n#} H)" and "n \<notin># ownN s + hN H" and "n_mtpt (cnames s ! n) \<noteq> []"
    and "s' = cclose dev (last (n_mtpt (cnames s ! n))) (upd_name n (\<lambda>x. x\<lparr>n_mtpt := butlast (n_mtpt x)\<rparr>) s)"
  shows "name_op H s s' n" and "n \<notin># ownN s' + hN H"
    and "n_mtpt (cnames s' ! n) = butlast (n_mtpt (cnames s ! n))"
proof -
  let ?L = "n_mtpt (cnames s ! n)"
  define t where "t = upd_name n (\<lambda>x. x\<lparr>n_mtpt := butlast (n_mtpt x)\<rparr>) s"
  have e: "opts_ms (butlast ?L) + opt_ms (last ?L) = opts_ms ?L + {#}"
    using opts_ms_butlast [OF assms(3)] by simp
  then have o: "\<forall>c\<in>#opts_ms (butlast ?L). \<not> is_open (chans s ! c)"
    using slots_closed(1) [OF assms(1)] by (metis union_iff add.right_neutral)
  have c0: "counted s (addC {#} (addN {#n#} H))" using assms(1) by simp
  note r = slots_op [where g = butlast, OF c0 assms(2) e o _ t_def, simplified]
  have s': "s' = cclose dev (last ?L) t" by (simp add: assms(4) t_def)
  note c = cclose_counted [OF r(1), of dev, folded s']
  have k: "kept t s'" by (simp add: s')
  have "\<not> n_free (cnames s' ! n)" using counted_liveN [OF c, of n] by simp
  then show "n_mtpt (cnames s' ! n) = butlast ?L" using keptD(17) [OF k] r(4) by simp
  show "n \<notin># ownN s' + hN H" using r(3) kept_notin(3) [OF k] by simp
  have "steady H s s'"
    using steady_trans [OF r(2) steady_mono(2) [OF closes_steady(1) [OF r(1)]]] by (simp add: s')
  then show "name_op H s s' n"
    using c r(6) kept_notin(1) [OF k] keptD(1,7,8) [OF k] by (auto simp: name_op_def t_def)
qed

lemma addelem_op:
  assumes "counted s (addN {#n#} H)" and "\<not> (at e 0 = dot \<and> at e 1 = 0)" and "addelem dev n e s = (n', s')"
  shows "name_op H s s' n'" and "n' \<notin># ownN s' + hN H"
    and "n_mtpt (cnames s' ! n') = (if isdotdot e \<and> length (n_mtpt (cnames s ! n)) > 1
      then butlast (n_mtpt (cnames s ! n)) else n_mtpt (cnames s ! n))"
proof -
  let ?L = "n_mtpt (cnames s ! n)"
  obtain n1 s1 where u: "cname_unique dev n s = (n1, s1)" by (cases "cname_unique dev n s")
  note r1 = cname_unique_counted [OF assms(1) u]
  define s2 where "s2 = upd_name n1 (\<lambda>x. x\<lparr>n_s := addtext (n_s x) e\<rparr>) s1"
  note r2 = text_op [where g = "\<lambda>t. addtext t e", OF name_opD(1) [OF r1(1)] r1(4) s2_def]
  note n2 = name_op_trans [OF r1(1) r2(1)]
  define s3 where "s3 = upd_name n1 (\<lambda>x. x\<lparr>n_s := cleancname (n_s x)\<rparr>) s2"
  note r3 = text_op [where g = cleancname, OF name_opD(1) [OF n2] r2(2) s3_def]
  note n3 = name_op_trans [OF n2 r3(1)]
  define s4 where "s4 = cclose dev (last (n_mtpt (cnames s3 ! n1))) (upd_name n1 (\<lambda>x. x\<lparr>n_mtpt := butlast (n_mtpt x)\<rparr>) s3)"
  have L: "n_mtpt (cnames s3 ! n1) = ?L" "n_mtpt (cnames s2 ! n1) = ?L" using r1(2) r2(3) r3(3) by simp_all
  have "name_op H s s' n' \<and> n' \<notin># ownN s' + hN H
    \<and> n_mtpt (cnames s' ! n') = (if isdotdot e \<and> length ?L > 1 then butlast ?L else ?L)"
  proof (cases "isdotdot e")
    case False
    then have "n' = n1 \<and> s' = s2" using assms(2,3) u by (auto simp: addelem_def s2_def Let_def)
    then show ?thesis using n2 r2 L False by simp
  next
    case d: True
    show ?thesis
    proof (cases "length ?L > 1")
      case False
      then have "n' = n1 \<and> s' = s3" using assms(2,3) u d L by (auto simp: addelem_def s2_def s3_def Let_def)
      then show ?thesis using n3 r3 L False by simp
    next
      case True
      then have e: "n' = n1" "s' = s4"
        using assms(2,3) u d L by (auto simp: addelem_def s2_def s3_def s4_def Let_def)
      have "n_mtpt (cnames s3 ! n1) \<noteq> []" using True L by auto
      note r4 = pop_op [OF name_opD(1) [OF n3] r3(2) this s4_def]
      then show ?thesis using name_op_trans [OF n3 r4(1)] L True d e by simp
    qed
  qed
  then show "name_op H s s' n'" "n' \<notin># ownN s' + hN H"
    "n_mtpt (cnames s' ! n') = (if isdotdot e \<and> length ?L > 1 then butlast ?L else ?L)" by simp_all
qed

end
