(* ===== verification/Namespace.thy ===== *)
theory Namespace
  imports RefOps
begin

text \<open>
  Process groups and their mount tables: emu/port/pgrp.c, and \<open>cmount\<close>, \<open>cunmount\<close>, \<open>findmount\<close> and
  \<open>domount\<close> of emu/port/chan.c. Each operation runs to its end under the name space lock, so it is
  one function of the state; the locks themselves are not modelled here.
\<close>

unbundle bit_operations_syntax

section \<open>Process groups\<close>

definition newpgrp :: "'d kst \<Rightarrow> nat \<times> 'd kst" where
  "newpgrp s =
     (let id = pgrpid s + 1 in
      (length (pgrps s),
       s\<lparr>pgrpid := id,
         pgrps := pgrps s @ [\<lparr>pg_ref = 1, pg_id = id, pg_hash = replicate MNTHASH [],
           pg_progmode = 420, pg_dot = None, pg_slash = None, pg_nodevs = False, pg_free = False\<rparr>]\<rparr>))"

text \<open>One turn of the inner loop of \<open>closepgrp\<close>.\<close>

definition closemhead :: "'d devops \<Rightarrow> nat \<Rightarrow> 'd kst \<Rightarrow> 'd kst" where
  "closemhead dev f s =
     (let ms = mh_mount (the_mhead s f);
          s = upd_mhead f (\<lambda>x. x\<lparr>mh_mount := []\<rparr>) s;
          s = cclose dev (Some (mh_from (the_mhead s f))) s;
          s = mountfree dev ms s
      in putmhead dev (Some f) s)"

definition closepgrp :: "'d devops \<Rightarrow> nat option \<Rightarrow> 'd kst \<Rightarrow> 'd kst" where
  "closepgrp dev pg s =
     (case pg of
        None \<Rightarrow> s
      | Some p \<Rightarrow>
          if pg_free (the_pgrp s p) then set_fault s
          else
            (let x = pg_ref (the_pgrp s p) - 1; s = upd_pgrp p (\<lambda>y. y\<lparr>pg_ref := x\<rparr>) s in
             if x < 0 then set_fault s
             else if x \<noteq> 0 then s
             else
               (let s = upd_pgrp p (\<lambda>y. y\<lparr>pg_id := -1\<rparr>) s;
                    s = fold (closemhead dev) (concat (pg_hash (the_pgrp s p))) s;
                    s = cclose dev (pg_dot (the_pgrp s p)) s;
                    s = cclose dev (pg_slash (the_pgrp s p)) s
                in upd_pgrp p (\<lambda>y. y\<lparr>pg_free := True\<rparr>) s)))"

text \<open>
  \<open>pgrpinsert\<close> keeps the list linked by \<open>order\<close>, of the parent's mounts seen so far. An entry here is
  the parent's mount id and the place of its copy.
\<close>

type_synonym order = "(nat \<times> nat \<times> nat) list"

fun pgrpinsert :: "order \<Rightarrow> nat \<times> nat \<times> nat \<Rightarrow> order" where
  "pgrpinsert [] m = [m]"
| "pgrpinsert (f # fs) m = (if fst m < fst f then m # f # fs else f # pgrpinsert fs m)"

text \<open>The loop over the mounts of one mount head: \<open>mh\<close> is the copy and \<open>k\<close> counts its mounts.\<close>

fun copymounts :: "nat \<Rightarrow> nat \<Rightarrow> mount list \<Rightarrow> order \<Rightarrow> 'd kst \<Rightarrow> order \<times> 'd kst" where
  "copymounts mh k [] order s = (order, s)"
| "copymounts mh k (m # ms) order s =
     (let (n, s) = newmount (mt_to m) (mt_flag m) (mt_spec m) s;
          order = pgrpinsert order (mt_id m, mh, k);
          s = upd_mhead mh (\<lambda>x. x\<lparr>mh_mount := mh_mount x @ [n]\<rparr>) s
      in copymounts mh (k + 1) ms order s)"

definition copymhead :: "nat \<Rightarrow> order \<Rightarrow> 'd kst \<Rightarrow> nat \<times> order \<times> 'd kst" where
  "copymhead f order s =
     (let (mh, s) = newmhead (mh_from (the_mhead s f)) s;
          (order, s) = copymounts mh 0 (mh_mount (the_mhead s f)) order s
      in (mh, order, s))"

fun copychain :: "nat \<Rightarrow> nat \<Rightarrow> nat list \<Rightarrow> order \<Rightarrow> 'd kst \<Rightarrow> order \<times> 'd kst" where
  "copychain to i [] order s = (order, s)"
| "copychain to i (f # fs) order s =
     (let (mh, order, s) = copymhead f order s;
          s = upd_pgrp to (\<lambda>x. x\<lparr>pg_hash := (pg_hash x)[i := pg_hash x ! i @ [mh]]\<rparr>) s
      in copychain to i fs order s)"

fun copychains :: "nat \<Rightarrow> nat \<Rightarrow> nat list list \<Rightarrow> order \<Rightarrow> 'd kst \<Rightarrow> order \<times> 'd kst" where
  "copychains to i [] order s = (order, s)"
| "copychains to i (c # cs) order s =
     (let (order, s) = copychain to i c order s in copychains to (i + 1) cs order s)"

text \<open>\<open>for(m = order; m; m = m->order) m->copy->mountid = mountid.ref++;\<close>\<close>

fun renumber :: "order \<Rightarrow> 'd kst \<Rightarrow> 'd kst" where
  "renumber [] s = s"
| "renumber ((_, mh, k) # ms) s =
     renumber ms
       (upd_mhead mh (\<lambda>x. x\<lparr>mh_mount := (mh_mount x)[k := (mh_mount x ! k)\<lparr>mt_id := mountid s\<rparr>]\<rparr>)
          (s\<lparr>mountid := mountid s + 1\<rparr>))"

definition cclone_opt :: "'d devops \<Rightarrow> nat option \<Rightarrow> 'd kst \<Rightarrow> nat res \<times> 'd kst" where
  "cclone_opt dev c s = (case c of None \<Rightarrow> (Inl Eclone, set_fault s) | Some c \<Rightarrow> cclone dev c s)"

definition pgrpcpy :: "'d devops \<Rightarrow> nat \<Rightarrow> nat \<Rightarrow> 'd kst \<Rightarrow> unit res \<times> 'd kst" where
  "pgrpcpy dev to from s =
     (let (order, s) = copychains to 0 (pg_hash (the_pgrp s from)) [] s;
          s = renumber order s;
          s = upd_pgrp to (\<lambda>x. x\<lparr>pg_progmode := pg_progmode (the_pgrp s from)\<rparr>) s
      in case cclone_opt dev (pg_slash (the_pgrp s from)) s of
           (Inl e, s) \<Rightarrow> (Inl e, s)
         | (Inr c, s) \<Rightarrow>
             (let s = upd_pgrp to (\<lambda>x. x\<lparr>pg_slash := Some c\<rparr>) s in
              case cclone_opt dev (pg_dot (the_pgrp s from)) s of
                (Inl e, s) \<Rightarrow> (Inl e, s)
              | (Inr c, s) \<Rightarrow>
                  (let s = upd_pgrp to (\<lambda>x. x\<lparr>pg_dot := Some c\<rparr>) s in
                   (Inr (), upd_pgrp to (\<lambda>x. x\<lparr>pg_nodevs := pg_nodevs (the_pgrp s from)\<rparr>) s))))"

section \<open>File descriptor groups\<close>

definition DELTAFD :: int where "DELTAFD = 20"

text \<open>\<open>n = DELTAFD; if(f->maxfd >= n) n = (f->maxfd+1 + DELTAFD-1)/DELTAFD * DELTAFD;\<close>\<close>

definition fgrpsize :: "int \<Rightarrow> int" where
  "fgrpsize maxfd =
     (if maxfd \<ge> DELTAFD then (maxfd + 1 + DELTAFD - 1) div DELTAFD * DELTAFD else DELTAFD)"

definition newfgrp :: "nat option \<Rightarrow> 'd kst \<Rightarrow> nat \<times> 'd kst" where
  "newfgrp old s =
     (let (n, m) = (case old of
            None \<Rightarrow> (DELTAFD, 0)
          | Some f \<Rightarrow> (fgrpsize (fg_maxfd (fgrps s ! f)), fg_maxfd (fgrps s ! f)))
      in (length (fgrps s),
          s\<lparr>fgrps := fgrps s @ [\<lparr>fg_ref = 1, fg_fd = replicate (nat n) None, fg_maxfd = m,
            fg_minfd = 0, fg_free = False\<rparr>]\<rparr>))"

definition dupfgrp :: "nat \<Rightarrow> 'd kst \<Rightarrow> nat \<times> 'd kst" where
  "dupfgrp f s =
     (let old = fgrps s ! f;
          used = take (nat (fg_maxfd old + 1)) (fg_fd old);
          n = nat (fgrpsize (fg_maxfd old))
      in (length (fgrps s),
          fold incref_opt used
            (s\<lparr>fgrps := fgrps s @ [\<lparr>fg_ref = 1, fg_fd = used @ replicate (n - length used) None,
               fg_maxfd = fg_maxfd old, fg_minfd = fg_minfd old, fg_free = False\<rparr>]\<rparr>)))"

definition closefgrp :: "'d devops \<Rightarrow> nat option \<Rightarrow> 'd kst \<Rightarrow> 'd kst" where
  "closefgrp dev fg s =
     (case fg of
        None \<Rightarrow> s
      | Some f \<Rightarrow>
          if fg_free (fgrps s ! f) then set_fault s
          else
            (let x = fg_ref (fgrps s ! f) - 1; s = upd_fgrp f (\<lambda>y. y\<lparr>fg_ref := x\<rparr>) s in
             if x < 0 then set_fault s
             else if x \<noteq> 0 then s
             else
               (let used = take (nat (fg_maxfd (fgrps s ! f) + 1)) (fg_fd (fgrps s ! f));
                    s = upd_fgrp f (\<lambda>y. y\<lparr>fg_fd := [], fg_free := True\<rparr>) s
                in release dev (mtptfree_calls used) s)))"

section \<open>The mount table\<close>

text \<open>\<open>MOUNTH(p, qid)\<close>, as the index of the chain.\<close>

definition MOUNTH :: "qid \<Rightarrow> nat" where
  "MOUNTH q = unat (q_path q AND mask 5)"

definition chain :: "nat \<Rightarrow> qid \<Rightarrow> 'd kst \<Rightarrow> nat list" where
  "chain pg q s = pg_hash (the_pgrp s pg) ! MOUNTH q"

definition set_chain :: "nat \<Rightarrow> qid \<Rightarrow> nat list \<Rightarrow> 'd kst \<Rightarrow> 'd kst" where
  "set_chain pg q l = upd_pgrp pg (\<lambda>x. x\<lparr>pg_hash := (pg_hash x)[MOUNTH q := l]\<rparr>)"

text \<open>The search for the mount head of a channel, in \<open>cmount\<close> and \<open>cunmount\<close>.\<close>

definition mhead_of :: "nat \<Rightarrow> nat \<Rightarrow> 'd kst \<Rightarrow> nat option" where
  "mhead_of pg c s =
     List.find (\<lambda>m. eqchan (the_chan s (mh_from (the_mhead s m))) (the_chan s c) True)
       (chain pg (c_qid (the_chan s c)) s)"

text \<open>The loop of \<open>cmount\<close> that copies the rest of the union \<open>um\<close> behind \<open>nm\<close>.\<close>

fun copyunion :: "u32 \<Rightarrow> mount list \<Rightarrow> 'd kst \<Rightarrow> mount list \<times> 'd kst" where
  "copyunion flg [] s = ([], s)"
| "copyunion flg (um # ums) s =
     (let (f, s) = newmount (mt_to um) (flg OR (mt_flag um AND MREADONLY)) (mt_spec um) s;
          (fs, s) = copyunion flg ums s
      in (f # fs, s))"

text \<open>The head a mount goes to: the one found, or a new one at the end of its chain.\<close>

definition cmount_head :: "nat \<Rightarrow> nat \<Rightarrow> u32 \<Rightarrow> 'd kst \<Rightarrow> nat \<times> 'd kst" where
  "cmount_head pg old order s =
     (case mhead_of pg old s of
        Some m \<Rightarrow> (m, s)
      | None \<Rightarrow>
          (let q = c_qid (the_chan s old);
               (m, s) = newmhead old s;
               s = set_chain pg q (chain pg q s @ [m]) s
           in if order \<noteq> MREPL then
                (let (n, s) = newmount old 0 None s in (m, upd_mhead m (\<lambda>x. x\<lparr>mh_mount := [n]\<rparr>) s))
              else (m, s)))"

definition cmount ::
  "'d devops \<Rightarrow> nat \<Rightarrow> nat \<Rightarrow> nat \<Rightarrow> u32 \<Rightarrow> bytes option \<Rightarrow> 'd kst \<Rightarrow> nat res \<times> 'd kst" where
  "cmount dev pg new old flag spec s =
     (let order = flag AND MORDER;
          mh = c_umh (the_chan s new);
          ums = (case mh of None \<Rightarrow> [] | Some h \<Rightarrow> mh_mount (the_mhead s h))
      in
      if q_type (c_qid (the_chan s old)) AND QTDIR \<noteq> q_type (c_qid (the_chan s new)) AND QTDIR
      then (Inl Emount, s)
      else if \<not> is_dir (c_qid (the_chan s old)) \<and> order \<noteq> MREPL then (Inl Emount, s)
      else if flag AND MCREATE \<noteq> 0 \<and> ums \<noteq> [] \<and> (tl ums \<noteq> [] \<or> mt_flag (hd ums) AND MCREATE = 0)
      then (Inl Emount, s)
      else
        (let (m, s) = cmount_head pg old order s;
             (nm, s) = newmount new flag spec s;
             flg = (if order = MREPL then MAFTER OR (flag AND MREADONLY)
                    else order OR (flag AND MREADONLY));
             ums = (case mh of None \<Rightarrow> [] | Some h \<Rightarrow> mh_mount (the_mhead s h));
             (rest, s) = (if ums \<noteq> [] then copyunion flg (tl ums) s else ([], s));
             om = (if order = MREPL then mh_mount (the_mhead s m) else []);
             cur = (if order = MREPL then [] else mh_mount (the_mhead s m));
             nm = (if flag AND MCREATE \<noteq> 0 then nm\<lparr>mt_flag := mt_flag nm OR MCREATE\<rparr> else nm);
             l = (if cur \<noteq> [] \<and> order = MAFTER then cur @ nm # rest else nm # rest @ cur);
             s = upd_mhead m (\<lambda>x. x\<lparr>mh_mount := l\<rparr>) s
         in (Inr (mt_id nm), mountfree dev om s)))"

text \<open>The test of the loop of \<open>cunmount\<close> on a mounted channel.\<close>

definition mounted_is :: "nat \<Rightarrow> 'd kst \<Rightarrow> mount \<Rightarrow> bool" where
  "mounted_is mounted s f \<longleftrightarrow>
     eqchan (the_chan s (mt_to f)) (the_chan s mounted) True \<or>
     (case c_mchan (the_chan s (mt_to f)) of
        None \<Rightarrow> False
      | Some mc \<Rightarrow> eqchan (the_chan s mc) (the_chan s mounted) True)"

text \<open>Removes the first element with a property.\<close>

fun remove_first :: "('a \<Rightarrow> bool) \<Rightarrow> 'a list \<Rightarrow> 'a list" where
  "remove_first P [] = []"
| "remove_first P (x # xs) = (if P x then xs else x # remove_first P xs)"

definition cunmount :: "'d devops \<Rightarrow> nat \<Rightarrow> nat \<Rightarrow> nat option \<Rightarrow> 'd kst \<Rightarrow> unit res \<times> 'd kst" where
  "cunmount dev pg mnt mounted s =
     (let q = c_qid (the_chan s mnt) in
      case mhead_of pg mnt s of
        None \<Rightarrow> (Inl Eunmount, s)
      | Some m \<Rightarrow>
          (let unlink = set_chain pg q (remove1 m (chain pg q s)); from = mh_from (the_mhead s m) in
           case mounted of
             None \<Rightarrow>
               (let ms = mh_mount (the_mhead s m);
                    s = upd_mhead m (\<lambda>x. x\<lparr>mh_mount := []\<rparr>) (unlink s);
                    s = mountfree dev ms s;
                    s = cclose dev (Some from) s
                in (Inr (), putmhead dev (Some m) s))
           | Some c \<Rightarrow>
               (case List.find (mounted_is c s) (mh_mount (the_mhead s m)) of
                  None \<Rightarrow> (Inl Eunion, s)
                | Some f \<Rightarrow>
                    (let left = remove_first (mounted_is c s) (mh_mount (the_mhead s m));
                         s = upd_mhead m (\<lambda>x. x\<lparr>mh_mount := left\<rparr>) s
                     in if left = [] then
                          (let s = unlink s;
                               s = mountfree dev [f] s;
                               s = cclose dev (Some from) s
                           in (Inr (), putmhead dev (Some m) s))
                        else (Inr (), mountfree dev [f] s)))))"

definition mhead_tdqid :: "nat \<Rightarrow> 32 word \<Rightarrow> 32 word \<Rightarrow> qid \<Rightarrow> 'd kst \<Rightarrow> nat option" where
  "mhead_tdqid pg type d q s =
     List.find (\<lambda>m. eqchantdqid (the_chan s (mh_from (the_mhead s m))) type d q True) (chain pg q s)"

text \<open>
  \<open>findmount\<close>: the result is whether a mount was found, with the new values of \<open>*cp\<close> and, where the
  caller gave one (\<open>Some\<close>), of \<open>*mp\<close>. A head without mounts would be a dereference of nil.
\<close>

definition findmount ::
  "'d devops \<Rightarrow> nat \<Rightarrow> nat option \<Rightarrow> nat option option \<Rightarrow> 32 word \<Rightarrow> 32 word \<Rightarrow> qid \<Rightarrow> 'd kst \<Rightarrow>
     (bool \<times> nat option \<times> nat option option) \<times> 'd kst" where
  "findmount dev pg cp mp type d q s =
     (case mhead_tdqid pg type d q s of
        None \<Rightarrow> ((False, cp, mp), s)
      | Some m \<Rightarrow>
          (let (mp, s) = (case mp of
                 None \<Rightarrow> (None, s)
               | Some old \<Rightarrow> (Some (Some m), putmhead dev old (incref_mhead m s)));
               s = cclose dev cp s
           in case mh_mount (the_mhead s m) of
                [] \<Rightarrow> ((True, cp, mp), set_fault s)
              | f # _ \<Rightarrow> ((True, Some (mt_to f), mp), incref_chan (mt_to f) s)))"

definition chan_type :: "chan \<Rightarrow> 32 word" where "chan_type c = ucast (c_type c)"
definition chan_dev :: "chan \<Rightarrow> 32 word" where "chan_dev c = ucast (c_dev c)"

text \<open>\<open>domount\<close> on \<open>*cp = c\<close>, \<open>*mp\<close> and the name, if any.\<close>

definition domount ::
  "'d devops \<Rightarrow> nat \<Rightarrow> nat \<Rightarrow> nat option \<Rightarrow> nat option \<Rightarrow> 'd kst \<Rightarrow>
     (bool \<times> nat \<times> nat option \<times> nat option) \<times> 'd kst" where
  "domount dev pg c mp name s =
     (case findmount dev pg (Some c) (Some mp) (chan_type (the_chan s c)) (chan_dev (the_chan s c))
             (c_qid (the_chan s c)) s of
        ((True, Some c', Some (Some m)), s) \<Rightarrow>
          (case name of
             None \<Rightarrow> ((True, c', Some m, None), s)
           | Some n \<Rightarrow>
               (let (n, s) = cnamecross dev n (Some (mh_from (the_mhead s m))) s
                in ((True, c', Some m, Some n), s)))
      | (_, s) \<Rightarrow> ((False, c, mp, name), s))"

definition mutatingmode :: "u32 \<Rightarrow> bool" where
  "mutatingmode mode =
     (let rwmode = mode AND 3 in rwmode = 1 \<or> rwmode = 2 \<or> mode AND (16 OR 64) \<noteq> 0)"

definition checkwritable :: "chan \<Rightarrow> unit res" where
  "checkwritable c = (if c_mflag c AND MREADONLY \<noteq> 0 then Inl Eperm else Inr ())"

section \<open>Looking up a mount\<close>

lemma ident_bump: "ident (chans (bump_chan d c s) ! x) = ident (chans s ! x)"
  by (simp add: bump_chan_def upd_chan_def nth_upd_all ident_def)

text \<open>A group in use, and heads that are linked only while something is mounted.\<close>

definition live_pgrp :: "'d kst \<Rightarrow> nat \<Rightarrow> bool" where
  "live_pgrp s pg \<longleftrightarrow> pg < length (pgrps s) \<and> 0 < pg_ref (pgrps s ! pg) \<and> length (pg_hash (pgrps s ! pg)) = MNTHASH"

definition linked_ok :: "'d kst \<Rightarrow> bool" where
  "linked_ok s \<longleftrightarrow> (\<forall>m\<in>#links s. mh_mount (mheads s ! m) \<noteq> [])"

lemma MOUNTH_less: "MOUNTH q < MNTHASH"
proof -
  have "q_path q AND mask 5 \<le> mask 5" by (simp add: word_and_le1)
  then have "unat (q_path q AND mask 5) \<le> 31" by (simp add: word_le_nat_alt mask_eq_exp_minus_1)
  then show ?thesis by (simp add: MOUNTH_def MNTHASH_def)
qed

lemma chain_links: "live_pgrp s pg \<Longrightarrow> m \<in> set (chain pg q s) \<Longrightarrow> m \<in># links s"
proof -
  assume a: "live_pgrp s pg" "m \<in> set (chain pg q s)"
  let ?x = "pgrps s ! pg"
  have "m \<in># pgrpM ?x"
    using a MOUNTH_less [of q] by (auto simp: live_pgrp_def pgrpM_def chain_def intro!: bexI [of _ "pg_hash ?x ! MOUNTH q"])
  then show ?thesis using a tot_in [of pg "pgrps s" pgrpM] by (auto simp: links_def live_pgrp_def dest: mset_subset_eqD)
qed

lemma live_steady: "steady H s s' \<Longrightarrow> live_pgrp s' pg = live_pgrp s pg"
  by (simp add: live_pgrp_def steadyD(1))

lemma links_steady: "steady H s s' \<Longrightarrow> links s' = links s"
  by (simp add: links_def steadyD(1))

lemma linked_live: "counted s H \<Longrightarrow> m \<in># links s \<Longrightarrow> m < length (mheads s) \<and> \<not> mh_free (mheads s ! m)"
  using counted_liveM [of s H m] by (auto simp: ownM_def)

lemma linked_ok_steady:
  assumes "steady H s s'" and "counted s H'" and "linked_ok s" shows "linked_ok s'"
  using assms linked_live [OF assms(2)] steadyD(6) [OF assms(1)] links_steady [OF assms(1)]
  by (auto simp: linked_ok_def)

lemma head_owns:
  assumes "m < length (mheads s)" and "mh_mount (mheads s ! m) \<noteq> []"
  shows "mh_from (mheads s ! m) \<in># headsC s" and "f \<in> set (mh_mount (mheads s ! m)) \<Longrightarrow> mt_to f \<in># headsC s"
proof -
  have "headC (mheads s ! m) \<subseteq># headsC s" unfolding headsC_def using assms(1) by (rule tot_in)
  then show "mh_from (mheads s ! m) \<in># headsC s" "f \<in> set (mh_mount (mheads s ! m)) \<Longrightarrow> mt_to f \<in># headsC s"
    using assms(2) by (auto simp: headC_def mountsC_def dest: mset_subset_eqD [of _ _ "mt_to f"]
        mset_subset_eqD [of _ _ "mh_from (mheads s ! m)"])
qed

lemma mhead_tdqidD:
  "mhead_tdqid pg type d q s = Some m \<Longrightarrow>
     m \<in> set (chain pg q s) \<and> eqchantdqid (chans s ! mh_from (mheads s ! m)) type d q True"
  by (auto simp: mhead_tdqid_def find_Some_iff set_conv_nth)

text \<open>
  \<open>findmount\<close> trades the caller's channel and head for those of the mount, or changes nothing.
\<close>

lemma findmount_none:
  "mhead_tdqid pg type d q s = None \<Longrightarrow> findmount dev pg cp mp type d q s = ((False, cp, mp), s)"
  by (simp add: findmount_def)

lemma findmount_some:
  assumes "counted s (addC (opt_ms cp) (addM (opt_ms old) H))" and "live_pgrp s pg" and "linked_ok s"
    and "mhead_tdqid pg type d q s = Some m"
  shows "\<exists>f fs s'. mh_mount (mheads s ! m) = f # fs \<and> m \<in># links s
    \<and> findmount dev pg cp (Some old) type d q s = ((True, Some (mt_to f), Some (Some m)), s')
    \<and> counted s' (addC {#mt_to f#} (addM {#m#} H)) \<and> steady H s s'
    \<and> (\<forall>x. ident (chans s' ! x) = ident (chans s ! x))"
proof -
  have ml: "m \<in># links s" using chain_links [OF assms(2)] mhead_tdqidD [OF assms(4)] by blast
  then obtain f fs where f: "mh_mount (mheads s ! m) = f # fs"
    using assms(3) by (auto simp: linked_ok_def neq_Nil_conv)
  have m: "m < length (mheads s)" using linked_live [OF assms(1) ml] by blast
  let ?s1 = "incref_mhead m s"
  define s2 where "s2 = putmhead dev old ?s1"
  define s3 where "s3 = cclose dev cp s2"
  have "counted ?s1 (addM {#m#} (addC (opt_ms cp) (addM (opt_ms old) H)))"
    by (rule incref_mhead_counted [OF assms(1)]) (use ml in \<open>simp add: ownM_def\<close>)
  then have c1: "counted ?s1 (addM (opt_ms old) (addC (opt_ms cp) (addM {#m#} H)))"
    by (simp add: add_comm ac_simps)
  have c2: "counted s2 (addC (opt_ms cp) (addM {#m#} H))" unfolding s2_def by (rule putmhead_counted [OF c1])
  have c3: "counted s3 (addM {#m#} H)" unfolding s3_def by (rule cclose_counted [OF c2])
  have st1: "steady H s s2"
    unfolding s2_def
    by (rule steady_trans [OF incref_steady(3) steady_mono(3) [OF steady_mono(1) [OF closes_steady(3) [OF c1]]]])
  have "steady H s2 s3" unfolding s3_def by (rule steady_mono(3) [OF closes_steady(1) [OF c2]])
  then have st: "steady H s s3" using st1 by (blast intro: steady_trans)
  have f3: "mh_mount (mheads s3 ! m) = f # fs" using steadyD(6) [OF st m] f by simp
  have "mt_to f \<in># headsC s3" using head_owns(2) [of m s3 f] f3 m steadyD(4) [OF st] by simp
  then have to: "mt_to f \<in># ownC s3 + hC (addM {#m#} H)" using headsC_own by fastforce
  have "findmount dev pg cp (Some old) type d q s = ((True, Some (mt_to f), Some (Some m)), incref_chan (mt_to f) s3)"
    using assms(4) f3 by (simp add: findmount_def s2_def s3_def)
  moreover have "counted (incref_chan (mt_to f) s3) (addC {#mt_to f#} (addM {#m#} H))"
    by (rule incref_chan_counted [OF c3 to])
  moreover have "steady H s (incref_chan (mt_to f) s3)" by (rule steady_trans [OF st incref_steady(1)])
  moreover have "ident (chans (incref_chan (mt_to f) s3) ! x) = ident (chans s ! x)" for x
    using keptD(7) [of ?s1 s2 x] keptD(7) [of s2 s3 x]
    by (simp add: s2_def s3_def incref_is_bump ident_bump)
  ultimately show ?thesis using f ml by blast
qed

lemma mount_closed:
  assumes "counted s H" and "m \<in># links s" and "mh_mount (mheads s ! m) \<noteq> []" and "f \<in> set (mh_mount (mheads s ! m))"
  shows "\<not> is_open (chans s ! mt_to f)"
  using head_owns(2) [OF conjunct1 [OF linked_live [OF assms(1,2)]] assms(3,4)] headsC_own countedD(9) [OF assms(1)]
  by blast

text \<open>The same for \<open>domount\<close>, which also notes the crossing in the name.\<close>

lemma domount_none:
  assumes "mhead_tdqid pg (chan_type (chans s ! c)) (chan_dev (chans s ! c)) (c_qid (chans s ! c)) s = None"
  shows "domount dev pg c mp name s = ((False, c, mp, name), s)"
  using findmount_none [OF assms] by (simp add: domount_def)

lemma domount_some:
  assumes "counted s (addC {#c#} (addM (opt_ms mp) H))" and "live_pgrp s pg" and "linked_ok s"
    and "mhead_tdqid pg (chan_type (chans s ! c)) (chan_dev (chans s ! c)) (c_qid (chans s ! c)) s = Some m"
  shows "\<exists>f fs s'. mh_mount (mheads s ! m) = f # fs \<and> m \<in># links s
    \<and> domount dev pg c mp None s = ((True, mt_to f, Some m, None), s')
    \<and> counted s' (addC {#mt_to f#} (addM {#m#} H)) \<and> steady H s s'"
proof -
  have "counted s (addC (opt_ms (Some c)) (addM (opt_ms mp) H))" using assms(1) by simp
  from findmount_some [OF this assms(2-4)] obtain f fs s1 where
    "mh_mount (mheads s ! m) = f # fs" "m \<in># links s"
    "findmount dev pg (Some c) (Some mp) (chan_type (chans s ! c)) (chan_dev (chans s ! c)) (c_qid (chans s ! c)) s
      = ((True, Some (mt_to f), Some (Some m)), s1)"
    "counted s1 (addC {#mt_to f#} (addM {#m#} H))" "steady H s s1"
    by blast
  then show ?thesis by (auto simp: domount_def)
qed

lemma domount_name:
  assumes "counted s (addC {#c#} (addM (opt_ms mp) (addN {#n#} H)))" and "live_pgrp s pg" and "linked_ok s"
    and "mhead_tdqid pg (chan_type (chans s ! c)) (chan_dev (chans s ! c)) (c_qid (chans s ! c)) s = Some m"
  shows "\<exists>f fs n' s'. mh_mount (mheads s ! m) = f # fs \<and> m \<in># links s
    \<and> domount dev pg c mp (Some n) s = ((True, mt_to f, Some m, Some n'), s')
    \<and> counted s' (addC {#mt_to f#} (addM {#m#} (addN {#n'#} H))) \<and> steady H s s'
    \<and> (\<forall>x. ident (chans s' ! x) = ident (chans s ! x))
    \<and> n_mtpt (cnames s' ! n') = (if n_mtpt (cnames s ! n) = [] then []
        else (n_mtpt (cnames s ! n))[length (n_mtpt (cnames s ! n)) - 1 := Some (mh_from (mheads s ! m))])"
proof -
  have "counted s (addC (opt_ms (Some c)) (addM (opt_ms mp) (addN {#n#} H)))" using assms(1) by simp
  from findmount_some [OF this assms(2-4)] obtain f fs s1 where
    f: "mh_mount (mheads s ! m) = f # fs" "m \<in># links s"
    and fm: "findmount dev pg (Some c) (Some mp) (chan_type (chans s ! c)) (chan_dev (chans s ! c)) (c_qid (chans s ! c)) s
      = ((True, Some (mt_to f), Some (Some m)), s1)"
    and c1: "counted s1 (addC {#mt_to f#} (addM {#m#} (addN {#n#} H)))" and st: "steady (addN {#n#} H) s s1"
    and id: "\<forall>x. ident (chans s1 ! x) = ident (chans s ! x)"
    by blast
  have m: "m < length (mheads s)" using linked_live [OF assms(1) f(2)] by blast
  have frm: "mh_from (mheads s1 ! m) = mh_from (mheads s ! m)" using steadyD(5) [OF st m] .
  have hf: "mh_from (mheads s ! m) \<in># headsC s1" using head_owns(1) [OF m] f(1) headsC_steady [OF st] by simp
  obtain n' s' where cr: "cnamecross dev n (Some (mh_from (mheads s ! m))) s1 = (n', s')"
    by (cases "cnamecross dev n (Some (mh_from (mheads s ! m))) s1")
  have c2: "counted s1 (addN {#n#} (addC {#mt_to f#} (addM {#m#} H)))" using c1 by (simp add: add_comm)
  note x = cnamecross_op [OF c2 _ cr]
  have p: "set_mset (opt_ms (Some (mh_from (mheads s ! m)))) \<subseteq> set_mset (headsC s1)" using hf by simp
  have L: "n_mtpt (cnames s1 ! n) = n_mtpt (cnames s ! n)" using steadyD(12) [OF st, of n] by simp
  have "domount dev pg c mp (Some n) s = ((True, mt_to f, Some m, Some n'), s')"
    using fm cr frm by (simp add: domount_def)
  moreover have "counted s' (addC {#mt_to f#} (addM {#m#} (addN {#n'#} H)))"
    using name_opD(1) [OF x(1) [OF p]] by (simp add: add_comm)
  moreover have "steady H s s'"
    using steady_trans [OF steady_mono(2) [OF st] steady_mono(3) [OF steady_mono(1) [OF name_opD(2) [OF x(1) [OF p]]]]] .
  ultimately show ?thesis using f x(2) [OF p] L id name_opD(3) [OF x(1) [OF p]] by auto
qed

end
