(* ===== verification/Walk.thy ===== *)
theory Walk
  imports Namespace
begin

text \<open>
  Walking a path through the name space: \<open>undomount\<close>, \<open>walk\<close> and \<open>createdir\<close> of emu/port/chan.c.
  The loop of \<open>walk\<close> is \<open>walk_loop\<close> over \<open>walk_step\<close>, which is one turn of it.
\<close>

unbundle bit_operations_syntax

definition undomount :: "'d devops \<Rightarrow> nat \<Rightarrow> nat \<Rightarrow> 'd kst \<Rightarrow> nat \<times> 'd kst" where
  "undomount dev c name s =
     (let mt = n_mtpt (the_name s name) in
      if length mt = 0 then (c, s)
      else if length mt = 1 then
        (case mt ! 0 of
           None \<Rightarrow> (c, s)
         | Some nc \<Rightarrow>
             if nc = c then (c, s) else (nc, cclose dev (Some c) (incref_chan nc s)))
      else
        (let nc = mt ! (length mt - 1);
             s = upd_name name (\<lambda>x. x\<lparr>n_mtpt := (n_mtpt x)[length mt - 1 := None]\<rparr>) s
         in case nc of
              None \<Rightarrow> (c, s)
            | Some nc \<Rightarrow> (nc, cclose dev (Some c) s)))"

text \<open>
  The outcome of \<open>walk\<close>: the channel, or failure (\<open>-1\<close>) with \<open>*nerror\<close> and the error it put in
  \<open>errstr\<close> (\<open>None\<close> is what the device left there), or an error raised on the way.
\<close>

datatype walkres = Walked nat | Walk_fail nat "kerror option" | Walk_raise kerror

text \<open>The locals of \<open>walk\<close> at the top of its loop.\<close>

record wstate =
  w_c :: nat
  w_name :: nat
  w_mh :: "nat option"
  w_didmount :: bool

datatype stepres = Go nat wstate | Fail nat "kerror option" | Raise kerror

text \<open>The number of names to try, and whether the first is dot-dot.\<close>

definition ntry_of :: "bytes list \<Rightarrow> nat \<times> bool" where
  "ntry_of names =
     (let t = take MAXWELEM names; k = length (takeWhile (\<lambda>e. \<not> isdotdot e) t) in
      if k < length t then (if k = 0 then (1, True) else (k, False)) else (length t, False))"

text \<open>The union: the first of the other mounts that answers the walk.\<close>

fun walk_union ::
  "'d devops \<Rightarrow> bytes list \<Rightarrow> mount list \<Rightarrow> 'd kst \<Rightarrow> (mount \<times> qid list \<times> nat option) option \<times> 'd kst" where
  "walk_union dev names [] s = (None, s)"
| "walk_union dev names (f # fs) s =
     (case walkdev dev (mt_to f) names s of
        (None, s) \<Rightarrow> walk_union dev names fs s
      | (Some (qids, clone), s) \<Rightarrow> (Some (f, qids, clone), s))"

text \<open>The first mount point on the qids of the walk: its index, the channel and the head.\<close>

fun scan_mounts ::
  "'d devops \<Rightarrow> nat \<Rightarrow> 32 word \<Rightarrow> 32 word \<Rightarrow> nat \<Rightarrow> qid list \<Rightarrow> 'd kst \<Rightarrow>
     (nat \<times> nat \<times> nat) option \<times> 'd kst" where
  "scan_mounts dev pg type d i [] s = (None, s)"
| "scan_mounts dev pg type d i (q # qs) s =
     (case findmount dev pg None (Some None) type d q s of
        ((True, Some nc, Some (Some nmh)), s) \<Rightarrow> (Some (i, nc, nmh), s)
      | (_, s) \<Rightarrow> scan_mounts dev pg type d (i + 1) qs s)"

text \<open>\<open>for(i=0; i<n; i++){ cname = addelem(...); cnamepush(...); }\<close>, with \<open>mp\<close> for the last one.\<close>

fun addelems :: "'d devops \<Rightarrow> nat \<Rightarrow> bytes list \<Rightarrow> nat option \<Rightarrow> 'd kst \<Rightarrow> nat \<times> 'd kst" where
  "addelems dev n [] mp s = (n, s)"
| "addelems dev n (e # es) mp s =
     (let (n, s) = addelem dev n e s; s = cnamepush n (if es = [] then mp else None) s
      in addelems dev n es mp s)"

text \<open>The walk of \<open>ntry\<close> names from \<open>c\<close> or from the union \<open>mh\<close>: type, dev, mflag, qids and clone.\<close>

definition walk_try ::
  "'d devops \<Rightarrow> nat \<Rightarrow> nat option \<Rightarrow> bool \<Rightarrow> u32 \<Rightarrow> bytes list \<Rightarrow> 'd kst \<Rightarrow>
     (32 word \<times> 32 word \<times> u32 \<times> qid list \<times> nat option) option \<times> 'd kst" where
  "walk_try dev c mh nomount mflag names s =
     (let type = chan_type (the_chan s c); d = chan_dev (the_chan s c) in
      case walkdev dev c names s of
        (Some (qids, clone), s) \<Rightarrow> (Some (type, d, mflag, qids, clone), s)
      | (None, s) \<Rightarrow>
          (case mh of
             None \<Rightarrow> (None, s)
           | Some h \<Rightarrow>
               if nomount then (None, s)
               else if mh_mount (the_mhead s h) = [] then (None, set_fault s)
               else
                 (case walk_union dev names (tl (mh_mount (the_mhead s h))) s of
                    (None, s) \<Rightarrow> (None, s)
                  | (Some (f, qids, clone), s) \<Rightarrow>
                      (Some (chan_type (the_chan s (mt_to f)), chan_dev (the_chan s (mt_to f)),
                         mt_flag f, qids, clone), s))))"

text \<open>\<open>if(wq->clone != nil) wq->clone->mflag = mflag;\<close>\<close>

definition set_mflag :: "nat option \<Rightarrow> u32 \<Rightarrow> 'd kst \<Rightarrow> 'd kst" where
  "set_mflag c mflag s = (case c of None \<Rightarrow> s | Some c \<Rightarrow> upd_chan c (\<lambda>x. x\<lparr>c_mflag := mflag\<rparr>) s)"

text \<open>The end of a turn: \<open>cclose(c); c = nc; putmhead(mh); mh = nmh;\<close>\<close>

definition walk_next ::
  "'d devops \<Rightarrow> wstate \<Rightarrow> nat \<Rightarrow> nat \<Rightarrow> nat option \<Rightarrow> nat \<Rightarrow> bool \<Rightarrow> 'd kst \<Rightarrow> stepres \<times> 'd kst" where
  "walk_next dev w nc name nmh n didmount s =
     (let s = cclose dev (Some (w_c w)) s; s = putmhead dev (w_mh w) s
      in (Go n \<lparr>w_c = nc, w_name = name, w_mh = nmh, w_didmount = didmount\<rparr>, s))"

text \<open>A failing exit of the loop: what is held is let go.\<close>

definition walk_stop ::
  "'d devops \<Rightarrow> wstate \<Rightarrow> nat \<Rightarrow> kerror option \<Rightarrow> 'd kst \<Rightarrow> stepres \<times> 'd kst" where
  "walk_stop dev w nerror e s =
     (let s = cclose dev (Some (w_c w)) s; s = cnameclose dev (Some (w_name w)) s
      in (Fail nerror e, putmhead dev (w_mh w) s))"

text \<open>The branch for dot-dot, after the device's walk.\<close>

definition walk_dotdot ::
  "'d devops \<Rightarrow> wstate \<Rightarrow> bytes \<Rightarrow> qid list \<Rightarrow> nat option \<Rightarrow> 'd kst \<Rightarrow> stepres \<times> 'd kst" where
  "walk_dotdot dev w name qids clone s =
     (case clone of
        None \<Rightarrow> (Raise Eclone, set_fault s)
      | Some cl \<Rightarrow>
          if length qids \<noteq> 1 then (Raise Eclone, set_fault s)
          else
            (let (cname, s) = addelem dev (w_name w) name s;
                 (nc, s) = undomount dev cl cname s
             in walk_next dev w nc cname None 1 False s))"

text \<open>The other branch: to the first mount point along the way, or to the end of the walk.\<close>

definition walk_forward ::
  "'d devops \<Rightarrow> nat \<Rightarrow> wstate \<Rightarrow> nat \<Rightarrow> bytes list \<Rightarrow> bool \<Rightarrow> 32 word \<Rightarrow> 32 word \<Rightarrow> qid list \<Rightarrow>
     nat option \<Rightarrow> 'd kst \<Rightarrow> stepres \<times> 'd kst" where
  "walk_forward dev pg w nhave names nomount type d qids clone s =
     (case (if nomount then (None, s)
            else scan_mounts dev pg type d 0 (take (length names - 1) qids) s) of
        (None, s) \<Rightarrow>
          (case clone of
             None \<Rightarrow>
               (if qids = [] \<or> is_dir (last qids)
                then walk_stop dev w (nhave + length qids + 1) (Some Edoesnotexist) s
                else walk_stop dev w (nhave + length qids) (Some Enotdir) s)
           | Some nc \<Rightarrow>
               (let (cname, s) = addelems dev (w_name w) (take (length qids) names) None s
                in walk_next dev w nc cname None (length qids) False s))
      | (Some (i, nc, nmh), s) \<Rightarrow>
          (case cunique dev nc s of
             (Inl e, s) \<Rightarrow> (Raise e, s)
           | (Inr nc, s) \<Rightarrow>
               (let s = upd_chan nc (\<lambda>x. x\<lparr>c_mflag := mheadflag (Some nmh) s\<rparr>) s;
                    s = cclose dev clone s;
                    (cname, s) = addelems dev (w_name w) (take (i + 1) names)
                                   (Some (mh_from (the_mhead s nmh))) s
                in walk_next dev w nc cname (Some nmh) (i + 1) True s)))"

text \<open>The start of a turn: the flags of the walk so far, and across a mount point at \<open>c\<close>, if any.\<close>

definition walk_enter ::
  "'d devops \<Rightarrow> nat \<Rightarrow> bool \<Rightarrow> bool \<Rightarrow> wstate \<Rightarrow> 'd kst \<Rightarrow> (wstate \<times> u32) \<times> 'd kst" where
  "walk_enter dev pg nomount dotdot w s =
     (let mflag = c_mflag (the_chan s (w_c w)) in
      if \<not> dotdot \<and> \<not> nomount \<and> \<not> w_didmount w then
        (case domount dev pg (w_c w) (w_mh w) (Some (w_name w)) s of
           ((True, c, mh, Some n), s) \<Rightarrow>
             ((w\<lparr>w_c := c, w_mh := mh, w_name := n\<rparr>, mheadflag mh s), s)
         | (_, s) \<Rightarrow> ((w, mflag), s))
      else ((w, mflag), s))"

text \<open>One turn of the loop: \<open>names\<close> are those not walked yet, \<open>nhave\<close> the number walked.\<close>

definition walk_step ::
  "'d devops \<Rightarrow> nat \<Rightarrow> bool \<Rightarrow> nat \<Rightarrow> bytes list \<Rightarrow> wstate \<Rightarrow> 'd kst \<Rightarrow> stepres \<times> 'd kst" where
  "walk_step dev pg nomount nhave names w s =
     (if \<not> is_dir (c_qid (the_chan s (w_c w))) then
        (let s = cnameclose dev (Some (w_name w)) s; s = cclose dev (Some (w_c w)) s
         in (Fail nhave (Some Enotdir), putmhead dev (w_mh w) s))
      else
        (let (ntry, dotdot) = ntry_of names;
             ((w, mflag), s) = walk_enter dev pg nomount dotdot w s
         in case walk_try dev (w_c w) (w_mh w) nomount mflag (take ntry names) s of
              (None, s) \<Rightarrow> walk_stop dev w (nhave + 1) None s
            | (Some (type, d, mflag, qids, clone), s) \<Rightarrow>
                (let s = set_mflag clone mflag s in
                 if dotdot then walk_dotdot dev w (hd names) qids clone s
                 else walk_forward dev pg w nhave (take ntry names) nomount type d qids clone s)))"

text \<open>Every turn uses at least one name.\<close>

lemma scan_mounts_index: "scan_mounts dev pg type d i qs s = (Some (j, r), s') \<Longrightarrow> i \<le> j"
  by (induction dev pg type d i qs s rule: scan_mounts.induct)
    (fastforce split: prod.splits option.splits bool.splits if_splits)+

lemma walkdev_clone:
  "walkdev dev c names s = (Some (qids, Some nc), s') \<Longrightarrow> length names \<le> length qids"
  by (erule walkdev_cases) simp_all

lemma walk_union_clone:
  "walk_union dev names fs s = (Some (f, qids, Some nc), s') \<Longrightarrow> length names \<le> length qids"
  by (induction dev names fs s rule: walk_union.induct)
    (auto split: option.splits prod.splits dest: walkdev_clone)

lemma walk_try_clone:
  "walk_try dev c mh nomount mflag names s = (Some (type, d, mf, qids, Some nc), s') \<Longrightarrow>
    length names \<le> length qids"
  by (auto simp: walk_try_def Let_def split: option.splits prod.splits if_splits
      dest: walkdev_clone walk_union_clone)

lemma ntry_pos: "names \<noteq> [] \<Longrightarrow> 0 < fst (ntry_of names)"
  by (cases names) (auto simp: ntry_of_def Let_def MAXWELEM_def)

lemma walk_step_pos:
  assumes "walk_step dev pg nomount nhave names w s = (Go n w', s')" and "names \<noteq> []"
  shows "0 < n"
proof -
  have f: "0 < n" if "walk_forward dev pg w0 nhave (take k names) nomount type d qids clone s0 = (Go n w', s')"
    and "clone \<noteq> None \<longrightarrow> length (take k names) \<le> length qids" and "0 < k" for k w0 type d qids clone s0
    using that assms(2)
    by (cases clone)
      (auto simp: walk_forward_def walk_next_def walk_stop_def Let_def min_def
        split: option.splits prod.splits if_splits sum.splits)
  have d: "0 < n" if "walk_dotdot dev w0 e qids clone s0 = (Go n w', s')" for w0 e qids clone s0
    using that by (auto simp: walk_dotdot_def walk_next_def Let_def split: option.splits prod.splits if_splits)
  have k: "0 < fst (ntry_of names)" using assms(2) by (rule ntry_pos)
  show ?thesis
    using assms(1) k
    by (auto simp: walk_step_def Let_def walk_stop_def split: prod.splits option.splits if_splits
        elim!: d f dest: walk_try_clone)
qed

function walk_loop ::
  "'d devops \<Rightarrow> nat \<Rightarrow> bool \<Rightarrow> nat \<Rightarrow> bytes list \<Rightarrow> wstate \<Rightarrow> 'd kst \<Rightarrow> stepres \<times> 'd kst" where
  "walk_loop dev pg nomount nhave names w s =
     (if names = [] then (Go 0 w, s)
      else
        (case walk_step dev pg nomount nhave names w s of
           (Go n w', s') \<Rightarrow> walk_loop dev pg nomount (nhave + n) (drop n names) w' s'
         | (r, s') \<Rightarrow> (r, s')))"
  by pat_completeness auto
termination
  by (relation "measure (\<lambda>(_, _, _, _, names, _, _). length names)")
    (auto dest!: sym [of "(Go _ _, _)"] walk_step_pos)

declare walk_loop.simps [simp del]

definition the_nat :: "nat option \<Rightarrow> nat" where
  "the_nat x = (case x of Some y \<Rightarrow> y | None \<Rightarrow> 0)"

text \<open>The name a walk from \<open>c\<close> works on: its stack is pinned at \<open>c\<close> when it is empty.\<close>

definition walk_pin :: "'d devops \<Rightarrow> nat \<Rightarrow> nat \<Rightarrow> 'd kst \<Rightarrow> nat \<times> 'd kst" where
  "walk_pin dev c cname s =
     (if n_mtpt (the_name s cname) = [] then
        (let (cname, s) =
               (if n_ref (the_name s cname) > 1 then
                  (let (pinned, s) = newcname (n_s (the_name s cname)) s
                   in (pinned, cnameclose dev (Some cname) s))
                else (cname, s))
         in (cname, cnamepush cname (Some c) s))
      else (cname, s))"

text \<open>\<open>cnameclose(c->name); c->name = cname;\<close>\<close>

definition set_name :: "'d devops \<Rightarrow> nat \<Rightarrow> nat option \<Rightarrow> 'd kst \<Rightarrow> 'd kst" where
  "set_name dev c n s =
     (let old = c_name (the_chan s c)
      in cnameclose dev old (upd_chan c (\<lambda>x. x\<lparr>c_name := n\<rparr>) s))"

text \<open>\<open>walk(cp, names, ...)\<close> on \<open>*cp = c\<close>; the channel of \<open>Walked\<close> is the new \<open>*cp\<close>.\<close>

definition walk ::
  "'d devops \<Rightarrow> nat \<Rightarrow> nat \<Rightarrow> bytes list \<Rightarrow> bool \<Rightarrow> 'd kst \<Rightarrow> walkres \<times> 'd kst" where
  "walk dev pg c names nomount s =
     (case c_name (the_chan s c) of
        None \<Rightarrow> (Walk_raise Eclone, set_fault s)
      | Some cname \<Rightarrow>
          (let s = incref_name cname (incref_chan c s);
               (cname, s) = walk_pin dev c cname s
           in case walk_loop dev pg nomount 0 names
                     \<lparr>w_c = c, w_name = cname, w_mh = None, w_didmount = False\<rparr> s of
                (Fail k e, s) \<Rightarrow> (Walk_fail k e, s)
              | (Raise e, s) \<Rightarrow> (Walk_raise e, s)
              | (Go _ w, s) \<Rightarrow>
                  (let s = putmhead dev (w_mh w) s in
                   case cunique dev (w_c w) s of
                     (Inl e, s) \<Rightarrow> (Walk_raise e, s)
                   | (Inr c', s) \<Rightarrow>
                       (let s = set_name dev c' (Some (w_name w)) s
                        in (Walked c', cclose dev (Some c) s)))))"

text \<open>\<open>createdir(c, m)\<close>: a copy of the first mount of the union that permits creation.\<close>

definition createdir :: "'d devops \<Rightarrow> nat \<Rightarrow> nat \<Rightarrow> 'd kst \<Rightarrow> nat res \<times> 'd kst" where
  "createdir dev c m s =
     (case List.find (\<lambda>f. mt_flag f AND (MCREATE OR MREADONLY) = MCREATE) (mh_mount (the_mhead s m)) of
        None \<Rightarrow> (Inl Enocreate, s)
      | Some f \<Rightarrow>
          (case cclone dev (mt_to f) s of
             (Inl e, s) \<Rightarrow> (Inl e, s)
           | (Inr nc, s) \<Rightarrow>
               (Inr nc, cclose dev (Some c) (upd_chan nc (\<lambda>x. x\<lparr>c_mflag := mt_flag f\<rparr>) s))))"

end
