(* ===== verification/Namec.thy ===== *)
theory Namec
  imports Walk
begin

text \<open>
  \<open>namec\<close> of emu/port/chan.c: turning a name into a channel. The text of the error messages is left
  out; \<open>up->genbuf\<close> only serves the device name of a \<open>#\<close> path here.
\<close>

unbundle bit_operations_syntax

datatype amode = Aaccess | Abind | Atodir | Aopen | Amount | Acreate | Aremove

definition OEXEC :: u32 where "OEXEC = 3"
definition OTRUNC :: u32 where "OTRUNC = 16"
definition OCEXEC :: u32 where "OCEXEC = 32"
definition ORCLOSE :: u32 where "ORCLOSE = 64"
definition OEXCL :: u32 where "OEXCL = 0x1000"
definition DMDIR :: u32 where "DMDIR = 0x80000000"
definition GENBUFSIZE :: nat where "GENBUFSIZE = 128"

text \<open>\<open>devattach\<close> of emu/port/dev.c, with the qid and dev the device gives its root.\<close>

definition devattach :: "u32 \<Rightarrow> u16 \<Rightarrow> bytes \<Rightarrow> qid \<Rightarrow> u64 \<Rightarrow> 'd kst \<Rightarrow> nat \<times> 'd kst" where
  "devattach tc type spec q d s =
     (let (c, s) = newchan s;
          (n, s) = newcname (35 # runetochar tc @ spec) s
      in (c, upd_chan c (\<lambda>x. x\<lparr>c_qid := q, c_dev := d, c_type := type, c_name := Some n\<rparr>) s))"

text \<open>\<open>while(*name!='\0' && (*name != '/' || n < 2))\<close>: the device part and the rest of the name.\<close>

fun sharp_split :: "nat \<Rightarrow> bytes \<Rightarrow> bytes \<times> bytes" where
  "sharp_split n [] = ([], [])"
| "sharp_split n (x # name) =
     (if x \<noteq> slash \<or> n < 2 then (let (g, r) = sharp_split (n + 1) name in (x # g, r)) else ([], x # name))"

text \<open>The starting point of \<open>namec\<close>: the channel, the rest of the name and \<open>nomount\<close>.\<close>

definition namec_start ::
  "'d devops \<Rightarrow> nat \<Rightarrow> bytes \<Rightarrow> 'd kst \<Rightarrow> (nat \<times> bytes \<times> bool) res \<times> 'd kst" where
  "namec_start dev pg name s =
     (let p = the_pgrp s pg in
      if at name 0 = slash then
        (case pg_slash p of
           None \<Rightarrow> (Inl Eclone, set_fault s)
         | Some c \<Rightarrow> (Inr (c, name, False), incref_chan c s))
      else if at name 0 = 35 then
        (let (genbuf, rest) = sharp_split 0 name in
         if length genbuf \<ge> GENBUFSIZE then (Inl Efilename, s)
         else
           (let (r, n) = chartorune (drop 1 genbuf); spec = drop (n + 1) genbuf in
            if r = 77 then (Inl Enoattach, s)
            else if pg_nodevs p \<and>
              (utfrune [124, 101, 115, 68, 97] (uint r) = None \<or> r = 115 \<and> spec \<noteq> []) then (Inl Enoattach, s)
            else
              (case ddevno dev r of
                 None \<Rightarrow> (Inl Ebadsharp, s)
               | Some t \<Rightarrow>
                   (case dattach dev (dst s) t spec of
                      Inl e \<Rightarrow> (Inl e, s)
                    | Inr (q, d) \<Rightarrow>
                        (let (c, s) = devattach r t spec q d s in (Inr (c, rest, True), s))))))
      else
        (case pg_dot p of
           None \<Rightarrow> (Inl Eclone, set_fault s)
         | Some c \<Rightarrow> (Inr (c, name, False), incref_chan c s)))"

text \<open>
  The rest of \<open>namec\<close> has an error handler that closes the channel reached: an outcome here is the
  channel with an error or none. \<open>set_mode\<close> is what \<open>devopen\<close> and \<open>devcreate\<close> do to the channel.
\<close>

type_synonym outcome = "kerror option \<times> nat"

definition set_mode :: "nat \<Rightarrow> qid \<times> u16 \<Rightarrow> 'd kst \<Rightarrow> 'd kst" where
  "set_mode c qm = upd_chan c (\<lambda>x. x\<lparr>c_qid := fst qm, c_mode := snd qm, c_offset := 0,
     c_flag := c_flag x OR COPEN\<rparr>)"

definition set_oflags :: "nat \<Rightarrow> u32 \<Rightarrow> 'd kst \<Rightarrow> 'd kst" where
  "set_oflags c omode s =
     (let s = (if omode AND OCEXEC \<noteq> 0 then upd_chan c (\<lambda>x. x\<lparr>c_flag := c_flag x OR CCEXEC\<rparr>) s else s)
      in if omode AND ORCLOSE \<noteq> 0 then upd_chan c (\<lambda>x. x\<lparr>c_flag := c_flag x OR CRCLOSE\<rparr>) s else s)"

text \<open>The cases \<open>Aopen\<close> and \<open>Acreate\<close> at the label \<open>Open\<close>, on our own copy \<open>c\<close>.\<close>

definition open_chan ::
  "'d devops \<Rightarrow> nat \<Rightarrow> nat option \<Rightarrow> u32 \<Rightarrow> 'd kst \<Rightarrow> outcome \<times> 'd kst" where
  "open_chan dev c m omode s =
     (if c_mflag (the_chan s c) AND MREADONLY \<noteq> 0 \<and> mutatingmode omode then
        ((Some Eperm, c), putmhead dev m s)
      else
        (let s = (case m of
                    None \<Rightarrow> s
                  | Some h \<Rightarrow>
                      if mh_mount (the_mhead s h) \<noteq> [] \<and> tl (mh_mount (the_mhead s h)) \<noteq> []
                      then upd_chan c (\<lambda>x. x\<lparr>c_umh := m\<rparr>) s else putmhead dev m s);
             s = (if omode = OEXEC then upd_chan c (\<lambda>x. x\<lparr>c_flag := c_flag x AND NOT CCACHE\<rparr>) s else s)
         in case dopen dev (dst s) (the_chan s c) (omode AND NOT OCEXEC) of
              Inl e \<Rightarrow> ((Some e, c), s)
            | Inr qm \<Rightarrow> ((None, c), set_oflags c omode (set_mode c qm s))))"

text \<open>The label \<open>Open\<close>.\<close>

definition namec_open ::
  "'d devops \<Rightarrow> nat \<Rightarrow> amode \<Rightarrow> u32 \<Rightarrow> bool \<Rightarrow> nat \<Rightarrow> 'd kst \<Rightarrow> outcome \<times> 'd kst" where
  "namec_open dev pg amode omode nomount c s =
     (case c_name (the_chan s c) of
        None \<Rightarrow> ((Some Eclone, c), set_fault s)
      | Some cname \<Rightarrow>
          (let s = incref_name cname s;
               ((found, c, m, n), s) =
                 (if nomount then ((False, c, None, Some cname), s) else domount dev pg c None (Some cname) s)
           in case cunique dev c s of
                (Inl e, s) \<Rightarrow> ((Some e, c), putmhead dev m s)
              | (Inr c, s) \<Rightarrow>
                  (let s = (if m \<noteq> None then upd_chan c (\<lambda>x. x\<lparr>c_mflag := mheadflag m s\<rparr>) s else s);
                       s = set_name dev c n s
                   in if amode = Aremove then
                        (if c_mflag (the_chan s c) AND MREADONLY \<noteq> 0 then ((Some Eperm, c), putmhead dev m s)
                         else ((None, c), putmhead dev m s))
                      else open_chan dev c m omode s)))"

text \<open>
  The attempt to create the last element \<open>e\<close> in the directory \<open>c\<close>: the directory of the union to create in,
  our own copy of it and the device's answer, the error or the new channel.
\<close>

definition create_where ::
  "'d devops \<Rightarrow> nat \<Rightarrow> bool \<Rightarrow> nat \<Rightarrow> 'd kst \<Rightarrow> (outcome \<times> nat option) \<times> 'd kst" where
  "create_where dev pg nomount c s =
     (let ((found, cnew, m), s) =
            (if nomount then ((False, None, None), s)
             else (case findmount dev pg None (Some None) (chan_type (the_chan s c)) (chan_dev (the_chan s c))
                          (c_qid (the_chan s c)) s of
                     ((True, Some cnew, Some m), s) \<Rightarrow> ((True, Some cnew, m), s)
                   | (_, s) \<Rightarrow> ((False, None, None), s)))
      in (case (found, cnew, m) of
            (True, Some cn, Some h) \<Rightarrow>
              (case createdir dev cn h s of (Inl x, s) \<Rightarrow> (((Some x, cn), m), s) | (Inr cn, s) \<Rightarrow> (((None, cn), m), s))
          | _ \<Rightarrow> (((None, c), m), incref_chan c s)))"

definition create_new ::
  "'d devops \<Rightarrow> u32 \<Rightarrow> u32 \<Rightarrow> bytes \<Rightarrow> nat \<Rightarrow> nat \<Rightarrow> 'd kst \<Rightarrow> outcome \<times> 'd kst" where
  "create_new dev omode perm e c cnew s =
     (case cunique dev cnew s of
        (Inl x, s) \<Rightarrow> ((Some x, cnew), s)
      | (Inr cn, s) \<Rightarrow>
          if c_mflag (the_chan s cn) AND MREADONLY \<noteq> 0 then ((Some Eperm, cn), s)
          else
            (let s = set_name dev cn (c_name (the_chan s c)) (incref_name_opt (c_name (the_chan s c)) s)
             in case dcreate dev (dst s) (the_chan s cn) e (omode AND NOT (OEXCL OR OCEXEC)) perm of
                  Inl x \<Rightarrow> ((Some x, cn), s)
                | Inr qm \<Rightarrow> ((None, cn), set_mode cn qm s)))"

definition try_create ::
  "'d devops \<Rightarrow> nat \<Rightarrow> u32 \<Rightarrow> u32 \<Rightarrow> bool \<Rightarrow> bytes \<Rightarrow> nat \<Rightarrow> 'd kst \<Rightarrow> outcome \<times> 'd kst" where
  "try_create dev pg omode perm nomount e c s =
     (let (((err, cnew), m), s) = create_where dev pg nomount c s;
          ((err, cnew), s) = (case err of Some x \<Rightarrow> ((err, cnew), s) | None \<Rightarrow> create_new dev omode perm e c cnew s)
      in case err of
           Some x \<Rightarrow> ((Some x, c), putmhead dev m (cclose dev (Some cnew) s))
         | None \<Rightarrow>
             (let s = set_oflags cnew omode s;
                  s = putmhead dev m s;
                  s = cclose dev (Some c) s
              in case c_name (the_chan s cnew) of
                   None \<Rightarrow> ((None, cnew), set_fault s)
                 | Some n \<Rightarrow>
                     (let (n, s) = addelem dev n e s
                      in ((None, cnew), upd_chan cnew (\<lambda>x. x\<lparr>c_name := Some n\<rparr>) s))))"

definition walk_err :: "kerror option \<Rightarrow> kerror" where
  "walk_err e = (case e of Some x \<Rightarrow> x | None \<Rightarrow> Edoesnotexist)"

text \<open>The case \<open>Acreate\<close>.\<close>

definition namec_create ::
  "'d devops \<Rightarrow> nat \<Rightarrow> u32 \<Rightarrow> u32 \<Rightarrow> bool \<Rightarrow> bytes \<Rightarrow> nat \<Rightarrow> 'd kst \<Rightarrow> outcome \<times> 'd kst" where
  "namec_create dev pg omode perm nomount e c s =
     (case walk dev pg c [e] nomount s of
        (Walked c, s) \<Rightarrow>
          (if omode AND OEXCL \<noteq> 0 then ((Some Eexist, c), s)
           else namec_open dev pg Acreate (omode OR OTRUNC) nomount c s)
      | (Walk_raise x, s) \<Rightarrow> ((Some x, c), s)
      | (Walk_fail _ _, s) \<Rightarrow>
          (case try_create dev pg omode perm nomount e c s of
             ((None, c), s) \<Rightarrow> ((None, c), s)
           | ((Some x, c), s) \<Rightarrow>
               if omode AND OEXCL \<noteq> 0 then ((Some x, c), s)
               else
                 (case walk dev pg c [e] nomount s of
                    (Walked c, s) \<Rightarrow> namec_open dev pg Acreate (omode OR OTRUNC) nomount c s
                  | (Walk_raise y, s) \<Rightarrow> ((Some y, c), s)
                  | (Walk_fail _ _, s) \<Rightarrow> ((Some x, c), s))))"

text \<open>The \<open>switch(amode)\<close>, on the channel \<open>c\<close> the walk reached.\<close>

definition namec_switch ::
  "'d devops \<Rightarrow> nat \<Rightarrow> amode \<Rightarrow> u32 \<Rightarrow> u32 \<Rightarrow> bool \<Rightarrow> bytes list \<Rightarrow> nat \<Rightarrow> 'd kst \<Rightarrow> outcome \<times> 'd kst" where
  "namec_switch dev pg amode omode perm nomount elems c s =
     (case amode of
        Aaccess \<Rightarrow>
          (let ((found, c, m, _), s) =
                 (if nomount then ((False, c, None, None), s) else domount dev pg c None None s)
           in if found then
                (case cunique dev c s of
                   (Inl e, s) \<Rightarrow> ((Some e, c), putmhead dev m s)
                 | (Inr c, s) \<Rightarrow>
                     ((None, c), putmhead dev m (upd_chan c (\<lambda>x. x\<lparr>c_mflag := mheadflag m s\<rparr>) s)))
              else ((None, c), putmhead dev m s))
      | Abind \<Rightarrow>
          (let ((found, c, m, _), s) =
                 (if nomount then ((False, c, None, None), s) else domount dev pg c None None s);
               s = (if found then upd_chan c (\<lambda>x. x\<lparr>c_mflag := mheadflag m s\<rparr>) s else s)
           in case cunique dev c s of
                (Inl e, s) \<Rightarrow> ((Some e, c), putmhead dev m s)
              | (Inr c, s) \<Rightarrow> ((None, c), upd_chan c (\<lambda>x. x\<lparr>c_umh := m\<rparr>) s))
      | Aremove \<Rightarrow> namec_open dev pg amode omode nomount c s
      | Aopen \<Rightarrow> namec_open dev pg amode omode nomount c s
      | Atodir \<Rightarrow> (if is_dir (c_qid (the_chan s c)) then ((None, c), s) else ((Some Enotdir, c), s))
      | Amount \<Rightarrow> ((None, c), s)
      | Acreate \<Rightarrow> namec_create dev pg omode perm nomount (last elems) c s)"

text \<open>The body of \<open>namec\<close> under its error handler.\<close>

definition namec_body ::
  "'d devops \<Rightarrow> nat \<Rightarrow> amode \<Rightarrow> u32 \<Rightarrow> u32 \<Rightarrow> bool \<Rightarrow> bytes \<Rightarrow> nat \<Rightarrow> 'd kst \<Rightarrow> outcome \<times> 'd kst" where
  "namec_body dev pg amode omode perm nomount name c s =
     (let e = parsename name;
          elems = e_elems e
      in if amode = Acreate \<and> e_mustbedir e \<and> perm AND DMDIR = 0 then ((Some Enodmdir, c), s)
         else if amode = Acreate \<and> elems = [] then ((Some Eexist, c), s)
         else
           (case walk dev pg c (if amode = Acreate then butlast elems else elems) nomount s of
              (Walk_fail _ x, s) \<Rightarrow> ((Some (walk_err x), c), s)
            | (Walk_raise x, s) \<Rightarrow> ((Some x, c), s)
            | (Walked c, s) \<Rightarrow>
                if e_mustbedir e \<and> \<not> is_dir (c_qid (the_chan s c)) then ((Some Enotdir, c), s)
                else if amode = Aopen \<and> omode AND 3 = OEXEC \<and> is_dir (c_qid (the_chan s c)) then
                  ((Some Eexecdir, c), s)
                else namec_switch dev pg amode omode perm nomount elems c s))"

definition namec ::
  "'d devops \<Rightarrow> nat \<Rightarrow> bytes \<Rightarrow> amode \<Rightarrow> u32 \<Rightarrow> u32 \<Rightarrow> 'd kst \<Rightarrow> nat res \<times> 'd kst" where
  "namec dev pg aname amode omode perm s =
     (if aname = [] then (Inl Eempty, s)
      else
        (case validname aname True of
           Name_too_long \<Rightarrow> (Inl Etoolong, s)
         | Bad_char \<Rightarrow> (Inl Ebadchar, s)
         | Name_ok \<Rightarrow>
             (case namec_start dev pg aname s of
                (Inl e, s) \<Rightarrow> (Inl e, s)
              | (Inr (c, name, nomount), s) \<Rightarrow>
                  (case namec_body dev pg amode omode perm nomount name c s of
                     ((None, c), s) \<Rightarrow> (Inr c, s)
                   | ((Some e, c), s) \<Rightarrow> (Inl e, cclose dev (Some c) s)))))"

end
