(* ===== verification/WalkRoot.thy ===== *)
theory WalkRoot
  imports Walk
begin

text \<open>
  What \<open>walk\<close> of emu/port/chan.c guarantees: it consumes and hands out exactly the references it should,
  leaves everything others hold alone, and keeps the stack of mount points in step with the path, so
  that dot-dot cannot rise above the channel the walk is pinned to. The loop invariant is \<open>winv\<close>.
\<close>

section \<open>The accounting of a walk, and its root\<close>

text \<open>
  Two channels are at the same place when the mount table cannot tell them apart. \<open>findmount\<close>
  compares device numbers as 32-bit integers.
\<close>

definition place :: "chan \<Rightarrow> u16 \<times> 32 word \<times> u64" where
  "place c = (c_type c, chan_dev c, q_path (c_qid c))"

lemma place_ident: "ident x = ident y \<Longrightarrow> place x = place y"
  by (simp add: place_def ident_def chan_dev_def)

lemma scast_back: "ucast (scast (x :: 32 word) :: u64) = x"
  by (rule bit_word_eqI) (auto simp: bit_simps)

lemma ucast_inj: "ucast (x :: u16) = (ucast y :: 32 word) \<Longrightarrow> x = y"
  by transfer simp

lemma eqchantdqid_place:
  assumes "eqchantdqid a (chan_type c) (chan_dev c) (c_qid c) True" shows "place a = place c"
proof -
  have a: "q_path (c_qid a) = q_path (c_qid c)" "ucast (c_type a) = (ucast (c_type c) :: 32 word)" "c_dev a = scast (chan_dev c)"
    using assms by (auto simp: eqchantdqid_def chan_type_def split: if_splits)
  have "c_type a = c_type c" using a(2) by (rule ucast_inj)
  moreover have "chan_dev a = chan_dev c" using a(3) scast_back by (simp add: chan_dev_def)
  ultimately show ?thesis using a(1) by (simp add: place_def)
qed

text \<open>An element \<open>.\<close> is no step; \<open>addelem\<close> ignores it.\<close>

definition is_dot :: "bytes \<Rightarrow> bool" where
  "is_dot e \<longleftrightarrow> at e 0 = dot \<and> at e 1 = 0"

text \<open>The depth below the root of the walk, after some elements.\<close>

fun depth :: "nat \<Rightarrow> bytes list \<Rightarrow> nat" where
  "depth d [] = d"
| "depth d (e # es) = depth (if isdotdot e then d - 1 else d + 1) es"

lemma depth_append: "depth d (xs @ ys) = depth (depth d xs) ys"
  by (induction xs arbitrary: d) simp_all

lemma depth_forward: "\<forall>e\<in>set es. \<not> isdotdot e \<Longrightarrow> depth d es = d + length es"
  by (induction es arbitrary: d) simp_all

text \<open>The stack of a name: \<open>d\<close> slots above the one that pins the root.\<close>

definition pinned :: "'d kst \<Rightarrow> nat \<Rightarrow> u16 \<times> 32 word \<times> u64 \<Rightarrow> nat \<Rightarrow> bool" where
  "pinned s n root d \<longleftrightarrow>
     (\<exists>r L. n_mtpt (cnames s ! n) = Some r # L \<and> length L = d \<and> place (chans s ! r) = root)"

definition winv :: "nat \<Rightarrow> u16 \<times> 32 word \<times> u64 \<Rightarrow> nat \<Rightarrow> held \<Rightarrow> 'd kst \<Rightarrow> wstate \<Rightarrow> bool" where
  "winv pg root d H s w \<longleftrightarrow>
     counted s (addC {#w_c w#} (addM (opt_ms (w_mh w)) (addN {#w_name w#} H))) \<and>
     \<not> is_open (chans s ! w_c w) \<and> linked_ok s \<and> live_pgrp s pg \<and>
     set_mset (opt_ms (w_mh w)) \<subseteq> set_mset (links s) \<and>
     pinned s (w_name w) root d \<and> (d = 0 \<longrightarrow> place (chans s ! w_c w) = root)"

section \<open>The parts of a turn\<close>

lemma walkdev_step:
  assumes "counted s H" and "c \<in># ownC s + hC H" and "\<not> is_open (chans s ! c)"
    and "walkdev dev c names s = (Some (qids, clone), s')"
  shows "counted s' (addC (opt_ms clone) H)" and "steady H s s'"
    and "clone = Some nc \<Longrightarrow> length qids = length names \<and> \<not> is_open (chans s' ! nc) \<and> nc \<notin># ownC s + hC H"
    and "clone = None \<Longrightarrow> s' = s \<and> qids \<noteq> [] \<and> length qids < length names"
proof -
  show "counted s' (addC (opt_ms clone) H)" "steady H s s'"
    using assms(1) walkdev_none(2) walkdev_counted(1,2) [OF assms(1-3)] assms(4) by (cases clone; fastforce)+
  show "clone = Some nc \<Longrightarrow> length qids = length names \<and> \<not> is_open (chans s' ! nc) \<and> nc \<notin># ownC s + hC H"
    using walkdev_counted(3,4) [OF assms(1-3)] assms(4)
    by (auto simp: fresh_clone_def is_open_def elim: walkdev_cases)
  show "clone = None \<Longrightarrow> s' = s \<and> qids \<noteq> [] \<and> length qids < length names"
    using assms(4) by (auto elim: walkdev_cases)
qed

lemma walk_union_step:
  assumes "counted s H" and "\<forall>f\<in>set fs. mt_to f \<in># headsC s"
    and "walk_union dev names fs s = (r, s')"
  shows "case r of None \<Rightarrow> s' = s
    | Some (f, qids, clone) \<Rightarrow> counted s' (addC (opt_ms clone) H) \<and> steady H s s'
        \<and> (\<forall>nc. clone = Some nc \<longrightarrow> length qids = length names \<and> \<not> is_open (chans s' ! nc) \<and> nc \<notin># ownC s + hC H)
        \<and> (clone = None \<longrightarrow> s' = s \<and> qids \<noteq> [] \<and> length qids < length names)"
  using assms(2,3)
proof (induction fs)
  case (Cons f fs)
  have f: "mt_to f \<in># ownC s + hC H" "\<not> is_open (chans s ! mt_to f)"
    using Cons(2) headsC_own [of "mt_to f" s] countedD(9) [OF assms(1)] by auto
  obtain x t where w: "walkdev dev (mt_to f) names s = (x, t)" by (cases "walkdev dev (mt_to f) names s")
  show ?case
  proof (cases x)
    case None
    then have "t = s" using w walkdev_none(1) by blast
    then show ?thesis using Cons None w by simp
  next
    case (Some y)
    then obtain qids clone where x: "x = Some (qids, clone)" by (cases y) auto
    then have r: "r = Some (f, qids, clone)" "s' = t" using Cons(3) w by simp_all
    show ?thesis using walkdev_step [OF assms(1) f, of dev names qids clone t] w x r by simp
  qed
qed simp

lemma walk_try_step:
  assumes "counted s H" and "c \<in># ownC s + hC H" and "\<not> is_open (chans s ! c)" and "linked_ok s"
    and "set_mset (opt_ms mh) \<subseteq> set_mset (links s)"
    and "walk_try dev c mh nomount mflag names s = (r, s')"
  shows "case r of None \<Rightarrow> s' = s
    | Some (type, d, mf, qids, clone) \<Rightarrow> counted s' (addC (opt_ms clone) H) \<and> steady H s s'
        \<and> (\<forall>nc. clone = Some nc \<longrightarrow> length qids = length names \<and> \<not> is_open (chans s' ! nc) \<and> nc \<notin># ownC s + hC H)
        \<and> (clone = None \<longrightarrow> s' = s \<and> qids \<noteq> [] \<and> length qids < length names)"
proof -
  obtain x t where w: "walkdev dev c names s = (x, t)" by (cases "walkdev dev c names s")
  show ?thesis
  proof (cases x)
    case (Some y)
    then obtain qids clone where x: "x = Some (qids, clone)" by (cases y) auto
    then have "r = Some (chan_type (chans s ! c), chan_dev (chans s ! c), mflag, qids, clone)" "s' = t"
      using assms(6) w by (simp_all add: walk_try_def)
    then show ?thesis using walkdev_step [OF assms(1-3), of dev names qids clone t] w x by simp
  next
    case None
    then have t: "t = s" using w walkdev_none(1) by blast
    show ?thesis
    proof (cases "mh = None \<or> nomount")
      case True
      then show ?thesis using assms(6) w None t by (auto simp: walk_try_def split: option.splits)
    next
      case False
      then obtain h where h: "mh = Some h" "h \<in># links s" using assms(5) by auto
      have ne: "mh_mount (mheads s ! h) \<noteq> []" using h assms(4) by (simp add: linked_ok_def)
      have hl: "h < length (mheads s)" using linked_live [OF assms(1) h(2)] by blast
      have fs: "\<forall>f\<in>set (tl (mh_mount (mheads s ! h))). mt_to f \<in># headsC s"
        using head_owns(2) [OF hl ne] by (auto dest: list.set_sel(2) [OF ne])
      obtain y u where wu: "walk_union dev names (tl (mh_mount (mheads s ! h))) s = (y, u)"
        by (cases "walk_union dev names (tl (mh_mount (mheads s ! h))) s")
      note un = walk_union_step [OF assms(1) fs wu]
      show ?thesis
      proof (cases y)
        case None
        then show ?thesis using assms(6) w \<open>x = None\<close> t h False ne wu un by (simp add: walk_try_def)
      next
        case (Some z)
        then obtain f qids clone where y: "y = Some (f, qids, clone)" by (cases z) auto
        then have "s' = u" "\<exists>a b e. r = Some (a, b, e, qids, clone)"
          using assms(6) w \<open>x = None\<close> t h False ne wu by (auto simp: walk_try_def)
        then show ?thesis using un y by auto
      qed
    qed
  qed
qed

lemma scan_mounts_step:
  assumes "counted s H" and "live_pgrp s pg" and "linked_ok s"
    and "scan_mounts dev pg type d i qs s = (r, s')"
  shows "case r of None \<Rightarrow> s' = s
    | Some (j, nc, m) \<Rightarrow> j < i + length qs \<and> counted s' (addC {#nc#} (addM {#m#} H)) \<and> steady H s s' \<and> m \<in># links s
        \<and> \<not> is_open (chans s' ! nc) \<and> (\<forall>x. ident (chans s' ! x) = ident (chans s ! x)) \<and> nc \<in># ownC s"
  using assms(4)
proof (induction qs arbitrary: i)
  case (Cons q qs)
  show ?case
  proof (cases "mhead_tdqid pg type d q s")
    case None
    then show ?thesis using Cons(1) [of "i + 1"] Cons(2) findmount_none [OF None, of dev None "Some None"]
      by (auto split: option.splits)
  next
    case (Some m)
    have c: "counted s (addC (opt_ms None) (addM (opt_ms None) H))" using assms(1) by simp
    from findmount_some [OF c assms(2,3) Some] obtain f fs t where
      f: "mh_mount (mheads s ! m) = f # fs" "m \<in># links s"
      and fm: "findmount dev pg None (Some None) type d q s = ((True, Some (mt_to f), Some (Some m)), t)"
      and t: "counted t (addC {#mt_to f#} (addM {#m#} H))" "steady H s t" "\<forall>x. ident (chans t ! x) = ident (chans s ! x)"
      by blast
    have "r = Some (i, mt_to f, m)" "s' = t" using Cons(2) fm by simp_all
    moreover have "mt_to f \<in># headsC s"
      using head_owns(2) [of m s f] f linked_live [OF assms(1) f(2)] by simp
    then have "mt_to f \<in># headsC t" "mt_to f \<in># ownC s"
      using headsC_steady [OF t(2)] headsC_own [of "mt_to f" s] by simp_all
    then have "\<not> is_open (chans t ! mt_to f)" "mt_to f \<in># ownC s" using headsC_own countedD(9) [OF t(1)] by blast+
    ultimately show ?thesis using t f by simp
  qed
qed simp

lemma addelems_op:
  assumes "counted s (addN {#n#} H)" and "\<forall>e\<in>set es. \<not> is_dot e \<and> \<not> isdotdot e"
    and "set_mset (opt_ms mp) \<subseteq> set_mset (headsC s)" and "addelems dev n es mp s = (n', s')"
  shows "name_op H s s' n'"
    and "\<exists>M. length M = length es \<and> n_mtpt (cnames s' ! n') = n_mtpt (cnames s ! n) @ M"
proof -
  have "name_op H s s' n' \<and> (\<exists>M. length M = length es \<and> n_mtpt (cnames s' ! n') = n_mtpt (cnames s ! n) @ M)"
    using assms
  proof (induction es arbitrary: s n)
    case Nil
    then show ?case by (auto simp: name_op_def)
  next
    case (Cons e es)
    obtain n1 s1 where a: "addelem dev n e s = (n1, s1)" by (cases "addelem dev n e s")
    have nd: "\<not> (at e 0 = dot \<and> at e 1 = 0)" "\<not> isdotdot e" using Cons(3) by (auto simp: is_dot_def)
    note r1 = addelem_op [OF Cons(2) nd(1) a]
    let ?mp = "if es = [] then mp else None"
    have h1: "headsC s1 = headsC s" using headsC_steady [OF name_opD(2) [OF r1(1)]] .
    have m: "opt_ms ?mp \<subseteq># ownC s1 + hC H"
      using Cons(4) h1 headsC_own [of _ s1] by (cases mp) auto
    have op: "\<And>c. ?mp = Some c \<Longrightarrow> \<not> is_open (chans s1 ! c)"
      using Cons(4) h1 headsC_own [of _ s1] countedD(9) [OF name_opD(1) [OF r1(1)]] by (auto split: if_splits)
    note r2 = cnamepush_op [OF name_opD(1) [OF r1(1)] r1(2) m op]
    let ?s2 = "cnamepush n1 ?mp s1"
    have h2: "headsC ?s2 = headsC s" using headsC_steady [OF name_opD(2) [OF r2(1)]] h1 by simp
    have rest: "addelems dev n1 es mp ?s2 = (n', s')" using Cons(5) a by simp
    have "\<forall>e\<in>set es. \<not> is_dot e \<and> \<not> isdotdot e" "set_mset (opt_ms mp) \<subseteq> set_mset (headsC ?s2)"
      using Cons(3,4) h2 by simp_all
    from Cons(1) [OF name_opD(1) [OF r2(1)] this rest] obtain M where
      M: "name_op H ?s2 s' n'" "length M = length es" "n_mtpt (cnames s' ! n') = n_mtpt (cnames ?s2 ! n1) @ M"
      by blast
    have "n_mtpt (cnames s' ! n') = n_mtpt (cnames s ! n) @ (?mp # M)"
      using M(3) r2(2) r1(3) nd(2) by simp
    then show ?case
      using M(2) name_op_trans [OF name_op_trans [OF r1(1) r2(1)] M(1)] by (intro conjI exI [of _ "?mp # M"]) simp_all
  qed
  then show "name_op H s s' n'" "\<exists>M. length M = length es \<and> n_mtpt (cnames s' ! n') = n_mtpt (cnames s ! n) @ M"
    by blast+
qed

lemma undomount_op:
  assumes "counted s (addC {#c#} (addN {#n#} H))" and "n \<notin># ownN s + hN H" and "\<not> is_open (chans s ! c)"
    and "n_mtpt (cnames s ! n) = Some r # L" and "c \<noteq> r" and "undomount dev c n s = (c', s')"
  shows "counted s' (addC {#c'#} (addN {#n#} H))" and "steady H s s'" and "\<not> is_open (chans s' ! c')"
    and "\<forall>x. ident (chans s' ! x) = ident (chans s ! x)" and "L = [] \<Longrightarrow> c' = r"
    and "\<exists>M. length M = length L \<and> n_mtpt (cnames s' ! n) = Some r # M"
proof -
  let ?mt = "n_mtpt (cnames s ! n)"
  have cN: "counted s (addN {#n#} (addC {#c#} H))" using assms(1) by (simp add: add_comm)
  have "counted s' (addC {#c'#} (addN {#n#} H)) \<and> steady H s s' \<and> \<not> is_open (chans s' ! c')
    \<and> (\<forall>x. ident (chans s' ! x) = ident (chans s ! x)) \<and> (L = [] \<longrightarrow> c' = r)
    \<and> (\<exists>M. length M = length L \<and> n_mtpt (cnames s' ! n) = Some r # M)"
  proof (cases "L = []")
    case True
    then have e: "c' = r" "s' = cclose dev (Some c) (incref_chan r s)"
      using assms(4-6) by (auto simp: undomount_def)
    have r: "\<not> is_open (chans s ! r)" "r \<in># ownC s"
      using slots_closed [OF cN, of r] assms(4) by (simp_all add: opts_ms_def)
    have c1: "counted (incref_chan r s) (addC (opt_ms (Some c)) (addC {#r#} (addN {#n#} H)))"
      using incref_chan_counted [OF assms(1), of r] r by (simp add: add_comm ac_simps)
    have c2: "counted s' (addC {#r#} (addN {#n#} H))" unfolding e by (rule cclose_counted [OF c1])
    have k: "kept (incref_chan r s) s'" by (simp add: e)
    have st: "steady (addC {#r#} (addN {#n#} H)) s s'"
      unfolding e(2) by (rule steady_trans [OF incref_steady(1) closes_steady(1) [OF c1]])
    have "\<not> is_open (chans s' ! r)"
      using steadyD(10) [OF st, of r] r by (simp add: is_open_def)
    moreover have "ident (chans s' ! x) = ident (chans s ! x)" for x
      using keptD(7) [OF k, of x] by (simp add: incref_is_bump ident_bump)
    moreover have "n_mtpt (cnames s' ! n) = [Some r]" using steadyD(12) [OF st, of n] assms(4) True by simp
    ultimately show ?thesis using c2 steady_mono(2) [OF steady_mono(1) [OF st]] e True by simp
  next
    case False
    let ?i = "length ?mt - 1" and ?g = "\<lambda>l. l[length ?mt - 1 := None]"
    define t where "t = upd_name n (\<lambda>x. x\<lparr>n_mtpt := ?g (n_mtpt x)\<rparr>) s"
    let ?nc = "?mt ! ?i"
    have i: "?i < length ?mt" "?i \<noteq> 0" using assms(4) False by (cases L; simp)+
    have u: "undomount dev c n s = (case ?nc of None \<Rightarrow> (c, t) | Some nc \<Rightarrow> (nc, cclose dev (Some c) t))"
      using i by (auto simp: undomount_def t_def Let_def split: option.split)
    have o: "\<forall>x\<in>#opts_ms (?g ?mt). \<not> is_open (chans s ! x)"
      using slots_closed(1) [OF cN] by (auto dest: opts_ms_upd_in)
    have ms: "opts_ms (?g ?mt) + opt_ms ?nc = opts_ms ?mt + {#}" using opts_ms_upd [OF i(1), of None] by simp
    have cN0: "counted s (addC {#} (addN {#n#} (addC {#c#} H)))" using cN by simp
    have al: "n \<notin># ownN s + hN (addC {#c#} H)" using assms(2) by simp
    note r = slots_op [where g = ?g, OF cN0 al ms o _ t_def, simplified]
    have M: "\<exists>M. length M = length L \<and> ?g ?mt = Some r # M"
      using assms(4) False by (cases L) (auto split: nat.split)
    have id: "ident (chans t ! x) = ident (chans s ! x)" "chans t = chans s" for x by (simp_all add: t_def)
    show ?thesis
    proof (cases ?nc)
      case None
      then have e: "c' = c" "s' = t" using u assms(6) by simp_all
      have "counted t (addC {#c#} (addN {#n#} H))" using r(1) None by (simp add: add_comm)
      then show ?thesis using e r(2) steady_mono(1) [OF r(2)] assms(3) id M r(4) False by simp
    next
      case (Some nc)
      then have e: "c' = nc" "s' = cclose dev (Some c) t" using u assms(6) by simp_all
      have c1: "counted t (addC (opt_ms (Some c)) (addC {#nc#} (addN {#n#} H)))"
        using r(1) Some by (simp add: add_comm ac_simps add_mset_commute)
      have c2: "counted s' (addC {#nc#} (addN {#n#} H))" unfolding e by (rule cclose_counted [OF c1])
      have st: "steady (addC {#nc#} (addN {#n#} H)) t s'" unfolding e(2) by (rule closes_steady(1) [OF c1])
      have "nc \<in># opts_ms ?mt" using Some i(1) opts_ms_upd [OF i(1), of None] by (metis opt_ms_simps add.right_neutral union_iff set_mset_add_mset_insert insertI1)
      then have "\<not> is_open (chans s ! nc)" using slots_closed(1) [OF cN] by blast
      then have "\<not> is_open (chans s' ! nc)" using steadyD(10) [OF st, of nc] by (simp add: id is_open_def)
      moreover have "ident (chans s' ! x) = ident (chans s ! x)" for x
        using keptD(7) [of t s' x] by (simp add: e id)
      moreover have "n_mtpt (cnames s' ! n) = ?g ?mt" using steadyD(12) [OF st, of n] r(4) by simp
      moreover have "steady H s s'"
        by (rule steady_trans [OF steady_mono(1) [OF r(2)] steady_mono(2) [OF steady_mono(1) [OF st]]])
      ultimately show ?thesis using c2 e M False by simp
    qed
  qed
  then show "counted s' (addC {#c'#} (addN {#n#} H))" "steady H s s'" "\<not> is_open (chans s' ! c')"
    "\<forall>x. ident (chans s' ! x) = ident (chans s ! x)" "L = [] \<Longrightarrow> c' = r"
    "\<exists>M. length M = length L \<and> n_mtpt (cnames s' ! n) = Some r # M" by blast+
qed

text \<open>\<open>winv\<close> without its last clause, as it holds across a mount point.\<close>

definition winv0 :: "nat \<Rightarrow> u16 \<times> 32 word \<times> u64 \<Rightarrow> nat \<Rightarrow> held \<Rightarrow> 'd kst \<Rightarrow> wstate \<Rightarrow> bool" where
  "winv0 pg root d H s w \<longleftrightarrow>
     counted s (addC {#w_c w#} (addM (opt_ms (w_mh w)) (addN {#w_name w#} H))) \<and>
     \<not> is_open (chans s ! w_c w) \<and> linked_ok s \<and> live_pgrp s pg \<and>
     set_mset (opt_ms (w_mh w)) \<subseteq> set_mset (links s) \<and> pinned s (w_name w) root d"

lemma winv_winv0: "winv pg root d H s w \<longleftrightarrow> winv0 pg root d H s w \<and> (d = 0 \<longrightarrow> place (chans s ! w_c w) = root)"
  by (auto simp: winv_def winv0_def)

lemma pinned_same:
  "pinned s n root d \<Longrightarrow> n_mtpt (cnames s' ! n') = n_mtpt (cnames s ! n) \<Longrightarrow>
    \<forall>x. ident (chans s' ! x) = ident (chans s ! x) \<Longrightarrow> pinned s' n' root d"
  unfolding pinned_def by (metis place_ident)

lemma steady_world:
  assumes "steady H s s'" and "counted s' H'" and "linked_ok s" and "live_pgrp s pg"
  shows "linked_ok s'" and "live_pgrp s' pg" and "links s' = links s"
proof -
  show l: "links s' = links s" using links_steady [OF assms(1)] .
  show "live_pgrp s' pg" using live_steady [OF assms(1)] assms(4) by simp
  have "m < length (mheads s)" if "m \<in># links s" for m
    using linked_live [OF assms(2), of m] that l steadyD(4) [OF assms(1)] by simp
  then show "linked_ok s'" using assms(3) l steadyD(6) [OF assms(1)] by (auto simp: linked_ok_def)
qed

lemma walk_enter_ok:
  assumes "winv pg root d H s w" and "walk_enter dev pg nomount dotdot w s = ((w', mf), s')"
  shows "winv0 pg root d H s' w'" and "steady H s s'"
proof -
  have i: "winv0 pg root d H s w" "d = 0 \<Longrightarrow> place (chans s ! w_c w) = root" using assms(1) by (auto simp: winv_winv0)
  note j = i(1) [unfolded winv0_def]
  let ?c = "chans s ! w_c w"
  have "winv0 pg root d H s' w' \<and> steady H s s'"
  proof (cases "\<not> dotdot \<and> \<not> nomount \<and> \<not> w_didmount w")
    case False
    then have "w' = w" "s' = s" using assms(2) by (auto simp: walk_enter_def Let_def split: if_splits)
    then show ?thesis using i(1) by simp
  next
    case True
    show ?thesis
    proof (cases "mhead_tdqid pg (chan_type ?c) (chan_dev ?c) (c_qid ?c) s")
      case None
      then have "w' = w" "s' = s"
        using assms(2) True domount_none [OF None, of dev "w_mh w" "Some (w_name w)"] by (simp_all add: walk_enter_def)
      then show ?thesis using i(1) by simp
    next
      case (Some m)
      have j1: "counted s (addC {#w_c w#} (addM (opt_ms (w_mh w)) (addN {#w_name w#} H)))" "live_pgrp s pg" "linked_ok s"
        using j by blast+
      from domount_name [OF j1 Some] obtain f fs n' t where
        f: "mh_mount (mheads s ! m) = f # fs" "m \<in># links s"
        and dm: "domount dev pg (w_c w) (w_mh w) (Some (w_name w)) s = ((True, mt_to f, Some m, Some n'), t)"
        and t: "counted t (addC {#mt_to f#} (addM {#m#} (addN {#n'#} H)))" "steady H s t"
          "\<forall>x. ident (chans t ! x) = ident (chans s ! x)"
          "n_mtpt (cnames t ! n') = (if n_mtpt (cnames s ! w_name w) = [] then []
             else (n_mtpt (cnames s ! w_name w))[length (n_mtpt (cnames s ! w_name w)) - 1 := Some (mh_from (mheads s ! m))])"
        by blast
      have w': "w' = w\<lparr>w_c := mt_to f, w_mh := Some m, w_name := n'\<rparr>" "s' = t"
        using assms(2) True dm by (simp_all add: walk_enter_def)
      have mf: "mt_to f \<in># headsC t"
        using head_owns(2) [of m s f] f linked_live [OF j1(1) f(2)] headsC_steady [OF t(2)] by simp
      then have "\<not> is_open (chans t ! mt_to f)" using headsC_own countedD(9) [OF t(1)] by blast
      moreover have "pinned t n' root d"
      proof -
        obtain r L where r: "n_mtpt (cnames s ! w_name w) = Some r # L" "length L = d" "place (chans s ! r) = root"
          using j by (auto simp: pinned_def)
        show ?thesis
        proof (cases L)
          case Nil
          have "place (chans s ! mh_from (mheads s ! m)) = place ?c"
            using mhead_tdqidD [OF Some] eqchantdqid_place by blast
          then have "place (chans t ! mh_from (mheads s ! m)) = root"
            using i(2) r(2) Nil t(3) place_ident by (metis list.size(3))
          then show ?thesis using t(4) r Nil by (simp add: pinned_def)
        next
          case (Cons a as)
          have "place (chans t ! r) = root" using r(3) t(3) place_ident by metis
          then show ?thesis using t(4) r Cons by (auto simp: pinned_def split: nat.split)
        qed
      qed
      ultimately show ?thesis
        using t(1,2) w' f steady_world [OF t(2,1) j1(3,2)] by (simp add: winv0_def)
    qed
  qed
  then show "winv0 pg root d H s' w'" "steady H s s'" by blast+
qed

lemma set_mflag_ok:
  assumes "counted s H"
  shows "counted (set_mflag x m s) H" and "steady H' s (set_mflag x m s)"
    and "ident (chans (set_mflag x m s) ! y) = ident (chans s ! y)"
    and "is_open (chans (set_mflag x m s) ! y) = is_open (chans s ! y)"
    and "cnames (set_mflag x m s) = cnames s" and "links (set_mflag x m s) = links s"
    and "headsC (set_mflag x m s) = headsC s"
proof -
  have "counted (upd_chan c (\<lambda>x. x\<lparr>c_mflag := m\<rparr>) s) H" for c
    by (rule upd_chan_counted [OF assms]) (simp_all add: is_free_def is_open_def)
  then show "counted (set_mflag x m s) H" using assms by (simp add: set_mflag_def split: option.split)
  show "steady H' s (set_mflag x m s)"
    by (auto simp: set_mflag_def steady_def same_chan_def upd_chan_def nth_upd_all ident_def split: option.split)
  show "ident (chans (set_mflag x m s) ! y) = ident (chans s ! y)"
    "is_open (chans (set_mflag x m s) ! y) = is_open (chans s ! y)"
    by (auto simp: set_mflag_def upd_chan_def nth_upd_all ident_def is_open_def split: option.split)
  show "cnames (set_mflag x m s) = cnames s" "links (set_mflag x m s) = links s" "headsC (set_mflag x m s) = headsC s"
    by (auto simp: set_mflag_def links_def headsC_def split: option.split)
qed

lemma walk_next_ok:
  assumes "counted s (addC {#w_c w#} (addM (opt_ms (w_mh w)) H))" and "walk_next dev w nc name nmh n did s = (r, s')"
  shows "r = Go n \<lparr>w_c = nc, w_name = name, w_mh = nmh, w_didmount = did\<rparr>" and "counted s' H" and "steady H s s'"
    and "\<forall>x. ident (chans s' ! x) = ident (chans s ! x)"
proof -
  define t where "t = cclose dev (Some (w_c w)) s"
  have s': "s' = putmhead dev (w_mh w) t" "r = Go n \<lparr>w_c = nc, w_name = name, w_mh = nmh, w_didmount = did\<rparr>"
    using assms(2) by (auto simp: walk_next_def t_def)
  have c0: "counted s (addC (opt_ms (Some (w_c w))) (addM (opt_ms (w_mh w)) H))" using assms(1) by simp
  have c1: "counted t (addM (opt_ms (w_mh w)) H)" unfolding t_def by (rule cclose_counted [OF c0])
  show "counted s' H" unfolding s' by (rule putmhead_counted [OF c1])
  have "steady H s t" unfolding t_def by (rule steady_mono(3) [OF closes_steady(1) [OF c0]])
  moreover have "steady H t s'" unfolding s' by (rule closes_steady(3) [OF c1])
  ultimately show "steady H s s'" by (rule steady_trans)
  show "\<forall>x. ident (chans s' ! x) = ident (chans s ! x)"
    using keptD(7) [of s t] keptD(7) [of t s'] by (simp add: t_def s')
qed (use assms in \<open>simp add: walk_next_def Let_def\<close>)

lemma closing:
  assumes "counted s (addC {#c#} (addM (opt_ms m) (addN {#n#} H)))"
  shows "counted (putmhead dev m (cnameclose dev (Some n) (cclose dev (Some c) s))) H"
    "steady H s (putmhead dev m (cnameclose dev (Some n) (cclose dev (Some c) s)))"
    "counted (putmhead dev m (cclose dev (Some c) (cnameclose dev (Some n) s))) H"
    "steady H s (putmhead dev m (cclose dev (Some c) (cnameclose dev (Some n) s)))"
proof -
  let ?H = "addM (opt_ms m) H"
  have c: "counted s (addC (opt_ms (Some c)) (addN (opt_ms (Some n)) ?H))"
    "counted s (addN (opt_ms (Some n)) (addC (opt_ms (Some c)) ?H))"
    using assms by (simp_all add: add_comm)
  note c1 = cclose_counted [OF c(1), of dev] cnameclose_counted [OF c(2), of dev]
  note c2 = cnameclose_counted [OF c1(1), of dev] cclose_counted [OF c1(2), of dev]
  show "counted (putmhead dev m (cnameclose dev (Some n) (cclose dev (Some c) s))) H"
    "counted (putmhead dev m (cclose dev (Some c) (cnameclose dev (Some n) s))) H"
    using putmhead_counted [OF c2(1)] putmhead_counted [OF c2(2)] by simp_all
  show "steady H s (putmhead dev m (cnameclose dev (Some n) (cclose dev (Some c) s)))"
    by (rule steady_trans [OF steady_mono(3) [OF steady_mono(2) [OF closes_steady(1) [OF c(1)]]]
        steady_trans [OF steady_mono(3) [OF closes_steady(2) [OF c1(1)]] closes_steady(3) [OF c2(1)]]])
  show "steady H s (putmhead dev m (cclose dev (Some c) (cnameclose dev (Some n) s)))"
    by (rule steady_trans [OF steady_mono(3) [OF steady_mono(1) [OF closes_steady(2) [OF c(2)]]]
        steady_trans [OF steady_mono(3) [OF closes_steady(1) [OF c1(2)]] closes_steady(3) [OF c2(2)]]])
qed

text \<open>What a turn may come to: on to the next, failure with everything let go, or an error raised.\<close>

definition step_ok :: "nat \<Rightarrow> u16 \<times> 32 word \<times> u64 \<Rightarrow> nat \<Rightarrow> bytes list \<Rightarrow> held \<Rightarrow> 'd kst \<Rightarrow> stepres \<Rightarrow> 'd kst \<Rightarrow> bool" where
  "step_ok pg root d names H s r s' \<longleftrightarrow> steady H s s' \<and>
     (case r of
        Go n w' \<Rightarrow> n \<le> length names \<and> winv pg root (depth d (take n names)) H s' w'
      | Fail _ _ \<Rightarrow> counted s' H
      | Raise _ \<Rightarrow> (\<exists>C M N. counted s' (addC C (addM M (addN N H)))))"

lemma walk_stop_ok:
  assumes "counted s (addC {#w_c w#} (addM (opt_ms (w_mh w)) (addN {#w_name w#} H)))"
    and "walk_stop dev w k e s = (r, s')"
  shows "step_ok pg root d names H s r s'"
  using assms(2) closing [OF assms(1), of dev] by (auto simp: walk_stop_def step_ok_def Let_def)

lemma walk_dotdot_ok:
  assumes "counted s (addC {#cl#} (addC {#w_c w#} (addM (opt_ms (w_mh w)) (addN {#w_name w#} H))))"
    and "\<not> is_open (chans s ! cl)" and "linked_ok s" and "live_pgrp s pg" and "pinned s (w_name w) root d"
    and "Some cl \<notin> set (n_mtpt (cnames s ! w_name w))" and "\<not> is_dot name" and "isdotdot name" and "length qids = 1"
    and "walk_dotdot dev w name qids (Some cl) s = (r, s')"
  shows "step_ok pg root d (name # rest) H s r s'"
proof -
  let ?H = "addC {#cl#} (addC {#w_c w#} (addM (opt_ms (w_mh w)) H))"
  obtain n1 s1 where a: "addelem dev (w_name w) name s = (n1, s1)" by (cases "addelem dev (w_name w) name s")
  obtain nc s2 where u: "undomount dev cl n1 s1 = (nc, s2)" by (cases "undomount dev cl n1 s1")
  have wn: "walk_next dev w nc n1 None 1 False s2 = (r, s')"
    using assms(9,10) a u by (simp add: walk_dotdot_def)
  have c0: "counted s (addN {#w_name w#} ?H)" using assms(1) by (simp add: add_comm ac_simps)
  have nd: "\<not> (at name 0 = dot \<and> at name 1 = 0)" using assms(7) by (simp add: is_dot_def)
  note r1 = addelem_op [OF c0 nd a]
  obtain x L where x: "n_mtpt (cnames s ! w_name w) = Some x # L" "length L = d" "place (chans s ! x) = root"
    using assms(5) by (auto simp: pinned_def)
  have "n_mtpt (cnames s1 ! n1) = Some x # butlast L" unfolding r1(3) x(1) using assms(8) by simp
  moreover have "length (butlast L) = d - 1" using x(2) by simp
  ultimately obtain L1 where L1: "n_mtpt (cnames s1 ! n1) = Some x # L1" "length L1 = d - 1" by blast
  have p1: "place (chans s1 ! x) = root" using place_ident [OF name_opD(3) [OF r1(1), of x]] x(3) by simp
  have c1: "counted s1 (addC {#cl#} (addN {#n1#} (addC {#w_c w#} (addM (opt_ms (w_mh w)) H))))"
    using name_opD(1) [OF r1(1)] by (simp add: add_comm ac_simps)
  have al: "n1 \<notin># ownN s1 + hN (addC {#w_c w#} (addM (opt_ms (w_mh w)) H))" using r1(2) by simp
  have op: "\<not> is_open (chans s1 ! cl)"
    using steadyD(10) [OF name_opD(2) [OF r1(1)], of cl] assms(2) by (simp add: is_open_def)
  have ne: "cl \<noteq> x" using assms(6) x(1) by auto
  note r2 = undomount_op [OF c1 al op L1(1) ne u]
  obtain M where M: "length M = length L1" "n_mtpt (cnames s2 ! n1) = Some x # M" using r2(6) by blast
  have p2: "place (chans s2 ! x) = root" using place_ident [OF spec [OF r2(4)], of x] p1 by simp
  let ?H1 = "addC {#nc#} (addN {#n1#} H)"
  have c2: "counted s2 (addC {#w_c w#} (addM (opt_ms (w_mh w)) ?H1))" using r2(1) by (simp add: add_comm ac_simps)
  note r3 = walk_next_ok [OF c2 wn]
  have st: "steady H s s'"
  proof -
    have "steady H s s1" using name_opD(2) [OF r1(1)] steady_mono by blast
    moreover have "steady H s1 s2" using r2(2) steady_mono by blast
    moreover have "steady H s2 s'" using r3(3) steady_mono by blast
    ultimately show ?thesis by (blast intro: steady_trans)
  qed
  note sw = steady_world [OF st r3(2) assms(3,4)]
  have "n_mtpt (cnames s' ! n1) = Some x # M" using steadyD(12) [OF r3(3), of n1] M(2) by simp
  moreover have p3: "place (chans s' ! x) = root" using place_ident [OF spec [OF r3(4)], of x] p2 by simp
  ultimately have "pinned s' n1 root (d - 1)" using M(1) L1(2) by (simp add: pinned_def)
  moreover have "place (chans s' ! nc) = root" if "d - 1 = 0"
    using r2(5) L1(2) that p3 by simp
  moreover have "\<not> is_open (chans s' ! nc)" using steadyD(10) [OF r3(3), of nc] r2(3) by (simp add: is_open_def)
  ultimately show ?thesis
    using r3(1,2) st sw assms(8) by (simp add: step_ok_def winv_def)
qed

lemma slots_own: "counted s (addN {#n#} H) \<Longrightarrow> Some c \<in> set (n_mtpt (cnames s ! n)) \<Longrightarrow> c \<in># ownC s"
proof -
  have "Some c \<in> set xs \<Longrightarrow> c \<in># opts_ms xs" for xs by (induction xs) (auto simp: opts_ms_def)
  then show "counted s (addN {#n#} H) \<Longrightarrow> Some c \<in> set (n_mtpt (cnames s ! n)) \<Longrightarrow> c \<in># ownC s"
    using slots_closed(2) [of s n H c] by blast
qed

lemma pinned_push:
  assumes "pinned s n root d" and "n_mtpt (cnames s' ! n') = n_mtpt (cnames s ! n) @ M"
    and "\<forall>x. ident (chans s' ! x) = ident (chans s ! x)"
  shows "pinned s' n' root (d + length M)"
proof -
  obtain r L where r: "n_mtpt (cnames s ! n) = Some r # L" "length L = d" "place (chans s ! r) = root"
    using assms(1) by (auto simp: pinned_def)
  have "place (chans s' ! r) = root" using place_ident [OF spec [OF assms(3)], of r] r(3) by simp
  then show ?thesis using r assms(2) by (simp add: pinned_def)
qed

text \<open>The end of a turn forward: the names walked go on the stack.\<close>

lemma walk_push_ok:
  assumes "counted s (addC {#nc#} (addM (opt_ms nmh) (addC {#w_c w#} (addM (opt_ms (w_mh w)) (addN {#w_name w#} H)))))"
    and "\<not> is_open (chans s ! nc)" and "linked_ok s" and "live_pgrp s pg" and "pinned s (w_name w) root d"
    and "set_mset (opt_ms nmh) \<subseteq> set_mset (links s)" and "set_mset (opt_ms mp) \<subseteq> set_mset (headsC s)"
    and "\<forall>e\<in>set es. \<not> is_dot e \<and> \<not> isdotdot e" and "es \<noteq> []"
    and "addelems dev (w_name w) es mp s = (n', s1)" and "walk_next dev w nc n' nmh n did s1 = (r, s')"
  shows "steady H s s' \<and> r = Go n \<lparr>w_c = nc, w_name = n', w_mh = nmh, w_didmount = did\<rparr>
    \<and> winv pg root (d + length es) H s' \<lparr>w_c = nc, w_name = n', w_mh = nmh, w_didmount = did\<rparr>"
proof -
  let ?H = "addC {#nc#} (addM (opt_ms nmh) (addC {#w_c w#} (addM (opt_ms (w_mh w)) H)))"
  have c0: "counted s (addN {#w_name w#} ?H)" using assms(1) by (simp add: add_comm ac_simps)
  note a = addelems_op [OF c0 assms(8,7,10)]
  obtain M where M: "length M = length es" "n_mtpt (cnames s1 ! n') = n_mtpt (cnames s ! w_name w) @ M" using a(2) by blast
  have id1: "\<forall>x. ident (chans s1 ! x) = ident (chans s ! x)" using name_opD(3) [OF a(1)] by blast
  let ?H1 = "addC {#nc#} (addM (opt_ms nmh) (addN {#n'#} H))"
  have c1: "counted s1 (addC {#w_c w#} (addM (opt_ms (w_mh w)) ?H1))"
    using name_opD(1) [OF a(1)] by (simp add: add_comm ac_simps)
  note r = walk_next_ok [OF c1 assms(11)]
  have st: "steady H s s'"
  proof -
    have "steady H s s1" using name_opD(2) [OF a(1)] steady_mono by blast
    moreover have "steady H s1 s'" using r(3) steady_mono by blast
    ultimately show ?thesis by (rule steady_trans)
  qed
  have p: "pinned s1 n' root (d + length es)" using pinned_push [OF assms(5) M(2) id1] M(1) by simp
  have "pinned s' n' root (d + length es)"
    by (rule pinned_same [OF p steadyD(12) [OF r(3)] r(4)]) simp
  moreover have "\<not> is_open (chans s' ! nc)"
    using steadyD(10) [OF name_opD(2) [OF a(1)], of nc] steadyD(10) [OF r(3), of nc] assms(2) by (simp add: is_open_def)
  ultimately show ?thesis
    using r(1,2) st steady_world [OF st r(2) assms(3,4)] assms(6,9) by (simp add: winv_def)
qed

lemma depth_take: "\<forall>e\<in>set es. \<not> isdotdot e \<Longrightarrow> depth d (take n es) = d + min (length es) n"
  by (subst depth_forward) (auto dest: in_set_takeD)

lemma walk_forward_ok:
  assumes "counted s (addC (opt_ms clone) (addC {#w_c w#} (addM (opt_ms (w_mh w)) (addN {#w_name w#} H))))"
    and "\<And>nc. clone = Some nc \<Longrightarrow> length qids = length names \<and> \<not> is_open (chans s ! nc)"
    and "clone = None \<Longrightarrow> length qids < length names"
    and "linked_ok s" and "live_pgrp s pg" and "pinned s (w_name w) root d"
    and "\<forall>e\<in>set names. \<not> is_dot e \<and> \<not> isdotdot e" and "names \<noteq> []"
    and "walk_forward dev pg w nhave names nomount type dv qids clone s = (r, s')"
  shows "step_ok pg root d names H s r s'"
proof -
  let ?qs = "take (length names - 1) qids"
  let ?W = "addC {#w_c w#} (addM (opt_ms (w_mh w)) (addN {#w_name w#} H))"
  obtain x t where sc: "(if nomount then (None, s) else scan_mounts dev pg type dv 0 ?qs s) = (x, t)"
    by (cases "if nomount then (None, s) else scan_mounts dev pg type dv 0 ?qs s")
  have scan: "case x of None \<Rightarrow> t = s
    | Some (j, nc, m) \<Rightarrow> j < length ?qs \<and> counted t (addC {#nc#} (addM {#m#} (addC (opt_ms clone) ?W)))
        \<and> steady (addC (opt_ms clone) ?W) s t \<and> m \<in># links s
        \<and> \<not> is_open (chans t ! nc) \<and> (\<forall>x. ident (chans t ! x) = ident (chans s ! x)) \<and> nc \<in># ownC s"
    using sc scan_mounts_step [OF assms(1,5,4), of dev type dv 0 ?qs x t, unfolded add_0] by (cases nomount) auto
  show ?thesis
  proof (cases x)
    case None
    then have t: "t = s" using scan by simp
    show ?thesis
    proof (cases clone)
      case None
      have c: "counted s ?W" using assms(1) None by simp
      have "\<exists>k e. walk_stop dev w k e s = (r, s')"
        using assms(9) sc \<open>x = None\<close> t None by (auto simp: walk_forward_def split: if_splits)
      then show ?thesis using walk_stop_ok [OF c] by blast
    next
      case (Some nc)
      have len: "length qids = length names" "\<not> is_open (chans s ! nc)" using assms(2) [OF Some] by simp_all
      obtain n' s1 where ae: "addelems dev (w_name w) names None s = (n', s1)"
        by (cases "addelems dev (w_name w) names None s")
      have wn: "walk_next dev w nc n' None (length qids) False s1 = (r, s')"
        using assms(9) sc \<open>x = None\<close> t Some len ae by (simp add: walk_forward_def)
      have c: "counted s (addC {#nc#} (addM (opt_ms None) ?W))" using assms(1) Some by simp
      from walk_push_ok [OF c len(2) assms(4,5,6) _ _ assms(7,8) ae wn]
      show ?thesis using len(1) depth_forward [of names d] assms(7) by (auto simp: step_ok_def)
    qed
  next
    case (Some y)
    obtain j nc m where x: "x = Some (j, nc, m)" using Some by (cases y) auto
    note sj = scan [unfolded x, simplified]
    have cn: "counted t (addC {#nc#} (addM {#m#} (addC (opt_ms clone) ?W)))" "\<not> is_open (chans t ! nc)"
      and st0: "steady (addC (opt_ms clone) ?W) s t" and ml: "m \<in># links s"
      and id0: "\<forall>x. ident (chans t ! x) = ident (chans s ! x)" and j: "j < length ?qs"
      using sj by simp_all
    note w0 = steady_world [OF st0 cn(1) assms(4,5)]
    obtain z u where cu: "cunique dev nc t = (z, u)" by (cases "cunique dev nc t")
    note q = cunique_counted [OF cn cu]
    have eq: "(r, s') = (case z of Inl e \<Rightarrow> (Raise e, u) | Inr nc \<Rightarrow>
        (let s = upd_chan nc (\<lambda>x. x\<lparr>c_mflag := mheadflag (Some m) u\<rparr>) u;
             s = cclose dev clone s;
             (cname, s) = addelems dev (w_name w) (take (j + 1) names) (Some (mh_from (mheads s ! m))) s
         in walk_next dev w nc cname (Some m) (j + 1) True s))"
      using assms(9) sc x cu by (simp add: walk_forward_def)
    show ?thesis
    proof (cases z)
      case (Inl e)
      then have "s' = t" "r = Raise e" using q(1) eq by auto
      moreover have "\<exists>C M N. counted t (addC C (addM M (addN N H)))"
      proof (intro exI)
        show "counted t (addC ({#nc#} + opt_ms clone + {#w_c w#}) (addM ({#m#} + opt_ms (w_mh w)) (addN {#w_name w#} H)))"
          using cn(1) by (simp add: add_comm ac_simps)
      qed
      moreover have "steady H s t" using st0 steady_mono by blast
      ultimately show ?thesis by (simp add: step_ok_def)
    next
      case (Inr c1)
      define u1 where "u1 = upd_chan c1 (\<lambda>x. x\<lparr>c_mflag := mheadflag (Some m) u\<rparr>) u"
      have u1: "u1 = set_mflag (Some c1) (mheadflag (Some m) u) u" by (simp add: u1_def set_mflag_def)
      define u2 where "u2 = cclose dev clone u1"
      let ?mp = "Some (mh_from (mheads u2 ! m))" and ?es = "take (j + 1) names"
      obtain n' u3 where ae: "addelems dev (w_name w) ?es ?mp u2 = (n', u3)"
        by (cases "addelems dev (w_name w) ?es ?mp u2")
      have wn: "walk_next dev w c1 n' (Some m) (j + 1) True u3 = (r, s')"
        using eq Inr ae by (simp add: u1_def u2_def Let_def)
      have oc: "own_copy (addM {#m#} (addC (opt_ms clone) ?W)) t nc u c1" by (rule q(2) [OF Inr])
      have cu1: "counted u (addC {#c1#} (addM {#m#} (addC (opt_ms clone) ?W)))"
        and st1: "steady (addM {#m#} (addC (opt_ms clone) ?W)) t u" and op1: "\<not> is_open (chans u ! c1)"
        using oc by (simp_all add: own_copy_def)
      note f1 = set_mflag_ok [OF cu1, where x = "Some c1" and m = "mheadflag (Some m) u", folded u1]
      let ?G = "addC {#c1#} (addM {#m#} ?W)"
      have c2: "counted u1 (addC (opt_ms clone) ?G)" using f1(1) by (simp add: add_comm ac_simps)
      have cu2: "counted u2 ?G" unfolding u2_def by (rule cclose_counted [OF c2])
      have st2: "steady ?G u1 u2" unfolding u2_def by (rule closes_steady(1) [OF c2])
      have stW: "steady (addN {#w_name w#} H) s u2"
      proof -
        have "steady (addN {#w_name w#} H) s t" using st0 steady_mono by blast
        moreover have "steady (addN {#w_name w#} H) t u" using st1 steady_mono by blast
        moreover have "steady (addN {#w_name w#} H) u u1" by (rule f1(2))
        moreover have "steady (addN {#w_name w#} H) u1 u2" using st2 steady_mono by blast
        ultimately show ?thesis by (blast intro: steady_trans)
      qed
      note w2 = steady_world [OF stW cu2 assms(4,5)]
      have op2: "\<not> is_open (chans u2 ! c1)"
        using steadyD(10) [OF st2, of c1] f1(4) [of c1] op1 by (simp add: is_open_def)
      have mlen: "m < length (mheads s)" using linked_live [OF assms(1) ml] by blast
      have ne: "mh_mount (mheads s ! m) \<noteq> []" using ml assms(4) by (simp add: linked_ok_def)
      have hp: "set_mset (opt_ms ?mp) \<subseteq> set_mset (headsC u2)"
        using head_owns(1) [OF mlen ne] headsC_steady [OF stW] steadyD(5) [OF stW mlen] by simp
      have p2: "pinned u2 (w_name w) root d"
      proof -
        obtain r L where r: "n_mtpt (cnames s ! w_name w) = Some r # L" "length L = d" "place (chans s ! r) = root"
          using assms(6) by (auto simp: pinned_def)
        have "ident (chans u2 ! r) = ident (chans s ! r)"
          using steadyD(13) [OF stW, of "w_name w" r] r(1) by (simp add: nameC_def opts_ms_def)
        then have "place (chans u2 ! r) = root" using place_ident r(3) by metis
        then show ?thesis using r(1,2) steadyD(12) [OF stW, of "w_name w"] by (simp add: pinned_def)
      qed
      have es: "\<forall>e\<in>set ?es. \<not> is_dot e \<and> \<not> isdotdot e" "?es \<noteq> []" "length ?es = j + 1" "j + 1 \<le> length names"
        using assms(7,8) j by (auto dest: in_set_takeD)
      have ml2: "set_mset (opt_ms (Some m)) \<subseteq> set_mset (links u2)" using ml w2(3) by simp
      have c3: "counted u2 (addC {#c1#} (addM (opt_ms (Some m)) ?W))" using cu2 by simp
      from walk_push_ok [OF c3 op2 w2(1,2) p2 ml2 hp es(1,2) ae wn]
      show ?thesis using es(3,4) steady_trans [OF steady_mono(2) [OF stW]] depth_take [of names d "j + 1"] assms(7)
        by (auto simp: step_ok_def)
    qed
  qed
qed

lemma ntry_ofD:
  assumes "ntry_of names = (k, dd)" and "names \<noteq> []"
  shows "dd \<Longrightarrow> k = 1 \<and> isdotdot (hd names)" and "\<not> dd \<Longrightarrow> \<forall>e\<in>set (take k names). \<not> isdotdot e"
    and "0 < k \<and> k \<le> length names"
proof -
  let ?t = "take MAXWELEM names" and ?P = "\<lambda>e. \<not> isdotdot e"
  let ?w = "takeWhile ?P ?t"
  have t: "?t \<noteq> []" "hd ?t = hd names" using assms(2) by (auto simp: MAXWELEM_def)
  have pre: "take (length ?w) names = ?w"
    by (metis length_takeWhile_le min.absorb1 take_take takeWhile_eq_take length_take min.cobounded1 order.trans)
  have le: "length ?w \<le> length ?t" by (rule length_takeWhile_le)
  show "dd \<Longrightarrow> k = 1 \<and> isdotdot (hd names)"
    using assms(1) t le takeWhile_eq_Nil_iff [of ?P ?t] by (auto simp: ntry_of_def Let_def split: if_splits)
  have full: "length ?w = length ?t \<Longrightarrow> ?w = ?t" by (metis le takeWhile_eq_take take_all order_refl)
  show "\<not> dd \<Longrightarrow> \<forall>e\<in>set (take k names). \<not> isdotdot e"
  proof -
    assume "\<not> dd"
    then consider "k = length ?w" | "k = length ?t" "length ?w = length ?t"
      using assms(1) le by (auto simp: ntry_of_def Let_def split: if_splits)
    then show ?thesis
    proof cases
      case 1
      then show ?thesis using pre set_takeWhileD by metis
    next
      case 2
      then have "take k names = ?w" using pre by simp
      then show ?thesis using set_takeWhileD by metis
    qed
  qed
  show "0 < k \<and> k \<le> length names"
    using assms t by (auto simp: ntry_of_def Let_def MAXWELEM_def Suc_le_eq split: if_splits)
qed

lemma walk_step_ok:
  assumes "winv pg root d H s w" and "\<forall>e\<in>set names. \<not> is_dot e" and "names \<noteq> []"
    and "walk_step dev pg nomount nhave names w s = (r, s')"
  shows "step_ok pg root d names H s r s'"
proof (cases "is_dir (c_qid (chans s ! w_c w))")
  case False
  have c: "counted s (addC {#w_c w#} (addM (opt_ms (w_mh w)) (addN {#w_name w#} H)))"
    using assms(1) by (simp add: winv_def)
  show ?thesis using assms(4) False closing(3,4) [OF c, of dev] by (auto simp: walk_step_def step_ok_def Let_def)
next
  case True
  obtain k dd where nt: "ntry_of names = (k, dd)" by (cases "ntry_of names")
  note n = ntry_ofD [OF nt assms(3)]
  obtain w1 mf s1 where en: "walk_enter dev pg nomount dd w s = ((w1, mf), s1)"
    by (metis prod.exhaust)
  note e = walk_enter_ok [OF assms(1) en]
  note i = e(1) [unfolded winv0_def]
  let ?W = "addC {#w_c w1#} (addM (opt_ms (w_mh w1)) (addN {#w_name w1#} H))"
  obtain x s2 where tr: "walk_try dev (w_c w1) (w_mh w1) nomount mf (take k names) s1 = (x, s2)"
    by (cases "walk_try dev (w_c w1) (w_mh w1) nomount mf (take k names) s1")
  have c1: "counted s1 ?W" "w_c w1 \<in># ownC s1 + hC ?W" "\<not> is_open (chans s1 ! w_c w1)" "linked_ok s1"
    "set_mset (opt_ms (w_mh w1)) \<subseteq> set_mset (links s1)" "live_pgrp s1 pg" "pinned s1 (w_name w1) root d"
    using i by simp_all
  note t = walk_try_step [OF c1(1-5) tr]
  have up: "step_ok pg root d names H s r s'" if "step_ok pg root d names H s1 r s'"
    using that steady_trans [OF e(2)] by (simp add: step_ok_def)
  show ?thesis
  proof (cases x)
    case None
    then have "walk_stop dev w1 (nhave + 1) None s1 = (r, s')" using assms(4) True nt en tr t by (simp add: walk_step_def)
    then show ?thesis using walk_stop_ok [OF c1(1)] up by blast
  next
    case (Some y)
    obtain type dv mf1 qids clone where x: "x = Some (type, dv, mf1, qids, clone)" using Some by (cases y) auto
    have t2: "counted s2 (addC (opt_ms clone) ?W)" "steady ?W s1 s2"
      "\<And>nc. clone = Some nc \<Longrightarrow> length qids = length (take k names) \<and> \<not> is_open (chans s2 ! nc) \<and> nc \<notin># ownC s1"
      "clone = None \<Longrightarrow> s2 = s1 \<and> qids \<noteq> [] \<and> length qids < length (take k names)"
      using t x by auto
    define s3 where "s3 = set_mflag clone mf1 s2"
    note f = set_mflag_ok [OF t2(1), where x = clone and m = mf1, folded s3_def]
    have st: "steady ?W s1 s3" by (rule steady_trans [OF t2(2) f(2)])
    note w3 = steady_world [OF st f(1) c1(4,6)]
    have p3: "pinned s3 (w_name w1) root d"
    proof -
      obtain r L where r: "n_mtpt (cnames s1 ! w_name w1) = Some r # L" "length L = d" "place (chans s1 ! r) = root"
        using c1(7) by (auto simp: pinned_def)
      have "ident (chans s3 ! r) = ident (chans s1 ! r)"
        using steadyD(13) [OF st, of "w_name w1" r] r(1) by (simp add: nameC_def opts_ms_def)
      then have "place (chans s3 ! r) = root" using place_ident r(3) by metis
      then show ?thesis using r(1,2) steadyD(12) [OF st, of "w_name w1"] by (simp add: pinned_def)
    qed
    have up3: "step_ok pg root d names H s1 r s'" if "step_ok pg root d names H s3 r s'"
    proof -
      have "steady H s1 s3" using st steady_mono by blast
      then show ?thesis using that steady_trans by (auto simp: step_ok_def)
    qed
    show ?thesis
    proof (cases dd)
      case True
      have k: "k = 1" "isdotdot (hd names)" using n(1) True by simp_all
      have "clone \<noteq> None" using t2(4) k by (cases qids) auto
      then obtain cl where cl: "clone = Some cl" by blast
      have wd: "walk_dotdot dev w1 (hd names) qids (Some cl) s3 = (r, s')"
        using assms(4) \<open>is_dir _\<close> nt en tr x cl True by (simp add: walk_step_def s3_def)
      have ql: "length qids = 1" using t2(3) [OF cl] k n(3) by simp
      have c3: "counted s3 (addC {#cl#} ?W)" using f(1) cl by simp
      have op: "\<not> is_open (chans s3 ! cl)" using f(4) t2(3) [OF cl] by simp
      have cN: "counted s1 (addN {#w_name w1#} (addC {#w_c w1#} (addM (opt_ms (w_mh w1)) H)))"
        using c1(1) by (simp add: add_comm)
      have fr: "Some cl \<notin> set (n_mtpt (cnames s3 ! w_name w1))"
        using slots_own [OF cN, of cl] t2(3) [OF cl] steadyD(12) [OF st, of "w_name w1"] by auto
      have nd: "\<not> is_dot (hd names)" using assms(2,3) by simp
      from walk_dotdot_ok [OF c3 op w3(1,2) p3 fr nd k(2) ql wd, of "tl names"]
      have "step_ok pg root d names H s3 r s'" using assms(3) by simp
      then show ?thesis using up up3 by blast
    next
      case False
      have wf: "walk_forward dev pg w1 nhave (take k names) nomount type dv qids clone s3 = (r, s')"
        using assms(4) \<open>is_dir _\<close> nt en tr x False by (simp add: walk_step_def s3_def)
      have nm: "\<forall>e\<in>set (take k names). \<not> is_dot e \<and> \<not> isdotdot e" "take k names \<noteq> []"
        using n(2,3) False assms(2,3) by (auto dest: in_set_takeD)
      have "step_ok pg root d (take k names) H s3 r s'"
        by (rule walk_forward_ok [OF f(1) _ _ w3(1,2) p3 nm wf]) (use t2(3,4) f(4) in auto)
      then have "step_ok pg root d names H s3 r s'"
        by (auto simp: step_ok_def min_def split: stepres.splits if_splits)
      then show ?thesis using up up3 by blast
    qed
  qed
qed

lemma walk_loop_ok:
  assumes "winv pg root d H s w" and "\<forall>e\<in>set names. \<not> is_dot e"
    and "walk_loop dev pg nomount nhave names w s = (r, s')"
  shows "steady H s s'"
    and "r = Go n w' \<Longrightarrow> winv pg root (depth d names) H s' w'"
    and "r = Fail k e \<Longrightarrow> counted s' H"
    and "r = Raise x \<Longrightarrow> \<exists>C M N. counted s' (addC C (addM M (addN N H)))"
proof -
  have "steady H s s' \<and> (case r of Go _ w' \<Rightarrow> winv pg root (depth d names) H s' w'
      | Fail _ _ \<Rightarrow> counted s' H | Raise _ \<Rightarrow> \<exists>C M N. counted s' (addC C (addM M (addN N H))))"
    using assms
  proof (induction dev pg nomount nhave names w s arbitrary: d rule: walk_loop.induct)
    case (1 dev pg nomount nhave names w s)
    show ?case
    proof (cases "names = []")
      case True
      have "r = Go 0 w" "s' = s" using 1(4) True by (subst (asm) walk_loop.simps; simp)+
      then show ?thesis using 1(2) True by simp
    next
      case False
      obtain x t where ws: "walk_step dev pg nomount nhave names w s = (x, t)"
        by (cases "walk_step dev pg nomount nhave names w s")
      have lp: "walk_loop dev pg nomount nhave names w s =
          (case x of Go n w' \<Rightarrow> walk_loop dev pg nomount (nhave + n) (drop n names) w' t | _ \<Rightarrow> (x, t))"
        using ws False by (subst walk_loop.simps) (simp split: stepres.split)
      note sk = walk_step_ok [OF 1(2,3) False ws]
      show ?thesis
      proof (cases x)
        case (Go n w1)
        have g: "walk_loop dev pg nomount (nhave + n) (drop n names) w1 t = (r, s')" using lp 1(4) Go by simp
        have i: "winv pg root (depth d (take n names)) H t w1" "steady H s t" using sk Go by (simp_all add: step_ok_def)
        have nd: "\<forall>e\<in>set (drop n names). \<not> is_dot e" using 1(3) by (auto dest: in_set_dropD)
        note ih = 1(1) [OF False ws [symmetric] Go i(1) nd g]
        have dp: "depth (depth d (take n names)) (drop n names) = depth d names"
          using depth_append [of d "take n names" "drop n names"] by simp
        show ?thesis using ih [unfolded dp] steady_trans [OF i(2)] by blast
      qed (use lp 1(4) sk in \<open>auto simp: step_ok_def\<close>)
    qed
  qed
  then show "steady H s s'" "r = Go n w' \<Longrightarrow> winv pg root (depth d names) H s' w'"
    "r = Fail k e \<Longrightarrow> counted s' H" "r = Raise x \<Longrightarrow> \<exists>C M N. counted s' (addC C (addM M (addN N H)))"
    by auto
qed

text \<open>
  Where a channel stands: \<open>d\<close> steps below the root its name is pinned to. A channel that was never
  walked to is its own root.
\<close>

definition origin :: "'d kst \<Rightarrow> nat \<Rightarrow> u16 \<times> 32 word \<times> u64 \<Rightarrow> nat \<Rightarrow> bool" where
  "origin s c root d \<longleftrightarrow>
     (case c_name (chans s ! c) of
        None \<Rightarrow> False
      | Some n \<Rightarrow>
          if n_mtpt (cnames s ! n) = [] then d = 0 \<and> place (chans s ! c) = root
          else pinned s n root d \<and> (d = 0 \<longrightarrow> place (chans s ! c) = root))"

lemma walk_pin_ok:
  assumes "counted s (addN {#n#} H)" and "c \<in># hC H" and "\<not> is_open (chans s ! c)"
    and "walk_pin dev c n s = (n', s')"
  shows "name_op H s s' n'"
    and "n_mtpt (cnames s' ! n') = (if n_mtpt (cnames s ! n) = [] then [Some c] else n_mtpt (cnames s ! n))"
proof -
  have "name_op H s s' n' \<and> n_mtpt (cnames s' ! n') = (if n_mtpt (cnames s ! n) = [] then [Some c] else n_mtpt (cnames s ! n))"
  proof (cases "n_mtpt (cnames s ! n) = []")
    case False
    then have "n' = n" "s' = s" using assms(4) by (simp_all add: walk_pin_def)
    then show ?thesis using assms(1) False by (auto simp: name_op_def)
  next
    case True
    define y where "y = (if n_ref (cnames s ! n) > 1 then
                (let (pinned, s) = newcname (n_s (cnames s ! n)) s in (pinned, cnameclose dev (Some n) s)) else (n, s))"
    obtain n1 s1 where y: "y = (n1, s1)" by (cases y)
    have e: "n' = n1" "s' = cnamepush n1 (Some c) s1" using assms(4) True y by (auto simp: walk_pin_def y_def)
    have "name_op H s s1 n1 \<and> n1 \<notin># ownN s1 + hN H \<and> n_mtpt (cnames s1 ! n1) = []"
    proof (cases "n_ref (cnames s ! n) > 1")
      case False
      then have "n_ref (cnames s ! n) = 1" using counted_liveN [OF assms(1), of n] by auto
      then show ?thesis using y y_def False True last_refN [OF assms(1)] assms(1) by (auto simp: name_op_def)
    next
      case ref: True
      obtain t where nn: "newcname (n_s (cnames s ! n)) s = (n1, t)" and s1: "s1 = cnameclose dev (Some n) t"
        using y y_def ref by (auto split: prod.splits)
      note r = newname_counted [OF assms(1) nn]
      have ch: "chans t = chans s" "pgrps t = pgrps s" "fgrps t = fgrps s" "mountid t = mountid s"
        "mheads t = mheads s" "ownC t = ownC s" "ownN t = ownN s"
        "\<And>i. i < length (cnames s) \<Longrightarrow> cnames t ! i = cnames s ! i"
        using nn by (auto simp: newcname_def nth_append ownC_def ownN_def nsC_def nameC_def opts_ms_def)
      have c1: "counted t (addN (opt_ms (Some n)) (addN {#n1#} H))" using r(1) by (simp add: add_comm ac_simps)
      have c2: "counted s1 (addN {#n1#} H)" unfolding s1 by (rule cnameclose_counted [OF c1])
      have k: "kept t s1" by (simp add: s1)
      have ne: "n1 \<notin># hN H" using r(2) held_liveN [OF assms(1)] by auto
      have fn: "n1 \<notin># ownN s" using counted_liveN [OF assms(1), of n1] r(2) by auto
      have "steady H s t" using ch r(2) ne fn by (intro steady_names [where n = n1, OF assms(1)]) auto
      moreover have "steady H t s1" using closes_steady(2) [OF c1, of dev] steady_mono unfolding s1 by blast
      ultimately have st: "steady H s s1" by (rule steady_trans)
      have al: "n1 \<notin># ownN s1 + hN H" using kept_notin(3) [OF k] ch ne fn by simp
      have fr: "\<not> n_free (cnames s1 ! n1)" using counted_liveN [OF c2, of n1] by simp
      have "n_mtpt (cnames s1 ! n1) = []" using keptD(17) [OF k fr] r(3) by simp
      then show ?thesis
        using c2 st al keptD(1) [OF k] keptD(7,8) [OF k] kept_notin(1) [OF k] ch by (auto simp: name_op_def)
    qed
    then have r1: "name_op H s s1 n1" "n1 \<notin># ownN s1 + hN H" "n_mtpt (cnames s1 ! n1) = []" by blast+
    have m: "opt_ms (Some c) \<subseteq># ownC s1 + hC H" using assms(2) by simp
    have op: "\<And>x. Some c = Some x \<Longrightarrow> \<not> is_open (chans s1 ! x)"
      using steadyD(10) [OF name_opD(2) [OF r1(1)] assms(2)] assms(3) by (simp add: is_open_def)
    note r2 = cnamepush_op [OF name_opD(1) [OF r1(1)] r1(2) m op]
    show ?thesis using name_op_trans [OF r1(1) r2(1)] r2(2) r1(3) e True by simp
  qed
  then show "name_op H s s' n'"
    "n_mtpt (cnames s' ! n') = (if n_mtpt (cnames s ! n) = [] then [Some c] else n_mtpt (cnames s ! n))" by blast+
qed

lemma set_name_ok:
  assumes "counted s (addN {#n#} (addC {#c#} H))" and "c \<notin># ownC s + hC H"
  shows "counted (set_name dev c (Some n) s) (addC {#c#} H)" and "steady H s (set_name dev c (Some n) s)"
    and "c_name (chans (set_name dev c (Some n) s) ! c) = Some n"
    and "\<forall>x. ident (chans (set_name dev c (Some n) s) ! x) = ident (chans s ! x)"
    and "n_mtpt (cnames (set_name dev c (Some n) s) ! n) = n_mtpt (cnames s ! n)"
    and "\<not> is_open (chans s ! c) \<Longrightarrow> \<not> is_open (chans (set_name dev c (Some n) s) ! c)"
    and "c_mflag (chans (set_name dev c (Some n) s) ! c) = c_mflag (chans s ! c)"
    and "c \<notin># ownC (set_name dev c (Some n) s) + hC H"
proof -
  let ?old = "c_name (chans s ! c)"
  have l: "c < length (chans s)" "\<not> is_free (chans s ! c)" using counted_liveC [OF assms(1), of c] by simp_all
  define t where "t = upd_chan c (\<lambda>x. x\<lparr>c_name := Some n\<rparr>) s"
  have e: "set_name dev c (Some n) s = cnameclose dev ?old t" by (simp add: set_name_def t_def)
  let ?s' = "set_name dev c (Some n) s"
  have c0: "counted s (addN (opt_ms (Some n)) (addC {#c#} H))" using assms(1) by simp
  have c1: "counted t (addN (opt_ms ?old) (addC {#c#} H))" unfolding t_def by (rule set_name_field_counted [OF c0 l])
  show c2: "counted ?s' (addC {#c#} H)" unfolding e by (rule cnameclose_counted [OF c1])
  have id: "ident (chans t ! x) = ident (chans s ! x)" for x
    by (simp add: t_def upd_chan_def nth_upd_all ident_def)
  have "steady H s t"
    using assms(2) nsC_own [of c s]
    by (intro steady_fresh [where nc = c, OF assms(1)]) (auto simp: t_def upd_chan_def nth_upd_all)
  moreover have st: "steady (addC {#c#} H) t ?s'" unfolding e by (rule closes_steady(2) [OF c1])
  ultimately show "steady H s ?s'" using steady_mono(1) steady_trans by blast
  have k: "kept t ?s'" by (simp add: e)
  show "c_name (chans ?s' ! c) = Some n" using steadyD(8) [OF st, of c] l by (simp add: t_def upd_nth)
  show "\<forall>x. ident (chans ?s' ! x) = ident (chans s ! x)" using keptD(7) [OF k] id by simp
  have "n \<in># ownN ?s'"
  proof -
    have c: "c < length (chans ?s')" "\<not> is_free (chans ?s' ! c)" using counted_liveC [OF c2, of c] by simp_all
    have "chanN (chans ?s' ! c) \<subseteq># ownN ?s'" unfolding ownN_def by (rule tot_in [OF c(1)])
    then show ?thesis using c(2) steadyD(8) [OF st, of c] l by (auto simp: chanN_def t_def upd_nth)
  qed
  then have "\<not> n_free (cnames ?s' ! n)" using counted_liveN [OF c2, of n] by simp
  then show "n_mtpt (cnames ?s' ! n) = n_mtpt (cnames s ! n)" using keptD(17) [OF k] by (simp add: t_def)
  have fl: "c_flag (chans t ! c) = c_flag (chans s ! c)" "c_mflag (chans t ! c) = c_mflag (chans s ! c)"
    using l by (simp_all add: t_def upd_nth)
  show "\<not> is_open (chans s ! c) \<Longrightarrow> \<not> is_open (chans ?s' ! c)"
    using steadyD(10) [OF st, of c] fl by (simp add: is_open_def)
  show "c_mflag (chans ?s' ! c) = c_mflag (chans s ! c)" using keptD(8) [OF k, of c] fl by simp
  have "ownC t = ownC s"
    by (simp add: t_def ownC_def nsC_def upd_chan_def tot_upd_same chanC_def is_free_def)
  then show "c \<notin># ownC ?s' + hC H" using assms(2) kept_notin(1) [OF k, of c] by simp
qed

lemma walk_ok:
  assumes "counted s (addC {#c#} H)" and "\<not> is_open (chans s ! c)" and "linked_ok s" and "live_pgrp s pg"
    and "origin s c root d" and "\<forall>e\<in>set names. \<not> is_dot e"
    and "walk dev pg c names nomount s = (r, s')"
  shows "steady H s s'"
    and "r = Walked c' \<Longrightarrow> counted s' (addC {#c'#} H) \<and> origin s' c' root (depth d names) \<and> \<not> is_open (chans s' ! c')
      \<and> c' \<notin># ownC s' + hC H"
    and "r = Walk_fail k e \<Longrightarrow> counted s' (addC {#c#} H) \<and> steady (addC {#c#} H) s s'"
    and "r = Walk_raise x \<Longrightarrow> (\<exists>C M N. counted s' (addC C (addM M (addN N (addC {#c#} H))))) \<and> steady (addC {#c#} H) s s'"
proof -
  obtain n where n: "c_name (chans s ! c) = Some n" using assms(5) by (auto simp: origin_def split: option.splits)
  define s0 where "s0 = incref_name n (incref_chan c s)"
  let ?H = "addC {#c#} H"
  have ch: "counted (incref_chan c s) (addC {#c#} ?H)" by (rule incref_chan_counted [OF assms(1)]) simp
  have nm: "n \<in># ownN s" using chan_owned(2) [OF assms(1), of c] n by (auto dest: mset_subset_eqD)
  have c0: "counted s0 (addN {#n#} (addC {#c#} ?H))"
    unfolding s0_def by (rule incref_name_counted [OF ch]) (use nm in \<open>simp add: incref_is_bump\<close>)
  have st0: "steady ?H s s0" unfolding s0_def by (rule steady_trans [OF incref_steady(1,2)])
  have same0: "n_mtpt (cnames s0 ! n) = n_mtpt (cnames s ! n)" "\<forall>x. ident (chans s0 ! x) = ident (chans s ! x)"
    using nm counted_liveN [OF assms(1), of n] by (simp_all add: s0_def incref_is_bump ident_bump)
  have op0: "\<not> is_open (chans s0 ! c)" using steadyD(10) [OF st0, of c] assms(2) by (simp add: is_open_def)
  obtain n1 s1 where pn: "walk_pin dev c n s0 = (n1, s1)" by (cases "walk_pin dev c n s0")
  note p = walk_pin_ok [OF c0 _ op0 pn, simplified]
  define w where "w = \<lparr>w_c = c, w_name = n1, w_mh = None, w_didmount = False\<rparr>"
  obtain x s2 where lp: "walk_loop dev pg nomount 0 names w s1 = (x, s2)" by (cases "walk_loop dev pg nomount 0 names w s1")
  have st1: "steady ?H s s1" by (rule steady_trans [OF st0 steady_mono(1) [OF name_opD(2) [OF p(1)]]])
  have c1: "counted s1 (addN {#n1#} (addC {#c#} ?H))" using name_opD(1) [OF p(1)] by (simp add: add_comm)
  have id1: "\<forall>x. ident (chans s1 ! x) = ident (chans s ! x)" using name_opD(3) [OF p(1)] same0(2) by simp
  note w1 = steady_world [OF st1 c1 assms(3,4)]
  have plc: "place (chans s1 ! y) = place (chans s ! y)" for y using place_ident [OF spec [OF id1]] .
  have or: "pinned s1 n1 root d \<and> (d = 0 \<longrightarrow> place (chans s1 ! c) = root)"
    using assms(5) p(2) same0(1) plc by (auto simp: origin_def n pinned_def split: if_splits)
  have op1: "\<not> is_open (chans s1 ! c)" using steadyD(10) [OF st1, of c] assms(2) by (simp add: is_open_def)
  have i: "winv pg root d ?H s1 w"
    using c1 op1 w1 or by (simp add: winv_def w_def add_comm)
  note l = walk_loop_ok [OF i assms(6) lp]
  have st2: "steady ?H s s2" by (rule steady_trans [OF st1 l(1)])
  have wk: "walk dev pg c names nomount s = (case x of
        Fail k e \<Rightarrow> (Walk_fail k e, s2) | Raise e \<Rightarrow> (Walk_raise e, s2)
      | Go _ w \<Rightarrow> (let s = putmhead dev (w_mh w) s2 in case cunique dev (w_c w) s of
           (Inl e, s) \<Rightarrow> (Walk_raise e, s)
         | (Inr c', s) \<Rightarrow> (let s = set_name dev c' (Some (w_name w)) s in (Walked c', cclose dev (Some c) s))))"
    using pn lp by (simp add: walk_def n s0_def w_def Let_def split: stepres.split)
  have "steady H s s' \<and> (case r of
      Walked c' \<Rightarrow> counted s' (addC {#c'#} H) \<and> origin s' c' root (depth d names) \<and> \<not> is_open (chans s' ! c')
        \<and> c' \<notin># ownC s' + hC H
    | Walk_fail k e \<Rightarrow> counted s' ?H \<and> steady ?H s s'
    | Walk_raise e \<Rightarrow> (\<exists>C M N. counted s' (addC C (addM M (addN N ?H)))) \<and> steady ?H s s')"
  proof (cases x)
    case (Go m w2)
    define s3 where "s3 = putmhead dev (w_mh w2) s2"
    obtain z s4 where cu: "cunique dev (w_c w2) s3 = (z, s4)" by (cases "cunique dev (w_c w2) s3")
    note i2 = l(2) [OF Go, unfolded winv_def]
    have c2: "counted s2 (addM (opt_ms (w_mh w2)) (addC {#w_c w2#} (addN {#w_name w2#} ?H)))"
      using i2 by (simp add: add_comm)
    have c3: "counted s3 (addC {#w_c w2#} (addN {#w_name w2#} ?H))" unfolding s3_def by (rule putmhead_counted [OF c2])
    have st3: "steady (addC {#w_c w2#} (addN {#w_name w2#} ?H)) s2 s3" unfolding s3_def by (rule closes_steady(3) [OF c2])
    have k3: "kept s2 s3" by (simp add: s3_def)
    have op3: "\<not> is_open (chans s3 ! w_c w2)" using steadyD(10) [OF st3, of "w_c w2"] i2 by (simp add: is_open_def)
    note q = cunique_counted [OF c3 op3 cu]
    have stH3: "steady ?H s s3" by (rule steady_trans [OF st2 steady_mono(2) [OF steady_mono(1) [OF st3]]])
    show ?thesis
    proof (cases z)
      case (Inl e)
      then have "r = Walk_raise e" "s' = s3" using wk assms(7) Go cu q(1) by (simp_all add: s3_def)
      moreover have "\<exists>C M N. counted s3 (addC C (addM M (addN N ?H)))"
        using c3 by (intro exI [of _ "{#w_c w2#}"] exI [of _ "{#}"] exI [of _ "{#w_name w2#}"]) simp
      moreover have "steady H s s3" using stH3 steady_mono(1) by blast
      ultimately show ?thesis using stH3 by simp
    next
      case (Inr c')
      have oc: "own_copy (addN {#w_name w2#} ?H) s3 (w_c w2) s4 c'" by (rule q(2) [OF Inr])
      note oc1 = oc [unfolded own_copy_def]
      have st4: "steady (addN {#w_name w2#} ?H) s3 s4" using oc1 by blast
      define s5 where "s5 = set_name dev c' (Some (w_name w2)) s4"
      have e: "r = Walked c'" "s' = cclose dev (Some c) s5" using wk assms(7) Go cu Inr by (simp_all add: s3_def s5_def)
      have c4: "counted s4 (addN {#w_name w2#} (addC {#c'#} ?H))" using oc1 by (simp add: add_comm)
      have al: "c' \<notin># ownC s4 + hC ?H" using oc1 by simp
      note sn = set_name_ok [OF c4 al, of dev, folded s5_def]
      have c5: "counted s5 (addC (opt_ms (Some c)) (addC {#c'#} H))" using sn(1) by (simp add: add_comm ac_simps)
      have c6: "counted s' (addC {#c'#} H)" unfolding e by (rule cclose_counted [OF c5])
      have st6: "steady (addC {#c'#} H) s5 s'" unfolding e(2) by (rule closes_steady(1) [OF c5])
      have k6: "kept s5 s'" by (simp add: e)
      have st: "steady H s s'"
      proof -
        have "steady H s s3" using stH3 steady_mono(1) by blast
        moreover have "steady H s3 s4" by (rule steady_mono(1) [OF steady_mono(2) [OF st4]])
        moreover have "steady H s4 s5" using sn(2) steady_mono(1) by blast
        moreover have "steady H s5 s'" using st6 steady_mono(1) by blast
        ultimately show ?thesis by (blast intro: steady_trans)
      qed
      have cn: "c_name (chans s' ! c') = Some (w_name w2)" using steadyD(8) [OF st6, of c'] sn(3) by simp
      have "w_name w2 \<in># ownN s'" using chan_owned(2) [OF c6, of c'] cn by (auto dest: mset_subset_eqD)
      then have fr: "\<not> n_free (cnames s' ! w_name w2)" using counted_liveN [OF c6] by simp
      have stN: "steady (addN {#w_name w2#} ?H) s2 s4"
        by (rule steady_trans [OF steady_mono(1) [OF st3] st4])
      have mt: "n_mtpt (cnames s' ! w_name w2) = n_mtpt (cnames s2 ! w_name w2)"
        using keptD(17) [OF k6 fr] sn(5) steadyD(12) [OF stN, of "w_name w2"] by simp
      obtain y L where y: "n_mtpt (cnames s2 ! w_name w2) = Some y # L" "length L = depth d names" "place (chans s2 ! y) = root"
        using i2 by (auto simp: pinned_def)
      have "ident (chans s' ! y) = ident (chans s2 ! y)"
        using keptD(7) [OF k6, of y] spec [OF sn(4), of y] steadyD(13) [OF stN, of "w_name w2" y] y(1)
        by (simp add: nameC_def opts_ms_def)
      then have py: "place (chans s' ! y) = root" using place_ident y(3) by metis
      have "ident (chans s' ! c') = ident (chans s2 ! w_c w2)"
        using keptD(7) [OF k6, of c'] spec [OF sn(4), of c'] oc1 keptD(7) [OF k3, of "w_c w2"] by simp
      then have pc: "place (chans s' ! c') = place (chans s2 ! w_c w2)" by (rule place_ident)
      have "origin s' c' root (depth d names)"
        using cn mt y py pc i2 by (auto simp: origin_def pinned_def)
      moreover have "\<not> is_open (chans s' ! c')"
        using steadyD(10) [OF st6, of c'] sn(6) oc1 by (simp add: is_open_def)
      moreover have "c' \<notin># ownC s' + hC H" using sn(8) kept_notin(1) [OF k6, of c'] by simp
      ultimately show ?thesis using e(1) c6 st by simp
    qed
  next
    case (Fail k e)
    then show ?thesis using wk assms(7) l(3) [OF Fail] st2 steady_mono(1) [OF st2] by simp
  next
    case (Raise e)
    then show ?thesis using wk assms(7) l(4) [OF Raise] st2 steady_mono(1) [OF st2] by simp
  qed
  then show "steady H s s'"
    "r = Walked c' \<Longrightarrow> counted s' (addC {#c'#} H) \<and> origin s' c' root (depth d names) \<and> \<not> is_open (chans s' ! c')
      \<and> c' \<notin># ownC s' + hC H"
    "r = Walk_fail k e \<Longrightarrow> counted s' ?H \<and> steady ?H s s'"
    "r = Walk_raise e' \<Longrightarrow> (\<exists>C M N. counted s' (addC C (addM M (addN N ?H)))) \<and> steady ?H s s'" for k e e' c'
    by auto
qed

end
