(* ===== verification/Locks.thy ===== *)
theory Locks
  imports Prelude
begin

text \<open>
  The locks of emu/port/lock.c: spin locks on \<open>_tas\<close>, queueing locks (\<open>QLock\<close>) and reader-writer locks
  (\<open>RWLock\<close>), as processes that run them step by step. One \<open>RWLock\<close> is modelled with its spin lock
  \<open>l\<close> and its two queueing locks \<open>x\<close> and \<open>k\<close>, each with its own spin lock \<open>use\<close>; any number of processes
  use it. What a process does between taking and releasing a spin lock is one step where it touches
  only what that lock protects; every \<open>lock\<close>, \<open>canlock\<close>, \<open>osblock\<close> and \<open>osready\<close> is a step of its own.
  \<open>osblock\<close> and \<open>osready\<close> wait for and post the semaphore of a process (emu/port/kproc-pthreads.c).
\<close>

section \<open>The state\<close>

datatype qid = X | K

text \<open>The spin locks: \<open>l\<close> of the \<open>RWLock\<close> and \<open>use\<close> of each \<open>QLock\<close>.\<close>

datatype spin = L | Use qid

datatype lockop = Rlock | Canrlock | Runlock | Wlock | Wunlock

text \<open>
  Where a process is. \<open>Out\<close>, \<open>Reading\<close> and \<open>Writing\<close> are outside the lock's code. The others are inside the
  operation named: in \<open>qlock\<close> (\<open>Ql0\<close> at \<open>lock\<close>, \<open>Ql1\<close> after it, \<open>Ql2\<close> in \<open>osblock\<close>), in \<open>qunlock\<close> (\<open>Qu0\<close> at
  \<open>lock\<close>, \<open>Qu1\<close> after it, \<open>Qu2\<close> at \<open>osready\<close>), in \<open>canqlock(&l->k)\<close> (\<open>Cq0\<close> at \<open>canlock\<close>, \<open>Cq1\<close> after it), or in
  the operation's own code (\<open>L0\<close> at \<open>lock(&l->l)\<close>, \<open>L1\<close> after it, \<open>L2\<close> at the \<open>unlock\<close> at its end).
\<close>

datatype pc =
    Out | Reading | Writing
  | Ql0 lockop qid | Ql1 lockop qid | Ql2 lockop qid
  | Qu0 lockop qid | Qu1 lockop qid | Qu2 lockop qid nat
  | Cq0 lockop | Cq1 lockop
  | L0 lockop | L1 lockop | L2 lockop

record qlock =
  q_locked :: bool
  q_head :: "nat option"
  q_tail :: "nat option"

text \<open>\<open>qnext\<close>, \<open>nlocks\<close> and \<open>sem\<close> are the fields of each process.\<close>

record rwstate =
  val :: "spin \<Rightarrow> bool"
  ql :: "qid \<Rightarrow> qlock"
  readers :: int
  writers :: int
  qnext :: "nat \<Rightarrow> nat option"
  sem :: "nat \<Rightarrow> nat"
  nlocks :: "nat \<Rightarrow> nat"
  pc :: "nat \<Rightarrow> pc"

definition rw_init :: rwstate where
  "rw_init = \<lparr>val = (\<lambda>_. False), ql = (\<lambda>_. \<lparr>q_locked = False, q_head = None, q_tail = None\<rparr>),
     readers = 0, writers = 0, qnext = (\<lambda>_. None), sem = (\<lambda>_. 0), nlocks = (\<lambda>_. 0), pc = (\<lambda>_. Out)\<rparr>"

definition goto :: "nat \<Rightarrow> pc \<Rightarrow> rwstate \<Rightarrow> rwstate" where
  "goto p c s = s\<lparr>pc := (pc s)(p := c)\<rparr>"

section \<open>The operations\<close>

text \<open>One \<open>_tas\<close> of \<open>lock\<close> or \<open>canlock\<close> that finds the lock free; \<open>locktaken\<close> counts it.\<close>

definition tas :: "nat \<Rightarrow> spin \<Rightarrow> rwstate \<Rightarrow> rwstate" where
  "tas p a s = s\<lparr>val := (val s)(a := True), nlocks := (nlocks s)(p := nlocks s p + 1)\<rparr>"

definition spin_unlock :: "nat \<Rightarrow> spin \<Rightarrow> rwstate \<Rightarrow> rwstate" where
  "spin_unlock p a s = s\<lparr>val := (val s)(a := False), nlocks := (nlocks s)(p := nlocks s p - 1)\<rparr>"

text \<open>\<open>lock\<close> goes on to \<open>c\<close> when it gets the lock; until then the process spins.\<close>

definition spin_lock :: "nat \<Rightarrow> spin \<Rightarrow> pc \<Rightarrow> rwstate \<Rightarrow> rwstate option" where
  "spin_lock p a c s = (if val s a then None else Some (goto p c (tas p a s)))"

definition upd_ql :: "qid \<Rightarrow> (qlock \<Rightarrow> qlock) \<Rightarrow> rwstate \<Rightarrow> rwstate" where
  "upd_ql q f s = s\<lparr>ql := (ql s)(q := f (ql s q))\<rparr>"

text \<open>The end of the list of waiting processes, in \<open>qlock\<close>.\<close>

definition enqueue :: "nat \<Rightarrow> qid \<Rightarrow> rwstate \<Rightarrow> rwstate" where
  "enqueue up q s =
     (let s = (case q_tail (ql s q) of
                 None \<Rightarrow> upd_ql q (\<lambda>x. x\<lparr>q_head := Some up\<rparr>) s
               | Some p \<Rightarrow> s\<lparr>qnext := (qnext s)(p := Some up)\<rparr>);
          s = upd_ql q (\<lambda>x. x\<lparr>q_tail := Some up\<rparr>) s
      in s\<lparr>qnext := (qnext s)(up := None)\<rparr>)"

text \<open>The front of it, in \<open>qunlock\<close>: the process taken off, if there is one.\<close>

definition dequeue :: "qid \<Rightarrow> rwstate \<Rightarrow> nat option \<times> rwstate" where
  "dequeue q s =
     (case q_head (ql s q) of
        None \<Rightarrow> (None, s)
      | Some p \<Rightarrow>
          (let s = upd_ql q (\<lambda>x. x\<lparr>q_head := qnext s p\<rparr>) s;
               s = (if q_head (ql s q) = None then upd_ql q (\<lambda>x. x\<lparr>q_tail := None\<rparr>) s else s)
           in (Some p, s)))"

text \<open>What follows a \<open>qlock\<close>, a \<open>qunlock\<close> and the last \<open>unlock(&l->l)\<close>, in each operation.\<close>

fun after_qlock :: "lockop \<Rightarrow> qid \<Rightarrow> pc" where
  "after_qlock Rlock _ = L0 Rlock"
| "after_qlock Wlock X = Ql0 Wlock K"
| "after_qlock _ _ = Writing"

fun after_qunlock :: "lockop \<Rightarrow> qid \<Rightarrow> pc" where
  "after_qunlock Runlock _ = L2 Runlock"
| "after_qunlock Wunlock K = Qu0 Wunlock X"
| "after_qunlock Wunlock X = L0 Wunlock"
| "after_qunlock _ _ = Reading"

fun after_unlock :: "lockop \<Rightarrow> pc" where
  "after_unlock Rlock = Qu0 Rlock X"
| "after_unlock Canrlock = Reading"
| "after_unlock _ = Out"

definition qlock_body :: "nat \<Rightarrow> lockop \<Rightarrow> qid \<Rightarrow> rwstate \<Rightarrow> rwstate" where
  "qlock_body p a q s =
     (if \<not> q_locked (ql s q)
      then goto p (after_qlock a q) (spin_unlock p (Use q) (upd_ql q (\<lambda>x. x\<lparr>q_locked := True\<rparr>) s))
      else goto p (Ql2 a q) (spin_unlock p (Use q) (enqueue p q s)))"

definition qunlock_body :: "nat \<Rightarrow> lockop \<Rightarrow> qid \<Rightarrow> rwstate \<Rightarrow> rwstate" where
  "qunlock_body p a q s =
     (case dequeue q s of
        (Some r, s) \<Rightarrow> goto p (Qu2 a q r) (spin_unlock p (Use q) s)
      | (None, s) \<Rightarrow>
          goto p (after_qunlock a q) (spin_unlock p (Use q) (upd_ql q (\<lambda>x. x\<lparr>q_locked := False\<rparr>) s)))"

text \<open>\<open>canqlock(&l->k)\<close>, whose result is not used.\<close>

definition canqlock_try :: "nat \<Rightarrow> lockop \<Rightarrow> rwstate \<Rightarrow> rwstate" where
  "canqlock_try p a s = (if val s (Use K) then goto p (L2 a) s else goto p (Cq1 a) (tas p (Use K) s))"

definition canqlock_body :: "nat \<Rightarrow> lockop \<Rightarrow> rwstate \<Rightarrow> rwstate" where
  "canqlock_body p a s =
     (if q_locked (ql s K) then goto p (L2 a) (spin_unlock p (Use K) s)
      else goto p (L2 a) (spin_unlock p (Use K) (upd_ql K (\<lambda>x. x\<lparr>q_locked := True\<rparr>) s)))"

text \<open>What each operation does once it has \<open>l\<close>.\<close>

fun locked_body :: "lockop \<Rightarrow> nat \<Rightarrow> rwstate \<Rightarrow> rwstate" where
  "locked_body Rlock p s = goto p (Cq0 Rlock) (s\<lparr>readers := readers s + 1\<rparr>)"
| "locked_body Canrlock p s =
     (if writers s \<noteq> 0 then goto p Out (spin_unlock p L s)
      else goto p (Cq0 Canrlock) (s\<lparr>readers := readers s + 1\<rparr>))"
| "locked_body Runlock p s =
     (let s = s\<lparr>readers := readers s - 1\<rparr>
      in if readers s = 0 then goto p (Qu0 Runlock K) s else goto p (L2 Runlock) s)"
| "locked_body Wlock p s = goto p (Ql0 Wlock X) (spin_unlock p L (s\<lparr>writers := writers s + 1\<rparr>))"
| "locked_body Wunlock p s = goto p Out (spin_unlock p L (s\<lparr>writers := writers s - 1\<rparr>))"

text \<open>The next step of process \<open>p\<close>; none while it spins, is blocked, or is outside the code.\<close>

definition exec :: "nat \<Rightarrow> rwstate \<Rightarrow> rwstate option" where
  "exec p s =
     (case pc s p of
        Out \<Rightarrow> None | Reading \<Rightarrow> None | Writing \<Rightarrow> None
      | Ql0 a q \<Rightarrow> spin_lock p (Use q) (Ql1 a q) s
      | Ql1 a q \<Rightarrow> Some (qlock_body p a q s)
      | Ql2 a q \<Rightarrow>
          if sem s p = 0 then None
          else Some (goto p (after_qlock a q) (s\<lparr>sem := (sem s)(p := sem s p - 1)\<rparr>))
      | Qu0 a q \<Rightarrow> spin_lock p (Use q) (Qu1 a q) s
      | Qu1 a q \<Rightarrow> Some (qunlock_body p a q s)
      | Qu2 a q r \<Rightarrow> Some (goto p (after_qunlock a q) (s\<lparr>sem := (sem s)(r := sem s r + 1)\<rparr>))
      | Cq0 a \<Rightarrow> Some (canqlock_try p a s)
      | Cq1 a \<Rightarrow> Some (canqlock_body p a s)
      | L0 a \<Rightarrow> spin_lock p L (L1 a) s
      | L1 a \<Rightarrow> Some (locked_body a p s)
      | L2 a \<Rightarrow> Some (goto p (after_unlock a) (spin_unlock p L s)))"

text \<open>The calls: a process outside takes the lock or tries to, one that has it releases it.\<close>

fun call :: "lockop \<Rightarrow> nat \<Rightarrow> rwstate \<Rightarrow> rwstate option" where
  "call Rlock p s = (if pc s p = Out then Some (goto p (Ql0 Rlock X) s) else None)"
| "call Canrlock p s = (if pc s p = Out then Some (goto p (L0 Canrlock) s) else None)"
| "call Wlock p s = (if pc s p = Out then Some (goto p (L0 Wlock) s) else None)"
| "call Runlock p s = (if pc s p = Reading then Some (goto p (L0 Runlock) s) else None)"
| "call Wunlock p s = (if pc s p = Writing then Some (goto p (Qu0 Wunlock K) s) else None)"

inductive reach :: "rwstate \<Rightarrow> bool" where
  start: "reach rw_init"
| calls: "reach s \<Longrightarrow> call a p s = Some s' \<Longrightarrow> reach s'"
| steps: "reach s \<Longrightarrow> exec p s = Some s' \<Longrightarrow> reach s'"

inductive_cases reachE: "reach s"

end
