(* ===== verification/LocksInv.thy ===== *)
theory LocksInv
  imports Locks
begin

text \<open>
  The invariant of the locks and its preservation by every call and step: who holds the spin locks, the
  queues behind \<open>x\<close> and \<open>k\<close> as lists, who has been handed a lock and waits for its wake-up, who holds \<open>x\<close>
  and \<open>k\<close>, and that the two counts are right. \<open>rw_inv\<close> is the whole of it, \<open>reach_inv\<close> its consequence.
\<close>

section \<open>What a process holds, by where it is\<close>

text \<open>The spin locks a process holds.\<close>

fun spin_of :: "pc \<Rightarrow> spin set" where
  "spin_of (Ql1 a q) = {Use q}"
| "spin_of (Qu0 a q) = (if a = Runlock then {L} else {})"
| "spin_of (Qu1 a q) = (if a = Runlock then {Use q, L} else {Use q})"
| "spin_of (Qu2 a q r) = (if a = Runlock then {L} else {})"
| "spin_of (Cq0 a) = {L}"
| "spin_of (Cq1 a) = {Use K, L}"
| "spin_of (L1 a) = {L}"
| "spin_of (L2 a) = {L}"
| "spin_of _ = {}"

text \<open>Whether it holds \<open>x\<close>, apart from a process in \<open>osblock\<close> that has been handed it.\<close>

fun owns_x :: "pc \<Rightarrow> bool" where
  "owns_x (L0 a) = (a = Rlock)"
| "owns_x (L1 a) = (a = Rlock)"
| "owns_x (Cq0 a) = (a = Rlock)"
| "owns_x (Cq1 a) = (a = Rlock)"
| "owns_x (L2 a) = (a = Rlock)"
| "owns_x (Qu0 a q) = (a = Rlock \<or> a = Wunlock)"
| "owns_x (Qu1 a q) = (a = Rlock \<or> a = Wunlock)"
| "owns_x (Qu2 a q r) = (a = Wunlock \<and> q = K)"
| "owns_x (Ql0 a q) = (q = K)"
| "owns_x (Ql1 a q) = (q = K)"
| "owns_x (Ql2 a q) = (q = K)"
| "owns_x Writing = True"
| "owns_x _ = False"

text \<open>Whether it holds \<open>k\<close> as a writer, with the same exception.\<close>

fun owns_k :: "pc \<Rightarrow> bool" where
  "owns_k (Qu0 a q) = (a = Wunlock \<and> q = K)"
| "owns_k (Qu1 a q) = (a = Wunlock \<and> q = K)"
| "owns_k Writing = True"
| "owns_k _ = False"

text \<open>Whether it is counted in \<open>readers\<close>, and in \<open>writers\<close>.\<close>

fun reads :: "pc \<Rightarrow> bool" where
  "reads Reading = True"
| "reads (L0 a) = (a = Runlock)"
| "reads (L1 a) = (a = Runlock)"
| "reads (Cq0 a) = True"
| "reads (Cq1 a) = True"
| "reads (L2 a) = (a \<noteq> Runlock)"
| "reads (Qu0 a q) = (a = Rlock)"
| "reads (Qu1 a q) = (a = Rlock)"
| "reads (Qu2 a q r) = (a = Rlock)"
| "reads _ = False"

fun writes :: "pc \<Rightarrow> bool" where
  "writes Writing = True"
| "writes (Ql0 a q) = (a = Wlock)"
| "writes (Ql1 a q) = (a = Wlock)"
| "writes (Ql2 a q) = (a = Wlock)"
| "writes (Qu0 a q) = (a = Wunlock)"
| "writes (Qu1 a q) = (a = Wunlock)"
| "writes (Qu2 a q r) = (a = Wunlock)"
| "writes (L0 a) = (a = Wunlock)"
| "writes (L1 a) = (a = Wunlock)"
| "writes _ = False"

text \<open>The places there are.\<close>

fun place_ok :: "pc \<Rightarrow> bool" where
  "place_ok (Ql0 a q) = (a = Rlock \<and> q = X \<or> a = Wlock)"
| "place_ok (Ql1 a q) = (a = Rlock \<and> q = X \<or> a = Wlock)"
| "place_ok (Ql2 a q) = (a = Rlock \<and> q = X \<or> a = Wlock)"
| "place_ok (Qu0 a q) = (a = Rlock \<and> q = X \<or> a = Runlock \<and> q = K \<or> a = Wunlock)"
| "place_ok (Qu1 a q) = (a = Rlock \<and> q = X \<or> a = Runlock \<and> q = K \<or> a = Wunlock)"
| "place_ok (Qu2 a q r) = (a = Rlock \<and> q = X \<or> a = Runlock \<and> q = K \<or> a = Wunlock)"
| "place_ok (Cq0 a) = (a = Rlock \<or> a = Canrlock)"
| "place_ok (Cq1 a) = (a = Rlock \<or> a = Canrlock)"
| "place_ok (L2 a) = (a = Rlock \<or> a = Canrlock \<or> a = Runlock)"
| "place_ok _ = True"

section \<open>The queue of waiting processes\<close>

fun linked :: "(nat \<Rightarrow> nat option) \<Rightarrow> nat list \<Rightarrow> bool" where
  "linked n [] = True"
| "linked n [p] = (n p = None)"
| "linked n (p # q # ps) = (n p = Some q \<and> linked n (q # ps))"

text \<open>The abstraction: the list a \<open>QLock\<close>'s \<open>head\<close>, \<open>tail\<close> and the \<open>qnext\<close> of the processes stand for.\<close>

definition queued :: "qid \<Rightarrow> rwstate \<Rightarrow> nat list \<Rightarrow> bool" where
  "queued q s ws \<longleftrightarrow>
     q_head (ql s q) = (if ws = [] then None else Some (hd ws)) \<and>
     q_tail (ql s q) = (if ws = [] then None else Some (last ws)) \<and> linked (qnext s) ws \<and> distinct ws"

lemma linked_other: "linked n ws \<Longrightarrow> p \<notin> set ws \<Longrightarrow> linked (n(p := v)) ws"
  by (induction n ws rule: linked.induct) auto

lemma linked_snoc:
  "linked n (ws @ [p]) \<Longrightarrow> distinct (ws @ [p]) \<Longrightarrow> r \<notin> set (ws @ [p]) \<Longrightarrow> linked (n(p := Some r, r := None)) (ws @ [p, r])"
  by (induction n ws rule: linked.induct) (auto simp: linked_other)

lemma linked_tl: "linked n (p # ws) \<Longrightarrow> linked n ws"
  by (cases ws) auto

lemma linked_hd: "linked n (p # ws) \<Longrightarrow> n p = (if ws = [] then None else Some (hd ws))"
  by (cases ws) auto

lemma linked_single [simp]: "linked (n(p := None)) [p]"
  by simp

lemma enqueue_queued:
  assumes "queued q s ws" and "p \<notin> set ws" shows "queued q (enqueue p q s) (ws @ [p])"
proof (cases ws rule: rev_cases)
  case (snoc us r)
  have "linked ((qnext s)(r := Some p, p := None)) (us @ [r, p])"
    using linked_snoc [of "qnext s" us r p] assms snoc by (auto simp: queued_def)
  then show ?thesis using assms snoc
    by (auto simp: queued_def enqueue_def upd_ql_def Let_def hd_append)
qed (use assms in \<open>simp add: queued_def enqueue_def upd_ql_def\<close>)

lemma enqueue_other:
  assumes "queued q' s ws" and "p \<notin> set ws" and "q' \<noteq> q" and "queued q s us" and "set us \<inter> set ws = {}"
  shows "queued q' (enqueue p q s) ws"
proof (cases us rule: rev_cases)
  case (snoc vs r)
  then have "r \<notin> set ws" using assms(5) by auto
  then show ?thesis using assms snoc
    by (auto simp: queued_def enqueue_def upd_ql_def Let_def linked_other)
qed (use assms in \<open>auto simp: queued_def enqueue_def upd_ql_def linked_other\<close>)

lemma dequeue_queued:
  assumes "queued q s ws"
  shows "case ws of [] \<Rightarrow> dequeue q s = (None, s)
    | p # ws' \<Rightarrow> (\<exists>s'. dequeue q s = (Some p, s') \<and> queued q s' ws' \<and> (\<forall>q' us. q' \<noteq> q \<longrightarrow> queued q' s' us = queued q' s us))"
  using assms
  by (cases ws) (auto simp: queued_def dequeue_def upd_ql_def Let_def split: if_splits dest: linked_tl linked_hd)

lemma enqueue_fields [simp]:
  "val (enqueue p q s) = val s" "readers (enqueue p q s) = readers s" "writers (enqueue p q s) = writers s"
  "sem (enqueue p q s) = sem s" "nlocks (enqueue p q s) = nlocks s" "pc (enqueue p q s) = pc s"
  "q_locked (ql (enqueue p q s) q') = q_locked (ql s q')"
  by (auto simp: enqueue_def upd_ql_def Let_def split: option.splits)

lemma dequeue_fields:
  assumes "dequeue q s = (x, s')"
  shows "val s' = val s" "readers s' = readers s" "writers s' = writers s" "sem s' = sem s" "nlocks s' = nlocks s"
    "pc s' = pc s" "q_locked (ql s' q') = q_locked (ql s q')"
  using assms by (auto simp: dequeue_def upd_ql_def Let_def split: option.splits if_splits)

section \<open>The invariant\<close>

type_synonym queues = "qid \<Rightarrow> nat list"

definition waits_ok :: "queues \<Rightarrow> (nat \<Rightarrow> pc) \<Rightarrow> bool" where
  "waits_ok w c \<longleftrightarrow> (\<forall>q p. p \<in> set (w q) \<longrightarrow> (\<exists>a. c p = Ql2 a q))"

definition spins_ok :: "(spin \<Rightarrow> bool) \<Rightarrow> (nat \<Rightarrow> pc) \<Rightarrow> bool" where
  "spins_ok v c \<longleftrightarrow>
     (\<forall>a. v a \<longleftrightarrow> (\<exists>p. a \<in> spin_of (c p))) \<and> (\<forall>a p r. a \<in> spin_of (c p) \<and> a \<in> spin_of (c r) \<longrightarrow> p = r)"

text \<open>A process in \<open>osblock\<close> that has been taken off the queue is handed the lock; its post is to come or has come.\<close>

definition handed :: "queues \<Rightarrow> (nat \<Rightarrow> pc) \<Rightarrow> nat \<Rightarrow> bool" where
  "handed w c p \<longleftrightarrow> (\<exists>a q. c p = Ql2 a q \<and> p \<notin> set (w q))"

definition posting :: "(nat \<Rightarrow> pc) \<Rightarrow> nat \<Rightarrow> nat \<Rightarrow> bool" where
  "posting c r p \<longleftrightarrow> (\<exists>a q. c r = Qu2 a q p)"

definition posts_ok :: "queues \<Rightarrow> (nat \<Rightarrow> nat) \<Rightarrow> (nat \<Rightarrow> pc) \<Rightarrow> bool" where
  "posts_ok w sm c \<longleftrightarrow>
     (\<forall>r p. posting c r p \<longrightarrow> handed w c p \<and> (\<forall>r'. posting c r' p \<longrightarrow> r' = r)) \<and>
     (\<forall>p. sm p = (if handed w c p \<and> (\<forall>r. \<not> posting c r p) then 1 else 0))"

text \<open>The processes that hold a queueing lock.\<close>

definition owners :: "(pc \<Rightarrow> bool) \<Rightarrow> qid \<Rightarrow> queues \<Rightarrow> (nat \<Rightarrow> pc) \<Rightarrow> nat set" where
  "owners f q w c = {p. f (c p) \<or> (\<exists>a. c p = Ql2 a q \<and> p \<notin> set (w q))}"

definition x_ok :: "bool \<Rightarrow> queues \<Rightarrow> (nat \<Rightarrow> pc) \<Rightarrow> bool" where
  "x_ok locked w c \<longleftrightarrow>
     (\<forall>p\<in>owners owns_x X w c. owners owns_x X w c = {p}) \<and> (locked \<longleftrightarrow> owners owns_x X w c \<noteq> {}) \<and>
     (w X \<noteq> [] \<longrightarrow> locked)"

text \<open>
  The readers hold \<open>k\<close> together, from the \<open>canqlock\<close> of the first one to the \<open>qunlock\<close> of the last.
\<close>

fun starting :: "pc \<Rightarrow> bool" where
  "starting (Cq0 a) = True"
| "starting (Cq1 a) = True"
| "starting _ = False"

fun ending :: "pc \<Rightarrow> bool" where
  "ending (Qu0 a q) = (a = Runlock)"
| "ending (Qu1 a q) = (a = Runlock)"
| "ending _ = False"

definition readers_hold :: "int \<Rightarrow> (nat \<Rightarrow> pc) \<Rightarrow> bool" where
  "readers_hold n c \<longleftrightarrow> (\<exists>p. ending (c p)) \<or> n \<ge> 2 \<or> n = 1 \<and> (\<forall>p. \<not> starting (c p))"

definition k_ok :: "bool \<Rightarrow> int \<Rightarrow> queues \<Rightarrow> (nat \<Rightarrow> pc) \<Rightarrow> bool" where
  "k_ok locked n w c \<longleftrightarrow>
     (locked \<longleftrightarrow> owners owns_k K w c \<noteq> {} \<or> readers_hold n c) \<and>
     (owners owns_k K w c \<noteq> {} \<longrightarrow> n = 0 \<and> (\<forall>r. \<not> starting (c r) \<and> \<not> ending (c r))) \<and>
     ((\<exists>p. ending (c p)) \<longrightarrow> n = 0) \<and> (w K \<noteq> [] \<longrightarrow> locked) \<and>
     (\<forall>p r. c p = Cq0 Canrlock \<or> c p = Cq1 Canrlock \<longrightarrow> \<not> writes (c r))"

definition counts_ok :: "int \<Rightarrow> int \<Rightarrow> (nat \<Rightarrow> pc) \<Rightarrow> bool" where
  "counts_ok n m c \<longleftrightarrow>
     finite {p. c p \<noteq> Out} \<and> n = int (card {p. reads (c p)}) \<and> m = int (card {p. writes (c p)})"

definition rw_inv :: "queues \<Rightarrow> rwstate \<Rightarrow> bool" where
  "rw_inv w s \<longleftrightarrow>
     (\<forall>p. place_ok (pc s p)) \<and> (\<forall>q. queued q s (w q)) \<and> waits_ok w (pc s) \<and> spins_ok (val s) (pc s) \<and>
     posts_ok w (sem s) (pc s) \<and> x_ok (q_locked (ql s X)) w (pc s) \<and>
     k_ok (q_locked (ql s K)) (readers s) w (pc s) \<and> counts_ok (readers s) (writers s) (pc s) \<and>
     (\<forall>p. nlocks s p = card (spin_of (pc s p)))"

section \<open>Moving one process\<close>

lemma spins_okD:
  assumes "spins_ok v c"
  shows "v a \<longleftrightarrow> (\<exists>p. a \<in> spin_of (c p))" and "a \<in> spin_of (c p) \<Longrightarrow> a \<in> spin_of (c r) \<Longrightarrow> p = r"
  using assms unfolding spins_ok_def by blast+

lemma spins_okI:
  assumes "\<And>a. v a \<Longrightarrow> \<exists>p. a \<in> spin_of (c p)" and "\<And>a p. a \<in> spin_of (c p) \<Longrightarrow> v a"
    and "\<And>a p r. a \<in> spin_of (c p) \<Longrightarrow> a \<in> spin_of (c r) \<Longrightarrow> p = r"
  shows "spins_ok v c"
  using assms unfolding spins_ok_def by blast

lemma spins_same:
  assumes "spins_ok v c" and "spin_of d = spin_of (c p)" shows "spins_ok v (c(p := d))"
proof -
  have s: "spin_of ((c(p := d)) r) = spin_of (c r)" for r using assms(2) by simp
  show ?thesis
    by (rule spins_okI; unfold s) (use spins_okD [OF assms(1)] in blast)+
qed

lemma spins_take:
  assumes "spins_ok v c" and "\<not> v a" and "spin_of d = insert a (spin_of (c p))"
  shows "spins_ok (v(a := True)) (c(p := d))"
proof -
  have s: "b \<in> spin_of ((c(p := d)) r) \<longleftrightarrow> b \<in> spin_of (c r) \<or> b = a \<and> r = p" for b r using assms(3) by auto
  have a: "a \<notin> spin_of (c r)" for r using spins_okD(1) [OF assms(1)] assms(2) by blast
  show ?thesis
    by (rule spins_okI) (unfold s, use a spins_okD [OF assms(1)] in \<open>auto split: if_splits\<close>)
qed

lemma spins_drop:
  assumes "spins_ok v c" and "a \<in> spin_of (c p)" and "spin_of d = spin_of (c p) - {a}"
  shows "spins_ok (v(a := False)) (c(p := d))"
proof -
  have a: "a \<in> spin_of (c r) \<Longrightarrow> r = p" for r using spins_okD(2) [OF assms(1)] assms(2) by blast
  then have s: "b \<in> spin_of ((c(p := d)) r) \<longleftrightarrow> b \<in> spin_of (c r) \<and> b \<noteq> a" for b r using assms(3) by auto
  show ?thesis
    by (rule spins_okI) (unfold s, use spins_okD [OF assms(1)] in \<open>auto split: if_splits\<close>)
qed

lemma waits_move: "waits_ok w c \<Longrightarrow> \<forall>a q. c p = Ql2 a q \<longrightarrow> p \<notin> set (w q) \<Longrightarrow> waits_ok w (c(p := d))"
  by (auto simp: waits_ok_def) blast

lemma owners_move:
  "owners f q w (c(p := d)) =
     (if f d \<or> (\<exists>a. d = Ql2 a q \<and> p \<notin> set (w q)) then insert p (owners f q w c) else owners f q w c - {p})"
  by (auto simp: owners_def)

lemma posts_move:
  assumes "posts_ok w sm c" and "\<forall>a q. c p \<noteq> Ql2 a q \<and> d \<noteq> Ql2 a q" and "\<forall>a q r. c p \<noteq> Qu2 a q r \<and> d \<noteq> Qu2 a q r"
  shows "posts_ok w sm (c(p := d))"
proof -
  have "handed w (c(p := d)) = handed w c" "posting (c(p := d)) = posting c"
    using assms(2,3) by (auto simp: handed_def posting_def fun_eq_iff)
  then show ?thesis using assms(1) by (simp add: posts_ok_def)
qed

lemma card_move:
  assumes "finite {p. c p \<noteq> Out}" and "\<not> f Out"
  shows "int (card {r. f ((c(p := d)) r)}) = int (card {r. f (c r)}) - (if f (c p) then 1 else 0) + (if f d then 1 else 0)"
proof -
  have fin: "finite {r. f (c r)}" using assms by (elim rev_finite_subset) auto
  have "{r. f ((c(p := d)) r)} = (if f d then insert p ({r. f (c r)} - {p}) else {r. f (c r)} - {p})" by auto
  moreover have "int (card ({r. f (c r)} - {p})) = int (card {r. f (c r)}) - (if f (c p) then 1 else 0)"
    using fin card_Suc_Diff1 [OF fin, of p] by (auto simp flip: of_nat_Suc)
  ultimately show ?thesis using fin by (simp add: card_insert_disjoint del: fun_upd_apply insert_Diff_single)
qed

lemma counts_move:
  assumes "counts_ok n m c"
    and "n' = n - (if reads (c p) then 1 else 0) + (if reads d then 1 else 0)"
    and "m' = m - (if writes (c p) then 1 else 0) + (if writes d then 1 else 0)"
  shows "counts_ok n' m' (c(p := d))"
proof -
  have fin: "finite {p. c p \<noteq> Out}" using assms(1) by (simp add: counts_ok_def)
  have "{r. (c(p := d)) r \<noteq> Out} \<subseteq> insert p {p. c p \<noteq> Out}" by auto
  then have "finite {r. (c(p := d)) r \<noteq> Out}" using fin finite_subset by blast
  then show ?thesis using assms card_move [OF fin, of reads p d] card_move [OF fin, of writes p d]
    by (simp add: counts_ok_def)
qed

lemma counts_pos: "counts_ok n m c \<Longrightarrow> reads (c p) \<Longrightarrow> n \<ge> 1"
  by (auto simp: counts_ok_def Suc_le_eq card_gt_0_iff elim!: rev_finite_subset)

lemma counts_writer: "counts_ok n m c \<Longrightarrow> writes (c p) \<Longrightarrow> m \<ge> 1"
  by (auto simp: counts_ok_def Suc_le_eq card_gt_0_iff elim!: rev_finite_subset)


section \<open>Every step keeps the invariant\<close>

lemma rw_invD:
  assumes "rw_inv w s"
  shows "place_ok (pc s p)" and "queued q s (w q)" and "waits_ok w (pc s)" and "spins_ok (val s) (pc s)"
    and "posts_ok w (sem s) (pc s)" and "x_ok (q_locked (ql s X)) w (pc s)"
    and "k_ok (q_locked (ql s K)) (readers s) w (pc s)" and "counts_ok (readers s) (writers s) (pc s)"
    and "nlocks s p = card (spin_of (pc s p))"
  using assms by (simp_all add: rw_inv_def)

lemma queued_same: "queued q s ws \<Longrightarrow> ql s' = ql s \<Longrightarrow> qnext s' = qnext s \<Longrightarrow> queued q s' ws"
  by (simp add: queued_def)

text \<open>What moves of one process leave the owners of \<open>x\<close> and \<open>k\<close> as they are.\<close>

definition same_owner :: "pc \<Rightarrow> pc \<Rightarrow> bool" where
  "same_owner c d \<longleftrightarrow> (owns_x c \<longleftrightarrow> owns_x d) \<and> (owns_k c \<longleftrightarrow> owns_k d) \<and> (\<forall>a q. c \<noteq> Ql2 a q \<and> d \<noteq> Ql2 a q)"

lemma same_owners:
  assumes "same_owner (c p) d"
  shows "owners owns_x X w (c(p := d)) = owners owns_x X w c" "owners owns_k K w (c(p := d)) = owners owns_k K w c"
  using assms by (auto simp: owners_def same_owner_def)

lemma x_same: "x_ok l w c \<Longrightarrow> same_owner (c p) d \<Longrightarrow> x_ok l w (c(p := d))"
  unfolding x_ok_def same_owners by blast

definition same_k :: "pc \<Rightarrow> pc \<Rightarrow> bool" where
  "same_k c d \<longleftrightarrow> same_owner c d \<and> (starting c \<longleftrightarrow> starting d) \<and> (ending c \<longleftrightarrow> ending d) \<and> (writes d \<longrightarrow> writes c)"

lemma ex_move: "(f (c p) \<longleftrightarrow> f d) \<Longrightarrow> (\<exists>r. f ((c(p := d)) r)) \<longleftrightarrow> (\<exists>r. f (c r))"
  by (metis fun_upd_apply)

lemma k_same_gen:
  assumes "k_ok l n w c" and "owners owns_k K w (c(p := d)) = owners owns_k K w c"
    and e: "starting (c p) = starting d" "ending (c p) = ending d" and wr: "writes d \<longrightarrow> writes (c p)"
    and "d = Cq0 Canrlock \<or> d = Cq1 Canrlock \<longrightarrow> c p = Cq0 Canrlock"
  shows "k_ok l n w (c(p := d))"
proof -
  have st: "(\<exists>r. starting ((c(p := d)) r)) \<longleftrightarrow> (\<exists>r. starting (c r))" and en: "(\<exists>r. ending ((c(p := d)) r)) \<longleftrightarrow> (\<exists>r. ending (c r))"
    using ex_move [where f = starting and c = c and p = p, OF e(1)] ex_move [where f = ending and c = c and p = p, OF e(2)] by blast+
  have rh: "readers_hold n (c(p := d)) = readers_hold n c" using st en unfolding readers_hold_def by blast
  have cw: "\<forall>q r. (c(p := d)) q = Cq0 Canrlock \<or> (c(p := d)) q = Cq1 Canrlock \<longrightarrow> \<not> writes ((c(p := d)) r)"
    using assms(1,6) wr by (auto simp: k_ok_def)
  show ?thesis
    using assms(1) st en cw unfolding k_ok_def rh assms(2) by blast
qed

lemma k_same:
  assumes "k_ok l n w c" and "same_k (c p) d" and "d = Cq0 Canrlock \<or> d = Cq1 Canrlock \<longrightarrow> c p = Cq0 Canrlock"
  shows "k_ok l n w (c(p := d))"
  using assms same_owners(2) [where c = c and p = p and d = d]
  by (intro k_same_gen) (simp_all add: same_k_def)

text \<open>A move to and from places that are neither in \<open>osblock\<close> nor at \<open>osready\<close>.\<close>

definition plain :: "pc \<Rightarrow> bool" where
  "plain c \<longleftrightarrow> (\<forall>a q. c \<noteq> Ql2 a q) \<and> (\<forall>a q r. c \<noteq> Qu2 a q r)"

lemma plain_simps [simp]:
  "plain Out" "plain Reading" "plain Writing" "plain (Ql0 a q)" "plain (Ql1 a q)" "\<not> plain (Ql2 a q)"
  "plain (Qu0 a q)" "plain (Qu1 a q)" "\<not> plain (Qu2 a q r)" "plain (Cq0 a)" "plain (Cq1 a)" "plain (L0 a)" "plain (L1 a)" "plain (L2 a)"
  by (simp_all add: plain_def)

text \<open>The move of process \<open>p\<close> to \<open>d\<close> that changes nothing but the two counts and a spin lock.\<close>

lemma rw_inv_move:
  assumes "rw_inv w s" and "plain (pc s p)" and "plain d" and "place_ok d"
    and "pc s' = (pc s)(p := d)" and "ql s' = ql s" and "qnext s' = qnext s" and "sem s' = sem s"
    and "spins_ok (val s') ((pc s)(p := d))" and "nlocks s' = (nlocks s)(p := card (spin_of d))"
    and "x_ok (q_locked (ql s X)) w ((pc s)(p := d))" and "k_ok (q_locked (ql s K)) (readers s') w ((pc s)(p := d))"
    and "readers s' = readers s - (if reads (pc s p) then 1 else 0) + (if reads d then 1 else 0)"
    and "writers s' = writers s - (if writes (pc s p) then 1 else 0) + (if writes d then 1 else 0)"
  shows "rw_inv w s'"
proof -
  note i = rw_invD [OF assms(1)]
  have w: "waits_ok w ((pc s)(p := d))" by (rule waits_move [OF i(3)]) (use assms(2) in \<open>auto simp: plain_def\<close>)
  have po: "posts_ok w (sem s) ((pc s)(p := d))" by (rule posts_move [OF i(5)]) (use assms(2,3) in \<open>auto simp: plain_def\<close>)
  have c: "counts_ok (readers s') (writers s') ((pc s)(p := d))" by (rule counts_move [OF i(8) assms(13,14)])
  have q: "queued q s' (w q)" for q by (rule queued_same [OF i(2) assms(6,7)])
  have n: "nlocks s' r = card (spin_of (((pc s)(p := d)) r))" for r using i(9) [of r] assms(10) by simp
  have pl: "place_ok (((pc s)(p := d)) r)" for r using i(1) [of r] assms(4) by simp
  show ?thesis unfolding rw_inv_def assms(5,6,8) using w po c q n pl assms(9,11,12) by blast
qed

text \<open>Taking a spin lock, and letting it go.\<close>

lemma take_inv:
  assumes "rw_inv w s" and "\<not> val s a" and "spin_of d = insert a (spin_of (pc s p))" and "plain (pc s p)" and "plain d" and "place_ok d"
    and "same_k (pc s p) d" and "d = Cq0 Canrlock \<or> d = Cq1 Canrlock \<longrightarrow> pc s p = Cq0 Canrlock"
    and "reads (pc s p) = reads d" and "writes (pc s p) = writes d"
  shows "rw_inv w (goto p d (tas p a s))"
proof (rule rw_inv_move [OF assms(1,4-6)])
  note i = rw_invD [OF assms(1)]
  have "a \<notin> spin_of (pc s p)" using assms(2) spins_okD(1) [OF i(4)] by blast
  moreover have "finite (spin_of (pc s p))" by (cases "pc s p") auto
  ultimately show "nlocks (goto p d (tas p a s)) = (nlocks s)(p := card (spin_of d))"
    using i(9) [of p] assms(3) by (simp add: goto_def tas_def)
  show "spins_ok (val (goto p d (tas p a s))) ((pc s)(p := d))"
    using spins_take [OF i(4) assms(2,3)] by (simp add: goto_def tas_def)
  show "x_ok (q_locked (ql s X)) w ((pc s)(p := d))" using x_same i(6) assms(7) by (simp add: same_k_def)
  show "k_ok (q_locked (ql s K)) (readers (goto p d (tas p a s))) w ((pc s)(p := d))"
    using k_same [OF i(7) assms(7,8)] by (simp add: goto_def tas_def)
qed (use assms(9,10) in \<open>simp_all add: goto_def tas_def\<close>)

lemma drop_nlocks:
  assumes "rw_inv w s" and "a \<in> spin_of (pc s p)" and "spin_of d = spin_of (pc s p) - {a}"
  shows "(nlocks s)(p := nlocks s p - 1) = (nlocks s)(p := card (spin_of d))"
proof -
  have "finite (spin_of (pc s p))" by (cases "pc s p") auto
  then show ?thesis using rw_invD(9) [OF assms(1), of p] assms(2,3) by (simp add: card_Diff_singleton)
qed

lemma drop_inv:
  assumes "rw_inv w s" and "a \<in> spin_of (pc s p)" and "spin_of d = spin_of (pc s p) - {a}" and "plain (pc s p)" and "plain d" and "place_ok d"
    and "x_ok (q_locked (ql s X)) w ((pc s)(p := d))" and "k_ok (q_locked (ql s K)) n w ((pc s)(p := d))"
    and "n = readers s - (if reads (pc s p) then 1 else 0) + (if reads d then 1 else 0)"
    and "m = writers s - (if writes (pc s p) then 1 else 0) + (if writes d then 1 else 0)"
  shows "rw_inv w (goto p d (spin_unlock p a (s\<lparr>readers := n, writers := m\<rparr>)))"
proof (rule rw_inv_move [OF assms(1,4-6)])
  note i = rw_invD [OF assms(1)]
  show "nlocks (goto p d (spin_unlock p a (s\<lparr>readers := n, writers := m\<rparr>))) = (nlocks s)(p := card (spin_of d))"
    using drop_nlocks [OF assms(1-3)] by (simp add: goto_def spin_unlock_def)
  show "spins_ok (val (goto p d (spin_unlock p a (s\<lparr>readers := n, writers := m\<rparr>)))) ((pc s)(p := d))"
    using spins_drop [OF i(4) assms(2,3)] by (simp add: goto_def spin_unlock_def)
qed (use assms(7-10) in \<open>simp_all add: goto_def spin_unlock_def\<close>)

text \<open>The steps at \<open>lock\<close>, and the calls.\<close>

lemma L0_inv: "rw_inv w s \<Longrightarrow> pc s p = L0 a \<Longrightarrow> \<not> val s L \<Longrightarrow> rw_inv w (goto p (L1 a) (tas p L s))"
  by (rule take_inv) (auto simp: same_k_def same_owner_def)

lemma Ql0_inv: "rw_inv w s \<Longrightarrow> pc s p = Ql0 a q \<Longrightarrow> \<not> val s (Use q) \<Longrightarrow> rw_inv w (goto p (Ql1 a q) (tas p (Use q) s))"
  using rw_invD(1) [of w s p] by (intro take_inv) (auto simp: same_k_def same_owner_def)

lemma Qu0_inv: "rw_inv w s \<Longrightarrow> pc s p = Qu0 a q \<Longrightarrow> \<not> val s (Use q) \<Longrightarrow> rw_inv w (goto p (Qu1 a q) (tas p (Use q) s))"
  using rw_invD(1) [of w s p] by (intro take_inv) (auto simp: same_k_def same_owner_def)

lemma call_inv:
  assumes "rw_inv w s" and "call a p s = Some s'" shows "rw_inv w s'"
proof -
  note i = rw_invD [OF assms(1)]
  obtain d where d: "s' = goto p d s" and "plain (pc s p)" "plain d" "place_ok d" "same_k (pc s p) d"
    "spin_of d = spin_of (pc s p)" "reads (pc s p) = reads d" "writes (pc s p) = writes d" "d \<noteq> Cq0 Canrlock" "d \<noteq> Cq1 Canrlock"
    using assms(2) by (cases a) (auto simp: same_k_def same_owner_def split: if_splits)
  moreover have "x_ok (q_locked (ql s X)) w ((pc s)(p := d))" using x_same i(6) calculation by (simp add: same_k_def)
  moreover have "k_ok (q_locked (ql s K)) (readers s) w ((pc s)(p := d))" using k_same [OF i(7)] calculation by blast
  moreover have "spins_ok (val s) ((pc s)(p := d))" using spins_same [OF i(4)] calculation by blast
  moreover have "nlocks s = (nlocks s)(p := card (spin_of (pc s p)))" using i(9) [of p] by (simp add: fun_upd_idem)
  ultimately show ?thesis by (intro rw_inv_move [OF assms(1), of p d]) (simp_all add: goto_def)
qed

text \<open>While \<open>p\<close> holds \<open>l\<close>, the state of \<open>k\<close> depends on where \<open>p\<close> is only.\<close>

lemma L_alone:
  assumes "spins_ok v c" and "L \<in> spin_of (c p)" and "r \<noteq> p"
  shows "\<not> starting (c r)" and "\<not> ending (c r)" and "L \<notin> spin_of (c r)"
proof -
  have n: "L \<notin> spin_of (c r)" using spins_okD(2) [OF assms(1,2)] assms(3) by blast
  then show "\<not> starting (c r)" "\<not> ending (c r)" "L \<notin> spin_of (c r)" by (cases "c r"; auto)+
qed

definition hold_at :: "int \<Rightarrow> pc \<Rightarrow> bool" where
  "hold_at n d \<longleftrightarrow> ending d \<or> n \<ge> 2 \<or> n = 1 \<and> \<not> starting d"

definition k_at :: "bool \<Rightarrow> int \<Rightarrow> queues \<Rightarrow> (nat \<Rightarrow> pc) \<Rightarrow> pc \<Rightarrow> bool" where
  "k_at l n w c d \<longleftrightarrow>
     (l \<longleftrightarrow> owners owns_k K w c \<noteq> {} \<or> hold_at n d) \<and>
     (owners owns_k K w c \<noteq> {} \<longrightarrow> n = 0 \<and> \<not> starting d \<and> \<not> ending d) \<and> (ending d \<longrightarrow> n = 0) \<and> (w K \<noteq> [] \<longrightarrow> l) \<and>
     (d = Cq0 Canrlock \<or> d = Cq1 Canrlock \<longrightarrow> (\<forall>r. \<not> writes (c r)))"

lemma k_in_L:
  assumes "spins_ok v c" and "L \<in> spin_of (c p)"
  shows "k_ok l n w (c(p := d)) \<longleftrightarrow> k_at l n w (c(p := d)) d"
proof -
  let ?c = "c(p := d)"
  have alone: "\<not> starting (?c r)" "\<not> ending (?c r)" if "r \<noteq> p" for r using L_alone [OF assms that] that by simp_all
  have st: "(\<exists>r. starting (?c r)) = starting d" and en: "(\<exists>r. ending (?c r)) = ending d"
    using alone by (metis fun_upd_same)+
  have al: "(\<forall>r. \<not> starting (?c r) \<and> \<not> ending (?c r)) \<longleftrightarrow> \<not> starting d \<and> \<not> ending d" using st en by blast
  have rh: "readers_hold n ?c = hold_at n d" unfolding readers_hold_def hold_at_def using st en by blast
  have cq: "(?c q = Cq0 Canrlock \<or> ?c q = Cq1 Canrlock) \<longleftrightarrow> q = p \<and> (d = Cq0 Canrlock \<or> d = Cq1 Canrlock)" for q
    using alone [of q] by (cases "q = p") auto
  show ?thesis unfolding k_ok_def k_at_def en al rh cq by blast
qed

lemma k_at_now:
  assumes "rw_inv w s" and "L \<in> spin_of (pc s p)"
  shows "k_at (q_locked (ql s K)) (readers s) w (pc s) (pc s p)"
  using k_in_L [OF rw_invD(4) [OF assms(1)] assms(2), of _ _ _ "pc s p"] rw_invD(7) [OF assms(1)] by simp

lemma owns_x_one: "x_ok l w c \<Longrightarrow> owns_x (c p) \<Longrightarrow> owns_x (c r) \<Longrightarrow> p = r"
  unfolding x_ok_def owners_def by blast

text \<open>A process that holds \<open>x\<close> keeps the others from holding \<open>k\<close> as writers.\<close>

lemma owners_k_x:
  assumes "rw_inv w s" and "r \<in> owners owns_k K w (pc s)" shows "owns_x (pc s r)" and "writes (pc s r)"
proof -
  have "place_ok (pc s r)" by (rule rw_invD(1) [OF assms(1)])
  then show "owns_x (pc s r)" "writes (pc s r)" using assms(2) by (cases "pc s r"; auto simp: owners_def)+
qed

lemma x_no_writer:
  assumes "rw_inv w s" and "owns_x (pc s p)" and "\<not> owns_k (pc s p)" and "plain (pc s p)"
  shows "owners owns_k K w (pc s) = {}"
proof (rule ccontr)
  assume "owners owns_k K w (pc s) \<noteq> {}"
  then obtain r where r: "r \<in> owners owns_k K w (pc s)" by blast
  then have "r = p" using owns_x_one [OF rw_invD(6) [OF assms(1)] owners_k_x(1) [OF assms(1) r] assms(2)] by simp
  then show False using r assms(3,4) by (auto simp: owners_def plain_def)
qed

lemma writing_no_writer:
  assumes "rw_inv w s" and "\<And>r. \<not> writes (pc s r)" shows "owners owns_k K w (pc s) = {}"
  using owners_k_x(2) [OF assms(1)] assms(2) by blast

lemma no_writers: "counts_ok n 0 c \<Longrightarrow> \<not> writes (c r)"
  using counts_writer [of n 0 c r] by auto

text \<open>The steps under \<open>l\<close>.\<close>

lemma stay_inv:
  assumes "rw_inv w s" and "L \<in> spin_of (pc s p)" and "spin_of d = spin_of (pc s p)" and "plain (pc s p)" and "plain d" and "place_ok d"
    and "same_owner (pc s p) d" and "writes (pc s p) = writes d"
    and "n = readers s - (if reads (pc s p) then 1 else 0) + (if reads d then 1 else 0)"
    and "k_at (q_locked (ql s K)) n w ((pc s)(p := d)) d"
  shows "rw_inv w (goto p d (s\<lparr>readers := n\<rparr>))"
proof (rule rw_inv_move [OF assms(1,4-6)])
  note i = rw_invD [OF assms(1)]
  show "spins_ok (val (goto p d (s\<lparr>readers := n\<rparr>))) ((pc s)(p := d))" using spins_same [OF i(4) assms(3)] by (simp add: goto_def)
  show "nlocks (goto p d (s\<lparr>readers := n\<rparr>)) = (nlocks s)(p := card (spin_of d))"
    using i(9) [of p] assms(3) by (simp add: goto_def fun_upd_idem)
  show "x_ok (q_locked (ql s X)) w ((pc s)(p := d))" using x_same i(6) assms(7) by simp
  show "k_ok (q_locked (ql s K)) (readers (goto p d (s\<lparr>readers := n\<rparr>))) w ((pc s)(p := d))"
    using k_in_L [OF i(4) assms(2)] assms(10) by (simp add: goto_def)
qed (use assms(8,9) in \<open>simp_all add: goto_def\<close>)

lemma rlock_body_inv:
  assumes "rw_inv w s" and "pc s p = L1 Rlock" shows "rw_inv w (locked_body Rlock p s)"
proof -
  note i = rw_invD [OF assms(1)] and k = k_at_now [OF assms(1), of p]
  have so: "same_owner (pc s p) (Cq0 Rlock)" using assms(2) by (simp add: same_owner_def)
  have "owners owns_k K w (pc s) = {}" by (rule x_no_writer [OF assms(1), of p]) (simp_all add: assms(2))
  then have "k_at (q_locked (ql s K)) (readers s + 1) w ((pc s)(p := Cq0 Rlock)) (Cq0 Rlock)"
    using k assms(2) same_owners(2) [where c = "pc s" and p = p, OF so]
    by (auto simp: k_at_def hold_at_def)
  then show ?thesis using assms so by (auto intro!: stay_inv)
qed


lemma canrlock_body_inv:
  assumes "rw_inv w s" and "pc s p = L1 Canrlock" shows "rw_inv w (locked_body Canrlock p s)"
proof (cases "writers s = 0")
  case True
  note i = rw_invD [OF assms(1)] and k = k_at_now [OF assms(1), of p]
  have so: "same_owner (pc s p) (Cq0 Canrlock)" using assms(2) by (simp add: same_owner_def)
  have nw: "\<not> writes (pc s r)" for r using i(8) True no_writers by metis
  have "owners owns_k K w (pc s) = {}" by (rule writing_no_writer [OF assms(1) nw])
  then have "k_at (q_locked (ql s K)) (readers s + 1) w ((pc s)(p := Cq0 Canrlock)) (Cq0 Canrlock)"
    using k assms(2) nw same_owners(2) [where c = "pc s" and p = p, OF so]
    by (auto simp: k_at_def hold_at_def)
  then show ?thesis using assms so True by (auto intro!: stay_inv)
next
  case False
  note i = rw_invD [OF assms(1)]
  have so: "same_k (pc s p) Out" using assms(2) by (simp add: same_owner_def same_k_def)
  then have "x_ok (q_locked (ql s X)) w ((pc s)(p := Out))" using x_same i(6) by (simp add: same_k_def)
  moreover have "k_ok (q_locked (ql s K)) (readers s) w ((pc s)(p := Out))" by (rule k_same [OF i(7) so]) simp
  ultimately have "rw_inv w (goto p Out (spin_unlock p L (s\<lparr>readers := readers s, writers := writers s\<rparr>)))"
    using assms by (intro drop_inv) auto
  then show ?thesis using False by simp
qed

lemma runlock_body_inv:
  assumes "rw_inv w s" and "pc s p = L1 Runlock" shows "rw_inv w (locked_body Runlock p s)"
proof -
  note i = rw_invD [OF assms(1)] and k = k_at_now [OF assms(1), of p]
  define d where "d = (if readers s - 1 = 0 then Qu0 Runlock K else L2 Runlock)"
  have so: "same_owner (pc s p) d" using assms(2) by (simp add: same_owner_def d_def)
  have n: "readers s \<ge> 1" using counts_pos [OF i(8), of p] assms(2) by simp
  then have "owners owns_k K w (pc s) = {}" using k assms(2) by (auto simp: k_at_def)
  then have "k_at (q_locked (ql s K)) (readers s - 1) w ((pc s)(p := d)) d"
    using k n assms(2) same_owners(2) [where c = "pc s" and p = p, OF so]
    by (auto simp: k_at_def hold_at_def d_def)
  then have "rw_inv w (goto p d (s\<lparr>readers := readers s - 1\<rparr>))"
    using assms so by (intro stay_inv) (auto simp: d_def)
  then show ?thesis by (simp add: d_def Let_def split: if_splits)
qed

lemma wlock_body_inv:
  assumes "rw_inv w s" and "pc s p = L1 Wlock" shows "rw_inv w (locked_body Wlock p s)"
proof -
  note i = rw_invD [OF assms(1)] and k = k_at_now [OF assms(1), of p]
  have so: "same_owner (pc s p) (Ql0 Wlock X)" using assms(2) by (simp add: same_owner_def)
  have "x_ok (q_locked (ql s X)) w ((pc s)(p := Ql0 Wlock X))" using x_same i(6) so by blast
  moreover have "k_at (q_locked (ql s K)) (readers s) w ((pc s)(p := Ql0 Wlock X)) (Ql0 Wlock X)"
    using k assms(2) same_owners(2) [where c = "pc s" and p = p, OF so] by (auto simp: k_at_def hold_at_def)
  then have "k_ok (q_locked (ql s K)) (readers s) w ((pc s)(p := Ql0 Wlock X))"
    using k_in_L [OF i(4), of p] assms(2) by simp
  ultimately have "rw_inv w (goto p (Ql0 Wlock X) (spin_unlock p L (s\<lparr>readers := readers s, writers := writers s + 1\<rparr>)))"
    using assms by (intro drop_inv) auto
  then show ?thesis by simp
qed

lemma wunlock_body_inv:
  assumes "rw_inv w s" and "pc s p = L1 Wunlock" shows "rw_inv w (locked_body Wunlock p s)"
proof -
  note i = rw_invD [OF assms(1)]
  have so: "same_k (pc s p) Out" using assms(2) by (simp add: same_owner_def same_k_def)
  then have "x_ok (q_locked (ql s X)) w ((pc s)(p := Out))" using x_same i(6) by (simp add: same_k_def)
  moreover have "k_ok (q_locked (ql s K)) (readers s) w ((pc s)(p := Out))" by (rule k_same [OF i(7) so]) simp
  ultimately have "rw_inv w (goto p Out (spin_unlock p L (s\<lparr>readers := readers s, writers := writers s - 1\<rparr>)))"
    using assms by (intro drop_inv) auto
  then show ?thesis by simp
qed

lemma L1_inv: "rw_inv w s \<Longrightarrow> pc s p = L1 a \<Longrightarrow> rw_inv w (locked_body a p s)"
  by (cases a) (simp_all only: rlock_body_inv canrlock_body_inv runlock_body_inv wlock_body_inv wunlock_body_inv)

lemma L2_inv:
  assumes "rw_inv w s" and "pc s p = L2 a" shows "rw_inv w (goto p (after_unlock a) (spin_unlock p L s))"
proof -
  note i = rw_invD [OF assms(1)]
  let ?d = "after_unlock a"
  have a: "a = Rlock \<or> a = Canrlock \<or> a = Runlock" using i(1) [of p] assms(2) by simp
  then have so: "same_k (pc s p) ?d" using assms(2) by (auto simp: same_owner_def same_k_def)
  then have "x_ok (q_locked (ql s X)) w ((pc s)(p := ?d))" using x_same i(6) by (simp add: same_k_def)
  moreover have "k_ok (q_locked (ql s K)) (readers s) w ((pc s)(p := ?d))" by (rule k_same [OF i(7) so]) (use a in auto)
  ultimately have "rw_inv w (goto p ?d (spin_unlock p L (s\<lparr>readers := readers s, writers := writers s\<rparr>)))"
    using assms a by (intro drop_inv) auto
  then show ?thesis by simp
qed

lemma Cq0_inv:
  assumes "rw_inv w s" and "pc s p = Cq0 a" shows "\<not> val s (Use K)" and "rw_inv w (canqlock_try p a s)"
proof -
  note i = rw_invD [OF assms(1)]
  have a: "a = Rlock \<or> a = Canrlock" using i(1) [of p] assms(2) by simp
  show nv: "\<not> val s (Use K)"
  proof
    assume "val s (Use K)"
    then obtain r where r: "Use K \<in> spin_of (pc s r)" using spins_okD(1) [OF i(4)] by blast
    have pl: "place_ok (pc s r)" by (rule i(1))
    have rp: "r \<noteq> p" using r assms(2) by auto
    have "L \<notin> spin_of (pc s r)" by (rule L_alone(3) [OF i(4) _ rp]) (simp add: assms(2))
    then have w: "owns_x (pc s r)" "writes (pc s r)" using r pl by (cases "pc s r"; auto split: if_splits)+
    have "a = Rlock \<Longrightarrow> r = p" using owns_x_one [OF i(6) w(1)] assms(2) by simp
    moreover have "a = Canrlock \<Longrightarrow> \<not> writes (pc s r)" using i(7) assms(2) by (auto simp: k_ok_def)
    ultimately show False using a rp w(2) by blast
  qed
  have "rw_inv w (goto p (Cq1 a) (tas p (Use K) s))"
    using a assms nv by (intro take_inv) (auto simp: same_k_def same_owner_def)
  then show "rw_inv w (canqlock_try p a s)" using nv by (simp add: canqlock_try_def)
qed

text \<open>The steps of the queueing locks: these change a queue, a \<open>locked\<close> or a semaphore.\<close>

lemma rw_inv_step:
  assumes "rw_inv w s" and "pc s' = (pc s)(p := d)" and "place_ok d" and "\<And>q. queued q s' (w' q)"
    and "waits_ok w' ((pc s)(p := d))" and "spins_ok (val s') ((pc s)(p := d))" and "posts_ok w' (sem s') ((pc s)(p := d))"
    and "x_ok (q_locked (ql s' X)) w' ((pc s)(p := d))" and "k_ok (q_locked (ql s' K)) (readers s) w' ((pc s)(p := d))"
    and "readers s' = readers s" and "writers s' = writers s" and "nlocks s' = (nlocks s)(p := card (spin_of d))"
    and "reads (pc s p) = reads d" and "writes (pc s p) = writes d"
  shows "rw_inv w' s'"
proof -
  note i = rw_invD [OF assms(1)]
  have c: "counts_ok (readers s) (writers s) ((pc s)(p := d))" by (rule counts_move [OF i(8)]) (simp_all add: assms(13,14))
  have n: "nlocks s' r = card (spin_of (((pc s)(p := d)) r))" for r using i(9) [of r] assms(12) by simp
  have pl: "place_ok (((pc s)(p := d)) r)" for r using i(1) [of r] assms(3) by simp
  show ?thesis unfolding rw_inv_def assms(2,10,11) using c n pl assms(4-9) by blast
qed

lemma queued_ql:
  "queued q s ws \<Longrightarrow> q_head (ql s' q) = q_head (ql s q) \<Longrightarrow> q_tail (ql s' q) = q_tail (ql s q) \<Longrightarrow> qnext s' = qnext s
     \<Longrightarrow> queued q s' ws"
  by (simp add: queued_def)

lemma goto_fields [simp]:
  "val (goto p d s) = val s" "ql (goto p d s) = ql s" "readers (goto p d s) = readers s" "writers (goto p d s) = writers s"
  "qnext (goto p d s) = qnext s" "sem (goto p d s) = sem s" "nlocks (goto p d s) = nlocks s" "pc (goto p d s) = (pc s)(p := d)"
  "val (spin_unlock p a s) = (val s)(a := False)" "ql (spin_unlock p a s) = ql s" "readers (spin_unlock p a s) = readers s"
  "writers (spin_unlock p a s) = writers s" "qnext (spin_unlock p a s) = qnext s" "sem (spin_unlock p a s) = sem s"
  "nlocks (spin_unlock p a s) = (nlocks s)(p := nlocks s p - 1)" "pc (spin_unlock p a s) = pc s"
  "val (upd_ql q f s) = val s" "ql (upd_ql q f s) = (ql s)(q := f (ql s q))" "readers (upd_ql q f s) = readers s"
  "writers (upd_ql q f s) = writers s" "qnext (upd_ql q f s) = qnext s" "sem (upd_ql q f s) = sem s"
  "nlocks (upd_ql q f s) = nlocks s" "pc (upd_ql q f s) = pc s"
  by (simp_all add: goto_def spin_unlock_def upd_ql_def)

lemma Cq1_inv:
  assumes "rw_inv w s" and "pc s p = Cq1 a" shows "rw_inv w (canqlock_body p a s)"
proof -
  note i = rw_invD [OF assms(1)] and k = k_at_now [OF assms(1), of p]
  have a: "a = Rlock \<or> a = Canrlock" using i(1) [of p] assms(2) by simp
  have so: "same_owner (pc s p) (L2 a)" using assms(2) by (auto simp: same_owner_def)
  have n: "readers s \<ge> 1" using counts_pos [OF i(8), of p] assms(2) by simp
  have x: "x_ok (q_locked (ql s X)) w ((pc s)(p := L2 a))" using x_same i(6) so by blast
  have "k_at True (readers s) w ((pc s)(p := L2 a)) (L2 a)"
    using k n assms(2) same_owners(2) [where c = "pc s" and p = p, OF so] by (auto simp: k_at_def hold_at_def)
  then have k': "k_ok True (readers s) w ((pc s)(p := L2 a))" using k_in_L [OF i(4), of p] assms(2) by simp
  have sp: "spins_ok ((val s)(Use K := False)) ((pc s)(p := L2 a))" by (rule spins_drop [OF i(4)]) (auto simp: assms(2))
  have nl: "(nlocks s)(p := nlocks s p - 1) = (nlocks s)(p := card (spin_of (L2 a)))"
    by (rule drop_nlocks [OF assms(1), of "Use K"]) (auto simp: assms(2))
  have w: "waits_ok w ((pc s)(p := L2 a))" by (rule waits_move [OF i(3)]) (simp add: assms(2))
  have po: "posts_ok w (sem s) ((pc s)(p := L2 a))" by (rule posts_move [OF i(5)]) (simp_all add: assms(2))
  define t where "t = (if q_locked (ql s K) then s else upd_ql K (\<lambda>x. x\<lparr>q_locked := True\<rparr>) s)"
  have e: "canqlock_body p a s = goto p (L2 a) (spin_unlock p (Use K) t)" by (simp add: canqlock_body_def t_def)
  have t: "val t = val s" "readers t = readers s" "writers t = writers s" "qnext t = qnext s" "sem t = sem s" "nlocks t = nlocks s"
    "pc t = pc s" "q_locked (ql t K)" "q_locked (ql t X) = q_locked (ql s X)" "q_head (ql t q) = q_head (ql s q)"
    "q_tail (ql t q) = q_tail (ql s q)" for q by (auto simp: t_def)
  have ql: "queued q (canqlock_body p a s) (w q)" for q by (rule queued_ql [OF i(2)]) (simp_all add: e t)
  have "place_ok (L2 a)" using a by auto
  then show ?thesis using x k' sp nl w po a
    by (intro rw_inv_step [OF assms(1), where p = p and d = "L2 a", OF _ _ ql w]) (auto simp: e t assms(2))
qed

lemma x_same_gen:
  assumes "x_ok l w c" and "owners owns_x X w' c' = owners owns_x X w c" and "w' X = w X \<or> l"
  shows "x_ok l w' c'"
  using assms(1,3) unfolding x_ok_def assms(2) by metis

lemma k_queue:
  assumes "k_ok l n w c" and "owners owns_k K w' c = owners owns_k K w c" and "w' K = w K \<or> l"
  shows "k_ok l n w' c"
  using assms(1,3) unfolding k_ok_def assms(2) by metis

text \<open>A writer at \<open>k\<close> finds no reader about to open the lock.\<close>

lemma no_starting:
  assumes "rw_inv w s" and "owns_x (pc s p)" and "writes (pc s p)" and "\<not> starting (pc s p)" shows "\<not> starting (pc s r)"
proof
  assume st: "starting (pc s r)"
  note i = rw_invD [OF assms(1)]
  have "pc s r = Cq0 Rlock \<or> pc s r = Cq1 Rlock \<or> pc s r = Cq0 Canrlock \<or> pc s r = Cq1 Canrlock"
    using i(1) [of r] st by (cases "pc s r") auto
  moreover have "owns_x (pc s r) \<Longrightarrow> r = p" using owns_x_one [OF i(6) _ assms(2)] by blast
  ultimately show False using i(7) assms(3,4) st by (auto simp: k_ok_def)
qed

lemma Ql1_free_inv:
  assumes "rw_inv w s" and "pc s p = Ql1 a q" and "\<not> q_locked (ql s q)"
  shows "rw_inv w (qlock_body p a q s)"
proof -
  note i = rw_invD [OF assms(1)]
  let ?d = "after_qlock a q" let ?c = "(pc s)(p := ?d)"
  have a: "a = Rlock \<and> q = X \<or> a = Wlock" using i(1) [of p] assms(2) by simp
  have pd: "plain ?d" "place_ok ?d" "spin_of ?d = {}" "reads ?d = reads (pc s p)" "writes ?d = writes (pc s p)"
    "\<not> starting ?d" "\<not> ending ?d" using a assms(2) by (cases q; auto)+
  have x: "x_ok (q = X \<or> q_locked (ql s X)) w ?c"
  proof (cases q)
    case X
    then have "owners owns_x X w (pc s) = {}" using i(6) assms(3) by (simp add: x_ok_def)
    then show ?thesis using X a by (auto simp: x_ok_def owners_move)
  next
    case K
    then have "owners owns_x X w ?c = owners owns_x X w (pc s)" using a assms(2) by (auto simp: owners_def)
    from x_same_gen [OF i(6) this] show ?thesis using K by simp
  qed
  have k: "k_ok (q = K \<or> q_locked (ql s K)) (readers s) w ?c"
  proof (cases q)
    case X
    then have "owners owns_k K w ?c = owners owns_k K w (pc s)" using a assms(2) by (auto simp: owners_def)
    then show ?thesis using k_same_gen [OF i(7), of p ?d] pd assms(2) a X by auto
  next
    case K
    have aw: "a = Wlock" using a K by simp
    have ns: "\<not> starting (pc s r)" for r by (rule no_starting [OF assms(1), of p]) (simp_all add: assms(2) aw K)
    have o: "owners owns_k K w (pc s) = {}" and nr: "\<not> readers_hold (readers s) (pc s)" using i(7) assms(3) K by (auto simp: k_ok_def)
    have "readers s = 0" using nr ns i(8) by (auto simp: readers_hold_def counts_ok_def)
    moreover have ne: "\<not> ending (?c r)" "\<not> starting (?c r)" for r using nr ns pd by (auto simp: readers_hold_def)
    moreover have "?c r \<noteq> Cq0 Canrlock" "?c r \<noteq> Cq1 Canrlock" for r using ne(2) [of r] by auto
    ultimately show ?thesis using aw K o by (auto simp: k_ok_def owners_move readers_hold_def)
  qed
  have sp: "spins_ok ((val s)(Use q := False)) ?c" by (rule spins_drop [OF i(4)]) (auto simp: assms(2) pd)
  have nl: "(nlocks s)(p := nlocks s p - 1) = (nlocks s)(p := card (spin_of ?d))"
    by (rule drop_nlocks [OF assms(1), of "Use q"]) (auto simp: assms(2) pd)
  have w: "waits_ok w ?c" by (rule waits_move [OF i(3)]) (simp add: assms(2))
  have po: "posts_ok w (sem s) ?c" by (rule posts_move [OF i(5)]) (use pd(1) in \<open>auto simp: assms(2) plain_def\<close>)
  have e: "qlock_body p a q s = goto p ?d (spin_unlock p (Use q) (upd_ql q (\<lambda>x. x\<lparr>q_locked := True\<rparr>) s))"
    using assms(3) by (simp add: qlock_body_def)
  have ql: "queued q' (qlock_body p a q s) (w q')" for q' by (rule queued_ql [OF i(2)]) (simp_all add: e)
  show ?thesis
    using x k by (intro rw_inv_step [OF assms(1), where p = p and d = ?d, OF _ pd(2) ql w _ _ _ _ _ _ _ pd(4,5) [symmetric]])
      (simp_all add: e sp nl [symmetric] po eq_commute del: fun_upd_apply, auto)
qed


lemma not_waiting: "waits_ok w c \<Longrightarrow> \<forall>a q. c p \<noteq> Ql2 a q \<Longrightarrow> p \<notin> set (w q)"
  unfolding waits_ok_def by blast

lemma Ql1_wait_inv:
  assumes "rw_inv w s" and "pc s p = Ql1 a q" and "q_locked (ql s q)"
  shows "rw_inv (w(q := w q @ [p])) (qlock_body p a q s)"
proof -
  note i = rw_invD [OF assms(1)]
  let ?d = "Ql2 a q" let ?c = "(pc s)(p := ?d)" let ?w = "w(q := w q @ [p])"
  have a: "a = Rlock \<and> q = X \<or> a = Wlock" using i(1) [of p] assms(2) by simp
  have np: "p \<notin> set (w q')" for q' by (rule not_waiting [OF i(3)]) (simp add: assms(2))
  have x: "x_ok (q_locked (ql s X)) ?w ?c"
  proof -
    have "owners owns_x X ?w ?c = owners owns_x X w (pc s)" using assms(2) by (auto simp: owners_def)
    then show ?thesis by (rule x_same_gen [OF i(6)]) (use assms(3) in \<open>cases q; simp\<close>)
  qed
  have ok: "owners owns_k K ?w ?c = owners owns_k K w (pc s)" using assms(2) by (auto simp: owners_def)
  have k: "k_ok (q_locked (ql s K)) (readers s) ?w ?c"
  proof -
    have "owners owns_k K w ((pc s)(p := Ql0 a q)) = owners owns_k K w (pc s)" using assms(2) by (auto simp: owners_def)
    then have "k_ok (q_locked (ql s K)) (readers s) w ((pc s)(p := Ql0 a q))"
      using k_same_gen [OF i(7), of p "Ql0 a q"] assms(2) by auto
    moreover have "readers_hold n ?c = readers_hold n ((pc s)(p := Ql0 a q))" for n by (auto simp: readers_hold_def)
    moreover have "owners owns_k K w ((pc s)(p := Ql0 a q)) = owners owns_k K ?w ?c" using ok assms(2) by (auto simp: owners_def)
    moreover have "(\<forall>r. \<not> starting (((pc s)(p := Ql0 a q)) r) \<and> \<not> ending (((pc s)(p := Ql0 a q)) r)) = (\<forall>r. \<not> starting (?c r) \<and> \<not> ending (?c r))"
      "(\<exists>r. ending (((pc s)(p := Ql0 a q)) r)) = (\<exists>r. ending (?c r))" by auto
    moreover have "(\<forall>p' r. ((pc s)(p := Ql0 a q)) p' = Cq0 Canrlock \<or> ((pc s)(p := Ql0 a q)) p' = Cq1 Canrlock \<longrightarrow> \<not> writes (((pc s)(p := Ql0 a q)) r))
        = (\<forall>p' r. ?c p' = Cq0 Canrlock \<or> ?c p' = Cq1 Canrlock \<longrightarrow> \<not> writes (?c r))" by auto
    moreover have "?w K \<noteq> [] \<longrightarrow> q_locked (ql s K)" using i(7) assms(3) by (cases q) (auto simp: k_ok_def)
    ultimately show ?thesis unfolding k_ok_def by metis
  qed
  have po: "posts_ok ?w (sem s) ?c"
  proof -
    have "handed ?w ?c = handed w (pc s)" "posting ?c = posting (pc s)"
      using assms(2) by (auto simp: handed_def posting_def fun_eq_iff)
    then show ?thesis using i(5) by (simp add: posts_ok_def)
  qed
  have e: "qlock_body p a q s = goto p ?d (spin_unlock p (Use q) (enqueue p q s))" using assms(3) by (simp add: qlock_body_def)
  have ql: "queued q' (qlock_body p a q s) (?w q')" for q'
  proof (cases "q' = q")
    case True
    have "queued q (enqueue p q s) (w q @ [p])" by (rule enqueue_queued [OF i(2) np])
    then show ?thesis using True by (auto simp: e elim: queued_ql)
  next
    case False
    have "\<exists>a b. pc s r = Ql2 a q \<and> pc s r = Ql2 b q'" if "r \<in> set (w q) \<inter> set (w q')" for r
      using i(3) that unfolding waits_ok_def by blast
    then have "r \<notin> set (w q) \<inter> set (w q')" for r using False by fastforce
    then have "set (w q) \<inter> set (w q') = {}" by blast
    then have "queued q' (enqueue p q s) (w q')" using enqueue_other [OF i(2) np False i(2)] by blast
    then show ?thesis using False by (auto simp: e elim: queued_ql)
  qed
  have w: "waits_ok ?w ?c" using i(3) np by (auto simp: waits_ok_def)
  have sp: "spins_ok ((val s)(Use q := False)) ?c" by (rule spins_drop [OF i(4)]) (auto simp: assms(2))
  have nl: "(nlocks s)(p := nlocks s p - 1) = (nlocks s)(p := card (spin_of ?d))"
    by (rule drop_nlocks [OF assms(1), of "Use q"]) (auto simp: assms(2))
  have pl: "place_ok ?d" using a by simp
  show ?thesis
    using x k sp nl po by (intro rw_inv_step [OF assms(1), where p = p and d = ?d, OF _ pl ql w]) (auto simp: e assms(2))
qed

lemma Ql2_inv:
  assumes "rw_inv w s" and "pc s p = Ql2 a q" and "sem s p \<noteq> 0"
  shows "rw_inv w (goto p (after_qlock a q) (s\<lparr>sem := (sem s)(p := sem s p - 1)\<rparr>))"
proof -
  note i = rw_invD [OF assms(1)]
  let ?d = "after_qlock a q" let ?c = "(pc s)(p := ?d)"
  have a: "a = Rlock \<and> q = X \<or> a = Wlock" using i(1) [of p] assms(2) by simp
  have h: "handed w (pc s) p" "\<And>r. \<not> posting (pc s) r p" "sem s p = 1"
    using i(5) assms(3) unfolding posts_ok_def by (metis, metis, metis)
  have np: "p \<notin> set (w q)" using h(1) assms(2) by (simp add: handed_def)
  have pd: "plain ?d" "place_ok ?d" "spin_of ?d = {}" "reads ?d = reads (pc s p)" "writes ?d = writes (pc s p)"
    "\<not> starting ?d" "\<not> ending ?d" "\<And>a q r. ?d \<noteq> Qu2 a q r" "\<And>a q. ?d \<noteq> Ql2 a q" "?d \<noteq> Cq0 Canrlock" "?d \<noteq> Cq1 Canrlock"
    using a assms(2) by (cases q; auto)+
  have ox: "owners owns_x X w ?c = owners owns_x X w (pc s)" using a assms(2) np by (cases q) (auto simp: owners_def)
  have ok: "owners owns_k K w ?c = owners owns_k K w (pc s)" using a assms(2) np by (cases q) (auto simp: owners_def)
  have x: "x_ok (q_locked (ql s X)) w ?c" by (rule x_same_gen [OF i(6) ox]) simp
  have k: "k_ok (q_locked (ql s K)) (readers s) w ?c" by (rule k_same_gen [OF i(7) ok]) (use pd assms(2) in auto)
  have po: "posts_ok w ((sem s)(p := sem s p - 1)) ?c"
  proof -
    have "handed w ?c r \<longleftrightarrow> handed w (pc s) r \<and> r \<noteq> p" for r using pd(9) by (auto simp: handed_def)
    moreover have "posting ?c = posting (pc s)" using pd(8) assms(2) by (auto simp: posting_def fun_eq_iff)
    ultimately show ?thesis using i(5) h by (auto simp: posts_ok_def)
  qed
  have w: "waits_ok w ?c" by (rule waits_move [OF i(3)]) (use assms(2) np in auto)
  have sp: "spins_ok (val s) ?c" by (rule spins_same [OF i(4)]) (simp add: assms(2) pd)
  have nl: "nlocks s = (nlocks s)(p := card (spin_of ?d))" using i(9) [of p] assms(2) pd(3) by (simp add: fun_upd_idem)
  have ql: "queued q' (goto p ?d (s\<lparr>sem := (sem s)(p := sem s p - 1)\<rparr>)) (w q')" for q' by (rule queued_ql [OF i(2)]) simp_all
  show ?thesis
    using x k sp nl po pd by (intro rw_inv_step [OF assms(1), where p = p and d = ?d, OF _ pd(2) ql w]) auto
qed


text \<open>\<open>qunlock\<close> when nobody waits, and when it hands the lock to the first in the queue.\<close>

lemma dequeue_empty: "queued q s [] \<Longrightarrow> dequeue q s = (None, s)"
  by (simp add: queued_def dequeue_def)

lemma ending_readers:
  assumes "rw_inv w s" and "ending (pc s p)"
  shows "readers s = 0" and "owners owns_k K w (pc s) = {}"
  using rw_invD(7) [OF assms(1)] assms(2) unfolding k_ok_def by blast+

lemma Qu1_free_inv:
  assumes "rw_inv w s" and "pc s p = Qu1 a q" and "w q = []"
  shows "rw_inv w (qunlock_body p a q s)"
proof -
  note i = rw_invD [OF assms(1)]
  let ?d = "after_qunlock a q" let ?c = "(pc s)(p := ?d)"
  have a: "a = Rlock \<and> q = X \<or> a = Runlock \<and> q = K \<or> a = Wunlock" using i(1) [of p] assms(2) by simp
  have pd: "plain ?d" "place_ok ?d" "spin_of ?d = spin_of (pc s p) - {Use q}" "reads ?d = reads (pc s p)" "writes ?d = writes (pc s p)"
    "\<not> starting ?d" "\<not> ending ?d" "?d \<noteq> Cq0 Canrlock" "?d \<noteq> Cq1 Canrlock" using a assms(2) by (cases q; auto)+
  have x: "x_ok (q \<noteq> X \<and> q_locked (ql s X)) w ?c"
  proof (cases q)
    case X
    then have "p \<in> owners owns_x X w (pc s)" using a assms(2) by (auto simp: owners_def)
    then have "owners owns_x X w (pc s) = {p}" using i(6) by (auto simp: x_ok_def)
    then show ?thesis using X a assms(3) by (auto simp: x_ok_def owners_move)
  next
    case K
    then have "owners owns_x X w ?c = owners owns_x X w (pc s)" using a assms(2) by (auto simp: owners_def)
    from x_same_gen [OF i(6) this] show ?thesis using K by simp
  qed
  have k: "k_ok (q \<noteq> K \<and> q_locked (ql s K)) (readers s) w ?c"
  proof (cases q)
    case X
    then have "owners owns_k K w ?c = owners owns_k K w (pc s)" using a assms(2) by (auto simp: owners_def)
    then show ?thesis using k_same_gen [OF i(7), of p ?d] pd assms(2) a X by auto
  next
    case K
    have n: "readers s = 0" and nr: "\<not> starting (?c r)" "\<not> ending (?c r)" and o: "owners owns_k K w ?c = {}" for r
    proof -
      have "readers s = 0 \<and> (\<forall>r. \<not> starting (?c r)) \<and> (\<forall>r. \<not> ending (?c r)) \<and> owners owns_k K w ?c = {}"
      proof (cases "a = Runlock")
        case True
        then have e: "ending (pc s p)" using assms(2) by simp
        have "\<not> starting (?c r) \<and> \<not> ending (?c r)" for r
          using L_alone(1,2) [OF i(4), of p r] assms(2) True pd by (cases "r = p") auto
        then show ?thesis using ending_readers [OF assms(1) e] True by (auto simp: owners_move)
      next
        case False
        then have po: "p \<in> owners owns_k K w (pc s)" using a assms(2) K by (auto simp: owners_def)
        then have 1: "readers s = 0" "\<forall>r. \<not> starting (pc s r)" "\<forall>r. \<not> ending (pc s r)" using i(7) by (auto simp: k_ok_def)
        have "r = p" if "r \<in> owners owns_k K w (pc s)" for r
          using owners_k_x(1) [OF assms(1) that] owners_k_x(1) [OF assms(1) po] owns_x_one [OF i(6)] by blast
        then show ?thesis using 1 pd False a K by (auto simp: owners_move)
      qed
      then show "readers s = 0" "\<not> starting (?c r)" "\<not> ending (?c r)" "owners owns_k K w ?c = {}" by blast+
    qed
    moreover have "?c r \<noteq> Cq0 Canrlock" "?c r \<noteq> Cq1 Canrlock" for r using nr(1) [of r] by auto
    ultimately show ?thesis using assms(3) K unfolding k_ok_def readers_hold_def by simp
  qed
  have sp: "spins_ok ((val s)(Use q := False)) ?c" by (rule spins_drop [OF i(4)]) (auto simp: assms(2) pd)
  have nl: "(nlocks s)(p := nlocks s p - 1) = (nlocks s)(p := card (spin_of ?d))"
    by (rule drop_nlocks [OF assms(1), of "Use q"]) (auto simp: assms(2) pd)
  have w: "waits_ok w ?c" by (rule waits_move [OF i(3)]) (simp add: assms(2))
  have po: "posts_ok w (sem s) ?c" by (rule posts_move [OF i(5)]) (use pd(1) in \<open>auto simp: assms(2) plain_def\<close>)
  have e: "qunlock_body p a q s = goto p ?d (spin_unlock p (Use q) (upd_ql q (\<lambda>x. x\<lparr>q_locked := False\<rparr>) s))"
    using dequeue_empty i(2) [of q] assms(3) by (simp add: qunlock_body_def)
  have ql: "queued q' (qunlock_body p a q s) (w q')" for q' by (rule queued_ql [OF i(2)]) (simp_all add: e)
  show ?thesis
    using x k by (intro rw_inv_step [OF assms(1), where p = p and d = ?d, OF _ pd(2) ql w _ _ _ _ _ _ _ pd(4,5) [symmetric]])
      (simp_all add: e sp nl [symmetric] po eq_commute del: fun_upd_apply, auto)
qed

lemma Qu1_hand_inv:
  assumes "rw_inv w s" and "pc s p = Qu1 a q" and "w q = r # ws"
  shows "rw_inv (w(q := ws)) (qunlock_body p a q s)"
proof -
  note i = rw_invD [OF assms(1)]
  let ?d = "Qu2 a q r" let ?c = "(pc s)(p := ?d)" let ?w = "w(q := ws)"
  have a: "a = Rlock \<and> q = X \<or> a = Runlock \<and> q = K \<or> a = Wunlock" using i(1) [of p] assms(2) by simp
  obtain b where r: "pc s r = Ql2 b q" "r \<noteq> p" using i(3) assms(2,3) unfolding waits_ok_def by (metis list.set_intros(1) pc.distinct)
  have dis: "r \<notin> set ws" using i(2) [of q] assms(3) by (simp add: queued_def)
  have pd: "place_ok ?d" "spin_of ?d = spin_of (pc s p) - {Use q}" "reads ?d = reads (pc s p)" "writes ?d = writes (pc s p)"
    "\<not> starting ?d" "\<not> ending ?d" using a assms(2) by auto
  obtain t where dq: "dequeue q s = (Some r, t)" "queued q t ws" "\<And>q' us. q' \<noteq> q \<Longrightarrow> queued q' t us = queued q' s us"
    using dequeue_queued [OF i(2) [of q]] assms(3) by auto
  note t = dequeue_fields [OF dq(1)]
  have e: "qunlock_body p a q s = goto p ?d (spin_unlock p (Use q) t)" using dq(1) by (simp add: qunlock_body_def)
  have ql: "queued q' (qunlock_body p a q s) (?w q')" for q'
  proof -
    have "queued q' t (?w q')" using dq(2,3) i(2) by (cases "q' = q") auto
    then show ?thesis by (rule queued_ql) (simp_all add: e)
  qed
  have x: "x_ok (q_locked (ql s X)) ?w ?c"
  proof (cases q)
    case X
    then have "p \<in> owners owns_x X w (pc s)" using a assms(2) by (auto simp: owners_def)
    then have o: "owners owns_x X w (pc s) = {p}" "q_locked (ql s X)" using i(6) by (auto simp: x_ok_def)
    have "owners owns_x X ?w ?c = {r}"
    proof -
      have "u \<in> owners owns_x X ?w ?c \<longleftrightarrow> u = r" for u
        using o(1) r dis X a assms(3) unfolding owners_def by (cases "u = p"; cases "u = r") auto
      then show ?thesis by blast
    qed
    then show ?thesis using o(2) by (simp add: x_ok_def)
  next
    case K
    then have "owners owns_x X ?w ?c = owners owns_x X w (pc s)" using a assms(2) by (auto simp: owners_def)
    from x_same_gen [OF i(6) this] show ?thesis using K by simp
  qed
  have k: "k_ok (q_locked (ql s K)) (readers s) ?w ?c"
  proof (cases q)
    case X
    then have o: "owners owns_k K w ?c = owners owns_k K w (pc s)" "owners owns_k K ?w ?c = owners owns_k K w ?c"
      using a assms(2) by (auto simp: owners_def)
    have "k_ok (q_locked (ql s K)) (readers s) w ?c" using k_same_gen [OF i(7) o(1)] pd assms(2) a X by auto
    then show ?thesis by (rule k_queue) (use o(2) X in auto)
  next
    case K
    have aR: "a = Runlock"
    proof (rule ccontr)
      assume "a \<noteq> Runlock"
      then have "owns_x (pc s p)" using a assms(2) K by auto
      moreover have "owns_x (pc s r)" using i(1) [of r] r(1) K by simp
      ultimately show False using owns_x_one [OF i(6)] r(2) by blast
    qed
    then have e: "ending (pc s p)" using assms(2) by simp
    have nse: "\<not> starting (?c u)" "\<not> ending (?c u)" for u
      using L_alone(1,2) [OF i(4), of p u] assms(2) aR by (cases "u = p"; simp)+
    moreover have "?c u \<noteq> Cq0 Canrlock" "?c u \<noteq> Cq1 Canrlock" for u using nse(1) [of u] by auto
    moreover have "r \<in> owners owns_k K ?w ?c" using r dis K by (simp add: owners_def)
    moreover have "w K \<noteq> []" using assms(3) K by simp
    then have "q_locked (ql s K)" using i(7) unfolding k_ok_def by blast
    ultimately show ?thesis using ending_readers(1) [OF assms(1) e] unfolding k_ok_def readers_hold_def by auto
  qed
  have po: "posts_ok ?w (sem s) ?c"
  proof -
    have nh: "\<not> handed w (pc s) r" using r(1) assms(3) by (simp add: handed_def)
    have 1: "handed ?w ?c u \<longleftrightarrow> handed w (pc s) u \<or> u = r" for u
      using assms(2,3) r dis by (cases "pc s u"; cases "u = r"; cases "u = p"; auto simp: handed_def)
    have 2: "posting ?c v u \<longleftrightarrow> posting (pc s) v u \<or> v = p \<and> u = r" for u v using assms(2) by (auto simp: posting_def)
    have 3: "\<not> posting (pc s) v r" for v using i(5) nh unfolding posts_ok_def by blast
    show ?thesis unfolding posts_ok_def 1 2 using i(5) nh 3 unfolding posts_ok_def by auto
  qed
  have np: "p \<notin> set (w q')" for q' by (rule not_waiting [OF i(3)]) (simp add: assms(2))
  then have "p \<notin> set ws" using assms(3) by (metis list.set_intros(2))
  moreover have "u \<in> set (w q)" if "u \<in> set ws" for u using that assms(3) by simp
  ultimately have w: "waits_ok ?w ?c" using i(3) np by (auto simp: waits_ok_def)
  have sp: "spins_ok ((val s)(Use q := False)) ?c" by (rule spins_drop [OF i(4)]) (auto simp: assms(2))
  have nl: "(nlocks s)(p := nlocks s p - 1) = (nlocks s)(p := card (spin_of ?d))"
    by (rule drop_nlocks [OF assms(1), of "Use q"]) (auto simp: assms(2))
  show ?thesis
    using x k sp nl po by (intro rw_inv_step [OF assms(1), where p = p and d = ?d, OF _ pd(1) ql w]) (auto simp: e t assms(2))
qed


lemma Qu1_inv:
  assumes "rw_inv w s" and "pc s p = Qu1 a q" shows "\<exists>w'. rw_inv w' (qunlock_body p a q s)"
  using Qu1_free_inv [OF assms] Qu1_hand_inv [OF assms] by (cases "w q") blast+

lemma Qu2_inv:
  assumes "rw_inv w s" and "pc s p = Qu2 a q r"
  shows "rw_inv w (goto p (after_qunlock a q) (s\<lparr>sem := (sem s)(r := sem s r + 1)\<rparr>))"
proof -
  note i = rw_invD [OF assms(1)]
  let ?d = "after_qunlock a q" let ?c = "(pc s)(p := ?d)"
  have a: "a = Rlock \<and> q = X \<or> a = Runlock \<and> q = K \<or> a = Wunlock" using i(1) [of p] assms(2) by simp
  have pd: "plain ?d" "place_ok ?d" "spin_of ?d = spin_of (pc s p)" "reads ?d = reads (pc s p)" "writes ?d = writes (pc s p)"
    "same_k (pc s p) ?d" "?d \<noteq> Cq0 Canrlock" "?d \<noteq> Cq1 Canrlock" "\<And>a q r. ?d \<noteq> Qu2 a q r" "\<And>a q. ?d \<noteq> Ql2 a q"
    using a assms(2) by (cases q; auto simp: same_k_def same_owner_def)+
  have x: "x_ok (q_locked (ql s X)) w ?c" using x_same i(6) pd(6) by (simp add: same_k_def)
  have k: "k_ok (q_locked (ql s K)) (readers s) w ?c" using k_same [OF i(7) pd(6)] pd(7,8) by blast
  have po: "posts_ok w ((sem s)(r := sem s r + 1)) ?c"
  proof -
    have pr: "posting (pc s) p r" using assms(2) by (auto simp: posting_def)
    then have h: "handed w (pc s) r" "\<And>v. posting (pc s) v r \<Longrightarrow> v = p" using i(5) unfolding posts_ok_def by blast+
    then have z: "sem s r = 0" using i(5) pr unfolding posts_ok_def by metis
    have 1: "handed w ?c = handed w (pc s)" using assms(2) pd(10) by (auto simp: handed_def fun_eq_iff)
    have 2: "posting ?c v u \<longleftrightarrow> posting (pc s) v u \<and> v \<noteq> p" for u v using assms(2) pd(9) by (auto simp: posting_def)
    have 3: "posting (pc s) p u \<longleftrightarrow> u = r" for u using assms(2) by (auto simp: posting_def)
    have "((sem s)(r := sem s r + 1)) u = (if handed w (pc s) u \<and> (\<forall>v. \<not> (posting (pc s) v u \<and> v \<noteq> p)) then 1 else 0)" for u
      using i(5) h z 3 [of u] unfolding posts_ok_def by (cases "u = r") auto
    then show ?thesis using i(5) unfolding posts_ok_def 1 2 by blast
  qed
  have w: "waits_ok w ?c" by (rule waits_move [OF i(3)]) (simp add: assms(2))
  have sp: "spins_ok (val s) ?c" by (rule spins_same [OF i(4) pd(3)])
  have nl: "nlocks s = (nlocks s)(p := card (spin_of ?d))" using i(9) [of p] pd(3) by (simp add: fun_upd_idem)
  have ql: "queued q' (goto p ?d (s\<lparr>sem := (sem s)(r := sem s r + 1)\<rparr>)) (w q')" for q' by (rule queued_ql [OF i(2)]) simp_all
  show ?thesis
    using x k sp nl po pd by (intro rw_inv_step [OF assms(1), where p = p and d = ?d, OF _ pd(2) ql w]) auto
qed

lemma exec_inv:
  assumes "rw_inv w s" and "exec p s = Some s'" shows "\<exists>w'. rw_inv w' s'"
proof (cases "pc s p")
  case (Ql0 a q)
  then show ?thesis using assms Ql0_inv [OF assms(1) Ql0] by (auto simp: exec_def spin_lock_def split: if_splits)
next
  case (Ql1 a q)
  then show ?thesis using assms Ql1_free_inv [OF assms(1) Ql1] Ql1_wait_inv [OF assms(1) Ql1] by (auto simp: exec_def)
next
  case (Ql2 a q)
  then show ?thesis using assms Ql2_inv [OF assms(1) Ql2] by (auto simp: exec_def split: if_splits)
next
  case (Qu0 a q)
  then show ?thesis using assms Qu0_inv [OF assms(1) Qu0] by (auto simp: exec_def spin_lock_def split: if_splits)
next
  case (Qu1 a q)
  then show ?thesis using assms Qu1_inv [OF assms(1) Qu1] by (auto simp: exec_def)
next
  case (Qu2 a q r)
  then show ?thesis using assms Qu2_inv [OF assms(1) Qu2] by (auto simp: exec_def)
next
  case (Cq0 a)
  then show ?thesis using assms Cq0_inv [OF assms(1) Cq0] by (auto simp: exec_def)
next
  case (Cq1 a)
  then show ?thesis using assms Cq1_inv [OF assms(1) Cq1] by (auto simp: exec_def)
next
  case (L0 a)
  then show ?thesis using assms L0_inv [OF assms(1) L0] by (auto simp: exec_def spin_lock_def split: if_splits)
next
  case (L1 a)
  then show ?thesis using assms L1_inv [OF assms(1) L1] by (auto simp: exec_def)
next
  case (L2 a)
  then show ?thesis using assms L2_inv [OF assms(1) L2] by (auto simp: exec_def)
qed (use assms in \<open>simp_all add: exec_def\<close>)

lemma init_inv: "rw_inv (\<lambda>_. []) rw_init"
  by (simp add: rw_inv_def rw_init_def queued_def waits_ok_def spins_ok_def posts_ok_def handed_def posting_def x_ok_def
      owners_def k_ok_def readers_hold_def counts_ok_def)

lemma reach_inv: "reach s \<Longrightarrow> \<exists>w. rw_inv w s"
  by (induction rule: reach.induct) (use init_inv call_inv exec_inv in blast)+

end
