(* ===== verification/LocksProps.thy ===== *)
theory LocksProps
  imports LocksInv
begin

text \<open>
  The properties of the locks: exclusion, the first-in first-out order of a queueing lock, no lost
  wake-ups, and an end to every run without new calls.
\<close>

section \<open>Nothing gets stuck\<close>

text \<open>How far a process is from the end of its operation.\<close>

fun rank :: "pc \<Rightarrow> nat" where
  "rank (Ql0 a q) = (if a = Rlock then 20 else if q = X then 15 else 12)"
| "rank (Ql1 a q) = (if a = Rlock then 19 else if q = X then 14 else 11)"
| "rank (Ql2 a q) = (if a = Rlock then 18 else if q = X then 13 else 10)"
| "rank (Qu0 a q) = (if a = Wunlock then if q = K then 25 else 22 else 12)"
| "rank (Qu1 a q) = (if a = Wunlock then if q = K then 24 else 21 else 11)"
| "rank (Qu2 a q r) = (if a = Wunlock then if q = K then 23 else 20 else 10)"
| "rank (Cq0 a) = 15"
| "rank (Cq1 a) = 14"
| "rank (L0 a) = 17"
| "rank (L1 a) = 16"
| "rank (L2 a) = (if a = Runlock then 9 else 13)"
| "rank _ = 0"

definition work :: "rwstate \<Rightarrow> nat" where
  "work s = (\<Sum>p\<in>{p. pc s p \<noteq> Out}. rank (pc s p))"

lemma exec_moves:
  assumes "rw_inv w s" and "exec p s = Some s'"
  shows "pc s' = (pc s)(p := pc s' p)" and "rank (pc s' p) < rank (pc s p)"
proof -
  have "pc s' = (pc s)(p := pc s' p) \<and> rank (pc s' p) < rank (pc s p)"
  proof (cases "pc s p")
    case (Ql1 a q)
    then show ?thesis using assms(2) rw_invD(1) [OF assms(1), of p]
      by (cases q) (auto simp: exec_def qlock_body_def fun_eq_iff split: if_splits)
  next
    case (Qu1 a q)
    obtain x t where d: "dequeue q s = (x, t)" by (cases "dequeue q s")
    have s': "s' = (case x of Some r \<Rightarrow> goto p (Qu2 a q r) (spin_unlock p (Use q) t)
        | None \<Rightarrow> goto p (after_qunlock a q) (spin_unlock p (Use q) (upd_ql q (\<lambda>x. x\<lparr>q_locked := False\<rparr>) t)))"
      using Qu1 assms(2) d by (auto simp: exec_def qunlock_body_def split: option.splits)
    show ?thesis using Qu1 rw_invD(1) [OF assms(1), of p] dequeue_fields(6) [OF d]
      by (cases q; cases x) (auto simp: s' fun_eq_iff)
  next
    case (L1 a)
    then show ?thesis using assms(2)
      by (cases a) (auto simp: exec_def fun_eq_iff Let_def split: if_splits)
  next
    case (Qu2 a q r)
    then show ?thesis using assms(2) rw_invD(1) [OF assms(1), of p] by (cases q) (auto simp: exec_def fun_eq_iff)
  next
    case (Ql2 a q)
    then show ?thesis using assms(2) rw_invD(1) [OF assms(1), of p] by (cases q) (auto simp: exec_def fun_eq_iff split: if_splits)
  next
    case (L2 a)
    then show ?thesis using assms(2) rw_invD(1) [OF assms(1), of p] by (auto simp: exec_def fun_eq_iff)
  qed (use assms(2) in \<open>auto simp: exec_def spin_lock_def canqlock_try_def canqlock_body_def tas_def fun_eq_iff split: if_splits\<close>)
  then show "pc s' = (pc s)(p := pc s' p)" "rank (pc s' p) < rank (pc s p)" by blast+
qed

lemma exec_works:
  assumes "rw_inv w s" and "exec p s = Some s'" shows "work s' < work s"
proof -
  note m = exec_moves [OF assms]
  define c where "c = pc s' p"
  have fin: "finite {p. pc s p \<noteq> Out}" using rw_invD(8) [OF assms(1)] by (simp add: counts_ok_def)
  have p: "pc s p \<noteq> Out" using m(2) by auto
  let ?A = "{r. pc s r \<noteq> Out} - {p}"
  have A: "{r. pc s r \<noteq> Out} = insert p ?A" using p by auto
  have "work s = rank (pc s p) + (\<Sum>r\<in>?A. rank (pc s r))" unfolding work_def using p by (intro sum.remove [OF fin]) simp
  moreover have "work s' \<le> rank c + (\<Sum>r\<in>?A. rank (pc s r))"
  proof -
    have s': "pc s' r = (if r = p then c else pc s r)" for r using m(1) c_def by (metis fun_upd_apply)
    have "work s' \<le> (\<Sum>r\<in>insert p ?A. rank (pc s' r))" unfolding work_def by (rule sum_mono2) (use fin s' in auto)
    also have "\<dots> = rank c + (\<Sum>r\<in>?A. rank (pc s r))" using fin s' by (simp add: sum.insert_remove)
    finally show ?thesis .
  qed
  ultimately show ?thesis using m(2) c_def by simp
qed

lemma spin_holder_runs:
  assumes "rw_inv w s" and "\<forall>p. exec p s = None" shows "\<not> val s a"
proof
  assume "val s a"
  note i = rw_invD [OF assms(1)]
  have stuck: "spin_of (pc s r) = {} \<or> (\<exists>b q. pc s r = Qu0 b q \<and> b = Runlock)" for r
    using assms(2)[rule_format, of r] by (cases "pc s r") (auto simp: exec_def split: if_splits)
  obtain p where p: "a \<in> spin_of (pc s p)" using spins_okD(1) [OF i(4)] \<open>val s a\<close> by blast
  then obtain q where q: "pc s p = Qu0 Runlock q" using stuck [of p] by auto
  then have "val s (Use q)" using assms(2)[rule_format, of p] by (auto simp: exec_def spin_lock_def split: if_splits)
  then obtain r where "Use q \<in> spin_of (pc s r)" using spins_okD(1) [OF i(4)] by blast
  then show False using stuck [of r] by auto
qed

lemma stuck_places:
  assumes "rw_inv w s" and "\<forall>p. exec p s = None"
  shows "pc s p = Out \<or> pc s p = Reading \<or> pc s p = Writing \<or> (\<exists>a q. pc s p = Ql2 a q \<and> p \<in> set (w q))"
proof -
  note i = rw_invD [OF assms(1)]
  have e: "exec p s = None" using assms(2) by blast
  have nv: "\<not> val s a" for a by (rule spin_holder_runs [OF assms])
  have "\<not> posting (pc s) r p" for r using assms(2)[rule_format, of r] by (auto simp: posting_def exec_def)
  then have "sem s p = 0 \<Longrightarrow> \<not> handed w (pc s) p" using i(5) unfolding posts_ok_def by (metis zero_neq_one)
  then show ?thesis using e nv by (cases "pc s p") (auto simp: exec_def spin_lock_def handed_def split: if_splits)
qed

lemma nobody_stuck:
  assumes "rw_inv w s" and "\<forall>p. exec p s = None" and "\<forall>p. pc s p \<noteq> Reading \<and> pc s p \<noteq> Writing"
  shows "pc s p = Out"
proof -
  note i = rw_invD [OF assms(1)]
  have st: "pc s r = Out \<or> (\<exists>a q. pc s r = Ql2 a q \<and> r \<in> set (w q))" for r
    using stuck_places [OF assms(1,2)] assms(3) by blast
  have nk: "w K = []"
  proof (rule ccontr)
    assume "w K \<noteq> []"
    then have "q_locked (ql s K)" using i(7) unfolding k_ok_def by blast
    then have "owners owns_k K w (pc s) \<noteq> {} \<or> readers_hold (readers s) (pc s)" using i(7) unfolding k_ok_def by blast
    moreover have "r \<notin> owners owns_k K w (pc s)" for r using st [of r] by (auto simp: owners_def)
    moreover have "\<not> reads (pc s r)" "\<not> ending (pc s r)" for r using st [of r] by auto
    then have "readers s = 0" "\<not> (\<exists>r. ending (pc s r))" using i(8) by (auto simp: counts_ok_def)
    ultimately show False by (auto simp: readers_hold_def)
  qed
  have nx: "w X = []"
  proof (rule ccontr)
    assume "w X \<noteq> []"
    then have "owners owns_x X w (pc s) \<noteq> {}" using i(6) unfolding x_ok_def by blast
    then obtain r where "r \<in> owners owns_x X w (pc s)" by blast
    then have "r \<in> set (w K)" using st [of r] by (auto simp: owners_def)
    then show False using nk by simp
  qed
  have "w q = []" for q using nk nx by (cases q) simp_all
  then show ?thesis using st [of p] by auto
qed

section \<open>What the locks guarantee\<close>

text \<open>A schedule: the calls and steps of processes, in order.\<close>

fun sched :: "(lockop option \<times> nat) list \<Rightarrow> rwstate \<Rightarrow> rwstate option" where
  "sched [] s = Some s"
| "sched ((e, p) # es) s =
     (case (case e of Some a \<Rightarrow> call a p s | None \<Rightarrow> exec p s) of None \<Rightarrow> None | Some s \<Rightarrow> sched es s)"

lemma sched_reach: "reach s \<Longrightarrow> sched es s = Some s' \<Longrightarrow> reach s'"
  by (induction es s rule: sched.induct) (auto split: option.splits intro: reach.intros)

text \<open>Process 0 writes; process 1 waits to read; process 2 waits to write behind it.\<close>

definition ex_sched :: "(lockop option \<times> nat) list" where
  "ex_sched = (Some Wlock, 0) # replicate 6 (None, 0) @ (Some Rlock, 1) # replicate 2 (None, 1) @
     (Some Wlock, 2) # replicate 4 (None, 2)"

definition ex_state :: rwstate where
  "ex_state = (case sched ex_sched rw_init of Some s \<Rightarrow> s | None \<Rightarrow> rw_init)"

lemma ex_state_facts:
  "sched ex_sched rw_init \<noteq> None" "pc ex_state 0 = Writing" "pc ex_state 1 = Ql2 Rlock X" "pc ex_state 2 = Ql2 Wlock X"
  by code_simp+

lemma ex_reach: "reach ex_state"
  using sched_reach [OF reach.start] ex_state_facts(1) by (auto simp: ex_state_def split: option.splits)

lemma sched_others:
  "reach s \<Longrightarrow> sched es s = Some s' \<Longrightarrow> p \<notin> snd ` set es \<Longrightarrow> pc s' p = pc s p"
proof (induction es s rule: sched.induct)
  case (2 e r es s)
  then obtain t where t: "(case e of Some a \<Rightarrow> call a r s | None \<Rightarrow> exec r s) = Some t" "sched es t = Some s'"
    by (auto split: option.splits)
  have "pc t p = pc s p"
  proof (cases e)
    case None
    obtain w where "rw_inv w s" using reach_inv 2(2) by blast
    then show ?thesis using exec_moves(1) [of w s r t] t(1) None 2(4) by (metis fun_upd_apply image_eqI list.set_intros(1) option.simps(4) snd_conv)
  next
    case (Some a)
    then show ?thesis using t(1) 2(4) by (cases a) (auto split: if_splits)
  qed
  moreover have "reach t" using t(1) 2(2) by (cases e) (auto intro: reach.intros)
  ultimately show ?case using 2(1) [OF t(1) _ t(2)] 2(4) by simp
qed simp

lemma ex_others: "p > 2 \<Longrightarrow> pc ex_state p = Out"
  using sched_others [OF reach.start, of ex_sched ex_state p] ex_state_facts(1)
  by (auto simp: ex_state_def ex_sched_def rw_init_def split: option.splits)

text \<open>
  C12. While a process writes no other process reads or writes, and while one reads none writes: \<open>rlock\<close>,
  \<open>canrlock\<close> and \<open>wlock\<close> exclude each other as a reader-writer lock must, in every interleaving. In
  particular the result of \<open>canqlock(&l->k)\<close>, which \<open>rlock\<close> and \<open>canrlock\<close> do not look at, never is a failure
  that matters.
\<close>

theorem rw_exclusion:
  assumes "reach s" and "pc s p = Writing" and "r \<noteq> p"
  shows "pc s r \<noteq> Writing \<and> pc s r \<noteq> Reading \<and> readers s = 0"
proof -
  obtain w where w: "rw_inv w s" using reach_inv [OF assms(1)] by blast
  note i = rw_invD [OF w]
  have "p \<in> owners owns_k K w (pc s)" using assms(2) by (simp add: owners_def)
  then have n: "readers s = 0" using i(7) unfolding k_ok_def by blast
  then have "\<not> reads (pc s r)" using counts_pos [OF i(8), of r] by auto
  moreover have "\<not> owns_x (pc s r)" using owns_x_one [OF i(6), of p r] assms(2,3) by auto
  ultimately show ?thesis using n by auto
qed

theorem rw_exclusion_witness: "pc ex_state 0 = Writing \<and> pc ex_state 1 \<noteq> Writing \<and> pc ex_state 1 \<noteq> Reading \<and> readers ex_state = 0"
  using rw_exclusion [OF ex_reach ex_state_facts(2), of 1] ex_state_facts(2) by simp

text \<open>
  A spin lock is held by at most one process, \<open>_tas\<close> finds it taken exactly while one holds it, and
  \<open>nlocks\<close> of a process, which \<open>disfault\<close> relies on, counts the spin locks it holds.
\<close>

theorem spin_locks_counted:
  assumes "reach s"
  shows "(val s a \<longleftrightarrow> (\<exists>p. a \<in> spin_of (pc s p))) \<and> (a \<in> spin_of (pc s p) \<and> a \<in> spin_of (pc s r) \<longrightarrow> p = r)
    \<and> nlocks s p = card (spin_of (pc s p))"
proof -
  obtain w where w: "rw_inv w s" using reach_inv [OF assms(1)] by blast
  show ?thesis using spins_okD [OF rw_invD(4) [OF w]] rw_invD(9) [OF w] by blast
qed

theorem spin_locks_counted_witness: "nlocks ex_state 0 = 0"
  using spin_locks_counted [OF ex_reach, of L 0 0] ex_state_facts(2) by simp

text \<open>
  The contract of a queueing lock: whether it is held, and who waits for it in order of arrival. A
  release hands the lock to the first in the queue without opening it in between.
\<close>

type_synonym fifo_lock = "bool \<times> nat list"

definition fifo_acquire :: "nat \<Rightarrow> fifo_lock \<Rightarrow> fifo_lock" where
  "fifo_acquire p x = (if fst x then (True, snd x @ [p]) else (True, snd x))"

definition fifo_release :: "fifo_lock \<Rightarrow> fifo_lock" where
  "fifo_release x = (if snd x = [] then (False, []) else (True, tl (snd x)))"

lemma queued_unique: "queued q s ws \<Longrightarrow> queued q s us \<Longrightarrow> ws = us"
proof -
  have "linked n (p # ws) \<Longrightarrow> linked n (p # us) \<Longrightarrow> ws = us" for n p and ws us :: "nat list"
  proof (induction ws arbitrary: p us)
    case Nil
    then show ?case by (cases us) auto
  next
    case (Cons v ws)
    then show ?case by (cases us) auto
  qed
  then show "queued q s ws \<Longrightarrow> queued q s us \<Longrightarrow> ws = us"
    by (cases ws; cases us) (auto simp: queued_def)
qed

text \<open>
  C17. The linked list of processes through \<open>head\<close>, \<open>tail\<close> and \<open>qnext\<close> refines the first-in first-out
  contract: \<open>qlock\<close> takes a free lock or queues the caller last, \<open>qunlock\<close> hands the lock to the process
  that has waited longest, which is blocked in \<open>osblock\<close>, or opens the lock when nobody waits.
\<close>

theorem qlock_refines_fifo:
  assumes "reach s" and "queued q s ws"
  shows "(pc s p = Ql1 a q \<longrightarrow>
        (\<exists>ws'. queued q (qlock_body p a q s) ws' \<and>
           (q_locked (ql (qlock_body p a q s) q), ws') = fifo_acquire p (q_locked (ql s q), ws)))
    \<and> (pc s p = Qu1 a q \<longrightarrow>
        (\<exists>ws'. queued q (qunlock_body p a q s) ws' \<and>
           (q_locked (ql (qunlock_body p a q s) q), ws') = fifo_release (q_locked (ql s q), ws) \<and>
           (ws \<noteq> [] \<longrightarrow> pc (qunlock_body p a q s) p = Qu2 a q (hd ws) \<and> (\<exists>b. pc s (hd ws) = Ql2 b q))))"
proof (intro conjI impI)
  obtain w where w: "rw_inv w s" using reach_inv [OF assms(1)] by blast
  note i = rw_invD [OF w]
  have ws: "w q = ws" using queued_unique [OF i(2) assms(2)] .
  show "\<exists>ws'. queued q (qlock_body p a q s) ws' \<and>
      (q_locked (ql (qlock_body p a q s) q), ws') = fifo_acquire p (q_locked (ql s q), ws)" if p: "pc s p = Ql1 a q"
  proof (cases "q_locked (ql s q)")
    case True
    have "queued q (qlock_body p a q s) (ws @ [p])" using rw_invD(2) [OF Ql1_wait_inv [OF w p True], of q] ws by simp
    then show ?thesis using True by (intro exI [of _ "ws @ [p]"]) (simp add: fifo_acquire_def qlock_body_def)
  next
    case False
    have "queued q (qlock_body p a q s) ws" using rw_invD(2) [OF Ql1_free_inv [OF w p False], of q] ws by simp
    then show ?thesis using False by (intro exI [of _ ws]) (simp add: fifo_acquire_def qlock_body_def)
  qed
  show "\<exists>ws'. queued q (qunlock_body p a q s) ws' \<and>
      (q_locked (ql (qunlock_body p a q s) q), ws') = fifo_release (q_locked (ql s q), ws) \<and>
      (ws \<noteq> [] \<longrightarrow> pc (qunlock_body p a q s) p = Qu2 a q (hd ws) \<and> (\<exists>b. pc s (hd ws) = Ql2 b q))" if p: "pc s p = Qu1 a q"
  proof (cases ws)
    case Nil
    have "queued q (qunlock_body p a q s) []" using rw_invD(2) [OF Qu1_free_inv [OF w p], of q] ws Nil by simp
    moreover have "\<not> q_locked (ql (qunlock_body p a q s) q)" using dequeue_empty assms(2) Nil by (simp add: qunlock_body_def)
    ultimately show ?thesis using Nil by (intro exI [of _ "[]"]) (simp add: fifo_release_def)
  next
    case (Cons r rs)
    have lk: "q_locked (ql s q)"
    proof (cases q)
      case X
      then have "w X \<noteq> []" using ws Cons by simp
      then show ?thesis using i(6) X unfolding x_ok_def by blast
    next
      case K
      then have "w K \<noteq> []" using ws Cons by simp
      then show ?thesis using i(7) K unfolding k_ok_def by blast
    qed
    have wq: "w q = r # rs" using ws Cons by simp
    obtain t where d: "dequeue q s = (Some r, t)" using dequeue_queued [OF assms(2)] Cons by auto
    have "queued q (qunlock_body p a q s) rs" using rw_invD(2) [OF Qu1_hand_inv [OF w p wq], of q] by simp
    moreover have "q_locked (ql (qunlock_body p a q s) q)" "pc (qunlock_body p a q s) p = Qu2 a q r"
      using d dequeue_fields(7) [OF d, of q] lk by (simp_all add: qunlock_body_def)
    moreover have "\<exists>b. pc s r = Ql2 b q" using i(3) wq unfolding waits_ok_def by (metis list.set_intros(1))
    ultimately show ?thesis using Cons by (intro exI [of _ rs]) (simp add: fifo_release_def)
  qed
qed

definition ex_release :: rwstate where
  "ex_release = (case sched (ex_sched @ (Some Wunlock, 0) # replicate 3 (None, 0)) rw_init of Some s \<Rightarrow> s | None \<Rightarrow> rw_init)"

lemma ex_release_facts:
  "sched (ex_sched @ (Some Wunlock, 0) # replicate 3 (None, 0)) rw_init \<noteq> None" "pc ex_release 0 = Qu1 Wunlock X"
  "queued X ex_release [1, 2]"
  by code_simp+

theorem qlock_refines_fifo_witness: "pc (qunlock_body 0 Wunlock X ex_release) 0 = Qu2 Wunlock X 1"
proof -
  have "reach ex_release"
    using sched_reach [OF reach.start] ex_release_facts(1) by (auto simp: ex_release_def split: option.splits)
  from qlock_refines_fifo [OF this ex_release_facts(3), of 0 Wunlock] show ?thesis using ex_release_facts(2) by auto
qed

text \<open>
  C13. No wake-up is lost: when no process can take another step on its own and none is reading or
  writing, every process is out of the lock's code. Whoever still waits then, waits for a reader or a
  writer that has not called \<open>runlock\<close> or \<open>wunlock\<close> yet.
\<close>

theorem rw_progress:
  assumes "reach s" and "\<forall>p. exec p s = None" and "\<exists>p. pc s p \<noteq> Out"
  shows "\<exists>p. pc s p = Reading \<or> pc s p = Writing"
proof -
  obtain w where w: "rw_inv w s" using reach_inv [OF assms(1)] by blast
  show ?thesis using nobody_stuck [OF w assms(2)] assms(3) by blast
qed

theorem rw_progress_witness: "\<exists>p. pc ex_state p = Reading \<or> pc ex_state p = Writing"
proof (rule rw_progress [OF ex_reach])
  have e: "exec 0 ex_state = None" "exec 1 ex_state = None" "exec 2 ex_state = None" by code_simp+
  show "\<forall>p. exec p ex_state = None"
  proof
    fix p :: nat
    have "p = 0 \<or> p = 1 \<or> p = 2 \<or> p > 2" by arith
    then show "exec p ex_state = None" using e ex_others [of p] by (auto simp: exec_def)
  qed
  show "\<exists>p. pc ex_state p \<noteq> Out" using ex_state_facts(2) by (intro exI [of _ 0]) simp
qed


text \<open>
  \<open>canrlock\<close> gives up if and only if a writer holds the lock, waits for it, or has not finished
  releasing it; another reader never makes it fail.
\<close>

theorem canrlock_refuses_writers_only:
  assumes "reach s" and "pc s p = L1 Canrlock" and "exec p s = Some s'"
  shows "pc s' p = (if \<exists>r. writes (pc s r) then Out else Cq0 Canrlock)"
proof -
  obtain w where w: "rw_inv w s" using reach_inv [OF assms(1)] by blast
  have c: "counts_ok (readers s) (writers s) (pc s)" by (rule rw_invD(8) [OF w])
  have fin: "finite {r. writes (pc s r)}" using c by (auto simp: counts_ok_def elim!: rev_finite_subset)
  have "writers s = 0 \<longleftrightarrow> \<not> (\<exists>r. writes (pc s r))" using c fin by (auto simp: counts_ok_def)
  then show ?thesis using assms(2,3) by (auto simp: exec_def)
qed


definition ex_try :: rwstate where
  "ex_try = (case sched (ex_sched @ [(Some Canrlock, 3), (None, 3)]) rw_init of Some s \<Rightarrow> s | None \<Rightarrow> rw_init)"

lemma ex_try_facts:
  "sched (ex_sched @ [(Some Canrlock, 3), (None, 3)]) rw_init \<noteq> None" "pc ex_try 3 = L1 Canrlock" "pc ex_try 0 = Writing"
  by code_simp+

theorem canrlock_refuses_writers_only_witness: "\<exists>s'. exec 3 ex_try = Some s' \<and> pc s' 3 = Out"
proof -
  have r: "reach ex_try"
    using sched_reach [OF reach.start] ex_try_facts(1) by (auto simp: ex_try_def split: option.splits)
  obtain s' where s': "exec 3 ex_try = Some s'" using ex_try_facts(2) by (simp add: exec_def)
  have "\<exists>r. writes (pc ex_try r)" using ex_try_facts(3) by (intro exI [of _ 0]) simp
  then show ?thesis using canrlock_refuses_writers_only [OF r ex_try_facts(2) s'] s' by simp
qed

end
