(* ===== verification/Mounts.thy ===== *)
theory Mounts
  imports Namespace
begin

text \<open>
  The mount table of a process group as a map from places to unions, and what \<open>cmount\<close> and \<open>cunmount\<close>
  of emu/port/chan.c do to it: \<open>cmount_ok\<close> and \<open>cunmount_ok\<close>. Both keep the count of references, the
  uniqueness of heads (\<open>heads_ok\<close>) and what is mounted elsewhere.
\<close>

section \<open>Changing a mount list and a chain\<close>

text \<open>\<open>D\<close> are the references put into the head, \<open>E\<close> those it gives up.\<close>

lemma set_mounts_diff:
  assumes "counted s (addC D H)" and "m < length (mheads s)"
    and "headC (mheads s ! m) + D = mountsC (mh_from (mheads s ! m)) l + E" and "l \<noteq> [] \<Longrightarrow> m \<in># links s + hL H"
    and "\<And>c. c \<in># mountsC (mh_from (mheads s ! m)) l \<Longrightarrow> \<not> is_open (chans s ! c)"
  shows "counted (upd_mhead m (\<lambda>x. x\<lparr>mh_mount := l\<rparr>) s) (addC E H)"
proof -
  let ?f = "\<lambda>x. x\<lparr>mh_mount := l\<rparr>" and ?x = "mheads s ! m"
  note d = countedD [OF assms(1)]
  note u = own_upd_mhead [OF assms(2), of ?f]
  have "ownC (upd_mhead m ?f s) + headC ?x = ownC s + mountsC (mh_from ?x) l" using u(1) by (simp add: headC_def)
  then have "ownC (upd_mhead m ?f s) + headC ?x + (hC H + E) = ownC s + mountsC (mh_from ?x) l + (hC H + E)" by simp
  also have "\<dots> = ownC s + hC H + (headC ?x + D)" using assms(3) by (simp add: ac_simps)
  finally have e: "ownC (upd_mhead m ?f s) + (hC H + E) = ownC s + (hC H + D)" by (simp add: ac_simps)
  have "headrc.ok (upd_mhead m ?f s) (ownM s + hM H + hL H)"
    using d(4) by (auto simp: headrc.ok_def refs_ok_def upd_nth)
  moreover have "\<not> is_open (chans s ! c)" if "c \<in># nsC (upd_mhead m ?f s)" for c
    using replaced [OF nsC_upd_mhead [OF assms(2)] that] d(9) assms(5) by (auto simp: headC_def)
  ultimately show ?thesis using d(1-8) assms(4)
    by (intro countedI; simp only: add_sel e) (auto simp: u upd_nth split: if_splits)
qed

lemma trade: "A + x = B + y \<Longrightarrow> x + D = y + E \<Longrightarrow> A + E = B + (D :: nat multiset)"
proof -
  assume a: "A + x = B + y" "x + D = y + E"
  have "(A + E) + x = (A + x) + E" by (simp add: ac_simps)
  also have "\<dots> = B + (x + D)" unfolding a by (simp add: ac_simps)
  finally have "(A + E) + x = (B + D) + x" by (simp add: ac_simps)
  then show "A + E = B + D" by simp
qed

lemma set_chain_diff:
  assumes "counted s (addL D H)" and "p < length (pgrps s)" and "pgrpC (f (pgrps s ! p)) = pgrpC (pgrps s ! p)"
    and "pgrpM (pgrps s ! p) + D = pgrpM (f (pgrps s ! p)) + E"
  shows "counted (upd_pgrp p f s) (addL E H)"
proof -
  note d = countedD [OF assms(1)]
  note u = own_upd_pgrp [OF assms(2), of f]
  have c: "ownC (upd_pgrp p f s) = ownC s" using u(1) assms(3) by simp
  have l: "links (upd_pgrp p f s) + E = links s + D" "ownM (upd_pgrp p f s) + E = ownM s + D"
    by (rule trade [OF u(2) assms(4)], rule trade [OF u(3) assms(4)])
  then have l': "links (upd_pgrp p f s) + (hL H + E) = links s + (hL H + D)"
    "ownM (upd_pgrp p f s) + hM H + (hL H + E) = ownM s + hM H + (hL H + D)" by (simp_all add: ac_simps)
  have "\<not> is_open (chans s ! x)" if "x \<in># nsC (upd_pgrp p f s)" for x
    using replaced [OF nsC_upd_pgrp [OF assms(2)] that] d(9) assms(3) nsC_upd_pgrp [OF assms(2), of f]
      tot_in [OF assms(2), of pgrpC] by (auto simp: nsC_def dest: mset_subset_eqD)
  then show ?thesis using d(1-8)
    by (intro countedI; simp only: add_sel c l') (auto simp: u(4))
qed

section \<open>New entries\<close>

text \<open>What the operations do to the rest of the world before they let channels go.\<close>

definition grows :: "'d kst \<Rightarrow> 'd kst \<Rightarrow> bool" where
  "grows s s' \<longleftrightarrow>
     pgrps s' = pgrps s \<and> fgrps s' = fgrps s \<and> mheads s' = mheads s \<and> cnames s' = cnames s \<and> dst s' = dst s \<and>
     (\<forall>x. \<exists>i. chans s' ! x = (chans s ! x)\<lparr>c_ref := i\<rparr>) \<and> length (chans s') = length (chans s)"

lemma grows_refl: "grows s s"
proof -
  have "chans s ! x = (chans s ! x)\<lparr>c_ref := c_ref (chans s ! x)\<rparr>" for x by simp
  then show ?thesis unfolding grows_def by blast
qed

lemma grows_trans: "grows s t \<Longrightarrow> grows t u \<Longrightarrow> grows s u"
  unfolding grows_def by (metis chan.update_convs(1) chan.surjective)

lemma growsD:
  assumes "grows s s'"
  shows "pgrps s' = pgrps s" "mheads s' = mheads s" "cnames s' = cnames s" "fgrps s' = fgrps s"
    "ident (chans s' ! x) = ident (chans s ! x)" "is_open (chans s' ! x) = is_open (chans s ! x)"
    "c_umh (chans s' ! x) = c_umh (chans s ! x)" "links s' = links s" "headsC s' = headsC s" "ownC s' = ownC s"
    "c_name (chans s' ! x) = c_name (chans s ! x)"
proof -
  obtain i where i: "chans s' ! x = (chans s ! x)\<lparr>c_ref := i\<rparr>" using assms by (auto simp: grows_def)
  then show "ident (chans s' ! x) = ident (chans s ! x)" "is_open (chans s' ! x) = is_open (chans s ! x)"
    "c_umh (chans s' ! x) = c_umh (chans s ! x)" "c_name (chans s' ! x) = c_name (chans s ! x)"
    by (simp_all add: ident_def is_open_def)
  show "pgrps s' = pgrps s" "mheads s' = mheads s" "cnames s' = cnames s" "fgrps s' = fgrps s" using assms by (simp_all add: grows_def)
  then show "links s' = links s" "headsC s' = headsC s" by (simp_all add: links_def headsC_def)
  have "tot chanC (chans s') = tot chanC (chans s)"
  proof -
    have "map chanC (chans s') = map chanC (chans s)"
    proof (rule nth_equalityI)
      show "length (map chanC (chans s')) = length (map chanC (chans s))" using assms by (simp add: grows_def)
      fix j assume "j < length (map chanC (chans s'))"
      moreover obtain k where "chans s' ! j = (chans s ! j)\<lparr>c_ref := k\<rparr>" using assms by (auto simp: grows_def)
      ultimately show "map chanC (chans s') ! j = map chanC (chans s) ! j" using assms by (simp add: grows_def chanC_def)
    qed
    then show ?thesis by (simp add: tot_def)
  qed
  then show "ownC s' = ownC s" using assms by (simp add: ownC_def nsC_def grows_def)
qed

lemma newmount_ok:
  assumes "counted s H" and "to \<in># ownC s + hC H" and "newmount to flag spec s = (n, s')"
  shows "counted s' (addC {#to#} H)" and "grows s s'"
    and "n = \<lparr>mt_id = mountid s + 1, mt_to = to, mt_flag = flag, mt_spec = spec\<rparr>"
proof -
  have s': "s' = (incref_chan to s)\<lparr>mountid := mountid s + 1\<rparr>" and n: "n = \<lparr>mt_id = mountid s + 1, mt_to = to, mt_flag = flag, mt_spec = spec\<rparr>"
    using assms(3) by (auto simp: newmount_def Let_def incref_is_bump bump_chan_def)
  have c: "counted (incref_chan to s) (addC {#to#} H)" by (rule incref_chan_counted [OF assms(1,2)])
  have o: "ownC s' = ownC (incref_chan to s)" "ownN s' = ownN (incref_chan to s)" "ownM s' = ownM (incref_chan to s)"
    "links s' = links (incref_chan to s)" "frees s' = frees (incref_chan to s)" "nsC s' = nsC (incref_chan to s)"
    by (simp_all add: s' ownC_def nsC_def ownN_def ownM_def links_def frees_def)
  have "chanrc.ok s' = chanrc.ok (incref_chan to s)" "namerc.ok s' = namerc.ok (incref_chan to s)" "headrc.ok s' = headrc.ok (incref_chan to s)"
    by (simp_all add: s' chanrc.ok_def namerc.ok_def headrc.ok_def fun_eq_iff)
  then show "counted s' (addC {#to#} H)" using c unfolding counted_def o by (simp add: s')
  have "\<exists>i. chans s' ! x = (chans s ! x)\<lparr>c_ref := i\<rparr>" for x
    by (auto simp: s' incref_is_bump bump_chan_def upd_chan_def nth_upd_all intro: exI [of _ "c_ref (chans s ! x)"])
  then show "grows s s'" by (simp add: grows_def s' incref_is_bump bump_chan_def)
  show "n = \<lparr>mt_id = mountid s + 1, mt_to = to, mt_flag = flag, mt_spec = spec\<rparr>" by (rule n)
qed

type_synonym entry = "nat \<times> u32 \<times> bytes option"

definition entry :: "mount \<Rightarrow> entry" where
  "entry f = (mt_to f, mt_flag f, mt_spec f)"

text \<open>The entry for one more mount of a union, as \<open>cmount\<close> copies it.\<close>

definition copied :: "u32 \<Rightarrow> entry \<Rightarrow> entry" where
  "copied flg e = (case e of (to, fl, sp) \<Rightarrow> (to, flg OR (fl AND MREADONLY), sp))"

lemma copyunion_ok:
  assumes "counted s H" and "\<forall>f\<in>set ums. mt_to f \<in># ownC s + hC H" and "copyunion flg ums s = (fs, s')"
  shows "counted s' (addC (mset (map mt_to fs)) H)" and "grows s s'" and "map entry fs = map (copied flg \<circ> entry) ums"
proof -
  have "counted s' (addC (mset (map mt_to fs)) H) \<and> grows s s' \<and> map entry fs = map (copied flg \<circ> entry) ums"
    using assms
  proof (induction ums arbitrary: s H fs s')
    case Nil
    then show ?case by (simp add: grows_refl)
  next
    case (Cons um ums)
    obtain f s1 where n: "newmount (mt_to um) (flg OR (mt_flag um AND MREADONLY)) (mt_spec um) s = (f, s1)" by fastforce
    obtain gs s2 where c: "copyunion flg ums s1 = (gs, s2)" by fastforce
    have r: "fs = f # gs" "s' = s2" using Cons.prems(3) n c by simp_all
    have to: "mt_to um \<in># ownC s + hC H" using Cons.prems(2) by simp
    note m = newmount_ok [OF Cons.prems(1) to n]
    have ow: "\<forall>f\<in>set ums. mt_to f \<in># ownC s1 + hC (addC {#mt_to um#} H)"
      using Cons.prems(2) growsD(10) [OF m(2)] by auto
    note i = Cons.IH [OF m(1) ow c]
    have a: "addC (mset (map mt_to gs)) (addC {#mt_to um#} H) = addC (mset (map mt_to fs)) H"
      using m(3) by (simp add: r add_comm ac_simps)
    have "counted s2 (addC (mset (map mt_to fs)) H)" using conjunct1 [OF i] unfolding a .
    moreover have "grows s s2" using i grows_trans [OF m(2)] by blast
    moreover have "map entry fs = map (copied flg \<circ> entry) (um # ums)"
    proof -
      have "map entry gs = map (copied flg \<circ> entry) ums" using i by blast
      moreover have "entry f = copied flg (entry um)" by (simp add: m(3) entry_def copied_def)
      ultimately show ?thesis by (simp add: r)
    qed
    ultimately show ?case using r(2) by blast
  qed
  then show "counted s' (addC (mset (map mt_to fs)) H)" "grows s s'" "map entry fs = map (copied flg \<circ> entry) ums" by blast+
qed

section \<open>The mount table as a map\<close>

text \<open>What is mounted at the place of channel \<open>c\<close>: the entries in the order they are searched.\<close>

definition mounted :: "nat \<Rightarrow> nat \<Rightarrow> 'd kst \<Rightarrow> mount list" where
  "mounted pg c s = (case mhead_of pg c s of None \<Rightarrow> [] | Some m \<Rightarrow> mh_mount (mheads s ! m))"

lemma eqchan_ident: "ident a = ident a' \<Longrightarrow> ident b = ident b' \<Longrightarrow> eqchan a b True = eqchan a' b' True"
  by (auto simp: eqchan_def ident_def)

lemma eqchan_sym: "eqchan a b True \<Longrightarrow> eqchan b a True"
  by (auto simp: eqchan_def split: if_splits)

lemma eqchan_trans: "eqchan a b True \<Longrightarrow> eqchan b c True \<Longrightarrow> eqchan a c True"
  by (auto simp: eqchan_def split: if_splits)

lemma eqchan_refl [simp]: "eqchan a a True"
  by (simp add: eqchan_def)

lemma eqchan_hash: "eqchan a b True \<Longrightarrow> MOUNTH (c_qid a) = MOUNTH (c_qid b)"
  by (auto simp: eqchan_def MOUNTH_def split: if_splits)

lemma find_cong: "(\<And>x. x \<in> set xs \<Longrightarrow> P x = Q x) \<Longrightarrow> List.find P xs = List.find Q xs"
  by (induction xs) auto

lemma mhead_of_cong:
  assumes "pgrps s' = pgrps s" and "\<And>x. ident (chans s' ! x) = ident (chans s ! x)"
    and "\<And>m. m \<in> set (chain pg (c_qid (chans s ! c)) s) \<Longrightarrow> mh_from (mheads s' ! m) = mh_from (mheads s ! m)"
  shows "mhead_of pg c s' = mhead_of pg c s"
proof -
  have q: "c_qid (chans s' ! c) = c_qid (chans s ! c)" using assms(2) [of c] by (simp add: ident_def)
  have ch: "chain pg (c_qid (chans s' ! c)) s' = chain pg (c_qid (chans s ! c)) s" by (simp add: chain_def assms(1) q)
  show ?thesis unfolding mhead_of_def ch
    by (rule find_cong) (use assms(3) eqchan_ident [OF assms(2) assms(2)] in simp)
qed

lemma mhead_ofD:
  assumes "mhead_of pg c s = Some m"
  shows "m \<in> set (chain pg (c_qid (chans s ! c)) s)" and "eqchan (chans s ! mh_from (mheads s ! m)) (chans s ! c) True"
  using assms by (auto simp: mhead_of_def find_Some_iff set_conv_nth)

lemma mhead_of_eqchan:
  assumes "eqchan (chans s ! c) (chans s ! d) True" shows "mhead_of pg c s = mhead_of pg d s"
proof -
  have "chain pg (c_qid (chans s ! c)) s = chain pg (c_qid (chans s ! d)) s" using eqchan_hash [OF assms] by (simp add: chain_def)
  moreover have "eqchan x (chans s ! c) True = eqchan x (chans s ! d) True" for x
    using assms eqchan_sym eqchan_trans by blast
  ultimately show ?thesis by (simp add: mhead_of_def)
qed

text \<open>
  No head is in two chains or twice in one, and a place has one head at most.
\<close>

definition heads_ok :: "nat \<Rightarrow> 'd kst \<Rightarrow> bool" where
  "heads_ok pg s \<longleftrightarrow>
     (\<forall>m. count (links s) m \<le> 1) \<and>
     (\<forall>q. \<forall>m\<in>set (chain pg q s). \<forall>k\<in>set (chain pg q s).
        eqchan (chans s ! mh_from (mheads s ! m)) (chans s ! mh_from (mheads s ! k)) True \<longrightarrow> m = k)"

lemma incref_chan_ref: "\<exists>i. chans (incref_chan c s) ! x = (chans s ! x)\<lparr>c_ref := i\<rparr>"
proof -
  have "chans s ! x = (chans s ! x)\<lparr>c_ref := c_ref (chans s ! x)\<rparr>" by simp
  then have "\<exists>i. chans s ! x = (chans s ! x)\<lparr>c_ref := i\<rparr>" by blast
  then show ?thesis by (simp add: incref_is_bump bump_chan_def upd_chan_def nth_upd_all) blast
qed

lemma concat_add: "i < length xs \<Longrightarrow> mset (concat (xs[i := xs ! i @ [y]])) = add_mset y (mset (concat xs))"
proof (induction xs arbitrary: i)
  case (Cons x xs)
  then show ?case by (cases i) auto
qed simp

lemma links_add:
  assumes "live_pgrp s pg" and "counted s (addL {#h#} H)"
  shows "counted (set_chain pg q (chain pg q s @ [h]) s) H" and "links (set_chain pg q (chain pg q s @ [h]) s) = add_mset h (links s)"
proof -
  let ?f = "\<lambda>x. x\<lparr>pg_hash := (pg_hash x)[MOUNTH q := chain pg q s @ [h]]\<rparr>" and ?x = "pgrps s ! pg"
  have l: "pg < length (pgrps s)" "0 < pg_ref ?x" "MOUNTH q < length (pg_hash ?x)"
    using assms(1) MOUNTH_less by (simp_all add: live_pgrp_def)
  have m: "pgrpM (?f ?x) = add_mset h (pgrpM ?x)" using l concat_add [OF l(3)] by (simp add: pgrpM_def chain_def)
  have e: "set_chain pg q (chain pg q s @ [h]) s = upd_pgrp pg ?f s" by (simp add: set_chain_def)
  have "counted (upd_pgrp pg ?f s) (addL {#} H)"
    by (rule set_chain_diff [OF assms(2) l(1)]) (simp_all add: m, simp add: pgrpC_def)
  then show "counted (set_chain pg q (chain pg q s @ [h]) s) H" by (simp add: e)
  show "links (set_chain pg q (chain pg q s @ [h]) s) = add_mset h (links s)"
    using own_upd_pgrp(2) [OF l(1), of ?f] by (simp add: e m)
qed

lemma chain_set:
  assumes "live_pgrp s pg"
  shows "chain pg q' (set_chain pg q l s) = (if MOUNTH q' = MOUNTH q then l else chain pg q' s)"
  using assms MOUNTH_less by (simp add: chain_def set_chain_def upd_nth live_pgrp_def nth_list_update)

lemma find_append: "List.find P (xs @ ys) = (case List.find P xs of None \<Rightarrow> List.find P ys | Some x \<Rightarrow> Some x)"
  by (induction xs) auto

text \<open>
  What \<open>cmount\<close> needs of a head \<open>m\<close> for the channel \<open>old\<close>: \<open>D\<close> is the reference to \<open>from\<close> of a head
  with nothing on it yet.
\<close>

lemma cmount_head_ok:
  assumes "counted s H" and "old \<in># hC H" and "\<not> is_open (chans s ! old)" and "live_pgrp s pg" and "linked_ok s"
    and "cmount_head pg old order s = (m, s1)"
  shows "\<exists>D. counted s1 (addC D H) \<and> D = (if mh_mount (mheads s1 ! m) = [] then {#mh_from (mheads s1 ! m)#} else {#})
      \<and> m \<in># links s1 \<and> m < length (mheads s1) \<and> \<not> is_open (chans s1 ! mh_from (mheads s1 ! m))
      \<and> mhead_of pg old s1 = Some m \<and> live_pgrp s1 pg
      \<and> map entry (mh_mount (mheads s1 ! m))
         = (if mounted pg old s = [] \<and> order \<noteq> MREPL then [(old, 0, None)] else map entry (mounted pg old s))
      \<and> (\<forall>k\<in>#links s1. k \<noteq> m \<longrightarrow> k \<in># links s \<and> mheads s1 ! k = mheads s ! k)
      \<and> (\<forall>k<length (mheads s). mheads s1 ! k = mheads s ! k)
      \<and> (\<forall>x. \<exists>i. chans s1 ! x = (chans s ! x)\<lparr>c_ref := i\<rparr>) \<and> fgrps s1 = fgrps s \<and> cnames s1 = cnames s
      \<and> (\<forall>c. \<not> eqchan (chans s ! old) (chans s ! c) True \<longrightarrow> mhead_of pg c s1 = mhead_of pg c s \<and> mhead_of pg c s \<noteq> Some m)
      \<and> (heads_ok pg s \<longrightarrow> heads_ok pg s1)"
proof (cases "mhead_of pg old s")
  case (Some h)
  then have e: "m = h" "s1 = s" using assms(6) by (simp_all add: cmount_head_def)
  note md = mhead_ofD [OF Some]
  have ml: "m \<in># links s" using chain_links [OF assms(4) md(1)] e by simp
  then have ne: "mh_mount (mheads s ! m) \<noteq> []" using assms(5) by (auto simp: linked_ok_def)
  have l: "m < length (mheads s)" using linked_live [OF assms(1) ml] by blast
  have op: "\<not> is_open (chans s ! mh_from (mheads s ! m))"
    using head_owns(1) [OF l ne] headsC_own countedD(9) [OF assms(1)] by blast
  have di: "mhead_of pg c s \<noteq> Some m" if "\<not> eqchan (chans s ! old) (chans s ! c) True" for c
    using mhead_ofD(2) [of pg c s m] md(2) that e(1) eqchan_sym eqchan_trans by blast
  have "chans s ! x = (chans s ! x)\<lparr>c_ref := c_ref (chans s ! x)\<rparr>" for x by simp
  then have ch: "\<exists>i. chans s ! x = (chans s ! x)\<lparr>c_ref := i\<rparr>" for x by blast
  show ?thesis
    by (rule exI [of _ "{#}"]) (use e ml ne l op di assms(1,4) Some ch in \<open>simp add: mounted_def\<close>)
next
  case None
  let ?q = "c_qid (chans s ! old)"
  obtain h s2 where nh: "newmhead old s = (h, s2)" by fastforce
  have "old \<in># ownC s + hC H" using assms(2) by simp
  note n = newmhead_counted [OF assms(1) nh this]
  have s2: "mheads s2 = mheads s @ [\<lparr>mh_ref = 1, mh_from = old, mh_mount = [], mh_free = False\<rparr>]" "pgrps s2 = pgrps s"
    "cnames s2 = cnames s" "fgrps s2 = fgrps s" "links s2 = links s"
    using nh by (auto simp: newmhead_def incref_is_bump bump_chan_def links_def)
  have "chans s2 = chans (incref_chan old s)" using nh by (auto simp: newmhead_def incref_is_bump bump_chan_def upd_chan_def)
  then have c2: "\<exists>i. chans s2 ! x = (chans s ! x)\<lparr>c_ref := i\<rparr>" for x using incref_chan_ref [of old s x] by simp
  have lv2: "live_pgrp s2 pg" using assms(4) s2(2) by (simp add: live_pgrp_def)
  define s3 where "s3 = set_chain pg ?q (chain pg ?q s2 @ [h]) s2"
  have "counted s2 (addL {#h#} (addC {#old#} H))" using ref_to_link [of s2 h "addC {#old#} H"] n(1) by (simp add: add_comm)
  note la = links_add [OF lv2 this, of ?q, folded s3_def]
  have s3: "mheads s3 = mheads s2" "chans s3 = chans s2" "cnames s3 = cnames s2" "fgrps s3 = fgrps s2"
    by (simp_all add: s3_def set_chain_def)
  have lv3: "live_pgrp s3 pg" using lv2 by (simp add: live_pgrp_def s3_def set_chain_def upd_nth)
  have id3: "ident (chans s3 ! x) = ident (chans s ! x)" "is_open (chans s3 ! x) = is_open (chans s ! x)" for x
    using c2 [of x] s3(2) by (auto simp: ident_def is_open_def)
  have hnew: "h = length (mheads s)" by (rule n(2))
  have lnk: "k < length (mheads s)" if "k \<in># links s" for k using linked_live [OF assms(1) that] by blast
  have notin: "h \<notin># links s" using lnk hnew by auto
  have ch: "chain pg (c_qid (chans s3 ! c)) s3 = (if MOUNTH (c_qid (chans s ! c)) = MOUNTH ?q then chain pg (c_qid (chans s ! c)) s @ [h]
      else chain pg (c_qid (chans s ! c)) s)" for c
    using chain_set [OF lv2] id3(1) [of c] by (simp add: s3_def ident_def) (simp add: chain_def s2(2))
  have inch: "x \<in> set (chain pg q s) \<Longrightarrow> mheads s3 ! x = mheads s ! x \<and> x \<noteq> h" for x q
    using chain_links [OF assms(4)] linked_live [OF assms(1), of x] hnew by (simp add: s3(1) s2(1) nth_append)
  have fnd: "List.find (\<lambda>m. eqchan (chans s3 ! mh_from (mheads s3 ! m)) (chans s3 ! c) True) (chain pg q s)
      = List.find (\<lambda>m. eqchan (chans s ! mh_from (mheads s ! m)) (chans s ! c) True) (chain pg q s)" for c q
    by (rule find_cong) (use inch eqchan_ident [OF id3(1) id3(1)] in simp)
  have frm: "mh_from (mheads s3 ! h) = old" "mh_mount (mheads s3 ! h) = []" "h < length (mheads s3)"
    using hnew by (simp_all add: s3(1) s2(1) nth_append)
  have eqh: "eqchan (chans s3 ! mh_from (mheads s3 ! h)) (chans s3 ! c) True = eqchan (chans s ! old) (chans s ! c) True" for c
    using eqchan_ident [OF id3(1) id3(1), of old c] frm(1) by simp
  have mo: "mhead_of pg old s3 = Some h"
    using None by (simp add: mhead_of_def ch find_append fnd eqh)
  have oth: "mhead_of pg c s3 = mhead_of pg c s" if "\<not> eqchan (chans s ! old) (chans s ! c) True" for c
    using that by (simp add: mhead_of_def ch find_append fnd eqh split: option.splits)
  have oth2: "mhead_of pg c s \<noteq> Some h" for c using mhead_ofD(1) [of pg c s h] inch [of h] by blast
  have hk3: "heads_ok pg s3" if hk: "heads_ok pg s"
    unfolding heads_ok_def
  proof (intro conjI allI ballI impI)
    show "count (links s3) m \<le> 1" for m using hk notin la(2) s2(5) unfolding heads_ok_def by (auto simp: not_in_iff)
    fix q m k assume mk: "m \<in> set (chain pg q s3)" "k \<in> set (chain pg q s3)"
      and eq: "eqchan (chans s3 ! mh_from (mheads s3 ! m)) (chans s3 ! mh_from (mheads s3 ! k)) True"
    have cq: "chain pg q s3 = (if MOUNTH q = MOUNTH ?q then chain pg q s @ [h] else chain pg q s)"
      using chain_set [OF lv2, of q ?q "chain pg ?q s2 @ [h]"] by (simp add: s3_def) (simp add: chain_def s2(2))
    have nofind: "\<not> eqchan (chans s ! mh_from (mheads s ! m)) (chans s ! old) True" if "m \<in> set (chain pg ?q s)" for m
      using None that by (simp add: mhead_of_def find_None_iff)
    have e3: "eqchan (chans s3 ! x) (chans s3 ! y) True = eqchan (chans s ! x) (chans s ! y) True" for x y
      by (rule eqchan_ident [OF id3(1) id3(1)])
    show "m = k"
    proof (cases "m = h \<or> k = h")
      case False
      then have "m \<in> set (chain pg q s)" "k \<in> set (chain pg q s)" using mk by (auto simp: cq split: if_splits)
      then show ?thesis using hk eq inch e3 unfolding heads_ok_def by metis
    next
      case True
      show ?thesis
      proof (rule ccontr)
        assume ne: "m \<noteq> k"
        then obtain j where j: "j \<in> set (chain pg q s)" "MOUNTH q = MOUNTH ?q" "{m, k} = {h, j}"
          using True mk inch by (auto simp: cq split: if_splits)
        then have "eqchan (chans s ! mh_from (mheads s ! j)) (chans s ! old) True"
          using eq e3 frm(1) inch [OF j(1)] eqchan_sym by (auto simp: doubleton_eq_iff)
        then show False using nofind [of j] j by (simp add: chain_def)
      qed
    qed
  qed
  show ?thesis
  proof (cases "order = MREPL")
    case True
    then have e: "m = h" "s1 = s3" using assms(6) None nh by (auto simp: cmount_head_def s3_def Let_def)
    show ?thesis
      by (rule exI [of _ "{#old#}"])
        (use hk3 lnk la frm lv3 mo oth oth2 assms(3) id3 True None s2 s3 c2 hnew notin in \<open>auto simp: e mounted_def nth_append\<close>)
  next
    case False
    obtain k s4 where nm: "newmount old 0 None s3 = (k, s4)" by fastforce
    have e: "m = h" "s1 = upd_mhead h (\<lambda>x. x\<lparr>mh_mount := [k]\<rparr>) s4" using assms(6) None nh nm False by (auto simp: cmount_head_def s3_def Let_def)
    have "old \<in># ownC s3 + hC (addC {#old#} H)" by simp
    note w = newmount_ok [OF la(1) this nm] and g = growsD [OF newmount_ok(2) [OF la(1) this nm]]
    have hd4: "mheads s4 ! h = mheads s3 ! h" by (simp add: g)
    have c4: "counted s4 (addC {#old, old#} H)" using w(1) by (simp add: add_comm)
    have "counted s1 (addC {#} H)" unfolding e(2)
      by (rule set_mounts_diff [OF c4]) (use frm hd4 la(2) g assms(3) id3 w(3) in \<open>auto simp: headC_def mountsC_def\<close>)
    then have c1: "counted s1 H" by simp
    have h1: "mheads s1 ! h = (mheads s3 ! h)\<lparr>mh_mount := [k]\<rparr>" "\<And>i. i \<noteq> h \<Longrightarrow> mheads s1 ! i = mheads s3 ! i"
      "length (mheads s1) = length (mheads s3)" "chans s1 = chans s4" "pgrps s1 = pgrps s3" "links s1 = links s3" "cnames s1 = cnames s3" "fgrps s1 = fgrps s3"
      using frm(3) g by (simp_all add: e upd_mhead_def nth_upd_all links_def)
    have id1: "ident (chans s1 ! x) = ident (chans s3 ! x)" "is_open (chans s1 ! x) = is_open (chans s3 ! x)" for x using g h1(4) by simp_all
    have fr1: "mh_from (mheads s1 ! x) = mh_from (mheads s3 ! x)" for x using h1(1,2) by (cases "x = h") simp_all
    have mo1: "mhead_of pg c s1 = mhead_of pg c s3" for c by (rule mhead_of_cong [OF h1(5) id1(1) fr1])
    have lv1: "live_pgrp s1 pg" using lv3 h1(5) by (simp add: live_pgrp_def)
    have hk1: "heads_ok pg s1" if "heads_ok pg s"
      using hk3 [OF that] unfolding heads_ok_def chain_def h1(5,6) fr1 eqchan_ident [OF id1(1) id1(1)] .
    have c1': "\<exists>i. chans s1 ! x = (chans s ! x)\<lparr>c_ref := i\<rparr>" for x
    proof -
      obtain i where "chans s4 ! x = (chans s3 ! x)\<lparr>c_ref := i\<rparr>" using w(2) by (auto simp: grows_def)
      moreover obtain j where "chans s3 ! x = (chans s ! x)\<lparr>c_ref := j\<rparr>" using c2 [of x] s3(2) by auto
      ultimately show ?thesis using h1(4) by auto
    qed
    show ?thesis
      by (rule exI [of _ "{#}"])
        (use hk1 lnk c1 h1 la(2) frm lv1 mo mo1 oth oth2 assms(3) id1 id3 False None s2 s3 c1' hnew notin w(3) in
          \<open>auto simp: e(1) mounted_def nth_append entry_def\<close>)
  qed
qed

section \<open>cmount\<close>

text \<open>
  What \<open>cmount\<close> promises: the new entry and copies of the rest of the union it came from, in place of,
  before or after what is mounted, which is the directory itself where there was nothing.
\<close>

definition bind_spec :: "u32 \<Rightarrow> nat \<Rightarrow> nat \<Rightarrow> bytes option \<Rightarrow> entry list \<Rightarrow> entry list \<Rightarrow> entry list" where
  "bind_spec flag new old spec ums cur =
     (let order = flag AND MORDER;
          flg = (if order = MREPL then MAFTER OR (flag AND MREADONLY) else order OR (flag AND MREADONLY));
          added = (new, flag, spec) # map (copied flg) ums;
          base = (if cur = [] \<and> order \<noteq> MREPL then [(old, 0, None)] else cur)
      in if order = MREPL then added else if order = MAFTER then base @ added else added @ base)"

text \<open>The other mounts of the union \<open>new\<close> was reached through.\<close>

definition umounts :: "nat \<Rightarrow> 'd kst \<Rightarrow> mount list" where
  "umounts new s = (case c_umh (chans s ! new) of None \<Rightarrow> [] | Some h \<Rightarrow> mh_mount (mheads s ! h))"

text \<open>When it refuses: a directory and a file do not go together, only directories make unions, and a
  union of several cannot be created in through one entry.\<close>

definition bind_refused :: "u32 \<Rightarrow> nat \<Rightarrow> nat \<Rightarrow> 'd kst \<Rightarrow> bool" where
  "bind_refused flag new old s \<longleftrightarrow>
     q_type (c_qid (chans s ! old)) AND QTDIR \<noteq> q_type (c_qid (chans s ! new)) AND QTDIR \<or>
     \<not> is_dir (c_qid (chans s ! old)) \<and> flag AND MORDER \<noteq> MREPL \<or>
     flag AND MCREATE \<noteq> 0 \<and> umounts new s \<noteq> [] \<and>
       (tl (umounts new s) \<noteq> [] \<or> mt_flag (hd (umounts new s)) AND MCREATE = 0)"

lemma create_flag: "flag AND MCREATE \<noteq> 0 \<Longrightarrow> flag OR MCREATE = (flag :: u32)"
proof (rule bit_word_eqI)
  fix n :: nat
  assume a: "flag AND MCREATE \<noteq> 0" and "n < LENGTH(32)"
  have m: "bit MCREATE k \<longleftrightarrow> k = 2" for k
    using bit_exp_iff [where 'a = u32, of 2 k] by (auto simp: MCREATE_def)
  obtain k where "bit (flag AND MCREATE) k" using a by (metis bit_eqI bit_0_eq bot_apply bot_bool_def)
  then have "bit flag 2" using m by (auto simp: bit_and_iff)
  then show "bit (flag OR MCREATE) n = bit flag n" using m by (auto simp: bit_or_iff)
qed

lemma umounts_own:
  assumes "counted s H" and "new \<in># hC H" and "f \<in> set (umounts new s)"
  shows "mt_to f \<in># headsC s"
proof -
  obtain h where h: "c_umh (chans s ! new) = Some h" "f \<in> set (mh_mount (mheads s ! h))"
    using assms(3) by (cases "c_umh (chans s ! new)") (auto simp: umounts_def)
  have l: "new < length (chans s)" "\<not> is_free (chans s ! new)" using counted_liveC [OF assms(1), of new] assms(2) by simp_all
  have "h \<in># ownM s" using tot_in [OF l(1), of chanM] h(1) l(2) by (auto simp: ownM_def chanM_def)
  then have "h < length (mheads s)" using counted_liveM [OF assms(1), of h] by simp
  then show ?thesis using head_owns(2) [of h s f] h(2) by (cases "mh_mount (mheads s ! h) = []") auto
qed

lemma cmount_ok:
  assumes "counted s H" and "old \<in># hC H" and "new \<in># hC H" and "\<not> is_open (chans s ! old)" and "\<not> is_open (chans s ! new)"
    and "live_pgrp s pg" and "linked_ok s" and "cmount dev pg new old flag spec s = (Inr mid, s')"
  shows "counted s' H" and "linked_ok s'" and "live_pgrp s' pg"
    and "map entry (mounted pg old s') = bind_spec flag new old spec (map entry (tl (umounts new s))) (map entry (mounted pg old s))"
    and "\<not> eqchan (chans s ! old) (chans s ! c) True \<Longrightarrow> mounted pg c s' = mounted pg c s"
    and "ident (chans s' ! x) = ident (chans s ! x)" and "heads_ok pg s \<Longrightarrow> heads_ok pg s'"
proof -
  let ?order = "flag AND MORDER"
  define flg where "flg = (if ?order = MREPL then MAFTER OR (flag AND MREADONLY) else ?order OR (flag AND MREADONLY))"
  obtain m s1 where h: "cmount_head pg old ?order s = (m, s1)" by fastforce
  obtain D where c1: "counted s1 (addC D H)" and D: "D = (if mh_mount (mheads s1 ! m) = [] then {#mh_from (mheads s1 ! m)#} else {#})"
    and ml: "m \<in># links s1" "m < length (mheads s1)" "\<not> is_open (chans s1 ! mh_from (mheads s1 ! m))"
    and mo: "mhead_of pg old s1 = Some m" and lv: "live_pgrp s1 pg"
    and ent: "map entry (mh_mount (mheads s1 ! m)) = (if mounted pg old s = [] \<and> ?order \<noteq> MREPL then [(old, 0, None)] else map entry (mounted pg old s))"
    and oth: "\<forall>k\<in>#links s1. k \<noteq> m \<longrightarrow> k \<in># links s \<and> mheads s1 ! k = mheads s ! k"
    and hds: "\<forall>k<length (mheads s). mheads s1 ! k = mheads s ! k"
    and ch: "\<forall>x. \<exists>i. chans s1 ! x = (chans s ! x)\<lparr>c_ref := i\<rparr>"
    and nm: "\<forall>c. \<not> eqchan (chans s ! old) (chans s ! c) True \<longrightarrow> mhead_of pg c s1 = mhead_of pg c s \<and> mhead_of pg c s \<noteq> Some m"
    and hk: "heads_ok pg s \<longrightarrow> heads_ok pg s1"
    using cmount_head_ok [OF assms(1,2,4,6,7) h] by blast
  have id1: "ident (chans s1 ! x) = ident (chans s ! x)" "is_open (chans s1 ! x) = is_open (chans s ! x)"
    "c_umh (chans s1 ! x) = c_umh (chans s ! x)" for x
    using ch [rule_format, of x] by (auto simp: ident_def is_open_def)
  let ?ums = "umounts new s1"
  have c1': "counted s1 (addC D H)" by (rule c1)
  have ums: "?ums = umounts new s"
  proof (cases "c_umh (chans s ! new)")
    case (Some k)
    have l: "new < length (chans s)" "\<not> is_free (chans s ! new)" using counted_liveC [OF assms(1), of new] assms(3) by simp_all
    have "k \<in># ownM s" using tot_in [OF l(1), of chanM] Some l(2) by (auto simp: ownM_def chanM_def)
    then have "k < length (mheads s)" using counted_liveM [OF assms(1), of k] by simp
    then show ?thesis using hds Some id1(3) by (simp add: umounts_def)
  qed (simp add: umounts_def id1(3))
  obtain f s2 where nf: "newmount new flag spec s1 = (f, s2)" by fastforce
  have "new \<in># ownC s1 + hC (addC D H)" using assms(3) by simp
  note n = newmount_ok [OF c1' this nf] and g2 = growsD [OF newmount_ok(2) [OF c1' this nf]]
  obtain rest s3 where cu: "copyunion flg (tl ?ums) s2 = (rest, s3)" by fastforce
  have uo: "\<forall>u\<in>set (tl ?ums). mt_to u \<in># ownC s2 + hC (addC {#new#} (addC D H))"
  proof
    fix u assume "u \<in> set (tl ?ums)"
    then have "u \<in> set (umounts new s1)" by (metis list.sel(2) list.set_sel(2))
    then have "mt_to u \<in># headsC s1" using umounts_own [OF c1', of new u] assms(3) by simp
    then show "mt_to u \<in># ownC s2 + hC (addC {#new#} (addC D H))" using headsC_own [of "mt_to u" s1] g2(10) by simp
  qed
  note r = copyunion_ok [OF n(1) uo cu] and g3 = growsD [OF copyunion_ok(2) [OF n(1) uo cu]]
  define om where "om = (if ?order = MREPL then mh_mount (mheads s3 ! m) else [])"
  define cur where "cur = (if ?order = MREPL then [] else mh_mount (mheads s3 ! m))"
  define f' where "f' = (if flag AND MCREATE \<noteq> 0 then f\<lparr>mt_flag := mt_flag f OR MCREATE\<rparr> else f)"
  have f': "f' = f" unfolding f'_def using n(3) create_flag by (auto split: if_splits)
  define l where "l = (if cur \<noteq> [] \<and> ?order = MAFTER then cur @ f' # rest else f' # rest @ cur)"
  define s4 where "s4 = upd_mhead m (\<lambda>x. x\<lparr>mh_mount := l\<rparr>) s3"
  have s': "s' = mountfree dev om s4"
  proof -
    have um2: "(case c_umh (the_chan s new) of None \<Rightarrow> [] | Some h \<Rightarrow> mh_mount (the_mhead s2 h)) = ?ums"
      by (cases "c_umh (chans s ! new)") (simp_all add: umounts_def id1(3) g2(2))
    have rs: "(if ?ums \<noteq> [] then copyunion flg (tl ?ums) s2 else ([], s2)) = (rest, s3)" using cu by auto
    have "cmount dev pg new old flag spec s = (if bind_refused flag new old s then (Inl Emount, s) else (Inr (mt_id f'), mountfree dev om s4))"
      unfolding bind_refused_def umounts_def
      by (simp only: cmount_def Let_def h prod.case nf um2 flg_def [symmetric] rs om_def [symmetric] cur_def [symmetric]
          f'_def [symmetric] l_def [symmetric] s4_def [symmetric] split: if_splits) auto
    then show ?thesis using assms(8) by (auto split: if_splits)
  qed
  have hm3: "mheads s3 = mheads s1" "links s3 = links s1" "pgrps s3 = pgrps s1" using g2 g3 by simp_all
  have id3: "ident (chans s3 ! x) = ident (chans s ! x)" "is_open (chans s3 ! x) = is_open (chans s ! x)" for x
    using g2 g3 id1 by simp_all
  define cur0 where "cur0 = mh_mount (mheads s1 ! m)"
  have l: "l = f # rest \<and> om = cur0 \<and> cur = [] \<or> om = [] \<and> cur = cur0 \<and> cur0 \<noteq> [] \<and> (l = cur0 @ f # rest \<or> l = f # rest @ cur0)"
  proof (cases "?order = MREPL")
    case False
    then have "cur0 \<noteq> []" using ent by (auto simp: cur0_def split: if_splits)
    then show ?thesis using False by (auto simp: l_def om_def cur_def f' hm3 cur0_def)
  qed (simp add: l_def om_def cur_def f' hm3 cur0_def)
  define D' where "D' = mset (map mt_to rest) + ({#new#} + D)"
  have c3: "counted s3 (addC D' H)" using r(1) by (simp add: add_comm D'_def ac_simps)
  have c4: "counted s4 (addC (mset (map mt_to om)) H)"
  proof (unfold s4_def, rule set_mounts_diff [OF c3])
    show "m < length (mheads s3)" using ml hm3 by simp
    show "headC (mheads s3 ! m) + D' = mountsC (mh_from (mheads s3 ! m)) l + mset (map mt_to om)"
      using l n(3) by (auto simp: headC_def mountsC_def D'_def D hm3 cur0_def)
    show "m \<in># links s3 + hL H" using ml hm3 by simp
    fix c assume "c \<in># mountsC (mh_from (mheads s3 ! m)) l"
    then have "c = mh_from (mheads s1 ! m) \<or> c = new \<or> (\<exists>u\<in>set rest. c = mt_to u) \<or> (\<exists>u\<in>set cur0. c = mt_to u)"
      using l n(3) by (auto simp: mountsC_def hm3 split: if_splits)
    moreover have "c \<in># headsC s1" if "u \<in> set cur0" "c = mt_to u" for u
      using head_owns(2) [OF ml(2), of u] that by (cases "cur0 = []") (simp_all add: cur0_def)
    moreover have "c \<in># headsC s1" if "u \<in> set rest" "c = mt_to u" for u
    proof -
      have "entry u \<in> set (map (copied flg \<circ> entry) (tl ?ums))" using that(1) r(3) by (metis image_eqI set_map)
      then obtain v where "v \<in> set (tl ?ums)" "mt_to u = mt_to v" by (auto simp: entry_def copied_def)
      moreover have "v \<in> set (umounts new s1)" using calculation(1) by (metis list.sel(2) list.set_sel(2))
      ultimately show ?thesis using umounts_own [OF c1', of new v] assms(3) that(2) by simp
    qed
    ultimately show "\<not> is_open (chans s3 ! c)"
      using ml(3) assms(5) id3(2) id1(2) headsC_own countedD(9) [OF c1] by (metis (no_types, lifting))
  qed
  have cn: "counted s' H" unfolding s' by (rule mountfree_counted [OF c4])
  then show "counted s' H" .
  have k: "kept s4 s'" by (simp add: s' mountfree_def kept_release)
  have st: "steady H s4 s'" by (rule kept_steady [where a = "mset (map mt_to om)" and b = "{#}" and d = "{#}", OF k _ cn]) (use c4 in simp)
  have h4: "mheads s4 ! m = (mheads s1 ! m)\<lparr>mh_mount := l\<rparr>" "\<And>i. i \<noteq> m \<Longrightarrow> mheads s4 ! i = mheads s1 ! i" "length (mheads s4) = length (mheads s1)"
    "pgrps s4 = pgrps s1" "links s4 = links s1" "chans s4 = chans s3"
    using ml(2) by (simp_all add: s4_def upd_mhead_def nth_upd_all hm3 links_def)
  have mm: "mh_mount (mheads s' ! i) = (if i = m then l else mh_mount (mheads s1 ! i))" "mh_from (mheads s' ! i) = mh_from (mheads s1 ! i)"
    if "i < length (mheads s1)" for i
    using steadyD(5,6) [OF st, of i] that h4 by (cases "i = m"; simp)+
  have id': "ident (chans s' ! x) = ident (chans s ! x)" for x using keptD(7) [OF k, of x] h4(6) id3(1) by simp
  show "ident (chans s' ! x) = ident (chans s ! x)" by (rule id')
  have lk': "links s' = links s1" "pgrps s' = pgrps s1" using links_steady [OF st] steadyD(1) [OF st] h4 by simp_all
  have lk1: "i < length (mheads s1)" if "i \<in># links s1" for i using linked_live [OF c1 that] by blast
  show "linked_ok s'"
    unfolding linked_ok_def lk'
  proof
    fix i assume i: "i \<in># links s1"
    show "mh_mount (mheads s' ! i) \<noteq> []"
    proof (cases "i = m")
      case False
      then show ?thesis using mm(1) [OF lk1 [OF i]] oth i assms(7) by (simp add: linked_ok_def)
    qed (use mm(1) [OF ml(2)] l in auto)
  qed
  show "live_pgrp s' pg" using lv lk'(2) by (simp add: live_pgrp_def)
  have mh: "mhead_of pg c s' = mhead_of pg c s1" for c
  proof (rule mhead_of_cong [OF lk'(2)])
    show "ident (chans s' ! x) = ident (chans s1 ! x)" for x using id' id1(1) by simp
    fix i assume "i \<in> set (chain pg (c_qid (chans s1 ! c)) s1)"
    then show "mh_from (mheads s' ! i) = mh_from (mheads s1 ! i)" using mm(2) lk1 chain_links [OF lv] by blast
  qed
  show "heads_ok pg s'" if h0: "heads_ok pg s"
    unfolding heads_ok_def
  proof (intro conjI allI ballI impI)
    show "count (links s') i \<le> 1" for i using hk h0 by (simp add: heads_ok_def lk'(1))
    fix q i k assume mk: "i \<in> set (chain pg q s')" "k \<in> set (chain pg q s')"
      and eq: "eqchan (chans s' ! mh_from (mheads s' ! i)) (chans s' ! mh_from (mheads s' ! k)) True"
    have c: "chain pg q s' = chain pg q s1" by (simp add: chain_def lk'(2))
    have l1: "i < length (mheads s1)" "k < length (mheads s1)" using mk lk1 chain_links [OF lv] unfolding c by blast+
    have "ident (chans s' ! x) = ident (chans s1 ! x)" for x using id' id1(1) by simp
    then have "eqchan (chans s1 ! mh_from (mheads s1 ! i)) (chans s1 ! mh_from (mheads s1 ! k)) True"
      using eq mm(2) [OF l1(1)] mm(2) [OF l1(2)] eqchan_ident by metis
    then show "i = k" using hk h0 mk unfolding heads_ok_def c by blast
  qed
  have "map entry (mounted pg old s') = map entry l" using mm(1) [OF ml(2)] by (simp add: mounted_def mh mo)
  also have "\<dots> = bind_spec flag new old spec (map entry (tl (umounts new s))) (map entry (mounted pg old s))"
  proof -
    define added where "added = (new, flag, spec) # map (copied flg) (map entry (tl (umounts new s)))"
    define base where "base = (if map entry (mounted pg old s) = [] \<and> ?order \<noteq> MREPL then [(old, 0, None)] else map entry (mounted pg old s))"
    have b: "map entry cur0 = base" using ent by (simp add: base_def cur0_def)
    have "entry f = (new, flag, spec)" by (simp add: n(3) entry_def)
    then have a: "map entry (f # rest) = added" using r(3) by (simp add: added_def ums)
    have "bind_spec flag new old spec (map entry (tl (umounts new s))) (map entry (mounted pg old s))
        = (if ?order = MREPL then added else if ?order = MAFTER then base @ added else added @ base)"
      by (simp only: bind_spec_def Let_def flg_def [symmetric] added_def [symmetric] base_def [symmetric])
    moreover have "l = (if ?order = MREPL then f # rest else if ?order = MAFTER then cur0 @ f # rest else f # rest @ cur0)"
      using l by (auto simp: l_def f' cur_def hm3 cur0_def split: if_splits)
    ultimately show ?thesis using a b by auto
  qed
  finally show "map entry (mounted pg old s') = bind_spec flag new old spec (map entry (tl (umounts new s))) (map entry (mounted pg old s))" .
  show "mounted pg c s' = mounted pg c s" if "\<not> eqchan (chans s ! old) (chans s ! c) True"
  proof (cases "mhead_of pg c s")
    case None
    then show ?thesis using nm that by (simp add: mounted_def mh)
  next
    case (Some i)
    then have i: "i \<noteq> m" "mhead_of pg c s1 = Some i" using nm that by auto
    have "i \<in># links s1" using mhead_ofD(1) [OF i(2)] chain_links [OF lv] by blast
    then show ?thesis using mm(1) [OF lk1] oth i Some by (simp add: mounted_def mh)
  qed
qed

lemma cmount_refused:
  "cmount dev pg new old flag spec s = (Inl e, s') \<longleftrightarrow> bind_refused flag new old s \<and> e = Emount \<and> s' = s"
  "\<not> bind_refused flag new old s \<Longrightarrow> \<exists>mid s'. cmount dev pg new old flag spec s = (Inr mid, s')"
  by (auto simp: cmount_def bind_refused_def umounts_def Let_def split: prod.splits if_splits)

section \<open>cunmount\<close>

text \<open>What is left of a union by \<open>cunmount\<close>: nothing, or all but the first entry for the channel given.\<close>

definition unmount_spec :: "'d kst \<Rightarrow> nat option \<Rightarrow> mount list \<Rightarrow> mount list" where
  "unmount_spec s mnt ms = (case mnt of None \<Rightarrow> [] | Some c \<Rightarrow> remove_first (mounted_is c s) ms)"

lemma remove_first_find:
  "List.find P xs = Some x \<Longrightarrow> mset xs = add_mset x (mset (remove_first P xs)) \<and> set (remove_first P xs) \<subseteq> set xs \<and> x \<in> set xs"
  by (induction xs) (auto split: if_splits)

lemma mset_remove1_concat:
  "i < length xs \<Longrightarrow> y \<in> set (xs ! i) \<Longrightarrow> add_mset y (mset (concat (xs[i := remove1 y (xs ! i)]))) = mset (concat xs)"
proof (induction xs arbitrary: i)
  case (Cons x xs)
  then show ?case by (cases i) (auto simp flip: add_mset_add_single)
qed simp

lemma links_remove:
  assumes "live_pgrp s pg" and "counted s H" and "h \<in> set (chain pg q s)"
  shows "counted (set_chain pg q (remove1 h (chain pg q s)) s) (addL {#h#} H)"
    and "add_mset h (links (set_chain pg q (remove1 h (chain pg q s)) s)) = links s"
proof -
  let ?f = "\<lambda>x. x\<lparr>pg_hash := (pg_hash x)[MOUNTH q := remove1 h (chain pg q s)]\<rparr>" and ?x = "pgrps s ! pg"
  have l: "pg < length (pgrps s)" "0 < pg_ref ?x" "MOUNTH q < length (pg_hash ?x)"
    using assms(1) MOUNTH_less by (simp_all add: live_pgrp_def)
  have m: "add_mset h (pgrpM (?f ?x)) = pgrpM ?x"
    using l mset_remove1_concat [OF l(3)] assms(3) by (simp add: pgrpM_def chain_def)
  have e: "set_chain pg q (remove1 h (chain pg q s)) s = upd_pgrp pg ?f s" by (simp add: set_chain_def)
  have "counted s (addL {#} H)" using assms(2) by simp
  then show "counted (set_chain pg q (remove1 h (chain pg q s)) s) (addL {#h#} H)" unfolding e
    by (rule set_chain_diff [OF _ l(1)]) (use m in \<open>simp_all add: pgrpC_def\<close>)
  show "add_mset h (links (set_chain pg q (remove1 h (chain pg q s)) s)) = links s"
  proof -
    have "links (upd_pgrp pg ?f s) + add_mset h (pgrpM (?f ?x)) = links s + pgrpM (?f ?x)"
      using own_upd_pgrp(2) [OF l(1), of ?f] unfolding m .
    then show ?thesis by (simp add: e)
  qed
qed


lemma find_remove1: "\<not> P h \<Longrightarrow> List.find P (remove1 h xs) = List.find P xs"
  by (induction xs) auto

lemma chain_sub: "live_pgrp s pg \<Longrightarrow> mset (chain pg q s) \<subseteq># links s"
proof -
  assume lv: "live_pgrp s pg"
  let ?x = "pgrps s ! pg"
  have l: "MOUNTH q < length (pg_hash ?x)" "pg < length (pgrps s)" using lv MOUNTH_less by (simp_all add: live_pgrp_def)
  have "mset (xs ! i) \<subseteq># mset (concat xs)" if "i < length xs" for xs :: "nat list list" and i
    using that by (induction xs arbitrary: i) (auto simp: nth_Cons' intro: subset_mset.add_increasing subset_mset.add_increasing2)
  then have "mset (chain pg q s) \<subseteq># pgrpM ?x" using l lv by (simp add: chain_def pgrpM_def live_pgrp_def)
  moreover have "pgrpM ?x \<subseteq># links s" unfolding links_def by (rule tot_in [OF l(2)])
  ultimately show ?thesis by (rule subset_mset.order_trans)
qed

lemma chain_distinct:
  assumes "live_pgrp s pg" and "\<forall>m. count (links s) m \<le> 1" shows "distinct (chain pg q s)"
proof -
  have "count (mset (chain pg q s)) x \<le> 1" for x
    using mset_subset_eq_count [OF chain_sub [OF assms(1), of q], of x] assms(2) [rule_format, of x] by simp
  then show ?thesis by (metis distinct_count_atmost_1 le_neq_implies_less less_one count_mset_0_iff count_greater_eq_one_iff count_mset)
qed

text \<open>Taking a head out of its chain together with all that is mounted on it.\<close>

lemma drop_head:
  assumes "counted s H" and "live_pgrp s pg" and "linked_ok s" and "mhead_of pg mnt s = Some h"
    and "t = upd_mhead h (\<lambda>x. x\<lparr>mh_mount := []\<rparr>) (set_chain pg (c_qid (chans s ! mnt)) (remove1 h (chain pg (c_qid (chans s ! mnt)) s)) s)"
    and "s' = putmhead dev (Some h) (cclose dev (Some (mh_from (mheads s ! h))) (mountfree dev (mh_mount (mheads s ! h)) t))"
    and "heads_ok pg s"
  shows "counted s' H" and "linked_ok s'" and "live_pgrp s' pg" and "heads_ok pg s'" and "mounted pg mnt s' = []"
    and "\<not> eqchan (chans s ! mnt) (chans s ! c) True \<Longrightarrow> mounted pg c s' = mounted pg c s"
    and "ident (chans s' ! x) = ident (chans s ! x)"
proof -
  let ?q = "c_qid (chans s ! mnt)" and ?x = "mheads s ! h"
  note md = mhead_ofD [OF assms(4)]
  have hl: "h \<in># links s" using chain_links [OF assms(2) md(1)] .
  have hlen: "h < length (mheads s)" using linked_live [OF assms(1) hl] by blast
  have ne: "mh_mount ?x \<noteq> []" using assms(3) hl by (simp add: linked_ok_def)
  define u where "u = set_chain pg ?q (remove1 h (chain pg ?q s)) s"
  note lr = links_remove [OF assms(2,1) md(1), folded u_def]
  have u: "mheads u = mheads s" "chans u = chans s" "cnames u = cnames s" by (simp_all add: u_def set_chain_def)
  have t: "t = upd_mhead h (\<lambda>x. x\<lparr>mh_mount := []\<rparr>) u" by (simp add: assms(5) u_def)
  have "counted t (addC (headC ?x) (addL {#h#} H))" unfolding t
    by (rule set_mounts_diff [where D = "{#}"]) (use lr(1) hlen u in \<open>simp_all add: mountsC_def\<close>)
  then have "counted t (addL {#h#} (addC (headC ?x) H))" by (simp add: add_comm)
  then have ct: "counted t (addM {#h#} (addC (headC ?x) H))"
    by (rule link_to_ref) (use hlen u in \<open>simp add: t upd_nth\<close>)
  have "headC ?x = {#mh_from ?x#} + mset (map mt_to (mh_mount ?x))" using ne by (simp add: headC_def mountsC_def)
  then have ct': "counted t (addC (mset (map mt_to (mh_mount ?x))) (addC (opt_ms (Some (mh_from ?x))) (addM (opt_ms (Some h)) H)))"
    using ct by (simp add: add_comm ac_simps)
  have c1: "counted (mountfree dev (mh_mount ?x) t) (addC (opt_ms (Some (mh_from ?x))) (addM (opt_ms (Some h)) H))"
    by (rule mountfree_counted [OF ct'])
  have c2: "counted (cclose dev (Some (mh_from ?x)) (mountfree dev (mh_mount ?x) t)) (addM (opt_ms (Some h)) H)"
    by (rule cclose_counted [OF c1])
  show cs: "counted s' H" unfolding assms(6) by (rule putmhead_counted [OF c2])
  have k: "kept t s'" unfolding assms(6) mountfree_def by (meson kept_release kept_closes kept_trans)
  have st: "steady H t s'"
    by (rule kept_steady [where a = "headC ?x" and b = "{#}" and d = "{#h#}", OF k _ cs]) (use ct in \<open>simp add: add_comm\<close>)
  have mt: "mh_from (mheads s' ! i) = mh_from (mheads s ! i)" "i \<noteq> h \<Longrightarrow> mh_mount (mheads s' ! i) = mh_mount (mheads s ! i)"
    if "i < length (mheads s)" for i
    using steadyD(5,6) [OF st, of i] that u by (auto simp: t upd_nth)
  have id: "ident (chans s' ! x) = ident (chans s ! x)" for x using keptD(7) [OF k, of x] u by (simp add: t)
  then show "ident (chans s' ! x) = ident (chans s ! x)" .
  have pg: "pgrps s' = pgrps u" using steadyD(1) [OF st] by (simp add: t)
  have lk: "add_mset h (links s') = links s" using lr(2) links_steady [OF st] by (simp add: t links_def)
  have one: "\<forall>m. count (links s) m \<le> 1" using assms(7) by (simp add: heads_ok_def)
  have hn: "h \<notin># links s'" using one [rule_format, of h] lk [symmetric] by (simp add: not_in_iff)
  show "linked_ok s'"
    unfolding linked_ok_def
  proof
    fix i assume i: "i \<in># links s'"
    then have "i \<noteq> h" "i \<in># links s" using hn lk [symmetric] by auto
    then show "mh_mount (mheads s' ! i) \<noteq> []" using mt(2) linked_live [OF assms(1)] assms(3) by (simp add: linked_ok_def)
  qed
  show lv: "live_pgrp s' pg" using assms(2) MOUNTH_less by (simp add: live_pgrp_def pg u_def set_chain_def upd_nth)
  have ch: "chain pg q s' = (if MOUNTH q = MOUNTH ?q then remove1 h (chain pg q s) else chain pg q s)" for q
  proof -
    have "chain pg q s' = chain pg q u" by (simp add: chain_def pg)
    also have "\<dots> = (if MOUNTH q = MOUNTH ?q then remove1 h (chain pg q s) else chain pg q s)"
      unfolding u_def chain_set [OF assms(2)] by (auto simp: chain_def)
    finally show ?thesis .
  qed
  have sub: "m \<in> set (chain pg q s')  \<Longrightarrow> m \<in> set (chain pg q s) \<and> m < length (mheads s)" for m q
    using set_remove1_subset [of h "chain pg q s"] chain_links [OF assms(2), of m q] linked_live [OF assms(1), of m]
    by (auto simp: ch split: if_splits)
  show "heads_ok pg s'"
    unfolding heads_ok_def
  proof (intro conjI allI ballI impI)
    show "count (links s') m \<le> 1" for m using one [rule_format, of m] lk [symmetric] by (simp split: if_splits)
    fix q m k assume "m \<in> set (chain pg q s')" "k \<in> set (chain pg q s')"
      "eqchan (chans s' ! mh_from (mheads s' ! m)) (chans s' ! mh_from (mheads s' ! k)) True"
    then show "m = k" using assms(7) sub mt(1) eqchan_ident [OF id id] unfolding heads_ok_def by metis
  qed
  have P: "List.find (\<lambda>m. eqchan (chans s' ! mh_from (mheads s' ! m)) (chans s' ! c) True) (chain pg q s')
      = List.find (\<lambda>m. eqchan (chans s ! mh_from (mheads s ! m)) (chans s ! c) True) (chain pg q s')" for c q
    by (rule find_cong) (use sub mt(1) eqchan_ident [OF id id] in simp)
  have q': "c_qid (chans s' ! c) = c_qid (chans s ! c)" for c using id [of c] by (simp add: ident_def)
  show "mounted pg mnt s' = []"
  proof -
    have "List.find (\<lambda>m. eqchan (chans s ! mh_from (mheads s ! m)) (chans s ! mnt) True) (remove1 h (chain pg ?q s)) = None"
      unfolding find_None_iff
    proof clarify
      fix m assume m: "m \<in> set (remove1 h (chain pg ?q s))" "eqchan (chans s ! mh_from (mheads s ! m)) (chans s ! mnt) True"
      have "m \<in> set (chain pg ?q s)" using m(1) by (meson notin_set_remove1)
      moreover have "eqchan (chans s ! mh_from (mheads s ! m)) (chans s ! mh_from ?x) True" using m(2) md(2) eqchan_sym eqchan_trans by blast
      ultimately have "m = h" using assms(7) md(1) unfolding heads_ok_def by blast
      then show False using m(1) chain_distinct [OF assms(2) one, of ?q] by simp
    qed
    then have "mhead_of pg mnt s' = None" using P [of mnt ?q] by (simp add: mhead_of_def q' ch)
    then show ?thesis by (simp add: mounted_def)
  qed
  show "mounted pg c s' = mounted pg c s" if "\<not> eqchan (chans s ! mnt) (chans s ! c) True"
  proof -
    have "\<not> eqchan (chans s ! mh_from ?x) (chans s ! c) True" using that md(2) eqchan_sym eqchan_trans by blast
    then have e: "mhead_of pg c s' = mhead_of pg c s"
      using P [of c "c_qid (chans s ! c)"] by (simp add: mhead_of_def q' ch find_remove1)
    show ?thesis
    proof (cases "mhead_of pg c s")
      case (Some i)
      note di = mhead_ofD [OF Some]
      have "i \<noteq> h" using di(2) that md(2) eqchan_sym eqchan_trans by blast
      moreover have "i < length (mheads s)" using chain_links [OF assms(2) di(1)] linked_live [OF assms(1)] by blast
      ultimately show ?thesis using mt(2) e Some by (simp add: mounted_def)
    qed (simp add: mounted_def e)
  qed
qed


text \<open>Taking one entry out of a union that has others.\<close>

lemma drop_entry:
  assumes "counted s H" and "live_pgrp s pg" and "linked_ok s" and "mhead_of pg mnt s = Some h"
    and "List.find P (mh_mount (mheads s ! h)) = Some f" and "left = remove_first P (mh_mount (mheads s ! h))" and "left \<noteq> []"
    and "s' = mountfree dev [f] (upd_mhead h (\<lambda>x. x\<lparr>mh_mount := left\<rparr>) s)" and "heads_ok pg s"
  shows "counted s' H" and "linked_ok s'" and "live_pgrp s' pg" and "heads_ok pg s'" and "mounted pg mnt s' = left"
    and "\<not> eqchan (chans s ! mnt) (chans s ! c) True \<Longrightarrow> mounted pg c s' = mounted pg c s"
    and "ident (chans s' ! x) = ident (chans s ! x)"
proof -
  let ?x = "mheads s ! h"
  note md = mhead_ofD [OF assms(4)]
  have hl: "h \<in># links s" using chain_links [OF assms(2) md(1)] .
  have hlen: "h < length (mheads s)" using linked_live [OF assms(1) hl] by blast
  have rf: "mset (mh_mount ?x) = add_mset f (mset left)" "set left \<subseteq> set (mh_mount ?x)"
    using remove_first_find [OF assms(5)] assms(6) by simp_all
  have ne: "mh_mount ?x \<noteq> []" using rf(1) by auto
  define t where "t = upd_mhead h (\<lambda>x. x\<lparr>mh_mount := left\<rparr>) s"
  have hd: "headC ?x = mountsC (mh_from ?x) left + {#mt_to f#}"
    using ne assms(7) arg_cong [OF rf(1), of "image_mset mt_to"] by (simp add: headC_def mountsC_def)
  have ct: "counted t (addC {#mt_to f#} H)" unfolding t_def
  proof (rule set_mounts_diff [where D = "{#}"])
    show "counted s (addC {#} H)" using assms(1) by simp
    show "h < length (mheads s)" by (rule hlen)
    show "headC ?x + {#} = mountsC (mh_from ?x) left + {#mt_to f#}" using hd by simp
    show "h \<in># links s + hL H" using hl by simp
    fix c assume "c \<in># mountsC (mh_from ?x) left"
    then have "c \<in># headC ?x" by (simp add: hd)
    then have "c \<in># headsC s" using tot_in [OF hlen, of headC] by (auto simp: headsC_def dest: mset_subset_eqD)
    then show "\<not> is_open (chans s ! c)" using headsC_own countedD(9) [OF assms(1)] by blast
  qed
  show cs: "counted s' H" unfolding assms(8) t_def [symmetric] by (rule mountfree_counted) (use ct in simp)
  have k: "kept t s'" unfolding assms(8) t_def by simp
  have st: "steady H t s'" by (rule kept_steady [where a = "{#mt_to f#}" and b = "{#}" and d = "{#}", OF k _ cs]) (use ct in simp)
  have mt: "mh_from (mheads s' ! i) = mh_from (mheads s ! i)" "mh_mount (mheads s' ! i) = (if i = h then left else mh_mount (mheads s ! i))"
    if "i < length (mheads s)" for i
    using steadyD(5,6) [OF st, of i] that by (auto simp: t_def upd_nth)
  have id: "ident (chans s' ! x) = ident (chans s ! x)" for x using keptD(7) [OF k, of x] by (simp add: t_def)
  then show "ident (chans s' ! x) = ident (chans s ! x)" .
  have pg: "pgrps s' = pgrps s" "links s' = links s" using steadyD(1) [OF st] by (simp_all add: t_def links_def)
  have len: "i < length (mheads s)" if "i \<in># links s" for i using linked_live [OF assms(1) that] by blast
  show "linked_ok s'" unfolding linked_ok_def pg
  proof
    fix i assume "i \<in># links s"
    then show "mh_mount (mheads s' ! i) \<noteq> []" using mt(2) [OF len] assms(3,7) by (simp add: linked_ok_def)
  qed
  show "live_pgrp s' pg" using assms(2) by (simp add: live_pgrp_def pg)
  have sub: "m \<in> set (chain pg q s) \<Longrightarrow> m < length (mheads s)" for m q using chain_links [OF assms(2)] len by blast
  have ch: "chain pg q s' = chain pg q s" for q by (simp add: chain_def pg)
  show "heads_ok pg s'"
    unfolding heads_ok_def pg(2) ch
  proof (intro conjI allI ballI impI)
    show "count (links s) m \<le> 1" for m using assms(9) by (simp add: heads_ok_def)
    fix q m k assume "m \<in> set (chain pg q s)" "k \<in> set (chain pg q s)"
      "eqchan (chans s' ! mh_from (mheads s' ! m)) (chans s' ! mh_from (mheads s' ! k)) True"
    then show "m = k" using assms(9) sub mt(1) eqchan_ident [OF id id] unfolding heads_ok_def by metis
  qed
  have mh: "mhead_of pg c s' = mhead_of pg c s" for c by (rule mhead_of_cong [OF pg(1) id]) (use mt(1) sub in blast)
  show "mounted pg mnt s' = left" using mt(2) [OF hlen] assms(4) by (simp add: mounted_def mh)
  show "mounted pg c s' = mounted pg c s" if "\<not> eqchan (chans s ! mnt) (chans s ! c) True"
  proof (cases "mhead_of pg c s")
    case (Some i)
    note di = mhead_ofD [OF Some]
    have "i \<noteq> h" using di(2) that md(2) eqchan_sym eqchan_trans by blast
    then show ?thesis using mt(2) [OF sub [OF di(1)]] Some by (simp add: mounted_def mh)
  qed (simp add: mounted_def mh)
qed

lemma cunmount_ok:
  assumes "counted s H" and "live_pgrp s pg" and "linked_ok s" and "heads_ok pg s"
    and "cunmount dev pg mnt mntd s = (Inr (), s')"
  shows "counted s' H \<and> linked_ok s' \<and> live_pgrp s' pg \<and> heads_ok pg s' \<and> mounted pg mnt s' = unmount_spec s mntd (mounted pg mnt s)
    \<and> (\<forall>c. \<not> eqchan (chans s ! mnt) (chans s ! c) True \<longrightarrow> mounted pg c s' = mounted pg c s)"
proof -
  obtain h where h: "mhead_of pg mnt s = Some h" using assms(5) by (auto simp: cunmount_def Let_def split: option.splits)
  let ?q = "c_qid (chans s ! mnt)" and ?ms = "mh_mount (mheads s ! h)"
  have m: "mounted pg mnt s = ?ms" by (simp add: mounted_def h)
  show ?thesis
  proof (cases mntd)
    case None
    have "s' = putmhead dev (Some h) (cclose dev (Some (mh_from (mheads s ! h))) (mountfree dev ?ms
        (upd_mhead h (\<lambda>x. x\<lparr>mh_mount := []\<rparr>) (set_chain pg ?q (remove1 h (chain pg ?q s)) s))))"
      using assms(5) h None by (simp add: cunmount_def Let_def)
    from drop_head [OF assms(1-3) h refl this assms(4)] show ?thesis using None by (simp add: unmount_spec_def)
  next
    case (Some c)
    obtain f where f: "List.find (mounted_is c s) ?ms = Some f"
      using assms(5) h Some by (auto simp: cunmount_def Let_def split: option.splits)
    define left where "left = remove_first (mounted_is c s) ?ms"
    show ?thesis
    proof (cases "left = []")
      case True
      have one: "?ms = [f]" using remove_first_find [OF f] True by (auto simp: left_def)
      have "upd_mhead h (\<lambda>x. x\<lparr>mh_mount := []\<rparr>) (set_chain pg ?q (remove1 h (chain pg ?q s)) s)
          = set_chain pg ?q (remove1 h (chain pg ?q s)) (upd_mhead h (\<lambda>x. x\<lparr>mh_mount := []\<rparr>) s)"
        by (simp add: set_chain_def upd_defs)
      then have "s' = putmhead dev (Some h) (cclose dev (Some (mh_from (mheads s ! h))) (mountfree dev ?ms
          (upd_mhead h (\<lambda>x. x\<lparr>mh_mount := []\<rparr>) (set_chain pg ?q (remove1 h (chain pg ?q s)) s))))"
        using assms(5) h Some f True one by (simp add: cunmount_def Let_def left_def)
      from drop_head [OF assms(1-3) h refl this assms(4)] show ?thesis using Some True m by (simp add: unmount_spec_def left_def)
    next
      case False
      have "s' = mountfree dev [f] (upd_mhead h (\<lambda>x. x\<lparr>mh_mount := left\<rparr>) s)"
        using assms(5) h Some f False by (simp add: cunmount_def Let_def left_def)
      from drop_entry [OF assms(1-3) h f left_def False this assms(4)] show ?thesis using Some m by (simp add: unmount_spec_def left_def)
    qed
  qed
qed

lemma cunmount_refused:
  "cunmount dev pg mnt mntd s = (Inl e, s') \<longleftrightarrow> s' = s \<and>
     (mounted pg mnt s = [] \<and> mhead_of pg mnt s = None \<and> e = Eunmount
      \<or> mhead_of pg mnt s \<noteq> None \<and> e = Eunion \<and> (\<exists>c. mntd = Some c \<and> List.find (mounted_is c s) (mounted pg mnt s) = None))"
  by (auto simp: cunmount_def mounted_def Let_def split: option.splits if_splits)

end
