(* ===== verification/MountProps.thy ===== *)
theory MountProps
  imports Mounts WalkProps
begin

text \<open>The properties of the mount table, with witnesses in the small world of theory \<open>WalkProps\<close>.\<close>

unbundle bit_operations_syntax

lemma ex_heads: "heads_ok 0 ex_world"
proof -
  have "\<forall>m\<in>set (chain 0 q ex_world). m = 0" for q
  proof
    fix m assume "m \<in> set (chain 0 q ex_world)"
    then have "m \<in># links ex_world" using chain_links [OF ex_ready(3)] by blast
    then show "m = 0" by (simp add: ex_own)
  qed
  then show ?thesis unfolding heads_ok_def by (metis count_single ex_own(5) le_refl zero_le)
qed

text \<open>
  C5. \<open>cmount\<close> implements the abstract mount table: it refuses exactly the combinations it documents and
  changes nothing then; otherwise the union at the place of \<open>old\<close> becomes the specified one (replaced,
  or with the new entry and the rest of the union it came from before or after it, the directory itself standing
  for an empty union), what is mounted anywhere else stays, and the count of references, the links of
  heads and their uniqueness are kept.
\<close>

theorem cmount_refines:
  assumes "counted s H" and "old \<in># hC H" and "new \<in># hC H" and "\<not> is_open (chans s ! old)" and "\<not> is_open (chans s ! new)"
    and "live_pgrp s pg" and "linked_ok s" and "heads_ok pg s"
  shows "case cmount dev pg new old flag spec s of
      (Inl e, s') \<Rightarrow> bind_refused flag new old s \<and> e = Emount \<and> s' = s
    | (Inr _, s') \<Rightarrow> \<not> bind_refused flag new old s
        \<and> map entry (mounted pg old s') = bind_spec flag new old spec (map entry (tl (umounts new s))) (map entry (mounted pg old s))
        \<and> (\<forall>c. \<not> eqchan (chans s ! old) (chans s ! c) True \<longrightarrow> mounted pg c s' = mounted pg c s)
        \<and> counted s' H \<and> linked_ok s' \<and> live_pgrp s' pg \<and> heads_ok pg s'"
proof (cases "bind_refused flag new old s")
  case True
  then have "cmount dev pg new old flag spec s = (Inl Emount, s)" using cmount_refused(1) by blast
  then show ?thesis using True by simp
next
  case False
  then obtain mid s' where c: "cmount dev pg new old flag spec s = (Inr mid, s')" using cmount_refused(2) by blast
  note r = cmount_ok [OF assms(1-7) c]
  show ?thesis using False r(1-4) r(5) r(7) [OF assms(8)] by (simp add: c)
qed

lemma ex_bind: "case cmount ex_dev 0 0 0 (MBEFORE OR MCREATE) None ex_world of
    (Inr _, s) \<Rightarrow> map entry (mounted 0 0 s) = [(0, 5, None), (0, 0, None)] | _ \<Rightarrow> False"
  by code_simp

theorem cmount_refines_witness:
  "\<exists>mid s'. cmount ex_dev 0 0 0 (MBEFORE OR MCREATE) None ex_world = (Inr mid, s') \<and> counted s' (addC {#0#} held0)
     \<and> map entry (mounted 0 0 s') = bind_spec (MBEFORE OR MCREATE) 0 0 None (map entry (tl (umounts 0 ex_world))) (map entry (mounted 0 0 ex_world))"
proof -
  obtain mid s' where c: "cmount ex_dev 0 0 0 (MBEFORE OR MCREATE) None ex_world = (Inr mid, s')"
    using ex_bind by (auto split: prod.splits sum.splits)
  show ?thesis
    using cmount_refines [OF ex_counted _ _ ex_ready(1) ex_ready(1) ex_ready(3) ex_ready(2) ex_heads, where dev = ex_dev and flag = "MBEFORE OR MCREATE" and spec = None]
    by (simp add: c)
qed

text \<open>
  C14. \<open>cunmount\<close> takes away the whole union at a place, or the first entry for the channel given; it
  fails without an effect when nothing is mounted there or the channel is not in the union. When the
  last entry goes the head leaves the table, so that the place is empty afterwards. Everything else
  stays, and every channel and head let go is released exactly once.
\<close>

theorem cunmount_refines:
  assumes "counted s H" and "live_pgrp s pg" and "linked_ok s" and "heads_ok pg s"
  shows "case cunmount dev pg mnt mntd s of
      (Inl e, s') \<Rightarrow> s' = s \<and> (mounted pg mnt s = [] \<and> e = Eunmount
        \<or> e = Eunion \<and> (\<exists>c. mntd = Some c \<and> List.find (mounted_is c s) (mounted pg mnt s) = None))
    | (Inr _, s') \<Rightarrow> mounted pg mnt s' = unmount_spec s mntd (mounted pg mnt s)
        \<and> (\<forall>c. \<not> eqchan (chans s ! mnt) (chans s ! c) True \<longrightarrow> mounted pg c s' = mounted pg c s)
        \<and> counted s' H \<and> linked_ok s' \<and> live_pgrp s' pg \<and> heads_ok pg s'"
proof -
  obtain r s' where c: "cunmount dev pg mnt mntd s = (r, s')" by fastforce
  show ?thesis
  proof (cases r)
    case (Inl e)
    then show ?thesis using c cunmount_refused [of dev pg mnt mntd s e s'] by auto
  next
    case (Inr u)
    then show ?thesis using c cunmount_ok [OF assms, of dev mnt mntd s'] by simp
  qed
qed

lemma ex_unmount: "case cunmount ex_dev 0 1 None ex_world of (Inr _, s) \<Rightarrow> True | _ \<Rightarrow> False"
  by code_simp

theorem cunmount_refines_witness:
  "\<exists>s'. cunmount ex_dev 0 1 None ex_world = (Inr (), s') \<and> mounted 0 1 s' = [] \<and> counted s' (addC {#0#} held0)"
proof -
  obtain s' where c: "cunmount ex_dev 0 1 None ex_world = (Inr (), s')"
    using ex_unmount by (auto split: prod.splits sum.splits)
  show ?thesis
    using cunmount_refines [OF ex_counted ex_ready(3) ex_ready(2) ex_heads, where dev = ex_dev and mnt = 1 and mntd = None]
    by (simp add: c [simplified] unmount_spec_def)
qed

lemma dev_fits: "scast (ucast d :: 32 word) = d \<Longrightarrow> eqchantdqid a (chan_type c) (chan_dev c) (c_qid c) True = eqchan a c True"
  if "c_dev c = d" for d :: u64
  using that by (auto simp: eqchantdqid_def eqchan_def chan_type_def chan_dev_def dest: ucast_inj)

lemma small_dev: "d < 2 ^ 31 \<Longrightarrow> scast (ucast (d :: u64) :: 32 word) = d"
proof (rule bit_word_eqI)
  fix n assume d: "d < 2 ^ 31" and n: "n < LENGTH(64)"
  have "unat d < 2 ^ 31" using d by (simp add: word_less_nat_alt)
  then have "unat (take_bit 31 d) = unat d" by (simp add: unsigned_take_bit_eq take_bit_nat_eq_self)
  then have "take_bit 31 d = d" by (simp only: word_unat_eq_iff)
  then have z: "\<not> bit d k" if "31 \<le> k" for k using that by (metis bit_take_bit_iff not_less)
  show "bit (scast (ucast d :: 32 word) :: u64) n = bit d n"
    using n z [of n] z [of 31] by (cases "n < 31") (auto simp: bit_simps min_def)
qed

text \<open>
  C26. What \<open>cmount\<close> puts first at a place, \<open>findmount\<close> finds there: a walk that comes to \<open>old\<close> after a
  replacing mount or one before the union goes on at \<open>new\<close>, whichever channel for the same place it
  comes with, as long as the device number fits in 31 bits; and each keeps the books.
\<close>

theorem mount_then_find:
  assumes "counted s H" and "old \<in># hC H" and "new \<in># hC H" and "\<not> is_open (chans s ! old)" and "\<not> is_open (chans s ! new)"
    and "live_pgrp s pg" and "linked_ok s"
    and "cmount dev pg new old flag spec s = (Inr mid, s1)" and "flag AND MORDER \<noteq> MAFTER"
    and "eqchan (chans s ! old) (chans s ! c) True" and "c_dev (chans s ! c) < 2 ^ 31"
  shows "\<exists>m s2. findmount dev pg None (Some None) (chan_type (chans s ! c)) (chan_dev (chans s ! c)) (c_qid (chans s ! c)) s1
      = ((True, Some new, Some (Some m)), s2) \<and> counted s2 (addC {#new#} (addM {#m#} H))"
proof -
  note r = cmount_ok [OF assms(1-8)]
  have d: "scast (ucast (c_dev (chans s ! c)) :: 32 word) = c_dev (chans s ! c)"
    by (rule small_dev [OF assms(11)])
  have id: "ident (chans s1 ! x) = ident (chans s ! x)" for x by (rule r(6))
  have e: "map entry (mounted pg old s1) = (new, flag, spec) # tl (map entry (mounted pg old s1))"
    unfolding r(4) bind_spec_def Let_def using assms(9) by auto
  then obtain f fs where f: "mounted pg old s1 = f # fs" "mt_to f = new" by (cases "mounted pg old s1") (auto simp: entry_def)
  have "eqchan (chans s1 ! old) (chans s1 ! c) True" using assms(10) eqchan_ident [OF id id] by simp
  then have mh: "mhead_of pg c s1 = mhead_of pg old s1" using mhead_of_eqchan by metis
  obtain m where m: "mhead_of pg old s1 = Some m" "mh_mount (mheads s1 ! m) = f # fs"
    using f(1) by (auto simp: mounted_def split: option.splits)
  have "mhead_tdqid pg (chan_type (chans s ! c)) (chan_dev (chans s ! c)) (c_qid (chans s ! c)) s1 = mhead_of pg c s1"
  proof -
    have "c_qid (chans s1 ! c) = c_qid (chans s ! c)" using id [of c] by (simp add: ident_def)
    moreover have "eqchan x (chans s1 ! c) True = eqchan x (chans s ! c) True" for x using eqchan_ident [OF refl id] by simp
    ultimately show ?thesis unfolding mhead_tdqid_def mhead_of_def by (simp add: dev_fits [OF refl d])
  qed
  then have td: "mhead_tdqid pg (chan_type (chans s ! c)) (chan_dev (chans s ! c)) (c_qid (chans s ! c)) s1 = Some m" using mh m by simp
  have "counted s1 (addC (opt_ms None) (addM (opt_ms None) H))" using r(1) by simp
  from findmount_some [OF this r(3) r(2) td] m(2) f(2) show ?thesis by fastforce
qed


lemma ex_bind_repl: "case cmount ex_dev 0 0 0 MREPL None ex_world of (Inr _, s) \<Rightarrow> True | _ \<Rightarrow> False"
  by code_simp

theorem mount_then_find_witness:
  "\<exists>mid s1 m s2. cmount ex_dev 0 0 0 MREPL None ex_world = (Inr mid, s1)
     \<and> findmount ex_dev 0 None (Some None) 0 0 (c_qid (chans ex_world ! 0)) s1 = ((True, Some 0, Some (Some m)), s2)"
proof -
  obtain mid s1 where c: "cmount ex_dev 0 0 0 MREPL None ex_world = (Inr mid, s1)"
    using ex_bind_repl by (auto split: prod.splits sum.splits)
  have x: "chan_type (chans ex_world ! 0) = 0" "chan_dev (chans ex_world ! 0) = 0" "c_dev (chans ex_world ! 0) = 0"
    by (simp_all add: ex_chans ex_chan_def chan0_def chan_type_def chan_dev_def)
  have "0 \<in># hC (addC {#0#} held0)" by simp
  moreover have "MREPL AND MORDER \<noteq> MAFTER" by (simp add: MREPL_def MORDER_def MAFTER_def)
  ultimately show ?thesis
    using mount_then_find [OF ex_counted _ _ ex_ready(1) ex_ready(1) ex_ready(3) ex_ready(2) c _ eqchan_refl] c x by auto
qed

text \<open>
  C34. The device number is narrowed on the way to \<open>findmount\<close>, which takes an \<open>int\<close>: for one that fits
  it agrees with the search of \<open>cmount\<close>, for any other it never finds the head \<open>cmount\<close> uses, so that what is
  mounted there is not seen.
\<close>

theorem findmount_narrows_dev:
  "(scast (ucast (c_dev (chans s ! c)) :: 32 word) = c_dev (chans s ! c) \<longrightarrow>
      mhead_tdqid pg (chan_type (chans s ! c)) (chan_dev (chans s ! c)) (c_qid (chans s ! c)) s = mhead_of pg c s)
   \<and> (scast (ucast (c_dev (chans s ! c)) :: 32 word) \<noteq> c_dev (chans s ! c) \<and> mhead_of pg c s = Some m \<longrightarrow>
      mhead_tdqid pg (chan_type (chans s ! c)) (chan_dev (chans s ! c)) (c_qid (chans s ! c)) s \<noteq> Some m)"
proof (intro conjI impI notI)
  show "mhead_tdqid pg (chan_type (chans s ! c)) (chan_dev (chans s ! c)) (c_qid (chans s ! c)) s = mhead_of pg c s"
    if "scast (ucast (c_dev (chans s ! c)) :: 32 word) = c_dev (chans s ! c)"
    by (simp add: mhead_tdqid_def mhead_of_def dev_fits [OF refl that])
  assume d: "scast (ucast (c_dev (chans s ! c)) :: 32 word) \<noteq> c_dev (chans s ! c) \<and> mhead_of pg c s = Some m"
    and t: "mhead_tdqid pg (chan_type (chans s ! c)) (chan_dev (chans s ! c)) (c_qid (chans s ! c)) s = Some m"
  then have m: "mhead_of pg c s = Some m" by blast
  have "c_dev (chans s ! mh_from (mheads s ! m)) = c_dev (chans s ! c)" using mhead_ofD(2) [OF m] by (auto simp: eqchan_def split: if_splits)
  moreover have "c_dev (chans s ! mh_from (mheads s ! m)) = scast (chan_dev (chans s ! c))"
    using mhead_tdqidD [OF t] by (auto simp: eqchantdqid_def split: if_splits)
  ultimately show False using d by (simp add: chan_dev_def)
qed

text \<open>The small world on a device whose number does not fit.\<close>

definition ex_large :: "unit kst" where
  "ex_large = ex_world\<lparr>chans := map (\<lambda>x. x\<lparr>c_dev := 0x80000000\<rparr>) (chans ex_world)\<rparr>"

lemma ex_large_facts: "mhead_of 0 1 ex_large = Some 0" "scast (ucast (c_dev (chans ex_large ! 1)) :: 32 word) \<noteq> c_dev (chans ex_large ! 1)"
  by code_simp+

theorem findmount_narrows_dev_witness:
  "mhead_tdqid 0 (chan_type (chans ex_large ! 1)) (chan_dev (chans ex_large ! 1)) (c_qid (chans ex_large ! 1)) ex_large \<noteq> Some 0"
  using findmount_narrows_dev [of ex_large 1 0 0] ex_large_facts by blast

end
