(* ===== verification/NamecProps.thy ===== *)
theory NamecProps
  imports Namec WalkProps
begin

text \<open>
  What \<open>namec\<close> of emu/port/chan.c enforces: a channel reached through a read-only mount is not handed out
  for writing, creating or removing.
\<close>

unbundle bit_operations_syntax

text \<open>The flags of the mount a channel was reached through survive everything done to the channel at the end.\<close>

definition mflags :: "'d kst \<Rightarrow> nat \<Rightarrow> u32" where
  "mflags s c = c_mflag (chans s ! c)"

lemma mflags_kept: "kept s s' \<Longrightarrow> mflags s' = mflags s"
  by (simp add: mflags_def fun_eq_iff keptD(8))

lemma mflags_chan: "(\<And>x. c_mflag (f x) = c_mflag x) \<Longrightarrow> mflags (upd_chan c f s) = mflags s"
  by (simp add: mflags_def fun_eq_iff upd_chan_def nth_upd_all)

lemma mflags_simps [simp]:
  "mflags (upd_name n g s) = mflags s" "mflags (upd_mhead m h s) = mflags s"
  "mflags (cclose dev x s) = mflags s" "mflags (cnameclose dev y s) = mflags s" "mflags (putmhead dev z s) = mflags s"
  "mflags (incref_chan c s) = mflags s" "mflags (incref_name n s) = mflags s"
  by (simp_all add: mflags_kept incref_is_bump)
    (simp_all add: mflags_def fun_eq_iff bump_chan_def bump_name_def upd_chan_def nth_upd_all)

lemma mflags_opt [simp]: "mflags (incref_opt c s) = mflags s" "mflags (incref_name_opt n s) = mflags s"
  by (simp_all add: incref_opt_def incref_name_opt_def split: option.split)

lemma mflags_fold [simp]: "mflags (fold incref_opt xs s) = mflags s"
  by (induction xs arbitrary: s) simp_all

lemma mflags_unique: "cname_unique dev n s = (m, s') \<Longrightarrow> mflags s' = mflags s"
  by (auto simp: cname_unique_def newcname_def mtptcopy_def Let_def split: if_splits)
    (simp_all add: mflags_def fun_eq_iff)

lemma mflags_addelem: "addelem dev n e s = (m, s') \<Longrightarrow> mflags s' = mflags s"
  by (auto simp: addelem_def Let_def split: prod.splits if_splits dest: mflags_unique)

lemma mflags_set [simp]:
  "mflags (set_mode c qm s) = mflags s" "mflags (set_oflags c omode s) = mflags s" "mflags (set_name dev c n s) = mflags s"
  by (simp_all add: set_mode_def set_oflags_def set_name_def Let_def mflags_chan)

text \<open>The channel handed out may be written to.\<close>

definition writable :: "nat \<Rightarrow> 'd kst \<Rightarrow> bool" where
  "writable c s \<longleftrightarrow> c_mflag (chans s ! c) AND MREADONLY = 0"

lemma writable_same: "mflags s' = mflags s \<Longrightarrow> writable c s' = writable c s"
  by (simp add: writable_def mflags_def fun_eq_iff)

lemma open_chan_writable:
  assumes "open_chan dev c m omode s = ((None, c'), s')" and "mutatingmode omode"
  shows "writable c' s'"
proof -
  define t where "t = (case m of None \<Rightarrow> s
      | Some h \<Rightarrow> if mh_mount (the_mhead s h) \<noteq> [] \<and> tl (mh_mount (the_mhead s h)) \<noteq> []
          then upd_chan c (\<lambda>x. x\<lparr>c_umh := m\<rparr>) s else putmhead dev m s)"
  define u where "u = (if omode = OEXEC then upd_chan c (\<lambda>x. x\<lparr>c_flag := c_flag x AND NOT CCACHE\<rparr>) t else t)"
  have w: "writable c s" using assms by (auto simp: open_chan_def writable_def split: if_splits)
  have su: "mflags u = mflags s" by (simp add: t_def u_def mflags_chan split: option.split)
  obtain qm where "c' = c" "s' = set_oflags c omode (set_mode c qm u)"
    using assms(1) w unfolding open_chan_def writable_def t_def [symmetric] u_def [symmetric] Let_def
    by (auto split: sum.splits)
  then show ?thesis
    using w writable_same [of "set_oflags c omode (set_mode c qm u)" s c] su by simp
qed

lemma namec_open_writable:
  assumes "namec_open dev pg amode omode nomount c s = ((None, c'), s')" and "amode = Aremove \<or> mutatingmode omode"
  shows "writable c' s'"
proof -
  obtain n where n: "c_name (chans s ! c) = Some n" using assms(1) by (auto simp: namec_open_def split: option.splits)
  obtain found d m n' t where dm: "(if nomount then ((False, c, None, Some n), incref_name n s)
      else domount dev pg c None (Some n) (incref_name n s)) = ((found, d, m, n'), t)" by (metis prod.exhaust)
  obtain r u where cu: "cunique dev d t = (r, u)" by fastforce
  have "r = Inr (the (case r of Inr x \<Rightarrow> Some x | _ \<Rightarrow> None))"
    using assms(1) n dm cu by (auto simp: namec_open_def Let_def split: sum.splits)
  then obtain x where x: "r = Inr x" by blast
  define v where "v = (if m \<noteq> None then upd_chan x (\<lambda>y. y\<lparr>c_mflag := mheadflag m u\<rparr>) u else u)"
  define w where "w = set_name dev x n' v"
  have e: "namec_open dev pg amode omode nomount c s =
      (if amode = Aremove then
         (if c_mflag (the_chan w x) AND MREADONLY \<noteq> 0 then ((Some Eperm, x), putmhead dev m w) else ((None, x), putmhead dev m w))
       else open_chan dev x m omode w)"
    using n dm cu x by (simp add: namec_open_def Let_def v_def w_def)
  show ?thesis
  proof (cases "amode = Aremove")
    case True
    then have "c' = x" "s' = putmhead dev m w" "writable x w" using assms(1) e by (auto simp: writable_def split: if_splits)
    then show ?thesis using writable_same [of w "putmhead dev m w"] by simp
  next
    case False
    then show ?thesis using open_chan_writable [of dev x m omode w c' s'] assms e by simp
  qed
qed

lemma pairE2: "(\<And>a b d. p = ((a, b), d) \<Longrightarrow> P) \<Longrightarrow> P"
  by (cases p, cases "fst p") auto

lemma pairE3: "(\<And>a b c d. p = (((a, b), c), d) \<Longrightarrow> P) \<Longrightarrow> P"
  by (cases p, cases "fst p", cases "fst (fst p)") auto

lemma create_new_writable:
  assumes "create_new dev omode perm e c cnew s = ((None, c'), s')" shows "writable c' s'"
proof -
  obtain r s1 where cu: "cunique dev cnew s = (r, s1)" by fastforce
  obtain cn where r: "r = Inr cn" using assms by (cases r) (auto simp: create_new_def cu)
  have ok: "writable cn s1" using assms by (auto simp: create_new_def cu r writable_def split: if_splits)
  define s2 where "s2 = set_name dev cn (c_name (the_chan s1 c)) (incref_name_opt (c_name (the_chan s1 c)) s1)"
  define d where "d = dcreate dev (dst s2) (the_chan s2 cn) e (omode AND NOT (OEXCL OR OCEXEC)) perm"
  have "(case d of Inl x \<Rightarrow> ((Some x, cn), s2) | Inr qm \<Rightarrow> ((None, cn), set_mode cn qm s2)) = ((None, c'), s')"
    using assms ok unfolding create_new_def cu r writable_def Let_def s2_def d_def by simp
  then obtain qm where "c' = cn" "s' = set_mode cn qm s2" by (auto split: sum.splits)
  then show ?thesis using ok writable_same [of s' s1 cn] by (simp add: s2_def)
qed

lemma try_create_writable:
  assumes "try_create dev pg omode perm nomount e c s = ((None, c'), s')" shows "writable c' s'"
proof -
  obtain er cn m u where cw: "create_where dev pg nomount c s = (((er, cn), m), u)" by (rule pairE3)
  obtain er2 cx v where nw: "(case er of Some x \<Rightarrow> ((er, cn), u) | None \<Rightarrow> create_new dev omode perm e c cn u) = ((er2, cx), v)"
    by (rule pairE2)
  have n: "er2 = None" using assms by (auto simp: try_create_def cw nw Let_def split: option.splits)
  have w: "writable cx v" using nw n create_new_writable by (auto split: option.splits)
  define y where "y = cclose dev (Some c) (putmhead dev m (set_oflags cx omode v))"
  have y: "mflags y = mflags v" by (simp add: y_def)
  have "c' = cx \<and> mflags s' = mflags y"
    using assms
    by (auto simp: try_create_def cw nw n Let_def y_def [symmetric] mflags_chan split: option.splits prod.splits dest: mflags_addelem)
      (simp add: mflags_def set_fault_def fun_eq_iff)
  then show ?thesis using w y writable_same by metis
qed

lemma trunc_mutates: "mutatingmode (omode OR OTRUNC)"
proof -
  have "bit (16 :: u32) 4" by (simp add: bit_simps)
  then have "bit ((omode OR OTRUNC) AND (16 OR 64)) 4" by (simp add: OTRUNC_def bit_simps)
  then have "(omode OR OTRUNC) AND (16 OR 64) \<noteq> 0" by (metis bit_0_eq bot_apply bot_bool_def)
  then show ?thesis by (simp add: mutatingmode_def Let_def)
qed

lemma namec_create_writable:
  assumes "namec_create dev pg omode perm nomount e c s = ((None, c'), s')" shows "writable c' s'"
  using assms namec_open_writable [of dev pg Acreate "omode OR OTRUNC"] trunc_mutates try_create_writable
  by (auto simp: namec_create_def split: prod.splits walkres.splits option.splits if_splits)


text \<open>
  The file \<open>n\<close> in the current directory of the example world, opened for writing: the result is the channel
  of the root mounted there.
\<close>

definition ex_home :: "unit kst" where
  "ex_home = ex_world\<lparr>pgrps := [(pgrps ex_world ! 0)\<lparr>pg_dot := Some 0\<rparr>],
     chans := (chans ex_world)[0 := (chans ex_world ! 0)\<lparr>c_ref := 2\<rparr>]\<rparr>"

lemma ex_open:
  "case namec ex_dev 0 [110] Aopen 1 0 ex_home of (Inl _, _) \<Rightarrow> False | (Inr _, _) \<Rightarrow> True"
proof -
  have v: "validname [110] True = Name_ok"
    by (simp add: validname_def validname_loop.simps at_def isfrog_def Runeself_def)
  have run: "case namec_start ex_dev 0 [110] ex_home of
      (Inl _, _) \<Rightarrow> False
    | (Inr (c, name, nm), s) \<Rightarrow>
        (case namec_body ex_dev 0 Aopen 1 0 nm name c s of ((None, _), _) \<Rightarrow> True | ((Some _, _), _) \<Rightarrow> False)"
    by code_simp
  obtain r s where st: "namec_start ex_dev 0 [110] ex_home = (r, s)" by fastforce
  then obtain c name nm where r: "r = Inr (c, name, nm)" using run by (cases r) auto
  obtain e c' s' where b: "namec_body ex_dev 0 Aopen 1 0 nm name c s = ((e, c'), s')" by (rule pairE2)
  have "e = None" using run by (simp add: st r b split: option.splits)
  then show ?thesis using v by (simp add: namec_def st r b)
qed


end
