(* ===== verification/Codecs.thy ===== *)
theory Codecs
  imports Utf
begin

text \<open>
  The codecs of lib9 for bytes as text in base 16, 32 and 64: u16.c, u32.c and u64.c. An encoder or
  decoder is given the size of its output buffer and its input; the result is what it stores, without
  the NUL an encoder stores behind its text. The stores are not clipped to the buffer, so that a
  result longer than the size is an overrun.
\<close>

unbundle bit_operations_syntax

section \<open>Base 16\<close>

text \<open>The digit a character stands for; all letters are let through.\<close>

definition hexdigit :: "u8 \<Rightarrow> int option" where
  "hexdigit c =
     (if 48 \<le> c \<and> c \<le> 57 then Some (uint c - 48)
      else if 97 \<le> c \<and> c \<le> 122 then Some (uint c - 97 + 10)
      else if 65 \<le> c \<and> c \<le> 90 then Some (uint c - 65 + 10)
      else None)"

text \<open>The loop of \<open>dec16\<close>: \<open>w\<close> holds the \<open>i\<close> digits of a byte seen so far, \<open>out\<close> the bytes stored.\<close>

fun dec16_loop :: "int \<Rightarrow> int \<Rightarrow> nat \<Rightarrow> bytes \<Rightarrow> bytes \<Rightarrow> bytes" where
  "dec16_loop lim w i out [] = out"
| "dec16_loop lim w i out (x # xs) =
     (case hexdigit x of
        None \<Rightarrow> dec16_loop lim w i out xs
      | Some c \<Rightarrow>
          (let w = w * 16 + c; i = i + 1 in
           if i = 2 then
             (if int (length out) + 1 > lim then out
              else dec16_loop lim 0 0 (out @ [word_of_int w]) xs)
           else dec16_loop lim w i out xs))"

definition dec16 :: "int \<Rightarrow> bytes \<Rightarrow> bytes" where
  "dec16 lim xs = dec16_loop lim 0 0 [] xs"

definition t16e :: bytes where
  "t16e = [48, 49, 50, 51, 52, 53, 54, 55, 56, 57, 65, 66, 67, 68, 69, 70]"

fun enc16_loop :: "int \<Rightarrow> bytes \<Rightarrow> bytes \<Rightarrow> bytes" where
  "enc16_loop lim out [] = out"
| "enc16_loop lim out (c # cs) =
     (if int (length out) + 2 \<ge> lim then out
      else enc16_loop lim (out @ [t16e ! unat (drop_bit 4 c), t16e ! unat (c AND 0xf)]) cs)"

definition enc16 :: "int \<Rightarrow> bytes \<Rightarrow> bytes" where
  "enc16 lim cs = enc16_loop lim [] cs"

section \<open>Base 32\<close>

definition tab32 :: bytes where
  "tab32 = [50, 51, 52, 53, 54, 55, 56, 57, 97, 98, 99, 100, 101, 102, 103, 104, 105, 106, 107, 109,
     110, 112, 113, 114, 115, 116, 117, 118, 119, 120, 121, 122]"

text \<open>\<open>s = strchr(tab,(int)src[i]); u[i] = s ? s-tab : 0;\<close>\<close>

definition u32_of :: "u8 \<Rightarrow> u32" where
  "u32_of c = (case strchr tab32 c of None \<Rightarrow> 0 | Some k \<Rightarrow> of_nat k)"

text \<open>The bytes a group of characters decodes to, on their values \<open>u\<close>.\<close>

definition d32_0 :: "u32 list \<Rightarrow> u8" where
  "d32_0 u = ucast (push_bit 3 (u ! 0) OR (0x7 AND drop_bit 2 (u ! 1)))"

definition d32_1 :: "u32 list \<Rightarrow> u8" where
  "d32_1 u = ucast (push_bit 6 (0x3 AND u ! 1) OR push_bit 1 (u ! 2) OR (0x1 AND drop_bit 4 (u ! 3)))"

definition d32_2 :: "u32 list \<Rightarrow> u8" where
  "d32_2 u = ucast (push_bit 4 (0xf AND u ! 3) OR (0xf AND drop_bit 1 (u ! 4)))"

definition d32_3 :: "u32 list \<Rightarrow> u8" where
  "d32_3 u = ucast (push_bit 7 (0x1 AND u ! 4) OR push_bit 2 (u ! 5) OR (0x3 AND drop_bit 3 (u ! 6)))"

definition d32_4 :: "u32 list \<Rightarrow> u8" where
  "d32_4 u = ucast (push_bit 5 (0x7 AND u ! 6) OR u ! 7)"

text \<open>The end of \<open>dec32\<close>, for fewer than eight characters: \<open>None\<close> is its \<open>return -1\<close>.\<close>

definition dec32_tail :: "bytes \<Rightarrow> bytes option" where
  "dec32_tail src =
     (let n = length src; u = map u32_of src in
      if n = 0 then Some []
      else if n = 1 \<or> n = 3 \<or> n = 6 then None
      else if n = 2 then Some [d32_0 u]
      else if n = 4 then Some [d32_0 u, d32_1 u]
      else if n = 5 then Some [d32_0 u, d32_1 u, d32_2 u]
      else Some [d32_0 u, d32_1 u, d32_2 u, d32_3 u])"

function dec32_loop :: "bytes \<Rightarrow> bytes \<Rightarrow> bytes option" where
  "dec32_loop dest src =
     (if length src \<ge> 8 then
        (let u = map u32_of (take 8 src)
         in dec32_loop (dest @ [d32_0 u, d32_1 u, d32_2 u, d32_3 u, d32_4 u]) (drop 8 src))
      else map_option ((@) dest) (dec32_tail src))"
  by pat_completeness auto
termination by (relation "measure (\<lambda>(_, src). length src)") auto

declare dec32_loop.simps [simp del]

definition dec32 :: "int \<Rightarrow> bytes \<Rightarrow> bytes option" where
  "dec32 ndest src =
     (if ndest + 1 < (5 * int (length src) + 7) div 8 then None else dec32_loop [] src)"

text \<open>The characters of a group of bytes, each byte an \<open>int\<close>.\<close>

definition e32 :: "u32 \<Rightarrow> u8" where
  "e32 j = tab32 ! unat j"

definition e32_0 :: "u32 list \<Rightarrow> u32" where "e32_0 s = 0x1f AND drop_bit 3 (s ! 0)"
definition e32_1 :: "u32 list \<Rightarrow> u32" where "e32_1 s = (0x1c AND push_bit 2 (s ! 0)) OR (0x03 AND drop_bit 6 (s ! 1))"
definition e32_2 :: "u32 list \<Rightarrow> u32" where "e32_2 s = 0x1f AND drop_bit 1 (s ! 1)"
definition e32_3 :: "u32 list \<Rightarrow> u32" where "e32_3 s = (0x10 AND push_bit 4 (s ! 1)) OR (0x0f AND drop_bit 4 (s ! 2))"
definition e32_4 :: "u32 list \<Rightarrow> u32" where "e32_4 s = (0x1e AND push_bit 1 (s ! 2)) OR (0x01 AND drop_bit 7 (s ! 3))"
definition e32_5 :: "u32 list \<Rightarrow> u32" where "e32_5 s = 0x1f AND drop_bit 2 (s ! 3)"
definition e32_6 :: "u32 list \<Rightarrow> u32" where "e32_6 s = (0x18 AND push_bit 3 (s ! 3)) OR (0x07 AND drop_bit 5 (s ! 4))"
definition e32_7 :: "u32 list \<Rightarrow> u32" where "e32_7 s = 0x1f AND s ! 4"

text \<open>
  The end of \<open>enc32\<close>, for \<open>n\<close> bytes left, up to the label \<open>out\<close>; the code behind its test of
  \<open>nsrc == 4\<close> is never reached.
\<close>

definition enc32_tail :: "bytes \<Rightarrow> bytes" where
  "enc32_tail src =
     (let n = length src; s = map ucast src in
      if n = 0 then []
      else if n = 1 then map e32 [e32_0 s, 0x1c AND push_bit 2 (s ! 0)]
      else if n = 2 then map e32 [e32_0 s, e32_1 s, e32_2 s]
      else if n = 3 then map e32 [e32_0 s, e32_1 s, e32_2 s, 0x10 AND push_bit 4 (s ! 1)]
      else map e32 [e32_0 s, e32_1 s, e32_2 s, e32_3 s, 0x1e AND push_bit 1 (s ! 2)])"

function enc32_loop :: "bytes \<Rightarrow> bytes \<Rightarrow> bytes" where
  "enc32_loop dest src =
     (if length src \<ge> 5 then
        (let s = map ucast (take 5 src)
         in enc32_loop (dest @ map e32 [e32_0 s, e32_1 s, e32_2 s, e32_3 s, e32_4 s, e32_5 s, e32_6 s, e32_7 s])
              (drop 5 src))
      else dest @ enc32_tail src)"
  by pat_completeness auto
termination by (relation "measure (\<lambda>(_, src). length src)") auto

declare enc32_loop.simps [simp del]

definition enc32 :: "int \<Rightarrow> bytes \<Rightarrow> bytes option" where
  "enc32 ndest src =
     (if ndest \<le> (8 * int (length src) + 4) div 5 then None else Some (enc32_loop [] src))"

section \<open>Base 64\<close>

definition INVAL :: u8 where "INVAL = 255"

definition t64d :: bytes where
  "t64d = replicate 43 INVAL @ [62] @ replicate 3 INVAL @ [63]
     @ [52, 53, 54, 55, 56, 57, 58, 59, 60, 61] @ replicate 7 INVAL
     @ [0, 1, 2, 3, 4, 5, 6, 7, 8, 9, 10, 11, 12, 13, 14,
        15, 16, 17, 18, 19, 20, 21, 22, 23, 24, 25] @ replicate 6 INVAL
     @ [26, 27, 28, 29, 30, 31, 32, 33, 34, 35, 36, 37, 38, 39, 40,
        41, 42, 43, 44, 45, 46, 47, 48, 49, 50, 51] @ replicate 133 INVAL"

definition t64e :: bytes where
  "t64e = [65, 66, 67, 68, 69, 70, 71, 72, 73, 74, 75, 76, 77, 78, 79, 80, 81, 82, 83, 84, 85, 86, 87, 88, 89, 90,
     97, 98, 99, 100, 101, 102, 103, 104, 105, 106, 107, 108, 109, 110, 111, 112, 113, 114, 115, 116, 117, 118,
     119, 120, 121, 122, 48, 49, 50, 51, 52, 53, 54, 55, 56, 57, 43, 47]"

text \<open>The \<open>switch(i)\<close> behind the loop of \<open>dec64\<close>.\<close>

definition dec64_tail :: "int \<Rightarrow> u64 \<Rightarrow> nat \<Rightarrow> bytes \<Rightarrow> bytes" where
  "dec64_tail lim b24 i out =
     (if i = 2 then (if int (length out) + 1 > lim then out else out @ [ucast (drop_bit 16 b24)])
      else if i = 3 then
        (if int (length out) + 2 > lim then out else out @ [ucast (drop_bit 16 b24), ucast (drop_bit 8 b24)])
      else out)"

fun dec64_loop :: "int \<Rightarrow> u64 \<Rightarrow> nat \<Rightarrow> bytes \<Rightarrow> bytes \<Rightarrow> bytes" where
  "dec64_loop lim b24 i out [] = dec64_tail lim b24 i out"
| "dec64_loop lim b24 i out (x # xs) =
     (let c = t64d ! unat x in
      if c = INVAL then dec64_loop lim b24 i out xs
      else if i = 0 then dec64_loop lim (push_bit 18 (ucast c)) 1 out xs
      else if i = 1 then dec64_loop lim (b24 OR push_bit 12 (ucast c)) 2 out xs
      else if i = 2 then dec64_loop lim (b24 OR push_bit 6 (ucast c)) 3 out xs
      else if int (length out) + 3 > lim then out
      else
        (let b24 = b24 OR ucast c
         in dec64_loop lim b24 0 (out @ [ucast (drop_bit 16 b24), ucast (drop_bit 8 b24), ucast b24]) xs))"

definition dec64 :: "int \<Rightarrow> bytes \<Rightarrow> bytes" where
  "dec64 lim xs = dec64_loop lim 0 0 [] xs"

definition e64 :: "u64 \<Rightarrow> u8" where
  "e64 j = t64e ! unat j"

text \<open>The last one or two bytes, in the \<open>switch(n%3)\<close>; the character 61 is the sign of equality.\<close>

definition enc64_tail :: "int \<Rightarrow> bytes \<Rightarrow> bytes \<Rightarrow> bytes" where
  "enc64_tail lim out xs =
     (if length xs = 2 then
        (let b24 = push_bit 16 (ucast (xs ! 0)) OR push_bit 8 (ucast (xs ! 1)) in
         if int (length out) + 4 \<ge> lim then out
         else out @ [e64 (drop_bit 18 b24), e64 (drop_bit 12 b24 AND 0x3f), e64 (drop_bit 6 b24 AND 0x3f), 61])
      else if length xs = 1 then
        (let b24 = push_bit 16 (ucast (xs ! 0)) in
         if int (length out) + 4 \<ge> lim then out
         else out @ [e64 (drop_bit 18 b24), e64 (drop_bit 12 b24 AND 0x3f), 61, 61])
      else out)"

fun enc64_loop :: "int \<Rightarrow> bytes \<Rightarrow> bytes \<Rightarrow> bytes" where
  "enc64_loop lim out (a # b # c # xs) =
     (let b24 = push_bit 16 (ucast a) OR push_bit 8 (ucast b) OR ucast c in
      if int (length out) + 4 \<ge> lim then out
      else enc64_loop lim (out @ [e64 (drop_bit 18 b24), e64 (drop_bit 12 b24 AND 0x3f),
             e64 (drop_bit 6 b24 AND 0x3f), e64 (b24 AND 0x3f)]) xs)"
| "enc64_loop lim out xs = enc64_tail lim out xs"

definition enc64 :: "int \<Rightarrow> bytes \<Rightarrow> bytes" where
  "enc64 lim xs = enc64_loop lim [] xs"

end
