(* ===== verification/CodecProps.thy ===== *)
theory CodecProps
  imports Codecs
begin

text \<open>
  What the codecs of lib9 guarantee: decoding gives back what was encoded in base 16 and 64, whatever
  stands between the characters, and in base 32 when at most one byte is left over behind the groups
  of five; and the one case in which the decoder of base 32 overruns its buffer.
\<close>

unbundle bit_operations_syntax

section \<open>Base 32\<close>

lemma masks32:
  "(0x1c :: u32) = push_bit 2 (mask 3)" "(0x03 :: u32) = mask 2" "(0x10 :: u32) = push_bit 4 (mask 1)" "(0x0f :: u32) = mask 4"
  "(0x1e :: u32) = push_bit 1 (mask 4)" "(0x18 :: u32) = push_bit 3 (mask 2)" "(0x07 :: u32) = mask 3" "(0x1f :: u32) = mask 5"
  by (simp_all add: mask_eq_exp_minus_1)

lemma one_mask: "(0x01 :: u32) = mask 1" by (simp add: mask_eq_exp_minus_1)

lemma digits32: "\<forall>k<32. u32_of (tab32 ! k) = of_nat k"
  by code_simp

lemma u32_of_e32: "j \<le> 31 \<Longrightarrow> u32_of (e32 j) = j"
proof -
  assume "j \<le> 31"
  then have "unat j < 32" by (simp add: word_le_nat_alt)
  then show ?thesis using digits32 by (simp add: e32_def)
qed

lemma below32: "j = mask 5 AND j \<Longrightarrow> j \<le> (31 :: u32)"
  by (metis word_and_le2 masks32(8) mask_eq_exp_minus_1 numeral_code)


lemma bit_sixteen [simp]: "bit (16 :: u32) n \<longleftrightarrow> n = 4"
  using bit_exp_iff [of 4 n, where 'a = "32 word"] by auto

lemma bit_sixteen_int [simp]: "bit (16 :: int) n \<longleftrightarrow> n = 4"
  using bit_exp_iff [of 4 n, where 'a = int] by auto

lemma e32_le: "e32_0 s \<le> 31" "e32_1 s \<le> 31" "e32_2 s \<le> 31" "e32_3 s \<le> 31" "e32_4 s \<le> 31" "e32_5 s \<le> 31"
    "e32_6 s \<le> 31" "e32_7 s \<le> 31"
  unfolding e32_0_def e32_1_def e32_2_def e32_3_def e32_4_def e32_5_def e32_6_def e32_7_def
  by (rule below32; unfold masks32 one_mask; rule bit_word_eqI; auto simp: bit_simps simp del: push_bit_Suc One_nat_def)+

lemma tail_le: "0x1c AND push_bit 2 x \<le> (31 :: u32)" "0x10 AND push_bit 4 x \<le> (31 :: u32)" "0x1e AND push_bit 1 x \<le> (31 :: u32)"
  by (rule below32; unfold masks32 one_mask; rule bit_word_eqI; auto simp: bit_simps simp del: push_bit_Suc One_nat_def)+

lemma byte_eqI:
  fixes a b :: u8
  assumes "bit a 0 = bit b 0" "bit a 1 = bit b 1" "bit a 2 = bit b 2" "bit a 3 = bit b 3" "bit a 4 = bit b 4"
    "bit a 5 = bit b 5" "bit a 6 = bit b 6" "bit a 7 = bit b 7"
  shows "a = b"
proof (rule bit_word_eqI)
  fix n assume "n < LENGTH(8)"
  then have "n \<in> {0, 1, 2, 3, 4, 5, 6, 7}" by auto
  then show "bit a n = bit b n" using assms by auto
qed

lemmas group_defs = e32_0_def e32_1_def e32_2_def e32_3_def e32_4_def e32_5_def e32_6_def e32_7_def
  d32_0_def d32_1_def d32_2_def d32_3_def d32_4_def

lemma group0: "u ! 0 = e32_0 (map ucast (a # s)) \<Longrightarrow> u ! 1 = 0x1c AND push_bit 2 (ucast a) \<Longrightarrow> d32_0 u = a"
  unfolding group_defs masks32 one_mask
  by (rule byte_eqI) (simp_all add: bit_simps)

lemma group:
  fixes a b c d e :: u8
  defines "s \<equiv> map ucast [a, b, c, d, e]"
  shows "u ! 0 = e32_0 s \<Longrightarrow> u ! 1 = e32_1 s \<Longrightarrow> d32_0 u = a"
    and "u ! 1 = e32_1 s \<Longrightarrow> u ! 2 = e32_2 s \<Longrightarrow> u ! 3 = e32_3 s \<Longrightarrow> d32_1 u = b"
    and "u ! 3 = e32_3 s \<Longrightarrow> u ! 4 = e32_4 s \<Longrightarrow> d32_2 u = c"
    and "u ! 4 = e32_4 s \<Longrightarrow> u ! 5 = e32_5 s \<Longrightarrow> u ! 6 = e32_6 s \<Longrightarrow> d32_3 u = d"
    and "u ! 6 = e32_6 s \<Longrightarrow> u ! 7 = e32_7 s \<Longrightarrow> d32_4 u = e"
  unfolding group_defs masks32 one_mask s_def
  by (rule byte_eqI; (simp add: bit_simps del: push_bit_Suc drop_bit_Suc One_nat_def, simp?))+


lemma tail_groups:
  "u ! 1 = e32_1 (map ucast [a, b]) \<Longrightarrow> u ! 2 = e32_2 (map ucast [a, b]) \<Longrightarrow> u ! 3 = 0x10 AND push_bit 4 (ucast b) \<Longrightarrow> d32_1 u = b"
  "u ! 3 = e32_3 (map ucast [a, b, c]) \<Longrightarrow> u ! 4 = 0x1e AND push_bit 1 (ucast c) \<Longrightarrow> d32_2 u = c"
  unfolding group_defs masks32 one_mask
  by (rule byte_eqI; (simp add: bit_simps del: push_bit_Suc drop_bit_Suc One_nat_def, simp?))+

text \<open>The characters of a group of five bytes.\<close>

definition block32 :: "bytes \<Rightarrow> bytes" where
  "block32 src =
     (let s = map ucast (take 5 src)
      in map e32 [e32_0 s, e32_1 s, e32_2 s, e32_3 s, e32_4 s, e32_5 s, e32_6 s, e32_7 s])"

lemma length_block32 [simp]: "length (block32 src) = 8"
  by (simp add: block32_def Let_def)

lemma enc32_loop_step:
  "enc32_loop dest src =
     (if length src \<ge> 5 then enc32_loop (dest @ block32 src) (drop 5 src) else dest @ enc32_tail src)"
  by (subst enc32_loop.simps) (simp add: block32_def Let_def)

lemma enc32_loop_acc: "enc32_loop dest src = dest @ enc32_loop [] src"
proof (induction "length src" arbitrary: src dest rule: less_induct)
  case less
  show ?case
  proof (cases "length src \<ge> 5")
    case True
    then have "enc32_loop d (drop 5 src) = d @ enc32_loop [] (drop 5 src)" for d by (intro less) simp
    then show ?thesis using True by (metis (no_types, lifting) append.assoc append_Nil enc32_loop_step)
  qed (simp add: enc32_loop_step)
qed

lemma enc32_loop_block: "length src \<ge> 5 \<Longrightarrow> enc32_loop [] src = block32 src @ enc32_loop [] (drop 5 src)"
  using enc32_loop_acc [of "block32 src" "drop 5 src"] by (subst enc32_loop_step) simp

lemma values32:
  "map u32_of (map e32 [e32_0 s, e32_1 s, e32_2 s, e32_3 s, e32_4 s, e32_5 s, e32_6 s, e32_7 s])
     = [e32_0 s, e32_1 s, e32_2 s, e32_3 s, e32_4 s, e32_5 s, e32_6 s, e32_7 s]"
  by (simp add: u32_of_e32 e32_le)

lemma dec32_loop_block: "dec32_loop dest (block32 [a, b, c, d, e] @ t) = dec32_loop (dest @ [a, b, c, d, e]) t"
proof -
  define s :: "u32 list" where "s = map ucast [a, b, c, d, e]"
  define u where "u = [e32_0 s, e32_1 s, e32_2 s, e32_3 s, e32_4 s, e32_5 s, e32_6 s, e32_7 s]"
  have n: "u ! 0 = e32_0 s" "u ! 1 = e32_1 s" "u ! 2 = e32_2 s" "u ! 3 = e32_3 s" "u ! 4 = e32_4 s"
    "u ! 5 = e32_5 s" "u ! 6 = e32_6 s" "u ! 7 = e32_7 s" by (simp_all add: u_def)
  have blk: "map u32_of (block32 [a, b, c, d, e]) = u"
    by (simp only: block32_def Let_def s_def u_def values32) simp
  have "d32_0 u = a" "d32_1 u = b" "d32_2 u = c" "d32_3 u = d" "d32_4 u = e"
    using group [of u a b c d e] n unfolding s_def by blast+
  then show ?thesis
    by (subst dec32_loop.simps) (simp add: blk Let_def)
qed

lemma list5: "length xs \<ge> 5 \<Longrightarrow> \<exists>a b c d e ys. xs = a # b # c # d # e # ys"
  by (auto simp: numeral_eq_Suc Suc_le_length_iff)

lemma short_cases:
  "length (src :: 'a list) < 5 \<Longrightarrow> (src = [] \<Longrightarrow> P) \<Longrightarrow> (\<And>a. src = [a] \<Longrightarrow> P) \<Longrightarrow> (\<And>a b. src = [a, b] \<Longrightarrow> P)
     \<Longrightarrow> (\<And>a b c. src = [a, b, c] \<Longrightarrow> P) \<Longrightarrow> (\<And>a b c d. src = [a, b, c, d] \<Longrightarrow> P) \<Longrightarrow> P"
  by (auto simp: numeral_eq_Suc less_Suc_eq length_Suc_conv)

text \<open>What decoding an encoding gives: the tail loses bits or bytes unless at most one byte is left over.\<close>

definition back32 :: "bytes \<Rightarrow> bytes option" where
  "back32 src = (if length src mod 5 \<le> 1 then Some src else if length src mod 5 = 2 then None else Some (butlast src))"

lemma dec32_loop_short: "length t < 8 \<Longrightarrow> dec32_loop dest t = map_option ((@) dest) (dec32_tail t)"
  by (subst dec32_loop.simps) simp

lemma dec32_tail_enc: "length src < 5 \<Longrightarrow> dec32_loop dest (enc32_tail src) = map_option ((@) dest) (back32 src)"
proof (erule short_cases)
  show "dec32_loop dest (enc32_tail src) = map_option ((@) dest) (back32 src)" if "src = [a]" for a
  proof -
    define s :: "u32 list" where "s = map ucast src"
    define u where "u = [e32_0 s, 0x1c AND push_bit 2 (ucast a)]"
    have e: "map u32_of (enc32_tail src) = u" "length (enc32_tail src) = 2"
      unfolding that u_def s_def enc32_tail_def Let_def by (simp_all add: u32_of_e32 e32_le tail_le tail_le [simplified])
    have "d32_0 u = a" using group0 [of u a "[]"] by (simp add: u_def s_def that)
    then show ?thesis using e by (simp add: dec32_loop_short dec32_tail_def back32_def that Let_def)
  qed
  show "dec32_loop dest (enc32_tail src) = map_option ((@) dest) (back32 src)" if "src = [a, b]" for a b
  proof -
    have "length (enc32_tail src) = 3" by (simp add: that enc32_tail_def Let_def)
    then show ?thesis by (simp add: dec32_loop_short dec32_tail_def back32_def that Let_def)
  qed
  show "dec32_loop dest (enc32_tail src) = map_option ((@) dest) (back32 src)" if "src = [a, b, c]" for a b c
  proof -
    define s :: "u32 list" where "s = map ucast src"
    define u where "u = [e32_0 s, e32_1 s, e32_2 s, 0x10 AND push_bit 4 (ucast b)]"
    have e: "map u32_of (enc32_tail src) = u" "length (enc32_tail src) = 4"
      unfolding that u_def s_def enc32_tail_def Let_def by (simp_all add: u32_of_e32 e32_le tail_le tail_le [simplified])
    have "d32_0 u = a" "d32_1 u = b"
      using group(1) [of u a b c 0 0] tail_groups(1) [of u a b] by (simp_all add: u_def s_def that group_defs(1-8))
    then show ?thesis using e by (simp add: dec32_loop_short dec32_tail_def back32_def that Let_def)
  qed
  show "dec32_loop dest (enc32_tail src) = map_option ((@) dest) (back32 src)" if "src = [a, b, c, d]" for a b c d
  proof -
    define s :: "u32 list" where "s = map ucast src"
    define u where "u = [e32_0 s, e32_1 s, e32_2 s, e32_3 s, 0x1e AND push_bit 1 (ucast c)]"
    have e: "map u32_of (enc32_tail src) = u" "length (enc32_tail src) = 5"
      unfolding that u_def s_def enc32_tail_def Let_def by (simp_all add: u32_of_e32 e32_le tail_le tail_le [simplified])
    have "d32_0 u = a" "d32_1 u = b" "d32_2 u = c"
      using group(1,2) [of u a b c d 0] tail_groups(2) [of u a b c] by (simp_all add: u_def s_def that group_defs(1-8))
    then show ?thesis using e by (simp add: dec32_loop_short dec32_tail_def back32_def that Let_def)
  qed
qed (simp add: dec32_loop_short dec32_tail_def enc32_tail_def back32_def)

lemma back32_group: "map_option ((@) [a, b, c, d, e]) (back32 xs) = back32 (a # b # c # d # e # xs)"
proof -
  have m: "length (a # b # c # d # e # xs) mod 5 = length xs mod 5" using mod_add_self2 [of "length xs" 5] by simp
  show ?thesis unfolding back32_def m by (cases xs) auto
qed

lemma dec32_enc: "dec32_loop dest (enc32_loop [] src) = map_option ((@) dest) (back32 src)"
proof (induction "length src" arbitrary: src dest rule: less_induct)
  case less
  show ?case
  proof (cases "length src \<ge> 5")
    case True
    then obtain a b c d e ys where s: "src = a # b # c # d # e # ys" using list5 by blast
    have "block32 src = block32 [a, b, c, d, e]" by (simp add: s block32_def)
    then have "dec32_loop dest (enc32_loop [] src) = dec32_loop (dest @ [a, b, c, d, e]) (enc32_loop [] ys)"
      using enc32_loop_block [OF True] dec32_loop_block by (simp add: s)
    also have "\<dots> = map_option ((@) (dest @ [a, b, c, d, e])) (back32 ys)" by (rule less) (simp add: s)
    also have "\<dots> = map_option ((@) dest) (back32 src)"
      unfolding s back32_group [symmetric] by (cases "back32 ys") simp_all
    finally show ?thesis .
  next
    case False
    then show ?thesis using dec32_tail_enc [of src dest] by (simp add: enc32_loop_step)
  qed
qed

lemma length_enc32_loop: "length (enc32_loop [] src) = 8 * (length src div 5) + (if length src mod 5 = 0 then 0 else length src mod 5 + 1)"
proof (induction "length src" arbitrary: src rule: less_induct)
  case less
  show ?case
  proof (cases "length src \<ge> 5")
    case True
    have "length (enc32_loop [] (drop 5 src)) = 8 * ((length src - 5) div 5) + (if (length src - 5) mod 5 = 0 then 0 else (length src - 5) mod 5 + 1)"
      using less [of "drop 5 src"] True by simp
    moreover obtain k where "length src = k + 5" using True by (metis le_add_diff_inverse2)
    moreover have "(k + 5) div 5 = k div 5 + 1" for k :: nat by simp
    ultimately show ?thesis using enc32_loop_block [OF True] by simp
  next
    case False
    then have "length src < 5" by simp
    then show ?thesis by (elim short_cases) (simp_all add: enc32_loop_step enc32_tail_def Let_def)
  qed
qed

lemma length_dec32_tail: "dec32_tail t = Some r \<Longrightarrow> length t < 8 \<Longrightarrow> length r = 5 * length t div 8"
proof -
  assume a: "dec32_tail t = Some r" "length t < 8"
  then have "length t \<in> {0, 1, 2, 3, 4, 5, 6, 7}" by (auto simp: numeral_eq_Suc less_Suc_eq)
  then show ?thesis using a by (auto simp: dec32_tail_def Let_def split: if_splits)
qed

lemma length_dec32_loop: "dec32_loop dest src = Some r \<Longrightarrow> length r = length dest + 5 * length src div 8"
proof (induction "length src" arbitrary: src dest rule: less_induct)
  case less
  show ?case
  proof (cases "length src \<ge> 8")
    case True
    then obtain d where "dec32_loop (dest @ d) (drop 8 src) = Some r" "length d = 5"
      using less.prems by (subst (asm) dec32_loop.simps) (auto simp: Let_def)
    moreover obtain k where "length src = k + 8" using True by (metis le_add_diff_inverse2)
    ultimately show ?thesis using less.hyps [of "drop 8 src" "dest @ d"] True by simp
  next
    case False
    then show ?thesis using less.prems length_dec32_tail [of src] by (auto simp: dec32_loop_short)
  qed
qed


text \<open>
  C35. \<open>dec32\<close> undoes \<open>enc32\<close> only when the length is a multiple of five or one more. With two bytes left
  over the text has one character too few and is refused; with three or four the last byte is lost.
  This is so for every input and every buffer that is large enough for it.
\<close>

theorem base32_roundtrip:
  assumes "enc32 n src = Some t" and "int (length src) \<le> m"
  shows "dec32 m t =
    (if length src mod 5 \<le> 1 then Some src else if length src mod 5 = 2 then None else Some (butlast src))"
proof -
  have t: "t = enc32_loop [] src" using assms(1) by (simp add: enc32_def split: if_splits)
  obtain q r where q: "length src = 5 * q + r" "r < 5" by (metis mod_less_divisor mult_div_mod_eq zero_less_numeral)
  then have l: "length t = 8 * q + (if r = 0 then 0 else r + 1)" by (simp add: t length_enc32_loop)
  have "(5 * int (length t) + 7) div 8 \<le> int (length src) + 1"
  proof -
    have "r \<in> {0, 1, 2, 3, 4}" using q(2) by auto
    then show ?thesis using q l by auto
  qed
  then have "dec32 m t = dec32_loop [] t" using assms(2) by (simp add: dec32_def)
  also have "\<dots> = back32 src" unfolding t dec32_enc by (cases "back32 src") simp_all
  finally show ?thesis by (simp add: back32_def)
qed

theorem base32_roundtrip_witness:
  "enc32 10 [1, 2, 255] = Some [50, 54, 51, 50] \<and> dec32 3 [50, 54, 51, 50] = Some [1, 2]"
proof -
  have "enc32 10 [1, 2, 255] = Some [50, 54, 51, 50]" by code_simp
  with base32_roundtrip [OF this, of 3] show ?thesis by simp
qed



section \<open>Base 16\<close>

lemma hexdigit_t16e: "\<forall>k<16. hexdigit (t16e ! k) = Some (int k)"
  by code_simp

text \<open>The two characters of a byte.\<close>

definition hex2 :: "u8 \<Rightarrow> bytes" where
  "hex2 c = [t16e ! unat (drop_bit 4 c), t16e ! unat (c AND 0xf)]"

lemma hex2_digits:
  fixes c :: u8
  shows "hexdigit (t16e ! unat (drop_bit 4 c)) = Some (uint c div 16)" "hexdigit (t16e ! unat (c AND 0xf)) = Some (uint c mod 16)"
proof -
  have m: "(0xf :: u8) = mask 4" by (simp add: mask_eq_exp_minus_1)
  have d: "unat (drop_bit 4 c) = unat c div 16" by (simp only: unat_drop_bit_eq) (simp add: drop_bit_eq_div)
  have t: "unat (c AND 0xf) = unat c mod 16"
    unfolding m take_bit_eq_mask [symmetric] by (simp only: unsigned_take_bit_eq) (simp add: take_bit_eq_mod)
  have "unat c < 256" using unsigned_less [of c] by simp
  then have "hexdigit (t16e ! (unat c div 16)) = Some (int (unat c div 16))" "hexdigit (t16e ! (unat c mod 16)) = Some (int (unat c mod 16))"
    using hexdigit_t16e by simp_all
  then show "hexdigit (t16e ! unat (drop_bit 4 c)) = Some (uint c div 16)" "hexdigit (t16e ! unat (c AND 0xf)) = Some (uint c mod 16)"
    unfolding d t uint_nat by (simp_all only: zdiv_int zmod_int of_nat_numeral)
qed

lemma enc16_loop_all: "int (length out) + 2 * int (length cs) < lim \<Longrightarrow> enc16_loop lim out cs = out @ concat (map hex2 cs)"
  by (induction cs arbitrary: out) (simp_all add: hex2_def)

lemma dec16_loop_hex2:
  "int (length out) + int (length cs) \<le> lim \<Longrightarrow> dec16_loop lim 0 0 out (concat (map hex2 cs)) = out @ cs"
proof (induction cs arbitrary: out)
  case (Cons c cs)
  have w: "word_of_int (uint c div 16) * 16 + word_of_int (uint c mod 16) = c"
    by (metis div_mult_mod_eq of_int_add of_int_mult of_int_numeral word_of_int_uint)
  have "dec16_loop lim 0 0 out (concat (map hex2 (c # cs))) = dec16_loop lim 0 0 (out @ [c]) (concat (map hex2 cs))"
    using Cons.prems w by (simp add: hex2_def hex2_digits)
  then show ?case using Cons by simp
qed simp

lemma dec16_loop_skip: "dec16_loop lim w i out (filter (\<lambda>x. hexdigit x \<noteq> None) xs) = dec16_loop lim w i out xs"
  by (induction xs arbitrary: w i out) (auto simp: Let_def split: option.split)

lemma hex2_valid: "filter (\<lambda>x. hexdigit x \<noteq> None) (concat (map hex2 cs)) = concat (map hex2 cs)"
  by (induction cs) (simp_all add: hex2_def hex2_digits)

section \<open>Base 64\<close>

lemma t64d_t64e: "\<forall>k<64. t64d ! unat (t64e ! k) = of_nat k \<and> t64d ! unat (t64e ! k) \<noteq> INVAL"
  by code_simp

lemma t64d_sign: "t64d ! 61 = INVAL"
  by code_simp

lemma value64:
  assumes "j < (64 :: u64)"
  shows "ucast (t64d ! unat (e64 j)) = j" "t64d ! unat (e64 j) \<noteq> INVAL"
proof -
  have u: "unat j < 64" using assms by (simp add: word_less_nat_alt)
  then have k: "t64d ! unat (e64 j) = of_nat (unat j) \<and> t64d ! unat (e64 j) \<noteq> INVAL" using t64d_t64e unfolding e64_def by blast
  then show "t64d ! unat (e64 j) \<noteq> INVAL" by blast
  have "ucast (of_nat (unat j) :: u8) = j"
    using u by (simp add: word_unat_eq_iff unsigned_ucast_eq unsigned_take_bit_eq take_bit_nat_eq_self)
  then show "ucast (t64d ! unat (e64 j)) = j" using k by simp
qed

definition word24 :: "u8 \<Rightarrow> u8 \<Rightarrow> u8 \<Rightarrow> u64" where
  "word24 a b c = push_bit 16 (ucast a) OR push_bit 8 (ucast b) OR ucast c"

lemma m64: "(0x3f :: u64) = mask 6"
  by (simp add: mask_eq_exp_minus_1)

lemma below64: "j AND 0x3f = j \<Longrightarrow> j < (64 :: u64)"
proof -
  assume "j AND 0x3f = j"
  then have "j \<le> 0x3f" by (metis word_and_le1)
  then show ?thesis by (simp add: word_le_nat_alt word_less_nat_alt)
qed

lemma pieces64:
  "drop_bit 18 (word24 a b c) < 64" "drop_bit 12 (word24 a b c) AND 0x3f < 64"
  "drop_bit 6 (word24 a b c) AND 0x3f < 64" "word24 a b c AND 0x3f < 64"
  by (rule below64; unfold m64 word24_def; rule bit_word_eqI; auto simp: bit_simps dest: bit_imp_le_length)+

lemma join64:
  "push_bit 18 (drop_bit 18 (word24 a b c)) OR push_bit 12 (drop_bit 12 (word24 a b c) AND 0x3f)
     OR push_bit 6 (drop_bit 6 (word24 a b c) AND 0x3f) OR (word24 a b c AND 0x3f) = word24 a b c"
  unfolding m64
proof (rule bit_word_eqI)
  fix n assume "n < LENGTH(64)"
  then consider "n < 6" | "6 \<le> n" "n < 12" | "12 \<le> n" "n < 18" | "18 \<le> n" "n < 64" by fastforce
  then show "bit (push_bit 18 (drop_bit 18 (word24 a b c)) OR push_bit 12 (drop_bit 12 (word24 a b c) AND mask 6)
     OR push_bit 6 (drop_bit 6 (word24 a b c) AND mask 6) OR word24 a b c AND mask 6) n = bit (word24 a b c) n"
    by cases (auto simp: bit_simps)
qed

lemma bytes64:
  "ucast (drop_bit 16 (word24 a b c)) = a" "ucast (drop_bit 8 (word24 a b c)) = b" "ucast (word24 a b c) = c"
  unfolding word24_def by (rule bit_word_eqI; auto simp: bit_simps not_bit_u8)+


lemma bits18: "push_bit 18 (drop_bit 18 (word24 a b c)) OR push_bit 12 (drop_bit 12 (word24 a b c) AND 0x3f) =
    word24 a b c AND NOT (mask 12)"
  unfolding m64
proof (rule bit_word_eqI)
  fix n assume "n < LENGTH(64)"
  then consider "n < 12" | "12 \<le> n" "n < 18" | "18 \<le> n" "n < 64" by fastforce
  then show "bit (push_bit 18 (drop_bit 18 (word24 a b c)) OR push_bit 12 (drop_bit 12 (word24 a b c) AND mask 6)) n
      = bit (word24 a b c AND NOT (mask 12)) n"
    by cases (auto simp: bit_simps)
qed

lemma bits12: "push_bit 18 (drop_bit 18 (word24 a b c)) OR push_bit 12 (drop_bit 12 (word24 a b c) AND 0x3f)
     OR push_bit 6 (drop_bit 6 (word24 a b c) AND 0x3f) = word24 a b c AND NOT (mask 6)"
  unfolding m64
proof (rule bit_word_eqI)
  fix n assume "n < LENGTH(64)"
  then consider "n < 6" | "6 \<le> n" "n < 12" | "12 \<le> n" "n < 18" | "18 \<le> n" "n < 64" by fastforce
  then show "bit (push_bit 18 (drop_bit 18 (word24 a b c)) OR push_bit 12 (drop_bit 12 (word24 a b c) AND mask 6)
     OR push_bit 6 (drop_bit 6 (word24 a b c) AND mask 6)) n = bit (word24 a b c AND NOT (mask 6)) n"
    by cases (auto simp: bit_simps)
qed

lemma bytes_high:
  "ucast (drop_bit 16 (word24 a b c AND NOT (mask 12))) = a" "ucast (drop_bit 16 (word24 a b c AND NOT (mask 6))) = a"
  "ucast (drop_bit 8 (word24 a b c AND NOT (mask 6))) = b"
  unfolding word24_def by (rule bit_word_eqI; auto simp: bit_simps dest: bit_imp_le_length)+

text \<open>The four characters of three bytes, of two and of one.\<close>

definition quad :: "u8 \<Rightarrow> u8 \<Rightarrow> u8 \<Rightarrow> bytes" where
  "quad a b c = [e64 (drop_bit 18 (word24 a b c)), e64 (drop_bit 12 (word24 a b c) AND 0x3f),
     e64 (drop_bit 6 (word24 a b c) AND 0x3f), e64 (word24 a b c AND 0x3f)]"

lemma dec64_char:
  assumes "j < (64 :: u64)"
  shows "dec64_loop lim b24 i out (e64 j # xs) =
     (if i = 0 then dec64_loop lim (push_bit 18 j) 1 out xs
      else if i = 1 then dec64_loop lim (b24 OR push_bit 12 j) 2 out xs
      else if i = 2 then dec64_loop lim (b24 OR push_bit 6 j) 3 out xs
      else if int (length out) + 3 > lim then out
      else dec64_loop lim (b24 OR j) 0 (out @ [ucast (drop_bit 16 (b24 OR j)), ucast (drop_bit 8 (b24 OR j)), ucast (b24 OR j)]) xs)"
  using value64 [OF assms] by (simp add: Let_def)

lemma dec64_sign: "dec64_loop lim b24 i out (61 # xs) = dec64_loop lim b24 i out xs"
  using t64d_sign by simp

declare dec64_loop.simps(2) [simp del]

lemma dec64_quad:
  assumes "int (length out) + 3 \<le> lim"
  shows "dec64_loop lim b24 0 out (quad a b c @ xs) = dec64_loop lim (word24 a b c) 0 (out @ [a, b, c]) xs"
proof -
  have "dec64_loop lim b24 0 out ([e64 i, e64 j, e64 k, e64 l] @ xs) =
      (let w = push_bit 18 i OR push_bit 12 j OR push_bit 6 k OR l
       in dec64_loop lim w 0 (out @ [ucast (drop_bit 16 w), ucast (drop_bit 8 w), ucast w]) xs)"
    if "i < 64" "j < 64" "k < 64" "l < 64" for i j k l
    using that assms by (simp add: dec64_char Let_def or.assoc)
  note this [OF pieces64(1) [of a b c] pieces64(2) [of a b c] pieces64(3) [of a b c] pieces64(4) [of a b c], unfolded join64]
  then show ?thesis by (simp only: quad_def Let_def bytes64)
qed

lemma dec64_two:
  assumes "int (length out) + 2 \<le> lim"
  shows "dec64_loop lim b24 0 out [e64 (drop_bit 18 (word24 a b 0)), e64 (drop_bit 12 (word24 a b 0) AND 0x3f),
       e64 (drop_bit 6 (word24 a b 0) AND 0x3f), 61] = out @ [a, b]"
proof -
  have "dec64_loop lim b24 0 out [e64 i, e64 j, e64 k, 61] =
      (let w = push_bit 18 i OR push_bit 12 j OR push_bit 6 k in out @ [ucast (drop_bit 16 w), ucast (drop_bit 8 w)])"
    if "i < 64" "j < 64" "k < 64" for i j k
    using that assms by (simp add: dec64_char dec64_sign dec64_tail_def Let_def or.assoc)
  note this [OF pieces64(1) [of a b 0] pieces64(2) [of a b 0] pieces64(3) [of a b 0], unfolded bits12]
  then show ?thesis by (simp only: Let_def bytes_high)
qed

lemma dec64_one:
  assumes "int (length out) + 1 \<le> lim"
  shows "dec64_loop lim b24 0 out [e64 (drop_bit 18 (word24 a 0 0)), e64 (drop_bit 12 (word24 a 0 0) AND 0x3f), 61, 61] = out @ [a]"
proof -
  have "dec64_loop lim b24 0 out [e64 i, e64 j, 61, 61] =
      (let w = push_bit 18 i OR push_bit 12 j in out @ [ucast (drop_bit 16 w)])" if "i < 64" "j < 64" for i j
    using that assms by (simp add: dec64_char dec64_sign dec64_tail_def Let_def or.assoc)
  note this [OF pieces64(1) [of a 0 0] pieces64(2) [of a 0 0], unfolded bits18]
  then show ?thesis by (simp only: Let_def bytes_high)
qed

text \<open>Its encoding, where there is room for all of it.\<close>

fun text64 :: "bytes \<Rightarrow> bytes" where
  "text64 (a # b # c # xs) = quad a b c @ text64 xs"
| "text64 [a, b] = [e64 (drop_bit 18 (word24 a b 0)), e64 (drop_bit 12 (word24 a b 0) AND 0x3f),
     e64 (drop_bit 6 (word24 a b 0) AND 0x3f), 61]"
| "text64 [a] = [e64 (drop_bit 18 (word24 a 0 0)), e64 (drop_bit 12 (word24 a 0 0) AND 0x3f), 61, 61]"
| "text64 [] = []"

lemma length_text64: "length (text64 xs) = 4 * ((length xs + 2) div 3)"
proof (induction xs rule: text64.induct)
  case (1 a b c xs)
  have "(length xs + 5) div 3 = (length xs + 2) div 3 + 1" using div_add_self2 [of 3 "length xs + 2"] by simp
  then show ?case using 1 by (simp add: quad_def add.commute)
qed simp_all

lemma enc64_loop_all: "int (length out + length (text64 xs)) < lim \<Longrightarrow> enc64_loop lim out xs = out @ text64 xs"
  by (induction xs arbitrary: out rule: text64.induct) (simp_all add: quad_def word24_def enc64_tail_def Let_def)

lemma dec64_loop_all: "int (length out + length xs) \<le> lim \<Longrightarrow> dec64_loop lim b24 0 out (text64 xs) = out @ xs"
  by (induction xs arbitrary: out b24 rule: text64.induct) (simp_all add: dec64_quad dec64_two dec64_one dec64_tail_def)

lemma dec64_loop_skip: "dec64_loop lim b24 i out (filter (\<lambda>x. t64d ! unat x \<noteq> INVAL) xs) = dec64_loop lim b24 i out xs"
  by (induction xs arbitrary: b24 i out) (simp_all add: dec64_loop.simps(2) Let_def)


section \<open>Round trips\<close>

text \<open>
  Encoding in base 16 or 64 and decoding gives the bytes back. The encoding, with its NUL, fits the
  buffer; a decoder with room for the bytes reads it back exactly, also when characters that are no
  digits were put anywhere in between, line breaks for example.
\<close>

theorem base16_64_roundtrip:
  assumes "2 * int (length xs) < lim" and "4 * int ((length xs + 2) div 3) < lim'" and "int (length xs) \<le> m"
    and "filter (\<lambda>x. hexdigit x \<noteq> None) t = filter (\<lambda>x. hexdigit x \<noteq> None) (enc16 lim xs)"
    and "filter (\<lambda>x. t64d ! unat x \<noteq> INVAL) u = filter (\<lambda>x. t64d ! unat x \<noteq> INVAL) (enc64 lim' xs)"
  shows "length (enc16 lim xs) = 2 * length xs \<and> dec16 m t = xs
    \<and> length (enc64 lim' xs) = 4 * ((length xs + 2) div 3) \<and> dec64 m u = xs"
proof -
  have e: "enc16 lim xs = concat (map hex2 xs)" using enc16_loop_all [of "[]" xs lim] assms(1) by (simp add: enc16_def)
  have "length (concat (map hex2 xs)) = 2 * length xs" by (induction xs) (simp_all add: hex2_def)
  moreover have "dec16 m t = dec16_loop m 0 0 [] (concat (map hex2 xs))"
    using dec16_loop_skip [of m 0 0 "[]" t] assms(4) by (simp only: dec16_def e hex2_valid)
  moreover have f: "enc64 lim' xs = text64 xs" using enc64_loop_all [of "[]" xs lim'] assms(2) by (simp add: enc64_def length_text64)
  moreover have "dec64 m u = dec64 m (text64 xs)"
    using dec64_loop_skip [of m 0 0 "[]" u] dec64_loop_skip [of m 0 0 "[]" "text64 xs"] assms(5) f by (simp add: dec64_def)
  ultimately show ?thesis
    using dec16_loop_hex2 [of "[]" xs m] dec64_loop_all [of "[]" xs m 0] assms(3) e by (simp add: dec64_def length_text64)
qed

theorem base16_64_roundtrip_witness:
  "dec16 3 [48, 49, 10, 70, 70, 32, 51, 48] = [1, 255, 48] \<and> dec64 3 [65, 102, 10, 56, 119] = [1, 255, 48]"
proof -
  have f: "filter (\<lambda>x. hexdigit x \<noteq> None) [48, 49, 10, 70, 70, 32, 51, 48] = filter (\<lambda>x. hexdigit x \<noteq> None) (enc16 7 [1, 255, 48])"
    "filter (\<lambda>x. t64d ! unat x \<noteq> INVAL) [65, 102, 10, 56, 119] = filter (\<lambda>x. t64d ! unat x \<noteq> INVAL) (enc64 5 [1, 255, 48])"
    by code_simp+
  show ?thesis using base16_64_roundtrip [OF _ _ _ f, of 3] by simp
qed

end
