(* ===== verification/Numbers.thy ===== *)
theory Numbers
  imports Paths
begin

text \<open>
  Reading numbers: \<open>strtoll\<close> and \<open>strtoull\<close> of lib9/strtoll.c and lib9/strtoull.c. A \<open>vlong\<close> or \<open>uvlong\<close> is a
  64-bit word and wraps (for the signed one C leaves that open); the result is the value and \<open>*endptr\<close> as an
  offset of the string.
\<close>

section \<open>The routines\<close>

definition isspace :: "u8 \<Rightarrow> bool" where
  "isspace c \<longleftrightarrow> c = 32 \<or> c = 9 \<or> c = 10 \<or> c = 12 \<or> c = 13 \<or> c = 11"

text \<open>The offset behind the white space.\<close>

definition skipspace :: "bytes \<Rightarrow> nat" where
  "skipspace s = length (takeWhile isspace s)"

text \<open>\<open>if(*p=='-' || *p=='+') if(*p++ == '-') neg = 1;\<close>\<close>

definition getsign :: "bytes \<Rightarrow> nat \<Rightarrow> bool \<times> nat" where
  "getsign s p = (if at s p = 45 \<or> at s p = 43 then (at s p = 45, p + 1) else (False, p))"

text \<open>The base and the offset behind its prefix; \<open>None\<close> is the \<open>goto Return\<close> for a bad base.\<close>

definition getbase :: "bytes \<Rightarrow> nat \<Rightarrow> int \<Rightarrow> (int \<times> nat) option" where
  "getbase s p base =
     (let x = at s (p + 1) = 120 \<or> at s (p + 1) = 88 in
      if base = 0 then
        (if at s p \<noteq> 48 then Some (10, p) else if x then Some (16, p + 2) else Some (8, p))
      else if base = 16 \<and> at s p = 48 then (if x then Some (16, p + 2) else Some (16, p))
      else if base < 0 \<or> 36 < base then None
      else Some (base, p))"

definition digitval :: "int \<Rightarrow> u8 \<Rightarrow> int" where
  "digitval base c =
     (if 48 \<le> c \<and> c \<le> 57 then uint c - 48
      else if 97 \<le> c \<and> c \<le> 122 then uint c - 97 + 10
      else if 65 \<le> c \<and> c \<le> 90 then uint c - 65 + 10
      else base)"

text \<open>The digits from an offset on; the NUL at the end of the string is none.\<close>

definition digits :: "int \<Rightarrow> bytes \<Rightarrow> nat \<Rightarrow> bytes" where
  "digits base s p = takeWhile (\<lambda>c. digitval base c < base) (drop p s)"

text \<open>The loop of \<open>strtoll\<close> over the digits.\<close>

fun ll_loop :: "int \<Rightarrow> u64 \<Rightarrow> bytes \<Rightarrow> u64" where
  "ll_loop base n [] = n"
| "ll_loop base n (c # cs) = ll_loop base (n * word_of_int base + word_of_int (digitval base c)) cs"

definition strtoll :: "bytes \<Rightarrow> int \<Rightarrow> u64 \<times> nat" where
  "strtoll s base =
     (let (neg, p) = getsign s (skipspace s) in
      case getbase s p base of
        None \<Rightarrow> (0, 0)
      | Some (base, p) \<Rightarrow>
          (let ds = digits base s p; n = ll_loop base 0 ds
           in (if neg then - n else n, if ds = [] then 0 else p + length ds)))"

definition UVLONG_MAX :: u64 where "UVLONG_MAX = push_bit 63 1"

text \<open>The loop of \<open>strtoull\<close>, with its test for overflow.\<close>

fun ull_loop :: "int \<Rightarrow> u64 \<Rightarrow> u64 \<Rightarrow> bool \<Rightarrow> bytes \<Rightarrow> u64 \<times> bool" where
  "ull_loop base m n ovfl [] = (n, ovfl)"
| "ull_loop base m n ovfl (c # cs) =
     (let ovfl = (if n > m then True else ovfl);
          nn = n * word_of_int base + word_of_int (digitval base c);
          ovfl = (if nn < n then True else ovfl)
      in ull_loop base m nn ovfl cs)"

definition strtoull :: "bytes \<Rightarrow> int \<Rightarrow> u64 \<times> nat" where
  "strtoull s base =
     (let (neg, p) = getsign s (skipspace s) in
      case getbase s p base of
        None \<Rightarrow> (0, 0)
      | Some (base, p) \<Rightarrow>
          (let ds = digits base s p;
               (n, ovfl) = ull_loop base (UVLONG_MAX div word_of_int base) 0 False ds;
               e = (if ds = [] then 0 else p + length ds)
           in if ovfl then (UVLONG_MAX, e) else if neg then (- n, e) else (n, e)))"

section \<open>What they compute\<close>

text \<open>The value of digits, with the value of those before them.\<close>

fun numval :: "int \<Rightarrow> int \<Rightarrow> bytes \<Rightarrow> int" where
  "numval base n [] = n"
| "numval base n (c # cs) = numval base (n * base + digitval base c) cs"

lemma ll_loop_numval: "ll_loop base (word_of_int n) cs = word_of_int (numval base n cs)"
  by (induction cs arbitrary: n) (simp_all only: ll_loop.simps numval.simps of_int_add [symmetric] of_int_mult [symmetric])

lemma numval_mono: "2 \<le> base \<Longrightarrow> 0 \<le> n \<Longrightarrow> \<forall>c\<in>set cs. 0 \<le> digitval base c \<Longrightarrow> n \<le> numval base n cs"
proof (induction cs arbitrary: n)
  case (Cons c cs)
  have "n * 1 \<le> n * base" using Cons.prems(1,2) by (intro mult_left_mono) auto
  then have "n \<le> n * base + digitval base c" using Cons.prems(3) by auto
  also have "\<dots> \<le> numval base \<dots> cs" using Cons calculation by (intro Cons.IH) auto
  finally show ?case by simp
qed simp

lemma digitval_nonneg: "0 \<le> base \<Longrightarrow> 0 \<le> digitval base c"
proof -
  assume b: "0 \<le> base"
  have "48 \<le> c \<Longrightarrow> 48 \<le> uint c" "97 \<le> c \<Longrightarrow> 97 \<le> uint c" "65 \<le> c \<Longrightarrow> 65 \<le> uint c" by (simp_all add: word_le_def)
  then show ?thesis using b by (auto simp: digitval_def)
qed

text \<open>Once over the limit the flag stays set.\<close>

lemma ull_sticky: "snd (ull_loop base m n True cs)"
  by (induction cs arbitrary: n) (simp_all add: Let_def)

lemma uint_exact: "0 \<le> N \<Longrightarrow> N < 2 ^ 64 \<Longrightarrow> uint (word_of_int N :: u64) = N"
  by (simp add: uint_word_of_int)

lemma limit: "2 \<le> base \<Longrightarrow> base \<le> 36 \<Longrightarrow> uint (UVLONG_MAX div word_of_int base :: u64) = 2 ^ 63 div base"
proof -
  assume b: "2 \<le> base" "base \<le> 36"
  have "uint UVLONG_MAX = 2 ^ 63" by (simp add: UVLONG_MAX_def)
  then show ?thesis using b by (simp add: uint_div uint_exact)
qed

lemma numval_div:
  "2 \<le> base \<Longrightarrow> 0 \<le> n \<Longrightarrow> \<forall>c\<in>set cs. digitval base c < base \<Longrightarrow> cs \<noteq> [] \<Longrightarrow> n \<le> numval base n cs div base"
proof (induction cs arbitrary: n)
  case (Cons c cs)
  have v: "0 \<le> digitval base c" "digitval base c < base" using Cons.prems(1,3) digitval_nonneg [of base c] by auto
  have d: "(n * base + digitval base c) div base = n" using v Cons.prems(1) by simp
  have "n * 1 \<le> n * base" using Cons.prems(1,2) by (intro mult_left_mono) auto
  then have n: "n \<le> n * base + digitval base c" "0 \<le> n * base + digitval base c" using v Cons.prems(2) by auto
  show ?case
  proof (cases "cs = []")
    case True
    then show ?thesis using d by simp
  next
    case False
    then have "n * base + digitval base c \<le> numval base (n * base + digitval base c) cs div base"
      using Cons.prems n by (intro Cons.IH) auto
    then show ?thesis using n by simp
  qed
qed simp

lemma ull_loop_ok:
  assumes "2 \<le> base" "base \<le> 36" "\<forall>c\<in>set cs. digitval base c < base" "0 \<le> N" "N < 2 ^ 64" "cs \<noteq> []"
  shows "snd (ull_loop base (UVLONG_MAX div word_of_int base) (word_of_int N) False cs) \<longleftrightarrow> 2 ^ 63 div base < numval base N cs div base"
    and "numval base N cs div base \<le> 2 ^ 63 div base \<Longrightarrow>
      fst (ull_loop base (UVLONG_MAX div word_of_int base) (word_of_int N) False cs) = word_of_int (numval base N cs)"
proof -
  let ?m = "UVLONG_MAX div word_of_int base :: u64"
  have "(snd (ull_loop base ?m (word_of_int N) False cs) \<longleftrightarrow> 2 ^ 63 div base < numval base N cs div base) \<and>
    (numval base N cs div base \<le> 2 ^ 63 div base \<longrightarrow> fst (ull_loop base ?m (word_of_int N) False cs) = word_of_int (numval base N cs))"
    using assms(3-6)
  proof (induction cs arbitrary: N)
    case (Cons c cs)
    let ?v = "digitval base c" and ?N = "N * base + digitval base c"
    have v: "0 \<le> ?v" "?v < base" using Cons.prems(1) assms(1) digitval_nonneg [of base c] by auto
    have gt: "?m < word_of_int N \<longleftrightarrow> 2 ^ 63 div base < N"
      using limit [OF assms(1,2)] uint_exact [OF Cons.prems(2,3)] by (simp add: word_less_def)
    show ?case
    proof (cases "2 ^ 63 div base < N")
      case True
      have "N \<le> numval base N (c # cs) div base"
        using numval_div [OF assms(1) Cons.prems(2,1,4)] .
      then show ?thesis using True gt ull_sticky by (simp add: Let_def)
    next
      case False
      have "N * base \<le> 2 ^ 63 div base * base" using False assms(1) by (intro mult_right_mono) auto
      also have "\<dots> \<le> 2 ^ 63" by (metis mult.commute mult_div_mod_eq add.commute add_le_same_cancel1 le_add_same_cancel1 pos_mod_sign assms(1) le_less_trans less_le_trans zero_less_numeral linorder_not_le)
      finally have N: "?N < 2 ^ 64" "0 \<le> ?N" using v assms(1,2) Cons.prems(2) by auto
      have "N * 1 \<le> N * base" using assms(1) Cons.prems(2) by (intro mult_left_mono) auto
      then have le: "N \<le> ?N" using v by simp
      have w: "word_of_int N * word_of_int base + word_of_int ?v = (word_of_int ?N :: u64)" by simp
      have lt: "\<not> (word_of_int ?N :: u64) < word_of_int N"
        using le uint_exact [OF Cons.prems(2,3)] uint_exact [OF N(2,1)] by (simp only: word_less_def)
      have step: "ull_loop base ?m (word_of_int N) False (c # cs) = ull_loop base ?m (word_of_int ?N) False cs"
        using False gt lt by (simp only: ull_loop.simps Let_def w if_False)
      show ?thesis
      proof (cases "cs = []")
        case True
        have "?N div base = N" using v assms(1) by simp
        then show ?thesis using step True False by simp
      next
        case False
        then show ?thesis using step Cons.IH [of ?N] Cons.prems(1) N by simp
      qed
    qed
  qed simp
  then show "snd (ull_loop base ?m (word_of_int N) False cs) \<longleftrightarrow> 2 ^ 63 div base < numval base N cs div base"
    "numval base N cs div base \<le> 2 ^ 63 div base \<Longrightarrow>
      fst (ull_loop base ?m (word_of_int N) False cs) = word_of_int (numval base N cs)" by blast+
qed

lemma digit_char:
  assumes "digitval base c < base"
  shows "\<not> isspace c" "c \<noteq> 43" "c \<noteq> 45" "c \<noteq> 0"
proof -
  have "48 \<le> c" using assms by (auto simp: digitval_def word_le_def split: if_splits)
  then show "\<not> isspace c" "c \<noteq> 43" "c \<noteq> 45" "c \<noteq> 0" by (auto simp: isspace_def word_le_def)
qed

lemma x_value: "digitval 16 120 = 33" "digitval 16 88 = 33"
  by (simp_all add: digitval_def)

text \<open>White space, an optional sign, digits and whatever follows, taken apart.\<close>

lemma number_parts:
  fixes ws sg ds rest :: bytes
  defines "s \<equiv> ws @ sg @ ds @ rest"
  assumes ws: "\<forall>c\<in>set ws. isspace c" and sg: "sg \<in> {[], [43], [45]}" and ds: "ds \<noteq> []" "\<forall>c\<in>set ds. digitval base c < base"
    and rest: "rest = [] \<or> base \<le> digitval base (hd rest)" and base: "2 \<le> base" "base \<le> 36"
    and x: "base = 16 \<and> ds = [48] \<longrightarrow> rest = [] \<or> hd rest \<notin> {120, 88}"
  shows "getsign s (skipspace s) = (sg = [45], length ws + length sg)"
    and "getbase s (length ws + length sg) base = Some (base, length ws + length sg)"
    and "digits base s (length ws + length sg) = ds"
proof -
  obtain d ds' where d: "ds = d # ds'" using ds(1) by (cases ds) auto
  note c = digit_char [of base d]
  have "\<not> isspace (hd (sg @ ds @ rest))" using sg ds(2) c by (auto simp: d isspace_def)
  then have sp: "skipspace s = length ws"
    using ws unfolding s_def skipspace_def by (simp add: takeWhile_append2) (metis append.assoc append_is_Nil_conv ds(1) hd_Cons_tl takeWhile.simps(2))
  have a: "at s (length ws) = hd (sg @ ds @ rest)" by (simp add: at_def s_def nth_append d hd_append hd_conv_nth)
  show "getsign s (skipspace s) = (sg = [45], length ws + length sg)"
    using sg ds(2) c unfolding sp getsign_def a by (auto simp: d)
  have b: "at s (length ws + length sg) = d" by (simp add: at_def s_def nth_append d)
  have n: "at s (Suc (length ws + length sg)) = (if ds' \<noteq> [] then hd ds' else if rest \<noteq> [] then hd rest else 0)"
    by (simp add: at_def s_def nth_append d hd_conv_nth)
  have "\<not> (at s (Suc (length ws + length sg)) = 120 \<or> at s (Suc (length ws + length sg)) = 88)" if "base = 16" "d = 48"
  proof (cases ds')
    case Nil
    then show ?thesis using x that d n by auto
  next
    case (Cons e es)
    have "digitval 16 e < 16" using ds(2) d Cons that by simp
    then show ?thesis using n Cons x_value by auto
  qed
  then show "getbase s (length ws + length sg) base = Some (base, length ws + length sg)"
    using base by (auto simp: getbase_def b Let_def)
  show "digits base s (length ws + length sg) = ds"
    using ds(2) rest by (cases rest) (auto simp: digits_def s_def takeWhile_append2 takeWhile_eq_all_conv)
qed

text \<open>
  C37. \<open>strtoll\<close> and \<open>strtoull\<close> read exactly the longest run of digits of the base behind white space and
  a sign, and return its value and the place behind it. \<open>strtoull\<close> returns 2 to the 63 once the digits but the last
  exceed 2 to the 63 divided by the base, so that the upper half of the values a \<open>uvlong\<close> has, which it could
  hold, is reported as an overflow; a value below is exact. \<open>strtoll\<close> has no test and wraps.
\<close>

theorem numbers_read:
  assumes "\<forall>c\<in>set ws. isspace c" and "sg \<in> {[], [43], [45]}" and "ds \<noteq> []" and "\<forall>c\<in>set ds. digitval base c < base"
    and "rest = [] \<or> base \<le> digitval base (hd rest)" and "2 \<le> base" and "base \<le> 36"
    and "base = 16 \<and> ds = [48] \<longrightarrow> rest = [] \<or> hd rest \<notin> {120, 88}"
  shows "strtoull (ws @ sg @ ds @ rest) base =
      (if 2 ^ 63 div base < numval base 0 ds div base then UVLONG_MAX
       else word_of_int (if sg = [45] then - numval base 0 ds else numval base 0 ds), length ws + length sg + length ds)
    \<and> strtoll (ws @ sg @ ds @ rest) base =
      (word_of_int (if sg = [45] then - numval base 0 ds else numval base 0 ds), length ws + length sg + length ds)"
proof -
  note n = number_parts [OF assms(1-8)]
  have l: "ll_loop base 0 ds = word_of_int (numval base 0 ds)" using ll_loop_numval [of base 0 ds] by simp
  obtain v f where u: "ull_loop base (UVLONG_MAX div word_of_int base) 0 False ds = (v, f)" by fastforce
  have "f \<longleftrightarrow> 2 ^ 63 div base < numval base 0 ds div base" "\<not> f \<Longrightarrow> v = word_of_int (numval base 0 ds)"
    using ull_loop_ok [of base ds 0] assms(3,4,6,7) by (auto simp: u)
  then show ?thesis
    by (simp only: strtoull_def strtoll_def n Let_def prod.case option.case l u) (auto simp: assms(3))
qed

theorem numbers_read_witness:
  "strtoull [32, 45, 52, 50, 46] 10 = (- 42, 4) \<and> strtoll [32, 45, 52, 50, 46] 10 = (- 42, 4)
   \<and> strtoull [49,56,52,52,54,55,52,52,48,55,51,55,48,57,53,53,49,54,49,53] 10 = (UVLONG_MAX, 20)"
  using numbers_read [of "[32]" "[45]" "[52, 50]" 10 "[46]"]
    numbers_read [of "[]" "[]" "[49,56,52,52,54,55,52,52,48,55,51,55,48,57,53,53,49,54,49,53]" 10 "[]"]
  by (simp add: isspace_def digitval_def)

end
