(* ===== verification/NamecAcc.thy ===== *)
theory NamecAcc
  imports Namec PathProps WalkProps
begin

text \<open>
  What \<open>namec\<close> of emu/port/chan.c does to the books: on every way through it, the channel it hands out is
  counted once and held by nobody else, and on every error what it had taken is given back. The way
  between is the walk (theory WalkRoot); here are its starting point, the label \<open>Open\<close> and the
  attempt to create. \<open>own H s c\<close> is the state of a channel that is ours alone.
\<close>

unbundle bit_operations_syntax

section \<open>Name spaces\<close>

definition rooted :: "'d kst \<Rightarrow> nat \<Rightarrow> bool" where
  "rooted s c \<longleftrightarrow> (\<exists>root d. origin s c root d)"

definition rooted_opt :: "'d kst \<Rightarrow> nat option \<Rightarrow> bool" where
  "rooted_opt s x \<longleftrightarrow> (case x of None \<Rightarrow> False | Some c \<Rightarrow> rooted s c)"

text \<open>A process group whose tables are in order and whose directories are set and named.\<close>

definition ns_ok :: "nat \<Rightarrow> 'd kst \<Rightarrow> bool" where
  "ns_ok pg s \<longleftrightarrow> live_pgrp s pg \<and> linked_ok s \<and> rooted_opt s (pg_dot (pgrps s ! pg)) \<and> rooted_opt s (pg_slash (pgrps s ! pg))"

lemma ns_okD:
  assumes "ns_ok pg s" shows "live_pgrp s pg" "linked_ok s"
  using assms by (simp_all add: ns_ok_def)

lemma rooted_steady:
  assumes "steady H s s'" and "c \<in># anchors H s" and "rooted s c"
  shows "rooted s' c"
proof -
  note st = steady_anchorD [OF assms(1,2)]
  obtain root d where o: "origin s c root d" using assms(3) by (auto simp: rooted_def)
  then obtain n where n: "c_name (chans s ! c) = Some n" by (auto simp: origin_def split: option.splits)
  have p: "place (chans s' ! c) = place (chans s ! c)" by (rule place_ident [OF st(1)])
  have "place (chans s' ! r) = place (chans s ! r)" if "n_mtpt (cnames s ! n) = Some r # L" for r L
    using st(5) [OF n, of r] that by (intro place_ident) (simp add: nameC_def opts_ms_def)
  then have "pinned s n root d \<Longrightarrow> pinned s' n root d" using st(4) [OF n] by (fastforce simp: pinned_def)
  then have "origin s' c root d" using o n st(2) st(4) [OF n] p by (auto simp: origin_def split: if_splits)
  then show ?thesis unfolding rooted_def by blast
qed

lemma pgrp_anchors:
  assumes "live_pgrp s pg" and "pg_dot (pgrps s ! pg) = Some c \<or> pg_slash (pgrps s ! pg) = Some c"
  shows "c \<in># anchors H s"
proof -
  have "c \<in># pgrpC (pgrps s ! pg)" using assms by (auto simp: pgrpC_def live_pgrp_def)
  moreover have "pgrpC (pgrps s ! pg) \<subseteq># tot pgrpC (pgrps s)" using assms(1) by (intro tot_in) (simp add: live_pgrp_def)
  ultimately show ?thesis by (auto simp: anchors_def dest: mset_subset_eqD)
qed

lemma ns_ok_steady:
  assumes "steady H s s'" and "counted s H'" and "ns_ok pg s" shows "ns_ok pg s'"
proof -
  note w = ns_okD [OF assms(3)]
  have "rooted_opt s' x" if "rooted_opt s x" "x = pg_dot (pgrps s ! pg) \<or> x = pg_slash (pgrps s ! pg)" for x
    using that rooted_steady [OF assms(1) pgrp_anchors [OF w(1)]] by (auto simp: rooted_opt_def split: option.splits)
  then show ?thesis
    using assms(3) w live_steady [OF assms(1)] linked_ok_steady [OF assms(1,2)] steadyD(1) [OF assms(1)]
    by (simp add: ns_ok_def)
qed

section \<open>A channel of our own\<close>

definition own :: "held \<Rightarrow> 'd kst \<Rightarrow> nat \<Rightarrow> bool" where
  "own H s c \<longleftrightarrow> counted s (addC {#c#} H) \<and> c \<notin># ownC s + hC H"

text \<open>What a step does to it: it stays ours, and what \<open>H\<close> holds is left alone.\<close>

definition own_step :: "held \<Rightarrow> 'd kst \<Rightarrow> nat \<Rightarrow> 'd kst \<Rightarrow> bool" where
  "own_step H s c s' \<longleftrightarrow> own H s' c \<and> steady H s s'"

lemma ownD:
  assumes "own H s c"
  shows "counted s (addC {#c#} H)" "c \<notin># ownC s + hC H" "c < length (chans s)" "\<not> is_free (chans s ! c)" "c \<notin># nsC s + hC H"
  using assms counted_liveC [of s "addC {#c#} H" c] nsC_own [of c s] by (auto simp: own_def)

lemma own_copy_step:
  "own_copy H s c s' nc \<Longrightarrow> own_step H s nc s' \<and> \<not> is_open (chans s' ! nc) \<and> c_umh (chans s' ! nc) = None
     \<and> c_name (chans s' ! nc) = c_name (chans s ! c) \<and> ident (chans s' ! nc) = ident (chans s ! c)"
  by (simp add: own_copy_def own_step_def own_def)

lemma own_step_refl: "own H s c \<Longrightarrow> own_step H s c s"
  by (simp add: own_step_def)

lemma own_step_trans: "steady H s t \<Longrightarrow> own_step H t c u \<Longrightarrow> own_step H s c u"
  by (auto simp: own_step_def intro: steady_trans)

lemma own_stepD: "own_step H s c t \<Longrightarrow> own H t c" "own_step H s c t \<Longrightarrow> steady H s t"
  by (simp_all add: own_step_def)

text \<open>Fields that hold no reference.\<close>

lemma own_fields:
  assumes "own H s c"
    and "let x = chans s ! c; y = f x in c_ref y = c_ref x \<and> is_free y = is_free x \<and> c_umh y = c_umh x
      \<and> c_umc y = c_umc x \<and> c_mchan y = c_mchan x \<and> c_name y = c_name x"
  shows "own_step H s c (upd_chan c f s)"
proof -
  note o = ownD [OF assms(1)]
  have "counted (upd_chan c f s) (addC {#c#} H)"
    by (rule upd_chan_counted [OF o(1) assms(2)]) (use o(5) in simp)
  moreover have "ownC (upd_chan c f s) = ownC s"
    by (rule own_upd_chan_same(1)) (use assms(2) in \<open>simp_all add: chanC_def chanN_def chanM_def Let_def\<close>)
  moreover have "steady H s (upd_chan c f s)"
    by (rule steady_fresh [OF o(1) _ _ o(5)]) (simp_all add: upd_chan_def)
  ultimately show ?thesis using o(2) by (simp add: own_step_def own_def)
qed

text \<open>A reference to a mount head given to the channel, or let go.\<close>

lemma own_umh:
  assumes "own (addM (opt_ms m) H) s c" and "c_umh (chans s ! c) = None"
  shows "own_step H s c (upd_chan c (\<lambda>x. x\<lparr>c_umh := m\<rparr>) s)"
proof -
  note o = ownD [OF assms(1)]
  have "counted (upd_chan c (\<lambda>x. x\<lparr>c_umh := m\<rparr>) s) (addC {#c#} H)"
    using set_umh_counted [of s m "addC {#c#} H" c] o(1,3,4) assms(2) by (simp add: add_comm)
  moreover have "ownC (upd_chan c (\<lambda>x. x\<lparr>c_umh := m\<rparr>) s) = ownC s"
    by (simp add: ownC_def upd_chan_def tot_upd_same chanC_def is_free_def nsC_def)
  moreover have "steady H s (upd_chan c (\<lambda>x. x\<lparr>c_umh := m\<rparr>) s)"
    by (rule steady_fresh [OF o(1) _ _ o(5) [simplified add_sel]]) (simp_all add: upd_chan_def)
  ultimately show ?thesis using o(2) by (simp add: own_step_def own_def)
qed

lemma own_kept:
  assumes "kept s s'" and "own H0 s c" and "hC H0 = hC H + X" and "counted s' (addC {#c#} H)" and "steady H s s'"
  shows "own_step H s c s'" and "c_flag (chans s' ! c) = c_flag (chans s ! c)"
    and "c_name (chans s' ! c) = c_name (chans s ! c)" and "c_umh (chans s' ! c) = c_umh (chans s ! c)"
    and "c_mflag (chans s' ! c) = c_mflag (chans s ! c)"
proof -
  have "c \<notin># ownC s'" using kept_notin(1) [OF assms(1)] ownD(2) [OF assms(2)] by simp
  then show "own_step H s c s'" using assms(3-5) ownD(2) [OF assms(2)] by (simp add: own_step_def own_def)
  have f: "\<not> is_free (chans s' ! c)" using counted_liveC [OF assms(4), of c] by simp
  show "c_flag (chans s' ! c) = c_flag (chans s ! c)" "c_name (chans s' ! c) = c_name (chans s ! c)"
    "c_umh (chans s' ! c) = c_umh (chans s ! c)"
    using keptD(15,12,13) [OF assms(1) f] by simp_all
  show "c_mflag (chans s' ! c) = c_mflag (chans s ! c)" by (rule keptD(8) [OF assms(1)])
qed

lemma own_putmhead:
  assumes "own (addM (opt_ms m) H) s c"
  shows "own_step H s c (putmhead dev m s)" and "c_flag (chans (putmhead dev m s) ! c) = c_flag (chans s ! c)"
    and "c_name (chans (putmhead dev m s) ! c) = c_name (chans s ! c)"
proof -
  have a: "counted s (addM (opt_ms m) (addC {#c#} H))" using assms by (simp add: own_def add_comm)
  note k = own_kept [where X = "{#}", OF kept_closes(3) assms _ putmhead_counted [OF a] steady_mono(1) [OF closes_steady(3) [OF a]], of dev]
  show "own_step H s c (putmhead dev m s)" "c_flag (chans (putmhead dev m s) ! c) = c_flag (chans s ! c)"
    "c_name (chans (putmhead dev m s) ! c) = c_name (chans s ! c)"
    using k(1-3) by simp_all
qed

lemma own_cclose:
  assumes "own (addC {#x#} H) s c"
  shows "own_step H s c (cclose dev (Some x) s)" and "c_flag (chans (cclose dev (Some x) s) ! c) = c_flag (chans s ! c)"
    and "c_name (chans (cclose dev (Some x) s) ! c) = c_name (chans s ! c)"
proof -
  have a: "counted s (addC (opt_ms (Some x)) (addC {#c#} H))" using assms by (simp add: own_def add_comm ac_simps)
  note k = own_kept [where X = "{#x#}", OF kept_closes(1) assms _ cclose_counted [OF a] steady_mono(1) [OF closes_steady(1) [OF a]], of dev]
  show "own_step H s c (cclose dev (Some x) s)" "c_flag (chans (cclose dev (Some x) s) ! c) = c_flag (chans s ! c)"
    "c_name (chans (cclose dev (Some x) s) ! c) = c_name (chans s ! c)"
    using k(1-3) by simp_all
qed

lemma own_set_name:
  assumes "own (addN {#n#} H) s c"
  shows "own_step H s c (set_name dev c (Some n) s)"
    and "\<not> is_open (chans s ! c) \<Longrightarrow> \<not> is_open (chans (set_name dev c (Some n) s) ! c)"
    and "c_name (chans (set_name dev c (Some n) s) ! c) = Some n"
    and "c_umh (chans (set_name dev c (Some n) s) ! c) = c_umh (chans s ! c)"
proof -
  note o = ownD [OF assms]
  have "counted s (addN {#n#} (addC {#c#} H))" using o(1) by (simp add: add_comm)
  note k = set_name_ok [OF this, of dev]
  show "own_step H s c (set_name dev c (Some n) s)" "c_name (chans (set_name dev c (Some n) s) ! c) = Some n"
    "\<not> is_open (chans s ! c) \<Longrightarrow> \<not> is_open (chans (set_name dev c (Some n) s) ! c)"
    using k o(2) by (simp_all add: own_step_def own_def)
  have "\<not> is_free (chans (set_name dev c (Some n) s) ! c)" using counted_liveC [OF k(1), of c] o(2) by simp
  then show "c_umh (chans (set_name dev c (Some n) s) ! c) = c_umh (chans s ! c)"
    using keptD(13) [OF kept_closes(2), of dev "c_name (chans s ! c)" "upd_chan c (\<lambda>x. x\<lparr>c_name := Some n\<rparr>) s" c] o(3)
    by (simp add: set_name_def Let_def upd_nth)
qed

section \<open>The starting point\<close>

lemma incref_rooted: "rooted (incref_chan c s) d = rooted s d"
proof -
  have p: "place (chans (incref_chan c s) ! x) = place (chans s ! x)" for x
    by (auto simp: incref_is_bump bump_chan_def upd_chan_def nth_upd_all place_def chan_dev_def)
  have n: "c_name (chans (incref_chan c s) ! x) = c_name (chans s ! x)" "cnames (incref_chan c s) = cnames s" for x
    by (auto simp: incref_is_bump bump_chan_def upd_chan_def nth_upd_all)
  show ?thesis by (simp add: rooted_def origin_def pinned_def p n split: option.split)
qed

text \<open>What a start gives: a channel held, closed, and rooted.\<close>

definition reached :: "held \<Rightarrow> 'd kst \<Rightarrow> nat \<Rightarrow> 'd kst \<Rightarrow> bool" where
  "reached H s c s' \<longleftrightarrow> counted s' (addC {#c#} H) \<and> steady H s s' \<and> \<not> is_open (chans s' ! c) \<and> rooted s' c"

lemma start_dir:
  assumes "counted s H" and "ns_ok pg s" and "pg_dot (pgrps s ! pg) = Some c \<or> pg_slash (pgrps s ! pg) = Some c"
  shows "reached H s c (incref_chan c s)"
proof -
  note a = pgrp_anchors [OF ns_okD(1) [OF assms(2)] assms(3)]
  have n: "c \<in># nsC s" using a [of "H\<lparr>hC := {#}\<rparr>"] by (simp add: anchors_def nsC_def)
  have "rooted s c" using assms(2,3) by (auto simp: ns_ok_def rooted_opt_def)
  moreover have "counted (incref_chan c s) (addC {#c#} H)"
    by (rule incref_chan_counted [OF assms(1)]) (use n in \<open>simp add: nsC_own\<close>)
  ultimately show ?thesis
    using countedD(9) [OF assms(1) n] by (simp add: reached_def incref_rooted) (simp add: incref_is_bump)
qed

lemma devattach_ok:
  assumes "counted s H" and "devattach tc type spec q d s = (c, s')"
  shows "reached H s c s'"
proof -
  obtain s1 where nc: "newchan s = (c, s1)" using assms(2) by (auto simp: devattach_def Let_def split: prod.splits)
  note k = newchan_counted [OF assms(1) nc]
  obtain n s2 where nn: "newcname (35 # runetochar tc @ spec) s1 = (n, s2)" by fastforce
  note m = newname_counted [OF k(1) nn]
  have ch: "chans s2 = chans s1" "ownC s2 = ownC s1" "nsC s2 = nsC s1"
    using nn by (auto simp: newcname_def ownC_def nsC_def nameC_def opts_ms_def)
  have s': "s' = upd_chan c (\<lambda>x. x\<lparr>c_qid := q, c_dev := d, c_type := type, c_name := Some n\<rparr>) s2"
    using assms(2) by (simp add: devattach_def nc nn)
  define s3 where "s3 = upd_chan c (\<lambda>x. x\<lparr>c_name := Some n\<rparr>) s2"
  have l: "c < length (chans s2)" "\<not> is_free (chans s2 ! c)" "c_name (chans s2 ! c) = None" using k(2,4) ch by simp_all
  have c3: "counted s3 (addC {#c#} H)"
    using set_name_field_counted [OF _ l(1,2), of "Some n" "addC {#c#} H"] m(1) l(3) by (simp add: s3_def)
  have "ownC s3 = ownC s2"
    by (simp add: s3_def ownC_def upd_chan_def tot_upd_same chanC_def is_free_def nsC_def)
  then have o: "own H s3 c" using c3 k(3,7) ch by (simp add: own_def)
  have fe: "(\<lambda>x :: chan. x\<lparr>c_qid := q, c_dev := d, c_type := type, c_name := Some n\<rparr>)
      = (\<lambda>x. x\<lparr>c_name := Some n, c_qid := q, c_dev := d, c_type := type\<rparr>)"
    by (rule ext) simp
  have e: "s' = upd_chan c (\<lambda>x. x\<lparr>c_qid := q, c_dev := d, c_type := type\<rparr>) s3"
    using l(1) unfolding s3_def by (subst upd_chan_comp) (simp_all only: s' fe)
  have st: "own_step H s3 c s'" unfolding e by (rule own_fields [OF o]) (simp add: is_free_def Let_def)
  have "steady H s s1" by (rule steady_newchan [OF assms(1) nc])
  moreover have "steady H s1 s2"
    by (rule steady_names [OF k(1), where n = n])
      (use nn m(2) counted_liveN [OF k(1), of n] in \<open>auto simp: newcname_def nth_append\<close>)
  moreover have "c \<notin># nsC s2 + hC H" using k(3,7) ch nsC_own [of c s] by auto
  then have "steady H s2 s3" by (rule steady_fresh [OF m(1), rotated 2]) (simp_all add: s3_def upd_chan_def)
  moreover have "c_name (chans s' ! c) = Some n" "cnames s' = cnames s2" "c_flag (chans s' ! c) = 0"
    using l(1) k(4) ch by (simp_all add: s' upd_nth)
  moreover from this have "origin s' c (place (chans s' ! c)) 0" using m(3) by (simp add: origin_def)
  then have "rooted s' c" unfolding rooted_def by blast
  ultimately show ?thesis
    using st by (simp add: reached_def own_step_def own_def is_open_def) (meson steady_trans)
qed

lemma sharp_split_set: "sharp_split n name = (g, r) \<Longrightarrow> set r \<subseteq> set name"
  by (induction n name arbitrary: g r rule: sharp_split.induct) (fastforce split: if_splits prod.splits)+

lemma namec_start_ok:
  assumes "counted s H" and "ns_ok pg s" and "namec_start dev pg name s = (r, s')" and "0 \<notin> set name"
  shows "r = Inl e \<Longrightarrow> s' = s"
    and "r = Inr (c, rest, nomount) \<Longrightarrow> reached H s c s' \<and> 0 \<notin> set rest"
proof -
  have d: "pg_dot (pgrps s ! pg) \<noteq> None" "pg_slash (pgrps s ! pg) \<noteq> None"
    using assms(2) by (auto simp: ns_ok_def rooted_opt_def split: option.splits)
  show "s' = s" if "r = Inl e"
    using assms(3) d that by (auto simp: namec_start_def Let_def split: if_splits option.splits sum.splits prod.splits)
  show "reached H s c s' \<and> 0 \<notin> set rest" if "r = Inr (c, rest, nomount)"
    using assms(3,4) that d start_dir [OF assms(1,2)] devattach_ok [OF assms(1)]
    by (auto simp: namec_start_def Let_def split: if_splits option.splits sum.splits prod.splits dest!: sharp_split_set)
qed

section \<open>Outcomes\<close>

text \<open>
  \<open>fin H s o op s'\<close>: an outcome as it should be. Without error the channel is ours, and open as \<open>op\<close> says.
  With an error it is still held, for the handler to close; only the failure of a clone on the way
  (\<open>Eclone\<close>, raised where the code has no handler of its own) leaves more behind than that.
\<close>

definition fin :: "held \<Rightarrow> 'd kst \<Rightarrow> outcome \<Rightarrow> bool \<Rightarrow> 'd kst \<Rightarrow> bool" where
  "fin H s out op s' \<longleftrightarrow> steady H s s' \<and>
     (case fst out of
        None \<Rightarrow> own H s' (snd out) \<and> is_open (chans s' ! snd out) = op
      | Some e \<Rightarrow> counted s' (addC {#snd out#} H) \<or>
          e = Eclone \<and> (\<exists>C M N. counted s' (addC C (addM M (addN N (addC {#snd out#} H))))))"

lemma fin_steady: "steady H s t \<Longrightarrow> fin H t out op u \<Longrightarrow> fin H s out op u"
  by (auto simp: fin_def intro: steady_trans)

lemma fin_error: "steady H s s' \<Longrightarrow> counted s' (addC {#c#} H) \<Longrightarrow> fin H s (Some e, c) op s'"
  by (simp add: fin_def)

lemma fin_done: "own_step H s c s' \<Longrightarrow> is_open (chans s' ! c) = op \<Longrightarrow> fin H s (None, c) op s'"
  by (simp add: fin_def own_step_def)

lemma cunique_error: "cunique dev c s = (Inl e, s') \<Longrightarrow> e = Eclone"
  by (auto simp: cunique_def split: if_splits sum.splits prod.splits dest: cclone_error)

lemma walk_raise: "walk dev pg c names nomount s = (Walk_raise e, s') \<Longrightarrow> e = Eclone"
proof -
  have f: "walk_forward dev pg w nhave es nomount type d qids clone s = (Raise e, s') \<Longrightarrow> e = Eclone"
    for w nhave es type d qids clone s s'
    by (auto simp: walk_forward_def walk_next_def walk_stop_def Let_def split: option.splits prod.splits if_splits sum.splits
        dest: cunique_error)
  have "walk_step dev pg nomount nhave es w s = (Raise e, s') \<Longrightarrow> e = Eclone" for nhave es w s s'
    by (auto simp: walk_step_def walk_stop_def walk_dotdot_def walk_next_def Let_def split: option.splits prod.splits if_splits dest: f)
  then have "walk_loop dev pg nomount nhave es w s = (Raise e, s') \<Longrightarrow> e = Eclone" for nhave es w s s'
    by (induction dev pg nomount nhave es w s rule: walk_loop.induct)
      (subst (asm) walk_loop.simps, auto split: if_splits prod.splits stepres.splits)
  then show "walk dev pg c names nomount s = (Walk_raise e, s') \<Longrightarrow> e = Eclone"
    by (auto simp: walk_def Let_def split: option.splits prod.splits stepres.splits sum.splits dest: cunique_error)
qed

text \<open>A channel of the mount table is not open.\<close>

lemma mount_not_open:
  assumes "counted s H0" and "linked_ok s" and "m \<in># links s" and "mh_mount (mheads s ! m) = f # fs" and "steady H s s'"
    and "counted s' H'"
  shows "\<not> is_open (chans s' ! mt_to f)"
proof -
  have "m < length (mheads s)" using linked_live [OF assms(1,3)] by blast
  then have "mh_mount (mheads s' ! m) = f # fs" using steadyD(6) [OF assms(5)] assms(4) by simp
  then show ?thesis using mount_closed [OF assms(6), of m f] assms(3) links_steady [OF assms(5)] by simp
qed

text \<open>Across a mount point, with the name.\<close>

lemma cross_name:
  assumes "counted s (addC {#c#} (addN {#n#} H))" and "\<not> is_open (chans s ! c)" and "ns_ok pg s"
    and "(if nomount then ((False, c, None, Some n), s) else domount dev pg c None (Some n) s) = ((found, d, m, x), s')"
  shows "\<exists>n'. x = Some n' \<and> counted s' (addC {#d#} (addM (opt_ms m) (addN {#n'#} H))) \<and> steady H s s' \<and> \<not> is_open (chans s' ! d)"
proof (cases "nomount \<or> mhead_tdqid pg (chan_type (chans s ! c)) (chan_dev (chans s ! c)) (c_qid (chans s ! c)) s = None")
  case True
  then have "((False, c, None, Some n), s) = ((found, d, m, x), s')" 
    using assms(4) domount_none [of pg s c dev None "Some n"] by (cases nomount) simp_all
  then show ?thesis using assms(1,2) by auto
next
  case False
  then obtain h where h: "mhead_tdqid pg (chan_type (chans s ! c)) (chan_dev (chans s ! c)) (c_qid (chans s ! c)) s = Some h"
    by auto
  note w = ns_okD [OF assms(3)]
  have c: "counted s (addC {#c#} (addM (opt_ms None) (addN {#n#} H)))" using assms(1) by simp
  from domount_name [OF c w h, of dev] obtain f fs n' t where f: "mh_mount (mheads s ! h) = f # fs" "h \<in># links s"
    and dm: "domount dev pg c None (Some n) s = ((True, mt_to f, Some h, Some n'), t)"
    and t: "counted t (addC {#mt_to f#} (addM {#h#} (addN {#n'#} H)))" "steady H s t" by blast
  then show ?thesis using assms(4) False mount_not_open [OF c w(2) f(2,1) t(2,1)] by auto
qed

lemma own_swap: "own (addN a (addM b H)) s c = own (addM b (addN a H)) s c"
  by (simp add: add_comm)

lemma set_mode_open: "c < length (chans s) \<Longrightarrow> is_open (chans (set_mode c qm s) ! c)"
  by (simp add: set_mode_def upd_nth is_open_def COPEN_def word_ao_dist)

lemma open_flags: "is_open x \<Longrightarrow> is_open (x\<lparr>c_flag := c_flag x OR b\<rparr>)"
  by (simp add: is_open_def word_ao_dist or_eq_0_iff)

lemma set_mode_own: "own H s c \<Longrightarrow> own_step H s c (set_mode c qm s)"
  unfolding set_mode_def by (rule own_fields) (simp_all add: is_free_def COPEN_def CFREE_def word_ao_dist Let_def)

lemma set_oflags_own:
  assumes "own H s c"
  shows "own_step H s c (set_oflags c omode s)"
    and "is_open (chans s ! c) \<Longrightarrow> is_open (chans (set_oflags c omode s) ! c)"
    and "c_name (chans (set_oflags c omode s) ! c) = c_name (chans s ! c)"
proof -
  define f :: "chan \<Rightarrow> chan" where "f = (\<lambda>x. if omode AND OCEXEC \<noteq> 0 then x\<lparr>c_flag := c_flag x OR CCEXEC\<rparr> else x)"
  define g :: "chan \<Rightarrow> chan" where "g = (\<lambda>x. if omode AND ORCLOSE \<noteq> 0 then x\<lparr>c_flag := c_flag x OR CRCLOSE\<rparr> else x)"
  have one: "upd_chan c (\<lambda>x. x) s = s" for s :: "'a kst" by (simp add: upd_chan_def)
  have e: "set_oflags c omode s = upd_chan c g (upd_chan c f s)"
    by (simp add: set_oflags_def f_def g_def one Let_def)
  have fl: "is_free (f x) = is_free x" "is_free (g x) = is_free x" for x
    by (simp_all add: f_def g_def is_free_def word_ao_dist CCEXEC_def CRCLOSE_def CFREE_def)
  have sm: "c_ref (f x) = c_ref x" "c_umh (f x) = c_umh x" "c_umc (f x) = c_umc x" "c_mchan (f x) = c_mchan x" "c_name (f x) = c_name x"
    "c_ref (g x) = c_ref x" "c_umh (g x) = c_umh x" "c_umc (g x) = c_umc x" "c_mchan (g x) = c_mchan x" "c_name (g x) = c_name x" for x
    by (simp_all add: f_def g_def)
  have a: "own_step H s c (upd_chan c f s)" by (rule own_fields [OF assms]) (simp add: fl sm)
  then have "own H (upd_chan c f s) c" by (simp add: own_step_def)
  from own_fields [OF this, of g] have "own_step H (upd_chan c f s) c (set_oflags c omode s)" by (simp add: fl sm e)
  then show "own_step H s c (set_oflags c omode s)" using a by (auto simp: own_step_def intro: steady_trans)
  have n: "chans (set_oflags c omode s) ! c = g (f (chans s ! c))" using ownD(3) [OF assms] by (simp add: e upd_nth)
  then show "is_open (chans s ! c) \<Longrightarrow> is_open (chans (set_oflags c omode s) ! c)" by (simp add: f_def g_def open_flags)
  show "c_name (chans (set_oflags c omode s) ! c) = c_name (chans s ! c)" by (simp add: n sm)
qed

lemma open_chan_ok:
  assumes "own (addM (opt_ms m) H) s c" and "c_umh (chans s ! c) = None" and "open_chan dev c m omode s = (out, s')"
  shows "fin H s out True s'"
proof (cases "c_mflag (chans s ! c) AND MREADONLY \<noteq> 0 \<and> mutatingmode omode")
  case True
  then have e: "out = (Some Eperm, c)" "s' = putmhead dev m s" using assms(3) by (auto simp: open_chan_def)
  show ?thesis using own_putmhead(1) [OF assms(1), of dev] by (auto simp: e own_step_def own_def intro: fin_error)
next
  case False
  define t where "t = (case m of None \<Rightarrow> s
      | Some h \<Rightarrow> if mh_mount (the_mhead s h) \<noteq> [] \<and> tl (mh_mount (the_mhead s h)) \<noteq> []
          then upd_chan c (\<lambda>x. x\<lparr>c_umh := m\<rparr>) s else putmhead dev m s)"
  define u where "u = (if omode = OEXEC then upd_chan c (\<lambda>x. x\<lparr>c_flag := c_flag x AND NOT CCACHE\<rparr>) t else t)"
  have e: "(case dopen dev (dst u) (the_chan u c) (omode AND NOT OCEXEC) of
      Inl e \<Rightarrow> ((Some e, c), u) | Inr qm \<Rightarrow> ((None, c), set_oflags c omode (set_mode c qm u))) = (out, s')"
    using assms(3) False unfolding open_chan_def t_def [symmetric] u_def [symmetric] Let_def by auto
  have t: "own_step H s c t"
    using assms(1) own_umh [OF assms(1,2)] own_putmhead(1) [OF assms(1), of dev]
    by (auto simp: t_def own_step_refl split: option.split)
  have "own_step H t c u"
  proof (cases "omode = OEXEC")
    case True
    have "own_step H t c (upd_chan c (\<lambda>x. x\<lparr>c_flag := c_flag x AND NOT CCACHE\<rparr>) t)"
      by (rule own_fields) (use t in \<open>simp_all add: own_step_def is_free_def Let_def CCACHE_def CFREE_def and.assoc\<close>)
    then show ?thesis using True by (simp add: u_def)
  qed (use t in \<open>simp add: u_def own_step_def\<close>)
  then have u: "own_step H s c u" using t by (auto simp: own_step_def intro: steady_trans)
  then have o: "own H u c" by (simp add: own_step_def)
  show ?thesis
  proof (cases "dopen dev (dst u) (the_chan u c) (omode AND NOT OCEXEC)")
    case (Inl x)
    then show ?thesis using e u by (auto simp: own_step_def own_def intro: fin_error)
  next
    case (Inr qm)
    then have r: "out = (None, c)" "s' = set_oflags c omode (set_mode c qm u)" using e by simp_all
    have m: "own_step H u c (set_mode c qm u)" by (rule set_mode_own [OF o])
    then have om: "own H (set_mode c qm u) c" by (simp add: own_step_def)
    have "own_step H s c s'"
      using u m set_oflags_own(1) [OF om, of omode] by (auto simp: own_step_def r intro: steady_trans)
    then show ?thesis
      using set_oflags_own(2) [OF om set_mode_open] ownD(3) [OF o] by (simp add: fin_done r)
  qed
qed

text \<open>The label \<open>Open\<close>: for opening and creating, or to remove, which leaves the channel closed.\<close>

lemma namec_open_ok:
  assumes "counted s (addC {#c#} H)" and "\<not> is_open (chans s ! c)" and "rooted s c" and "ns_ok pg s"
    and "namec_open dev pg amode omode nomount c s = (out, s')"
  shows "fin H s out (amode \<noteq> Aremove) s'"
proof -
  obtain n where n: "c_name (chans s ! c) = Some n"
    using assms(3) by (auto simp: rooted_def origin_def split: option.splits)
  define s1 where "s1 = incref_name n s"
  have "n \<in># ownN s + hN (addC {#c#} H)" using chan_owned(2) [OF assms(1), of c] n by simp
  from incref_name_counted [OF assms(1) this] have c1: "counted s1 (addC {#c#} (addN {#n#} H))"
    by (simp add: s1_def add_comm)
  have st1: "steady K s s1" for K by (simp add: s1_def)
  have o1: "\<not> is_open (chans s1 ! c)" using assms(2) by (simp add: s1_def incref_is_bump)
  obtain found d m x s2 where dm: "(if nomount then ((False, c, None, Some n), s1)
      else domount dev pg c None (Some n) s1) = ((found, d, m, x), s2)" by (metis prod.exhaust)
  from cross_name [OF c1 o1 ns_ok_steady [OF st1 assms(1,4)] dm] obtain n' where
    x: "x = Some n'" and c2: "counted s2 (addC {#d#} (addM (opt_ms m) (addN {#n'#} H)))"
    and st2: "steady H s1 s2" and o2: "\<not> is_open (chans s2 ! d)" by blast
  have st: "steady H s s2" by (rule steady_trans [OF st1 st2])
  obtain r s3 where cu: "cunique dev d s2 = (r, s3)" by fastforce
  show ?thesis
  proof (cases r)
    case (Inl e)
    have "s3 = s2" by (rule cunique_counted(1) [OF c2 o2 cu Inl])
    then have e: "out = (Some e, d)" "s' = putmhead dev m s2"
      using assms(5) dm [unfolded s1_def] cu Inl by (simp_all add: namec_open_def n Let_def)
    have k: "counted s2 (addM (opt_ms m) (addN {#n'#} (addC {#d#} H)))" using c2 by (simp add: add_comm)
    have "counted s' (addC {#} (addM {#} (addN {#n'#} (addC {#d#} H))))"
      using putmhead_counted [OF k, of dev] by (simp add: e)
    then have "\<exists>C M N. counted s' (addC C (addM M (addN N (addC {#d#} H))))" by blast
    moreover have "steady H s s'"
      using steady_trans [OF st] closes_steady(3) [OF k, of dev] by (auto simp: e dest!: steady_mono)
    ultimately show ?thesis using cunique_error [OF cu [unfolded Inl]] by (simp add: fin_def e)
  next
    case (Inr nc)
    note oc = own_copy_step [OF cunique_counted(2) [OF c2 o2 cu Inr]]
    define s4 where "s4 = (if m \<noteq> None then upd_chan nc (\<lambda>x. x\<lparr>c_mflag := mheadflag m s3\<rparr>) s3 else s3)"
    define s5 where "s5 = set_name dev nc (Some n') s4"
    have o3: "own (addM (opt_ms m) (addN {#n'#} H)) s3 nc" using oc by (simp add: own_step_def)
    have "own_step (addM (opt_ms m) (addN {#n'#} H)) s3 nc s4"
      using own_fields [OF o3, of "\<lambda>x. x\<lparr>c_mflag := mheadflag m s3\<rparr>"] own_step_refl [OF o3]
      by (cases m) (simp_all add: s4_def is_free_def)
    then have o4: "own (addN {#n'#} (addM (opt_ms m) H)) s4 nc" and st4: "steady H s3 s4"
      by (auto simp: own_step_def own_swap dest!: steady_mono)
    have f4: "\<not> is_open (chans s4 ! nc)" "c_umh (chans s4 ! nc) = None"
      using oc ownD(3) [OF o3] by (simp_all add: s4_def upd_nth is_open_def)
    note k = own_set_name [OF o4, of dev, folded s5_def]
    have o5: "own (addM (opt_ms m) H) s5 nc" using k(1) by (simp add: own_step_def)
    have st5: "steady H s s5"
      by (rule steady_trans [OF st steady_trans [OF steady_mono(2) [OF steady_mono(3) [OF own_stepD(2) [OF conjunct1 [OF oc]]]]
            steady_trans [OF st4 steady_mono(3) [OF own_stepD(2) [OF k(1)]]]]])
    have "namec_open dev pg amode omode nomount c s = (if amode = Aremove then
         (if c_mflag (the_chan s5 nc) AND MREADONLY \<noteq> 0 then ((Some Eperm, nc), putmhead dev m s5) else ((None, nc), putmhead dev m s5))
       else open_chan dev nc m omode s5)"
      using n dm [unfolded s1_def] cu Inr x by (simp add: namec_open_def Let_def s5_def s4_def)
    note e = this [unfolded assms(5), symmetric]
    show ?thesis
    proof (cases "amode = Aremove")
      case True
      note p = own_putmhead [OF o5, of dev]
      have "is_open (chans (putmhead dev m s5) ! nc) = False"
        using p(2) k(2) [OF f4(1)] by (simp add: is_open_def)
      then show ?thesis
        using e True p(1) by (intro fin_steady [OF st5])
          (auto simp: own_step_def own_def intro!: fin_error fin_done split: if_splits)
    next
      case False
      then show ?thesis using e f4 k(4) by (intro fin_steady [OF st5]) (auto intro!: open_chan_ok [OF o5])
    qed
  qed
qed

section \<open>Changing a channel while it is in use\<close>

text \<open>The course of \<open>addelem\<close> from a name of our own on.\<close>

definition new_text :: "nat \<Rightarrow> bytes \<Rightarrow> 'd kst \<Rightarrow> 'd kst" where
  "new_text m e = upd_name m (\<lambda>x. x\<lparr>n_s := addtext (n_s x) e\<rparr>)"

definition clean_text :: "nat \<Rightarrow> 'd kst \<Rightarrow> 'd kst" where
  "clean_text m = upd_name m (\<lambda>x. x\<lparr>n_s := cleancname (n_s x)\<rparr>)"

definition pop_slot :: "'d devops \<Rightarrow> nat \<Rightarrow> 'd kst \<Rightarrow> 'd kst" where
  "pop_slot dev m s = cclose dev (last (n_mtpt (cnames s ! m))) (upd_name m (\<lambda>x. x\<lparr>n_mtpt := butlast (n_mtpt x)\<rparr>) s)"

definition add_dotdot :: "'d devops \<Rightarrow> nat \<Rightarrow> 'd kst \<Rightarrow> 'd kst" where
  "add_dotdot dev m s = (if length (n_mtpt (cnames s ! m)) > 1 then pop_slot dev m s else s)"

lemma addelem_parts:
  assumes "\<not> (at e 0 = dot \<and> at e 1 = 0)" and "cname_unique dev n s = (m, t)"
  shows "addelem dev n e s = (m, if isdotdot e then add_dotdot dev m (clean_text m (new_text m e t)) else new_text m e t)"
  unfolding addelem_def if_not_P [OF assms(1)] assms(2)
  by (simp add: new_text_def clean_text_def pop_slot_def add_dotdot_def Let_def)

lemma text_chans [simp]: "chans (new_text m e s) = chans s" "chans (clean_text m s) = chans s"
  by (simp_all add: new_text_def clean_text_def)

lemma pop_kept: "\<not> is_free (chans (add_dotdot dev m s) ! c) \<Longrightarrow> \<not> is_free (chans s ! c)"
  using keptD(1) kept_closes(1) [of "upd_name m (\<lambda>x. x\<lparr>n_mtpt := butlast (n_mtpt x)\<rparr>) s" dev]
  by (auto simp: add_dotdot_def pop_slot_def kept_def kept_chan_def split: if_splits)

text \<open>
  A field of a channel beside its count and flags may be set before some closing or after it, unless that
  frees the channel: no call looks at it. \<open>namec\<close> adds the new element to the name of a created channel in
  place, and \<open>unionread\<close> closes \<open>umc\<close> before it clears the field.
\<close>

locale side_field =
  fixes f :: "chan \<Rightarrow> chan"
  assumes keeps: "c_ref (f x) = c_ref x" "c_flag (f x) = c_flag x"
    and refs: "f (x\<lparr>c_ref := r\<rparr>) = (f x)\<lparr>c_ref := r\<rparr>"
begin

lemma frame:
  "is_free (chans (upd_chan c f s) ! i) = is_free (chans s ! i)" "c_ref (chans (upd_chan c f s) ! i) = c_ref (chans s ! i)"
  "ncname (upd_chan c f s) = ncname s"
  by (auto simp: upd_chan_def nth_upd_all is_free_def keeps)

lemma other: "i \<noteq> c \<Longrightarrow> chans (upd_chan c f s) ! i = chans s ! i"
  by (simp add: upd_chan_def)

lemma commute:
  "upd_name n g (upd_chan c f s) = upd_chan c f (upd_name n g s)" "upd_mhead m h (upd_chan c f s) = upd_chan c f (upd_mhead m h s)"
  "set_fault (upd_chan c f s) = upd_chan c f (set_fault s)" "(upd_chan c f s)\<lparr>dst := d\<rparr> = upd_chan c f (s\<lparr>dst := d\<rparr>)"
  "(upd_chan c f s)\<lparr>cfree := l\<rparr> = upd_chan c f (s\<lparr>cfree := l\<rparr>)" "(upd_chan c f s)\<lparr>ncname := k\<rparr> = upd_chan c f (s\<lparr>ncname := k\<rparr>)"
  "i \<noteq> c \<Longrightarrow> upd_chan i g' (upd_chan c f s) = upd_chan c f (upd_chan i g' s)"
  "upd_chan i (\<lambda>x. x\<lparr>c_ref := r\<rparr>) (upd_chan c f s) = upd_chan c f (upd_chan i (\<lambda>x. x\<lparr>c_ref := r\<rparr>) s)"
  by (simp_all add: upd_defs set_fault_def list_update_swap)
    (cases "i = c"; cases "c < length (chans s)"; simp add: list_update_swap list_update_beyond refs)

lemma close_step:
  assumes "close_step dev k s = (s', ks)" and "\<not> is_free (chans s' ! c)"
  shows "close_step dev k (upd_chan c f s) = (upd_chan c f s', ks)"
proof (cases k)
  case (Cclose i)
  show ?thesis
  proof (cases "i = c \<and> c < length (chans s) \<and> \<not> is_free (chans s ! c) \<and> c_ref (chans s ! c) = 1")
    case True
    then have "is_free (chans s' ! c)" using assms(1) by (auto simp: close_step_def Cclose upd_nth)
    then show ?thesis using assms(2) by simp
  next
    case False
    then show ?thesis using assms(1)
      by (cases "i = c")
        (auto simp: close_step_def Cclose Let_def commute other frame upd_nth keeps chanfree_calls_def is_free_def split: if_splits)
  qed
qed (use assms(1) in \<open>auto simp: close_step_def Let_def commute frame split: if_splits\<close>)

lemma release:
  "\<not> is_free (chans (release dev ks s) ! c) \<Longrightarrow> release dev ks (upd_chan c f s) = upd_chan c f (release dev ks s)"
proof (induction dev ks s rule: release.induct)
  case (2 dev k ks s)
  obtain t js where st: "close_step dev k s = (t, js)" by fastforce
  define u where "u = (if fault t then t else release dev (js @ ks) t)"
  have u: "release dev (k # ks) s = u" by (simp add: st u_def)
  have "kept t u" by (simp add: u_def kept_release)
  then have t: "\<not> is_free (chans t ! c)" using 2(2) u by (auto simp: kept_def kept_chan_def)
  show ?case
    using 2(1) [OF st [symmetric] refl] 2(2) unfolding u by (auto simp: close_step [OF st t] u_def split: if_splits)
qed simp

lemma fold_incref: "fold incref_opt xs (upd_chan c f s) = upd_chan c f (fold incref_opt xs s)"
proof -
  have "incref_opt x (upd_chan c f t) = upd_chan c f (incref_opt x t)" for x and t :: "'a kst"
    by (cases x; cases "x = Some c"; cases "c < length (chans t)")
      (auto simp: incref_opt_def incref_is_bump bump_chan_def upd_defs list_update_swap list_update_beyond refs keeps)
  then show ?thesis by (induction xs arbitrary: s) simp_all
qed

lemma unique:
  assumes "cname_unique dev n s = (n', s')" and "\<not> is_free (chans s' ! c)"
  shows "cname_unique dev n (upd_chan c f s) = (n', upd_chan c f s')"
proof -
  have "newcname t (upd_chan c f s) = (fst (newcname t s), upd_chan c f (snd (newcname t s)))" for t
    by (simp add: newcname_def upd_defs)
  then show ?thesis
    using assms release [of dev]
    by (auto simp: cname_unique_def mtptcopy_def cnameclose_def commute fold_incref Let_def split: if_splits prod.splits)
qed

lemma texts: "new_text m e (upd_chan c f s) = upd_chan c f (new_text m e s)" "clean_text m (upd_chan c f s) = upd_chan c f (clean_text m s)"
  by (simp_all add: new_text_def clean_text_def commute)

lemma dotdot:
  "\<not> is_free (chans (add_dotdot dev m s) ! c) \<Longrightarrow> add_dotdot dev m (upd_chan c f s) = upd_chan c f (add_dotdot dev m s)"
  by (simp add: add_dotdot_def pop_slot_def commute cclose_def release split: if_splits)

lemma addelem:
  assumes "addelem dev n e s = (n', s')" and "\<not> is_free (chans s' ! c)"
  shows "addelem dev n e (upd_chan c f s) = (n', upd_chan c f s')"
proof (cases "at e 0 = dot \<and> at e 1 = 0")
  case True
  then show ?thesis using assms(1) by (auto simp: addelem_def)
next
  case False
  obtain m t where u: "cname_unique dev n s = (m, t)" by fastforce
  note r = addelem_parts [OF False u, unfolded assms(1)]
  have live: "\<not> is_free (chans t ! c)" using r assms(2) by (auto split: if_splits dest: pop_kept)
  show ?thesis
    using r assms(2) by (auto simp: addelem_parts [OF False unique [OF u live]] texts dotdot split: if_splits)
qed

end

interpretation name_field: side_field "\<lambda>x. x\<lparr>c_name := v\<rparr>" for v
  by unfold_locales simp_all

interpretation umc_field: side_field "\<lambda>x. x\<lparr>c_umc := v\<rparr>" for v
  by unfold_locales simp_all

definition nm :: "nat \<Rightarrow> nat option \<Rightarrow> 'd kst \<Rightarrow> 'd kst" where
  "nm c v = upd_chan c (\<lambda>x. x\<lparr>c_name := v\<rparr>)"

lemma nm_addelem:
  "addelem dev n e s = (n', s') \<Longrightarrow> \<not> is_free (chans s' ! c) \<Longrightarrow> addelem dev n e (nm c v s) = (n', nm c v s')"
  unfolding nm_def by (rule name_field.addelem)

text \<open>It puts references nowhere but where there were some.\<close>

lemma addelem_own:
  assumes "counted s (addN {#n#} H)" and "addelem dev n e s = (n', s')"
  shows "set_mset (ownC s') \<subseteq> set_mset (ownC s)"
proof (cases "at e 0 = dot \<and> at e 1 = 0")
  case True
  then show ?thesis using assms(2) by (auto simp: addelem_def)
next
  case False
  have worded: "ownC (new_text m e t) = ownC t" "ownC (clean_text m t) = ownC t" for m and t :: "'a kst"
    unfolding new_text_def clean_text_def by (rule own_upd_name_same(1); simp add: nameC_def)+
  have closes: "set_mset (ownC (cclose dev x t)) \<subseteq> set_mset (ownC t)" "set_mset (ownC (cnameclose dev y t)) \<subseteq> set_mset (ownC t)"
    for x y and t :: "'a kst"
    using kept_own(2) [of t "cclose dev x t"] kept_own(2) [of t "cnameclose dev y t"] by (auto dest: mset_subset_eqD)
  have slots: "set_mset (ownC (upd_name m (\<lambda>x. x\<lparr>n_mtpt := l\<rparr>) t)) \<subseteq> set_mset (ownC t) \<union> set_mset (opts_ms l)"
    for m l and t :: "'a kst"
  proof (cases "m < length (cnames t)")
    case True
    from own_upd_name(1) [OF this, of "\<lambda>x. x\<lparr>n_mtpt := l\<rparr>"] show ?thesis by (auto simp: nameC_def dest!: replaced)
  qed (simp add: upd_name_def list_update_beyond)
  obtain m t where u: "cname_unique dev n s = (m, t)" by fastforce
  note ur = cname_unique_counted [OF assms(1) u]
  have "n < length (cnames s)" using counted_liveN [OF assms(1), of n] by simp
  then have ns: "set_mset (opts_ms (n_mtpt (cnames s ! n))) \<subseteq> set_mset (ownC s)"
    using slots_closed(2) [OF assms(1)] by blast
  have "set_mset (ownC t) \<subseteq> set_mset (ownC s)"
  proof (cases "n_ref (cnames s ! n) > 1")
    case True
    define s1 where "s1 = snd (newcname (n_s (cnames s ! n)) s)"
    have "ownC s1 = ownC s" "n_mtpt (cnames s1 ! n) = n_mtpt (cnames s ! n)"
      using \<open>n < length (cnames s)\<close> by (simp_all add: s1_def newcname_def ownC_def nsC_def nameC_def opts_ms_def nth_append)
    moreover have "t = cnameclose dev (Some n) (mtptcopy m n s1)"
      using u True by (auto simp: cname_unique_def newcname_def s1_def Let_def)
    ultimately show ?thesis
      using closes(2) [of "Some n" "mtptcopy m n s1"] slots [of m "n_mtpt (cnames s1 ! n)" s1] ns
      by (auto simp: mtptcopy_def)
  qed (use u in \<open>auto simp: cname_unique_def\<close>)
  moreover have "set_mset (opts_ms (butlast (n_mtpt (cnames t ! m)))) \<subseteq> set_mset (opts_ms (n_mtpt (cnames s ! n)))"
    using opts_ms_butlast [of "n_mtpt (cnames s ! n)"] ur(2)
    by (cases "n_mtpt (cnames s ! n) = []") (simp_all, metis subsetI union_iff)
  ultimately have t: "set_mset (ownC t) \<subseteq> set_mset (ownC s)" "set_mset (opts_ms (butlast (n_mtpt (cnames t ! m)))) \<subseteq> set_mset (ownC s)"
    using ns by blast+
  define t2 where "t2 = clean_text m (new_text m e t)"
  have mt: "n_mtpt (cnames t2 ! m) = n_mtpt (cnames t ! m)"
    by (auto simp: t2_def clean_text_def new_text_def upd_name_def nth_upd_all)
  have "pop_slot dev m t2 = cclose dev (last (n_mtpt (cnames t2 ! m))) (upd_name m (\<lambda>x. x\<lparr>n_mtpt := butlast (n_mtpt (cnames t2 ! m))\<rparr>) t2)"
    by (simp add: pop_slot_def upd_name_def)
  then have "set_mset (ownC (pop_slot dev m t2)) \<subseteq> set_mset (ownC t2) \<union> set_mset (opts_ms (butlast (n_mtpt (cnames t2 ! m))))"
    using subset_trans [OF closes(1) slots] by simp
  moreover have "ownC t2 = ownC t" by (simp add: t2_def worded)
  ultimately have "set_mset (ownC (pop_slot dev m t2)) \<subseteq> set_mset (ownC s)" using t unfolding mt by (metis Un_subset_iff subset_trans)
  moreover have "s' = (if isdotdot e then add_dotdot dev m t2 else new_text m e t)"
    using addelem_parts [OF False u] assms(2) by (simp add: t2_def)
  ultimately show ?thesis using t(1) by (simp add: add_dotdot_def worded t2_def)
qed

text \<open>The new element on the name of a channel of our own.\<close>

lemma rename_ok:
  assumes "own H s c" and "c_name (chans s ! c) = Some n" and "\<not> (at e 0 = dot \<and> at e 1 = 0)"
    and "addelem dev n e s = (n', t)"
  shows "own_step H s c (upd_chan c (\<lambda>x. x\<lparr>c_name := Some n'\<rparr>) t)"
    and "c_flag (chans (upd_chan c (\<lambda>x. x\<lparr>c_name := Some n'\<rparr>) t) ! c) = c_flag (chans s ! c)"
proof -
  note o = ownD [OF assms(1)]
  define s0 where "s0 = nm c None s"
  have c0: "counted s0 (addN {#n#} (addC {#c#} H))"
    using set_name_field_counted [of s None "addC {#c#} H" c] o(1,3,4) assms(2) by (simp add: s0_def nm_def)
  have "(chans s ! c)\<lparr>c_name := Some n\<rparr> = chans s ! c" using assms(2) by (cases "chans s ! c") simp
  then have s: "s = nm c (Some n) s0" using o(3) by (simp add: s0_def nm_def upd_chan_comp) (simp add: upd_chan_def)
  obtain m t0 where a: "addelem dev n e s0 = (m, t0)" by fastforce
  note k = name_opD [OF addelem_op(1) [OF c0 assms(3) a]]
  note l = counted_liveC [OF k(1), of c, simplified]
  have t: "n' = m" "t = nm c (Some n) t0" using nm_addelem [OF a, of c "Some n"] l assms(4) s by simp_all
  define u where "u = upd_chan c (\<lambda>x. x\<lparr>c_name := Some n'\<rparr>) t"
  have u: "u = upd_chan c (\<lambda>x. x\<lparr>c_name := Some m\<rparr>) t0" using l by (simp add: u_def t nm_def upd_chan_comp)
  have n0: "c_name (chans t0 ! c) = None" "c_flag (chans t0 ! c) = c_flag (chans s ! c)"
    using steadyD(8,10) [OF k(2), of c] o(3) by (simp_all add: s0_def nm_def upd_nth)
  have cu: "counted u (addC {#c#} H)"
    using set_name_field_counted [of t0 "Some m" "addC {#c#} H" c] k(1) l n0 by (simp add: u)
  have "ownC s0 = ownC s" "ownC u = ownC t0" "nsC u = nsC t0"
    by (simp_all add: s0_def u nm_def) (simp_all add: ownC_def upd_chan_def tot_upd_same chanC_def is_free_def nsC_def)
  then have oc: "c \<notin># ownC u" "c \<notin># nsC t0 + hC H"
    using addelem_own [OF c0 a] o(2) nsC_own [of c t0] by auto
  have "steady H s s0" by (rule steady_fresh [OF o(1) _ _ o(5)]) (simp_all add: s0_def nm_def upd_chan_def)
  moreover have "steady H s0 t0" using k(2) by (rule steady_mono)
  moreover have "steady H t0 u" by (rule steady_fresh [OF k(1) _ _ oc(2)]) (simp_all add: u upd_chan_def)
  ultimately have "steady H s u" by (meson steady_trans)
  then show "own_step H s c (upd_chan c (\<lambda>x. x\<lparr>c_name := Some n'\<rparr>) t)"
    using cu oc(1) o(2) by (simp add: own_step_def own_def u_def [symmetric])
  show "c_flag (chans (upd_chan c (\<lambda>x. x\<lparr>c_name := Some n'\<rparr>) t) ! c) = c_flag (chans s ! c)"
    using l n0 by (simp add: u_def [symmetric] u upd_nth)
qed

section \<open>The attempt to create\<close>

lemma createdir_ok:
  assumes "counted s (addC {#c#} H)" and "linked_ok s" and "m \<in># links s" and "createdir dev c m s = (r, s')"
  shows "r = Inl e \<Longrightarrow> s' = s"
    and "r = Inr nc \<Longrightarrow> counted s' (addC {#nc#} H) \<and> steady H s s' \<and> \<not> is_open (chans s' ! nc)"
proof -
  show "s' = s" if "r = Inl e"
    using assms(4) that by (auto simp: createdir_def split: option.splits sum.splits prod.splits dest: cclone_error walkdev_none)
  assume r: "r = Inr nc"
  obtain f s1 where f: "List.find (\<lambda>f. mt_flag f AND (MCREATE OR MREADONLY) = MCREATE) (mh_mount (mheads s ! m)) = Some f"
    and cc: "cclone dev (mt_to f) s = (Inr nc, s1)"
    and s': "s' = cclose dev (Some c) (upd_chan nc (\<lambda>x. x\<lparr>c_mflag := mt_flag f\<rparr>) s1)"
    using assms(4) r by (auto simp: createdir_def split: option.splits sum.splits prod.splits)
  have fi: "f \<in> set (mh_mount (mheads s ! m))" using f by (auto simp: find_Some_iff)
  then have ne: "mh_mount (mheads s ! m) \<noteq> []" by auto
  have m: "m < length (mheads s)" using linked_live [OF assms(1,3)] by blast
  have fo: "mt_to f \<in># ownC s + hC (addC {#c#} H)"
    using head_owns(2) [OF m ne fi] headsC_own by auto
  note k = cclone_counted [OF assms(1) fo mount_closed [OF assms(1,3) ne fi] cc]
  have o: "own (addC {#c#} H) s1 nc" and st: "steady H s s1" and op: "\<not> is_open (chans s1 ! nc)"
    using k(3) [OF refl] last_refC [of s1 nc "addC {#c#} H"] steady_mono(1) [OF k(1)]
    by (simp_all add: own_def fresh_clone_def is_open_def)
  define s2 where "s2 = upd_chan nc (\<lambda>x. x\<lparr>c_mflag := mt_flag f\<rparr>) s1"
  have k2: "own_step (addC {#c#} H) s1 nc s2" unfolding s2_def by (rule own_fields [OF o]) (simp add: is_free_def)
  then have o2: "own (addC {#c#} H) s2 nc" by (simp add: own_step_def)
  note k3 = own_cclose [OF o2, of dev, folded s2_def]
  have "\<not> is_open (chans s' ! nc)" using k3(2) op ownD(3) [OF o] by (simp add: s' s2_def [symmetric] is_open_def) (simp add: s2_def upd_nth)
  moreover have "steady H s s'"
    using st k2 k3(1) unfolding own_step_def s' s2_def [symmetric] by (meson steady_mono steady_trans)
  ultimately show "counted s' (addC {#nc#} H) \<and> steady H s s' \<and> \<not> is_open (chans s' ! nc)"
    using k3(1) by (simp add: own_step_def own_def s' s2_def [symmetric])
qed

text \<open>The directory to create in, and the head it was found through.\<close>

lemma create_where_ok:
  assumes "counted s (addC {#c#} H)" and "\<not> is_open (chans s ! c)" and "ns_ok pg s"
    and "create_where dev pg nomount c s = (((err, cnew), m), s')"
  shows "counted s' (addC {#cnew#} (addM (opt_ms m) (addC {#c#} H)))" and "steady (addC {#c#} H) s s'"
    and "err = None \<Longrightarrow> \<not> is_open (chans s' ! cnew)"
proof -
  let ?H = "addC {#c#} H"
  note w = ns_okD [OF assms(3)]
  have "counted s' (addC {#cnew#} (addM (opt_ms m) ?H)) \<and> steady ?H s s' \<and> (err = None \<longrightarrow> \<not> is_open (chans s' ! cnew))"
  proof (cases "nomount \<or> mhead_tdqid pg (chan_type (chans s ! c)) (chan_dev (chans s ! c)) (c_qid (chans s ! c)) s = None")
    case True
    then have e: "err = None" "cnew = c" "m = None" "s' = incref_chan c s"
      using assms(4) findmount_none [of pg "chan_type (chans s ! c)" "chan_dev (chans s ! c)" "c_qid (chans s ! c)" s dev None "Some None"]
      by (cases nomount; simp add: create_where_def)+
    show ?thesis using incref_chan_counted [OF assms(1), of c] assms(2) by (simp add: e) (simp add: incref_is_bump)
  next
    case False
    then obtain h where h: "mhead_tdqid pg (chan_type (chans s ! c)) (chan_dev (chans s ! c)) (c_qid (chans s ! c)) s = Some h" by auto
    have c0: "counted s (addC (opt_ms None) (addM (opt_ms None) ?H))" using assms(1) by simp
    from findmount_some [OF c0 w h, of dev] obtain f fs t where f: "mh_mount (mheads s ! h) = f # fs" "h \<in># links s"
      and fm: "findmount dev pg None (Some None) (chan_type (chans s ! c)) (chan_dev (chans s ! c)) (c_qid (chans s ! c)) s
        = ((True, Some (mt_to f), Some (Some h)), t)"
      and t: "counted t (addC {#mt_to f#} (addM {#h#} ?H))" "steady ?H s t" by blast
    obtain r u where cd: "createdir dev (mt_to f) h t = (r, u)" by fastforce
    have l: "linked_ok t" "h \<in># links t" using linked_ok_steady [OF t(2) assms(1) w(2)] f(2) links_steady [OF t(2)] by simp_all
    note k = createdir_ok [OF t(1) l cd]
    show ?thesis
    proof (cases r)
      case (Inl x)
      then have "err = Some x" "cnew = mt_to f" "m = Some h" "s' = u"
        using assms(4) False cd by (simp_all add: create_where_def fm)
      then show ?thesis using t k(1) [OF Inl] by simp
    next
      case (Inr nc)
      then have "err = None" "cnew = nc" "m = Some h" "s' = u"
        using assms(4) False cd by (simp_all add: create_where_def fm)
      then show ?thesis using k(2) [OF Inr] steady_trans [OF t(2)] by (auto dest: steady_mono)
    qed
  qed
  then show "counted s' (addC {#cnew#} (addM (opt_ms m) (addC {#c#} H)))" "steady (addC {#c#} H) s s'"
    "err = None \<Longrightarrow> \<not> is_open (chans s' ! cnew)" by blast+
qed

lemma create_new_ok:
  assumes "counted s (addC {#cnew#} (addM (opt_ms m) (addC {#c#} H)))" and "\<not> is_open (chans s ! cnew)"
    and "c_name (chans s ! c) = Some n" and "create_new dev omode perm e c cnew s = ((err, cn), s')"
  shows "steady (addC {#c#} H) s s'" and "err = Some x \<Longrightarrow> counted s' (addC {#cn#} (addM (opt_ms m) (addC {#c#} H)))"
    and "err = None \<Longrightarrow> own (addM (opt_ms m) (addC {#c#} H)) s' cn \<and> is_open (chans s' ! cn) \<and> c_name (chans s' ! cn) = Some n"
proof -
  let ?H = "addM (opt_ms m) (addC {#c#} H)"
  obtain r s1 where cu: "cunique dev cnew s = (r, s1)" by fastforce
  have "steady ?H s s' \<and> (\<forall>x. err = Some x \<longrightarrow> counted s' (addC {#cn#} ?H)) \<and>
    (err = None \<longrightarrow> own ?H s' cn \<and> is_open (chans s' ! cn) \<and> c_name (chans s' ! cn) = Some n)"
  proof (cases r)
    case (Inl y)
    have "s1 = s" by (rule cunique_counted(1) [OF assms(1,2) cu Inl])
    then show ?thesis using assms(1,4) cu Inl by (auto simp: create_new_def)
  next
    case (Inr k)
    note oc = own_copy_step [OF cunique_counted(2) [OF assms(1,2) cu Inr]]
    have o1: "own ?H s1 k" and st1: "steady ?H s s1" using oc by (simp_all add: own_step_def)
    show ?thesis
    proof (cases "c_mflag (chans s1 ! k) AND MREADONLY \<noteq> 0")
      case True
      then have "err = Some Eperm" "cn = k" "s' = s1" using assms(4) cu Inr by (simp_all add: create_new_def)
      then show ?thesis using o1 st1 by (simp add: own_def)
    next
      case False
      have n1: "c_name (chans s1 ! c) = Some n" using steadyD(8) [OF st1, of c] assms(3) by simp
      have "n \<in># ownN s1 + hN (addC {#k#} ?H)" using chan_owned(2) [OF ownD(1) [OF o1], of c] n1 by simp
      define s2 where "s2 = incref_name n s1"
      have "counted s2 (addN {#n#} (addC {#k#} ?H))"
        unfolding s2_def by (rule incref_name_counted [OF ownD(1) [OF o1]]) fact
      then have o2: "own (addN {#n#} ?H) s2 k" using ownD(2) [OF o1] by (simp add: own_def add_comm s2_def incref_is_bump)
      define s3 where "s3 = set_name dev k (Some n) s2"
      note k3 = own_set_name [OF o2, of dev, folded s3_def]
      have o3: "own ?H s3 k" using k3(1) by (simp add: own_step_def)
      have st3: "steady ?H s s3"
        using st1 k3(1) steady_trans [of ?H s s1 s2] by (auto simp: own_step_def s2_def intro: steady_trans)
      define a where "a = dcreate dev (dst s3) (the_chan s3 k) e (omode AND NOT (OEXCL OR OCEXEC)) perm"
      have r: "(case a of Inl x \<Rightarrow> ((Some x, k), s3) | Inr qm \<Rightarrow> ((None, k), set_mode k qm s3)) = ((err, cn), s')"
        using assms(4) cu Inr False n1 unfolding create_new_def a_def s3_def s2_def
        by (simp add: incref_name_opt_def Let_def)
      show ?thesis
      proof (cases a)
        case (Inl y)
        then show ?thesis using r o3 st3 by (auto simp: own_def)
      next
        case (Inr qm)
        note sm = set_mode_own [OF o3, of qm]
        have "c_name (chans (set_mode k qm s3) ! k) = Some n" using k3(3) ownD(3) [OF o3] by (simp add: set_mode_def upd_nth)
        then show ?thesis
          using r Inr sm set_mode_open [OF ownD(3) [OF o3], of qm] steady_trans [OF st3] by (auto simp: own_step_def)
      qed
    qed
  qed
  then show "steady (addC {#c#} H) s s'" "err = Some x \<Longrightarrow> counted s' (addC {#cn#} (addM (opt_ms m) (addC {#c#} H)))"
    "err = None \<Longrightarrow> own (addM (opt_ms m) (addC {#c#} H)) s' cn \<and> is_open (chans s' ! cn) \<and> c_name (chans s' ! cn) = Some n"
    using steady_mono by blast+
qed

lemma try_create_ok:
  assumes "counted s (addC {#c#} H)" and "\<not> is_open (chans s ! c)" and "rooted s c" and "ns_ok pg s" and "\<not> is_dot e"
    and "try_create dev pg omode perm nomount e c s = ((err, c'), s')"
  shows "err = Some x \<Longrightarrow> c' = c \<and> counted s' (addC {#c#} H) \<and> steady (addC {#c#} H) s s'"
    and "err = None \<Longrightarrow> own_step H s c' s' \<and> is_open (chans s' ! c')"
proof -
  obtain n where n: "c_name (chans s ! c) = Some n" using assms(3) by (auto simp: rooted_def origin_def split: option.splits)
  obtain er cn m t where cw: "create_where dev pg nomount c s = (((er, cn), m), t)" by (metis prod.exhaust)
  note k = create_where_ok [OF assms(1,2,4) cw]
  obtain er2 cx u where nw: "(case er of Some x \<Rightarrow> ((er, cn), t) | None \<Rightarrow> create_new dev omode perm e c cn t) = ((er2, cx), u)"
    by (metis prod.exhaust)
  have nt: "c_name (chans t ! c) = Some n" using steadyD(8) [OF k(2), of c] n by simp
  have u: "steady (addC {#c#} H) t u \<and> (er2 \<noteq> None \<longrightarrow> counted u (addC {#cx#} (addM (opt_ms m) (addC {#c#} H))))
    \<and> (er2 = None \<longrightarrow> own (addM (opt_ms m) (addC {#c#} H)) u cx \<and> is_open (chans u ! cx) \<and> c_name (chans u ! cx) = Some n)"
  proof (cases er)
    case (Some x)
    then show ?thesis using nw k(1) by auto
  next
    case None
    then have "create_new dev omode perm e c cn t = ((er2, cx), u)" using nw by simp
    from create_new_ok [OF k(1) k(3) [OF None] nt this] show ?thesis by blast
  qed
  have su: "steady (addC {#c#} H) s u" using steady_trans [OF k(2)] u by blast
  show "c' = c \<and> counted s' (addC {#c#} H) \<and> steady (addC {#c#} H) s s'" if er: "err = Some x"
  proof -
    obtain y where e: "er2 = Some y" using assms(6) er by (auto simp: try_create_def cw nw Let_def split: option.splits prod.splits)
    then have r: "c' = c" "s' = putmhead dev m (cclose dev (Some cx) u)" using assms(6) by (simp_all add: try_create_def cw nw)
    have a: "counted u (addC (opt_ms (Some cx)) (addM (opt_ms m) (addC {#c#} H)))" using u e by simp
    note b = cclose_counted [OF a, of dev]
    show ?thesis
      using putmhead_counted [OF b, of dev] closes_steady(3) [OF b, of dev] closes_steady(1) [OF a, of dev] su r
      by simp (meson steady_mono steady_trans)
  qed
  show "own_step H s c' s' \<and> is_open (chans s' ! c')" if "err = None"
  proof -
    have e: "er2 = None" using assms(6) that by (auto simp: try_create_def cw nw Let_def split: option.splits prod.splits)
    define v where "v = set_oflags cx omode u"
    define w where "w = putmhead dev m v"
    define y where "y = cclose dev (Some c) w"
    have ou: "own (addM (opt_ms m) (addC {#c#} H)) u cx" "is_open (chans u ! cx)" "c_name (chans u ! cx) = Some n" using u e by blast+
    note kv = set_oflags_own [OF ou(1), of omode, folded v_def]
    have ov: "own (addM (opt_ms m) (addC {#c#} H)) v cx" using kv(1) by (simp add: own_step_def)
    note kw = own_putmhead [OF ov, of dev, folded w_def]
    have ow: "own (addC {#c#} H) w cx" using kw(1) by (simp add: own_step_def)
    note ky = own_cclose [OF ow, of dev, folded y_def]
    have oy: "own H y cx" using ky(1) by (simp add: own_step_def)
    have ny: "c_name (chans y ! cx) = Some n" using ky(3) kw(3) kv(3) ou(3) by simp
    have iy: "is_open (chans y ! cx)" using ky(2) kw(2) kv(2) ou(2) by (simp add: is_open_def)
    have sy: "steady H s y"
      by (rule steady_trans [OF steady_mono(1) [OF su] steady_trans [OF steady_mono(1) [OF steady_mono(3) [OF own_stepD(2) [OF kv(1)]]]
            steady_trans [OF steady_mono(1) [OF own_stepD(2) [OF kw(1)]] own_stepD(2) [OF ky(1)]]]])
    obtain n' z where a: "addelem dev n e y = (n', z)" by fastforce
    have "try_create dev pg omode perm nomount e c s = (case c_name (the_chan y cx) of None \<Rightarrow> ((None, cx), set_fault y)
        | Some n \<Rightarrow> (let (n, s) = addelem dev n e y in ((None, cx), upd_chan cx (\<lambda>x. x\<lparr>c_name := Some n\<rparr>) s)))"
      unfolding try_create_def cw nw e Let_def prod.case option.case v_def w_def y_def by (rule refl)
    then have r: "c' = cx" "s' = upd_chan cx (\<lambda>x. x\<lparr>c_name := Some n'\<rparr>) z" using assms(6) ny a by simp_all
    note kz = rename_ok [OF oy ny assms(5) [unfolded is_dot_def] a]
    show ?thesis using own_step_trans [OF sy kz(1)] kz(2) iy by (simp add: r is_open_def)
  qed
qed

section \<open>\<open>namec\<close>\<close>

text \<open>The walk as \<open>namec\<close> uses it.\<close>

lemma walk_namec:
  assumes "counted s (addC {#c#} H)" and "\<not> is_open (chans s ! c)" and "rooted s c" and "ns_ok pg s"
    and "\<forall>e\<in>set names. \<not> is_dot e" and "walk dev pg c names nomount s = (r, s')"
  shows "r = Walked c' \<Longrightarrow> reached H s c' s' \<and> own H s' c' \<and> ns_ok pg s'"
    and "r = Walk_fail k e \<Longrightarrow> reached H s c s' \<and> ns_ok pg s'"
    and "r = Walk_raise x \<Longrightarrow> fin H s (Some x, c) op s'"
proof -
  note w = ns_okD [OF assms(4)]
  obtain root d where o: "origin s c root d" using assms(3) unfolding rooted_def by blast
  note k = walk_ok [OF assms(1,2) w(2,1) o assms(5,6)]
  note ns = ns_ok_steady [OF k(1) assms(1,4)]
  show "reached H s c' s' \<and> own H s' c' \<and> ns_ok pg s'" if "r = Walked c'"
    using k(1) k(2) [OF that] ns unfolding reached_def own_def rooted_def by blast
  show "reached H s c s' \<and> ns_ok pg s'" if "r = Walk_fail k e"
  proof -
    note f = k(3) [OF that]
    have "rooted s' c" using rooted_steady [of "addC {#c#} H" s s' c] f assms(3) anchors_held(1) [of c "addC {#c#} H" s] by simp
    moreover have "\<not> is_open (chans s' ! c)" using steadyD(10) [of "addC {#c#} H" s s' c] f assms(2) by (simp add: is_open_def)
    ultimately show ?thesis using f k(1) ns by (simp add: reached_def)
  qed
  show "fin H s (Some x, c) op s'" if "r = Walk_raise x"
    using k(1) k(4) [OF that] walk_raise [of dev pg c names nomount s x s'] assms(6) that by (auto simp: fin_def)
qed

text \<open>The case \<open>Acreate\<close>.\<close>

lemma namec_create_ok:
  assumes "counted s (addC {#c#} H)" and "\<not> is_open (chans s ! c)" and "rooted s c" and "ns_ok pg s" and "\<not> is_dot e"
    and "namec_create dev pg omode perm nomount e c s = (out, s')"
  shows "fin H s out True s'"
proof -
  have dots: "\<forall>x\<in>set [e]. \<not> is_dot x" using assms(5) by simp
  have opened: "fin H t out True s'" if "reached H t0 d t" "ns_ok pg t" "namec_open dev pg Acreate (omode OR OTRUNC) nomount d t = (out, s')"
    for t0 t d
    using namec_open_ok [of t d H pg dev Acreate] that by (simp add: reached_def)
  obtain r t where wk: "walk dev pg c [e] nomount s = (r, t)" by fastforce
  note k = walk_namec [OF assms(1-4) dots wk]
  show ?thesis
  proof (cases r)
    case (Walked d)
    note kd = k(1) [OF Walked]
    have "fin H t out True s'"
    proof (cases "omode AND OEXCL \<noteq> 0")
      case True
      then have "out = (Some Eexist, d)" "s' = t" using assms(6) wk Walked by (simp_all add: namec_create_def)
      then show ?thesis using kd by (simp add: fin_error own_def)
    next
      case False
      then show ?thesis using opened [of s d t] kd assms(6) wk Walked by (simp add: namec_create_def)
    qed
    then show ?thesis by (rule fin_steady [rotated]) (use kd in \<open>simp add: reached_def\<close>)
  next
    case (Walk_raise x)
    then have "out = (Some x, c)" "s' = t" using assms(6) wk by (simp_all add: namec_create_def)
    then show ?thesis using k(3) [OF Walk_raise] by simp
  next
    case (Walk_fail k' e')
    note kf = k(2) [OF Walk_fail]
    note h = kf [unfolded reached_def]
    obtain er d u where tc: "try_create dev pg omode perm nomount e c t = ((er, d), u)" by (metis prod.exhaust)
    note kt = try_create_ok [of t c H pg e dev omode perm nomount er d u, OF _ _ _ _ assms(5) tc]
    show ?thesis
    proof (cases er)
      case None
      then have "out = (None, d)" "s' = u" using assms(6) wk Walk_fail tc by (simp_all add: namec_create_def)
      then show ?thesis using kt(2) h None by (auto intro!: fin_done intro: own_step_trans)
    next
      case (Some x)
      have d: "d = c" and cu: "counted u (addC {#c#} H)" and su: "steady (addC {#c#} H) t u" using kt(1) h Some by blast+
      have st: "steady H s u" using h steady_mono(1) [OF su] steady_trans by blast
      have ru: "rooted u c" using rooted_steady [OF su anchors_held(1), of c] h by simp
      have ou: "\<not> is_open (chans u ! c)" using steadyD(10) [OF su, of c] h by (simp add: is_open_def)
      have nu: "ns_ok pg u" using ns_ok_steady [OF su] h by blast
      show ?thesis
      proof (cases "omode AND OEXCL \<noteq> 0")
        case True
        then have "out = (Some x, c)" "s' = u" using assms(6) wk Walk_fail tc Some d by (simp_all add: namec_create_def)
        then show ?thesis using cu st by (simp add: fin_error)
      next
        case False
        obtain q v where wk2: "walk dev pg c [e] nomount u = (q, v)" by fastforce
        note k2 = walk_namec [OF cu ou ru nu dots wk2]
        have r: "(case q of Walked c \<Rightarrow> namec_open dev pg Acreate (omode OR OTRUNC) nomount c v
            | Walk_raise y \<Rightarrow> ((Some y, c), v) | Walk_fail _ _ \<Rightarrow> ((Some x, c), v)) = (out, s')"
          using assms(6) wk Walk_fail tc Some d False wk2 by (cases q) (simp_all add: namec_create_def)
        have "fin H u out True s'"
        proof (cases q)
          case (Walked f)
          then show ?thesis using r k2(1) [OF Walked] opened [of u f v] by (auto simp: reached_def intro: fin_steady)
        next
          case (Walk_fail a b)
          then show ?thesis using r k2(2) [OF Walk_fail] by (auto simp: reached_def intro: fin_error)
        next
          case (Walk_raise y)
          then show ?thesis using r k2(3) [OF Walk_raise] by simp
        qed
        then show ?thesis using st by (rule fin_steady [rotated])
      qed
    qed
  qed
qed

text \<open>Across a mount point, without a name.\<close>

lemma cross_plain:
  assumes "counted s (addC {#c#} H)" and "ns_ok pg s"
    and "(if nomount then ((False, c, None, None), s) else domount dev pg c None None s) = ((found, d, m, x), s')"
  shows "\<not> found \<and> d = c \<and> m = None \<and> s' = s
    \<or> found \<and> counted s' (addC {#d#} (addM (opt_ms m) H)) \<and> steady H s s' \<and> \<not> is_open (chans s' ! d)"
proof (cases "nomount \<or> mhead_tdqid pg (chan_type (chans s ! c)) (chan_dev (chans s ! c)) (c_qid (chans s ! c)) s = None")
  case True
  then have "((False, c, None, None), s) = ((found, d, m, x), s')"
    using assms(3) domount_none [of pg s c dev None None] by (cases nomount) simp_all
  then show ?thesis by simp
next
  case False
  then obtain h where h: "mhead_tdqid pg (chan_type (chans s ! c)) (chan_dev (chans s ! c)) (c_qid (chans s ! c)) s = Some h"
    by auto
  note w = ns_okD [OF assms(2)]
  have c: "counted s (addC {#c#} (addM (opt_ms None) H))" using assms(1) by simp
  from domount_some [OF c w h, of dev] obtain f fs t where f: "mh_mount (mheads s ! h) = f # fs" "h \<in># links s"
    and dm: "domount dev pg c None None s = ((True, mt_to f, Some h, None), t)"
    and t: "counted t (addC {#mt_to f#} (addM {#h#} H))" "steady H s t" by blast
  then show ?thesis using assms(3) False mount_not_open [OF c w(2) f(2,1) t(2,1)] by auto
qed

lemma access_ok:
  assumes "own H s c" and "\<not> is_open (chans s ! c)" and "ns_ok pg s"
    and "namec_switch dev pg Aaccess omode perm nomount elems c s = (out, s')"
  shows "fin H s out False s'"
proof -
  obtain found d m x t where dm: "(if nomount then ((False, c, None, None), s) else domount dev pg c None None s) = ((found, d, m, x), t)"
    by (metis prod.exhaust)
  obtain r u where cu: "cunique dev d t = (r, u)" by fastforce
  have e: "namec_switch dev pg Aaccess omode perm nomount elems c s = (if found then
      (case r of Inl e \<Rightarrow> ((Some e, d), putmhead dev m u)
       | Inr c \<Rightarrow> ((None, c), putmhead dev m (upd_chan c (\<lambda>x. x\<lparr>c_mflag := mheadflag m u\<rparr>) u)))
      else ((None, d), putmhead dev m t))"
    using dm cu by (simp add: namec_switch_def Let_def)
  consider (none) "\<not> found" "d = c" "m = None" "t = s"
    | (some) "found" "counted t (addC {#d#} (addM (opt_ms m) H))" "steady H s t" "\<not> is_open (chans t ! d)"
    using cross_plain [OF ownD(1) [OF assms(1)] assms(3) dm] by blast
  then show ?thesis
  proof cases
    case none
    then show ?thesis
      using assms(1,2,4) e by (auto simp: putmhead_def opt_call_def intro!: fin_done own_step_refl)
  next
    case some
    show ?thesis
    proof (cases r)
      case (Inl y)
      have "u = t" by (rule cunique_counted(1) [OF some(2,4) cu Inl])
      moreover have k: "counted t (addM (opt_ms m) (addC {#d#} H))" using some(2) by (simp add: add_comm)
      ultimately show ?thesis
        using assms(4) e some(1) Inl putmhead_counted [OF k, of dev] closes_steady(3) [OF k, of dev] some(3)
        by (auto intro!: fin_error) (meson steady_mono steady_trans)
    next
      case (Inr nc)
      note oc = own_copy_step [OF cunique_counted(2) [OF some(2,4) cu Inr]]
      define v where "v = upd_chan nc (\<lambda>x. x\<lparr>c_mflag := mheadflag m u\<rparr>) u"
      have o1: "own (addM (opt_ms m) H) u nc" using oc by (simp add: own_step_def)
      have s1: "own_step (addM (opt_ms m) H) u nc v" unfolding v_def by (rule own_fields [OF o1]) (simp add: is_free_def)
      then have o2: "own (addM (opt_ms m) H) v nc" by (simp add: own_step_def)
      note p = own_putmhead [OF o2, of dev]
      have st: "steady H s v" using some(3) oc s1 unfolding own_step_def by (meson steady_mono steady_trans)
      have "is_open (chans (putmhead dev m v) ! nc) = False"
        using p(2) oc ownD(3) [OF o1] by (simp add: is_open_def) (simp add: v_def upd_nth)
      moreover have "out = (None, nc)" "s' = putmhead dev m v" using assms(4) e some(1) Inr by (simp_all add: v_def)
      ultimately show ?thesis using own_step_trans [OF st p(1)] by (simp add: fin_done)
    qed
  qed
qed

lemma bind_ok:
  assumes "own H s c" and "\<not> is_open (chans s ! c)" and "ns_ok pg s"
    and "namec_switch dev pg Abind omode perm nomount elems c s = (out, s')"
  shows "fin H s out False s'"
proof -
  obtain found d m x t where dm: "(if nomount then ((False, c, None, None), s) else domount dev pg c None None s) = ((found, d, m, x), t)"
    by (metis prod.exhaust)
  define u where "u = set_mflag (if found then Some d else None) (mheadflag m t) t"
  obtain r v where cu: "cunique dev d u = (r, v)" by fastforce
  have e: "namec_switch dev pg Abind omode perm nomount elems c s =
      (case r of Inl e \<Rightarrow> ((Some e, d), putmhead dev m v) | Inr c \<Rightarrow> ((None, c), upd_chan c (\<lambda>x. x\<lparr>c_umh := m\<rparr>) v))"
    using dm cu by (cases found) (simp_all add: namec_switch_def Let_def u_def set_mflag_def)
  have t: "counted t (addC {#d#} (addM (opt_ms m) H)) \<and> steady H s t \<and> \<not> is_open (chans t ! d)"
    using cross_plain [OF ownD(1) [OF assms(1)] assms(3) dm] ownD(1) [OF assms(1)] assms(2) by auto
  note k = set_mflag_ok [of t "addC {#d#} (addM (opt_ms m) H)", OF conjunct1 [OF t]]
  have u: "counted u (addC {#d#} (addM (opt_ms m) H))" "steady H s u" "\<not> is_open (chans u ! d)"
    using t k(1,4) steady_trans [of H s t u] k(2) by (simp_all add: u_def)
  show ?thesis
  proof (cases r)
    case (Inl y)
    have "v = u" by (rule cunique_counted(1) [OF u(1,3) cu Inl])
    moreover have k: "counted u (addM (opt_ms m) (addC {#d#} H))" using u(1) by (simp add: add_comm)
    ultimately show ?thesis
      using assms(4) e Inl putmhead_counted [OF k, of dev] closes_steady(3) [OF k, of dev] u(2)
      by (auto intro!: fin_error) (meson steady_mono steady_trans)
  next
    case (Inr nc)
    note oc = own_copy_step [OF cunique_counted(2) [OF u(1,3) cu Inr]]
    have o1: "own (addM (opt_ms m) H) v nc" "c_umh (chans v ! nc) = None" using oc by (simp_all add: own_step_def)
    have "steady H s v" using u(2) oc unfolding own_step_def by (meson steady_mono steady_trans)
    from own_step_trans [OF this own_umh [OF o1]]
    have "own_step H s nc s'" "out = (None, nc)" "is_open (chans s' ! nc) = False"
      using assms(4) e Inr oc ownD(3) [OF o1(1)] by (auto simp: upd_nth is_open_def)
    then show ?thesis by (simp add: fin_done)
  qed
qed

lemma namec_switch_ok:
  assumes "own H s c" and "\<not> is_open (chans s ! c)" and "rooted s c" and "ns_ok pg s"
    and "amode = Acreate \<Longrightarrow> \<not> is_dot (last elems)"
    and "namec_switch dev pg amode omode perm nomount elems c s = (out, s')"
  shows "fin H s out (amode \<in> {Aopen, Acreate}) s' \<and> (amode \<in> {Atodir, Amount} \<longrightarrow> c = snd out \<and> s' = s)"
proof (cases amode)
  case Aaccess
  then show ?thesis using access_ok [OF assms(1,2,4)] assms(6) by simp
next
  case Abind
  then show ?thesis using bind_ok [OF assms(1,2,4)] assms(6) by simp
next
  case Acreate
  then show ?thesis
    using namec_create_ok [OF ownD(1) [OF assms(1)] assms(2-5), of _ omode perm nomount] assms(6) by (simp add: namec_switch_def)
next
  case Aopen
  then show ?thesis
    using namec_open_ok [OF ownD(1) [OF assms(1)] assms(2-4), of dev amode omode nomount] assms(6) by (simp add: namec_switch_def)
next
  case Aremove
  then show ?thesis
    using namec_open_ok [OF ownD(1) [OF assms(1)] assms(2-4), of dev amode omode nomount] assms(6) by (simp add: namec_switch_def)
qed (use assms(1,2,6) in \<open>auto simp: namec_switch_def fin_def own_def split: if_splits\<close>)

lemma elems_no_dot:
  assumes "0 \<notin> set name" and "e \<in> set (e_elems (parsename name))" shows "\<not> is_dot e"
proof -
  have "e \<in> set (filter named (components name))"
    using assms parse_loop_elems [OF assms(1)] by (simp add: parsename_def)
  then have "e \<noteq> []" "e \<noteq> [dot]" "0 \<notin> set e"
    using assms(1) components_set [of e name] by (auto simp: named_def)
  then show ?thesis by (cases e; cases "tl e") (auto simp: at_def is_dot_def)
qed

lemma namec_body_ok:
  assumes "counted s (addC {#c#} H)" and "\<not> is_open (chans s ! c)" and "rooted s c" and "ns_ok pg s" and "0 \<notin> set name"
    and "namec_body dev pg amode omode perm nomount name c s = (out, s')"
  shows "fin H s out (amode \<in> {Aopen, Acreate}) s' \<and> (amode \<in> {Atodir, Amount} \<longrightarrow> fst out = None \<longrightarrow> rooted s' (snd out))"
proof -
  define es where "es = e_elems (parsename name)"
  define names where "names = (if amode = Acreate then butlast es else es)"
  have dots: "\<forall>e\<in>set names. \<not> is_dot e" "es \<noteq> [] \<Longrightarrow> \<not> is_dot (last es)"
    using elems_no_dot [OF assms(5)] by (auto simp: names_def es_def dest: in_set_butlastD)
  obtain r t where wk: "walk dev pg c names nomount s = (r, t)" by fastforce
  note k = walk_namec [OF assms(1-4) dots(1) wk]
  have refused: "fin H s (Some x, c) op s" for x op using assms(1) by (simp add: fin_error)
  let ?md = "e_mustbedir (parsename name)"
  show ?thesis
  proof (cases "amode = Acreate \<and> (?md \<and> perm AND DMDIR = 0 \<or> es = [])")
    case True
    then have "s' = s \<and> out \<in> {(Some Enodmdir, c), (Some Eexist, c)}"
      using assms(6) by (auto simp: namec_body_def Let_def es_def split: if_splits)
    then show ?thesis using refused True by auto
  next
    case False
    have e: "namec_body dev pg amode omode perm nomount name c s = (case r of
        Walk_fail _ x \<Rightarrow> ((Some (walk_err x), c), t) | Walk_raise x \<Rightarrow> ((Some x, c), t)
      | Walked c \<Rightarrow> if ?md \<and> \<not> is_dir (c_qid (the_chan t c)) then ((Some Enotdir, c), t)
          else if amode = Aopen \<and> omode AND 3 = OEXEC \<and> is_dir (c_qid (the_chan t c)) then ((Some Eexecdir, c), t)
          else namec_switch dev pg amode omode perm nomount es c t)"
      using False unfolding namec_body_def Let_def es_def [symmetric] names_def [symmetric] wk prod.case by (cases r) auto
    show ?thesis
    proof (cases r)
      case (Walked d)
      note kd = k(1) [OF Walked]
      have err: "fin H s (Some x, d) op t" for x op using kd by (simp add: fin_error reached_def)
      have dl: "amode = Acreate \<Longrightarrow> \<not> is_dot (last es)" using dots(2) False by auto
      show ?thesis
      proof (cases "?md \<and> \<not> is_dir (c_qid (the_chan t d)) \<or> amode = Aopen \<and> omode AND 3 = OEXEC \<and> is_dir (c_qid (the_chan t d))")
        case True
        then show ?thesis using assms(6) e Walked err by (auto split: if_splits)
      next
        case False
        then have sw: "namec_switch dev pg amode omode perm nomount es d t = (out, s')" using assms(6) e Walked by auto
        have d: "own H t d" "\<not> is_open (chans t ! d)" "rooted t d" "ns_ok pg t" "steady H s t" using kd by (simp_all add: reached_def)
        note sk = namec_switch_ok [OF d(1-4) dl sw]
        then show ?thesis using d(3) fin_steady [OF d(5)] by auto
      qed
    next
      case (Walk_fail a b)
      then show ?thesis using assms(6) e k(2) [OF Walk_fail] by (auto simp: reached_def intro: fin_error)
    next
      case (Walk_raise x)
      then show ?thesis using assms(6) e k(3) [OF Walk_raise] by auto
    qed
  qed
qed

lemma namec_ok:
  assumes "counted s H" and "ns_ok pg s" and "0 \<notin> set aname"
  shows "case namec dev pg aname amode omode perm s of
      (Inr c, s') \<Rightarrow> counted s' (addC {#c#} H) \<and> c \<notin># ownC s' + hC H \<and> (is_open (chans s' ! c) \<longleftrightarrow> amode \<in> {Aopen, Acreate})
        \<and> steady H s s' \<and> ns_ok pg s' \<and> (amode \<in> {Atodir, Amount} \<longrightarrow> rooted s' c)
    | (Inl e, s') \<Rightarrow> (counted s' H \<or> e = Eclone \<and> (\<exists>C M N. counted s' (addC C (addM M (addN N H)))))
        \<and> steady H s s' \<and> ns_ok pg s'"
proof -
  obtain q t where ns: "namec_start dev pg aname s = (q, t)" by fastforce
  have same: "steady H s s' \<Longrightarrow> ns_ok pg s'" for s' using ns_ok_steady [OF _ assms(1,2)] by blast
  show ?thesis
  proof (cases "aname \<noteq> [] \<and> validname aname True = Name_ok \<and> (\<forall>e. q \<noteq> Inl e)")
    case True
    then obtain c name nomount where q: "q = Inr (c, name, nomount)" by (cases q) auto
    note st = namec_start_ok(2) [OF assms(1,2) ns assms(3) q]
    have t: "counted t (addC {#c#} H)" "\<not> is_open (chans t ! c)" "rooted t c" "ns_ok pg t" "0 \<notin> set name" "steady H s t"
      using st same by (simp_all add: reached_def)
    obtain er d u where b: "namec_body dev pg amode omode perm nomount name c t = ((er, d), u)" by (metis prod.exhaust)
    note k = namec_body_ok [OF t(1-5) b]
    have su: "steady H s u" using k steady_trans [OF t(6)] by (simp add: fin_def)
    show ?thesis
    proof (cases er)
      case None
      then have "namec dev pg aname amode omode perm s = (Inr d, u)" using True ns q b by (simp add: namec_def)
      then show ?thesis using k None su same by (simp add: fin_def own_def)
    next
      case (Some x)
      define u' where "u' = cclose dev (Some d) u"
      have e: "namec dev pg aname amode omode perm s = (Inl x, u')" using True ns q b Some by (simp add: namec_def u'_def)
      have cl: "counted u' K \<and> steady K u u'" if "counted u (addC {#d#} K)" for K
        using cclose_counted [of u "Some d" K dev] closes_steady(1) [of u "Some d" K dev] that by (simp add: u'_def)
      consider "counted u (addC {#d#} H)" | C M N where "x = Eclone" "counted u (addC {#d#} (addC C (addM M (addN N H))))"
        using k Some by (auto simp: fin_def add_comm ac_simps)
      then have "(counted u' H \<or> x = Eclone \<and> (\<exists>C M N. counted u' (addC C (addM M (addN N H))))) \<and> steady H u u'"
        by cases (use cl steady_mono in \<open>blast+\<close>)
      then show ?thesis using e steady_trans [OF su] same by auto
    qed
  next
    case False
    have "\<exists>x. namec dev pg aname amode omode perm s = (Inl x, s)"
    proof (cases "aname = [] \<or> validname aname True \<noteq> Name_ok")
      case True
      then show ?thesis by (auto simp: namec_def split: namecheck.split)
    next
      case bad: False
      then obtain e where "q = Inl e" using False by auto
      then show ?thesis using bad ns namec_start_ok(1) [OF assms(1,2) ns assms(3)] by (simp add: namec_def)
    qed
    then show ?thesis using assms(1,2) by auto
  qed
qed



text \<open>The small world of theory WalkProps with its root directory in the process group.\<close>

definition ex_group :: "unit kst" where
  "ex_group = ex_world\<lparr>pgrps := [(pgrps ex_world ! 0)\<lparr>pg_dot := Some 0, pg_slash := Some 0\<rparr>],
     chans := (chans ex_world)[0 := (chans ex_world ! 0)\<lparr>c_ref := 2\<rparr>]\<rparr>"

lemma ex_group_ok: "counted ex_group held0" "ns_ok 0 ex_group"
proof -
  have own: "ownC ex_group = {#0, 0, 1, 2#}" "nsC ex_group = {#0, 0, 1, 2#}" "ownN ex_group = {#0, 1, 2#}" "ownM ex_group = {#0#}"
    "links ex_group = {#0#}"
    by (simp_all add: ex_group_def ex_world_def ownC_def ownN_def ownM_def nsC_def links_def ex_flags chanC_def chanN_def chanM_def
        nameC_def headC_def mountsC_def pgrpC_def pgrpM_def opts_ms_def ex_name_def numeral_eq_Suc)
      (simp_all add: ex_chan_def chan0_def is_free_def)
  have l: "length (chans ex_group) = 3" "length (cnames ex_group) = 3" "length (mheads ex_group) = 1"
    by (simp_all add: ex_group_def ex_lengths)
  have fr: "frees ex_group = {#}"
    by (simp add: frees_def l numeral_eq_Suc upt_rec) (simp add: ex_group_def ex_world_def ex_flags)
  show "counted ex_group held0"
    unfolding counted_def chanrc.ok_def namerc.ok_def headrc.ok_def refs_ok_def l own fr
    by (simp add: All_less_Suc numeral_eq_Suc)
       (simp add: ex_group_def ex_world_def held0_def ex_flags ex_name_def, simp add: ex_chan_def chan0_def is_open_def is_free_def)
  have "origin ex_group 0 (0, 0, 10) 0"
    by (simp add: origin_def ex_group_def ex_world_def ex_name_def ex_chan_def chan0_def place_def chan_dev_def)
  then have "rooted ex_group 0" unfolding rooted_def by blast
  then show "ns_ok 0 ex_group"
    by (simp add: ns_ok_def linked_ok_def own live_pgrp_def rooted_opt_def) (simp add: ex_group_def ex_world_def MNTHASH_def)
qed


end
