(* ===== verification/Sysfile.thy ===== *)
theory Sysfile
  imports Namec Stat9P
begin

text \<open>
  The system calls on files: emu/port/sysfile.c. A call returns an error, which the C code leaves in
  \<open>errstr\<close> beside its -1, or its value. The caller's process group and file descriptor group are
  parameters (\<open>up->env\<close>). A C \<open>vlong\<close> is an integer here, with its wrap-around written out where the
  code adds without a check; the locks are left out.
\<close>

unbundle bit_operations_syntax

section \<open>File descriptors\<close>

definition MAXNFD :: int where "MAXNFD = 4000"
definition QTAUTH :: u8 where "QTAUTH = 0x08"

abbreviation the_fgrp :: "'d kst \<Rightarrow> nat \<Rightarrow> fgrp" where "the_fgrp s f \<equiv> fgrps s ! f"
abbreviation nfd :: "fgrp \<Rightarrow> int" where "nfd f \<equiv> int (length (fg_fd f))"

text \<open>\<open>growfd\<close>: whether descriptor \<open>fd\<close> fits, and the table, extended by a quantum if need be.\<close>

definition growfd :: "fgrp \<Rightarrow> int \<Rightarrow> bool \<times> fgrp" where
  "growfd f fd =
     (if fd < nfd f then (True, f)
      else
        (let n = min (nfd f + DELTAFD) MAXNFD in
         if fd \<ge> n then (False, f)
         else (True, f\<lparr>fg_fd := fg_fd f @ replicate (nat n - length (fg_fd f)) None\<rparr>)))"

text \<open>The loop of \<open>newfd\<close>: the first free slot from \<open>i\<close> on, or the size of the table.\<close>

definition first_free :: "nat option list \<Rightarrow> nat \<Rightarrow> nat" where
  "first_free fd i = i + length (takeWhile (\<lambda>c. c \<noteq> None) (drop i fd))"

definition newfd :: "nat \<Rightarrow> nat \<Rightarrow> 'd kst \<Rightarrow> nat res \<times> 'd kst" where
  "newfd fg c s =
     (let f = the_fgrp s fg;
          i = first_free (fg_fd f) (nat (fg_minfd f));
          (ok, f) = (if int i \<ge> nfd f then growfd f (int i) else (True, f))
      in if \<not> ok then (Inl Enofd, s)
         else
           (Inr i, upd_fgrp fg (\<lambda>_. f\<lparr>fg_minfd := int i + 1, fg_maxfd := max (fg_maxfd f) (int i),
              fg_fd := (fg_fd f)[i := Some c]\<rparr>) s))"

text \<open>The channel in a slot that \<open>maxfd\<close> admits; a slot past the table would be a wild read.\<close>

definition fd_slot :: "fgrp \<Rightarrow> int \<Rightarrow> nat option" where
  "fd_slot f fd = (if fd < 0 \<or> fg_maxfd f < fd then None else fg_fd f ! nat fd)"

text \<open>The mode checks of \<open>fdtochan\<close>; \<open>mode\<close> is negative for no check.\<close>

definition mode_ok :: "int \<Rightarrow> u16 \<Rightarrow> bool" where
  "mode_ok mode cmode =
     (if mode < 0 \<or> cmode = 2 then True
      else if mode AND 16 \<noteq> 0 \<and> cmode = 0 then False
      else mode AND NOT 16 = uint cmode)"

definition fdtochan :: "'d devops \<Rightarrow> nat \<Rightarrow> int \<Rightarrow> int \<Rightarrow> bool \<Rightarrow> bool \<Rightarrow> 'd kst \<Rightarrow> nat res \<times> 'd kst" where
  "fdtochan dev fg fd mode chkmnt iref s =
     (let f = the_fgrp s fg in
      if 0 \<le> fd \<and> fd \<le> fg_maxfd f \<and> length (fg_fd f) \<le> nat fd then (Inl Ebadfd, set_fault s)
      else
        (case fd_slot f fd of
           None \<Rightarrow> (Inl Ebadfd, s)
         | Some c \<Rightarrow>
             (let s = (if iref then incref_chan c s else s) in
              if (chkmnt \<and> c_flag (the_chan s c) AND CMSG \<noteq> 0) \<or> \<not> mode_ok mode (c_mode (the_chan s c)) then
                (Inl Ebadusefd, if iref then cclose dev (Some c) s else s)
              else (Inr c, s))))"

text \<open>\<open>for(i=fd; --i>=0 && f->fd[i]==0; ) f->maxfd = i;\<close>\<close>

primrec lower_max :: "nat option list \<Rightarrow> nat \<Rightarrow> int \<Rightarrow> int" where
  "lower_max fd 0 m = m"
| "lower_max fd (Suc i) m = (if fd ! i = None then lower_max fd i (int i) else m)"

definition drop_fd :: "int \<Rightarrow> fgrp \<Rightarrow> fgrp" where
  "drop_fd fd f =
     (let t = (fg_fd f)[nat fd := None];
          m = (if fd = fg_maxfd f then lower_max t (nat fd) (fg_maxfd f) else fg_maxfd f)
      in f\<lparr>fg_fd := t, fg_maxfd := m, fg_minfd := min (fg_minfd f) fd\<rparr>)"

definition fdclose :: "'d devops \<Rightarrow> nat \<Rightarrow> int \<Rightarrow> 'd kst \<Rightarrow> 'd kst" where
  "fdclose dev fg fd s =
     (case fd_slot (the_fgrp s fg) fd of
        None \<Rightarrow> s
      | Some c \<Rightarrow> cclose dev (Some c) (upd_fgrp fg (drop_fd fd) s))"

definition kfgrpclose :: "'d devops \<Rightarrow> nat \<Rightarrow> int \<Rightarrow> 'd kst \<Rightarrow> unit res \<times> 'd kst" where
  "kfgrpclose dev fg fd s =
     (case fdtochan dev fg fd (-1) False False s of
        (Inl e, s) \<Rightarrow> (Inl e, s)
      | (Inr _, s) \<Rightarrow> (Inr (), fdclose dev fg fd s))"

text \<open>\<open>openmode\<close>: only the error it raises or the mode it gives.\<close>

definition openmode :: "u32 \<Rightarrow> u32 res" where
  "openmode mode =
     (if mode \<ge> OTRUNC OR OCEXEC OR ORCLOSE OR OEXEC then Inl Ebadarg
      else
        (let mode = mode AND NOT (OTRUNC OR OCEXEC OR ORCLOSE) in
         if mode > OEXEC then Inl Ebadarg
         else if mode = OEXEC then Inr 0
         else Inr mode))"

section \<open>Calls that make and move descriptors\<close>

text \<open>A new descriptor for a channel of ours, which is closed again when there is none.\<close>

definition give_fd :: "'d devops \<Rightarrow> nat \<Rightarrow> nat \<Rightarrow> 'd kst \<Rightarrow> nat res \<times> 'd kst" where
  "give_fd dev fg c s =
     (case newfd fg c s of
        (Inl e, s) \<Rightarrow> (Inl e, cclose dev (Some c) s)
      | (Inr fd, s) \<Rightarrow> (Inr fd, s))"

definition kopen :: "'d devops \<Rightarrow> nat \<Rightarrow> nat \<Rightarrow> bytes \<Rightarrow> u32 \<Rightarrow> 'd kst \<Rightarrow> nat res \<times> 'd kst" where
  "kopen dev pg fg path mode s =
     (case openmode mode of
        Inl e \<Rightarrow> (Inl e, s)
      | Inr _ \<Rightarrow>
          (case namec dev pg path Aopen mode 0 s of
             (Inl e, s) \<Rightarrow> (Inl e, s)
           | (Inr c, s) \<Rightarrow> give_fd dev fg c s))"

definition kcreate :: "'d devops \<Rightarrow> nat \<Rightarrow> nat \<Rightarrow> bytes \<Rightarrow> u32 \<Rightarrow> u32 \<Rightarrow> 'd kst \<Rightarrow> nat res \<times> 'd kst" where
  "kcreate dev pg fg path mode perm s =
     (case openmode (mode AND NOT OEXCL) of
        Inl e \<Rightarrow> (Inl e, s)
      | Inr _ \<Rightarrow>
          (case namec dev pg path Acreate mode perm s of
             (Inl e, s) \<Rightarrow> (Inl e, s)
           | (Inr c, s) \<Rightarrow> give_fd dev fg c s))"

text \<open>The part of \<open>kdup\<close> for a descriptor given by the caller.\<close>

definition dup_to :: "'d devops \<Rightarrow> nat \<Rightarrow> nat \<Rightarrow> int \<Rightarrow> 'd kst \<Rightarrow> nat res \<times> 'd kst" where
  "dup_to dev fg c fd s =
     (let (ok, f) = (if fd < 0 then (False, the_fgrp s fg) else growfd (the_fgrp s fg) fd) in
      if \<not> ok then (Inl Ebadfd, cclose dev (Some c) s)
      else
        (let oc = fg_fd f ! nat fd;
             s = upd_fgrp fg (\<lambda>_. f\<lparr>fg_maxfd := max (fg_maxfd f) fd, fg_fd := (fg_fd f)[nat fd := Some c]\<rparr>) s
         in (Inr (nat fd), cclose dev oc s)))"

definition kdup :: "'d devops \<Rightarrow> nat \<Rightarrow> int \<Rightarrow> int \<Rightarrow> 'd kst \<Rightarrow> nat res \<times> 'd kst" where
  "kdup dev fg old new s =
     (case fdtochan dev fg old (-1) False True s of
        (Inl e, s) \<Rightarrow> (Inl e, s)
      | (Inr c, s) \<Rightarrow>
          if q_type (c_qid (the_chan s c)) AND QTAUTH \<noteq> 0 then (Inl Eperm, s)
          else if new \<noteq> -1 then dup_to dev fg c new s
          else give_fd dev fg c s)"

definition kfd2path :: "'d devops \<Rightarrow> nat \<Rightarrow> int \<Rightarrow> 'd kst \<Rightarrow> bytes option res \<times> 'd kst" where
  "kfd2path dev fg fd s =
     (case fdtochan dev fg fd (-1) False True s of
        (Inl e, s) \<Rightarrow> (Inl e, s)
      | (Inr c, s) \<Rightarrow>
          (Inr (map_option (\<lambda>n. n_s (the_name s n)) (c_name (the_chan s c))), cclose dev (Some c) s))"

definition kiounit :: "'d devops \<Rightarrow> nat \<Rightarrow> int \<Rightarrow> 'd kst \<Rightarrow> nat res \<times> 'd kst" where
  "kiounit dev fg fd s =
     (case fdtochan dev fg fd (-1) False True s of
        (Inl e, s) \<Rightarrow> (Inl e, s)
      | (Inr c, s) \<Rightarrow> (Inr (c_iounit (the_chan s c)), cclose dev (Some c) s))"

section \<open>Calls on the name space\<close>

definition kchdir :: "'d devops \<Rightarrow> nat \<Rightarrow> bytes \<Rightarrow> 'd kst \<Rightarrow> unit res \<times> 'd kst" where
  "kchdir dev pg path s =
     (case namec dev pg path Atodir 0 0 s of
        (Inl e, s) \<Rightarrow> (Inl e, s)
      | (Inr c, s) \<Rightarrow>
          (let old = pg_dot (the_pgrp s pg)
           in (Inr (), cclose dev old (upd_pgrp pg (\<lambda>p. p\<lparr>pg_dot := Some c\<rparr>) s))))"

definition bindflag :: "u32 \<Rightarrow> chan \<Rightarrow> u32 res" where
  "bindflag flag c =
     (if sint flag > 0x17 \<or> flag AND MORDER = MBEFORE OR MAFTER \<or>
         flag AND (MCREATE OR MREADONLY) = MCREATE OR MREADONLY then Inl Ebadarg
      else if c_mflag c AND MREADONLY \<noteq> 0 then Inr ((flag AND NOT MCREATE) OR MREADONLY)
      else Inr flag)"

definition bindmount ::
  "'d devops \<Rightarrow> nat \<Rightarrow> nat \<Rightarrow> bytes \<Rightarrow> u32 \<Rightarrow> bytes option \<Rightarrow> 'd kst \<Rightarrow> nat res \<times> 'd kst" where
  "bindmount dev pg c old flag spec s =
     (case bindflag flag (the_chan s c) of
        Inl e \<Rightarrow> (Inl e, s)
      | Inr flag \<Rightarrow>
          (case namec dev pg old Amount 0 0 s of
             (Inl e, s) \<Rightarrow> (Inl e, s)
           | (Inr c1, s) \<Rightarrow>
               (let (r, s) = cmount dev pg c c1 flag spec s in (r, cclose dev (Some c1) s))))"

definition kbind :: "'d devops \<Rightarrow> nat \<Rightarrow> bytes \<Rightarrow> bytes \<Rightarrow> u32 \<Rightarrow> 'd kst \<Rightarrow> nat res \<times> 'd kst" where
  "kbind dev pg new old flags s =
     (case namec dev pg new Abind 0 0 s of
        (Inl e, s) \<Rightarrow> (Inl e, s)
      | (Inr c0, s) \<Rightarrow>
          (let (r, s) = bindmount dev pg c0 old flags (Some []) s in (r, cclose dev (Some c0) s)))"

definition kunmount :: "'d devops \<Rightarrow> nat \<Rightarrow> bytes \<Rightarrow> bytes \<Rightarrow> 'd kst \<Rightarrow> unit res \<times> 'd kst" where
  "kunmount dev pg old new s =
     (case namec dev pg new Amount 0 0 s of
        (Inl e, s) \<Rightarrow> (Inl e, s)
      | (Inr c, s) \<Rightarrow>
          (case (if old = [] then (Inr None, s)
                 else (case namec dev pg old Aopen 0 0 s of (Inl e, s) \<Rightarrow> (Inl e, s) | (Inr d, s) \<Rightarrow> (Inr (Some d), s))) of
             (Inl e, s) \<Rightarrow> (Inl e, cclose dev (Some c) s)
           | (Inr d, s) \<Rightarrow>
               (case cunmount dev pg c d s of
                  (Inl e, s) \<Rightarrow> (Inl e, cclose dev d (cclose dev (Some c) s))
                | (Inr _, s) \<Rightarrow> (Inr (), cclose dev d (cclose dev (Some c) s)))))"

section \<open>Reading, writing and seeking\<close>

text \<open>
  The devices' operations on open files, with the new state of the device: read at most so many bytes at an
  offset, write bytes at an offset, stat into a buffer of a size, wstat, remove, and the device's letter.
\<close>

record 'd iops =
  dread :: "'d \<Rightarrow> chan \<Rightarrow> int \<Rightarrow> int \<Rightarrow> bytes res \<times> 'd"
  dwrite :: "'d \<Rightarrow> chan \<Rightarrow> bytes \<Rightarrow> int \<Rightarrow> int res \<times> 'd"
  dstat :: "'d \<Rightarrow> chan \<Rightarrow> nat \<Rightarrow> bytes res"
  dwstat :: "'d \<Rightarrow> chan \<Rightarrow> bytes \<Rightarrow> int res \<times> 'd"
  dremove :: "'d \<Rightarrow> chan \<Rightarrow> unit res \<times> 'd"
  dletter :: "u16 \<Rightarrow> nat"

text \<open>The sum of two \<open>vlong\<close>s as the machine makes it.\<close>

definition vadd :: "int \<Rightarrow> int \<Rightarrow> int" where
  "vadd a b = sint (word_of_int (a + b) :: 64 word)"

definition add_offset :: "nat \<Rightarrow> int \<Rightarrow> 'd kst \<Rightarrow> 'd kst" where
  "add_offset c n = upd_chan c (\<lambda>x. x\<lparr>c_offset := vadd (c_offset x) n\<rparr>)"

definition set_offset :: "nat \<Rightarrow> int \<Rightarrow> 'd kst \<Rightarrow> 'd kst" where
  "set_offset c n = upd_chan c (\<lambda>x. x\<lparr>c_offset := n\<rparr>)"

definition do_read :: "'d iops \<Rightarrow> nat \<Rightarrow> int \<Rightarrow> int \<Rightarrow> 'd kst \<Rightarrow> bytes res \<times> 'd kst" where
  "do_read io c n off s = (let (r, d) = dread io (dst s) (the_chan s c) n off in (r, s\<lparr>dst := d\<rparr>))"

text \<open>\<open>unionread\<close>: the element of the union being read, opened if it is not.\<close>

definition union_open :: "'d devops \<Rightarrow> nat \<Rightarrow> mount \<Rightarrow> 'd kst \<Rightarrow> nat res \<times> 'd kst" where
  "union_open dev c m s =
     (case c_umc (the_chan s c) of
        Some u \<Rightarrow> (Inr u, s)
      | None \<Rightarrow>
          (case cclone dev (mt_to m) s of
             (Inl e, s) \<Rightarrow> (Inl e, s)
           | (Inr u, s) \<Rightarrow>
               (let s = upd_chan c (\<lambda>x. x\<lparr>c_umc := Some u\<rparr>) s in
                case dopen dev (dst s) (the_chan s u) 0 of
                  Inl e \<Rightarrow> (Inl e, s)
                | Inr qm \<Rightarrow> (Inr u, set_mode u qm s))))"

text \<open>\<open>if(c->umc){ cclose(c->umc); c->umc = nil; }\<close>\<close>

definition drop_umc :: "'d devops \<Rightarrow> nat \<Rightarrow> 'd kst \<Rightarrow> 'd kst" where
  "drop_umc dev c s =
     (case c_umc (the_chan s c) of
        None \<Rightarrow> s
      | Some u \<Rightarrow> upd_chan c (\<lambda>x. x\<lparr>c_umc := None\<rparr>) (cclose dev (Some u) s))"

text \<open>An error in an element makes it be skipped, as one with nothing left to read.\<close>

definition union_elem :: "'d devops \<Rightarrow> 'd iops \<Rightarrow> nat \<Rightarrow> int \<Rightarrow> mount \<Rightarrow> 'd kst \<Rightarrow> bytes \<times> 'd kst" where
  "union_elem dev io c n m s =
     (case union_open dev c m s of
        (Inl _, s) \<Rightarrow> ([], s)
      | (Inr u, s) \<Rightarrow>
          (case do_read io u n (c_offset (the_chan s u)) s of
             (Inl _, s) \<Rightarrow> ([], s)
           | (Inr b, s) \<Rightarrow> (b, add_offset u (int (length b)) s)))"

fun union_loop :: "'d devops \<Rightarrow> 'd iops \<Rightarrow> nat \<Rightarrow> int \<Rightarrow> mount list \<Rightarrow> 'd kst \<Rightarrow> bytes \<times> 'd kst" where
  "union_loop dev io c n [] s = ([], s)"
| "union_loop dev io c n (m # ms) s =
     (let (b, s) = union_elem dev io c n m s in
      if b \<noteq> [] then (b, s)
      else union_loop dev io c n ms (drop_umc dev c (upd_chan c (\<lambda>x. x\<lparr>c_uri := c_uri x + 1\<rparr>) s)))"

definition unionread :: "'d devops \<Rightarrow> 'd iops \<Rightarrow> nat \<Rightarrow> nat \<Rightarrow> int \<Rightarrow> 'd kst \<Rightarrow> bytes \<times> 'd kst" where
  "unionread dev io c h n s =
     union_loop dev io c n (drop (nat (c_uri (the_chan s c))) (mh_mount (the_mhead s h))) s"

definition unionrewind :: "'d devops \<Rightarrow> nat \<Rightarrow> 'd kst \<Rightarrow> 'd kst" where
  "unionrewind dev c s = drop_umc dev c (upd_chan c (\<lambda>x. x\<lparr>c_uri := 0\<rparr>) s)"

text \<open>\<open>rread\<close> on the channel: \<open>offp\<close> is the offset \<open>kpread\<close> gives.\<close>

definition read_at :: "'d devops \<Rightarrow> 'd iops \<Rightarrow> nat \<Rightarrow> int \<Rightarrow> int option \<Rightarrow> 'd kst \<Rightarrow> bytes res \<times> 'd kst" where
  "read_at dev io c n offp s =
     (let off = (case offp of None \<Rightarrow> c_offset (the_chan s c) | Some off \<Rightarrow> off) in
      if off < 0 then (Inl Enegoff, s)
      else
        (let s = (if off = 0 then
                    unionrewind dev c (if offp = None then upd_chan c (\<lambda>x. x\<lparr>c_offset := 0, c_dri := 0\<rparr>) s else s)
                  else s)
         in case do_read io c n off s of
              (Inl e, s) \<Rightarrow> (Inl e, s)
            | (Inr b, s) \<Rightarrow> (Inr b, add_offset c (int (length b)) s)))"

definition rread :: "'d devops \<Rightarrow> 'd iops \<Rightarrow> nat \<Rightarrow> int \<Rightarrow> int \<Rightarrow> int option \<Rightarrow> 'd kst \<Rightarrow> bytes res \<times> 'd kst" where
  "rread dev io fg fd n offp s =
     (case fdtochan dev fg fd 0 True True s of
        (Inl e, s) \<Rightarrow> (Inl e, s)
      | (Inr c, s) \<Rightarrow>
          (let (r, s) =
             (if n < 0 then (Inl Etoosmall, s)
              else
                (case (is_dir (c_qid (the_chan s c)), c_umh (the_chan s c)) of
                   (True, Some h) \<Rightarrow> (let (b, s) = unionread dev io c h n s in (Inr b, s))
                 | _ \<Rightarrow> read_at dev io c n offp s))
           in (r, cclose dev (Some c) s)))"

definition kread where "kread dev io fg fd n = rread dev io fg fd n None"
definition kpread where "kpread dev io fg fd n off = rread dev io fg fd n (Some off)"

text \<open>\<open>rwrite\<close>: without an explicit offset the file's is advanced first and taken back by what was not written.\<close>

definition write_at :: "'d iops \<Rightarrow> nat \<Rightarrow> bytes \<Rightarrow> int option \<Rightarrow> 'd kst \<Rightarrow> int res \<times> 'd kst" where
  "write_at io c b offp s =
     (let n = int (length b);
          (off, s) = (case offp of None \<Rightarrow> (c_offset (the_chan s c), add_offset c n s) | Some off \<Rightarrow> (off, s));
          back = (\<lambda>k s. if offp = None then add_offset c (- k) s else s)
      in if off < 0 then (Inl Enegoff, back n s)
         else
           (let (r, d) = dwrite io (dst s) (the_chan s c) b off; s = s\<lparr>dst := d\<rparr> in
            case r of
              Inl e \<Rightarrow> (Inl e, back n s)
            | Inr m \<Rightarrow> (Inr m, if m < n then back (n - m) s else s)))"

definition rwrite :: "'d devops \<Rightarrow> 'd iops \<Rightarrow> nat \<Rightarrow> int \<Rightarrow> bytes \<Rightarrow> int option \<Rightarrow> 'd kst \<Rightarrow> int res \<times> 'd kst" where
  "rwrite dev io fg fd b offp s =
     (case fdtochan dev fg fd 1 True True s of
        (Inl e, s) \<Rightarrow> (Inl e, s)
      | (Inr c, s) \<Rightarrow>
          (let (r, s) = (if is_dir (c_qid (the_chan s c)) then (Inl Eisdir, s) else write_at io c b offp s)
           in (r, cclose dev (Some c) s)))"

definition kwrite where "kwrite dev io fg fd b = rwrite dev io fg fd b None"
definition kpwrite where "kpwrite dev io fg fd b off = rwrite dev io fg fd b (Some off)"

definition vlong_max :: int where "vlong_max = 2 ^ 63 - 1"

definition seekadd :: "int \<Rightarrow> int \<Rightarrow> int res" where
  "seekadd base off =
     (if off > 0 \<and> base > vlong_max - off then Inl Ebadarg
      else if off < 0 \<and> base < - vlong_max - 1 - off then Inl Ebadarg
      else Inr (base + off))"

text \<open>
  \<open>chandirstat\<close>: the directory entry, in a buffer of \<open>DIRSIZE\<close> bytes first and then of the size asked for. The
  strings past the end of the entry are those \<open>convM2D\<close> leaves as they were in a fresh \<open>Dir\<close>.
\<close>

definition DIRSIZE :: nat where "DIRSIZE = STATFIXLEN + 32 * 4"

definition dir0 :: dir where
  "dir0 = \<lparr>d_type = 0, d_dev = 0, d_qid = qid0, d_mode = 0, d_atime = 0, d_mtime = 0, d_length = 0,
     d_name = None, d_uid = None, d_gid = None, d_muid = None\<rparr>"

fun dirstat_loop :: "'d iops \<Rightarrow> nat \<Rightarrow> nat \<Rightarrow> nat \<Rightarrow> 'd kst \<Rightarrow> dir option" where
  "dirstat_loop io c 0 nd s = None"
| "dirstat_loop io c (Suc i) nd s =
     (case dstat io (dst s) (the_chan s c) nd of
        Inl _ \<Rightarrow> None
      | Inr buf \<Rightarrow>
          (case GBIT16 buf of
             None \<Rightarrow> None
           | Some k \<Rightarrow>
               let nd = unat k + 2 in
               if nd \<le> length buf then Some (case convM2D buf True dir0 of None \<Rightarrow> dir0 | Some (_, d) \<Rightarrow> d)
               else dirstat_loop io c i nd s))"

definition chandirstat :: "'d iops \<Rightarrow> nat \<Rightarrow> 'd kst \<Rightarrow> dir option" where
  "chandirstat io c = dirstat_loop io c 2 DIRSIZE"

definition seek_to :: "'d devops \<Rightarrow> 'd iops \<Rightarrow> nat \<Rightarrow> int \<Rightarrow> int \<Rightarrow> 'd kst \<Rightarrow> int res \<times> 'd kst" where
  "seek_to dev io c off whence s =
     (let isdir = is_dir (c_qid (the_chan s c)) in
      if dletter io (c_type (the_chan s c)) = 124 then (Inl Eisstream, s)
      else if whence = 0 then
        (if isdir then
           (if off \<noteq> 0 then (Inl Eisdir, s) else (Inr off, set_offset c off (unionrewind dev c s)))
         else if off < 0 then (Inl Enegoff, s)
         else (Inr off, set_offset c off s))
      else if whence = 1 then
        (if isdir then (Inl Eisdir, s)
         else (case seekadd (c_offset (the_chan s c)) off of
                 Inl e \<Rightarrow> (Inl e, s)
               | Inr off \<Rightarrow> if off < 0 then (Inl Enegoff, s) else (Inr off, set_offset c off s)))
      else if whence = 2 then
        (if isdir then (Inl Eisdir, s)
         else (case chandirstat io c s of
                 None \<Rightarrow> (Inl Estat, s)
               | Some dir \<Rightarrow>
                   (case seekadd (sint (d_length dir)) off of
                      Inl e \<Rightarrow> (Inl e, s)
                    | Inr off \<Rightarrow> if off < 0 then (Inl Enegoff, s) else (Inr off, set_offset c off s))))
      else (Inl Ebadarg, s))"

definition kseek :: "'d devops \<Rightarrow> 'd iops \<Rightarrow> nat \<Rightarrow> int \<Rightarrow> int \<Rightarrow> int \<Rightarrow> 'd kst \<Rightarrow> int res \<times> 'd kst" where
  "kseek dev io fg fd off whence s =
     (case fdtochan dev fg fd (-1) True True s of
        (Inl e, s) \<Rightarrow> (Inl e, s)
      | (Inr c, s) \<Rightarrow>
          (case seek_to dev io c off whence s of
             (Inl e, s) \<Rightarrow> (Inl e, cclose dev (Some c) s)
           | (Inr off, s) \<Rightarrow> (Inr off, cclose dev (Some c) (upd_chan c (\<lambda>x. x\<lparr>c_dri := 0\<rparr>) s))))"

section \<open>Status and removal\<close>

text \<open>\<open>validstat\<close>: the error raised, if any.\<close>

definition validstat :: "bytes \<Rightarrow> kerror option" where
  "validstat b =
     (if statcheckbuf b \<noteq> Some (length b) then Some Ebadstat
      else
        (case GBIT16 (drop (STATFIXLEN - 4 * 2) b) of
           None \<Rightarrow> None
         | Some m \<Rightarrow>
             if unat m + 1 > 64 then None
             else
               (let name = cstr_at (take (unat m) (drop (STATFIXLEN - 4 * 2 + 2) b)) in
                if name = [slash] then None
                else (case validname name False of Name_ok \<Rightarrow> None | Name_too_long \<Rightarrow> Some Etoolong | Bad_char \<Rightarrow> Some Ebadchar))))"

text \<open>A call on a channel of ours that is closed afterwards, with or without an error.\<close>

definition on_chan :: "'d devops \<Rightarrow> nat res \<times> 'd kst \<Rightarrow> (nat \<Rightarrow> 'd kst \<Rightarrow> 'a res \<times> 'd kst) \<Rightarrow> 'a res \<times> 'd kst" where
  "on_chan dev r f =
     (case r of
        (Inl e, s) \<Rightarrow> (Inl e, s)
      | (Inr c, s) \<Rightarrow> (let (x, s) = f c s in (x, cclose dev (Some c) s)))"

definition kfstat :: "'d devops \<Rightarrow> 'd iops \<Rightarrow> nat \<Rightarrow> int \<Rightarrow> nat \<Rightarrow> 'd kst \<Rightarrow> bytes res \<times> 'd kst" where
  "kfstat dev io fg fd n s =
     on_chan dev (fdtochan dev fg fd (-1) False True s) (\<lambda>c s. (dstat io (dst s) (the_chan s c) n, s))"

definition kstat :: "'d devops \<Rightarrow> 'd iops \<Rightarrow> nat \<Rightarrow> bytes \<Rightarrow> nat \<Rightarrow> 'd kst \<Rightarrow> bytes res \<times> 'd kst" where
  "kstat dev io pg path n s =
     on_chan dev (namec dev pg path Aaccess 0 0 s) (\<lambda>c s. (dstat io (dst s) (the_chan s c) n, s))"

definition wstat_chan :: "'d iops \<Rightarrow> bytes \<Rightarrow> nat \<Rightarrow> 'd kst \<Rightarrow> int res \<times> 'd kst" where
  "wstat_chan io b c s =
     (case checkwritable (the_chan s c) of
        Inl e \<Rightarrow> (Inl e, s)
      | Inr _ \<Rightarrow> (let (r, d) = dwstat io (dst s) (the_chan s c) b in (r, s\<lparr>dst := d\<rparr>)))"

definition kfwstat :: "'d devops \<Rightarrow> 'd iops \<Rightarrow> nat \<Rightarrow> int \<Rightarrow> bytes \<Rightarrow> 'd kst \<Rightarrow> int res \<times> 'd kst" where
  "kfwstat dev io fg fd b s =
     (case validstat b of
        Some e \<Rightarrow> (Inl e, s)
      | None \<Rightarrow> on_chan dev (fdtochan dev fg fd (-1) True True s) (wstat_chan io b))"

definition kwstat :: "'d devops \<Rightarrow> 'd iops \<Rightarrow> nat \<Rightarrow> bytes \<Rightarrow> bytes \<Rightarrow> 'd kst \<Rightarrow> int res \<times> 'd kst" where
  "kwstat dev io pg path b s =
     (case validstat b of
        Some e \<Rightarrow> (Inl e, s)
      | None \<Rightarrow> on_chan dev (namec dev pg path Aaccess 0 0 s) (wstat_chan io b))"

text \<open>\<open>kremove\<close>: the channel is closed as one of the root device, since the remove ends the fid.\<close>

definition kremove :: "'d devops \<Rightarrow> 'd iops \<Rightarrow> nat \<Rightarrow> bytes \<Rightarrow> 'd kst \<Rightarrow> unit res \<times> 'd kst" where
  "kremove dev io pg path s =
     on_chan dev (namec dev pg path Aremove 0 0 s)
       (\<lambda>c s. let (r, d) = dremove io (dst s) (the_chan s c)
              in (r, upd_chan c (\<lambda>x. x\<lparr>c_type := 0\<rparr>) (s\<lparr>dst := d\<rparr>)))"

definition dir_res :: "dir option \<Rightarrow> dir res" where
  "dir_res d = (case d of None \<Rightarrow> Inl Estat | Some d \<Rightarrow> Inr d)"

definition kdirstat :: "'d devops \<Rightarrow> 'd iops \<Rightarrow> nat \<Rightarrow> bytes \<Rightarrow> 'd kst \<Rightarrow> dir res \<times> 'd kst" where
  "kdirstat dev io pg path s =
     on_chan dev (namec dev pg path Aaccess 0 0 s) (\<lambda>c s. (dir_res (chandirstat io c s), s))"

definition kdirfstat :: "'d devops \<Rightarrow> 'd iops \<Rightarrow> nat \<Rightarrow> int \<Rightarrow> 'd kst \<Rightarrow> dir res \<times> 'd kst" where
  "kdirfstat dev io fg fd s =
     on_chan dev (fdtochan dev fg fd (-1) False True s) (\<lambda>c s. (dir_res (chandirstat io c s), s))"

definition kdirwstat :: "'d devops \<Rightarrow> 'd iops \<Rightarrow> nat \<Rightarrow> bytes \<Rightarrow> dir \<Rightarrow> 'd kst \<Rightarrow> int res \<times> 'd kst" where
  "kdirwstat dev io pg path d s = kwstat dev io pg path (snd (convD2M d (sizeD2M d))) s"

definition kdirfwstat :: "'d devops \<Rightarrow> 'd iops \<Rightarrow> nat \<Rightarrow> int \<Rightarrow> dir \<Rightarrow> 'd kst \<Rightarrow> int res \<times> 'd kst" where
  "kdirfwstat dev io fg fd d s = kfwstat dev io fg fd (snd (convD2M d (sizeD2M d))) s"

text \<open>
  \<open>dirpackage\<close>: the entries in a buffer read from a directory. The first pass of the code checks the sizes
  (\<open>dir_sizes\<close>), the second converts.
\<close>

lemma statcheckbuf_size: "statcheckbuf b = Some m \<Longrightarrow> 2 \<le> m \<and> m \<le> length b"
  by (auto simp: statcheckbuf_def Let_def split: if_splits option.splits)

function dir_sizes :: "bytes \<Rightarrow> nat list option" where
  "dir_sizes b =
     (if b = [] then Some []
      else
        (case statcheckbuf b of
           None \<Rightarrow> None
         | Some m \<Rightarrow> map_option (\<lambda>ms. m # ms) (dir_sizes (drop m b))))"
  by pat_completeness auto
termination
  by (relation "measure length") (auto dest: statcheckbuf_size)

declare dir_sizes.simps [simp del]

fun dir_convert :: "bytes \<Rightarrow> nat list \<Rightarrow> dir list option" where
  "dir_convert b [] = Some []"
| "dir_convert b (m # ms) =
     (case convM2D (take m b) True dir0 of
        None \<Rightarrow> None
      | Some (k, d) \<Rightarrow> if k \<noteq> m then None else map_option (\<lambda>ds. d # ds) (dir_convert (drop m b) ms))"

definition dirpackage :: "bytes \<Rightarrow> dir list res" where
  "dirpackage b =
     (case dir_sizes b of
        None \<Rightarrow> Inl Ebaddir
      | Some ms \<Rightarrow> (case dir_convert b ms of None \<Rightarrow> Inl Ebaddir | Some ds \<Rightarrow> Inr ds))"

definition kdirread :: "'d devops \<Rightarrow> 'd iops \<Rightarrow> nat \<Rightarrow> int \<Rightarrow> 'd kst \<Rightarrow> dir list res \<times> 'd kst" where
  "kdirread dev io fg fd s =
     (case kread dev io fg fd 2048 s of
        (Inl e, s) \<Rightarrow> (Inl e, s)
      | (Inr b, s) \<Rightarrow> (dirpackage b, s))"

end
