(* ===== verification/FdTable.thy ===== *)
theory FdTable
  imports Sysfile
begin

text \<open>
  The table of file descriptors as a map from descriptors to channels (\<open>fdmap\<close>). \<open>newfd\<close>, \<open>fdclose\<close> and
  \<open>kdup\<close> of emu/port/sysfile.c keep two hints beside it, \<open>minfd\<close> and \<open>maxfd\<close>; the invariant \<open>fds_ok\<close> says what
  the hints promise, and each operation is an update of the map.
\<close>

section \<open>The invariant\<close>

definition fds_ok :: "fgrp \<Rightarrow> bool" where
  "fds_ok f \<longleftrightarrow>
     0 \<le> fg_minfd f \<and> fg_minfd f \<le> nfd f \<and> 0 \<le> fg_maxfd f \<and> fg_maxfd f < nfd f \<and> nfd f \<le> MAXNFD \<and>
     (\<forall>i<nat (fg_minfd f). fg_fd f ! i \<noteq> None) \<and>
     (\<forall>i<length (fg_fd f). fg_fd f ! i \<noteq> None \<longrightarrow> int i \<le> fg_maxfd f)"

definition fdmap :: "fgrp \<Rightarrow> nat \<Rightarrow> nat option" where
  "fdmap f i = (if i < length (fg_fd f) then fg_fd f ! i else None)"

lemma fds_okD:
  assumes "fds_ok f"
  shows "0 \<le> fg_minfd f" "fg_minfd f \<le> nfd f" "0 \<le> fg_maxfd f" "fg_maxfd f < nfd f" "nfd f \<le> MAXNFD"
    "int i < fg_minfd f \<Longrightarrow> fg_fd f ! i \<noteq> None" "i < length (fg_fd f) \<Longrightarrow> fg_fd f ! i \<noteq> None \<Longrightarrow> int i \<le> fg_maxfd f"
  using assms by (auto simp: fds_ok_def)

lemma fd_slot_map: "fds_ok f \<Longrightarrow> fd_slot f fd = (if fd < 0 then None else fdmap f (nat fd))"
  using fds_okD(4) [of f] fds_okD(7) [of f "nat fd"]
  by (cases "nat fd < length (fg_fd f)"; cases "fg_fd f ! nat fd") (auto simp: fd_slot_def fdmap_def split: if_splits)

section \<open>Growing\<close>

lemma growfd_cases:
  assumes "growfd f fd = (ok, f')" and "nfd f \<le> MAXNFD"
  obtains (fail) "\<not> ok" "f' = f" "nfd f \<le> fd" "min (nfd f + DELTAFD) MAXNFD \<le> fd"
  | (grown) k where "ok" "f' = f\<lparr>fg_fd := fg_fd f @ replicate k None\<rparr>" "fd < nfd f'" "nfd f' \<le> MAXNFD"
proof (cases "fd < nfd f")
  case True
  then show ?thesis using assms by (intro grown [where k = 0]) (auto simp: growfd_def)
next
  case False
  show ?thesis
  proof (cases "fd \<ge> min (nfd f + DELTAFD) MAXNFD")
    case True
    then show ?thesis using assms(1) False by (intro fail) (auto simp: growfd_def Let_def split: if_splits)
  next
    case more: False
    then show ?thesis
      using assms False
      by (intro grown [where k = "nat (min (nfd f + DELTAFD) MAXNFD) - length (fg_fd f)"]) (auto simp: growfd_def Let_def)
  qed
qed

lemma grown_map [simp]: "fdmap (f\<lparr>fg_fd := fg_fd f @ replicate k None\<rparr>) = fdmap f"
  by (auto simp: fdmap_def nth_append)

lemma grown_ok: "fds_ok f \<Longrightarrow> nfd f + int k \<le> MAXNFD \<Longrightarrow> fds_ok (f\<lparr>fg_fd := fg_fd f @ replicate k None\<rparr>)"
  by (auto simp: fds_ok_def nth_append)

section \<open>Taking a slot\<close>

lemma first_free_props:
  assumes "i \<le> length fd"
  shows "i \<le> first_free fd i" "first_free fd i \<le> length fd"
    "first_free fd i < length fd \<Longrightarrow> fd ! first_free fd i = None"
    "i \<le> j \<Longrightarrow> j < first_free fd i \<Longrightarrow> fd ! j \<noteq> None"
proof -
  let ?t = "takeWhile (\<lambda>c. c \<noteq> None) (drop i fd)"
  have l: "length ?t \<le> length fd - i" using length_takeWhile_le [of "\<lambda>c. c \<noteq> None" "drop i fd"] by simp
  show "i \<le> first_free fd i" "first_free fd i \<le> length fd" using l assms by (simp_all add: first_free_def)
  show "fd ! first_free fd i = None" if "first_free fd i < length fd"
    using that nth_length_takeWhile [of "\<lambda>c. c \<noteq> None" "drop i fd"] assms by (simp add: first_free_def)
  show "fd ! j \<noteq> None" if "i \<le> j" "j < first_free fd i"
  proof -
    have "j - i < length ?t" using that by (simp add: first_free_def)
    moreover have "\<forall>x\<in>set ?t. x \<noteq> None" by (blast dest: set_takeWhileD)
    ultimately have "?t ! (j - i) \<noteq> None" using nth_mem by blast
    then show ?thesis using takeWhile_nth [of "j - i" "\<lambda>c. c \<noteq> None" "drop i fd"] that assms
      \<open>j - i < length ?t\<close> by simp
  qed
qed

lemma set_fd_map: "i < length (fg_fd f) \<Longrightarrow> fdmap (f\<lparr>fg_minfd := a, fg_maxfd := b, fg_fd := (fg_fd f)[i := v]\<rparr>) = (fdmap f)(i := v)"
  by (auto simp: fdmap_def fun_eq_iff)

text \<open>The descriptor \<open>newfd\<close> hands out is the lowest that is free.\<close>

lemma newfd_ok:
  assumes "fds_ok (fgrps s ! fg)" and "newfd fg c s = (r, s')"
  shows "r = Inl e \<Longrightarrow> s' = s \<and> (\<forall>j<nat MAXNFD. fdmap (fgrps s ! fg) j \<noteq> None)"
    and "r = Inr i \<Longrightarrow> \<exists>f'. s' = upd_fgrp fg (\<lambda>_. f') s \<and> fds_ok f' \<and> fg_ref f' = fg_ref (fgrps s ! fg)
      \<and> fdmap f' = (fdmap (fgrps s ! fg))(i \<mapsto> c) \<and> fdmap (fgrps s ! fg) i = None \<and> (\<forall>j<i. fdmap (fgrps s ! fg) j \<noteq> None)
      \<and> i < nat MAXNFD \<and> fg_free f' = fg_free (fgrps s ! fg)"
proof -
  define f where "f = fgrps s ! fg"
  note ok = fds_okD [OF assms(1), folded f_def]
  define j where "j = first_free (fg_fd f) (nat (fg_minfd f))"
  note j = first_free_props [of "nat (fg_minfd f)" "fg_fd f", folded j_def]
  obtain g f1 where gr: "(if int j \<ge> nfd f then growfd f (int j) else (True, f)) = (g, f1)" by fastforce
  have e: "newfd fg c s = (if \<not> g then (Inl Enofd, s) else (Inr j, upd_fgrp fg (\<lambda>_. f1\<lparr>fg_minfd := int j + 1,
      fg_maxfd := max (fg_maxfd f1) (int j), fg_fd := (fg_fd f1)[j := Some c]\<rparr>) s))"
    unfolding newfd_def Let_def f_def [symmetric] j_def [symmetric] gr by simp
  have below: "fg_fd f ! i \<noteq> None" if "i < j" for i
    using that ok(1,2,6) j(4) [of i] by (cases "int i < fg_minfd f") auto
  have jl: "j \<le> length (fg_fd f)" using j(2) ok(1,2) by simp
  have grown: "nfd f \<le> int j \<Longrightarrow> growfd f (int j) = (g, f1)" and same: "int j < nfd f \<Longrightarrow> g \<and> f1 = f" using gr by (auto split: if_splits)
  show "s' = s \<and> (\<forall>j<nat MAXNFD. fdmap (fgrps s ! fg) j \<noteq> None)" if "r = Inl e"
  proof -
    have g: "\<not> g" "s' = s" using that assms(2) e by (auto split: if_splits)
    then have n: "nfd f \<le> int j" using same by linarith
    from grown [OF n] ok(5) have "min (nfd f + DELTAFD) MAXNFD \<le> int j"
      by (cases rule: growfd_cases) (use g in simp_all)
    then have "nfd f = MAXNFD" "j = length (fg_fd f)" using n jl ok(5) by (auto simp: DELTAFD_def min_def split: if_splits)
    moreover from this(1) have "nat MAXNFD = length (fg_fd f)" by simp
    ultimately show ?thesis using below g(2) by (simp add: fdmap_def f_def [symmetric])
  qed
  show "\<exists>f'. s' = upd_fgrp fg (\<lambda>_. f') s \<and> fds_ok f' \<and> fg_ref f' = fg_ref (fgrps s ! fg)
      \<and> fdmap f' = (fdmap (fgrps s ! fg))(i \<mapsto> c) \<and> fdmap (fgrps s ! fg) i = None \<and> (\<forall>j<i. fdmap (fgrps s ! fg) j \<noteq> None)
      \<and> i < nat MAXNFD \<and> fg_free f' = fg_free (fgrps s ! fg)"
    if "r = Inr i"
  proof -
    let ?f' = "f1\<lparr>fg_minfd := int j + 1, fg_maxfd := max (fg_maxfd f1) (int j), fg_fd := (fg_fd f1)[j := Some c]\<rparr>"
    have g: "g" "i = j" "s' = upd_fgrp fg (\<lambda>_. ?f') s" using that assms(2) e by (auto split: if_splits)
    have f1: "\<exists>k. f1 = f\<lparr>fg_fd := fg_fd f @ replicate k None\<rparr> \<and> j < length (fg_fd f1) \<and> nfd f1 \<le> MAXNFD"
    proof (cases "int j < nfd f")
      case True
      then show ?thesis using same ok(5) by (intro exI [of _ 0]) simp
    next
      case False
      from grown ok(5) False show ?thesis by (cases rule: growfd_cases) (use g in auto)
    qed
    then obtain k where k: "f1 = f\<lparr>fg_fd := fg_fd f @ replicate k None\<rparr>" "j < length (fg_fd f1)" "nfd f1 \<le> MAXNFD" by blast
    have fo: "fds_ok f1" using k grown_ok [OF assms(1) [folded f_def], of k] by simp
    have m: "fdmap f1 = fdmap f" using k(1) by simp
    have "int i \<le> max (fg_maxfd f1) (int j)" if "i < length (fg_fd f1)" "(fg_fd f1)[j := Some c] ! i \<noteq> None" for i
      using that fds_okD(7) [OF fo, of i] by (cases "i = j") auto
    moreover have "(fg_fd f1)[j := Some c] ! i \<noteq> None" if "i < j + 1" for i
      using below [of i] that k jl by (cases "i = j") (auto simp: nth_append)
    ultimately have "fds_ok ?f'"
      unfolding fds_ok_def using fds_okD(3-5) [OF fo] k(2,3) by (auto simp: nat_add_distrib)
    moreover have "fdmap f j = None" using j(3) ok(1,2) by (auto simp: fdmap_def)
    moreover have "\<forall>i<j. fdmap f i \<noteq> None" using below jl by (auto simp: fdmap_def)
    ultimately show ?thesis
      using g k m set_fd_map [OF k(2)]
      by (intro exI [of _ ?f']) (auto simp: f_def [symmetric])
  qed
qed

section \<open>Letting a slot go\<close>

lemma lower_max_bounds:
  "int n \<le> m \<Longrightarrow> 0 \<le> lower_max fd n m \<and> lower_max fd n m \<le> m \<and> (\<forall>i<n. fd ! i \<noteq> None \<longrightarrow> int i \<le> lower_max fd n m)"
proof (induction n arbitrary: m)
  case (Suc n)
  note ih = Suc.IH [OF order_refl]
  show ?case
  proof (cases "fd ! n = None")
    case True
    then show ?thesis using ih Suc.prems by (simp add: less_Suc_eq)
  next
    case False
    then show ?thesis using Suc.prems by (auto simp: less_Suc_eq)
  qed
qed simp

lemma drop_fd_ok:
  assumes "fds_ok f" and "0 \<le> fd" and "fd \<le> fg_maxfd f"
  shows "fds_ok (drop_fd fd f)" and "fdmap (drop_fd fd f) = (fdmap f)(nat fd := None)"
    and "fg_ref (drop_fd fd f) = fg_ref f" and "fg_fd (drop_fd fd f) = (fg_fd f)[nat fd := None]"
proof -
  note ok = fds_okD [OF assms(1)]
  let ?t = "(fg_fd f)[nat fd := None]"
  define m where "m = (if fd = fg_maxfd f then lower_max ?t (nat fd) (fg_maxfd f) else fg_maxfd f)"
  have d: "drop_fd fd f = f\<lparr>fg_fd := ?t, fg_maxfd := m, fg_minfd := min (fg_minfd f) fd\<rparr>"
    by (simp add: drop_fd_def m_def Let_def)
  have b: "0 \<le> lower_max ?t (nat fd) (fg_maxfd f)" "lower_max ?t (nat fd) (fg_maxfd f) \<le> fg_maxfd f"
    "\<forall>i<nat fd. ?t ! i \<noteq> None \<longrightarrow> int i \<le> lower_max ?t (nat fd) (fg_maxfd f)"
    using lower_max_bounds [of "nat fd" "fg_maxfd f" ?t] assms(2,3) by auto
  have "int i \<le> m" if "i < length ?t" "?t ! i \<noteq> None" for i
  proof -
    have "i \<noteq> nat fd" using that by (cases "i = nat fd") simp_all
    then have "i \<noteq> nat fd" "fg_fd f ! i \<noteq> None" using that by simp_all
    then have "int i \<le> fg_maxfd f" "int i \<noteq> fd" using ok(7) [of i] that assms(2) by auto
    then show ?thesis using b(3) that(2) by (auto simp: m_def)
  qed
  moreover have "0 \<le> m" "m \<le> fg_maxfd f"
    using b(1,2) ok(3) unfolding m_def by (simp_all only: split: if_split) simp_all
  ultimately show "fds_ok (drop_fd fd f)"
    unfolding d fds_ok_def using ok(1,2,4,5,6) assms(2) by (auto simp: nth_list_update)
  show "fdmap (drop_fd fd f) = (fdmap f)(nat fd := None)" by (auto simp: d fdmap_def fun_eq_iff)
  show "fg_ref (drop_fd fd f) = fg_ref f" "fg_fd (drop_fd fd f) = ?t" by (simp_all add: d)
qed

lemma set_fd_ok:
  assumes "fds_ok f" and "0 \<le> fd" and "fd < nfd f"
  shows "fds_ok (f\<lparr>fg_maxfd := max (fg_maxfd f) fd, fg_fd := (fg_fd f)[nat fd := Some c]\<rparr>)"
proof -
  note ok = fds_okD [OF assms(1)]
  have "int i \<le> max (fg_maxfd f) fd" if "i < length (fg_fd f)" "(fg_fd f)[nat fd := Some c] ! i \<noteq> None" for i
    using that ok(7) [of i] assms(2) by (cases "i = nat fd") auto
  moreover have "(fg_fd f)[nat fd := Some c] ! i \<noteq> None" if "int i < fg_minfd f" for i
    using ok(2) ok(6) [of i] that assms(2,3) by (cases "i = nat fd") auto
  ultimately show ?thesis unfolding fds_ok_def using ok(1-5) assms(3) by auto
qed

end
