(* ===== verification/SysInv.thy ===== *)
theory SysInv
  imports FdTable NamecAcc Mounts
begin

text \<open>
  What the system calls of emu/port/sysfile.c keep true. \<open>kern H pg fg s\<close> is the invariant of the kernel as
  a process with the groups \<open>pg\<close> and \<open>fg\<close> sees it: the books of references, its name space, its mount
  table and its table of descriptors are in order. Each part of a call has a rule for it; \<open>after\<close> is
  what a whole call leaves.
\<close>

unbundle bit_operations_syntax

section \<open>The invariant\<close>

definition fgrp_ok :: "nat \<Rightarrow> 'd kst \<Rightarrow> bool" where
  "fgrp_ok fg s \<longleftrightarrow> fg < length (fgrps s) \<and> 0 < fg_ref (fgrps s ! fg) \<and> fds_ok (fgrps s ! fg)"

definition kern :: "held \<Rightarrow> nat \<Rightarrow> nat \<Rightarrow> 'd kst \<Rightarrow> bool" where
  "kern H pg fg s \<longleftrightarrow> counted s H \<and> ns_ok pg s \<and> heads_ok pg s \<and> fgrp_ok fg s"

lemma kernD:
  assumes "kern H pg fg s" shows "counted s H" "ns_ok pg s" "heads_ok pg s" "fgrp_ok fg s"
  using assms by (simp_all add: kern_def)

lemma heads_ok_steady:
  assumes "steady H s s'" and "counted s H'" and "linked_ok s" and "live_pgrp s pg" and "heads_ok pg s"
  shows "heads_ok pg s'"
proof -
  have l: "links s' = links s" and ch: "chain pg q s' = chain pg q s" for q
    using links_steady [OF assms(1)] steadyD(1) [OF assms(1)] by (simp_all add: chain_def)
  have id: "ident (chans s' ! mh_from (mheads s' ! m)) = ident (chans s ! mh_from (mheads s ! m))" if "m \<in> set (chain pg q s)" for m q
  proof -
    have ml: "m \<in># links s" by (rule chain_links [OF assms(4) that])
    have m: "m < length (mheads s)" using linked_live [OF assms(2) ml] by blast
    have "mh_mount (mheads s ! m) \<noteq> []" using assms(3) ml by (simp add: linked_ok_def)
    from head_owns(1) [OF m this] have "mh_from (mheads s ! m) \<in># anchors H s" by (simp add: anchors_def headsC_def)
    then show ?thesis using steady_anchorD(1) [OF assms(1)] steadyD(5) [OF assms(1) m] by simp
  qed
  have "eqchan (chans s' ! mh_from (mheads s' ! m)) (chans s' ! mh_from (mheads s' ! k)) True
      = eqchan (chans s ! mh_from (mheads s ! m)) (chans s ! mh_from (mheads s ! k)) True"
    if "m \<in> set (chain pg q s)" "k \<in> set (chain pg q s)" for m k q
    by (rule eqchan_ident [OF id [OF that(1)] id [OF that(2)]])
  then show ?thesis using assms(5) by (simp add: heads_ok_def l ch)
qed

lemma kern_steady:
  assumes "kern H0 pg fg s" and "steady H s s'" and "counted s' H'" shows "kern H' pg fg s'"
proof -
  note k = kernD [OF assms(1)]
  note w = ns_okD [OF k(2)]
  show ?thesis
    using assms(3) ns_ok_steady [OF assms(2) k(1,2)] heads_ok_steady [OF assms(2) k(1) w(2,1) k(3)] k(4) steadyD(2) [OF assms(2)]
    by (simp add: kern_def fgrp_ok_def)
qed

section \<open>Changing a file descriptor group\<close>

lemma fgrp_frame [simp]:
  "chans (upd_fgrp f g s) = chans s" "cnames (upd_fgrp f g s) = cnames s" "mheads (upd_fgrp f g s) = mheads s"
  "pgrps (upd_fgrp f g s) = pgrps s" "cfree (upd_fgrp f g s) = cfree s" "fault (upd_fgrp f g s) = fault s"
  "nsC (upd_fgrp f g s) = nsC s" "ownN (upd_fgrp f g s) = ownN s" "ownM (upd_fgrp f g s) = ownM s"
  "links (upd_fgrp f g s) = links s" "frees (upd_fgrp f g s) = frees s" "length (fgrps (upd_fgrp f g s)) = length (fgrps s)"
  by (simp_all add: upd_fgrp_def nsC_def ownN_def ownM_def links_def frees_def)

lemma swap_fgrp:
  assumes "counted s (addC a H)" and "f < length (fgrps s)" and "fgrpC (g (fgrps s ! f)) + b = fgrpC (fgrps s ! f) + a"
  shows "counted (upd_fgrp f g s) (addC b H)"
proof -
  note d = countedD [OF assms(1)]
  have "tot fgrpC (fgrps (upd_fgrp f g s)) + fgrpC (fgrps s ! f) = tot fgrpC (fgrps s) + fgrpC (g (fgrps s ! f))"
    using tot_upd [OF assms(2), of fgrpC] by (simp add: upd_fgrp_def)
  then have "ownC (upd_fgrp f g s) + fgrpC (fgrps s ! f) = ownC s + fgrpC (g (fgrps s ! f))" by (simp add: ownC_def)
  then have "ownC (upd_fgrp f g s) + fgrpC (fgrps s ! f) + (fgrpC (g (fgrps s ! f)) + b)
      = ownC s + fgrpC (g (fgrps s ! f)) + (fgrpC (fgrps s ! f) + a)"
    using assms(3) by simp
  then have e: "ownC (upd_fgrp f g s) + (hC H + b) = ownC s + (hC H + a)" by simp
  have ok: "chanrc.ok (upd_fgrp f g s) = chanrc.ok s" "namerc.ok (upd_fgrp f g s) = namerc.ok s" "headrc.ok (upd_fgrp f g s) = headrc.ok s"
    by (simp_all add: fun_eq_iff chanrc.ok_def namerc.ok_def headrc.ok_def)
  show ?thesis using d by (intro countedI; simp only: add_sel e ok) auto
qed

lemma origin_fgrp [simp]: "origin (upd_fgrp f g s) c = origin s c"
  by (simp add: fun_eq_iff origin_def pinned_def split: option.split)

lemma ns_ok_fgrp [simp]: "ns_ok pg (upd_fgrp f g s) = ns_ok pg s" "heads_ok pg (upd_fgrp f g s) = heads_ok pg s"
  by (simp_all add: ns_ok_def heads_ok_def live_pgrp_def linked_ok_def rooted_opt_def rooted_def chain_def split: option.split)

lemma kern_fgrp:
  assumes "kern (addC a H) pg fg s" and "fgrpC (g (fgrps s ! fg)) + b = fgrpC (fgrps s ! fg) + a"
    and "fds_ok (g (fgrps s ! fg))" and "fg_ref (g (fgrps s ! fg)) = fg_ref (fgrps s ! fg)"
  shows "kern (addC b H) pg fg (upd_fgrp fg g s)"
proof -
  note k = kernD [OF assms(1)]
  have f: "fg < length (fgrps s)" using k(4) by (simp add: fgrp_ok_def)
  show ?thesis using swap_fgrp [where g = g, OF k(1) f assms(2)] k(2-4) assms(3,4) f
    by (simp add: kern_def fgrp_ok_def) (simp add: upd_fgrp_def)
qed

text \<open>The references of a table are those of its map.\<close>

lemma opts_ms_append [simp]: "opts_ms (xs @ ys) = opts_ms xs + opts_ms ys"
  by (simp add: opts_ms_def)

lemma opts_ms_nones [simp]: "opts_ms (replicate k None) = {#}"
  by (induction k) (simp_all add: opts_ms_def)

lemma opts_ms_mem: "c \<in># opts_ms xs \<longleftrightarrow> Some c \<in> set xs"
  by (induction xs) (auto simp: opts_ms_def opt_ms_def split: option.splits)

lemma opts_ms_map: "opts_ms (fg_fd f) = opts_ms (map (fdmap f) [0..<length (fg_fd f)])"
  by (rule arg_cong [where f = opts_ms], rule nth_equalityI) (simp_all add: fdmap_def)

lemma opts_ms_upt:
  assumes "n \<le> m" and "\<And>i. n \<le> i \<Longrightarrow> f i = None" shows "opts_ms (map f [0..<m]) = opts_ms (map f [0..<n])"
proof -
  have "[0..<m] = [0..<n] @ [n..<m]" using assms(1) by (metis le_add_diff_inverse upt_add_eq_append zero_le)
  moreover have "map f [n..<m] = replicate (m - n) None" using assms(2) by (intro nth_equalityI) simp_all
  ultimately show ?thesis by simp
qed

lemma opts_ms_long:
  assumes "length (fg_fd f) \<le> m" shows "opts_ms (fg_fd f) = opts_ms (map (fdmap f) [0..<m])"
  unfolding opts_ms_map using opts_ms_upt [OF assms, of "fdmap f"] by (simp add: fdmap_def)

lemma opts_ms_update:
  assumes "fdmap f' = (fdmap f)(i := v)" shows "opts_ms (fg_fd f') + opt_ms (fdmap f i) = opts_ms (fg_fd f) + opt_ms v"
proof -
  define m where "m = Suc (max i (max (length (fg_fd f)) (length (fg_fd f'))))"
  have "map (fdmap f') [0..<m] = (map (fdmap f) [0..<m])[i := v]"
    by (rule nth_equalityI) (simp_all add: assms nth_list_update del: upt_Suc)
  moreover have "i < length (map (fdmap f) [0..<m])" by (simp add: m_def)
  ultimately show ?thesis
    using opts_ms_upd [of i "map (fdmap f) [0..<m]" v] opts_ms_long [of f m] opts_ms_long [of f' m]
    by (simp add: m_def del: upt_Suc)
qed

lemma kern_fdmap:
  assumes "kern (addC a H) pg fg s" and "fdmap (g (fgrps s ! fg)) = (fdmap (fgrps s ! fg))(i := v)"
    and "opt_ms v + b = opt_ms (fdmap (fgrps s ! fg) i) + a"
    and "fds_ok (g (fgrps s ! fg))" and "fg_ref (g (fgrps s ! fg)) = fg_ref (fgrps s ! fg)"
  shows "kern (addC b H) pg fg (upd_fgrp fg g s)"
proof (rule kern_fgrp [where g = g, OF assms(1) _ assms(4,5)])
  have r: "0 < fg_ref (fgrps s ! fg)" using kernD(4) [OF assms(1)] by (simp add: fgrp_ok_def)
  have "opts_ms (fg_fd (g (fgrps s ! fg))) + opt_ms (fdmap (fgrps s ! fg) i) + (opt_ms v + b)
      = opts_ms (fg_fd (fgrps s ! fg)) + opt_ms v + (opt_ms (fdmap (fgrps s ! fg) i) + a)"
    using opts_ms_update [OF assms(2)] assms(3) by simp
  then show "fgrpC (g (fgrps s ! fg)) + b = fgrpC (fgrps s ! fg) + a"
    using r assms(5) by (simp add: fgrpC_def)
qed

section \<open>Steps on channels\<close>

lemma kern_held: "kern H pg fg s \<Longrightarrow> c \<in># ownC s + hC H \<Longrightarrow> c < length (chans s) \<and> \<not> is_free (chans s ! c)"
  using counted_liveC [OF kernD(1)] by blast

lemma kern_fd:
  assumes "kern H pg fg s" and "fdmap (fgrps s ! fg) i = Some c" shows "c \<in># ownC s"
proof -
  note f = kernD(4) [OF assms(1), unfolded fgrp_ok_def]
  have "c \<in># fgrpC (fgrps s ! fg)"
    using assms(2) f by (auto simp: fgrpC_def opts_ms_mem fdmap_def in_set_conv_nth split: if_splits)
  then show ?thesis using tot_in [of fg "fgrps s" fgrpC] f by (auto simp: ownC_def dest: mset_subset_eqD)
qed

lemma kern_cclose: "kern (addC (opt_ms c) H) pg fg s \<Longrightarrow> kern H pg fg (cclose dev c s)"
  using kern_steady [OF _ closes_steady(1) cclose_counted] kernD(1) by blast

lemma kern_cclose1: "kern (addC {#c#} H) pg fg s \<Longrightarrow> kern H pg fg (cclose dev (Some c) s)"
  by (rule kern_cclose) simp

text \<open>A change of fields that hold no reference and do not tell where the channel is.\<close>

lemma kern_fields:
  assumes "kern H pg fg s" and "let x = chans s ! c; y = f x in c_ref y = c_ref x \<and> c_flag y = c_flag x \<and> c_umh y = c_umh x
      \<and> c_umc y = c_umc x \<and> c_mchan y = c_mchan x \<and> c_name y = c_name x \<and> ident y = ident x"
  shows "kern H pg fg (upd_chan c f s)"
proof (rule kern_steady [OF assms(1), of H])
  show "counted (upd_chan c f s) H"
    by (rule upd_chan_counted [OF kernD(1) [OF assms(1)]]) (use assms(2) in \<open>simp_all add: is_free_def is_open_def Let_def\<close>)
  show "steady H s (upd_chan c f s)"
    using assms(2) by (auto simp: steady_def same_chan_def upd_chan_def nth_upd_all Let_def)
qed

lemma kern_dst [simp]: "kern H pg fg (s\<lparr>dst := d\<rparr>) = kern H pg fg s"
proof -
  have c: "counted (s\<lparr>dst := d\<rparr>) H = counted s H"
    by (simp add: counted_def chanrc.ok_def namerc.ok_def headrc.ok_def)
  have o: "origin (s\<lparr>dst := d\<rparr>) x = origin s x" for x
    by (simp add: fun_eq_iff origin_def pinned_def split: option.split)
  show ?thesis
    by (simp add: kern_def c fgrp_ok_def ns_ok_def heads_ok_def live_pgrp_def linked_ok_def rooted_opt_def rooted_def o chain_def
        split: option.split)
qed

lemma set_umc_counted:
  assumes "counted s (addC (opt_ms v) H)" and "c < length (chans s)" and "\<not> is_free (chans s ! c)"
  shows "counted (upd_chan c (\<lambda>x. x\<lparr>c_umc := v\<rparr>) s) (addC (opt_ms (c_umc (chans s ! c))) H)"
proof -
  let ?f = "\<lambda>x. x\<lparr>c_umc := v\<rparr>" and ?x = "chans s ! c"
  have f: "is_free (?f x) = is_free x" "is_open (?f x) = is_open x" for x
    by (simp_all add: is_free_def is_open_def)
  note d = countedD [OF assms(1)]
  note u = own_upd_chan [OF assms(2), of ?f]
  have e: "ownC (upd_chan c ?f s) + (hC H + opt_ms (c_umc ?x)) = ownC s + (hC H + opt_ms v)"
    using u(1) assms(3) by (simp add: chanC_def f ac_simps)
  have o: "ownN (upd_chan c ?f s) = ownN s" "ownM (upd_chan c ?f s) = ownM s" "links (upd_chan c ?f s) = links s"
    using u(2,3,4) assms(3) by (simp_all add: chanN_def chanM_def f)
  have "chanrc.ok (upd_chan c ?f s) (ownC s + (hC H + opt_ms v))"
    using d(2) by (auto simp: chanrc.ok_def refs_ok_def upd_nth f)
  moreover have "c_umc (chans (upd_chan c ?f s) ! i) = None" if "i < length (chans s)" "is_free (chans (upd_chan c ?f s) ! i)" for i
    using d(8) [of i] that assms(3) by (auto simp: upd_nth f split: if_splits)
  ultimately show ?thesis using d
    by (intro countedI; simp only: add_sel e) (auto simp: o frees_upd_same is_open_upd f)
qed

lemma kern_set_umc:
  assumes "kern (addC (opt_ms v) H) pg fg s" and "c \<in># ownC s + hC H"
  shows "kern (addC (opt_ms (c_umc (chans s ! c))) H) pg fg (upd_chan c (\<lambda>x. x\<lparr>c_umc := v\<rparr>) s)"
proof (rule kern_steady [OF assms(1)])
  have "c < length (chans s) \<and> \<not> is_free (chans s ! c)" using kern_held [OF assms(1)] assms(2) by auto
  then show "counted (upd_chan c (\<lambda>x. x\<lparr>c_umc := v\<rparr>) s) (addC (opt_ms (c_umc (chans s ! c))) H)"
    using set_umc_counted [OF kernD(1) [OF assms(1)]] by blast
  show "steady H s (upd_chan c (\<lambda>x. x\<lparr>c_umc := v\<rparr>) s)"
    by (auto simp: steady_def same_chan_def upd_chan_def nth_upd_all ident_def)
qed

section \<open>Changes of the mount table\<close>

text \<open>What \<open>cmount\<close> and \<open>cunmount\<close> leave of a name space: its directories, and where every channel is.\<close>

definition calm :: "nat \<Rightarrow> 'd kst \<Rightarrow> 'd kst \<Rightarrow> bool" where
  "calm pg s s' \<longleftrightarrow>
     pg_dot (pgrps s' ! pg) = pg_dot (pgrps s ! pg) \<and> pg_slash (pgrps s' ! pg) = pg_slash (pgrps s ! pg) \<and>
     fgrps s' = fgrps s \<and> (\<forall>x. ident (chans s' ! x) = ident (chans s ! x)) \<and>
     (\<forall>x. \<not> is_free (chans s' ! x) \<longrightarrow> \<not> is_free (chans s ! x) \<and> c_name (chans s' ! x) = c_name (chans s ! x)) \<and>
     (\<forall>n. \<not> n_free (cnames s' ! n) \<longrightarrow> \<not> n_free (cnames s ! n) \<and> n_mtpt (cnames s' ! n) = n_mtpt (cnames s ! n))"

lemma calm_refl: "calm pg s s"
  by (simp add: calm_def)

lemma calm_trans: "calm pg s t \<Longrightarrow> calm pg t u \<Longrightarrow> calm pg s u"
  by (simp add: calm_def)

lemma calm_kept: "kept s s' \<Longrightarrow> calm pg s s'"
  by (auto simp: calm_def kept_def kept_chan_def kept_name_def)

lemma calm_steps:
  "calm pg s (upd_mhead m f s)" "calm pg s (incref_chan c s)" "calm pg s (s\<lparr>mheads := l\<rparr>)" "calm pg s (s\<lparr>mountid := i\<rparr>)"
  "calm pg s (set_chain pg q xs s)" "calm pg s (cclose dev x s)" "calm pg s (putmhead dev m' s)" "calm pg s (mountfree dev ms s)"
proof -
  show "calm pg s (upd_mhead m f s)" "calm pg s (incref_chan c s)" "calm pg s (s\<lparr>mheads := l\<rparr>)" "calm pg s (s\<lparr>mountid := i\<rparr>)"
    "calm pg s (set_chain pg q xs s)"
    by (auto simp: calm_def upd_defs incref_is_bump bump_chan_def set_chain_def nth_upd_all ident_def is_free_def)
qed (rule calm_kept, simp)+

lemma calm_newmhead: "newmhead from s = (m, s') \<Longrightarrow> calm pg s s'"
  using calm_trans [OF calm_steps(3) calm_steps(2)] by (auto simp: newmhead_def)

lemma calm_newmount: "newmount to flag spec s = (n, s') \<Longrightarrow> calm pg s s'"
  using calm_trans [OF calm_steps(2) calm_steps(4)] by (auto simp: newmount_def Let_def)

lemma calm_copyunion: "copyunion flg ums s = (fs, s') \<Longrightarrow> calm pg s s'"
  by (induction ums arbitrary: s fs s')
    (auto simp: calm_refl split: prod.splits dest!: calm_newmount [where pg = pg] intro: calm_trans)

lemma calm_head:
  assumes "cmount_head pg old order s = (m, s')" shows "calm pg s s'"
proof (cases "mhead_of pg old s")
  case None
  obtain h s1 where h: "newmhead old s = (h, s1)" by fastforce
  define s2 where "s2 = set_chain pg (c_qid (chans s ! old)) (chain pg (c_qid (chans s ! old)) s1 @ [h]) s1"
  obtain n s3 where n: "newmount old 0 None s2 = (n, s3)" by fastforce
  have "s' = (if order \<noteq> MREPL then upd_mhead h (\<lambda>x. x\<lparr>mh_mount := [n]\<rparr>) s3 else s2)"
    using assms None h n by (auto simp: cmount_head_def s2_def Let_def split: if_splits)
  moreover have "calm pg s s2" using calm_trans [OF calm_newmhead [OF h] calm_steps(5)] by (simp add: s2_def)
  moreover from this have "calm pg s (upd_mhead h (\<lambda>x. x\<lparr>mh_mount := [n]\<rparr>) s3)"
    using calm_trans [OF calm_newmount [OF n] calm_steps(1)] calm_trans by blast
  ultimately show ?thesis by simp
qed (use assms in \<open>simp add: cmount_head_def calm_refl\<close>)

lemma calm_cmount:
  assumes "cmount dev pg new old flag spec s = (r, s')" shows "calm pg s s'"
proof (cases r)
  case (Inl e)
  then show ?thesis using assms cmount_refused(1) [of dev pg new old flag spec s e s'] by (simp add: calm_refl)
next
  case (Inr i)
  let ?order = "flag AND MORDER"
  let ?flg = "if ?order = MREPL then MAFTER OR (flag AND MREADONLY) else ?order OR (flag AND MREADONLY)"
  obtain m s1 where 1: "cmount_head pg old ?order s = (m, s1)" by fastforce
  obtain nm s2 where 2: "newmount new flag spec s1 = (nm, s2)" by fastforce
  define ums where "ums = (case c_umh (chans s ! new) of None \<Rightarrow> [] | Some h \<Rightarrow> mh_mount (the_mhead s2 h))"
  obtain rest s3 where 3: "(if ums \<noteq> [] then copyunion ?flg (tl ums) s2 else ([], s2)) = (rest, s3)" by fastforce
  have "\<exists>l om. s' = mountfree dev om (upd_mhead m (\<lambda>x. x\<lparr>mh_mount := l\<rparr>) s3)"
    using assms Inr 1 2 3 unfolding cmount_def Let_def ums_def
    by (simp only: prod.case split: if_splits) (simp_all, blast+)?
  moreover have "calm pg s2 s3" using 3 by (auto simp: calm_refl dest: calm_copyunion split: if_splits)
  ultimately show ?thesis
    using calm_trans [OF calm_head [OF 1] calm_trans [OF calm_newmount [OF 2] calm_trans]] calm_trans [OF calm_steps(1) calm_steps(8)]
    by metis
qed

lemma calm_cunmount:
  assumes "cunmount dev pg mnt mntd s = (r, s')" shows "calm pg s s'"
proof -
  note st = calm_steps
  have a: "calm pg s t \<Longrightarrow> calm pg s (putmhead dev m (cclose dev x (mountfree dev ms t)))" for m x ms t
    by (meson calm_trans st(6-8))
  have b: "calm pg s t \<Longrightarrow> calm pg s (mountfree dev ms t)" for ms t
    by (meson calm_trans st(8))
  have c: "calm pg s t \<Longrightarrow> calm pg s (upd_mhead m f t)" "calm pg s t \<Longrightarrow> calm pg s (set_chain pg q l t)" for m f q l t
    by (meson calm_trans st(1,5))+
  show ?thesis
    using assms unfolding cunmount_def Let_def
    by (auto split: option.splits if_splits intro!: calm_refl a b c)
qed

lemma kern_calm:
  assumes "kern H0 pg fg s" and "calm pg s s'" and "counted s' H" and "linked_ok s'" and "live_pgrp s' pg" and "heads_ok pg s'"
  shows "kern H pg fg s'"
proof -
  note k = kernD [OF assms(1)]
  have "rooted s' c" if r: "rooted s c" and p: "pg_dot (pgrps s' ! pg) = Some c \<or> pg_slash (pgrps s' ! pg) = Some c" for c
  proof -
    have "c \<in># anchors H s'" by (rule pgrp_anchors [OF assms(5) p])
    then have f: "\<not> is_free (chans s' ! c)" and o: "c \<in># ownC s' + hC H"
      using counted_liveC [OF assms(3)] anchors_own by blast+
    obtain root d where og: "origin s c root d" using r unfolding rooted_def by blast
    then obtain n where n: "c_name (chans s ! c) = Some n" by (auto simp: origin_def split: option.splits)
    have n': "c_name (chans s' ! c) = Some n" using assms(2) f n by (simp add: calm_def)
    then have "n \<in># ownN s'" using chan_owned(2) [OF assms(3) o] by simp
    then have "\<not> n_free (cnames s' ! n)" using counted_liveN [OF assms(3), of n] by simp
    then have m: "n_mtpt (cnames s' ! n) = n_mtpt (cnames s ! n)" using assms(2) by (simp add: calm_def)
    have "place (chans s' ! x) = place (chans s ! x)" for x using assms(2) by (intro place_ident) (simp add: calm_def)
    then have "origin s' c root d" using og n n' m by (auto simp: origin_def pinned_def split: if_splits)
    then show ?thesis unfolding rooted_def by blast
  qed
  then have "ns_ok pg s'"
    using k(2) assms(2,4,5) by (auto simp: ns_ok_def rooted_opt_def calm_def split: option.splits)
  then show ?thesis using assms(2,3,6) k(4) by (simp add: kern_def fgrp_ok_def calm_def)
qed

section \<open>Reading, writing and seeking\<close>

text \<open>A step that changes hands nothing that \<open>H\<close> or the tables have.\<close>

definition quiet :: "held \<Rightarrow> 'd kst \<Rightarrow> 'd kst \<Rightarrow> bool" where
  "quiet H s s' \<longleftrightarrow> counted s' H \<and> steady H s s'"

lemma quiet_refl: "counted s H \<Longrightarrow> quiet H s s"
  by (simp add: quiet_def)

lemma quiet_trans: "quiet H s t \<Longrightarrow> quiet H t u \<Longrightarrow> quiet H s u"
  by (auto simp: quiet_def intro: steady_trans)

lemma kern_quiet: "kern H pg fg s \<Longrightarrow> quiet H s s' \<Longrightarrow> kern H pg fg s'"
  by (auto simp: quiet_def intro: kern_steady)

lemma quiet_fields:
  assumes "counted s H" and "let x = chans s ! c; y = f x in c_ref y = c_ref x \<and> c_flag y = c_flag x \<and> c_umh y = c_umh x
      \<and> c_umc y = c_umc x \<and> c_mchan y = c_mchan x \<and> c_name y = c_name x \<and> ident y = ident x"
  shows "quiet H s (upd_chan c f s)"
proof -
  have "counted (upd_chan c f s) H"
    by (rule upd_chan_counted [OF assms(1)]) (use assms(2) in \<open>simp_all add: is_free_def is_open_def Let_def\<close>)
  moreover have "steady H s (upd_chan c f s)"
    using assms(2) by (auto simp: steady_def same_chan_def upd_chan_def nth_upd_all Let_def)
  ultimately show ?thesis by (simp add: quiet_def)
qed

lemma quiet_offset: "counted s H \<Longrightarrow> quiet H s (add_offset c n s)" "counted s H \<Longrightarrow> quiet H s (set_offset c n s)"
  by (auto simp: add_offset_def set_offset_def ident_def intro!: quiet_fields)

lemma quiet_dst: "counted s H \<Longrightarrow> quiet H s (s\<lparr>dst := d\<rparr>)"
proof -
  have "steady H s (s\<lparr>dst := d\<rparr>)" by (simp add: steady_def same_chan_def)
  moreover have "counted (s\<lparr>dst := d\<rparr>) H = counted s H"
    by (simp add: counted_def chanrc.ok_def namerc.ok_def headrc.ok_def)
  ultimately show "counted s H \<Longrightarrow> quiet H s (s\<lparr>dst := d\<rparr>)" by (simp add: quiet_def)
qed

lemma quiet_do_read: "counted s H \<Longrightarrow> do_read io c n off s = (r, s') \<Longrightarrow> quiet H s s'"
  by (auto simp: do_read_def Let_def quiet_dst split: prod.splits)

text \<open>The channel of the union element being read.\<close>

lemma cclone_umc:
  assumes "counted s H" and "c \<in># ownC s + hC H" and "\<not> is_open (chans s ! c)" and "cclone dev c s = (Inr nc, s')"
    and "i \<in># ownC s + hC H"
  shows "c_umc (chans s' ! i) = c_umc (chans s ! i)"
proof -
  obtain qids s1 where w: "walkdev dev c [] s = (Some (qids, Some nc), s1)"
    and s': "s' = incref_name_opt (c_name (chans s ! c))
      (upd_chan nc (\<lambda>x. x\<lparr>c_name := c_name (chans s ! c), c_mflag := c_mflag (chans s ! c)\<rparr>) s1)"
    using assms(4) by (auto simp: cclone_def split: option.splits prod.splits)
  obtain s2 where dc: "devclone c s = (nc, s2)" and s1: "s1 = upd_chan nc (\<lambda>x. x\<lparr>c_qid :=
      (if qids = [] then c_qid (chans s ! c) else last qids), c_mchan := c_mchan (chans s ! c)\<rparr>) (incref_opt (c_mchan (chans s ! c)) s2)"
    using w by (cases rule: walkdev_cases) simp_all
  note d = devclone_counted [OF assms(1-3) dc]
  have "i \<noteq> nc" using d(3) assms(5) by blast
  then have "c_umc (chans s' ! i) = c_umc (chans s2 ! i)"
    by (simp add: s' s1 incref_name_opt_def incref_name_def split: option.split) (simp add: upd_chan_def)
  then show ?thesis using d(11) [OF assms(5)] by simp
qed

lemma drop_umc_ok:
  assumes "counted s H" and "c \<in># hC H"
  shows "quiet H s (drop_umc dev c s)"
proof (cases "c_umc (chans s ! c)")
  case None
  then show ?thesis using assms(1) by (simp add: drop_umc_def quiet_refl)
next
  case (Some u)
  let ?f = "\<lambda>x. x\<lparr>c_umc := None\<rparr>"
  define s0 where "s0 = upd_chan c ?f s"
  have l: "c < length (chans s)" "\<not> is_free (chans s ! c)" using counted_liveC [OF assms(1), of c] assms(2) by simp_all
  have c0: "counted s0 (addC (opt_ms (Some u)) H)"
    using set_umc_counted [of s None H c] assms(1) l Some by (simp add: s0_def)
  note k = cclose_counted [OF c0, of dev] closes_steady(1) [OF c0, of dev]
  have cp: "\<not> is_free (chans (cclose dev (Some u) s0) ! c)" using counted_liveC [OF k(1), of c] assms(2) by simp
  have "chans s ! c = (?f (chans s ! c))\<lparr>c_umc := Some u\<rparr>" using Some by (cases "chans s ! c") simp
  then have "s = upd_chan c (\<lambda>x. x\<lparr>c_umc := Some u\<rparr>) s0"
    using l(1) by (simp add: s0_def upd_chan_comp) (simp add: upd_chan_def)
  then have "cclose dev (Some u) s = upd_chan c (\<lambda>x. x\<lparr>c_umc := Some u\<rparr>) (cclose dev (Some u) s0)"
    using umc_field.release [OF cp [unfolded cclose_def]] by (simp add: cclose_def)
  moreover have "chans (cclose dev (Some u) s0) ! c = ?f (chans (cclose dev (Some u) s0) ! c)"
  proof -
    have "chanC (chans (cclose dev (Some u) s0) ! c) \<subseteq># chanC (chans s0 ! c)"
      "c_mchan (chans (cclose dev (Some u) s0) ! c) = c_mchan (chans s0 ! c)"
      using kept_closes(1) [of s0 dev "Some u"] cp by (auto simp: kept_def kept_chan_def)
    then have "opt_ms (c_umc (chans (cclose dev (Some u) s0) ! c)) \<subseteq># opt_ms (c_umc (chans s0 ! c))"
      using cp l by (simp add: chanC_def s0_def upd_nth is_free_def split: if_splits)
    then have "c_umc (chans (cclose dev (Some u) s0) ! c) = None"
      using l(1) by (cases "c_umc (chans (cclose dev (Some u) s0) ! c)") (simp_all add: s0_def upd_nth)
    then show ?thesis by (cases "chans (cclose dev (Some u) s0) ! c") simp
  qed
  ultimately have "drop_umc dev c s = cclose dev (Some u) s0"
    using Some l(1) keptD(1) [OF kept_closes(1), of dev "Some u" s0]
    by (simp add: drop_umc_def upd_chan_comp s0_def [symmetric]) (simp add: upd_chan_def s0_def)
  moreover have "steady H s s0"
    by (auto simp: s0_def steady_def same_chan_def upd_chan_def nth_upd_all ident_def)
  ultimately show ?thesis using k by (auto simp: quiet_def intro: steady_trans)
qed

lemma union_open_ok:
  assumes "counted s H" and "c \<in># hC H" and "mt_to m \<in># headsC s" and "union_open dev c m s = (r, s')"
  shows "quiet H s s'"
proof (cases "c_umc (chans s ! c)")
  case (Some u)
  then show ?thesis using assms(1,4) by (simp add: union_open_def quiet_refl)
next
  case None
  have t: "mt_to m \<in># ownC s + hC H" "\<not> is_open (chans s ! mt_to m)"
    using headsC_own [OF assms(3)] countedD(9) [OF assms(1)] by simp_all
  obtain q s1 where cc: "cclone dev (mt_to m) s = (q, s1)" by fastforce
  note k = cclone_counted [OF assms(1) t cc]
  show ?thesis
  proof (cases q)
    case (Inl e)
    then show ?thesis using assms(4) k(2) [OF Inl] None cc quiet_refl [OF assms(1)] by (simp add: union_open_def)
  next
    case (Inr u)
    note ku = k(3) [OF Inr]
    have c: "c \<in># ownC s + hC H" using assms(2) by simp
    have um: "c_umc (chans s1 ! c) = None" using cclone_umc [OF assms(1) t _ c] cc Inr None by simp
    define s2 where "s2 = upd_chan c (\<lambda>x. x\<lparr>c_umc := Some u\<rparr>) s1"
    have l: "c < length (chans s1)" "\<not> is_free (chans s1 ! c)"
      using counted_liveC [OF conjunct1 [OF ku], of c] assms(2) by simp_all
    have c2: "counted s2 H"
      using set_umc_counted [of s1 "Some u" H c] ku l um by (simp add: s2_def)
    have st2: "steady H s1 s2"
      by (auto simp: s2_def steady_def same_chan_def upd_chan_def nth_upd_all ident_def)
    have q2: "quiet H s s2" using c2 steady_trans [OF k(1) st2] by (simp add: quiet_def)
    have f: "u \<notin># nsC s2 + hC H" using ku by (simp add: s2_def)
    have m: "quiet H s2 (set_mode u qm s2)" for qm
    proof -
      have "counted (set_mode u qm s2) H" unfolding set_mode_def
        by (rule upd_chan_counted [OF c2]) (use f in \<open>simp_all add: is_free_def COPEN_def CFREE_def word_ao_dist Let_def\<close>)
      moreover have "steady H s2 (set_mode u qm s2)" unfolding set_mode_def
        by (rule steady_fresh [OF c2 _ _ f]) (simp_all add: upd_chan_def)
      ultimately show ?thesis by (simp add: quiet_def)
    qed
    show ?thesis
      using assms(4) None cc Inr q2 quiet_trans [OF q2 m] by (auto simp: union_open_def s2_def [symmetric] Let_def split: sum.splits)
  qed
qed

lemma union_elem_ok:
  assumes "counted s H" and "c \<in># hC H" and "mt_to m \<in># headsC s" and "union_elem dev io c n m s = (b, s')"
  shows "quiet H s s'"
proof -
  obtain q s1 where o: "union_open dev c m s = (q, s1)" by fastforce
  note k = union_open_ok [OF assms(1-3) o]
  show ?thesis
  proof (cases q)
    case (Inl e)
    then show ?thesis using assms(4) o k by (simp add: union_elem_def)
  next
    case (Inr u)
    obtain p s2 where r: "do_read io u n (c_offset (chans s1 ! u)) s1 = (p, s2)" by fastforce
    have "quiet H s1 s2" by (rule quiet_do_read [OF _ r]) (use k in \<open>simp add: quiet_def\<close>)
    then have q2: "quiet H s s2" by (rule quiet_trans [OF k])
    then have "quiet H s (add_offset u i s2)" for i by (rule quiet_trans [OF _ quiet_offset(1)]) (use q2 in \<open>simp add: quiet_def\<close>)
    then show ?thesis using assms(4) o Inr r q2 by (auto simp: union_elem_def split: sum.splits)
  qed
qed

lemma union_loop_ok:
  assumes "counted s H" and "c \<in># hC H" and "\<forall>m\<in>set ms. mt_to m \<in># headsC s" and "union_loop dev io c n ms s = (b, s')"
  shows "quiet H s s'"
  using assms(1,3,4)
proof (induction ms arbitrary: s)
  case Nil
  then show ?case by (simp add: quiet_refl)
next
  case (Cons m ms)
  obtain b1 s1 where e: "union_elem dev io c n m s = (b1, s1)" by fastforce
  have q1: "quiet H s s1" using union_elem_ok [OF Cons.prems(1) assms(2) _ e] Cons.prems(2) by simp
  show ?case
  proof (cases "b1 = []")
    case False
    then show ?thesis using Cons.prems(3) e q1 by simp
  next
    case True
    define s2 where "s2 = upd_chan c (\<lambda>x. x\<lparr>c_uri := c_uri x + 1\<rparr>) s1"
    have q2: "quiet H s1 s2" unfolding s2_def
      by (rule quiet_fields) (use q1 in \<open>simp_all add: quiet_def ident_def\<close>)
    have q3: "quiet H s2 (drop_umc dev c s2)" by (rule drop_umc_ok [OF _ assms(2)]) (use q2 in \<open>simp add: quiet_def\<close>)
    have q: "quiet H s (drop_umc dev c s2)" using q1 q2 q3 quiet_trans by blast
    have "headsC (drop_umc dev c s2) = headsC s" using q headsC_steady by (auto simp: quiet_def)
    moreover have "counted (drop_umc dev c s2) H" using q by (simp add: quiet_def)
    moreover have "union_loop dev io c n ms (drop_umc dev c s2) = (b, s')"
      using Cons.prems(3) e True by (simp add: s2_def)
    ultimately have "quiet H (drop_umc dev c s2) s'" using Cons.IH Cons.prems(2) by simp
    then show ?thesis by (rule quiet_trans [OF q])
  qed
qed

lemma unionread_ok:
  assumes "counted s H" and "c \<in># hC H" and "c_umh (chans s ! c) = Some h" and "unionread dev io c h n s = (b, s')"
  shows "quiet H s s'"
proof (rule union_loop_ok [OF assms(1,2) _ assms(4) [unfolded unionread_def]])
  have "h \<in># ownM s" using chan_owned(3) [OF assms(1), of c] assms(2,3) by simp
  then have h: "h < length (mheads s)" using counted_liveM [OF assms(1), of h] by simp
  have "mt_to m \<in># headsC s" if "m \<in> set (mh_mount (mheads s ! h))" for m
    using head_owns(2) [OF h _ that] that by (cases "mh_mount (mheads s ! h)") auto
  then show "\<forall>m\<in>set (drop (nat (c_uri (the_chan s c))) (mh_mount (the_mhead s h))). mt_to m \<in># headsC s"
    by (meson in_set_dropD)
qed

lemma unionrewind_ok:
  assumes "counted s H" and "c \<in># hC H" shows "quiet H s (unionrewind dev c s)"
proof -
  have "quiet H s (upd_chan c (\<lambda>x. x\<lparr>c_uri := 0\<rparr>) s)" by (rule quiet_fields [OF assms(1)]) (simp add: ident_def)
  moreover from this have "quiet H (upd_chan c (\<lambda>x. x\<lparr>c_uri := 0\<rparr>) s) (unionrewind dev c s)"
    unfolding unionrewind_def by (intro drop_umc_ok assms(2)) (simp add: quiet_def)
  ultimately show ?thesis by (rule quiet_trans)
qed

lemma read_at_ok:
  assumes "counted s H" and "c \<in># hC H" and "read_at dev io c n offp s = (r, s')"
  shows "quiet H s s'"
proof -
  define off where "off = (case offp of None \<Rightarrow> c_offset (the_chan s c) | Some off \<Rightarrow> off)"
  define s1 where "s1 = (if offp = None then upd_chan c (\<lambda>x. x\<lparr>c_offset := 0, c_dri := 0\<rparr>) s else s)"
  define s2 where "s2 = (if off = 0 then unionrewind dev c s1 else s)"
  obtain q s3 where rd: "do_read io c n off s2 = (q, s3)" by fastforce
  have e: "off < 0 \<and> s' = s \<or> s' = s3 \<or> (\<exists>k. s' = add_offset c k s3)"
  proof (cases "off < 0")
    case True
    then show ?thesis using assms(3) by (simp add: read_at_def off_def [symmetric])
  next
    case False
    then have "(case do_read io c n off s2 of (Inl e, s) \<Rightarrow> (Inl e, s) | (Inr b, s) \<Rightarrow> (Inr b, add_offset c (int (length b)) s)) = (r, s')"
      using assms(3) unfolding read_at_def off_def [symmetric] Let_def s2_def s1_def by simp
    then show ?thesis using rd by (auto split: sum.splits)
  qed
  have q1: "quiet H s s1" using quiet_refl [OF assms(1)] by (auto simp: s1_def ident_def intro!: quiet_fields assms(1))
  then have "quiet H s1 (unionrewind dev c s1)" by (intro unionrewind_ok assms(2)) (simp add: quiet_def)
  then have q2: "quiet H s s2" using quiet_trans [OF q1] quiet_refl [OF assms(1)] by (simp add: s2_def)
  have "quiet H s2 s3" by (rule quiet_do_read [OF _ rd]) (use q2 in \<open>simp add: quiet_def\<close>)
  then have q3: "quiet H s s3" by (rule quiet_trans [OF q2])
  then have "quiet H s (add_offset c k s3)" for k
    by (rule quiet_trans [OF _ quiet_offset(1)]) (use q3 in \<open>simp add: quiet_def\<close>)
  then show ?thesis using e q3 quiet_refl [OF assms(1)] by blast
qed

lemma write_at_ok:
  assumes "counted s H" and "write_at io c b offp s = (r, s')" shows "quiet H s s'"
proof -
  have ad: "quiet H s t \<Longrightarrow> quiet H s (add_offset c k t)" "quiet H s t \<Longrightarrow> quiet H s (t\<lparr>dst := d\<rparr>)" for k d t
    by (rule quiet_trans, assumption, rule quiet_offset, simp add: quiet_def)
      (rule quiet_trans, assumption, rule quiet_dst, simp add: quiet_def)
  show ?thesis
    using assms(2) quiet_refl [OF assms(1)]
    by (auto simp: write_at_def Let_def split: option.splits if_splits prod.splits sum.splits intro!: ad)
qed

lemma seek_to_ok:
  assumes "counted s H" and "c \<in># hC H" and "seek_to dev io c off whence s = (r, s')" shows "quiet H s s'"
proof -
  have st: "quiet H s (set_offset c k s)" for k by (rule quiet_offset(2) [OF assms(1)])
  have "quiet H s (set_offset c k (unionrewind dev c s))" for k
    by (rule quiet_trans [OF unionrewind_ok [OF assms(1,2)] quiet_offset(2)]) (use unionrewind_ok [OF assms(1,2)] in \<open>simp add: quiet_def\<close>)
  then show ?thesis
    using assms(3) quiet_refl [OF assms(1)] st
    by (auto simp: seek_to_def Let_def split: if_splits sum.splits option.splits)
qed

end
