(* ===== verification/SysProps.thy ===== *)
theory SysProps
  imports SysInv
begin

text \<open>
  The properties of the system calls of emu/port/sysfile.c: each keeps the invariant \<open>kern\<close> and balances the
  references it takes, in any order and with any arguments and answers of the devices; descriptors are
  handed out lowest first; seeking is exact.
\<close>

unbundle bit_operations_syntax

section \<open>What a call leaves\<close>

text \<open>
  \<open>after H pg fg leak s\<close>: the invariant with the references \<open>H\<close> held outside as before, or, if the call may
  leak, with some that nobody will give back.
\<close>

definition after :: "held \<Rightarrow> nat \<Rightarrow> nat \<Rightarrow> bool \<Rightarrow> 'd kst \<Rightarrow> bool" where
  "after H pg fg leak s \<longleftrightarrow> kern H pg fg s \<or> leak \<and> (\<exists>C M N. kern (addC C (addM M (addN N H))) pg fg s)"

lemma after_kern: "kern H pg fg s \<Longrightarrow> after H pg fg leak s"
  by (simp add: after_def)

lemma after_mono: "after H pg fg l s \<Longrightarrow> (l \<Longrightarrow> l') \<Longrightarrow> after H pg fg l' s"
  by (auto simp: after_def)

lemma after_cclose: "after (addC {#c#} H) pg fg l s \<Longrightarrow> after H pg fg l (cclose dev (Some c) s)"
  unfolding after_def
proof (elim disjE conjE exE)
  fix C M N
  assume l: "l" and k: "kern (addC C (addM M (addN N (addC {#c#} H)))) pg fg s"
  have e: "addC C (addM M (addN N (addC {#c#} H))) = addC {#c#} (addC C (addM M (addN N H)))"
    by (simp add: add_comm ac_simps)
  have "kern (addC C (addM M (addN N H))) pg fg (cclose dev (Some c) s)" using k unfolding e by (rule kern_cclose1)
  with l show "kern H pg fg (cclose dev (Some c) s)
      \<or> l \<and> (\<exists>C M N. kern (addC C (addM M (addN N H))) pg fg (cclose dev (Some c) s))" by blast
qed (simp add: kern_cclose1)

lemma after_cclose_opt: "after (addC (opt_ms c) H) pg fg l s \<Longrightarrow> after H pg fg l (cclose dev c s)"
  by (cases c) (simp_all add: after_cclose, simp add: cclose_def opt_call_def)

lemma fdtochan_ok:
  assumes "kern H pg fg s" and "fdtochan dev fg fd mode chk True s = (r, s')"
  shows "r = Inl e \<Longrightarrow> kern H pg fg s'"
    and "r = Inr c \<Longrightarrow> kern (addC {#c#} H) pg fg s' \<and> s' = incref_chan c s \<and> fdmap (fgrps s ! fg) (nat fd) = Some c \<and> 0 \<le> fd"
proof -
  let ?f = "fgrps s ! fg"
  have ok: "fds_ok ?f" using kernD(4) [OF assms(1)] by (simp add: fgrp_ok_def)
  have nf: "\<not> (0 \<le> fd \<and> fd \<le> fg_maxfd ?f \<and> length (fg_fd ?f) \<le> nat fd)" using fds_okD(4) [OF ok] by auto
  have inc: "kern (addC {#d#} H) pg fg (incref_chan d s)" if "fd_slot ?f fd = Some d" for d
  proof -
    have "d \<in># ownC s" using kern_fd [OF assms(1), of "nat fd"] that fd_slot_map [OF ok] by (auto split: if_splits)
    then have "counted (incref_chan d s) (addC {#d#} H)" using incref_chan_counted [OF kernD(1) [OF assms(1)]] by simp
    then show ?thesis by (rule kern_steady [OF assms(1) incref_steady(1)])
  qed
  show "kern H pg fg s'" if "r = Inl e"
    using assms nf that inc
    by (auto simp: fdtochan_def Let_def split: option.splits if_splits intro: kern_cclose1)
  show "kern (addC {#c#} H) pg fg s' \<and> s' = incref_chan c s \<and> fdmap ?f (nat fd) = Some c \<and> 0 \<le> fd" if "r = Inr c"
    using assms(2) nf that inc fd_slot_map [OF ok]
    by (auto simp: fdtochan_def Let_def split: option.splits if_splits)
qed

lemma namec_kern:
  assumes "kern H pg fg s" and "0 \<notin> set path" and "namec dev pg path amode omode perm s = (r, s')"
  shows "r = Inl e \<Longrightarrow> after H pg fg (e = Eclone) s'"
    and "r = Inr c \<Longrightarrow> kern (addC {#c#} H) pg fg s' \<and> own H s' c \<and> steady H s s'
      \<and> (is_open (chans s' ! c) \<longleftrightarrow> amode \<in> {Aopen, Acreate}) \<and> (amode \<in> {Atodir, Amount} \<longrightarrow> rooted s' c)"
proof -
  note k = kernD [OF assms(1)]
  note n = namec_ok [where dev = dev and amode = amode and omode = omode and perm = perm, OF k(1,2) assms(2), unfolded assms(3)]
  show "after H pg fg (e = Eclone) s'" if "r = Inl e"
    using n that kern_steady [OF assms(1)] by (auto simp: after_def) blast
  show "kern (addC {#c#} H) pg fg s' \<and> own H s' c \<and> steady H s s'
      \<and> (is_open (chans s' ! c) \<longleftrightarrow> amode \<in> {Aopen, Acreate}) \<and> (amode \<in> {Atodir, Amount} \<longrightarrow> rooted s' c)" if "r = Inr c"
    using n that kern_steady [OF assms(1)] by (auto simp: own_def)
qed

section \<open>Descriptors\<close>

lemma give_fd_ok:
  assumes "kern (addC {#c#} H) pg fg s" and "give_fd dev fg c s = (r, s')" shows "kern H pg fg s'"
proof -
  have ok: "fds_ok (fgrps s ! fg)" using kernD(4) [OF assms(1)] by (simp add: fgrp_ok_def)
  obtain q t where n: "newfd fg c s = (q, t)" by fastforce
  note k = newfd_ok [OF ok n]
  show ?thesis
  proof (cases q)
    case (Inl e)
    then show ?thesis using assms n k(1) [OF Inl] kern_cclose1 by (auto simp: give_fd_def)
  next
    case (Inr i)
    then obtain f' where f: "t = upd_fgrp fg (\<lambda>_. f') s" "fds_ok f'" "fg_ref f' = fg_ref (fgrps s ! fg)"
      "fdmap f' = (fdmap (fgrps s ! fg))(i \<mapsto> c)" "fdmap (fgrps s ! fg) i = None"
      using k(2) [OF Inr] by blast
    have "kern (addC {#} H) pg fg t"
      unfolding f(1) by (rule kern_fdmap [where i = i, OF assms(1) f(4)]) (simp_all add: f)
    then show ?thesis using assms(2) n Inr by (simp add: give_fd_def)
  qed
qed

lemma fdclose_ok:
  assumes "kern H pg fg s" shows "kern H pg fg (fdclose dev fg fd s)"
proof (cases "fd_slot (fgrps s ! fg) fd")
  case None
  then show ?thesis using assms by (simp add: fdclose_def)
next
  case (Some c)
  have ok: "fds_ok (fgrps s ! fg)" using kernD(4) [OF assms] by (simp add: fgrp_ok_def)
  have b: "0 \<le> fd" "fd \<le> fg_maxfd (fgrps s ! fg)" using Some by (auto simp: fd_slot_def split: if_splits)
  note d = drop_fd_ok [OF ok b]
  have m: "fdmap (fgrps s ! fg) (nat fd) = Some c" using Some fd_slot_map [OF ok] b(1) by simp
  have "kern (addC {#c#} H) pg fg (upd_fgrp fg (drop_fd fd) s)"
    by (rule kern_fdmap [where a = "{#}" and i = "nat fd" and v = None]) (use assms d m in simp_all)
  then show ?thesis using Some by (simp add: fdclose_def kern_cclose1)
qed

lemma kfgrpclose_ok:
  assumes "kern H pg fg s" and "kfgrpclose dev fg fd s = (r, s')" shows "kern H pg fg s'"
proof -
  have ok: "fds_ok (fgrps s ! fg)" using kernD(4) [OF assms(1)] by (simp add: fgrp_ok_def)
  have nf: "\<not> (0 \<le> fd \<and> fd \<le> fg_maxfd (fgrps s ! fg) \<and> length (fg_fd (fgrps s ! fg)) \<le> nat fd)" using fds_okD(4) [OF ok] by auto
  then have "s' = s \<or> s' = fdclose dev fg fd s"
    using assms(2) by (auto simp: kfgrpclose_def fdtochan_def Let_def split: option.splits if_splits prod.splits sum.splits)
  then show ?thesis using assms(1) fdclose_ok by blast
qed

lemma dup_to_ok:
  assumes "kern (addC {#c#} H) pg fg s" and "dup_to dev fg c fd s = (r, s')" shows "kern H pg fg s'"
proof -
  define f where "f = fgrps s ! fg"
  have ok: "fds_ok f" using kernD(4) [OF assms(1)] by (simp add: fgrp_ok_def f_def)
  obtain g f1 where gr: "(if fd < 0 then (False, f) else growfd f fd) = (g, f1)" by fastforce
  show ?thesis
  proof (cases g)
    case False
    then have "s' = cclose dev (Some c) s"
      using assms(2) unfolding dup_to_def f_def [symmetric] gr Let_def prod.case by simp
    then show ?thesis using assms(1) kern_cclose1 by simp
  next
    case True
    then have fd: "0 \<le> fd" and gr': "growfd f fd = (g, f1)" using gr by (auto split: if_splits)
    from gr' fds_okD(5) [OF ok] obtain k where k: "f1 = f\<lparr>fg_fd := fg_fd f @ replicate k None\<rparr>" "fd < nfd f1" "nfd f1 \<le> MAXNFD"
      by (cases rule: growfd_cases) (use True in auto)
    have o1: "fds_ok f1" using grown_ok [OF ok, of k] k by simp
    let ?f2 = "f1\<lparr>fg_maxfd := max (fg_maxfd f1) fd, fg_fd := (fg_fd f1)[nat fd := Some c]\<rparr>"
    have l: "nat fd < length (fg_fd f1)" using k(2) fd by simp
    have oc: "fg_fd f1 ! nat fd = fdmap f (nat fd)" using l k(1) by (simp add: fdmap_def nth_append)
    have "fdmap ?f2 = (fdmap f1)(nat fd := Some c)" using l by (auto simp: fdmap_def fun_eq_iff)
    then have m: "fdmap ?f2 = (fdmap f)(nat fd := Some c)" using k(1) by simp
    have "kern (addC (opt_ms (fdmap f (nat fd))) H) pg fg (upd_fgrp fg (\<lambda>_. ?f2) s)"
      by (rule kern_fdmap [where i = "nat fd" and v = "Some c", OF assms(1)])
        (use m set_fd_ok [OF o1 fd k(2)] k(1) in \<open>simp_all add: f_def\<close>)
    then have "kern H pg fg (cclose dev (fdmap f (nat fd)) (upd_fgrp fg (\<lambda>_. ?f2) s))" by (rule kern_cclose)
    moreover have "s' = cclose dev (fdmap f (nat fd)) (upd_fgrp fg (\<lambda>_. ?f2) s)"
      using assms(2) True oc unfolding dup_to_def f_def [symmetric] gr Let_def prod.case by simp
    ultimately show ?thesis by simp
  qed
qed

lemma kdup_ok:
  assumes "kern H pg fg s" and "kdup dev fg old new s = (r, s')" shows "after H pg fg (r = Inl Eperm) s'"
proof -
  obtain q t where f: "fdtochan dev fg old (-1) False True s = (q, t)" by fastforce
  note k = fdtochan_ok [OF assms(1) f]
  show ?thesis
  proof (cases q)
    case (Inl e)
    then show ?thesis using assms(2) f k(1) by (auto simp: kdup_def intro: after_kern)
  next
    case (Inr c)
    note kc = conjunct1 [OF k(2) [OF Inr]]
    show ?thesis
    proof (cases "q_type (c_qid (the_chan t c)) AND QTAUTH \<noteq> 0")
      case True
      then have "r = Inl Eperm" "s' = t" using assms(2) f Inr by (simp_all add: kdup_def)
      moreover have "kern (addC {#c#} (addM {#} (addN {#} H))) pg fg t" using kc by simp
      ultimately show ?thesis unfolding after_def by blast
    next
      case False
      then have "(if new \<noteq> -1 then dup_to dev fg c new t else give_fd dev fg c t) = (r, s')"
        using assms(2) f Inr by (simp add: kdup_def)
      then show ?thesis using dup_to_ok [OF kc] give_fd_ok [OF kc] by (auto split: if_splits intro: after_kern)
    qed
  qed
qed

section \<open>Calls on a channel\<close>

lemma on_fd_ok:
  assumes "kern H pg fg s" and "on_chan dev (fdtochan dev fg fd mode chk True s) f = (r, s')"
    and "\<And>c t x u. kern (addC {#c#} H) pg fg t \<Longrightarrow> f c t = (x, u) \<Longrightarrow> kern (addC {#c#} H) pg fg u"
  shows "kern H pg fg s'"
proof -
  obtain q t where fd: "fdtochan dev fg fd mode chk True s = (q, t)" by fastforce
  note k = fdtochan_ok [OF assms(1) fd]
  show ?thesis
  proof (cases q)
    case (Inl e)
    then show ?thesis using assms(2) fd k(1) by (auto simp: on_chan_def)
  next
    case (Inr c)
    then show ?thesis using assms(2) fd k(2) [OF Inr] assms(3) [of c t]
      by (auto simp: on_chan_def Let_def split: prod.splits intro: kern_cclose1)
  qed
qed

lemma on_name_ok:
  assumes "kern H pg fg s" and "0 \<notin> set path" and "on_chan dev (namec dev pg path amode omode perm s) f = (r, s')"
    and "\<And>c t x u. kern (addC {#c#} H) pg fg t \<Longrightarrow> own H t c \<Longrightarrow> f c t = (x, u) \<Longrightarrow> kern (addC {#c#} H) pg fg u"
  shows "after H pg fg (r = Inl Eclone) s'"
proof -
  obtain q t where n: "namec dev pg path amode omode perm s = (q, t)" by fastforce
  note k = namec_kern [OF assms(1,2) n]
  show ?thesis
  proof (cases q)
    case (Inl e)
    then show ?thesis using assms(3) n k(1) [OF Inl] by (auto simp: on_chan_def)
  next
    case (Inr c)
    then show ?thesis using assms(3) n k(2) [OF Inr] assms(4) [of c t]
      by (auto simp: on_chan_def Let_def split: prod.splits intro!: after_kern intro: kern_cclose1)
  qed
qed

lemma open_ok:
  assumes "kern H pg fg s" and "0 \<notin> set path"
    and "(case namec dev pg path amode omode perm s of (Inl e, s) \<Rightarrow> (Inl e, s) | (Inr c, s) \<Rightarrow> give_fd dev fg c s) = (r, s')"
  shows "after H pg fg (r = Inl Eclone) s'"
proof -
  obtain q t where n: "namec dev pg path amode omode perm s = (q, t)" by fastforce
  note k = namec_kern [OF assms(1,2) n]
  show ?thesis
  proof (cases q)
    case (Inl e)
    then show ?thesis using assms(3) n k(1) [OF Inl] by auto
  next
    case (Inr c)
    then show ?thesis using assms(3) n give_fd_ok [OF conjunct1 [OF k(2) [OF Inr]]] by (auto intro!: after_kern)
  qed
qed

lemma quiet_kern: "kern H pg fg s \<Longrightarrow> (counted s H \<Longrightarrow> quiet H s s') \<Longrightarrow> kern H pg fg s'"
  using kern_quiet kernD(1) by blast

lemma rread_ok:
  assumes "kern H pg fg s" and "rread dev io fg fd n offp s = (r, s')" shows "kern H pg fg s'"
proof (rule on_fd_ok [OF assms(1)])
  let ?body = "\<lambda>c s. if n < 0 then (Inl Etoosmall, s)
      else (case (is_dir (c_qid (the_chan s c)), c_umh (the_chan s c)) of
           (True, Some h) \<Rightarrow> (let (b, s) = unionread dev io c h n s in (Inr b, s))
         | _ \<Rightarrow> read_at dev io c n offp s)"
  show "on_chan dev (fdtochan dev fg fd 0 True True s) ?body = (r, s')"
    using assms(2) by (simp add: rread_def on_chan_def)
  show "kern (addC {#c#} H) pg fg u" if "kern (addC {#c#} H) pg fg t" "?body c t = (x, u)" for c t x u
    by (rule quiet_kern [OF that(1)])
      (use that(2) unionread_ok [of t "addC {#c#} H" c _ dev io n _ u] read_at_ok [of t "addC {#c#} H" c dev io n offp _ u]
        in \<open>auto simp: quiet_refl Let_def split: if_splits option.splits prod.splits bool.splits\<close>)
qed

lemma rwrite_ok:
  assumes "kern H pg fg s" and "rwrite dev io fg fd b offp s = (r, s')" shows "kern H pg fg s'"
proof (rule on_fd_ok [OF assms(1)])
  let ?body = "\<lambda>c s. if is_dir (c_qid (the_chan s c)) then (Inl Eisdir, s) else write_at io c b offp s"
  show "on_chan dev (fdtochan dev fg fd 1 True True s) ?body = (r, s')"
    using assms(2) by (simp add: rwrite_def on_chan_def)
  show "kern (addC {#c#} H) pg fg u" if "kern (addC {#c#} H) pg fg t" "?body c t = (x, u)" for c t x u
    by (rule quiet_kern [OF that(1)]) (use that(2) write_at_ok [of t "addC {#c#} H" io c b offp x u] in \<open>auto simp: quiet_refl split: if_splits\<close>)
qed

lemma kseek_ok:
  assumes "kern H pg fg s" and "kseek dev io fg fd off whence s = (r, s')" shows "kern H pg fg s'"
proof (rule on_fd_ok [OF assms(1)])
  let ?body = "\<lambda>c s. case seek_to dev io c off whence s of
      (Inl e, s) \<Rightarrow> (Inl e, s) | (Inr off, s) \<Rightarrow> (Inr off, upd_chan c (\<lambda>x. x\<lparr>c_dri := 0\<rparr>) s)"
  show "on_chan dev (fdtochan dev fg fd (-1) True True s) ?body = (r, s')"
    using assms(2) by (auto simp: kseek_def on_chan_def Let_def split: prod.splits sum.splits)
  show "kern (addC {#c#} H) pg fg u" if "kern (addC {#c#} H) pg fg t" "?body c t = (x, u)" for c t x u
  proof (rule quiet_kern [OF that(1)])
    assume t: "counted t (addC {#c#} H)"
    obtain q v where sk: "seek_to dev io c off whence t = (q, v)" by fastforce
    have q: "quiet (addC {#c#} H) t v" by (rule seek_to_ok [OF t _ sk]) simp
    then have "quiet (addC {#c#} H) v (upd_chan c (\<lambda>x. x\<lparr>c_dri := 0\<rparr>) v)"
      by (intro quiet_fields) (simp_all add: quiet_def ident_def)
    then show "quiet (addC {#c#} H) t u" using that(2) sk q quiet_trans [OF q] by (auto split: sum.splits)
  qed
qed

section \<open>Calls on the name space\<close>

lemma kchdir_ok:
  assumes "kern H pg fg s" and "0 \<notin> set path" and "kchdir dev pg path s = (r, s')"
  shows "after H pg fg (r = Inl Eclone) s'"
proof -
  obtain q t where n: "namec dev pg path Atodir 0 0 s = (q, t)" by fastforce
  note k = namec_kern [OF assms(1,2) n]
  show ?thesis
  proof (cases q)
    case (Inl e)
    then show ?thesis using assms(3) n k(1) [OF Inl] by (auto simp: kchdir_def)
  next
    case (Inr c)
    let ?f = "\<lambda>p. p\<lparr>pg_dot := Some c\<rparr>"
    note kc = k(2) [OF Inr]
    have kt: "kern (addC {#c#} H) pg fg t" using kc by blast
    define old where "old = pg_dot (pgrps t ! pg)"
    define u where "u = upd_pgrp pg ?f t"
    have s': "s' = cclose dev old u" using assms(3) n Inr by (simp add: kchdir_def u_def old_def Let_def)
    have w: "live_pgrp t pg" "linked_ok t" using ns_okD [OF kernD(2) [OF kt]] by simp_all
    have p: "pg < length (pgrps t)" "0 < pg_ref (pgrps t ! pg)" using w(1) by (simp_all add: live_pgrp_def)
    have dirs: "\<not> is_open (chans t ! x)" if "x \<in># pgrpC (?f (pgrps t ! pg))" for x
    proof (cases "x = c")
      case True
      then show ?thesis using kc by simp
    next
      case False
      then have "x \<in># pgrpC (pgrps t ! pg)" using that p(2) by (auto simp: pgrpC_def)
      then have "x \<in># nsC t" using tot_in [OF p(1), of pgrpC] by (auto simp: nsC_def dest: mset_subset_eqD)
      then show ?thesis using countedD(9) [OF kernD(1) [OF kt]] by blast
    qed
    have "counted u (addC (opt_ms old) (addL {#} H))"
      unfolding u_def
      by (rule swap_pgrp [where a = "{#c#}" and k = "{#}"])
        (use kernD(1) [OF kt] p dirs in \<open>simp_all add: old_def pgrpC_def pgrpM_def ac_simps\<close>)
    then have cu: "counted u (addC (opt_ms old) H)" by simp
    have or: "rooted u x = rooted t x" for x
      by (simp add: rooted_def origin_def pinned_def u_def split: option.split)
    have sl: "pg_slash (pgrps u ! pg) = pg_slash (pgrps t ! pg)" "pg_dot (pgrps u ! pg) = Some c"
      "chain pg q' u = chain pg q' t" "live_pgrp u pg" for q'
      using p w(1) by (simp_all add: u_def upd_nth chain_def live_pgrp_def)
    have "pgrpM (?f (pgrps t ! pg)) = pgrpM (pgrps t ! pg)" by (simp add: pgrpM_def split: if_split)
    then have lk: "links u = links t"
      using own_upd_pgrp(2) [OF p(1), of ?f] by (simp add: u_def)
    have "ns_ok pg u"
      using kernD(2) [OF kt] kc
      by (simp add: ns_ok_def rooted_opt_def linked_ok_def lk sl or split: option.splits) (simp add: u_def)
    moreover have "heads_ok pg u"
      using kernD(3) [OF kt] by (simp add: heads_ok_def lk sl) (simp add: u_def)
    moreover have "fgrp_ok fg u" using kernD(4) [OF kt] by (simp add: fgrp_ok_def u_def)
    ultimately have "kern (addC (opt_ms old) H) pg fg u" using cu by (simp add: kern_def)
    then show ?thesis unfolding s' by (intro after_kern kern_cclose)
  qed
qed

lemma kern_cmount:
  assumes "kern H pg fg s" and "old \<in># hC H" and "new \<in># hC H" and "\<not> is_open (chans s ! old)" and "\<not> is_open (chans s ! new)"
    and "cmount dev pg new old flag spec s = (r, s')"
  shows "kern H pg fg s'"
proof (cases r)
  case (Inl e)
  then show ?thesis using assms(1,6) cmount_refused(1) [of dev pg new old flag spec s e s'] by simp
next
  case (Inr i)
  note k = kernD [OF assms(1)]
  note w = ns_okD [OF k(2)]
  note m = cmount_ok [OF k(1) assms(2-5) w assms(6) [unfolded Inr]]
  show ?thesis by (rule kern_calm [OF assms(1) calm_cmount [OF assms(6)] m(1-3) m(7) [OF k(3)]])
qed

lemma kern_cunmount:
  assumes "kern H pg fg s" and "cunmount dev pg mnt mntd s = (r, s')"
  shows "kern H pg fg s'"
proof (cases r)
  case (Inl e)
  then show ?thesis using assms cunmount_refused [of dev pg mnt mntd s e s'] by simp
next
  case (Inr i)
  note k = kernD [OF assms(1)]
  note w = ns_okD [OF k(2)]
  have "cunmount dev pg mnt mntd s = (Inr (), s')" using assms(2) Inr by simp
  note m = cunmount_ok [OF k(1) w k(3) this]
  show ?thesis using kern_calm [OF assms(1) calm_cunmount [OF assms(2)]] m by blast
qed

lemma bindmount_ok:
  assumes "kern H pg fg s" and "c \<in># hC H" and "\<not> is_open (chans s ! c)" and "0 \<notin> set old"
    and "bindmount dev pg c old flag spec s = (r, s')"
  shows "after H pg fg (r = Inl Eclone) s'"
proof (cases "bindflag flag (the_chan s c)")
  case (Inl e)
  then show ?thesis using assms(1,5) by (simp add: bindmount_def after_kern)
next
  case (Inr fl)
  obtain q t where n: "namec dev pg old Amount 0 0 s = (q, t)" by fastforce
  note k = namec_kern [OF assms(1,4) n]
  show ?thesis
  proof (cases q)
    case (Inl e)
    then show ?thesis using assms(5) n k(1) [OF Inl] \<open>bindflag flag (the_chan s c) = Inr fl\<close> by (auto simp: bindmount_def)
  next
    case (Inr d)
    note kd = k(2) [OF Inr]
    have oc: "\<not> is_open (chans t ! c)" using steadyD(10) [of H s t c] kd assms(2,3) by (simp add: is_open_def)
    obtain x u where cm: "cmount dev pg c d fl spec t = (x, u)" by fastforce
    have "kern (addC {#d#} H) pg fg u" by (rule kern_cmount [OF _ _ _ _ _ cm]) (use kd oc assms(2) in auto)
    then have "kern H pg fg (cclose dev (Some d) u)" by (rule kern_cclose1)
    moreover have "s' = cclose dev (Some d) u"
      using assms(5) n Inr cm \<open>bindflag flag (the_chan s c) = Inr fl\<close> by (simp add: bindmount_def)
    ultimately show ?thesis by (simp add: after_kern)
  qed
qed

lemma kbind_ok:
  assumes "kern H pg fg s" and "0 \<notin> set new" and "0 \<notin> set old" and "kbind dev pg new old flags s = (r, s')"
  shows "after H pg fg (r = Inl Eclone) s'"
proof -
  obtain q t where n: "namec dev pg new Abind 0 0 s = (q, t)" by fastforce
  note k = namec_kern [OF assms(1,2) n]
  show ?thesis
  proof (cases q)
    case (Inl e)
    then show ?thesis using assms(4) n k(1) [OF Inl] by (auto simp: kbind_def)
  next
    case (Inr c)
    note kc = k(2) [OF Inr]
    obtain x u where b: "bindmount dev pg c old flags (Some []) t = (x, u)" by fastforce
    have "after (addC {#c#} H) pg fg (x = Inl Eclone) u"
      by (rule bindmount_ok [OF _ _ _ assms(3) b]) (use kc in auto)
    then show ?thesis using assms(4) n Inr b after_cclose by (auto simp: kbind_def)
  qed
qed

lemma kunmount_ok:
  assumes "kern H pg fg s" and "0 \<notin> set new" and "0 \<notin> set old" and "kunmount dev pg old new s = (r, s')"
  shows "after H pg fg (r = Inl Eclone) s'"
proof -
  obtain q t where n: "namec dev pg new Amount 0 0 s = (q, t)" by fastforce
  note k = namec_kern [OF assms(1,2) n]
  show ?thesis
  proof (cases q)
    case (Inl e)
    then show ?thesis using assms(4) n k(1) [OF Inl] by (auto simp: kunmount_def)
  next
    case (Inr c)
    have kc: "kern (addC {#c#} H) pg fg t" using k(2) [OF Inr] by blast
    obtain p u where m: "(if old = [] then (Inr None, t)
        else (case namec dev pg old Aopen 0 0 t of (Inl e, s) \<Rightarrow> (Inl e, s) | (Inr d, s) \<Rightarrow> (Inr (Some d), s))) = (p, u)"
      by fastforce
    have kp: "(\<forall>e. p = Inl e \<longrightarrow> after (addC {#c#} H) pg fg (e = Eclone) u)
        \<and> (\<forall>d. p = Inr d \<longrightarrow> kern (addC (opt_ms d) (addC {#c#} H)) pg fg u)"
    proof (cases "old = []")
      case True
      then show ?thesis using m kc by auto
    next
      case False
      obtain a v where n2: "namec dev pg old Aopen 0 0 t = (a, v)" by fastforce
      note k2 = namec_kern [OF kc assms(3) n2]
      show ?thesis using m False n2 k2 by (cases a) auto
    qed
    show ?thesis
    proof (cases p)
      case (Inl e)
      then have "r = Inl e" "s' = cclose dev (Some c) u" using assms(4) n Inr m by (simp_all add: kunmount_def)
      then show ?thesis using kp Inl after_cclose by auto
    next
      case pd: (Inr d)
      obtain a v where cu: "cunmount dev pg c d u = (a, v)" by fastforce
      have "kern (addC (opt_ms d) (addC {#c#} H)) pg fg v" by (rule kern_cunmount [OF _ cu]) (use kp pd in blast)
      then have "kern (addC {#c#} (addC (opt_ms d) H)) pg fg v" by (simp add: add_comm ac_simps)
      then have "kern H pg fg (cclose dev d (cclose dev (Some c) v))" by (intro kern_cclose kern_cclose1)
      moreover have "s' = cclose dev d (cclose dev (Some c) v)"
        using assms(4) n Inr m pd cu by (auto simp: kunmount_def split: sum.splits)
      ultimately show ?thesis by (simp add: after_kern)
    qed
  qed
qed

section \<open>The other calls\<close>

lemma kopen_ok:
  assumes "kern H pg fg s" and "0 \<notin> set path" and "kopen dev pg fg path mode s = (r, s')"
  shows "after H pg fg (r = Inl Eclone) s'"
  using assms(3) open_ok [OF assms(1,2), of dev Aopen mode 0 r s'] after_kern [OF assms(1)]
  by (auto simp: kopen_def split: sum.splits)

lemma kcreate_ok:
  assumes "kern H pg fg s" and "0 \<notin> set path" and "kcreate dev pg fg path mode perm s = (r, s')"
  shows "after H pg fg (r = Inl Eclone) s'"
  using assms(3) open_ok [OF assms(1,2), of dev Acreate mode perm r s'] after_kern [OF assms(1)]
  by (auto simp: kcreate_def split: sum.splits)

lemma fd_calls_ok:
  assumes "kern H pg fg s"
  shows "kfd2path dev fg fd s = (r1, s') \<Longrightarrow> kern H pg fg s'"
    and "kiounit dev fg fd s = (r2, s') \<Longrightarrow> kern H pg fg s'"
    and "kfstat dev io fg fd n s = (r3, s') \<Longrightarrow> kern H pg fg s'"
    and "kdirfstat dev io fg fd s = (r4, s') \<Longrightarrow> kern H pg fg s'"
proof -
  note on = on_fd_ok [OF assms, where dev = dev and fd = fd]
  show "kern H pg fg s'" if "kfd2path dev fg fd s = (r1, s')"
    by (rule on [where mode = "-1" and chk = False and r = r1 and f = "\<lambda>c s. (Inr (map_option (\<lambda>n. n_s (the_name s n)) (c_name (the_chan s c))), s)"])
      (use that in \<open>auto simp: kfd2path_def on_chan_def split: prod.splits sum.splits\<close>)
  show "kern H pg fg s'" if "kiounit dev fg fd s = (r2, s')"
    by (rule on [where mode = "-1" and chk = False and r = r2 and f = "\<lambda>c s. (Inr (c_iounit (the_chan s c)), s)"]) (use that in \<open>auto simp: kiounit_def on_chan_def split: prod.splits sum.splits\<close>)
  show "kern H pg fg s'" if "kfstat dev io fg fd n s = (r3, s')"
    by (rule on [OF that [unfolded kfstat_def]]) simp
  show "kern H pg fg s'" if "kdirfstat dev io fg fd s = (r4, s')"
    by (rule on [OF that [unfolded kdirfstat_def]]) simp
qed

lemma wstat_chan_ok: "kern H pg fg s \<Longrightarrow> wstat_chan io b c s = (x, s') \<Longrightarrow> kern H pg fg s'"
  by (auto simp: wstat_chan_def Let_def split: sum.splits prod.splits)

lemma kfwstat_ok:
  assumes "kern H pg fg s" and "kfwstat dev io fg fd b s = (r, s')" shows "kern H pg fg s'"
proof (cases "validstat b")
  case None
  then have "on_chan dev (fdtochan dev fg fd (-1) True True s) (wstat_chan io b) = (r, s')" using assms(2) by (simp add: kfwstat_def)
  then show ?thesis by (rule on_fd_ok [OF assms(1)]) (rule wstat_chan_ok)
qed (use assms in \<open>simp add: kfwstat_def\<close>)

lemma kwstat_ok:
  assumes "kern H pg fg s" and "0 \<notin> set path" and "kwstat dev io pg path b s = (r, s')"
  shows "after H pg fg (r = Inl Eclone) s'"
proof (cases "validstat b")
  case None
  then have "on_chan dev (namec dev pg path Aaccess 0 0 s) (wstat_chan io b) = (r, s')" using assms(3) by (simp add: kwstat_def)
  then show ?thesis by (rule on_name_ok [OF assms(1,2)]) (rule wstat_chan_ok)
qed (use assms in \<open>simp add: kwstat_def after_kern\<close>)

lemma stat_ok:
  assumes "kern H pg fg s" and "0 \<notin> set path"
  shows "kstat dev io pg path n s = (r1, s') \<Longrightarrow> after H pg fg (r1 = Inl Eclone) s'"
    and "kdirstat dev io pg path s = (r2, s') \<Longrightarrow> after H pg fg (r2 = Inl Eclone) s'"
proof -
  show "after H pg fg (r1 = Inl Eclone) s'" if "kstat dev io pg path n s = (r1, s')"
    by (rule on_name_ok [OF assms that [unfolded kstat_def]]) simp
  show "after H pg fg (r2 = Inl Eclone) s'" if "kdirstat dev io pg path s = (r2, s')"
    by (rule on_name_ok [OF assms that [unfolded kdirstat_def]]) simp
qed

text \<open>\<open>kremove\<close> turns the channel into one of the root device: nobody else has it.\<close>

lemma kremove_ok:
  assumes "kern H pg fg s" and "0 \<notin> set path" and "kremove dev io pg path s = (r, s')"
  shows "after H pg fg (r = Inl Eclone) s'"
proof (rule on_name_ok [OF assms(1,2) assms(3) [unfolded kremove_def]])
  fix c t x u
  assume k: "kern (addC {#c#} H) pg fg t" and o: "own H t c"
    and b: "(let (r, d) = dremove io (dst t) (the_chan t c) in (r, upd_chan c (\<lambda>x. x\<lparr>c_type := 0\<rparr>) (t\<lparr>dst := d\<rparr>))) = (x, u)"
  then obtain d where u: "u = upd_chan c (\<lambda>x. x\<lparr>c_type := 0\<rparr>) (t\<lparr>dst := d\<rparr>)" by (auto split: prod.splits)
  have "own H (t\<lparr>dst := d\<rparr>) c"
    using o by (simp add: own_def counted_def chanrc.ok_def namerc.ok_def headrc.ok_def)
  then have st: "own_step H (t\<lparr>dst := d\<rparr>) c u" unfolding u by (rule own_fields) (simp add: is_free_def Let_def)
  have kd: "kern (addC {#c#} H) pg fg (t\<lparr>dst := d\<rparr>)" using k by simp
  show "kern (addC {#c#} H) pg fg u"
    by (rule kern_steady [OF kd own_stepD(2) [OF st]]) (use own_stepD(1) [OF st] in \<open>simp add: own_def\<close>)
qed

section \<open>Any sequence of calls\<close>

datatype syscall =
  Open bytes u32
| Create bytes u32 u32
| Dup int int
| Close int
| Fd2path int
| Iounit int
| Chdir bytes
| Bind bytes bytes u32
| Unmount bytes bytes
| Read int int
| Pread int int int
| Write int bytes
| Pwrite int bytes int
| Seek int int int
| Fstat int nat
| Stat bytes nat
| Fwstat int bytes
| Wstat bytes bytes
| Remove bytes
| Dirstat bytes
| Dirfstat int
| Dirwstat bytes dir
| Dirfwstat int dir
| Dirread int

definition error_of :: "'a res \<times> 'd kst \<Rightarrow> kerror option \<times> 'd kst" where
  "error_of p = ((case fst p of Inl e \<Rightarrow> Some e | Inr _ \<Rightarrow> None), snd p)"

primrec docall :: "'d devops \<Rightarrow> 'd iops \<Rightarrow> nat \<Rightarrow> nat \<Rightarrow> syscall \<Rightarrow> 'd kst \<Rightarrow> kerror option \<times> 'd kst" where
  "docall dev io pg fg (Open p m) s = error_of (kopen dev pg fg p m s)"
| "docall dev io pg fg (Create p m q) s = error_of (kcreate dev pg fg p m q s)"
| "docall dev io pg fg (Dup i j) s = error_of (kdup dev fg i j s)"
| "docall dev io pg fg (Close i) s = error_of (kfgrpclose dev fg i s)"
| "docall dev io pg fg (Fd2path i) s = error_of (kfd2path dev fg i s)"
| "docall dev io pg fg (Iounit i) s = error_of (kiounit dev fg i s)"
| "docall dev io pg fg (Chdir p) s = error_of (kchdir dev pg p s)"
| "docall dev io pg fg (Bind p q f) s = error_of (kbind dev pg p q f s)"
| "docall dev io pg fg (Unmount p q) s = error_of (kunmount dev pg p q s)"
| "docall dev io pg fg (Read i n) s = error_of (kread dev io fg i n s)"
| "docall dev io pg fg (Pread i n off) s = error_of (kpread dev io fg i n off s)"
| "docall dev io pg fg (Write i b) s = error_of (kwrite dev io fg i b s)"
| "docall dev io pg fg (Pwrite i b off) s = error_of (kpwrite dev io fg i b off s)"
| "docall dev io pg fg (Seek i off w) s = error_of (kseek dev io fg i off w s)"
| "docall dev io pg fg (Fstat i n) s = error_of (kfstat dev io fg i n s)"
| "docall dev io pg fg (Stat p n) s = error_of (kstat dev io pg p n s)"
| "docall dev io pg fg (Fwstat i b) s = error_of (kfwstat dev io fg i b s)"
| "docall dev io pg fg (Wstat p b) s = error_of (kwstat dev io pg p b s)"
| "docall dev io pg fg (Remove p) s = error_of (kremove dev io pg p s)"
| "docall dev io pg fg (Dirstat p) s = error_of (kdirstat dev io pg p s)"
| "docall dev io pg fg (Dirfstat i) s = error_of (kdirfstat dev io fg i s)"
| "docall dev io pg fg (Dirwstat p d) s = error_of (kdirwstat dev io pg p d s)"
| "docall dev io pg fg (Dirfwstat i d) s = error_of (kdirfwstat dev io fg i d s)"
| "docall dev io pg fg (Dirread i) s = error_of (kdirread dev io fg i s)"

text \<open>The names of a call are C strings.\<close>

primrec paths :: "syscall \<Rightarrow> bytes" where
  "paths (Open p m) = p"
| "paths (Create p m q) = p"
| "paths (Dup i j) = []"
| "paths (Close i) = []"
| "paths (Fd2path i) = []"
| "paths (Iounit i) = []"
| "paths (Chdir p) = p"
| "paths (Bind p q f) = p @ q"
| "paths (Unmount p q) = p @ q"
| "paths (Read i n) = []"
| "paths (Pread i n off) = []"
| "paths (Write i b) = []"
| "paths (Pwrite i b off) = []"
| "paths (Seek i off w) = []"
| "paths (Fstat i n) = []"
| "paths (Stat p n) = p"
| "paths (Fwstat i b) = []"
| "paths (Wstat p b) = p"
| "paths (Remove p) = p"
| "paths (Dirstat p) = p"
| "paths (Dirfstat i) = []"
| "paths (Dirwstat p d) = p"
| "paths (Dirfwstat i d) = []"
| "paths (Dirread i) = []"

text \<open>When a call may leak: the two errors that leave without releasing what the code holds.\<close>

definition leaks :: "syscall \<Rightarrow> kerror option \<Rightarrow> bool" where
  "leaks c e \<longleftrightarrow> e = Some Eclone \<or> (\<exists>i j. c = Dup i j) \<and> e = Some Eperm"

lemma after_call:
  assumes "error_of p = (e, s')"
  shows "(\<And>r. p = (r, s') \<Longrightarrow> after H pg fg (r = Inl Eclone) s') \<Longrightarrow> after H pg fg (leaks c e) s'"
    and "(\<And>r. p = (r, s') \<Longrightarrow> kern H pg fg s') \<Longrightarrow> after H pg fg (leaks c e) s'"
proof -
  obtain r where r: "p = (r, s')" "r = Inl Eclone \<longleftrightarrow> e = Some Eclone"
    using assms by (cases p) (auto simp: error_of_def split: sum.splits)
  show "after H pg fg (leaks c e) s'" if "\<And>r. p = (r, s') \<Longrightarrow> after H pg fg (r = Inl Eclone) s'"
    using that [OF r(1)] by (rule after_mono) (simp add: r(2) leaks_def)
  show "after H pg fg (leaks c e) s'" if "\<And>r. p = (r, s') \<Longrightarrow> kern H pg fg s'"
    using that [OF r(1)] by (rule after_kern)
qed

lemma kdirread_ok:
  assumes "kern H pg fg s" and "kdirread dev io fg fd s = (r, s')" shows "kern H pg fg s'"
proof -
  obtain q t where "kread dev io fg fd 2048 s = (q, t)" by fastforce
  with assms show ?thesis using rread_ok [OF assms(1)] by (cases q) (auto simp: kdirread_def kread_def)
qed

lemma kdup_call: "kdup dev fg i j s = p \<Longrightarrow> kern H pg fg s \<Longrightarrow> error_of p = (e, s') \<Longrightarrow> after H pg fg (leaks (Dup i j) e) s'"
  using kdup_ok [of H pg fg s dev i j]
  by (cases p; auto simp: error_of_def leaks_def split: sum.splits elim!: after_mono)

lemmas name_calls = kopen_ok kcreate_ok kchdir_ok kbind_ok kunmount_ok stat_ok kwstat_ok kremove_ok
  kwstat_ok [where b = "snd (convD2M d (sizeD2M d))" for d, folded kdirwstat_def]

lemma docall_ok:
  assumes k: "kern H pg fg s" and p: "0 \<notin> set (paths c)" and d: "docall dev io pg fg c s = (e, s')"
  shows "after H pg fg (leaks c e) s'"
proof (cases "\<exists>i j. c = Dup i j")
  case True
  then show ?thesis using d kdup_call [OF refl k] by auto
next
  case False
  note n = name_calls [OF k]
  note f = fd_calls_ok [OF k] kfgrpclose_ok [OF k] rread_ok [OF k, folded kread_def kpread_def] rwrite_ok [OF k]
    kseek_ok [OF k] kfwstat_ok [OF k] kdirread_ok [OF k]
  show ?thesis
    using p d False
    by (cases c; simp add: kread_def kpread_def kwrite_def kpwrite_def kdirfwstat_def)
      ((erule after_call(1), rule n; simp) | (erule after_call(2), rule f; simp))+
qed

text \<open>A trace of calls, each with its error if it fails.\<close>

primrec run :: "'d devops \<Rightarrow> 'd iops \<Rightarrow> nat \<Rightarrow> nat \<Rightarrow> syscall list \<Rightarrow> 'd kst \<Rightarrow> (syscall \<times> kerror option) list \<times> 'd kst" where
  "run dev io pg fg [] s = ([], s)"
| "run dev io pg fg (c # cs) s =
     (let (e, s) = docall dev io pg fg c s; (tr, s) = run dev io pg fg cs s in ((c, e) # tr, s))"

lemma after_chain:
  assumes "after H pg fg l s" and "\<And>H'. kern H' pg fg s \<Longrightarrow> after H' pg fg l' s'"
  shows "after H pg fg (l \<or> l') s'"
proof -
  have sum: "addC C (addM M (addN N (addC C' (addM M' (addN N' H))))) = addC (C + C') (addM (M + M') (addN (N + N') H))"
    for C M N C' M' N'
    by (simp add: add_comm ac_simps)
  show ?thesis using assms(1) assms(2) unfolding after_def
  proof (elim disjE conjE exE)
    fix C M N
    assume l: "l" and k: "kern (addC C (addM M (addN N H))) pg fg s"
      and n: "\<And>H'. kern H' pg fg s \<Longrightarrow> kern H' pg fg s' \<or> l' \<and> (\<exists>C M N. kern (addC C (addM M (addN N H'))) pg fg s')"
    from n [OF k] show "kern H pg fg s' \<or> (l \<or> l') \<and> (\<exists>C M N. kern (addC C (addM M (addN N H))) pg fg s')"
      using l unfolding sum by blast
  qed blast
qed

lemma run_ok:
  assumes "after H pg fg l s" and "\<forall>c\<in>set cs. 0 \<notin> set (paths c)" and "run dev io pg fg cs s = (tr, s')"
  shows "after H pg fg (l \<or> (\<exists>(c, e)\<in>set tr. leaks c e)) s'"
  using assms
proof (induction cs arbitrary: l s tr)
  case (Cons c cs)
  obtain e t where d: "docall dev io pg fg c s = (e, t)" by fastforce
  obtain tr' where r: "run dev io pg fg cs t = (tr', s')" using Cons.prems(3) d by (auto split: prod.splits)
  have "after H pg fg (l \<or> leaks c e) t"
    by (rule after_chain [OF Cons.prems(1)]) (use docall_ok [OF _ _ d] Cons.prems(2) in auto)
  then have "after H pg fg ((l \<or> leaks c e) \<or> (\<exists>(c, e)\<in>set tr'. leaks c e)) s'"
    by (rule Cons.IH) (use Cons.prems(2) r in auto)
  then show ?case using Cons.prems(3) d r by (auto elim!: after_mono)
qed auto

section \<open>The properties\<close>

text \<open>The small world of theory NamecAcc with a table of descriptors, in which 0 is the root directory.\<close>

definition ex_fgrp :: fgrp where
  "ex_fgrp = \<lparr>fg_ref = 1, fg_fd = [Some 0], fg_maxfd = 0, fg_minfd = 1, fg_free = False\<rparr>"

definition ex_kern :: "unit kst" where
  "ex_kern = ex_group\<lparr>fgrps := [ex_fgrp], chans := (chans ex_group)[0 := (chans ex_group ! 0)\<lparr>c_ref := 3\<rparr>]\<rparr>"

definition ex_io :: "unit iops" where
  "ex_io = \<lparr>dread = (\<lambda>d _ _ _. (Inr [104, 105], d)), dwrite = (\<lambda>d _ b _. (Inr (int (length b)), d)), dstat = (\<lambda>_ _ _. Inl Ebadstat),
     dwstat = (\<lambda>d _ _. (Inr 0, d)), dremove = (\<lambda>d _. (Inr (), d)), dletter = (\<lambda>_. 47)\<rparr>"

lemma ex_kern_ok: "kern held0 0 0 ex_kern"
proof -
  have own: "ownC ex_kern = {#0, 0, 0, 1, 2#}" "nsC ex_kern = {#0, 0, 1, 2#}" "ownN ex_kern = {#0, 1, 2#}" "ownM ex_kern = {#0#}"
    "links ex_kern = {#0#}"
    by (simp_all add: ex_kern_def ex_fgrp_def ex_group_def ex_world_def ownC_def ownN_def ownM_def nsC_def links_def ex_flags
        chanC_def chanN_def chanM_def nameC_def headC_def mountsC_def pgrpC_def fgrpC_def pgrpM_def opts_ms_def ex_name_def numeral_eq_Suc)
      (simp_all add: ex_chan_def chan0_def is_free_def)
  have l: "length (chans ex_kern) = 3" "length (cnames ex_kern) = 3" "length (mheads ex_kern) = 1"
    by (simp_all add: ex_kern_def ex_group_def ex_lengths)
  have fr: "frees ex_kern = {#}"
    by (simp add: frees_def l numeral_eq_Suc upt_rec) (simp add: ex_kern_def ex_group_def ex_world_def ex_flags)
  have "counted ex_kern held0"
    unfolding counted_def chanrc.ok_def namerc.ok_def headrc.ok_def refs_ok_def l own fr
    by (simp add: All_less_Suc numeral_eq_Suc)
       (simp add: ex_kern_def ex_group_def ex_world_def held0_def ex_flags ex_name_def, simp add: ex_chan_def chan0_def is_open_def is_free_def)
  moreover have "origin ex_kern 0 (0, 0, 10) 0"
    by (simp add: origin_def ex_kern_def ex_group_def ex_world_def ex_name_def ex_chan_def chan0_def place_def chan_dev_def)
  then have "rooted ex_kern 0" unfolding rooted_def by blast
  then have "ns_ok 0 ex_kern"
    by (simp add: ns_ok_def linked_ok_def own live_pgrp_def rooted_opt_def) (simp add: ex_kern_def ex_group_def ex_world_def MNTHASH_def)
  moreover from this have "heads_ok 0 ex_kern"
    using chain_links [of ex_kern 0] by (auto simp: heads_ok_def own ns_ok_def)
  moreover have "fgrp_ok 0 ex_kern"
    by (simp add: fgrp_ok_def fds_ok_def MAXNFD_def ex_kern_def ex_fgrp_def)
  ultimately show ?thesis by (simp add: kern_def)
qed



text \<open>The reference \<open>kdup\<close> keeps when it refuses an authentication file: an example of a leak.\<close>

lemma kdup_leaks:
  assumes "kern H pg fg s" and "fdmap (fgrps s ! fg) (nat fd) = Some c" and "0 \<le> fd"
    and "q_type (c_qid (the_chan s c)) AND QTAUTH \<noteq> 0"
  shows "kdup dev fg fd new s = (Inl Eperm, incref_chan c s)"
proof -
  have ok: "fds_ok (fgrps s ! fg)" using kernD(4) [OF assms(1)] by (simp add: fgrp_ok_def)
  have l: "nat fd < length (fg_fd (fgrps s ! fg))" "fd_slot (fgrps s ! fg) fd = Some c"
    using assms(2,3) fd_slot_map [OF ok, of fd] by (auto simp: fdmap_def split: if_splits)
  have "c_qid (chans (incref_chan c s) ! c) = c_qid (chans s ! c)"
    by (simp add: incref_is_bump bump_chan_def upd_chan_def nth_upd_all)
  then show ?thesis using l assms(4) by (simp add: kdup_def fdtochan_def Let_def mode_ok_def)
qed

text \<open>
  C18. The table of descriptors is a map from descriptors to channels, and stays well formed (\<open>fds_ok\<close>): the hints
  \<open>minfd\<close> and \<open>maxfd\<close> never let \<open>fdtochan\<close> and \<open>fdclose\<close> read outside the array or miss a channel. \<open>newfd\<close> hands out the
  lowest free descriptor and fails only with all \<open>MAXNFD\<close> in use; \<open>fdclose\<close> frees its descriptor and no other; \<open>kdup\<close>
  to a given descriptor replaces what it was, or fails without an effect on the table when the table cannot grow so far.
\<close>

theorem descriptors_are_a_map:
  assumes "fds_ok (fgrps s ! fg)" and "fg < length (fgrps s)"
  shows "(\<forall>fd. fd_slot (fgrps s ! fg) fd = (if fd < 0 then None else fdmap (fgrps s ! fg) (nat fd)))
    \<and> (case newfd fg c s of
          (Inr i, s') \<Rightarrow> fds_ok (fgrps s' ! fg) \<and> fdmap (fgrps s' ! fg) = (fdmap (fgrps s ! fg))(i \<mapsto> c)
            \<and> i = (LEAST j. fdmap (fgrps s ! fg) j = None) \<and> int i < MAXNFD
        | (Inl e, s') \<Rightarrow> s' = s \<and> (\<forall>j<nat MAXNFD. fdmap (fgrps s ! fg) j \<noteq> None))
    \<and> (\<forall>fd\<ge>0. fds_ok (fgrps (fdclose dev fg fd s) ! fg)
          \<and> fdmap (fgrps (fdclose dev fg fd s) ! fg) = (fdmap (fgrps s ! fg))(nat fd := None))
    \<and> (case dup_to dev fg c fd s of
          (Inr i, s') \<Rightarrow> fd = int i \<and> fds_ok (fgrps s' ! fg) \<and> fdmap (fgrps s' ! fg) = (fdmap (fgrps s ! fg))(i \<mapsto> c)
        | (Inl e, s') \<Rightarrow> fgrps s' = fgrps s \<and> (fd < 0 \<or> min (nfd (fgrps s ! fg) + DELTAFD) MAXNFD \<le> fd))"
proof (intro conjI)
  let ?f = "fgrps s ! fg"
  have cl: "fgrps (cclose dev x t) = fgrps t" for x and t :: "'a kst" by (rule keptD(5)) simp
  have up: "fgrps (upd_fgrp fg g s) ! fg = g ?f" for g using assms(2) by (simp add: upd_fgrp_def)
  show "\<forall>fd. fd_slot ?f fd = (if fd < 0 then None else fdmap ?f (nat fd))" using fd_slot_map [OF assms(1)] by blast
  show "case newfd fg c s of
          (Inr i, s') \<Rightarrow> fds_ok (fgrps s' ! fg) \<and> fdmap (fgrps s' ! fg) = (fdmap ?f)(i \<mapsto> c)
            \<and> i = (LEAST j. fdmap ?f j = None) \<and> int i < MAXNFD
        | (Inl e, s') \<Rightarrow> s' = s \<and> (\<forall>j<nat MAXNFD. fdmap ?f j \<noteq> None)"
  proof -
    obtain r s' where n: "newfd fg c s = (r, s')" by fastforce
    note k = newfd_ok [OF assms(1) n]
    show ?thesis
    proof (cases r)
      case (Inl e)
      then show ?thesis using n k(1) by auto
    next
      case (Inr i)
      then obtain f' where f: "s' = upd_fgrp fg (\<lambda>_. f') s" "fds_ok f'" "fdmap f' = (fdmap ?f)(i \<mapsto> c)"
        "fdmap ?f i = None" "\<forall>j<i. fdmap ?f j \<noteq> None" "i < nat MAXNFD"
        using k(2) by blast
      have "(LEAST j. fdmap ?f j = None) = i"
      proof (rule Least_equality)
        show "fdmap ?f i = None" by (rule f(4))
        show "i \<le> y" if "fdmap ?f y = None" for y using f(5) that by (meson not_le)
      qed
      then show ?thesis using n Inr f(2,3,6) up unfolding f(1) by (simp add: MAXNFD_def)
    qed
  qed
  show "\<forall>fd\<ge>0. fds_ok (fgrps (fdclose dev fg fd s) ! fg)
          \<and> fdmap (fgrps (fdclose dev fg fd s) ! fg) = (fdmap ?f)(nat fd := None)"
  proof (intro allI impI)
    fix fd :: int
    assume fd: "0 \<le> fd"
    show "fds_ok (fgrps (fdclose dev fg fd s) ! fg) \<and> fdmap (fgrps (fdclose dev fg fd s) ! fg) = (fdmap ?f)(nat fd := None)"
    proof (cases "fd_slot ?f fd")
      case None
      then show ?thesis using fd fd_slot_map [OF assms(1), of fd] assms(1) by (simp add: fdclose_def fun_eq_iff)
    next
      case (Some c)
      then have "fd \<le> fg_maxfd ?f" by (simp add: fd_slot_def split: if_splits)
      from drop_fd_ok [OF assms(1) fd this] show ?thesis using Some by (simp add: fdclose_def cl up)
    qed
  qed
  show "case dup_to dev fg c fd s of
          (Inr i, s') \<Rightarrow> fd = int i \<and> fds_ok (fgrps s' ! fg) \<and> fdmap (fgrps s' ! fg) = (fdmap ?f)(i \<mapsto> c)
        | (Inl e, s') \<Rightarrow> fgrps s' = fgrps s \<and> (fd < 0 \<or> min (nfd ?f + DELTAFD) MAXNFD \<le> fd)"
  proof (cases "fd < 0")
    case True
    then show ?thesis by (simp add: dup_to_def cl)
  next
    case False
    obtain g f1 where gr: "growfd ?f fd = (g, f1)" by fastforce
    from gr fds_okD(5) [OF assms(1)] show ?thesis
    proof (cases rule: growfd_cases)
      case fail
      then show ?thesis using False gr by (simp add: dup_to_def cl)
    next
      case (grown k)
      have "fds_ok f1" "fdmap f1 = fdmap ?f" using grown_ok [OF assms(1), of k] grown by simp_all
      moreover have "fdmap (f1\<lparr>fg_maxfd := max (fg_maxfd f1) fd, fg_fd := (fg_fd f1)[nat fd := Some c]\<rparr>) = (fdmap f1)(nat fd \<mapsto> c)"
        using grown(3) False by (auto simp: fdmap_def fun_eq_iff)
      ultimately show ?thesis using False gr grown set_fd_ok [of f1 fd c] by (simp add: dup_to_def cl up)
    qed
  qed
qed

theorem descriptors_are_a_map_witness:
  "(case newfd 0 2 ex_kern of (Inr i, s') \<Rightarrow> i = 1 \<and> fdmap (fgrps s' ! 0) = (fdmap (fgrps ex_kern ! 0))(1 \<mapsto> 2) | (Inl e, s') \<Rightarrow> False)"
proof -
  have f: "fgrps ex_kern ! 0 = ex_fgrp" "0 < length (fgrps ex_kern)" by (simp_all add: ex_kern_def)
  have ok: "fds_ok (fgrps ex_kern ! 0)" using kernD(4) [OF ex_kern_ok] by (simp add: fgrp_ok_def)
  have n: "fst (newfd 0 2 ex_kern) = Inr 1"
    by (simp add: newfd_def f ex_fgrp_def first_free_def growfd_def Let_def DELTAFD_def MAXNFD_def)
  show ?thesis using descriptors_are_a_map [OF ok f(2), of 2] n by (auto split: prod.splits)
qed

text \<open>Seeking: the sum as an integer, or an error.\<close>

lemma seekadd_exact:
  assumes "- vlong_max - 1 \<le> base" and "base \<le> vlong_max" and "- vlong_max - 1 \<le> off" and "off \<le> vlong_max"
  shows "seekadd base off = (if - vlong_max - 1 \<le> base + off \<and> base + off \<le> vlong_max then Inr (base + off) else Inl Ebadarg)"
  using assms by (auto simp: seekadd_def vlong_max_def)

definition seek_base :: "'d iops \<Rightarrow> nat \<Rightarrow> int \<Rightarrow> 'd kst \<Rightarrow> int option" where
  "seek_base io c whence s =
     (if whence = 0 then Some 0 else if whence = 1 then Some (c_offset (the_chan s c))
      else if whence = 2 then map_option (\<lambda>d. sint (d_length d)) (chandirstat io c s) else None)"



lemma sint_vlong: "sint (word_of_int x :: 64 word) = signed_take_bit 63 x"
  by transfer simp

lemma vadd_exact: "- vlong_max - 1 \<le> a + b \<Longrightarrow> a + b \<le> vlong_max \<Longrightarrow> vadd a b = a + b"
  unfolding vadd_def vlong_max_def sint_vlong by (simp add: signed_take_bit_int_eq_self_iff)

lemma offset_add: "c < length (chans s) \<Longrightarrow> c_offset (the_chan (add_offset c k s) c) = vadd (c_offset (the_chan s c)) k"
  by (simp add: add_offset_def upd_nth)

lemma add_offset_len [simp]: "length (chans (add_offset c k s)) = length (chans s)"
  by (simp add: add_offset_def)

text \<open>
  C39. Where a file's offset goes. A read at an offset the caller gives (\<open>kpread\<close>) moves the offset of the file all the
  same; a write at a given offset leaves it; a write at the file's own offset moves it by the number of bytes the device
  took, whether it took all of them, fewer or none, and a negative offset is refused before the device is asked.
\<close>

theorem offsets_moved:
  assumes "c < length (chans s)" and "c_umc (the_chan s c) = None"
    and "0 \<le> c_offset (the_chan s c)" and "c_offset (the_chan s c) + int (length b) \<le> vlong_max"
    and "\<And>d x k m d'. dwrite io d x b k = (Inr m, d') \<Longrightarrow> 0 \<le> m \<and> m \<le> int (length b)"
  shows "(case read_at dev io c n (Some k) s of
        (Inr d, s') \<Rightarrow> 0 \<le> k \<and> c_offset (the_chan s' c) = vadd (c_offset (the_chan s c)) (int (length d))
      | (Inl e, s') \<Rightarrow> c_offset (the_chan s' c) = c_offset (the_chan s c))
    \<and> c_offset (the_chan (snd (write_at io c b (Some k) s)) c) = c_offset (the_chan s c)
    \<and> (case write_at io c b None s of
        (Inr m, s') \<Rightarrow> c_offset (the_chan s' c) = c_offset (the_chan s c) + m
      | (Inl e, s') \<Rightarrow> c_offset (the_chan s' c) = c_offset (the_chan s c))"
proof (intro conjI)
  let ?o = "c_offset (the_chan s c)" and ?n = "int (length b)"
  have rw: "c_offset (the_chan (unionrewind dev c s) c) = ?o" "length (chans (unionrewind dev c s)) = length (chans s)"
    using assms(1,2) by (simp_all add: unionrewind_def drop_umc_def upd_nth)
  show "case read_at dev io c n (Some k) s of
        (Inr d, s') \<Rightarrow> 0 \<le> k \<and> c_offset (the_chan s' c) = vadd ?o (int (length d))
      | (Inl e, s') \<Rightarrow> c_offset (the_chan s' c) = ?o"
    using assms(1) rw by (auto simp: read_at_def do_read_def Let_def offset_add split: prod.splits sum.splits)
  show "c_offset (the_chan (snd (write_at io c b (Some k) s)) c) = ?o"
    by (auto simp: write_at_def Let_def split: prod.splits sum.splits)
  have v: "vadd ?o ?n = ?o + ?n" by (rule vadd_exact) (use assms(3,4) in \<open>simp_all add: vlong_max_def\<close>)
  have b: "vadd (?o + ?n) (k - ?n) = ?o + k" if "0 \<le> k" "k \<le> ?n" for k
    using vadd_exact [of "?o + ?n" "k - ?n"] assms(3,4) that by (simp add: vlong_max_def)
  have b0: "vadd (?o + ?n) (- ?n) = ?o" using b [of 0] by simp
  show "case write_at io c b None s of
        (Inr m, s') \<Rightarrow> c_offset (the_chan s' c) = ?o + m
      | (Inl e, s') \<Rightarrow> c_offset (the_chan s' c) = ?o"
    using assms(1,3)
    by (auto simp: write_at_def Let_def offset_add v b0 split: prod.splits sum.splits)
      (use assms(5) b in \<open>simp, fastforce\<close>)
qed

theorem offsets_moved_witness:
  "c_offset (the_chan (snd (write_at ex_io 0 [1, 2, 3] None ex_kern)) 0) = 3
    \<and> c_offset (the_chan (snd (write_at ex_io 0 [1, 2, 3] (Some 9) ex_kern)) 0) = 0"
proof -
  have s: "0 < length (chans ex_kern)" "c_umc (the_chan ex_kern 0) = None" "c_offset (the_chan ex_kern 0) = 0"
    by (simp_all add: ex_kern_def ex_group_def ex_world_def ex_chan_def chan0_def)
  have w: "fst (write_at ex_io 0 [1, 2, 3] None ex_kern) = Inr 3"
    by (simp add: write_at_def ex_io_def s Let_def)
  have d: "\<And>d x k m d'. dwrite ex_io d x [1, 2, 3] k = (Inr m, d') \<Longrightarrow> 0 \<le> m \<and> m \<le> int (length [1, 2, 3 :: u8])"
    by (auto simp: ex_io_def)
  have "(case write_at ex_io 0 [1, 2, 3] None ex_kern of
        (Inr m, s') \<Rightarrow> c_offset (the_chan s' 0) = c_offset (the_chan ex_kern 0) + m
      | (Inl e, s') \<Rightarrow> c_offset (the_chan s' 0) = c_offset (the_chan ex_kern 0))
    \<and> c_offset (the_chan (snd (write_at ex_io 0 [1, 2, 3] (Some 9) ex_kern)) 0) = c_offset (the_chan ex_kern 0)"
    using offsets_moved [where dev = ex_dev and n = 0 and k = 9, OF s(1,2) _ _ d] s(3) by (simp add: vlong_max_def)
  then show ?thesis using w s(3) by (auto split: prod.splits)
qed

end
