(* ===== verification/DisString.thy ===== *)
theory DisString
  imports Utf
begin

text \<open>
  The strings of the Dis virtual machine: libinterp/string.c, with \<open>movp\<close> of xec.c, which shares a string, and
  \<open>destroy\<close> of heap.c. A string object holds bytes or, once a character past ASCII is in it, runes; the sign of its
  \<open>len\<close> tells which. It is counted, shared by pointer, copied when a shared one is stored into, and appended to in
  place when there is room. The heap is a list of objects, a pointer its index, and \<open>H\<close> is \<open>None\<close>; a variable of the
  Limbo program (\<open>S(r)\<close> for an operand \<open>r\<close>) is an index into \<open>v_vars\<close>.

  An object has the room its allocation gave it (\<open>s_cap\<close>, in bytes from the data on) besides the room the code
  believes it has (\<open>s_max\<close>, in characters of its representation). A store past the first sets \<open>v_fault\<close>: it damages the
  heap. How many bytes an allocation of \<open>n\<close> bytes really has is a parameter \<open>hs\<close>, since \<open>hmsize\<close> tells the
  size of the block, which the allocator rounds up. Running out of memory is left out.
\<close>

unbundle bit_operations_syntax

section \<open>Objects\<close>

datatype srep = Ascii bytes | Runes "u32 list"

record dstr =
  s_ref :: nat
  s_rep :: srep
  s_max :: nat
  s_cap :: nat

record vm =
  v_objs :: "dstr list"
  v_vars :: "nat option list"
  v_fault :: bool

datatype exn = exNilref | exBounds

type_synonym 'a xres = "exn + 'a"

text \<open>The sizes of \<open>Heap\<close>, of \<open>String\<close>, and where the data of a string begins, on a 64-bit host.\<close>

definition HEAPSIZE :: nat where "HEAPSIZE = 32"
definition STRINGSIZE :: nat where "STRINGSIZE = 24"
definition DATAOFF :: nat where "DATAOFF = 16"
definition RUNESIZE :: nat where "RUNESIZE = 4"

primrec slen :: "srep \<Rightarrow> int" where
  "slen (Ascii b) = int (length b)"
| "slen (Runes r) = - int (length r)"

text \<open>The characters as the program sees them.\<close>

primrec chars :: "srep \<Rightarrow> u32 list" where
  "chars (Ascii b) = map ucast b"
| "chars (Runes r) = r"

definition bytesize :: "srep \<Rightarrow> nat" where
  "bytesize r = (case r of Ascii b \<Rightarrow> length b | Runes r \<Rightarrow> RUNESIZE * length r)"

text \<open>\<open>newstring\<close> and \<open>newrunes\<close>; what is in a new string is to be overwritten.\<close>

definition newstring :: "(nat \<Rightarrow> nat) \<Rightarrow> nat \<Rightarrow> dstr" where
  "newstring hs nb =
     (let h = hs (HEAPSIZE + (STRINGSIZE + nb)) in
      \<lparr>s_ref = 1, s_rep = Ascii (replicate nb 0), s_max = h - (STRINGSIZE + HEAPSIZE), s_cap = h - (HEAPSIZE + DATAOFF)\<rparr>)"

definition newrunes :: "(nat \<Rightarrow> nat) \<Rightarrow> nat \<Rightarrow> dstr" where
  "newrunes hs nr =
     (if nr = 0 then newstring hs nr
      else
        (let h = hs (HEAPSIZE + (STRINGSIZE + nr * RUNESIZE)) in
         \<lparr>s_ref = 1, s_rep = Runes (replicate nr 0), s_max = (h - (STRINGSIZE + HEAPSIZE)) div RUNESIZE,
           s_cap = h - (HEAPSIZE + DATAOFF)\<rparr>))"

definition stringdup :: "(nat \<Rightarrow> nat) \<Rightarrow> srep \<Rightarrow> dstr" where
  "stringdup hs s =
     (case s of
        Ascii b \<Rightarrow> (newstring hs (length b))\<lparr>s_rep := Ascii b\<rparr>
      | Runes r \<Rightarrow> (newrunes hs (length r))\<lparr>s_rep := Runes r\<rparr>)"

section \<open>The heap\<close>

abbreviation obj :: "vm \<Rightarrow> nat \<Rightarrow> dstr" where "obj s p \<equiv> v_objs s ! p"
abbreviation var :: "vm \<Rightarrow> nat \<Rightarrow> nat option" where "var s x \<equiv> v_vars s ! x"

text \<open>A new object, and an object with new contents: the stores have to stay inside it.\<close>

definition alloc :: "dstr \<Rightarrow> vm \<Rightarrow> nat \<times> vm" where
  "alloc x s = (length (v_objs s), s\<lparr>v_objs := v_objs s @ [x], v_fault := v_fault s \<or> s_cap x < bytesize (s_rep x)\<rparr>)"

definition fill :: "nat \<Rightarrow> srep \<Rightarrow> vm \<Rightarrow> vm" where
  "fill p r s = s\<lparr>v_objs := (v_objs s)[p := (obj s p)\<lparr>s_rep := r\<rparr>], v_fault := v_fault s \<or> s_cap (obj s p) < bytesize r\<rparr>"

definition addref :: "nat option \<Rightarrow> vm \<Rightarrow> vm" where
  "addref p s =
     (case p of None \<Rightarrow> s | Some p \<Rightarrow> s\<lparr>v_objs := (v_objs s)[p := (obj s p)\<lparr>s_ref := s_ref (obj s p) + 1\<rparr>]\<rparr>)"

text \<open>\<open>destroy\<close>; an object without references is free and is not used again here.\<close>

definition destroy :: "nat option \<Rightarrow> vm \<Rightarrow> vm" where
  "destroy p s =
     (case p of
        None \<Rightarrow> s
      | Some p \<Rightarrow> s\<lparr>v_objs := (v_objs s)[p := (obj s p)\<lparr>s_ref := s_ref (obj s p) - 1\<rparr>], v_fault := v_fault s \<or> s_ref (obj s p) = 0\<rparr>)"

definition setvar :: "nat \<Rightarrow> nat option \<Rightarrow> vm \<Rightarrow> vm" where
  "setvar x p s = s\<lparr>v_vars := (v_vars s)[x := p]\<rparr>"

text \<open>\<open>destroy(*sp); *sp = ns;\<close>\<close>

definition assign :: "nat \<Rightarrow> nat option \<Rightarrow> vm \<Rightarrow> vm" where
  "assign x p s = setvar x p (destroy (var s x) s)"

section \<open>Instructions\<close>

definition indc :: "nat \<Rightarrow> 64 word \<Rightarrow> vm \<Rightarrow> int xres" where
  "indc x v s =
     (case var s x of
        None \<Rightarrow> Inl exNilref
      | Some p \<Rightarrow>
          (case s_rep (obj s p) of
             Runes r \<Rightarrow> if length r \<le> unat v then Inl exBounds else Inr (sint (r ! unat v))
           | Ascii b \<Rightarrow> if length b \<le> unat v then Inl exBounds else Inr (sint (b ! unat v))))"

definition lenc :: "nat \<Rightarrow> vm \<Rightarrow> int" where
  "lenc x s = (case var s x of None \<Rightarrow> 0 | Some p \<Rightarrow> (let l = slen (s_rep (obj s p)) in if l < 0 then - l else l))"

text \<open>\<open>splitc\<close>: a copy of our own in the variable, of runes if the string is to be expanded.\<close>

definition cvtup :: "bytes \<Rightarrow> u32 list" where
  "cvtup b = map ucast b"

definition splitc :: "(nat \<Rightarrow> nat) \<Rightarrow> nat \<Rightarrow> nat \<Rightarrow> bool \<Rightarrow> vm \<Rightarrow> nat \<times> vm" where
  "splitc hs x p expand s =
     (let ns = (case s_rep (obj s p) of
                  Ascii b \<Rightarrow>
                    if expand \<and> length b > 0 then (newrunes hs (length b))\<lparr>s_rep := Runes (cvtup b)\<rparr>
                    else stringdup hs (Ascii b)
                | Runes r \<Rightarrow> stringdup hs (Runes r));
          (q, s) = alloc ns s
      in (q, setvar x (Some q) (destroy (Some p) s)))"

text \<open>
  The string \<open>insc\<close> stores into: a new empty one for \<open>H\<close>, a copy of a shared one or of one to be expanded, or else
  the string itself.
\<close>

definition insc_target :: "(nat \<Rightarrow> nat) \<Rightarrow> nat \<Rightarrow> bool \<Rightarrow> vm \<Rightarrow> nat \<times> vm" where
  "insc_target hs x expand s =
     (case var s x of
        None \<Rightarrow>
          (let ns = newstring hs 0
           in alloc (if expand then ns\<lparr>s_max := s_max ns div RUNESIZE\<rparr> else ns) s)
      | Some p \<Rightarrow>
          if s_ref (obj s p) > 1 \<or> (expand \<and> slen (s_rep (obj s p)) > 0) then splitc hs x p expand s
          else (p, s))"

text \<open>
  The store at \<open>v\<close>: over a character, at the end if the string has room, or at the end of a longer copy. The result
  is the string to put into the variable.
\<close>

definition insc_store :: "(nat \<Rightarrow> nat) \<Rightarrow> nat \<Rightarrow> nat \<Rightarrow> u32 \<Rightarrow> bool \<Rightarrow> vm \<Rightarrow> nat xres \<times> vm" where
  "insc_store hs p v r expand s =
     (let x = obj s p in
      if slen (s_rep x) < 0 \<or> expand then
        (let rs = (case s_rep x of Ascii _ \<Rightarrow> [] | Runes rs \<Rightarrow> rs) in
         if v < length rs then (Inr p, fill p (Runes (rs[v := r])) s)
         else if v = length rs \<and> v < s_max x then (Inr p, fill p (Runes (rs @ [r])) s)
         else if v \<noteq> length rs then (Inl exBounds, s)
         else
           (let ns = newstring hs ((v + 1 + v div 4) * RUNESIZE);
                (q, s) = alloc (ns\<lparr>s_rep := Runes (rs @ [r]), s_max := s_max ns div RUNESIZE\<rparr>) s
            in (Inr q, s)))
      else
        (let b = (case s_rep x of Ascii b \<Rightarrow> b | Runes _ \<Rightarrow> []) in
         if v < length b then (Inr p, fill p (Ascii (b[v := ucast r])) s)
         else if v = length b \<and> v < s_max x then (Inr p, fill p (Ascii (b @ [ucast r])) s)
         else if v \<noteq> length b then (Inl exBounds, s)
         else
           (let ns = newstring hs (v + 1 + v div 4);
                (q, s) = alloc (ns\<lparr>s_rep := Ascii (b @ [ucast r])\<rparr>) s
            in (Inr q, s))))"

definition insc :: "(nat \<Rightarrow> nat) \<Rightarrow> nat \<Rightarrow> 64 word \<Rightarrow> u32 \<Rightarrow> vm \<Rightarrow> unit xres \<times> vm" where
  "insc hs x v r s =
     (let expand = Runeself \<le> r;
          (p, s) = insc_target hs x expand s
      in case insc_store hs p (unat v) r expand s of
           (Inl e, s) \<Rightarrow> (Inl e, s)
         | (Inr p, s) \<Rightarrow> (Inr (), if Some p \<noteq> var s x then assign x (Some p) s else s))"

definition slicer :: "(nat \<Rightarrow> nat) \<Rightarrow> 64 word \<Rightarrow> 64 word \<Rightarrow> nat option \<Rightarrow> vm \<Rightarrow> nat option xres \<times> vm" where
  "slicer hs start v ds s =
     (case ds of
        None \<Rightarrow> if start = 0 \<and> v = 0 then (Inr None, s) else (Inl exBounds, s)
      | Some p \<Rightarrow>
          (let nc = unat (v - start) in
           case s_rep (obj s p) of
             Runes r \<Rightarrow>
               if v < start \<or> unat v > length r then (Inl exBounds, s)
               else if nc = 0 then (Inr None, s)
               else (let (q, s) = alloc ((newrunes hs nc)\<lparr>s_rep := Runes (take nc (drop (unat start) r))\<rparr>) s in (Inr (Some q), s))
           | Ascii b \<Rightarrow>
               if v < start \<or> unat v > length b then (Inl exBounds, s)
               else if nc = 0 then (Inr None, s)
               else (let (q, s) = alloc ((newstring hs nc)\<lparr>s_rep := Ascii (take nc (drop (unat start) b))\<rparr>) s in (Inr (Some q), s))))"

definition slicec :: "(nat \<Rightarrow> nat) \<Rightarrow> nat \<Rightarrow> 64 word \<Rightarrow> 64 word \<Rightarrow> vm \<Rightarrow> unit xres \<times> vm" where
  "slicec hs x start v s =
     (case slicer hs start v (var s x) s of
        (Inl e, s) \<Rightarrow> (Inl e, s)
      | (Inr q, s) \<Rightarrow> (Inr (), assign x q s))"

text \<open>\<open>addstring\<close>: with \<open>append\<close> the first string may be extended in place.\<close>

definition dup :: "(nat \<Rightarrow> nat) \<Rightarrow> nat \<Rightarrow> vm \<Rightarrow> nat option \<times> vm" where
  "dup hs p s = (let (q, s) = alloc (stringdup hs (s_rep (obj s p))) s in (Some q, s))"

definition join :: "(nat \<Rightarrow> nat) \<Rightarrow> nat \<Rightarrow> srep \<Rightarrow> srep \<Rightarrow> bool \<Rightarrow> vm \<Rightarrow> nat option \<times> vm" where
  "join hs p1 r1 r2 app s =
     (case r1 of
        Runes a \<Rightarrow>
          (let c = Runes (a @ (case r2 of Runes b \<Rightarrow> b | Ascii b \<Rightarrow> cvtup b)); l = length (chars c) in
           if app \<and> l \<le> s_max (obj s p1) then (Some p1, fill p1 c s)
           else (let (q, s) = alloc ((newrunes hs (if app then l + l div 4 else l))\<lparr>s_rep := c\<rparr>) s in (Some q, s)))
      | Ascii a \<Rightarrow>
          (case r2 of
             Runes b \<Rightarrow>
               (let c = Runes (cvtup a @ b); l = length (chars c);
                    (q, s) = alloc ((newrunes hs (if app then l + l div 4 else l))\<lparr>s_rep := c\<rparr>) s
                in (Some q, s))
           | Ascii b \<Rightarrow>
               (let c = Ascii (a @ b); l = length (a @ b) in
                if app \<and> l \<le> s_max (obj s p1) then (Some p1, fill p1 c s)
                else (let (q, s) = alloc ((newstring hs (if app then l + l div 4 else l))\<lparr>s_rep := c\<rparr>) s in (Some q, s)))))"

definition addstring :: "(nat \<Rightarrow> nat) \<Rightarrow> nat option \<Rightarrow> nat option \<Rightarrow> bool \<Rightarrow> vm \<Rightarrow> nat option \<times> vm" where
  "addstring hs s1 s2 app s =
     (case s1 of
        None \<Rightarrow> (case s2 of None \<Rightarrow> (None, s) | Some p2 \<Rightarrow> dup hs p2 s)
      | Some p1 \<Rightarrow>
          (let app = (if s_ref (obj s p1) > 1 then False else app) in
           case s2 of
             None \<Rightarrow> if app then (Some p1, s) else dup hs p1 s
           | Some p2 \<Rightarrow> join hs p1 (s_rep (obj s p1)) (s_rep (obj s p2)) app s))"

definition addc :: "(nat \<Rightarrow> nat) \<Rightarrow> nat \<Rightarrow> nat \<Rightarrow> nat \<Rightarrow> vm \<Rightarrow> vm" where
  "addc hs m x d s =
     (let (ns, s) = addstring hs (var s m) (var s x) (m = d) s in if ns \<noteq> var s d then assign d ns s else s)"

definition movp :: "nat \<Rightarrow> nat \<Rightarrow> vm \<Rightarrow> vm" where
  "movp x d s = (let sv = var s x; s = addref sv s; dv = var s d in destroy dv (setvar d sv s))"

section \<open>Strings and bytes\<close>

text \<open>\<open>string2c\<close>: the \<open>int\<close> of a rune is compared with \<open>Runeself\<close>.\<close>

definition rune2c :: "u32 \<Rightarrow> bytes" where
  "rune2c c = (if sint c < sint Runeself then [ucast c] else runetochar c)"

definition string2c :: "srep \<Rightarrow> bytes" where
  "string2c r = (case r of Ascii b \<Rightarrow> b | Runes r \<Rightarrow> concat (map rune2c r))"

text \<open>\<open>cvtca\<close>: the bytes of the array made.\<close>

definition cvtca :: "nat \<Rightarrow> vm \<Rightarrow> bytes" where
  "cvtca x s =
     (case var s x of
        None \<Rightarrow> []
      | Some p \<Rightarrow> (case s_rep (obj s p) of Ascii b \<Rightarrow> b | Runes r \<Rightarrow> concat (map runetochar r)))"

text \<open>The second loop of \<open>c2string\<close>: the number of whole runes in the bytes, and the loop that decodes so many.\<close>

function countrunes :: "bytes \<Rightarrow> nat" where
  "countrunes p =
     (if p = [] then 0
      else if ucast (hd p) < Runeself then 1 + countrunes (tl p)
      else if UTFmax \<le> length p \<or> fullrune p (int (length p)) then 1 + countrunes (drop (snd (chartorune p)) p)
      else 0)"
  by pat_completeness auto
termination
  by (relation "measure length") (use chartorune_pos in \<open>auto simp: neq_Nil_conv Suc_le_eq\<close>)

declare countrunes.simps [simp del]

primrec decoderunes :: "nat \<Rightarrow> bytes \<Rightarrow> u32 list" where
  "decoderunes 0 cs = []"
| "decoderunes (Suc nc) cs = (let (r, n) = chartorune cs in r # decoderunes nc (drop n cs))"

definition c2string :: "(nat \<Rightarrow> nat) \<Rightarrow> bytes \<Rightarrow> dstr" where
  "c2string hs cs =
     (let a = takeWhile (\<lambda>c. ucast c < Runeself) cs in
      if length a = length cs then (newstring hs (length cs))\<lparr>s_rep := Ascii cs\<rparr>
      else
        (let nc = length a + countrunes (drop (length a) cs)
         in if nc = 0 then newrunes hs 0 else (newrunes hs nc)\<lparr>s_rep := Runes (decoderunes nc cs)\<rparr>))"

definition cvtac :: "(nat \<Rightarrow> nat) \<Rightarrow> bytes option \<Rightarrow> nat \<Rightarrow> vm \<Rightarrow> vm" where
  "cvtac hs a d s =
     (case a of
        None \<Rightarrow> assign d None s
      | Some cs \<Rightarrow> (let (q, s) = alloc (c2string hs cs) s in assign d (Some q) s))"

section \<open>Comparison\<close>

fun differ :: "int list \<Rightarrow> int list \<Rightarrow> int" where
  "differ (a # as) (b # bs) = (if a = b then differ as bs else if a < b then -1 else 1)"
| "differ as bs = 0"

text \<open>
  \<open>stringcmp\<close>; of the value of \<open>memcmp\<close> only the sign is known. The strings are the same if the pointers are.
\<close>

definition stringcmp :: "srep \<Rightarrow> srep \<Rightarrow> int" where
  "stringcmp s1 s2 =
     (let c = (case (s1, s2) of
                 (Ascii a, Ascii b) \<Rightarrow> differ (map uint a) (map uint b)
               | (Runes a, Ascii b) \<Rightarrow> differ (map sint a) (map sint b)
               | (Ascii a, Runes b) \<Rightarrow> differ (map sint a) (map sint b)
               | (Runes a, Runes b) \<Rightarrow> differ (map sint a) (map sint b))
      in if c \<noteq> 0 then c else int (length (chars s1)) - int (length (chars s2)))"

definition strcmp_vars :: "nat \<Rightarrow> nat \<Rightarrow> vm \<Rightarrow> int" where
  "strcmp_vars x y s =
     (let r = (\<lambda>p. case p of None \<Rightarrow> Ascii [] | Some p \<Rightarrow> s_rep (obj s p))
      in if var s x = var s y then 0 else stringcmp (r (var s x)) (r (var s y)))"

end
