(* ===== verification/DisStringProps.thy ===== *)
theory DisStringProps
  imports DisString "HOL-Library.Multiset"
begin

text \<open>
  What the string instructions of the Dis virtual machine compute. Limbo's strings are values: the abstract machine
  (\<open>astep\<close>) has a list of runes in every variable and no objects, no sharing and no representations. The theorems show
  that libinterp/string.c implements it and stays inside its objects, but for one case in which it does not.
\<close>

unbundle bit_operations_syntax

section \<open>Simulation\<close>

text \<open>An interpreter implements another if each of its instructions does, and so then do its programs.\<close>

primrec run_insts :: "('i \<Rightarrow> 's \<Rightarrow> 'r \<times> 's) \<Rightarrow> 'i list \<Rightarrow> 's \<Rightarrow> 'r list \<times> 's" where
  "run_insts step [] s = ([], s)"
| "run_insts step (i # is) s = (let (r, s) = step i s; (rs, s) = run_insts step is s in (r # rs, s))"

locale simulation =
  fixes step :: "'i \<Rightarrow> 's \<Rightarrow> 'r \<times> 's" and spec :: "'i \<Rightarrow> 'a \<Rightarrow> 'r \<times> 'a" and abs :: "'s \<Rightarrow> 'a"
    and inv :: "'s \<Rightarrow> bool" and allowed :: "'i \<Rightarrow> bool"
  assumes sim: "inv s \<Longrightarrow> allowed i \<Longrightarrow> step i s = (r, s') \<Longrightarrow> inv s' \<and> spec i (abs s) = (r, abs s')"
begin

lemma run_sim:
  "inv s \<Longrightarrow> list_all allowed is \<Longrightarrow> run_insts step is s = (rs, s') \<Longrightarrow> inv s' \<and> run_insts spec is (abs s) = (rs, abs s')"
proof (induction "is" arbitrary: s rs)
  case (Cons i "is")
  obtain r t where t: "step i s = (r, t)" by fastforce
  obtain rs' where r: "run_insts step is t = (rs', s')" "rs = r # rs'"
    using Cons.prems(3) t by (auto split: prod.splits)
  note s = sim [OF Cons.prems(1) _ t]
  show ?case using Cons.IH [OF _ _ r(1)] s Cons.prems(2) r(2) by simp
qed simp

end

section \<open>The invariant\<close>

definition rep_ok :: "dstr \<Rightarrow> bool" where
  "rep_ok x \<longleftrightarrow>
     (case s_rep x of
        Ascii b \<Rightarrow> (\<forall>c\<in>set b. c < 0x80) \<and> length b \<le> s_cap x \<and> s_max x \<le> s_cap x
      | Runes r \<Rightarrow> r \<noteq> [] \<and> RUNESIZE * length r \<le> s_cap x \<and> RUNESIZE * s_max x \<le> s_cap x)"

lemma rep_ok_ref [simp]: "rep_ok (x\<lparr>s_ref := k\<rparr>) = rep_ok x"
  by (simp add: rep_ok_def split: srep.split)

definition vm_ok :: "nat multiset \<Rightarrow> vm \<Rightarrow> bool" where
  "vm_ok E s \<longleftrightarrow>
     \<not> v_fault s \<and>
     (\<forall>p<length (v_objs s). s_ref (obj s p) = count_list (v_vars s) (Some p) + count E p \<and> (0 < s_ref (obj s p) \<longrightarrow> rep_ok (obj s p))) \<and>
     (\<forall>p. Some p \<in> set (v_vars s) \<or> p \<in># E \<longrightarrow> p < length (v_objs s))"

definition opt_ref :: "nat option \<Rightarrow> nat multiset" where
  "opt_ref p = (case p of None \<Rightarrow> {#} | Some p \<Rightarrow> {#p#})"

lemma opt_ref_simps [simp]: "opt_ref None = {#}" "opt_ref (Some p) = {#p#}"
  by (simp_all add: opt_ref_def)

lemma vm_okI:
  assumes "\<not> v_fault s"
    and "\<And>p. p < length (v_objs s) \<Longrightarrow> s_ref (obj s p) = count_list (v_vars s) (Some p) + count E p"
    and "\<And>p. p < length (v_objs s) \<Longrightarrow> 0 < s_ref (obj s p) \<Longrightarrow> rep_ok (obj s p)"
    and "\<And>p. Some p \<in> set (v_vars s) \<Longrightarrow> p < length (v_objs s)" and "\<And>p. p \<in># E \<Longrightarrow> p < length (v_objs s)"
  shows "vm_ok E s"
  using assms by (auto simp: vm_ok_def)

lemma vm_okD:
  assumes "vm_ok E s"
  shows "\<not> v_fault s" "p < length (v_objs s) \<Longrightarrow> s_ref (obj s p) = count_list (v_vars s) (Some p) + count E p"
    "p < length (v_objs s) \<Longrightarrow> 0 < s_ref (obj s p) \<Longrightarrow> rep_ok (obj s p)"
    "Some p \<in> set (v_vars s) \<Longrightarrow> p < length (v_objs s)" "p \<in># E \<Longrightarrow> p < length (v_objs s)"
  using assms by (auto simp: vm_ok_def)

lemma count_list_pos: "0 < count_list xs a \<longleftrightarrow> a \<in> set xs"
  by (induction xs) auto

lemma count_list_upd: "x < length xs \<Longrightarrow> count_list (xs[x := v]) a + (if xs ! x = a then 1 else 0) = count_list xs a + (if v = a then 1 else 0)"
proof (induction xs arbitrary: x)
  case (Cons y ys)
  show ?case
  proof (cases x)
    case (Suc n)
    then show ?thesis using Cons.IH [of n] Cons.prems by (simp split: if_splits)
  qed simp
qed simp

text \<open>The references to an object in use.\<close>

lemma vm_ok_var:
  assumes "vm_ok E s" and "x < length (v_vars s)" and "var s x = Some p"
  shows "p < length (v_objs s)" "0 < s_ref (obj s p)" "rep_ok (obj s p)"
proof -
  have "Some p \<in> set (v_vars s)" using assms(2,3) by (metis nth_mem)
  then show "p < length (v_objs s)" and r: "0 < s_ref (obj s p)"
    using vm_okD(2,4) [OF assms(1), of p] count_list_pos [of "v_vars s" "Some p"] by auto
  with vm_okD(3) [OF assms(1), of p] show "rep_ok (obj s p)" by blast
qed

lemma vm_ok_held:
  assumes "vm_ok E s" and "p \<in># E"
  shows "p < length (v_objs s)" "0 < s_ref (obj s p)" "rep_ok (obj s p)"
  using vm_okD(2,3,5) [OF assms(1), of p] assms(2) by auto

section \<open>Steps on the heap\<close>

lemma vm_frame [simp]:
  "v_vars (destroy p s) = v_vars s" "v_vars (addref p s) = v_vars s" "v_vars (fill q r s) = v_vars s"
  "length (v_objs (destroy p s)) = length (v_objs s)" "length (v_objs (addref p s)) = length (v_objs s)"
  "length (v_objs (fill q r s)) = length (v_objs s)"
  "v_objs (setvar x p s) = v_objs s" "v_vars (setvar x p s) = (v_vars s)[x := p]" "v_fault (setvar x p s) = v_fault s"
  "v_vars (snd (alloc y s)) = v_vars s"
  by (simp_all add: destroy_def addref_def fill_def setvar_def alloc_def split: option.split)

lemma nth_upd_field: "f (g (xs ! p)) = f (xs ! p) \<Longrightarrow> f (xs[p := g (xs ! p)] ! q) = f (xs ! q)"
  by (cases "p < length xs"; cases "q = p") (auto simp: list_update_beyond)

lemma rep_frame [simp]:
  "s_rep (obj (destroy p s) q) = s_rep (obj s q)" "s_rep (obj (addref p s) q) = s_rep (obj s q)"
  by (auto simp: destroy_def addref_def split: option.split intro!: nth_upd_field [where f = s_rep])

lemma obj_fill: "p < length (v_objs s) \<Longrightarrow> obj (fill p r s) q = (if q = p then (obj s p)\<lparr>s_rep := r\<rparr> else obj s q)"
  by (simp add: fill_def)

lemma vm_ok_alloc:
  assumes "vm_ok E s" and "alloc x s = (q, s')" and "rep_ok x" and "s_ref x = 1" and "bytesize (s_rep x) \<le> s_cap x"
  shows "vm_ok (add_mset q E) s'" "v_vars s' = v_vars s" "q = length (v_objs s)" "obj s' q = x"
    "p < length (v_objs s) \<Longrightarrow> obj s' p = obj s p" "length (v_objs s') = Suc (length (v_objs s))"
proof -
  have s': "q = length (v_objs s)" "v_objs s' = v_objs s @ [x]" "v_vars s' = v_vars s" "\<not> v_fault s'"
    using assms(2,5) vm_okD(1) [OF assms(1)] by (auto simp: alloc_def)
  have new: "q \<notin># E" "Some q \<notin> set (v_vars s)" using vm_okD(4,5) [OF assms(1), of q] s'(1) by auto
  then have "count_list (v_vars s) (Some q) = 0" "count E q = 0" by (simp_all add: count_list_0_iff not_in_iff)
  then show "vm_ok (add_mset q E) s'"
    using s' vm_okD(2-5) [OF assms(1)] assms(3,4)
    by (intro vm_okI) (auto simp: nth_append less_Suc_eq split: if_splits dest: less_SucI)
  show "v_vars s' = v_vars s" "q = length (v_objs s)" "obj s' q = x" "p < length (v_objs s) \<Longrightarrow> obj s' p = obj s p"
    "length (v_objs s') = Suc (length (v_objs s))"
    using s' by (simp_all add: nth_append)
qed

lemma vm_ok_fill:
  assumes "vm_ok E s" and "p < length (v_objs s)" and "rep_ok ((obj s p)\<lparr>s_rep := r\<rparr>)"
  shows "vm_ok E (fill p r s)"
proof (rule vm_okI)
  have "bytesize r \<le> s_cap (obj s p)" using assms(3) by (auto simp: rep_ok_def bytesize_def split: srep.splits)
  then show "\<not> v_fault (fill p r s)" using vm_okD(1) [OF assms(1)] by (simp add: fill_def)
qed (use vm_okD(2-5) [OF assms(1)] assms(2,3) in \<open>auto simp: obj_fill\<close>)

lemma vm_ok_addref:
  assumes "vm_ok E s" and "\<And>q. p = Some q \<Longrightarrow> q < length (v_objs s) \<and> rep_ok (obj s q)"
  shows "vm_ok (opt_ref p + E) (addref p s)"
  using assms vm_okD [OF assms(1)]
  by (cases p) (auto simp: addref_def nth_list_update intro!: vm_okI split: if_splits)

lemma vm_ok_destroy:
  assumes "vm_ok (opt_ref p + E) s" shows "vm_ok E (destroy p s)"
proof (cases p)
  case (Some q)
  have q: "q < length (v_objs s)" "0 < s_ref (obj s q)" "rep_ok (obj s q)" using vm_ok_held [OF assms, of q] Some by simp_all
  note d = vm_okD [OF assms, unfolded Some opt_ref_simps]
  show ?thesis unfolding Some destroy_def option.case
  proof (rule vm_okI)
    fix p assume p: "p < length (v_objs (s\<lparr>v_objs := (v_objs s)[q := (obj s q)\<lparr>s_ref := s_ref (obj s q) - 1\<rparr>],
      v_fault := v_fault s \<or> s_ref (obj s q) = 0\<rparr>))"
    show "s_ref (obj (s\<lparr>v_objs := (v_objs s)[q := (obj s q)\<lparr>s_ref := s_ref (obj s q) - 1\<rparr>],
        v_fault := v_fault s \<or> s_ref (obj s q) = 0\<rparr>) p) = count_list (v_vars (s\<lparr>v_objs := (v_objs s)[q := (obj s q)\<lparr>s_ref := s_ref (obj s q) - 1\<rparr>],
        v_fault := v_fault s \<or> s_ref (obj s q) = 0\<rparr>)) (Some p) + count E p"
      using p d(2) [of p] q(1) by (auto simp: nth_list_update split: if_splits)
  qed (use d q in \<open>auto simp: nth_list_update split: if_splits\<close>)
qed (use assms in \<open>simp add: destroy_def\<close>)

lemma vm_ok_setvar:
  assumes "vm_ok (opt_ref v + E) s" and "x < length (v_vars s)"
  shows "vm_ok (opt_ref (var s x) + E) (setvar x v s)"
proof (rule vm_okI)
  note d = vm_okD [OF assms(1)]
  fix p assume p: "p < length (v_objs (setvar x v s))"
  have "count (opt_ref v) p = (if v = Some p then 1 else 0)" "count (opt_ref (var s x)) p = (if var s x = Some p then 1 else 0)"
    by (auto simp: opt_ref_def split: option.split)
  then show "s_ref (obj (setvar x v s) p) = count_list (v_vars (setvar x v s)) (Some p) + count (opt_ref (var s x) + E) p"
    using d(2) [of p] p count_list_upd [OF assms(2), of v "Some p"] by (auto split: if_splits)
next
  note d = vm_okD [OF assms(1)]
  show "p < length (v_objs (setvar x v s))" if "Some p \<in> set (v_vars (setvar x v s))" for p
    using that d(4,5) [of p] set_update_subset_insert [of "v_vars s" x v] by (auto simp: opt_ref_def split: option.splits)
  show "p < length (v_objs (setvar x v s))" if "p \<in># opt_ref (var s x) + E" for p
    using that d(4,5) [of p] assms(2) by (auto simp: opt_ref_def split: option.splits) (metis nth_mem)
qed (use vm_okD [OF assms(1)] in auto)

lemma assign_eq: "assign x p s = destroy (var s x) (setvar x p s)"
  by (simp add: assign_def destroy_def setvar_def split: option.split)

lemma vm_ok_assign:
  assumes "vm_ok (opt_ref v + E) s" and "x < length (v_vars s)" shows "vm_ok E (assign x v s)"
  unfolding assign_eq by (rule vm_ok_destroy [OF vm_ok_setvar [OF assms]])

section \<open>The values of the variables\<close>

definition sval :: "vm \<Rightarrow> nat \<Rightarrow> u32 list" where
  "sval s x = (if x < length (v_vars s) then (case var s x of None \<Rightarrow> [] | Some p \<Rightarrow> chars (s_rep (obj s p))) else [])"

lemma sval_frame [simp]:
  "sval (destroy p s) = sval s" "sval (addref p s) = sval s"
  by (auto simp: sval_def fun_eq_iff split: option.split)

lemma sval_setvar:
  "x < length (v_vars s) \<Longrightarrow> sval (setvar x v s) = (sval s)(x := (case v of None \<Rightarrow> [] | Some p \<Rightarrow> chars (s_rep (obj s p))))"
  by (auto simp: sval_def fun_eq_iff nth_list_update split: option.split)

lemma sval_assign:
  "x < length (v_vars s) \<Longrightarrow> sval (assign x v s) = (sval s)(x := (case v of None \<Rightarrow> [] | Some p \<Rightarrow> chars (s_rep (obj s p))))"
  by (simp add: assign_eq sval_setvar)

lemma sval_alloc:
  assumes "vm_ok E s" and "alloc y s = (q, s')" shows "sval s' = sval s"
proof
  fix x
  have "v_objs s' = v_objs s @ [y]" "v_vars s' = v_vars s" using assms(2) by (auto simp: alloc_def)
  then show "sval s' x = sval s x"
    using vm_ok_var(1) [OF assms(1), of x] by (auto simp: sval_def nth_append split: option.split)
qed

lemma sval_fill:
  assumes "p < length (v_objs s)" and "\<And>y. y < length (v_vars s) \<Longrightarrow> var s y = Some p \<Longrightarrow> y = x"
  shows "sval (fill p r s) = (if x < length (v_vars s) \<and> var s x = Some p then (sval s)(x := chars r) else sval s)"
  using assms by (auto simp: sval_def fun_eq_iff obj_fill split: option.split)

text \<open>A string with one reference, which a variable has, is that variable's alone.\<close>

lemma sole_var:
  assumes "vm_ok E s" and "p < length (v_objs s)" and "s_ref (obj s p) = 1" and "x < length (v_vars s)" and "var s x = Some p"
    and "y < length (v_vars s)" and "var s y = Some p"
  shows "y = x" and "p \<notin># E"
proof -
  have e: "count_list (v_vars s) (Some p) + count E p = 1" using vm_okD(2) [OF assms(1,2)] assms(3) by simp
  have "Some p \<in> set (v_vars s)" using assms(4,5) by (metis nth_mem)
  then have c: "count_list (v_vars s) (Some p) = 1" "count E p = 0" using e count_list_pos [of "v_vars s" "Some p"] by linarith+
  then show "p \<notin># E" by (simp add: not_in_iff)
  show "y = x"
  proof (rule ccontr)
    assume "y \<noteq> x"
    then have "count_list ((v_vars s)[x := None]) (Some p) = 0" "Some p \<in> set ((v_vars s)[x := None])"
      using count_list_upd [OF assms(4), of None "Some p"] c(1) assms(5-7)
      by (simp_all, metis length_list_update nth_list_update_neq nth_mem)
    then show False by (simp add: count_list_0_iff)
  qed
qed

lemma sole_held:
  assumes "vm_ok E s" and "p \<in># E" and "s_ref (obj s p) = 1" shows "Some p \<notin> set (v_vars s)"
proof -
  have "p < length (v_objs s)" using vm_ok_held(1) [OF assms(1,2)] .
  then have "count_list (v_vars s) (Some p) + count E p = 1" using vm_okD(2) [OF assms(1)] assms(3) by simp
  moreover have "0 < count E p" using assms(2) by simp
  ultimately show ?thesis using count_list_pos [of "v_vars s" "Some p"] by linarith
qed

section \<open>New strings\<close>

definition hs_ok :: "(nat \<Rightarrow> nat) \<Rightarrow> bool" where
  "hs_ok hs \<longleftrightarrow> (\<forall>n. n \<le> hs n)"

lemmas size_defs = HEAPSIZE_def STRINGSIZE_def DATAOFF_def RUNESIZE_def

lemma newstring_ok:
  assumes "hs_ok hs" and "length b \<le> nb" and "\<forall>c\<in>set b. c < 0x80"
  shows "rep_ok ((newstring hs nb)\<lparr>s_rep := Ascii b\<rparr>)" "s_ref (newstring hs nb) = 1" "nb \<le> s_max (newstring hs nb)"
proof -
  have "56 + nb \<le> hs (HEAPSIZE + (STRINGSIZE + nb))"
    using assms(1) [unfolded hs_ok_def, rule_format, of "HEAPSIZE + (STRINGSIZE + nb)"] by (simp add: size_defs)
  then show "rep_ok ((newstring hs nb)\<lparr>s_rep := Ascii b\<rparr>)" "nb \<le> s_max (newstring hs nb)"
    using assms(2,3) by (auto simp: rep_ok_def newstring_def Let_def size_defs)
  show "s_ref (newstring hs nb) = 1" by (simp add: newstring_def Let_def)
qed

lemma newstring_runes_ok:
  assumes "hs_ok hs" and "RUNESIZE * length r \<le> nb" and "r \<noteq> []"
  shows "rep_ok ((newstring hs nb)\<lparr>s_rep := Runes r, s_max := s_max (newstring hs nb) div RUNESIZE\<rparr>)"
    "RUNESIZE * (s_max (newstring hs nb) div RUNESIZE) \<le> s_cap (newstring hs nb)"
proof -
  have h: "56 + nb \<le> hs (HEAPSIZE + (STRINGSIZE + nb))"
    using assms(1) [unfolded hs_ok_def, rule_format, of "HEAPSIZE + (STRINGSIZE + nb)"] by (simp add: size_defs)
  then show m: "RUNESIZE * (s_max (newstring hs nb) div RUNESIZE) \<le> s_cap (newstring hs nb)"
    by (simp add: newstring_def Let_def size_defs)
  have "nb \<le> s_cap (newstring hs nb)" using h by (simp add: newstring_def Let_def size_defs)
  then show "rep_ok ((newstring hs nb)\<lparr>s_rep := Runes r, s_max := s_max (newstring hs nb) div RUNESIZE\<rparr>)"
    using m assms(2,3) by (simp add: rep_ok_def)
qed

lemma newrunes_ok:
  assumes "hs_ok hs" and "length r \<le> nr" and "r \<noteq> []"
  shows "rep_ok ((newrunes hs nr)\<lparr>s_rep := Runes r\<rparr>)" "s_ref (newrunes hs nr) = 1"
proof -
  have "56 + nr * 4 \<le> hs (HEAPSIZE + (STRINGSIZE + nr * RUNESIZE))"
    using assms(1) [unfolded hs_ok_def, rule_format, of "HEAPSIZE + (STRINGSIZE + nr * RUNESIZE)"] by (simp add: size_defs)
  moreover have "0 < nr" using assms(2,3) by (cases r) auto
  moreover have "4 * ((h - 56) div 4) \<le> h - 48" for h :: nat by arith
  ultimately show "rep_ok ((newrunes hs nr)\<lparr>s_rep := Runes r\<rparr>)" "s_ref (newrunes hs nr) = 1"
    using assms(2,3) by (auto simp: rep_ok_def newrunes_def Let_def size_defs)
qed

lemma ascii_rep: "rep_ok x \<Longrightarrow> s_rep x = Ascii b \<Longrightarrow> \<forall>c\<in>set b. c < 0x80"
  "rep_ok x \<Longrightarrow> s_rep x = Runes r \<Longrightarrow> r \<noteq> []"
  by (simp_all add: rep_ok_def)

lemma stringdup_ok:
  assumes "hs_ok hs" and "rep_ok x"
  shows "rep_ok (stringdup hs (s_rep x))" "s_ref (stringdup hs (s_rep x)) = 1" "s_rep (stringdup hs (s_rep x)) = s_rep x"
  using newstring_ok [OF assms(1) order_refl ascii_rep(1) [OF assms(2)]] newrunes_ok [OF assms(1) order_refl ascii_rep(2) [OF assms(2)]]
  by (simp_all add: stringdup_def split: srep.split)

lemma rep_ok_room: "rep_ok x \<Longrightarrow> bytesize (s_rep x) \<le> s_cap x"
  by (auto simp: rep_ok_def bytesize_def split: srep.splits)

lemmas vm_ok_new = vm_ok_alloc [OF _ _ _ _ rep_ok_room]

section \<open>What an instruction leaves\<close>

text \<open>One variable has a new value; an object may be left that nobody has.\<close>

definition solid :: "vm \<Rightarrow> bool" where
  "solid s \<longleftrightarrow> (\<forall>x<length (v_vars s). var s x \<noteq> None \<longrightarrow> sval s x \<noteq> [])"

definition gives :: "vm \<Rightarrow> nat \<Rightarrow> u32 list \<Rightarrow> vm \<Rightarrow> bool" where
  "gives s x c s' \<longleftrightarrow>
     (\<exists>L. vm_ok L s') \<and> (\<exists>w. v_vars s' = (v_vars s)[x := w] \<and> (w \<noteq> None \<longrightarrow> c \<noteq> [])) \<and> sval s' = (sval s)(x := c)"

lemma givesI:
  assumes "vm_ok L s'" and "v_vars s' = (v_vars s)[x := w]" and "w \<noteq> None \<Longrightarrow> c \<noteq> []" and "sval s' = (sval s)(x := c)"
  shows "gives s x c s'"
  using assms by (auto simp: gives_def)

lemma gives_solid: "gives s x c s' \<Longrightarrow> solid s \<Longrightarrow> solid s'"
  by (auto simp: gives_def solid_def nth_list_update)

lemma gives_refl: "vm_ok L s \<Longrightarrow> solid s \<Longrightarrow> x < length (v_vars s) \<Longrightarrow> gives s x (sval s x) s"
  by (rule givesI [where w = "var s x"]) (auto simp: solid_def sval_def)

text \<open>A new string put into a variable.\<close>

lemma assign_new:
  assumes "vm_ok E s" and "alloc y s = (q, t)" and "rep_ok y" and "s_ref y = 1" and "x < length (v_vars s)"
  shows "vm_ok E (assign x (Some q) t)" "sval (assign x (Some q) t) = (sval s)(x := chars (s_rep y))"
    "v_vars (assign x (Some q) t) = (v_vars s)[x := Some q]"
proof -
  note a = vm_ok_new [OF assms(1-4,3)]
  have x: "x < length (v_vars t)" using a(2) assms(5) by simp
  have "vm_ok (opt_ref (Some q) + E) t" using a(1) by simp
  from vm_ok_assign [OF this x] show "vm_ok E (assign x (Some q) t)" .
  show "sval (assign x (Some q) t) = (sval s)(x := chars (s_rep y))"
    using sval_assign [OF x, of "Some q"] sval_alloc [OF assms(1,2)] a(4) by simp
  show "v_vars (assign x (Some q) t) = (v_vars s)[x := Some q]" using a(2) by (simp add: assign_eq)
qed

lemma gives_new:
  assumes "vm_ok E s" and "alloc y s = (q, t)" and "rep_ok y" and "s_ref y = 1" and "x < length (v_vars s)" and "chars (s_rep y) \<noteq> []"
  shows "gives s x (chars (s_rep y)) (assign x (Some q) t)"
  using assign_new [OF assms(1-5)] assms(6) by (intro givesI)

lemma gives_nil:
  assumes "vm_ok E s" and "x < length (v_vars s)" shows "gives s x [] (assign x None s)"
proof (rule givesI)
  show "vm_ok E (assign x None s)" by (rule vm_ok_assign) (use assms in simp_all)
  show "v_vars (assign x None s) = (v_vars s)[x := None]" by (simp add: assign_eq)
qed (simp_all add: sval_assign assms(2))

lemma gives_fill:
  assumes "vm_ok E s" and "x < length (v_vars s)" and "var s x = Some p" and "s_ref (obj s p) \<le> 1"
    and "rep_ok ((obj s p)\<lparr>s_rep := r\<rparr>)" and "chars r \<noteq> []"
  shows "gives s x (chars r) (fill p r s)"
proof (rule givesI)
  note v = vm_ok_var [OF assms(1-3)]
  show "vm_ok E (fill p r s)" by (rule vm_ok_fill [OF assms(1) v(1) assms(5)])
  show "v_vars (fill p r s) = (v_vars s)[x := var s x]" by simp
  have "s_ref (obj s p) = 1" using v(2) assms(4) by simp
  from sval_fill [OF v(1) sole_var(1) [OF assms(1) v(1) this assms(2,3)]] show "sval (fill p r s) = (sval s)(x := chars r)"
    using assms(2,3) by simp
qed (rule assms(6))

section \<open>Each instruction\<close>

lemma var_sval: "x < length (v_vars s) \<Longrightarrow> var s x = Some p \<Longrightarrow> sval s x = chars (s_rep (obj s p))"
  "x < length (v_vars s) \<Longrightarrow> var s x = None \<Longrightarrow> sval s x = []"
  by (simp_all add: sval_def)

lemma movp_ok:
  assumes "vm_ok E s" and "solid s" and "x < length (v_vars s)" and "d < length (v_vars s)"
  shows "gives s d (sval s x) (movp x d s)"
proof (rule givesI)
  have "movp x d s = assign d (var s x) (addref (var s x) s)" by (simp add: movp_def Let_def assign_eq)
  moreover have "vm_ok (opt_ref (var s x) + E) (addref (var s x) s)"
    by (rule vm_ok_addref [OF assms(1)]) (use vm_ok_var [OF assms(1,3)] in blast)
  ultimately show "vm_ok E (movp x d s)" using vm_ok_assign assms(4) by simp
  show "v_vars (movp x d s) = (v_vars s)[d := var s x]" by (simp add: movp_def Let_def)
  show "sval (movp x d s) = (sval s)(d := sval s x)"
    using assms(3,4) by (simp add: movp_def Let_def sval_setvar) (simp add: sval_def split: option.split)
  show "var s x \<noteq> None \<Longrightarrow> sval s x \<noteq> []" using assms(2,3) by (simp add: solid_def)
qed

lemma slicec_ok:
  assumes "hs_ok hs" and "vm_ok E s" and "solid s" and "x < length (v_vars s)" and "slicec hs x a b s = (r, s')"
  shows "(if a \<le> b \<and> unat b \<le> length (sval s x)
      then r = Inr () \<and> gives s x (take (unat b - unat a) (drop (unat a) (sval s x))) s'
      else r = Inl exBounds \<and> gives s x (sval s x) s')"
proof (cases "var s x")
  case None
  have "a \<le> b \<and> unat b \<le> length (sval s x) \<longleftrightarrow> a = 0 \<and> b = 0"
    using var_sval(2) [OF assms(4) None] by (auto simp: unat_eq_zero)
  then show ?thesis
    using assms(5) None var_sval(2) [OF assms(4) None] gives_nil [OF assms(2,4)] gives_refl [OF assms(2-4)]
    by (auto simp: slicec_def slicer_def split: if_splits)
next
  case (Some p)
  note v = vm_ok_var [OF assms(2,4) Some]
  define nc where "nc = unat (b - a)"
  define l where "l = take nc (drop (unat a) (sval s x))"
  define y where "y = (case s_rep (obj s p) of
      Ascii c \<Rightarrow> (newstring hs nc)\<lparr>s_rep := Ascii (take nc (drop (unat a) c))\<rparr>
    | Runes c \<Rightarrow> (newrunes hs nc)\<lparr>s_rep := Runes (take nc (drop (unat a) c))\<rparr>)"
  note sv = var_sval(1) [OF assms(4) Some]
  have sl: "slicer hs a b (Some p) s = (if b < a \<or> length (sval s x) < unat b then (Inl exBounds, s)
      else if nc = 0 then (Inr None, s) else (let (q, t) = alloc y s in (Inr (Some q), t)))"
    by (simp add: slicer_def Let_def sv nc_def y_def split: srep.split)
  have nc: "nc = unat b - unat a" if "a \<le> b" using unat_sub [OF that] by (simp add: nc_def)
  have cy: "chars (s_rep y) = l"
    by (cases "s_rep (obj s p)") (simp_all add: y_def l_def sv take_map drop_map)
  have y: "rep_ok y" "s_ref y = 1" if "l \<noteq> []"
  proof -
    have "rep_ok y \<and> s_ref y = 1"
    proof (cases "s_rep (obj s p)")
      case (Ascii c)
      have "set (take nc (drop (unat a) c)) \<subseteq> set c" by (meson order_trans set_drop_subset set_take_subset)
      then show ?thesis
        using newstring_ok [OF assms(1), of "take nc (drop (unat a) c)" nc] ascii_rep(1) [OF v(3) Ascii] Ascii by (auto simp: y_def)
    next
      case (Runes c)
      then show ?thesis using newrunes_ok [OF assms(1), of "take nc (drop (unat a) c)" nc] that sv by (simp add: y_def l_def)
    qed
    then show "rep_ok y" "s_ref y = 1" by simp_all
  qed
  show ?thesis
  proof (cases "a \<le> b \<and> unat b \<le> length (sval s x)")
    case False
    then show ?thesis
      using assms(5) Some gives_refl [OF assms(2-4)] by (auto simp: slicec_def sl not_le [symmetric] split: if_splits)
  next
    case True
    then have c: "\<not> (b < a \<or> length (sval s x) < unat b)" by auto
    have ll: "l = take (unat b - unat a) (drop (unat a) (sval s x))" using nc True by (simp add: l_def)
    show ?thesis
    proof (cases "nc = 0")
      case True
      then show ?thesis using assms(5) c Some gives_nil [OF assms(2,4)] ll l_def by (auto simp: slicec_def sl)
    next
      case False
      then have ne: "l \<noteq> []" using True nc by (auto simp: l_def)
      obtain q t where a: "alloc y s = (q, t)" by fastforce
      have "s' = assign x (Some q) t" "r = Inr ()" using assms(5) c Some False a by (auto simp: slicec_def sl)
      then show ?thesis using gives_new [OF assms(2) a y [OF ne] assms(4)] cy ne ll True by simp
    qed
  qed
qed

text \<open>\<open>addc\<close>: a new string, or the first one extended in place.\<close>

lemma join_ok:
  assumes "hs_ok hs" and "rep_ok (obj s p1)" and "rep_ok x2" and "join hs p1 (s_rep (obj s p1)) (s_rep x2) app s = (q, t)"
  obtains (fresh) y q' where "alloc y s = (q', t)" "q = Some q'" "rep_ok y" "s_ref y = 1"
      "chars (s_rep y) = chars (s_rep (obj s p1)) @ chars (s_rep x2)"
  | (place) c where "app" "q = Some p1" "t = fill p1 c s" "rep_ok ((obj s p1)\<lparr>s_rep := c\<rparr>)"
      "chars c = chars (s_rep (obj s p1)) @ chars (s_rep x2)"
proof (cases "s_rep (obj s p1)")
  case r1: (Runes a)
  define c where "c = a @ (case s_rep x2 of Runes b \<Rightarrow> b | Ascii b \<Rightarrow> cvtup b)"
  have ne: "c \<noteq> []" using ascii_rep(2) [OF assms(2) r1] by (simp add: c_def)
  have cc: "c = chars (s_rep (obj s p1)) @ chars (s_rep x2)" by (simp add: c_def r1 cvtup_def split: srep.split)
  let ?n = "if app then length c + length c div 4 else length c"
  have j: "join hs p1 (s_rep (obj s p1)) (s_rep x2) app s =
      (if app \<and> length c \<le> s_max (obj s p1) then (Some p1, fill p1 (Runes c) s)
       else (let (q, s) = alloc ((newrunes hs ?n)\<lparr>s_rep := Runes c\<rparr>) s in (Some q, s)))"
    by (simp only: join_def r1 srep.case Let_def c_def chars.simps)
  show ?thesis
  proof (cases "app \<and> length c \<le> s_max (obj s p1)")
    case True
    have "rep_ok ((obj s p1)\<lparr>s_rep := Runes c\<rparr>)"
      using assms(2) ne order_trans [OF mult_le_mono2 [of "length c" "s_max (obj s p1)" RUNESIZE]] True by (simp add: rep_ok_def r1)
    then show ?thesis using place [of "Runes c"] True assms(4) j cc by simp
  next
    case False
    note k = newrunes_ok [OF assms(1) _ ne, of ?n]
    show ?thesis
      by (rule fresh [of "(newrunes hs ?n)\<lparr>s_rep := Runes c\<rparr>" "the q"])
        (use assms(4) j False k cc in \<open>auto simp: alloc_def split: if_splits\<close>)
  qed
next
  case r1: (Ascii a)
  show ?thesis
  proof (cases "s_rep x2")
    case r2: (Runes b)
    let ?c = "cvtup a @ b"
    let ?n = "if app then length ?c + length ?c div 4 else length ?c"
    have ne: "?c \<noteq> []" using ascii_rep(2) [OF assms(3) r2] by simp
    note k = newrunes_ok [OF assms(1) _ ne, of ?n]
    have j: "join hs p1 (s_rep (obj s p1)) (s_rep x2) app s =
        (let (q, s) = alloc ((newrunes hs ?n)\<lparr>s_rep := Runes ?c\<rparr>) s in (Some q, s))"
      by (simp only: join_def r1 r2 srep.case Let_def chars.simps)
    show ?thesis
      by (rule fresh [of "(newrunes hs ?n)\<lparr>s_rep := Runes ?c\<rparr>" "the q"])
        (use assms(4) j k in \<open>auto simp: alloc_def r1 r2 cvtup_def split: if_splits\<close>)
  next
    case r2: (Ascii b)
    let ?c = "a @ b"
    let ?n = "if app then length ?c + length ?c div 4 else length ?c"
    have as: "\<forall>c\<in>set ?c. c < 0x80" using ascii_rep(1) [OF assms(2) r1] ascii_rep(1) [OF assms(3) r2] by auto
    have j: "join hs p1 (s_rep (obj s p1)) (s_rep x2) app s =
        (if app \<and> length ?c \<le> s_max (obj s p1) then (Some p1, fill p1 (Ascii ?c) s)
         else (let (q, s) = alloc ((newstring hs ?n)\<lparr>s_rep := Ascii ?c\<rparr>) s in (Some q, s)))"
      by (simp only: join_def r1 r2 srep.case Let_def chars.simps)
    show ?thesis
    proof (cases "app \<and> length ?c \<le> s_max (obj s p1)")
      case True
      have "rep_ok ((obj s p1)\<lparr>s_rep := Ascii ?c\<rparr>)" using assms(2) as True by (simp add: rep_ok_def r1)
      then show ?thesis using place [of "Ascii ?c"] True assms(4) j by (simp add: r1 r2)
    next
      case False
      note k = newstring_ok [OF assms(1) _ as, of ?n]
      show ?thesis
        by (rule fresh [of "(newstring hs ?n)\<lparr>s_rep := Ascii ?c\<rparr>" "the q"])
          (use assms(4) j False k in \<open>auto simp: alloc_def r1 r2 split: if_splits\<close>)
    qed
  qed
qed

lemma vars_kept: "dup hs p s = (q, t) \<Longrightarrow> v_vars t = v_vars s" "join hs p r1 r2 app s = (q, t) \<Longrightarrow> v_vars t = v_vars s"
  by (auto simp: dup_def join_def Let_def alloc_def split: srep.splits if_splits)

lemma gives_dup:
  assumes "hs_ok hs" and "vm_ok E s" and "solid s" and "y < length (v_vars s)" and "var s y = Some p" and "x < length (v_vars s)"
    and "dup hs p s = (q, t)"
  shows "gives s x (sval s y) (assign x q t)" and "\<exists>r. q = Some r \<and> r = length (v_objs s)"
proof -
  note v = vm_ok_var [OF assms(2,4,5)]
  note d = stringdup_ok [OF assms(1) v(3)]
  obtain r where a: "alloc (stringdup hs (s_rep (obj s p))) s = (r, t)" and q: "q = Some r"
    using assms(7) by (auto simp: dup_def split: prod.splits)
  have "chars (s_rep (obj s p)) = sval s y" using var_sval(1) [OF assms(4,5)] by simp
  moreover have "sval s y \<noteq> []" using assms(3-5) by (simp add: solid_def)
  ultimately show "gives s x (sval s y) (assign x q t)" using gives_new [OF assms(2) a d(1,2) assms(6)] d(3) q by simp
  show "\<exists>r. q = Some r \<and> r = length (v_objs s)" using a q by (auto simp: alloc_def)
qed

lemma addc_ok:
  assumes "hs_ok hs" and "vm_ok E s" and "solid s" and "m < length (v_vars s)" and "x < length (v_vars s)" and "d < length (v_vars s)"
  shows "gives s d (sval s m @ sval s x) (addc hs m x d s)"
proof -
  have new: "gives s d c (if q \<noteq> var s d then assign d q t else t)"
    if "gives s d c (assign d q t)" "q = Some (length (v_objs s))" for c q t
  proof -
    have "q \<noteq> var s d" using vm_ok_var(1) [OF assms(2,6), of "length (v_objs s)"] that(2) by auto
    with that(1) show ?thesis by simp
  qed
  show ?thesis
  proof (cases "var s m")
    case None
    then have m: "sval s m = []" using var_sval(2) [OF assms(4)] by blast
    show ?thesis
    proof (cases "var s x")
      case N: None
      then have "sval s x = []" using var_sval(2) [OF assms(5)] by blast
      moreover have "addc hs m x d s = (if None \<noteq> var s d then assign d None s else s)" using None N by (simp add: addc_def addstring_def)
      ultimately show ?thesis
        using m gives_nil [OF assms(2,6)] gives_refl [OF assms(2,3,6)] var_sval(2) [OF assms(6)] by (cases "var s d") auto
    next
      case (Some p2)
      obtain q t where d: "dup hs p2 s = (q, t)" by fastforce
      have "addc hs m x d s = (if q \<noteq> var s d then assign d q t else t)" using None Some d vars_kept(1) [OF d] by (simp add: addc_def addstring_def)
      then show ?thesis using new gives_dup [OF assms(1-3,5) Some assms(6) d] m by auto
    qed
  next
    case m: (Some p1)
    define app where "app = (\<not> s_ref (obj s p1) > 1 \<and> m = d)"
    note sm = var_sval(1) [OF assms(4) m] and v1 = vm_ok_var [OF assms(2,4) m]
    have ne: "sval s m \<noteq> []" using assms(3,4) m by (simp add: solid_def)
    show ?thesis
    proof (cases "var s x")
      case N: None
      then have x: "sval s x = []" using var_sval(2) [OF assms(5)] by blast
      have e: "addc hs m x d s = (case (if app then (Some p1, s) else dup hs p1 s) of (q, t) \<Rightarrow> if q \<noteq> var t d then assign d q t else t)"
        using m N by (simp add: addc_def addstring_def app_def Let_def)
      show ?thesis
      proof (cases app)
        case True
        then show ?thesis using e m x gives_refl [OF assms(2,3,6)] by (simp add: app_def)
      next
        case False
        obtain q t where d: "dup hs p1 s = (q, t)" by fastforce
        then show ?thesis using e False new gives_dup [OF assms(1-4) m assms(6) d] x vars_kept(1) [OF d] by auto
      qed
    next
      case (Some p2)
      note sx = var_sval(1) [OF assms(5) Some] and v2 = vm_ok_var [OF assms(2,5) Some]
      obtain q t where j: "join hs p1 (s_rep (obj s p1)) (s_rep (obj s p2)) app s = (q, t)" by fastforce
      have ap: "(if 1 < s_ref (obj s p1) then False else m = d) = app" by (simp add: app_def)
      have e: "addc hs m x d s = (if q \<noteq> var s d then assign d q t else t)"
        unfolding addc_def addstring_def m Some Let_def option.case ap j prod.case vars_kept(2) [OF j] ..
      from assms(1) v1(3) v2(3) j show ?thesis
      proof (cases rule: join_ok)
        case (fresh y q')
        have "gives s d (sval s m @ sval s x) (assign d q t)"
          using gives_new [OF assms(2) fresh(1,3,4) assms(6)] fresh(2,5) sm sx ne by simp
        then show ?thesis using e new fresh(1,2) by (auto simp: alloc_def)
      next
        case (place c)
        then have md: "m = d" "s_ref (obj s p1) \<le> 1" by (simp_all add: app_def)
        have "gives s d (chars c) (fill p1 c s)"
          by (rule gives_fill [OF assms(2,6)]) (use md m place sm ne in auto)
        then show ?thesis using e place md m sm sx by simp
      qed
    qed
  qed
qed

text \<open>\<open>cvtac\<close>: the whole runes in the bytes.\<close>

function wholerunes :: "bytes \<Rightarrow> u32 list" where
  "wholerunes p =
     (if p \<noteq> [] \<and> (UTFmax \<le> length p \<or> fullrune p (int (length p)))
      then fst (chartorune p) # wholerunes (drop (snd (chartorune p)) p) else [])"
  by pat_completeness auto
termination
  by (relation "measure length") (use chartorune_pos in \<open>auto simp: neq_Nil_conv Suc_le_eq\<close>)

declare wholerunes.simps [simp del]

lemma ascii_step:
  assumes "ucast (b :: u8) < Runeself"
  shows "chartorune (b # p) = (ucast b, 1)" "fullrune (b # p) (int (length (b # p)))"
proof -
  show "chartorune (b # p) = (ucast b, 1)" using assms by (simp add: chartorune_def Let_def Runeself_def)
  show "fullrune (b # p) (int (length (b # p)))" using assms by (simp add: fullrune_def Let_def Runeself_def)
qed

lemma countrunes_whole: "countrunes p = length (wholerunes p)"
proof (induction p rule: countrunes.induct)
  case (1 p)
  show ?case
  proof (cases p)
    case Nil
    then show ?thesis by (simp add: countrunes.simps wholerunes.simps)
  next
    case (Cons b q)
    then show ?thesis
      using 1 ascii_step [of b q] by (simp add: countrunes.simps [of "b # q"] wholerunes.simps [of "b # q"])
  qed
qed

lemma decode_whole: "decoderunes (length (wholerunes p)) p = wholerunes p"
proof (induction p rule: wholerunes.induct)
  case (1 p)
  then show ?case by (simp add: wholerunes.simps [of p] split_beta)
qed

lemma wholerunes_ascii:
  "\<forall>c\<in>set a. ucast c < Runeself \<Longrightarrow> wholerunes (a @ p) = map ucast a @ wholerunes p"
proof (induction a)
  case (Cons b a)
  then show ?case using ascii_step [of b "a @ p"] by (simp add: wholerunes.simps [of "b # a @ p"])
qed simp

lemma c2string_eq:
  "c2string hs cs =
     (if \<forall>c\<in>set cs. ucast c < Runeself then (newstring hs (length cs))\<lparr>s_rep := Ascii cs\<rparr>
      else (newrunes hs (length (wholerunes cs)))\<lparr>s_rep := (if wholerunes cs = [] then Ascii [] else Runes (wholerunes cs))\<rparr>)"
proof -
  let ?a = "takeWhile (\<lambda>c. ucast c < Runeself) cs"
  have as: "\<forall>c\<in>set ?a. ucast c < Runeself" by (blast dest: set_takeWhileD)
  have sp: "?a @ drop (length ?a) cs = cs" by (simp flip: dropWhile_eq_drop)
  have w: "wholerunes cs = map ucast ?a @ wholerunes (drop (length ?a) cs)"
    using wholerunes_ascii [OF as, of "drop (length ?a) cs"] unfolding sp .
  have n: "length ?a + countrunes (drop (length ?a) cs) = length (wholerunes cs)" by (simp add: w countrunes_whole)
  have l: "length ?a = length cs \<longleftrightarrow> (\<forall>c\<in>set cs. ucast c < Runeself)"
  proof
    assume "length ?a = length cs"
    then have "?a = cs" using sp by simp
    then show "\<forall>c\<in>set cs. ucast c < Runeself" using as by simp
  next
    assume "\<forall>c\<in>set cs. ucast c < Runeself"
    then have "?a = cs" by (simp add: takeWhile_eq_all_conv)
    then show "length ?a = length cs" by (rule arg_cong)
  qed
  show ?thesis
    unfolding c2string_def Let_def n decode_whole l by (simp add: newrunes_def newstring_def Let_def)
qed

lemma c2string_chars: "chars (s_rep (c2string hs cs)) = wholerunes cs"
  using wholerunes_ascii [of cs "[]"] by (simp add: c2string_eq wholerunes.simps [of "[]"])

lemma c2string_ok:
  assumes "hs_ok hs"
  shows "s_ref (c2string hs cs) = 1" "wholerunes cs \<noteq> [] \<Longrightarrow> rep_ok (c2string hs cs)"
proof -
  have small: "c < 0x80" if "ucast c < Runeself" for c :: u8
    using that unsigned_less [of c, where ?'a = nat]
    by (simp add: Runeself_def word_less_nat_alt unsigned_ucast_eq take_bit_nat_eq_self)
  show "s_ref (c2string hs cs) = 1" by (simp add: c2string_eq newrunes_def newstring_def Let_def)
  show "rep_ok (c2string hs cs)" if "wholerunes cs \<noteq> []"
    using newstring_ok(1) [OF assms order_refl, of cs] newrunes_ok(1) [OF assms order_refl that] that small by (auto simp: c2string_eq)
qed

lemma cvtac_ok:
  assumes "hs_ok hs" and "vm_ok E s" and "solid s" and "d < length (v_vars s)" and "\<And>cs. a = Some cs \<Longrightarrow> wholerunes cs \<noteq> []"
  shows "gives s d (case a of None \<Rightarrow> [] | Some cs \<Rightarrow> wholerunes cs) (cvtac hs a d s)"
proof (cases a)
  case None
  then show ?thesis using gives_nil [OF assms(2,4)] by (simp add: cvtac_def)
next
  case (Some cs)
  obtain q t where al: "alloc (c2string hs cs) s = (q, t)" by fastforce
  note c = c2string_ok [OF assms(1), of cs]
  show ?thesis using gives_new [OF assms(2) al c(2) c(1) assms(4)] assms(5) Some al c2string_chars by (simp add: cvtac_def)
qed

text \<open>\<open>insc\<close>: the string stored into is the variable's alone, and is wide if the character needs it.\<close>

lemma insc_target_ok:
  assumes "hs_ok hs" and "vm_ok E s" and "solid s" and "x < length (v_vars s)" and "insc_target hs x expand s = (p, t)"
  shows "vm_ok (if var s x = None then add_mset p E else E) t"
    and "p < length (v_objs t)" "s_ref (obj t p) = 1" "rep_ok (obj t p)" "chars (s_rep (obj t p)) = sval s x"
    and "v_vars t = (if var s x = None then v_vars s else (v_vars s)[x := Some p])" "sval t = sval s"
    and "expand \<Longrightarrow> (\<exists>rs. s_rep (obj t p) = Runes rs) \<or> s_rep (obj t p) = Ascii [] \<and> RUNESIZE * s_max (obj t p) \<le> s_cap (obj t p)"
proof -
  have "vm_ok (if var s x = None then add_mset p E else E) t
    \<and> p < length (v_objs t) \<and> s_ref (obj t p) = 1 \<and> rep_ok (obj t p) \<and> chars (s_rep (obj t p)) = sval s x
    \<and> v_vars t = (if var s x = None then v_vars s else (v_vars s)[x := Some p]) \<and> sval t = sval s
    \<and> (expand \<longrightarrow> (\<exists>rs. s_rep (obj t p) = Runes rs) \<or> s_rep (obj t p) = Ascii [] \<and> RUNESIZE * s_max (obj t p) \<le> s_cap (obj t p))"
  proof (cases "var s x")
    case None
    define ns where "ns = newstring hs 0"
    define y where "y = (if expand then ns\<lparr>s_max := s_max ns div RUNESIZE\<rparr> else ns)"
    have al: "alloc y s = (p, t)" using assms(5) None unfolding insc_target_def y_def ns_def Let_def by (simp split: if_splits)
    have e: "s_rep ns = Ascii []" by (simp add: ns_def newstring_def Let_def)
    then have "ns\<lparr>s_rep := Ascii []\<rparr> = ns" by simp
    then have n: "rep_ok ns" "s_ref ns = 1" using newstring_ok [OF assms(1), of "[]" 0] by (simp_all add: ns_def)
    have "RUNESIZE * (s_max ns div RUNESIZE) \<le> s_max ns" by simp
    moreover have "s_max ns \<le> s_cap ns" using n(1) e by (simp add: rep_ok_def)
    ultimately have m: "RUNESIZE * (s_max ns div RUNESIZE) \<le> s_cap ns" by (rule order_trans)
    have "s_max ns div RUNESIZE \<le> s_cap ns" by (rule order_trans [OF div_le_dividend]) fact
    then have y: "rep_ok y" "s_ref y = 1" using n e by (auto simp: y_def rep_ok_def)
    note a = vm_ok_new [OF assms(2) al y y(1)]
    have "sval s x = []" by (rule var_sval(2) [OF assms(4) None])
    then show ?thesis
      using a y None sval_alloc [OF assms(2) al] e m by (auto simp: y_def)
  next
    case (Some p0)
    note v = vm_ok_var [OF assms(2,4) Some] and sv = var_sval(1) [OF assms(4) Some]
    have ne: "chars (s_rep (obj s p0)) \<noteq> []" using assms(3,4) Some sv by (auto simp: solid_def)
    show ?thesis
    proof (cases "s_ref (obj s p0) > 1 \<or> (expand \<and> slen (s_rep (obj s p0)) > 0)")
      case True
      define y where "y = (case s_rep (obj s p0) of
          Ascii b \<Rightarrow> if expand \<and> length b > 0 then (newrunes hs (length b))\<lparr>s_rep := Runes (cvtup b)\<rparr> else stringdup hs (Ascii b)
        | Runes r \<Rightarrow> stringdup hs (Runes r))"
      obtain u where al: "alloc y s = (p, u)" and t: "t = setvar x (Some p) (destroy (Some p0) u)"
        using assms(5) Some True by (auto simp: insc_target_def splitc_def y_def Let_def split: prod.splits)
      have y: "rep_ok y \<and> s_ref y = 1 \<and> chars (s_rep y) = chars (s_rep (obj s p0)) \<and> (expand \<longrightarrow> (\<exists>rs. s_rep y = Runes rs))"
      proof (cases "s_rep (obj s p0)")
        case (Ascii b)
        then show ?thesis
          using ne newrunes_ok [OF assms(1), of "cvtup b" "length b"] stringdup_ok [OF assms(1) v(3)]
          by (auto simp: y_def cvtup_def)
      next
        case (Runes r)
        then show ?thesis using stringdup_ok [OF assms(1) v(3)] by (simp add: y_def)
      qed
      note a = vm_ok_new [OF assms(2) al _ _ conjunct1 [OF y]]
      have pu: "var u x = Some p0" using a(2) y Some by simp
      then have as: "t = assign x (Some p) u" by (simp add: t assign_def)
      note n = assign_new [OF assms(2) al _ _ assms(4), folded as]
      have "p \<noteq> p0" using a(3) y v(1) by simp
      then have "obj t p = obj u p" by (simp add: t destroy_def)
      then have o: "obj t p = y" using a(4) y by simp
      have len: "p < length (v_objs t)" using a(3,6) y by (simp add: t)
      have "sval t = (sval s)(x := sval s x)" using n(2) y sv by simp
      then have "sval t = sval s" by (simp only: fun_upd_triv)
      with n(1,3) y o len sv Some show ?thesis by simp
    next
      case False
      then have t: "p = p0" "t = s" using assms(5) Some by (auto simp: insc_target_def)
      have "\<exists>rs. s_rep (obj s p0) = Runes rs" if expand
        using False that ne by (cases "s_rep (obj s p0)") auto
      moreover have "(v_vars s)[x := Some p0] = v_vars s" using Some by (metis list_update_id)
      ultimately show ?thesis using t assms(2) Some v False sv by auto
    qed
  qed
  then show "vm_ok (if var s x = None then add_mset p E else E) t"
    and "p < length (v_objs t)" "s_ref (obj t p) = 1" "rep_ok (obj t p)" "chars (s_rep (obj t p)) = sval s x"
    and "v_vars t = (if var s x = None then v_vars s else (v_vars s)[x := Some p])" "sval t = sval s"
    and "expand \<Longrightarrow> (\<exists>rs. s_rep (obj t p) = Runes rs) \<or> s_rep (obj t p) = Ascii [] \<and> RUNESIZE * s_max (obj t p) \<le> s_cap (obj t p)"
    by blast+
qed

definition put :: "nat \<Rightarrow> u32 \<Rightarrow> u32 list \<Rightarrow> u32 list" where
  "put v r cs = (if v < length cs then cs[v := r] else cs @ [r])"

lemma put_nonempty [simp]: "put v r cs \<noteq> []"
  by (auto simp: put_def)

lemma insc_store_cases:
  assumes "hs_ok hs" and "rep_ok (obj t p)" and "insc_store hs p v r expand t = (res, s')" and "expand \<longleftrightarrow> Runeself \<le> r"
    and "expand \<longrightarrow> (\<exists>rs. s_rep (obj t p) = Runes rs) \<or> s_rep (obj t p) = Ascii [] \<and> RUNESIZE * s_max (obj t p) \<le> s_cap (obj t p)"
  defines "cs \<equiv> chars (s_rep (obj t p))"
  obtains (bounds) "length cs < v" "res = Inl exBounds" "s' = t"
  | (place) c where "v \<le> length cs" "res = Inr p" "s' = fill p c t" "rep_ok ((obj t p)\<lparr>s_rep := c\<rparr>)" "chars c = put v r cs"
  | (fresh) y q where "v \<le> length cs" "res = Inr q" "alloc y t = (q, s')" "rep_ok y" "s_ref y = 1" "chars (s_rep y) = put v r cs"
proof (cases "slen (s_rep (obj t p)) < 0 \<or> expand")
  case wide: True
  define rs where "rs = (case s_rep (obj t p) of Ascii _ \<Rightarrow> [] | Runes rs \<Rightarrow> rs)"
  have rs: "rs = cs" using wide assms(5) by (cases "s_rep (obj t p)") (auto simp: rs_def cs_def)
  have cap: "RUNESIZE * s_max (obj t p) \<le> s_cap (obj t p)" "RUNESIZE * length cs \<le> s_cap (obj t p)"
    using wide assms(2,5) by (cases "s_rep (obj t p)"; auto simp: rep_ok_def cs_def)+
  let ?ns = "newstring hs ((v + 1 + v div 4) * RUNESIZE)"
  have st: "insc_store hs p v r expand t =
      (if v < length rs then (Inr p, fill p (Runes (rs[v := r])) t)
       else if v = length rs \<and> v < s_max (obj t p) then (Inr p, fill p (Runes (rs @ [r])) t)
       else if v \<noteq> length rs then (Inl exBounds, t)
       else (let (q, s) = alloc (?ns\<lparr>s_rep := Runes (rs @ [r]), s_max := s_max ?ns div RUNESIZE\<rparr>) t in (Inr q, s)))"
    using wide unfolding insc_store_def Let_def rs_def [symmetric] by (simp only: if_True)
  show ?thesis
  proof (cases "v < length cs \<or> v = length cs \<and> v < s_max (obj t p)")
    case True
    have "rep_ok ((obj t p)\<lparr>s_rep := Runes (put v r cs)\<rparr>)"
    proof -
      have "RUNESIZE * length (put v r cs) \<le> s_cap (obj t p)"
        using True cap(2) order_trans [OF mult_le_mono2 [of "Suc (length cs)" "s_max (obj t p)" RUNESIZE] cap(1)] by (auto simp: put_def)
      then show ?thesis using cap(1) by (simp add: rep_ok_def)
    qed
    then show ?thesis using place [of "Runes (put v r cs)"] True assms(3) st rs by (auto simp: put_def split: if_splits)
  next
    case False
    show ?thesis
    proof (cases "v = length cs")
      case True
      have "rep_ok (?ns\<lparr>s_rep := Runes (cs @ [r]), s_max := s_max ?ns div RUNESIZE\<rparr>)"
        by (rule newstring_runes_ok(1) [OF assms(1)]) (simp_all add: True RUNESIZE_def)
      moreover obtain q where "alloc (?ns\<lparr>s_rep := Runes (cs @ [r]), s_max := s_max ?ns div RUNESIZE\<rparr>) t = (q, s')" "res = Inr q"
        using assms(3) True False unfolding st rs by (simp split: prod.splits)
      ultimately show ?thesis
        using fresh newstring_ok(2) [OF assms(1), of "[]" "(v + 1 + v div 4) * RUNESIZE"] True by (simp add: put_def)
    next
      case ne: False
      then show ?thesis using bounds False assms(3) st rs by auto
    qed
  qed
next
  case narrow: False
  define b where "b = (case s_rep (obj t p) of Ascii b \<Rightarrow> b | Runes _ \<Rightarrow> [])"
  have ab: "s_rep (obj t p) = Ascii b"
    using narrow ascii_rep(2) [OF assms(2)] by (cases "s_rep (obj t p)") (auto simp: b_def)
  have cb: "cs = map ucast b" by (simp add: cs_def ab)
  have "\<not> Runeself \<le> r" using narrow assms(4) by blast
  then have r: "r \<le> 0x7F" by (simp add: Runeself_def word_le_nat_alt)
  have rr: "ucast (ucast r :: u8) = r" by (rule ascii_back [OF r])
  have r8: "(ucast r :: u8) < 0x80"
    using r by (simp add: word_le_nat_alt word_less_nat_alt unsigned_ucast_eq take_bit_nat_eq_self)
  let ?ns = "newstring hs (v + 1 + v div 4)"
  have st: "insc_store hs p v r expand t =
      (if v < length b then (Inr p, fill p (Ascii (b[v := ucast r])) t)
       else if v = length b \<and> v < s_max (obj t p) then (Inr p, fill p (Ascii (b @ [ucast r])) t)
       else if v \<noteq> length b then (Inl exBounds, t)
       else (let (q, s) = alloc (?ns\<lparr>s_rep := Ascii (b @ [ucast r])\<rparr>) t in (Inr q, s)))"
    using narrow unfolding insc_store_def Let_def b_def [symmetric] by (simp only: if_False)
  have bs: "\<forall>c\<in>set b. c < 0x80" by (rule ascii_rep(1) [OF assms(2) ab])
  define b' where "b' = (if v < length b then b[v := ucast r] else b @ [ucast r])"
  have bs': "\<forall>c\<in>set b'. c < 0x80" using bs r8 by (auto simp: b'_def dest!: subsetD [OF set_update_subset_insert])
  have put: "map ucast b' = put v r cs" using rr by (simp add: b'_def put_def cb map_update)
  show ?thesis
  proof (cases "v < length b \<or> v = length b \<and> v < s_max (obj t p)")
    case True
    then have "rep_ok ((obj t p)\<lparr>s_rep := Ascii b'\<rparr>)" using assms(2) bs' by (auto simp: rep_ok_def ab b'_def)
    then show ?thesis using place [of "Ascii b'"] True assms(3) st put cb by (auto simp: b'_def split: if_splits)
  next
    case False
    show ?thesis
    proof (cases "v = length b")
      case True
      have "rep_ok (?ns\<lparr>s_rep := Ascii b'\<rparr>)" by (rule newstring_ok(1) [OF assms(1) _ bs']) (simp add: True b'_def)
      moreover have b': "b @ [ucast r] = b'" using True by (simp add: b'_def)
      moreover obtain q where "alloc (?ns\<lparr>s_rep := Ascii b'\<rparr>) t = (q, s')" "res = Inr q"
        using assms(3) True False unfolding st b' by (simp split: prod.splits)
      ultimately show ?thesis
        using fresh newstring_ok(2) [OF assms(1), of "[]" "v + 1 + v div 4"] True put cb by simp
    next
      case ne: False
      then show ?thesis using bounds False assms(3) st cb by auto
    qed
  qed
qed

lemma insc_ok:
  assumes "hs_ok hs" and "vm_ok E s" and "solid s" and "x < length (v_vars s)" and "insc hs x v r s = (res, s')"
  shows "(if unat v \<le> length (sval s x) then res = Inr () \<and> gives s x (put (unat v) r (sval s x)) s'
     else res = Inl exBounds \<and> gives s x (sval s x) s')"
proof -
  obtain p t where t: "insc_target hs x (Runeself \<le> r) s = (p, t)" by fastforce
  note k = insc_target_ok [OF assms(1-4) t]
  obtain q u where st: "insc_store hs p (unat v) r (Runeself \<le> r) t = (q, u)" by fastforce
  have e: "(case q of Inl e \<Rightarrow> (Inl e, u) | Inr p \<Rightarrow> (Inr (), if Some p \<noteq> var u x then assign x (Some p) u else u)) = (res, s')"
    using assms(5) t st by (auto simp: insc_def Let_def split: sum.splits)
  have vx: "var s x \<noteq> None \<Longrightarrow> var t x = Some p" "var s x = None \<Longrightarrow> var t x = None" using k(6) assms(4) by auto
  have xt: "x < length (v_vars t)" using k(6) assms(4) by auto
  have gt: "gives s x c w" if "gives t x c w" for c w
    using that k(6,7) by (auto simp: gives_def split: if_splits)
  define F where "F = (if var s x = None then add_mset p E else E)"
  have okF: "vm_ok F t" using k(1) by (simp add: F_def)
  have k8: "Runeself \<le> r \<longrightarrow> (\<exists>rs. s_rep (obj t p) = Runes rs) \<or> s_rep (obj t p) = Ascii [] \<and> RUNESIZE * s_max (obj t p) \<le> s_cap (obj t p)"
    using k(8) by blast
  from assms(1) k(4) st refl k8 show ?thesis
  proof (cases rule: insc_store_cases)
    case bounds
    have "gives t x (sval t x) t"
    proof (rule givesI [OF okF])
      show "v_vars t = (v_vars t)[x := var t x]" by simp
      show "var t x \<noteq> None \<Longrightarrow> sval t x \<noteq> []" using vx k(7) assms(3,4) by (cases "var s x") (auto simp: solid_def)
    qed simp
    then show ?thesis using bounds e gt k(5,7) by auto
  next
    case (place c)
    have "gives t x (chars c) s'"
    proof (cases "var s x")
      case None
      have s': "s' = assign x (Some p) (fill p c t)" using e place vx(2) [OF None] by simp
      have f: "vm_ok (opt_ref (Some p) + E) (fill p c t)" using vm_ok_fill [OF okF k(2) place(4)] None by (simp add: F_def)
      have "Some p \<notin> set (v_vars t)" by (rule sole_held [OF okF _ k(3)]) (simp add: F_def None)
      then have nv: "\<And>y. y < length (v_vars t) \<Longrightarrow> var t y \<noteq> Some p" by (metis nth_mem)
      have sf: "sval (fill p c t) = sval t" using sval_fill [where x = x and r = c, OF k(2)] nv xt by auto
      show ?thesis unfolding s'
      proof (rule givesI [where w = "Some p"])
        show "vm_ok E (assign x (Some p) (fill p c t))" by (rule vm_ok_assign [OF f]) (simp add: xt)
        show "v_vars (assign x (Some p) (fill p c t)) = (v_vars t)[x := Some p]" by (simp add: assign_eq)
        show "sval (assign x (Some p) (fill p c t)) = (sval t)(x := chars c)"
          using sval_assign [of x "fill p c t" "Some p"] xt sf k(2) by (simp add: obj_fill)
        show "chars c \<noteq> []" using place(5) by simp
      qed
    next
      case (Some p0)
      then have "var t x = Some p" using vx(1) by simp
      moreover from this have "s' = fill p c t" using e place by simp
      ultimately show ?thesis
        using gives_fill [OF okF xt _ _ place(4)] k(3) place(5) by simp
    qed
    then show ?thesis using place e gt k(5) by (auto split: if_splits)
  next
    case (fresh y r')
    have q: "r' = length (v_objs t)" using fresh(3) by (auto simp: alloc_def)
    have uv: "v_vars u = v_vars t" using fresh(3) by (auto simp: alloc_def)
    have "Some r' \<noteq> var u x"
      using vm_ok_var(1) [OF okF xt, of r'] q uv by auto
    then have "s' = assign x (Some r') u" using e fresh by simp
    then have "gives t x (put (unat v) r (sval s x)) s'"
      using gives_new [OF okF fresh(3,4,5) xt] fresh(6) k(5) by simp
    then show ?thesis using fresh e gt k(5) by (auto split: if_splits)
  qed
qed

section \<open>Reading a string\<close>

lemma narrow_int:
  fixes c :: u8
  assumes "c < 0x80"
  shows "sint c = uint c" "sint (ucast c :: u32) = uint c" "runetochar (ucast c) = [c]"
proof -
  have u: "uint c < 128" "0 \<le> uint c" using assms by (simp_all add: word_less_def)
  have w: "uint (ucast c :: u32) = uint c" using u by (simp add: unsigned_ucast_eq take_bit_int_eq_self)
  have "signed_take_bit n (uint c) = uint c" if "7 \<le> n" for n
  proof (rule signed_take_bit_int_eq_self)
    have "(2 :: int) ^ 7 \<le> 2 ^ n" using that by (rule power_increasing) simp
    then show "uint c < 2 ^ n" using u by simp
    show "- (2 ^ n) \<le> uint c" using u(2) by (rule order_trans [rotated]) simp
  qed
  from this [of 7] this [of 31] show "sint c = uint c" "sint (ucast c :: u32) = uint c" unfolding sint_uint w by simp_all
  have "(ucast c :: u32) \<le> 0x7F" using u w by (simp add: word_le_def)
  then show "runetochar (ucast c) = [c]" by (simp add: runetochar_eq)
qed

lemma narrow_chars:
  assumes "\<forall>c\<in>set b. c < (0x80 :: u8)"
  shows "map (sint :: u32 \<Rightarrow> int) (map ucast b) = map uint b" "map sint b = map uint b" "concat (map runetochar (map ucast b)) = b"
  using assms by (induction b) (simp_all add: narrow_int)

text \<open>The reading instructions of the abstract machine.\<close>

definition order_of :: "u32 list \<Rightarrow> u32 list \<Rightarrow> int" where
  "order_of a b = (let c = differ (map sint a) (map sint b) in if c \<noteq> 0 then c else int (length a) - int (length b))"

lemma stringcmp_chars:
  assumes "rep_ok x" and "rep_ok y" shows "stringcmp (s_rep x) (s_rep y) = order_of (chars (s_rep x)) (chars (s_rep y))"
proof -
  have n: "map sint (map ucast b :: u32 list) = map uint b" "map sint b = map uint b" if "s_rep x = Ascii b \<or> s_rep y = Ascii b" for b
    using that narrow_chars [of b] ascii_rep(1) [OF assms(1)] ascii_rep(1) [OF assms(2)] by blast+
  show ?thesis
    by (cases "s_rep x"; cases "s_rep y") (simp_all add: stringcmp_def order_of_def Let_def n del: map_map map_eq_conv)
qed

lemma differ_refl [simp]: "differ a a = 0"
  by (induction a) simp_all

lemma differ_nil [simp]: "differ a [] = 0"
  by (cases a) simp_all

lemma strcmp_vars_ok:
  assumes "vm_ok E s" and "x < length (v_vars s)" and "y < length (v_vars s)"
  shows "strcmp_vars x y s = order_of (sval s x) (sval s y)"
proof -
  have nil: "stringcmp (Ascii []) r = order_of [] (chars r)" "stringcmp r (Ascii []) = order_of (chars r) []" for r
    by (cases r; simp add: stringcmp_def order_of_def)+
  show ?thesis
    using assms(2,3) vm_ok_var(3) [OF assms(1)] stringcmp_chars
    by (cases "var s x"; cases "var s y") (auto simp: strcmp_vars_def var_sval Let_def nil order_of_def [of c c for c])
qed

text \<open>The order is the lexicographic one of the characters as integers.\<close>

lemma differ_lex:
  "(differ a b < 0 \<or> differ a b = 0 \<and> length a < length b) \<longleftrightarrow> (a, b) \<in> lexord {(i, j). i < j}"
proof (induction a arbitrary: b)
  case Nil
  then show ?case by (cases b) simp_all
next
  case (Cons x a)
  then show ?case by (cases b) auto
qed

lemma differ_eq: "differ a b = 0 \<and> length a = length b \<longleftrightarrow> a = b"
  by (induction a b rule: differ.induct) auto

lemma order_of_lex:
  "order_of a b < 0 \<longleftrightarrow> (map sint a, map sint b) \<in> lexord {(i, j). i < j}" "order_of a b = 0 \<longleftrightarrow> a = b"
proof -
  have d: "differ i j \<in> {-1, 0, 1}" for i j by (induction i j rule: differ.induct) auto
  show "order_of a b < 0 \<longleftrightarrow> (map sint a, map sint b) \<in> lexord {(i, j). i < j}"
    using differ_lex [of "map sint a" "map sint b", symmetric] by (auto simp: order_of_def Let_def)
  have "inj (sint :: u32 \<Rightarrow> int)" by (rule injI) (rule signed_word_eqI)
  then have "map sint a = map sint b \<longleftrightarrow> a = b" by (simp add: inj_map_eq_map)
  then show "order_of a b = 0 \<longleftrightarrow> a = b"
    using differ_eq [of "map sint a" "map sint b"] by (auto simp: order_of_def Let_def split: if_splits)
qed

lemma indc_ok:
  assumes "vm_ok E s" and "solid s" and "x < length (v_vars s)"
  shows "indc x v s = (if sval s x = [] then Inl exNilref else if length (sval s x) \<le> unat v then Inl exBounds
    else Inr (sint (sval s x ! unat v)))"
proof (cases "var s x")
  case None
  then show ?thesis using var_sval(2) [OF assms(3)] by (simp add: indc_def)
next
  case (Some p)
  note v = vm_ok_var [OF assms(1,3) Some] and sv = var_sval(1) [OF assms(3) Some]
  have ne: "sval s x \<noteq> []" using assms(2,3) Some by (simp add: solid_def)
  show ?thesis
  proof (cases "s_rep (obj s p)")
    case (Ascii b)
    have "sint (b ! i) = sint (map ucast b ! i :: u32)" if "i < length b" for i
      using narrow_int [of "b ! i"] ascii_rep(1) [OF v(3) Ascii] that by simp
    then show ?thesis using Some Ascii sv ne by (auto simp: indc_def not_le)
  qed (use Some sv ne in \<open>simp add: indc_def\<close>)
qed

lemma lenc_ok: "x < length (v_vars s) \<Longrightarrow> lenc x s = int (length (sval s x))"
  by (cases "var s x"; cases "s_rep (obj s (the (var s x)))") (simp_all add: lenc_def var_sval Let_def)

lemma cvtca_ok:
  assumes "vm_ok E s" and "x < length (v_vars s)" shows "cvtca x s = encs (sval s x)"
proof (cases "var s x")
  case (Some p)
  show ?thesis
    using ascii_rep(1) [OF vm_ok_var(3) [OF assms Some]] narrow_chars(3) var_sval(1) [OF assms(2) Some] Some
    by (cases "s_rep (obj s p)") (simp_all add: cvtca_def)
qed (use var_sval(2) [OF assms(2)] in \<open>simp add: cvtca_def\<close>)

section \<open>Programs\<close>

datatype inst =
  Insc nat u64 u32
| Slicec nat u64 u64
| Addc nat nat nat
| Movp nat nat
| Cvtac "bytes option" nat
| Indc nat u64
| Lenc nat
| Cvtca nat
| Cmpc nat nat

datatype outcome = Done | Fail exn | Num int | Bytes bytes

definition outc :: "('a \<Rightarrow> outcome) \<Rightarrow> 'a xres \<Rightarrow> outcome" where
  "outc f r = (case r of Inl e \<Rightarrow> Fail e | Inr a \<Rightarrow> f a)"

primrec dis :: "(nat \<Rightarrow> nat) \<Rightarrow> inst \<Rightarrow> vm \<Rightarrow> outcome \<times> vm" where
  "dis hs (Insc x v r) s = (let (q, s) = insc hs x v r s in (outc (\<lambda>_. Done) q, s))"
| "dis hs (Slicec x a b) s = (let (q, s) = slicec hs x a b s in (outc (\<lambda>_. Done) q, s))"
| "dis hs (Addc m x d) s = (Done, addc hs m x d s)"
| "dis hs (Movp x d) s = (Done, movp x d s)"
| "dis hs (Cvtac a d) s = (Done, cvtac hs a d s)"
| "dis hs (Indc x v) s = (outc Num (indc x v s), s)"
| "dis hs (Lenc x) s = (Num (lenc x s), s)"
| "dis hs (Cvtca x) s = (Bytes (cvtca x s), s)"
| "dis hs (Cmpc x y) s = (Num (strcmp_vars x y s), s)"

text \<open>The same on values: every variable has a list of runes of its own.\<close>

primrec denote :: "inst \<Rightarrow> (nat \<Rightarrow> u32 list) \<Rightarrow> outcome \<times> (nat \<Rightarrow> u32 list)" where
  "denote (Insc x v r) f = (if unat v \<le> length (f x) then (Done, f(x := put (unat v) r (f x))) else (Fail exBounds, f))"
| "denote (Slicec x a b) f =
     (if a \<le> b \<and> unat b \<le> length (f x) then (Done, f(x := take (unat b - unat a) (drop (unat a) (f x)))) else (Fail exBounds, f))"
| "denote (Addc m x d) f = (Done, f(d := f m @ f x))"
| "denote (Movp x d) f = (Done, f(d := f x))"
| "denote (Cvtac a d) f = (Done, f(d := (case a of None \<Rightarrow> [] | Some cs \<Rightarrow> wholerunes cs)))"
| "denote (Indc x v) f =
     (if f x = [] then Fail exNilref else if length (f x) \<le> unat v then Fail exBounds else Num (sint (f x ! unat v)), f)"
| "denote (Lenc x) f = (Num (int (length (f x))), f)"
| "denote (Cvtca x) f = (Bytes (encs (f x)), f)"
| "denote (Cmpc x y) f = (Num (order_of (f x) (f y)), f)"

text \<open>
  What an instruction may name: the variables of the program; and \<open>cvtac\<close> is not given bytes without a single
  whole rune, from which it would make an empty string that is not \<open>H\<close>.
\<close>

primrec fine :: "nat \<Rightarrow> inst \<Rightarrow> bool" where
  "fine n (Insc x v r) = (x < n)"
| "fine n (Slicec x a b) = (x < n)"
| "fine n (Addc m x d) = (m < n \<and> x < n \<and> d < n)"
| "fine n (Movp x d) = (x < n \<and> d < n)"
| "fine n (Cvtac a d) = (d < n \<and> (case a of None \<Rightarrow> True | Some cs \<Rightarrow> wholerunes cs \<noteq> []))"
| "fine n (Indc x v) = (x < n)"
| "fine n (Lenc x) = (x < n)"
| "fine n (Cvtca x) = (x < n)"
| "fine n (Cmpc x y) = (x < n \<and> y < n)"

definition ready :: "(nat \<Rightarrow> nat) \<Rightarrow> nat \<Rightarrow> vm \<Rightarrow> bool" where
  "ready hs n s \<longleftrightarrow> hs_ok hs \<and> (\<exists>E. vm_ok E s) \<and> solid s \<and> length (v_vars s) = n"

lemma readyI:
  assumes "ready hs n s" and "gives s x c s'" shows "ready hs n s' \<and> sval s' = (sval s)(x := c)"
  using assms gives_solid [OF assms(2)] by (auto simp: ready_def gives_def)

lemma dis_step:
  assumes "ready hs n s" and "fine n i" and "dis hs i s = (r, s')"
  shows "ready hs n s' \<and> denote i (sval s) = (r, sval s')"
proof -
  obtain E where k: "hs_ok hs" "vm_ok E s" "solid s" "length (v_vars s) = n" using assms(1) by (auto simp: ready_def)
  show ?thesis
  proof (cases i)
    case (Insc x v c)
    obtain q t where t: "insc hs x v c s = (q, t)" by fastforce
    show ?thesis
      using assms(2,3) Insc t insc_ok [OF k(1-3) _ t] k(4) readyI [OF assms(1), of x _ t]
      by (auto simp: outc_def fun_upd_idem split: if_splits)
  next
    case (Slicec x a b)
    obtain q t where t: "slicec hs x a b s = (q, t)" by fastforce
    show ?thesis
      using assms(2,3) Slicec t slicec_ok [OF k(1-3) _ t] k(4) readyI [OF assms(1), of x _ t]
      by (auto simp: outc_def fun_upd_idem split: if_splits)
  next
    case (Addc m x d)
    then show ?thesis using assms(2,3) addc_ok [OF k(1-3), of m x d] k(4) readyI [OF assms(1)] by auto
  next
    case (Movp x d)
    then show ?thesis using assms(2,3) movp_ok [OF k(2,3), of x d] k(4) readyI [OF assms(1)] by auto
  next
    case (Cvtac a d)
    then have w: "\<And>cs. a = Some cs \<Longrightarrow> wholerunes cs \<noteq> []" "d < length (v_vars s)" "r = Done" "s' = cvtac hs a d s"
      using assms(2,3) k(4) by auto
    show ?thesis using readyI [OF assms(1) cvtac_ok [OF k(1-3) w(2,1)]] w(3,4) Cvtac by simp
  next
    case (Indc x v)
    then show ?thesis using assms indc_ok [OF k(2,3), of x v] k(4) by (auto simp: outc_def)
  next
    case (Lenc x)
    then show ?thesis using assms lenc_ok [of x s] k(4) by auto
  next
    case (Cvtca x)
    then show ?thesis using assms cvtca_ok [OF k(2), of x] k(4) by auto
  next
    case (Cmpc x y)
    then show ?thesis using assms strcmp_vars_ok [OF k(2), of x y] k(4) by auto
  qed
qed

interpretation strings: simulation "dis hs" denote sval "ready hs n" "fine n" for hs n
  by unfold_locales (rule dis_step)

section \<open>The properties\<close>

text \<open>The program's start, and the sizes the pool allocator gives on a 64-bit host (quanta 127, 24 bytes of header and tail).\<close>

definition nostrings :: "nat \<Rightarrow> vm" where
  "nostrings n = \<lparr>v_objs = [], v_vars = replicate n None, v_fault = False\<rparr>"

definition poolsize :: "nat \<Rightarrow> nat" where
  "poolsize n = (n + 24 + 127) div 128 * 128 - 24"

lemma poolsize_ok: "hs_ok poolsize"
  unfolding hs_ok_def poolsize_def by (intro allI) presburger

lemma ready_start: "hs_ok hs \<Longrightarrow> ready hs n (nostrings n)"
proof -
  have "vm_ok {#} (nostrings n)" by (intro vm_okI) (auto simp: nostrings_def)
  then show "hs_ok hs \<Longrightarrow> ready hs n (nostrings n)" by (auto simp: ready_def solid_def nostrings_def)
qed


text \<open>A string, shared, then stored into past ASCII, appended to itself, cut and compared.\<close>

definition ex_prog :: "inst list" where
  "ex_prog = [Cvtac (Some [104, 105]) 0, Movp 0 1, Insc 0 2 0x20AC, Addc 0 0 0, Slicec 0 1 4, Cvtca 0, Cvtca 1, Cmpc 0 1, Indc 0 9]"


text \<open>The empty string from no bytes, and what storing runes into it one by one makes of it.\<close>

lemma run_insts_snoc: "snd (run_insts step (is @ [i]) s) = snd (step i (snd (run_insts step is s)))"
proof (induction "is" arbitrary: s)
  case (Cons a "is")
  then show ?case using Cons.IH [of "snd (step a s)"] by (simp add: split_beta)
qed (simp add: split_beta)

definition filled :: "(nat \<Rightarrow> nat) \<Rightarrow> nat \<Rightarrow> vm" where
  "filled hs k =
     \<lparr>v_objs = [(newstring hs 0)\<lparr>s_rep := (if k = 0 then Ascii [] else Runes (replicate k 0x100))\<rparr>], v_vars = [Some 0],
       v_fault = (s_cap (newstring hs 0) < RUNESIZE * k)\<rparr>"

lemma filled_0: "snd (dis hs (Cvtac (Some []) 0) (nostrings 1)) = filled hs 0"
  by (simp add: cvtac_def c2string_def alloc_def assign_def setvar_def destroy_def nostrings_def filled_def newstring_def Let_def bytesize_def)

lemma filled_Suc:
  assumes "Suc k \<le> hs 56 - 56" and "hs 56 < 2 ^ 31"
  shows "snd (dis hs (Insc 0 (of_nat k) 0x100) (filled hs k)) = filled hs (Suc k)"
proof -
  have v: "unat (of_nat k :: u64) = k" using assms by (simp add: unat_of_nat)
  let ?x = "(newstring hs 0)\<lparr>s_rep := (if k = 0 then Ascii [] else Runes (replicate k 0x100))\<rparr>"
  have m: "k < s_max (newstring hs 0)" using assms(1) by (simp add: newstring_def Let_def size_defs)
  have rr: "replicate k (0x100 :: u32) @ [0x100] = replicate (Suc k) 0x100"
    using replicate_append_same [of k "0x100 :: u32"] by simp
  have t: "insc_target hs 0 True (filled hs k) = (0, filled hs k)"
    by (simp add: insc_target_def filled_def newstring_def Let_def)
  have "insc_store hs 0 k 0x100 True (filled hs k) = (Inr 0, fill 0 (Runes (replicate (Suc k) 0x100)) (filled hs k))"
    using m rr by (simp add: insc_store_def filled_def Let_def del: replicate.simps) simp
  then have "snd (dis hs (Insc 0 (of_nat k) 0x100) (filled hs k)) = fill 0 (Runes (replicate (Suc k) 0x100)) (filled hs k)"
    using t by (simp add: insc_def v Runeself_def Let_def) (simp add: filled_def)
  also have "\<dots> = filled hs (Suc k)" by (auto simp: fill_def filled_def bytesize_def)
  finally show ?thesis .
qed

text \<open>
  C22. An overflow of the heap. From the bytes of an empty array \<open>cvtac\<close> makes an empty string, whose \<open>max\<close> counts bytes. Storing a
  rune at its end makes it a string of runes in place, because it is neither shared nor of positive length, and keeps that
  \<open>max\<close>, now read as a number of runes: further runes are stored at the end in place, and the \<open>k\<close>-th lies outside the
  object as soon as \<open>4 * k\<close> exceeds its room. (With the block sizes of the pool allocator that is the 15th of 48.)
\<close>

theorem empty_string_overflows:
  assumes "k \<le> hs 56 - 56" and "hs 56 < 2 ^ 31"
  shows "v_fault (snd (run_insts (dis hs) (Cvtac (Some []) 0 # map (\<lambda>i. Insc 0 (of_nat i) 0x100) [0..<k]) (nostrings 1)))
    \<longleftrightarrow> hs 56 - 48 < 4 * k"
proof -
  have "snd (run_insts (dis hs) (Cvtac (Some []) 0 # map (\<lambda>i. Insc 0 (of_nat i) 0x100) [0..<k]) (nostrings 1)) = filled hs k"
    using assms(1)
  proof (induction k)
    case 0
    then show ?case using filled_0 [of hs] by (simp add: split_beta)
  next
    case (Suc k)
    then show ?case
      using filled_Suc [of k hs, OF Suc.prems assms(2)]
        run_insts_snoc [of "dis hs" "Cvtac (Some []) 0 # map (\<lambda>i. Insc 0 (of_nat i) 0x100) [0..<k]" "Insc 0 (of_nat k) 0x100"]
      by simp
  qed
  then show ?thesis by (simp add: filled_def newstring_def Let_def size_defs)
qed

theorem empty_string_overflows_witness:
  "v_fault (snd (run_insts (dis poolsize) (Cvtac (Some []) 0 # map (\<lambda>i. Insc 0 (of_nat i) 0x100) [0..<15]) (nostrings 1)))"
  using empty_string_overflows [of 15 poolsize] by (simp add: poolsize_def)

text \<open>The runes of what \<open>runetochar\<close> wrote.\<close>

lemma wholerunes_enc:
  "wholerunes (runetochar c @ p) = (if valid_rune c then c else Runeerror) # wholerunes p"
proof -
  have "fullrune (runetochar c @ p) (int (length (runetochar c @ p)))"
  proof (cases "c < 0x80")
    case True
    then have "runetochar c = [ucast c]" "(ucast (ucast c :: u8) :: u32) = c"
      by (cases rule: runetochar_cases [of c]; simp)+
    then show ?thesis using ascii_step(2) [of "ucast c" p] True by (simp add: Runeself_def)
  next
    case False
    then show ?thesis by (simp add: fullrune_enc)
  qed
  then show ?thesis
    using length_runetochar_pos [of c] by (subst wholerunes.simps) (simp add: chartorune_runetochar)
qed

lemma wholerunes_encs: "wholerunes (encs rs @ p) = map (\<lambda>c. if valid_rune c then c else Runeerror) rs @ wholerunes p"
  by (induction rs) (simp_all add: wholerunes_enc)

lemma rune2c_plain: "\<not> 0x80000000 \<le> c \<Longrightarrow> rune2c c = runetochar c"
proof -
  assume "\<not> 0x80000000 \<le> c"
  then have u: "uint c < 2 ^ 31" by (simp add: word_le_def)
  then have "sint c = uint c" unfolding sint_uint
    by (intro signed_take_bit_int_eq_self) (simp_all add: order_trans [of _ 0])
  moreover have "runetochar c = [ucast c]" if "uint c < 0x80"
  proof -
    have "c \<le> 0x7F" using that by (simp add: word_le_def)
    then show ?thesis by (simp add: runetochar_eq)
  qed
  moreover have "sint Runeself = 0x80" by code_simp
  ultimately show "rune2c c = runetochar c" by (simp add: rune2c_def)
qed

text \<open>
  C40. Strings and UTF-8. A Limbo string of valid runes converted to bytes, by \<open>cvtca\<close> or \<open>string2c\<close>, and back gives the
  string; other characters below 2^31 come back as the error rune, and bytes at the end that are no whole rune are dropped. The
  two conversions to bytes differ on a character of 2^31 and more (a negative \<open>int\<close>, which \<open>insc\<close> lets in):
  \<open>string2c\<close> compares it as a signed number and writes its low byte, which is no UTF-8.
\<close>

theorem dis_string_bytes:
  "chars (s_rep (c2string hs (encs rs @ p))) = map (\<lambda>c. if valid_rune c then c else Runeerror) rs @ wholerunes p
   \<and> ((\<forall>c\<in>set rs. c < 0x80000000) \<longrightarrow> string2c (Runes rs) = encs rs)
   \<and> (0x80000000 \<le> c \<longrightarrow> string2c (Runes [c]) = [ucast c] \<and> encs [c] = runetochar Runeerror)"
proof -
  have "chars (s_rep (c2string hs cs)) = wholerunes cs" for hs cs by (rule c2string_chars)
  moreover have "string2c (Runes rs) = encs rs" if "\<forall>c\<in>set rs. c < 0x80000000"
    using that by (induction rs) (auto simp: string2c_def rune2c_plain not_le)
  moreover have "string2c (Runes [c]) = [ucast c] \<and> encs [c] = runetochar Runeerror" if h: "0x80000000 \<le> c"
  proof -
    have u: "2 ^ 31 \<le> uint c" "uint c < 2 ^ 32" using h uint_lt2p [of c] by (simp_all add: word_le_def)
    have "uint c div 2 ^ 31 = 1" using u by (intro div_pos_geq [THEN trans]) (simp_all add: div_pos_pos_trivial)
    then have "bit (uint c) 31" by (simp add: bit_iff_odd)
    then have "sint c < 0" unfolding sint_uint by (simp add: signed_take_bit_negative_iff)
    moreover have "sint Runeself = 0x80" by code_simp
    moreover have "\<not> c \<le> 0x7F" "\<not> c \<le> 0x7FF" "\<not> valid_rune c" using u by (simp_all add: word_le_def valid_rune_def Runemax_def)
    moreover have "runetochar Runeerror = rune_bytes 3 Runeerror" by code_simp
    ultimately show ?thesis by (simp add: string2c_def rune2c_def runetochar_eq [of c])
  qed
  ultimately show ?thesis by (simp add: wholerunes_encs)
qed

theorem dis_string_bytes_witness:
  "string2c (Runes [0x20AC, 0x41]) = encs [0x20AC, 0x41] \<and> string2c (Runes [0xFFFFFFB3]) = [0xB3]"
  using dis_string_bytes [where rs = "[0x20AC, 0x41]" and c = "0xFFFFFFB3"] by simp

end
