(* ===== verification/Blocks.thy ===== *)
theory Blocks
  imports Prelude
begin

text \<open>
  The data blocks of emu/port/qio.c. A \<open>Block\<close> is a buffer (from \<open>base\<close> to \<open>lim\<close>) with the first byte to be read
  (\<open>rp\<close>) and the first free byte (\<open>wp\<close>), here offsets from \<open>base\<close>; a \<open>Block*\<close> is the chain of the blocks that
  \<open>next\<close> links, a list, empty for \<open>nil\<close>. Every block has an address \<open>b_id\<close>. The memory \<open>bmem\<close> knows the next
  address \<open>kmalloc\<close> gives and the addresses that were freed, so that lost blocks and double frees can be told;
  \<open>bfault\<close> records a store past \<open>lim\<close>, a use of nil and a \<open>panic\<close>. \<open>nomem\<close> says that \<open>iallocb\<close> fails; \<open>allocb\<close>, which raises
  an error then, is taken to succeed. A private \<open>free\<close> routine of a block is a free like any other.
\<close>

record block =
  b_id :: nat
  b_buf :: bytes
  b_rp :: nat
  b_wp :: nat

record bmem =
  bfresh :: nat
  bfreed :: "nat list"
  bfault :: bool
  nomem :: bool

definition BLEN :: "block \<Rightarrow> nat" where "BLEN b = b_wp b - b_rp b"

definition BALLOC :: "block \<Rightarrow> nat" where "BALLOC b = length (b_buf b)"

text \<open>The bytes from \<open>rp\<close> to \<open>wp\<close>, what \<open>memmove\<close> takes out of a block.\<close>

definition bdata :: "block \<Rightarrow> bytes" where
  "bdata b = take (BLEN b) (drop (b_rp b) (b_buf b))"

text \<open>\<open>checkb\<close> holds (it panics otherwise).\<close>

definition checkb :: "block \<Rightarrow> bool" where
  "checkb b \<longleftrightarrow> b_rp b \<le> length (b_buf b) \<and> b_wp b \<le> length (b_buf b)"

definition bpanic :: "bmem \<Rightarrow> bmem" where "bpanic m = m\<lparr>bfault := True\<rparr>"

definition freeb :: "bmem \<Rightarrow> block \<Rightarrow> bmem" where
  "freeb m b = m\<lparr>bfreed := b_id b # bfreed m\<rparr>"

fun freeblist :: "bmem \<Rightarrow> block list \<Rightarrow> bmem" where
  "freeblist m [] = m"
| "freeblist m (b # nxt) = freeblist (freeb m b) nxt"

definition newblock :: "nat \<Rightarrow> nat \<Rightarrow> block" where
  "newblock a sz = \<lparr>b_id = a, b_buf = replicate sz 0, b_rp = 0, b_wp = 0\<rparr>"

definition allocb :: "bmem \<Rightarrow> nat \<Rightarrow> bmem \<times> block" where
  "allocb m sz = (m\<lparr>bfresh := bfresh m + 1\<rparr>, newblock (bfresh m) sz)"

definition iallocb :: "bmem \<Rightarrow> nat \<Rightarrow> bmem \<times> block option" where
  "iallocb m sz = (if nomem m then (m, None) else (let (m, b) = allocb m sz in (m, Some b)))"

text \<open>\<open>memmove(b->wp, p, n); b->wp += n\<close>\<close>

definition bstore :: "bmem \<Rightarrow> block \<Rightarrow> bytes \<Rightarrow> bmem \<times> block" where
  "bstore m b p =
     (if b_wp b + length p \<le> length (b_buf b)
      then (m, b\<lparr>b_buf := take (b_wp b) (b_buf b) @ p @ drop (b_wp b + length p) (b_buf b), b_wp := b_wp b + length p\<rparr>)
      else (bpanic m, b))"

text \<open>Padding to the front, or to the back when the size is negative. The counter \<open>padblockoverhead\<close> is left out.\<close>

fun padblock :: "bmem \<Rightarrow> block list \<Rightarrow> int \<Rightarrow> bmem \<times> block list" where
  "padblock m [] sz = (bpanic m, [])"
| "padblock m (bp # nxt) sz =
     (if 0 \<le> sz then
        (if sz \<le> int (b_rp bp) then (m, bp\<lparr>b_rp := b_rp bp - nat sz\<rparr> # nxt)
         else if nxt \<noteq> [] then (bpanic m, bp # nxt)
         else
           (let n = BLEN bp; (m, nbp) = allocb m (nat sz + n);
                nbp = nbp\<lparr>b_rp := b_rp nbp + nat sz\<rparr>; nbp = nbp\<lparr>b_wp := b_rp nbp\<rparr>;
                (m, nbp) = bstore m nbp (bdata bp)
            in (freeb m bp, [nbp\<lparr>b_rp := b_rp nbp - nat sz\<rparr>])))
      else if nxt \<noteq> [] then (bpanic m, bp # nxt)
      else if - sz \<le> int (length (b_buf bp)) - int (b_wp bp) then (m, [bp])
      else
        (let n = BLEN bp; (m, nbp) = allocb m (nat (- sz) + n); (m, nbp) = bstore m nbp (bdata bp)
         in (freeb m bp, [nbp])))"

fun blocklen :: "block list \<Rightarrow> nat" where
  "blocklen [] = 0"
| "blocklen (bp # nxt) = BLEN bp + blocklen nxt"

fun blockalloclen :: "block list \<Rightarrow> nat" where
  "blockalloclen [] = 0"
| "blockalloclen (bp # nxt) = BALLOC bp + blockalloclen nxt"

fun concat_loop :: "bmem \<Rightarrow> block \<Rightarrow> block list \<Rightarrow> bmem \<times> block" where
  "concat_loop m nb [] = (m, nb)"
| "concat_loop m nb (f # nxt) = (let (m, nb) = bstore m nb (bdata f) in concat_loop m nb nxt)"

fun concatblock :: "bmem \<Rightarrow> block list \<Rightarrow> bmem \<times> block list" where
  "concatblock m [] = (bpanic m, [])"
| "concatblock m [bp] = (m, [bp])"
| "concatblock m bp = (let (m, nb) = allocb m (blocklen bp); (m, nb) = concat_loop m nb bp in (freeblist m bp, [nb]))"

text \<open>The loop of \<open>pullupblock\<close>, with the first block apart; \<open>n\<close> is what it still lacks.\<close>

fun pullup_loop :: "bmem \<Rightarrow> block \<Rightarrow> nat \<Rightarrow> block list \<Rightarrow> bmem \<times> block list" where
  "pullup_loop m bp n [] = (freeblist m [bp], [])"
| "pullup_loop m bp n (nbp # nxt) =
     (let i = BLEN nbp in
      if n < i then (let (m, bp) = bstore m bp (take n (bdata nbp)) in (m, bp # nbp\<lparr>b_rp := b_rp nbp + n\<rparr> # nxt))
      else
        (let (m, bp) = bstore m bp (bdata nbp); m = freeb m nbp in
         if n - i = 0 then (m, bp # nxt) else pullup_loop m bp (n - i) nxt))"

fun pullupblock :: "bmem \<Rightarrow> block list \<Rightarrow> nat \<Rightarrow> bmem \<times> block list" where
  "pullupblock m [] n = (bpanic m, [])"
| "pullupblock m (bp # nxt) n =
     (if n \<le> BLEN bp then (m, bp # nxt)
      else if length (b_buf bp) - b_rp bp < n
      then (let (m, nbp) = allocb m n in pullup_loop m nbp (n - BLEN nbp) (bp # nxt))
      else pullup_loop m bp (n - BLEN bp) nxt)"

text \<open>The sum of two C ints.\<close>

definition iadd :: "int \<Rightarrow> int \<Rightarrow> int" where
  "iadd x y = sint (word_of_int (x + y) :: 32 word)"

fun trim_front :: "bmem \<Rightarrow> block list \<Rightarrow> nat \<Rightarrow> bmem \<times> block list" where
  "trim_front m [] offset = (bpanic m, [])"
| "trim_front m (bp # nb) offset =
     (if BLEN bp < offset then trim_front (freeb m bp) nb (offset - BLEN bp)
      else (m, bp\<lparr>b_rp := b_rp bp + offset\<rparr> # nb))"

fun trim_back :: "bmem \<Rightarrow> block list \<Rightarrow> nat \<Rightarrow> bmem \<times> block list" where
  "trim_back m [] n = (bpanic m, [])"
| "trim_back m (bp # nxt) n =
     (if BLEN bp < n then (let (m, r) = trim_back m nxt (n - BLEN bp) in (m, bp # r))
      else (freeblist m nxt, [bp\<lparr>b_wp := b_wp bp - (BLEN bp - n)\<rparr>]))"

definition trimblock :: "bmem \<Rightarrow> block list \<Rightarrow> int \<Rightarrow> int \<Rightarrow> bmem \<times> block list" where
  "trimblock m bp offset n =
     (if offset < 0 \<or> n < 0 then (freeblist m bp, [])
      else if int (blocklen bp) < iadd offset n then (freeblist m bp, [])
      else (let (m, startb) = trim_front m bp (nat offset) in trim_back m startb (nat n)))"

fun copy_loop :: "bmem \<Rightarrow> block \<Rightarrow> block list \<Rightarrow> nat \<Rightarrow> bmem \<times> block \<times> nat" where
  "copy_loop m nbp [] count = (m, nbp, count)"
| "copy_loop m nbp (bp # nxt) count =
     (if count = 0 then (m, nbp, count)
      else
        (let l = min (BLEN bp) count; (m, nbp) = bstore m nbp (take l (bdata bp))
         in copy_loop m nbp nxt (count - l)))"

definition copyblock :: "bmem \<Rightarrow> block list \<Rightarrow> nat \<Rightarrow> bmem \<times> block" where
  "copyblock m bp count =
     (let (m, nbp) = allocb m count; (m, nbp, count) = copy_loop m nbp bp count
      in if 0 < count then bstore m nbp (replicate count 0) else (m, nbp))"

fun adjustblock :: "bmem \<Rightarrow> block list \<Rightarrow> int \<Rightarrow> bmem \<times> block list" where
  "adjustblock m [] n = (if n < 0 then (m, []) else (bpanic m, []))"
| "adjustblock m (bp # nxt) n =
     (if n < 0 then (freeb m bp, [])
      else if length (b_buf bp) < b_rp bp + nat n
      then (let (m, nbp) = copyblock m (bp # nxt) (nat n) in (freeblist m (bp # nxt), [nbp]))
      else
        (let (m, bp') = (if BLEN bp < nat n then bstore m bp (replicate (nat n - BLEN bp) 0) else (m, bp))
         in (m, bp'\<lparr>b_wp := b_rp bp' + nat n\<rparr> # nxt)))"

text \<open>
  The loop of \<open>pullblock\<close> goes on with a block that is not used up only when nothing is left to be taken, so that it
  ends there.
\<close>

fun pullblock :: "bmem \<Rightarrow> block list \<Rightarrow> nat \<Rightarrow> bmem \<times> block list \<times> nat" where
  "pullblock m [] count = (m, [], 0)"
| "pullblock m (bp # nxt) count =
     (if count = 0 then (m, bp # nxt, 0)
      else
        (let n = min (BLEN bp) count; bp = bp\<lparr>b_rp := b_rp bp + n\<rparr> in
         if BLEN bp = 0 then (let (m, r, k) = pullblock (freeb m bp) nxt (count - n) in (m, r, n + k))
         else (m, bp # nxt, n)))"

fun packblock :: "bmem \<Rightarrow> block list \<Rightarrow> bmem \<times> block list" where
  "packblock m [] = (m, [])"
| "packblock m (nbp # nxt) =
     (let n = BLEN nbp in
      if 4 * n < BALLOC nbp then
        (let (m, b) = allocb m n; (m, b) = bstore m b (bdata nbp); m = freeb m nbp; (m, r) = packblock m nxt in (m, b # r))
      else (let (m, r) = packblock m nxt in (m, nbp # r)))"

text \<open>\<open>bl2mem\<close> gives the bytes stored from \<open>p\<close> on and the first block with bytes left over.\<close>

fun bl2mem :: "bmem \<Rightarrow> block list \<Rightarrow> nat \<Rightarrow> bmem \<times> bytes \<times> block list" where
  "bl2mem m [] n = (m, [], [])"
| "bl2mem m (b # nxt) n =
     (let i = BLEN b in
      if n < i then (m, take n (bdata b), b\<lparr>b_rp := b_rp b + n\<rparr> # nxt)
      else (let (m, p, r) = bl2mem (freeb m (b\<lparr>b_rp := b_rp b + i\<rparr>)) nxt (n - i) in (m, bdata b @ p, r)))"

definition Maxatomic :: nat where "Maxatomic = 32 * 1024"

lemma Maxatomic_pos [simp]: "0 < Maxatomic"
  by (simp add: Maxatomic_def)

function mem2bl :: "bmem \<Rightarrow> bytes \<Rightarrow> bmem \<times> block list" where
  "mem2bl m p =
     (let n = min (length p) Maxatomic; (m, b) = allocb m n; (m, b) = bstore m b (take n p) in
      if 0 < length p - n then (let (m, nxt) = mem2bl m (drop n p) in (m, b # nxt)) else (m, [b]))"
  by pat_completeness auto
termination
  by (relation "measure (\<lambda>(m, p). length p)") (auto simp: min_def Maxatomic_def)

declare mem2bl.simps [simp del]

end
