(* ===== verification/Qio.thy ===== *)
theory Qio
  imports Blocks Paths
begin

text \<open>
  The queues of emu/port/qio.c. A state \<open>qst\<close> is one queue, the memory its blocks live in, and the list of what the
  operations have asked of others so far: the wake-ups of the processes that sleep on \<open>rr\<close> and \<open>wr\<close>, and the calls
  of the device's routines \<open>kick\<close> and \<open>bypass\<close>. The pointer \<open>blast\<close> is the address of a block. Each definition is what its function
  does under the queue's lock; a function that sleeps ends there with \<open>Asleep\<close>, and goes on by being run again.
  \<open>rlock\<close> and \<open>wlock\<close> let one reader and one writer in at a time.
\<close>

datatype qflag = Qstarve | Qmsg | Qclosed | Qflow | Qcoalesce | Qkick

datatype qev = WakeR | WakeW | Kick | Bypass block

record queue =
  q_bfirst :: "block list"
  q_blast :: nat
  q_len :: int
  q_dlen :: int
  q_limit :: int
  q_inilim :: int
  q_state :: "qflag set"
  q_noblock :: bool
  q_eof :: nat
  q_kick :: bool
  q_bypass :: bool
  q_err :: bytes

record qst =
  mem :: bmem
  que :: queue
  evs :: "qev list"

datatype 'a qout = Done 'a | Raised bytes | Asleep

definition onq :: "(queue \<Rightarrow> queue) \<Rightarrow> qst \<Rightarrow> qst" where "onq f s = s\<lparr>que := f (que s)\<rparr>"

definition setflag :: "qflag \<Rightarrow> qst \<Rightarrow> qst" where
  "setflag x = onq (\<lambda>q. q\<lparr>q_state := insert x (q_state q)\<rparr>)"

definition clrflag :: "qflag \<Rightarrow> qst \<Rightarrow> qst" where
  "clrflag x = onq (\<lambda>q. q\<lparr>q_state := q_state q - {x}\<rparr>)"

definition isset :: "qflag \<Rightarrow> qst \<Rightarrow> bool" where "isset x s \<longleftrightarrow> x \<in> q_state (que s)"

definition emit :: "qev list \<Rightarrow> qst \<Rightarrow> qst" where "emit es s = s\<lparr>evs := evs s @ es\<rparr>"

definition free1 :: "block \<Rightarrow> qst \<Rightarrow> qst" where "free1 b s = s\<lparr>mem := freeb (mem s) b\<rparr>"

definition freeall :: "block list \<Rightarrow> qst \<Rightarrow> qst" where "freeall bs s = s\<lparr>mem := freeblist (mem s) bs\<rparr>"

definition qfault :: "qst \<Rightarrow> qst" where "qfault s = s\<lparr>mem := bpanic (mem s)\<rparr>"

text \<open>The quotient of a C int by 2 and the comparison that restarts a flow controlled writer.\<close>

definition half :: "int \<Rightarrow> int" where
  "half l = (if 0 \<le> l then l div 2 else - ((- l) div 2))"

definition unflow :: "int \<Rightarrow> qev list \<Rightarrow> qst \<Rightarrow> qst" where
  "unflow lim es s = (if isset Qflow s \<and> q_len (que s) < lim then emit es (clrflag Qflow s) else s)"

definition feed :: "qev list \<Rightarrow> qst \<Rightarrow> qst" where
  "feed es s = (if isset Qstarve s then emit es (clrflag Qstarve s) else s)"

text \<open>
  \<open>if(q->bfirst) q->blast->next = b; else q->bfirst = b;\<close> where storing into the \<open>next\<close> of a block cuts off what the
  block linked before.
\<close>

fun setnext :: "nat \<Rightarrow> block list \<Rightarrow> block list \<Rightarrow> block list" where
  "setnext a bs [] = []"
| "setnext a bs (x # xs) = (if b_id x = a then x # bs else x # setnext a bs xs)"

definition qlink :: "block list \<Rightarrow> qst \<Rightarrow> qst" where
  "qlink bs s =
     (let q = que s in
      if q_bfirst q = [] then onq (\<lambda>q. q\<lparr>q_bfirst := bs\<rparr>) s
      else if q_blast q \<in> b_id ` set (q_bfirst q) then onq (\<lambda>q. q\<lparr>q_bfirst := setnext (q_blast q) bs (q_bfirst q)\<rparr>) s
      else qfault s)"

definition addlens :: "int \<Rightarrow> int \<Rightarrow> qst \<Rightarrow> qst" where
  "addlens l d = onq (\<lambda>q. q\<lparr>q_len := q_len q + l, q_dlen := q_dlen q + d\<rparr>)"

definition setblast :: "block \<Rightarrow> qst \<Rightarrow> qst" where "setblast b = onq (\<lambda>q. q\<lparr>q_blast := b_id b\<rparr>)"

definition setbfirst :: "block list \<Rightarrow> qst \<Rightarrow> qst" where "setbfirst bs = onq (\<lambda>q. q\<lparr>q_bfirst := bs\<rparr>)"

section \<open>Blocks at the end and at the front\<close>

text \<open>The blocks of a nonempty chain go to the end of the queue.\<close>

definition qappend :: "block list \<Rightarrow> qst \<Rightarrow> qst" where
  "qappend bs s = addlens (int (blockalloclen bs)) (int (blocklen bs)) (setblast (last bs) (qlink bs s))"

definition qaddlist :: "qst \<Rightarrow> block list \<Rightarrow> qst" where
  "qaddlist s bs = (if bs = [] then qfault s else qappend bs s)"

definition qremove :: "qst \<Rightarrow> qst \<times> block option" where
  "qremove s =
     (case q_bfirst (que s) of
        [] \<Rightarrow> (s, None)
      | b # nxt \<Rightarrow> (addlens (- int (BALLOC b)) (- int (BLEN b)) (setbfirst nxt s), Some b))"

definition qputback :: "qst \<Rightarrow> block \<Rightarrow> qst" where
  "qputback s b =
     (let s1 = (if q_bfirst (que s) = [] then setblast b s else s)
      in addlens (int (BALLOC b)) (int (BLEN b)) (setbfirst (b # q_bfirst (que s)) s1))"

definition pullupqueue :: "qst \<Rightarrow> nat \<Rightarrow> qst" where
  "pullupqueue s n =
     (case q_bfirst (que s) of
        [] \<Rightarrow> qfault s
      | b # _ \<Rightarrow>
          if n \<le> BLEN b then s
          else
            (let (m, bs) = pullupblock (mem s) (q_bfirst (que s)) n; s = setbfirst bs (s\<lparr>mem := m\<rparr>)
             in if bs = [] then onq (\<lambda>q. q\<lparr>q_blast := 0\<rparr>) s else setblast (last bs) s))"

section \<open>Taking without sleeping\<close>

definition qget :: "qst \<Rightarrow> qst \<times> block option" where
  "qget s =
     (case q_bfirst (que s) of
        [] \<Rightarrow> (setflag Qstarve s, None)
      | b # nxt \<Rightarrow>
          (let s = addlens (- int (BALLOC b)) (- int (BLEN b)) (setbfirst nxt s)
           in (unflow (half (q_limit (que s))) [WakeW] s, Some b)))"

function qdiscard_loop :: "qst \<Rightarrow> nat \<Rightarrow> nat \<Rightarrow> qst \<times> nat" where
  "qdiscard_loop s len sofar =
     (if len \<le> sofar then (s, sofar)
      else
        (case q_bfirst (que s) of
           [] \<Rightarrow> (s, sofar)
         | b # nxt \<Rightarrow>
             (let n = BLEN b in
              if n \<le> len - sofar
              then qdiscard_loop (free1 b (addlens (- int (BALLOC b)) (- int n) (setbfirst nxt s))) len (sofar + n)
              else
                (let n = len - sofar
                 in (addlens 0 (- int n) (setbfirst (b\<lparr>b_rp := b_rp b + n\<rparr> # nxt) s), sofar + n)))))"
  by pat_completeness auto
termination
  by (relation "measure (\<lambda>(s, len, sofar). length (q_bfirst (que s)))")
    (auto simp: free1_def addlens_def setbfirst_def onq_def)

declare qdiscard_loop.simps [simp del]

definition qdiscard :: "qst \<Rightarrow> nat \<Rightarrow> qst \<times> nat" where
  "qdiscard s len = (let (s, sofar) = qdiscard_loop s len 0 in (unflow (q_limit (que s)) [WakeW] s, sofar))"

text \<open>
  The blocks without data at the front leave the queue and are remembered in \<open>tofree\<close>. The result of
  \<open>qconsume\<close> is its return value and the bytes stored at \<open>vp\<close>.
\<close>

fun consume_skip :: "block list \<Rightarrow> int \<Rightarrow> block list \<Rightarrow> block list \<times> int \<times> block list" where
  "consume_skip [] l tofree = ([], l, tofree)"
| "consume_skip (b # nxt) l tofree =
     (if 0 < BLEN b then (b # nxt, l, tofree) else consume_skip nxt (l - int (BALLOC b)) (b # tofree))"

definition qconsume :: "qst \<Rightarrow> nat \<Rightarrow> qst \<times> int \<times> bytes" where
  "qconsume s len =
     (let (bs, l, tofree) = consume_skip (q_bfirst (que s)) (q_len (que s)) [];
          s = onq (\<lambda>q. q\<lparr>q_bfirst := bs, q_len := l\<rparr>) s
      in
      case bs of
        [] \<Rightarrow> (setflag Qstarve s, -1, [])
      | b # nxt \<Rightarrow>
          (let n = BLEN b; len = min len n; p = take len (bdata b);
               gone = (isset Qmsg s \<or> len = n);
               b = b\<lparr>b_rp := b_rp b + len\<rparr>;
               s = addlens 0 (- int len) (setbfirst (if gone then nxt else b # nxt) s);
               s = (if gone then addlens (- int (BALLOC b)) (- int (BLEN b)) s else s);
               tofree = (if gone then b # tofree else tofree);
               s = unflow (half (q_limit (que s))) [WakeW] s
           in (freeall tofree s, int len, p)))"

section \<open>Adding without sleeping\<close>

definition flow_if :: "int \<Rightarrow> qst \<Rightarrow> qst" where
  "flow_if lim s = (if lim \<le> q_len (que s) then setflag Qflow s else s)"

definition qpass_tail :: "qst \<Rightarrow> block list \<Rightarrow> qst" where
  "qpass_tail s bs = (let s = qappend bs s in feed [WakeR] (flow_if (half (q_limit (que s))) s))"

definition qpass :: "qst \<Rightarrow> block list \<Rightarrow> qst \<times> int" where
  "qpass s bs =
     (if q_limit (que s) \<le> q_len (que s) then (freeall bs s, -1)
      else if isset Qclosed s then (freeall bs s, int (blocklen bs))
      else if bs = [] then (qfault s, 0)
      else (qpass_tail s bs, int (blockalloclen bs)))"

definition qpassnolim :: "qst \<Rightarrow> block list \<Rightarrow> qst \<times> int" where
  "qpassnolim s bs =
     (case bs of
        [] \<Rightarrow> (qfault s, 0)
      | b # _ \<Rightarrow>
          if isset Qclosed s then (freeall bs s, int (BALLOC b))
          else (qpass_tail s bs, int (blockalloclen bs)))"

definition qproduce :: "qst \<Rightarrow> bytes \<Rightarrow> qst \<times> int" where
  "qproduce s p =
     (if isset Qclosed s then (s, -1)
      else if q_limit (que s) \<le> q_len (que s) then (setflag Qflow s, -1)
      else
        (case iallocb (mem s) (length p) of
           (m, None) \<Rightarrow> (s\<lparr>mem := m\<rparr>, -1)
         | (m, Some b) \<Rightarrow>
             (let (m, b) = bstore m b p;
                  s = qappend [b] (s\<lparr>mem := m\<rparr>);
                  (starved, s) = (isset Qstarve s, clrflag Qstarve s);
                  s = flow_if (q_limit (que s)) s
              in (if starved then emit [WakeR] s else s, int (length p)))))"

section \<open>Copying out\<close>

fun qcopy_seek :: "block list \<Rightarrow> nat \<Rightarrow> nat \<Rightarrow> (bytes \<times> block list) option" where
  "qcopy_seek [] offset sofar = None"
| "qcopy_seek (b # nxt) offset sofar =
     (if offset < sofar + BLEN b then Some (drop (offset - sofar) (bdata b), nxt)
      else qcopy_seek nxt offset (sofar + BLEN b))"

fun qcopy_loop :: "bmem \<Rightarrow> block \<Rightarrow> bytes \<Rightarrow> block list \<Rightarrow> nat \<Rightarrow> nat \<Rightarrow> bmem \<times> block" where
  "qcopy_loop m nb p [] len sofar = (if sofar < len then bstore m nb (take (len - sofar) p) else (m, nb))"
| "qcopy_loop m nb p (b # nxt) len sofar =
     (if sofar < len then
        (let n = min (length p) (len - sofar); (m, nb) = bstore m nb (take n p)
         in qcopy_loop m nb (bdata b) nxt len (sofar + n))
      else (m, nb))"

definition qcopy :: "qst \<Rightarrow> nat \<Rightarrow> nat \<Rightarrow> qst \<times> block" where
  "qcopy s len offset =
     (let (m, nb) = allocb (mem s) len in
      case qcopy_seek (q_bfirst (que s)) offset 0 of
        None \<Rightarrow> (s\<lparr>mem := m\<rparr>, nb)
      | Some (p, nxt) \<Rightarrow> (let (m, nb) = qcopy_loop m nb p nxt len 0 in (s\<lparr>mem := m\<rparr>, nb)))"

section \<open>Opening and closing\<close>

definition ERRMAX :: nat where "ERRMAX = 128"

text \<open>The text of \<open>Ehungup\<close> in error.c, "i/o on hungup channel", and \<open>q->err\<close> as the string in its buffer.\<close>

definition Ehungup :: bytes where
  "Ehungup = [105, 47, 111, 32, 111, 110, 32, 104, 117, 110, 103, 117, 112, 32, 99, 104, 97, 110, 110, 101, 108]"

definition qopen :: "bmem \<Rightarrow> int \<Rightarrow> qflag set \<Rightarrow> bool \<Rightarrow> qst" where
  "qopen m limit msg kick =
     \<lparr>mem = m,
      que = \<lparr>q_bfirst = [], q_blast = 0, q_len = 0, q_dlen = 0, q_limit = limit, q_inilim = limit,
             q_state = insert Qstarve msg, q_noblock = False, q_eof = 0, q_kick = kick, q_bypass = False, q_err = []\<rparr>,
      evs = []\<rparr>"

definition qbypass :: "bmem \<Rightarrow> qst" where
  "qbypass m =
     \<lparr>mem = m,
      que = \<lparr>q_bfirst = [], q_blast = 0, q_len = 0, q_dlen = 0, q_limit = 0, q_inilim = 0,
             q_state = {}, q_noblock = False, q_eof = 0, q_kick = False, q_bypass = True, q_err = []\<rparr>,
      evs = []\<rparr>"

definition qclose :: "qst \<Rightarrow> qst" where
  "qclose s =
     (let bs = q_bfirst (que s);
          s = onq (\<lambda>q. q\<lparr>q_state := insert Qclosed (q_state q) - {Qflow, Qstarve}, q_err := Ehungup, q_bfirst := [],
                         q_len := 0, q_dlen := 0, q_noblock := False\<rparr>) s
      in emit [WakeR, WakeW] (freeall bs s))"

definition qhangup :: "qst \<Rightarrow> bytes option \<Rightarrow> qst" where
  "qhangup s msg =
     (let err = (case msg of None \<Rightarrow> Ehungup
                 | Some t \<Rightarrow> if t = [] then Ehungup else cstr_at (kstrcpy (replicate ERRMAX 0) t (int ERRMAX)))
      in emit [WakeR, WakeW] (onq (\<lambda>q. q\<lparr>q_state := insert Qclosed (q_state q), q_err := err\<rparr>) s))"

definition qisclosed :: "qst \<Rightarrow> bool" where "qisclosed s = isset Qclosed s"

definition qreopen :: "qst \<Rightarrow> qst" where
  "qreopen s =
     onq (\<lambda>q. q\<lparr>q_state := insert Qstarve (q_state q - {Qclosed}), q_eof := 0, q_limit := q_inilim q\<rparr>) s"

definition qlen :: "qst \<Rightarrow> int" where "qlen s = q_dlen (que s)"

definition qwindow :: "qst \<Rightarrow> int" where
  "qwindow s = (let l = q_limit (que s) - q_len (que s) in if l < 0 then 0 else l)"

definition qcanread :: "qst \<Rightarrow> bool" where "qcanread s \<longleftrightarrow> q_bfirst (que s) \<noteq> []"

definition qsetlimit :: "qst \<Rightarrow> int \<Rightarrow> qst" where "qsetlimit s limit = onq (\<lambda>q. q\<lparr>q_limit := limit\<rparr>) s"

definition qnoblock :: "qst \<Rightarrow> bool \<Rightarrow> qst" where "qnoblock s onoff = onq (\<lambda>q. q\<lparr>q_noblock := onoff\<rparr>) s"

definition qflush :: "qst \<Rightarrow> qst" where
  "qflush s =
     (let bs = q_bfirst (que s); s = onq (\<lambda>q. q\<lparr>q_bfirst := [], q_len := 0, q_dlen := 0\<rparr>) s
      in emit [WakeW] (freeall bs s))"

definition qfull :: "qst \<Rightarrow> bool" where "qfull s = isset Qflow s"

definition qstate :: "qst \<Rightarrow> qflag set" where "qstate s = q_state (que s)"

definition qclosed :: "qst \<Rightarrow> bool" where "qclosed s = isset Qclosed s"

text \<open>What is left when the queue itself is freed.\<close>

definition qfree :: "qst \<Rightarrow> bmem \<times> qev list" where "qfree s = (let s = qclose s in (mem s, evs s))"

section \<open>Reading\<close>

definition notempty :: "qst \<Rightarrow> bool" where
  "notempty s \<longleftrightarrow> isset Qclosed s \<or> q_bfirst (que s) \<noteq> []"

text \<open>The returns 1, 0 and -1 of \<open>qwait\<close>, and its sleep.\<close>

datatype qwaited = Have | Eof | Failed | Sleeps

definition qwait :: "qst \<Rightarrow> qst \<times> qwaited" where
  "qwait s =
     (if q_bfirst (que s) \<noteq> [] then (s, Have)
      else if isset Qclosed s then
        (let s = onq (\<lambda>q. q\<lparr>q_eof := q_eof q + 1\<rparr>) s in
         if 3 < q_eof (que s) then (s, Failed)
         else if q_err (que s) \<noteq> [] \<and> q_err (que s) \<noteq> Ehungup then (s, Failed)
         else (s, Eof))
      else (setflag Qstarve s, Sleeps))"

definition qwakeup_unlock :: "qst \<Rightarrow> qst" where
  "qwakeup_unlock s = unflow (half (q_limit (que s))) (if q_kick (que s) then [Kick, WakeW] else [WakeW]) s"

definition qbread :: "qst \<Rightarrow> nat \<Rightarrow> qst \<times> block option qout" where
  "qbread s len =
     (case qwait s of
        (s, Sleeps) \<Rightarrow> (s, Asleep)
      | (s, Eof) \<Rightarrow> (s, Done None)
      | (s, Failed) \<Rightarrow> (s, Raised (q_err (que s)))
      | (s, Have) \<Rightarrow>
          (case qremove s of
             (s, None) \<Rightarrow> (qfault s, Done None)
           | (s, Some nb) \<Rightarrow>
               (let n = BLEN nb;
                    s = (if len < n \<and> \<not> isset Qmsg s
                         then (let (m, b) = allocb (mem s) (n - len); (m, b) = bstore m b (drop len (bdata nb))
                               in qputback (s\<lparr>mem := m\<rparr>) b)
                         else s);
                    nb = (if len < n then nb\<lparr>b_wp := b_rp nb + len\<rparr> else nb)
                in (qwakeup_unlock s, Done (Some nb)))))"

text \<open>
  Reading with \<open>Qcoalesce\<close>: the first block and as many of the following as fit in the read whole. \<open>qgrab\<close> gives
  them with the sum \<open>n\<close> of their lengths.
\<close>

lemma qremove_shorter: "qremove s = (t, Some b) \<Longrightarrow> length (q_bfirst (que t)) < length (q_bfirst (que s))"
  by (auto simp: qremove_def addlens_def setbfirst_def onq_def split: list.splits)

function qgrab :: "qst \<Rightarrow> nat \<Rightarrow> nat \<Rightarrow> qst \<times> block list \<times> nat" where
  "qgrab s len n =
     (case qremove s of
        (s, None) \<Rightarrow> (s, [], n)
      | (s, Some b) \<Rightarrow>
          (let n = n + BLEN b in
           case q_bfirst (que s) of
             [] \<Rightarrow> (s, [b], n)
           | c # _ \<Rightarrow>
               if len < n + BLEN c then (s, [b], n)
               else (let (s, bs, n) = qgrab s len n in (s, b # bs, n))))"
  by pat_completeness auto
termination
  by (relation "measure (\<lambda>(s, len, n). length (q_bfirst (que s)))") (auto dest!: qremove_shorter [OF sym])

declare qgrab.simps [simp del]

text \<open>The first half of \<open>qread\<close>, up to the copy: the blocks taken and their length, or \<open>None\<close> at end of file.\<close>

function qread_take :: "qst \<Rightarrow> nat \<Rightarrow> qst \<times> (block list \<times> nat) option qout" where
  "qread_take s len =
     (case qwait s of
        (s, Sleeps) \<Rightarrow> (s, Asleep)
      | (s, Eof) \<Rightarrow> (s, Done None)
      | (s, Failed) \<Rightarrow> (s, Raised (q_err (que s)))
      | (s, Have) \<Rightarrow>
          (if isset Qcoalesce s then
             (case q_bfirst (que s) of
                [] \<Rightarrow> (qfault s, Done None)
              | b # _ \<Rightarrow>
                  if BLEN b = 0 then qread_take (free1 b (fst (qremove s))) len
                  else (let (s, bs, n) = qgrab s len 0 in (s, Done (Some (bs, n)))))
           else
             (case qremove s of
                (s, None) \<Rightarrow> (qfault s, Done None)
              | (s, Some b) \<Rightarrow> (s, Done (Some ([b], BLEN b))))))"
  by pat_completeness auto
termination
  by (relation "measure (\<lambda>(s, len). length (q_bfirst (que s)))")
    (auto simp: qwait_def qremove_def free1_def addlens_def setbfirst_def onq_def Let_def split: if_splits list.splits)

declare qread_take.simps [simp del]

text \<open>The second half: the copy to \<open>vp\<close>, the return value and the bytes stored. Others may have used the queue between.\<close>

definition qread_done :: "qst \<Rightarrow> block list \<Rightarrow> nat \<Rightarrow> nat \<Rightarrow> qst \<times> nat \<times> bytes" where
  "qread_done s bs n len =
     (let (m, p, r) = bl2mem (mem s) bs len; s = s\<lparr>mem := m\<rparr> in
      case r of
        [] \<Rightarrow> (qwakeup_unlock s, n, p)
      | b # _ \<Rightarrow>
          (let n = n - BLEN b; s = (if isset Qmsg s then free1 b s else qputback s b)
           in (qwakeup_unlock s, n, p)))"

definition qread :: "qst \<Rightarrow> nat \<Rightarrow> qst \<times> (nat \<times> bytes) qout" where
  "qread s len =
     (case qread_take s len of
        (s, Asleep) \<Rightarrow> (s, Asleep)
      | (s, Raised e) \<Rightarrow> (s, Raised e)
      | (s, Done None) \<Rightarrow> (s, Done (0, []))
      | (s, Done (Some (bs, n))) \<Rightarrow> (let (s, r) = qread_done s bs n len in (s, Done r)))"

section \<open>Writing\<close>

definition qnotfull :: "qst \<Rightarrow> bool" where
  "qnotfull s \<longleftrightarrow> q_len (que s) < q_limit (que s) \<or> isset Qclosed s"

text \<open>The loop at the end of \<open>qbwrite\<close>: \<open>False\<close> when the writer goes to sleep with its block queued.\<close>

definition qbwrite_flow :: "qst \<Rightarrow> qst \<times> bool" where
  "qbwrite_flow s = (if q_noblock (que s) \<or> qnotfull s then (s, True) else (setflag Qflow s, False))"

text \<open>What \<open>qbwrite\<close> does when the block is in the queue, before it looks at the flow.\<close>

definition queued :: "qst \<Rightarrow> qst" where
  "queued s =
     (let dowakeup = isset Qstarve s; s = clrflag Qstarve s;
          s = (if q_kick (que s) \<and> (dowakeup \<or> isset Qkick s) then emit [Kick] s else s)
      in if dowakeup then emit [WakeR] s else s)"

definition qbwrite :: "qst \<Rightarrow> block \<Rightarrow> qst \<times> nat qout" where
  "qbwrite s b =
     (let n = BLEN b in
      if q_bypass (que s) then (emit [Bypass b] s, Done n)
      else if isset Qclosed s then (free1 b s, Raised (q_err (que s)))
      else if q_limit (que s) \<le> q_len (que s) \<and> q_noblock (que s) then (free1 b s, Done n)
      else (let (s, go) = qbwrite_flow (queued (qappend [b] s)) in (s, if go then Done n else Asleep)))"

text \<open>
  \<open>qwrite\<close> on the bytes at \<open>vp\<close>, of which \<open>sofar\<close> are queued: it returns the number of bytes, raises the error of a closed queue,
  or sleeps after a block, when \<open>sofar\<close> counts that block too.
\<close>

datatype wout = Wrote nat | Wraised bytes | Wasleep nat

function qwrite_loop :: "qst \<Rightarrow> bytes \<Rightarrow> nat \<Rightarrow> qst \<times> wout" where
  "qwrite_loop s p sofar =
     (let n = min (length p - sofar) Maxatomic;
          (m, b) = allocb (mem s) n; (m, b) = bstore m b (take n (drop sofar p)) in
      case qbwrite (s\<lparr>mem := m\<rparr>) b of
        (s, Raised e) \<Rightarrow> (s, Wraised e)
      | (s, Asleep) \<Rightarrow> (s, Wasleep (sofar + n))
      | (s, Done _) \<Rightarrow>
          if sofar + n < length p \<and> \<not> isset Qmsg s then qwrite_loop s p (sofar + n) else (s, Wrote (length p)))"
  by pat_completeness auto
termination
  by (relation "measure (\<lambda>(s, p, sofar). length p - sofar)") (auto simp: min_def Maxatomic_def)

declare qwrite_loop.simps [simp del]

definition qwrite :: "qst \<Rightarrow> bytes \<Rightarrow> qst \<times> wout" where "qwrite s p = qwrite_loop s p 0"

text \<open>The writer runs again after a sleep.\<close>

definition qwrite_resume :: "qst \<Rightarrow> bytes \<Rightarrow> nat \<Rightarrow> qst \<times> wout" where
  "qwrite_resume s p sofar =
     (case qbwrite_flow s of
        (s, False) \<Rightarrow> (s, Wasleep sofar)
      | (s, True) \<Rightarrow>
          if sofar < length p \<and> \<not> isset Qmsg s then qwrite_loop s p sofar else (s, Wrote (length p)))"

text \<open>\<open>dowakeup\<close> is not reset from one turn of the loop to the next.\<close>

function qiwrite_loop :: "qst \<Rightarrow> bytes \<Rightarrow> nat \<Rightarrow> bool \<Rightarrow> qst \<times> nat" where
  "qiwrite_loop s p sofar dowakeup =
     (let n = min (length p - sofar) Maxatomic in
      case iallocb (mem s) n of
        (m, None) \<Rightarrow> (s\<lparr>mem := m\<rparr>, sofar)
      | (m, Some b) \<Rightarrow>
          (let (m, b) = bstore m b (take n (drop sofar p)); s = s\<lparr>mem := m\<rparr>;
               (s, dowakeup) =
                 (if q_bypass (que s) then (emit [Bypass b] s, dowakeup)
                  else
                    (let s = qappend [b] s; d = (dowakeup \<or> isset Qstarve s); s = clrflag Qstarve s
                     in (if d then emit (if q_kick (que s) then [Kick, WakeR] else [WakeR]) s else s, d)))
           in if sofar + n < length p \<and> \<not> isset Qmsg s then qiwrite_loop s p (sofar + n) dowakeup
              else (s, sofar + n)))"
  by pat_completeness auto
termination
  by (relation "measure (\<lambda>(s, p, sofar, d). length p - sofar)") (auto simp: min_def Maxatomic_def)

declare qiwrite_loop.simps [simp del]

definition qiwrite :: "qst \<Rightarrow> bytes \<Rightarrow> qst \<times> nat" where "qiwrite s p = qiwrite_loop s p 0 False"

end
