(* ===== verification/QioInv.thy ===== *)
theory QioInv
  imports Qio "HOL-Library.Multiset"
begin

text \<open>
  The invariant of a queue. \<open>qinv t H s\<close>: nothing went wrong (\<open>bfault\<close>), the blocks of the queue are well formed, \<open>blast\<close> is
  the last of them, \<open>dlen\<close> counts the data and, if \<open>t\<close>, \<open>len\<close> counts the buffers; and every block ever allocated is in the queue, or was
  freed once, or is one of \<open>H\<close>, the blocks that others have. The lemmas say for each primitive of Qio what it does to the
  invariant and to the bytes in the queue (\<open>content\<close>).
\<close>

named_theorems qframe \<open>what an operation leaves alone\<close>

section \<open>Blocks\<close>

definition blk_ok :: "block \<Rightarrow> bool" where
  "blk_ok b \<longleftrightarrow> b_rp b \<le> b_wp b \<and> b_wp b \<le> length (b_buf b)"

abbreviation blks_ok :: "block list \<Rightarrow> bool" where "blks_ok \<equiv> list_all blk_ok"

definition bdatas :: "block list \<Rightarrow> bytes" where "bdatas bs = concat (map bdata bs)"

definition ids :: "block list \<Rightarrow> nat multiset" where "ids bs = mset (map b_id bs)"

lemma bdatas_simps [simp]:
  "bdatas [] = []" "bdatas (b # bs) = bdata b @ bdatas bs" "bdatas (bs @ cs) = bdatas bs @ bdatas cs"
  by (simp_all add: bdatas_def)

lemma ids_simps [simp]:
  "ids [] = {#}" "ids (b # bs) = add_mset (b_id b) (ids bs)" "ids (bs @ cs) = ids bs + ids cs"
  by (simp_all add: ids_def)

lemma length_bdata [simp]: "blk_ok b \<Longrightarrow> length (bdata b) = BLEN b"
  by (auto simp: bdata_def BLEN_def blk_ok_def)

lemma bdata_empty: "BLEN b = 0 \<Longrightarrow> bdata b = []"
  by (simp add: bdata_def)

lemma bdata_full: "blk_ok b \<Longrightarrow> BLEN b \<noteq> 0 \<Longrightarrow> bdata b \<noteq> []"
  using length_bdata by fastforce

lemma length_bdatas [simp]: "blks_ok bs \<Longrightarrow> length (bdatas bs) = blocklen bs"
  by (induction bs) simp_all

lemma blocklen_append [simp]: "blocklen (bs @ cs) = blocklen bs + blocklen cs"
  by (induction bs) simp_all

lemma blockalloclen_append [simp]: "blockalloclen (bs @ cs) = blockalloclen bs + blockalloclen cs"
  by (induction bs) simp_all

lemma advance_ok [simp]:
  "blk_ok b \<Longrightarrow> n \<le> BLEN b \<Longrightarrow> blk_ok (b\<lparr>b_rp := b_rp b + n\<rparr>)"
  "blk_ok b \<Longrightarrow> n \<le> BLEN b \<Longrightarrow> BLEN (b\<lparr>b_rp := b_rp b + n\<rparr>) = BLEN b - n"
  "BALLOC (b\<lparr>b_rp := k\<rparr>) = BALLOC b" "BALLOC (b\<lparr>b_wp := k\<rparr>) = BALLOC b"
  by (auto simp: blk_ok_def BLEN_def BALLOC_def)

lemma advance_data [simp]:
  "blk_ok b \<Longrightarrow> n \<le> BLEN b \<Longrightarrow> bdata (b\<lparr>b_rp := b_rp b + n\<rparr>) = drop n (bdata b)"
  by (simp add: bdata_def BLEN_def blk_ok_def drop_take add.commute)

lemma cut_ok [simp]:
  "blk_ok b \<Longrightarrow> n \<le> BLEN b \<Longrightarrow> blk_ok (b\<lparr>b_wp := b_rp b + n\<rparr>)"
  "BLEN (b\<lparr>b_wp := b_rp b + n\<rparr>) = n"
  by (auto simp: blk_ok_def BLEN_def)

lemma cut_data [simp]: "n \<le> BLEN b \<Longrightarrow> bdata (b\<lparr>b_wp := b_rp b + n\<rparr>) = take n (bdata b)"
  by (simp add: bdata_def BLEN_def)

text \<open>A new block is empty, and what is stored in it and fits comes after its data.\<close>

definition room :: "block \<Rightarrow> nat" where "room b = length (b_buf b) - b_wp b"

lemma allocb_new:
  assumes "allocb m n = (m', b)"
  shows "m' = m\<lparr>bfresh := bfresh m + 1\<rparr> \<and> b_id b = bfresh m \<and> blk_ok b \<and> BLEN b = 0 \<and> bdata b = [] \<and> BALLOC b = n \<and>
    room b = n \<and> b_rp b = 0 \<and> b_wp b = 0 \<and> length (b_buf b) = n"
  using assms by (auto simp: allocb_def newblock_def blk_ok_def BLEN_def bdata_def BALLOC_def room_def)

lemma bstore_ok:
  assumes "blk_ok b" "length p \<le> room b"
  obtains b' where "bstore m b p = (m, b')" "blk_ok b'" "bdata b' = bdata b @ p" "BLEN b' = BLEN b + length p"
    "BALLOC b' = BALLOC b" "b_id b' = b_id b" "room b' = room b - length p" "b_rp b' = b_rp b"
    "length (b_buf b') = length (b_buf b)" "b_wp b' = b_wp b + length p"
proof -
  have fits: "b_wp b + length p \<le> length (b_buf b)" using assms by (auto simp: blk_ok_def room_def)
  let ?b = "b\<lparr>b_buf := take (b_wp b) (b_buf b) @ p @ drop (b_wp b + length p) (b_buf b), b_wp := b_wp b + length p\<rparr>"
  have len: "length (b_buf ?b) = length (b_buf b)" using fits by simp
  have rp: "b_rp b \<le> b_wp b" "b_wp b \<le> length (b_buf b)" using assms by (simp_all add: blk_ok_def)
  have "bdata ?b = bdata b @ p"
    using rp fits by (simp add: bdata_def BLEN_def drop_take)
  moreover have "bstore m b p = (m, ?b)" using fits by (simp add: bstore_def)
  moreover have "blk_ok ?b" "BLEN ?b = BLEN b + length p" "BALLOC ?b = BALLOC b" "b_id ?b = b_id b" "room ?b = room b - length p"
    using rp fits len by (simp_all add: blk_ok_def BLEN_def BALLOC_def room_def)
  ultimately show ?thesis using len that by fastforce
qed

section \<open>Memory\<close>

text \<open>\<open>macc H m\<close>: the blocks allocated are those freed and those of \<open>H\<close>, each once.\<close>

definition macc :: "nat multiset \<Rightarrow> bmem \<Rightarrow> bool" where
  "macc H m \<longleftrightarrow> \<not> bfault m \<and> mset (bfreed m) + H = mset_set {..<bfresh m}"

lemma macc_free: "macc (add_mset (b_id b) H) m \<Longrightarrow> macc H (freeb m b)"
  by (simp add: macc_def freeb_def)

lemma macc_freelist: "macc (ids bs + H) m \<Longrightarrow> macc H (freeblist m bs)"
proof (induction bs arbitrary: m)
  case (Cons b bs)
  then have "macc (ids bs + H) (freeb m b)" by (intro macc_free) simp
  then show ?case using Cons.IH by simp
qed simp

lemma macc_alloc: "macc H m \<Longrightarrow> allocb m n = (m', b) \<Longrightarrow> macc (add_mset (b_id b) H) m'"
  by (auto simp: macc_def allocb_def newblock_def lessThan_Suc)

lemma macc_once: "macc H m \<Longrightarrow> count H x \<le> 1"
  using count_union [of "mset (bfreed m)" H x] by (auto simp: macc_def count_mset_set' split: if_splits)

lemma macc_distinct: "macc (ids bs + H) m \<Longrightarrow> distinct (map b_id bs)"
proof -
  assume m: "macc (ids bs + H) m"
  have "count (mset (map b_id bs)) x \<le> 1" for x
    using macc_once [OF m, of x] by (simp add: ids_def)
  then show ?thesis
    by (metis One_nat_def count_eq_zero_iff count_inI distinct_count_atmost_1 le_SucE le_zero_eq set_mset_mset)
qed

lemma iallocb_cases:
  obtains "iallocb m n = (m, None)" "nomem m" | m' b where "iallocb m n = (m', Some b)" "allocb m n = (m', b)"
  by (cases "nomem m"; cases "allocb m n") (auto simp: iallocb_def)

section \<open>Queues\<close>

definition content :: "qst \<Rightarrow> bytes" where "content s = bdatas (q_bfirst (que s))"

definition qinv :: "bool \<Rightarrow> nat multiset \<Rightarrow> qst \<Rightarrow> bool" where
  "qinv t H s \<longleftrightarrow>
     macc (ids (q_bfirst (que s)) + H) (mem s) \<and> blks_ok (q_bfirst (que s)) \<and>
     q_dlen (que s) = int (blocklen (q_bfirst (que s))) \<and>
     (t \<longrightarrow> q_len (que s) = int (blockalloclen (q_bfirst (que s)))) \<and>
     (q_bfirst (que s) \<noteq> [] \<longrightarrow> q_blast (que s) = b_id (last (q_bfirst (que s))))"

lemma qinvI:
  assumes "macc (ids (q_bfirst (que s)) + H) (mem s)" "blks_ok (q_bfirst (que s))"
    "q_dlen (que s) = int (blocklen (q_bfirst (que s)))"
    "t \<Longrightarrow> q_len (que s) = int (blockalloclen (q_bfirst (que s)))"
    "q_bfirst (que s) \<noteq> [] \<Longrightarrow> q_blast (que s) = b_id (last (q_bfirst (que s)))"
  shows "qinv t H s"
  using assms by (simp add: qinv_def)

lemma qinvD:
  assumes "qinv t H s"
  shows "macc (ids (q_bfirst (que s)) + H) (mem s)" "blks_ok (q_bfirst (que s))"
    "q_dlen (que s) = int (blocklen (q_bfirst (que s)))"
    "t \<Longrightarrow> q_len (que s) = int (blockalloclen (q_bfirst (que s)))"
    "q_bfirst (que s) \<noteq> [] \<Longrightarrow> q_blast (que s) = b_id (last (q_bfirst (que s)))"
  using assms by (simp_all add: qinv_def)

lemma length_content: "qinv t H s \<Longrightarrow> int (length (content s)) = q_dlen (que s)"
  by (simp add: content_def qinvD)

text \<open>Flags and events do not matter to the invariant.\<close>

lemma que_sel [simp]:
  "que (onq f s) = f (que s)" "mem (onq f s) = mem s" "evs (onq f s) = evs s"
  "que (emit es s) = que s" "mem (emit es s) = mem s" "evs (emit es s) = evs s @ es"
  "que (free1 b s) = que s" "mem (free1 b s) = freeb (mem s) b" "evs (free1 b s) = evs s"
  "que (freeall bs s) = que s" "mem (freeall bs s) = freeblist (mem s) bs" "evs (freeall bs s) = evs s"
  by (simp_all add: onq_def emit_def free1_def freeall_def)

lemmas flag_defs = setflag_def clrflag_def unflow_def feed_def flow_if_def qwakeup_unlock_def

lemma flags_frame [qframe, simp]:
  "mem (setflag x s) = mem s" "mem (clrflag x s) = mem s" "mem (unflow l es s) = mem s" "mem (feed es s) = mem s"
  "mem (flow_if l s) = mem s" "mem (qwakeup_unlock s) = mem s"
  by (simp_all add: flag_defs)

lemma bfirst_frame [qframe, simp]:
  "q_bfirst (que (setflag x s)) = q_bfirst (que s)" "q_bfirst (que (clrflag x s)) = q_bfirst (que s)"
  "q_bfirst (que (unflow l es s)) = q_bfirst (que s)" "q_bfirst (que (feed es s)) = q_bfirst (que s)"
  "q_bfirst (que (flow_if l s)) = q_bfirst (que s)" "q_bfirst (que (qwakeup_unlock s)) = q_bfirst (que s)"
  "q_blast (que (setflag x s)) = q_blast (que s)" "q_blast (que (clrflag x s)) = q_blast (que s)"
  "q_blast (que (unflow l es s)) = q_blast (que s)" "q_blast (que (feed es s)) = q_blast (que s)"
  "q_blast (que (flow_if l s)) = q_blast (que s)" "q_blast (que (qwakeup_unlock s)) = q_blast (que s)"
  by (simp_all add: flag_defs)

lemma len_frame [qframe, simp]:
  "q_len (que (setflag x s)) = q_len (que s)" "q_len (que (clrflag x s)) = q_len (que s)"
  "q_len (que (unflow l es s)) = q_len (que s)" "q_len (que (feed es s)) = q_len (que s)"
  "q_len (que (flow_if l s)) = q_len (que s)" "q_len (que (qwakeup_unlock s)) = q_len (que s)"
  "q_dlen (que (setflag x s)) = q_dlen (que s)" "q_dlen (que (clrflag x s)) = q_dlen (que s)"
  "q_dlen (que (unflow l es s)) = q_dlen (que s)" "q_dlen (que (feed es s)) = q_dlen (que s)"
  "q_dlen (que (flow_if l s)) = q_dlen (que s)" "q_dlen (que (qwakeup_unlock s)) = q_dlen (que s)"
  by (simp_all add: flag_defs)

lemma qinv_frame [simp]:
  "qinv t H (setflag x s) = qinv t H s" "qinv t H (clrflag x s) = qinv t H s" "qinv t H (unflow l es s) = qinv t H s"
  "qinv t H (feed es s) = qinv t H s" "qinv t H (flow_if l s) = qinv t H s" "qinv t H (qwakeup_unlock s) = qinv t H s"
  "qinv t H (emit es s) = qinv t H s"
  by (simp_all add: qinv_def)

lemma content_frame [simp]:
  "content (setflag x s) = content s" "content (clrflag x s) = content s" "content (unflow l es s) = content s"
  "content (feed es s) = content s" "content (flow_if l s) = content s" "content (qwakeup_unlock s) = content s"
  "content (emit es s) = content s" "content (free1 b s) = content s" "content (freeall bs s) = content s"
  "content (s\<lparr>mem := m\<rparr>) = content s"
  by (simp_all add: content_def)

text \<open>What stays the same besides: the kind of queue it is, and its limit.\<close>

definition mode :: "qst \<Rightarrow> qflag set \<times> bool \<times> bool \<times> int \<times> bool \<times> int" where
  "mode s = (q_state (que s) \<inter> {Qmsg, Qcoalesce, Qkick}, q_bypass (que s), q_kick (que s), q_limit (que s), q_noblock (que s),
     q_inilim (que s))"

lemma mode_flags:
  assumes "mode s' = mode s"
  shows "isset Qmsg s' = isset Qmsg s" "isset Qcoalesce s' = isset Qcoalesce s" "isset Qkick s' = isset Qkick s"
    "q_bypass (que s') = q_bypass (que s)" "q_kick (que s') = q_kick (que s)" "q_limit (que s') = q_limit (que s)"
    "q_noblock (que s') = q_noblock (que s)" "q_inilim (que s') = q_inilim (que s)"
  using assms by (auto simp: mode_def isset_def)

lemma mode_frame [simp]:
  "mode (setflag Qstarve s) = mode s" "mode (setflag Qflow s) = mode s" "mode (clrflag Qstarve s) = mode s"
  "mode (clrflag Qflow s) = mode s" "mode (unflow l es s) = mode s" "mode (feed es s) = mode s" "mode (flow_if l s) = mode s"
  "mode (qwakeup_unlock s) = mode s" "mode (emit es s) = mode s" "mode (free1 b s) = mode s" "mode (freeall bs s) = mode s"
  "mode (s\<lparr>mem := m\<rparr>) = mode s" "mode (setbfirst bs s) = mode s" "mode (addlens l d s) = mode s" "mode (setblast b s) = mode s"
  "mode (qputback s b) = mode s"
  by (auto simp: mode_def flag_defs emit_def free1_def freeall_def setbfirst_def addlens_def setblast_def onq_def qputback_def Let_def)

lemma isset_frame [simp]:
  "isset x (setflag y s) \<longleftrightarrow> x = y \<or> isset x s" "isset x (clrflag y s) \<longleftrightarrow> x \<noteq> y \<and> isset x s" "isset x (emit es s) = isset x s"
  "isset x (free1 b s) = isset x s" "isset x (freeall bs s) = isset x s" "isset x (s\<lparr>mem := m\<rparr>) = isset x s"
  by (auto simp: isset_def setflag_def clrflag_def)

lemma noblock_frame [simp]:
  "q_noblock (que (setflag y s)) = q_noblock (que s)" "q_noblock (que (clrflag y s)) = q_noblock (que s)"
  "q_noblock (que (qwakeup_unlock s)) = q_noblock (que s)" "q_noblock (que (unflow l es s)) = q_noblock (que s)"
  by (simp_all add: flag_defs)

lemma mode_qremove: "qremove s = (s', r) \<Longrightarrow> mode s' = mode s"
  by (auto simp: qremove_def split: list.splits)

lemma qinv_free1: "qinv t (add_mset (b_id b) H) s \<Longrightarrow> qinv t H (free1 b s)"
  by (auto simp: qinv_def intro!: macc_free)

lemma qinv_freeall: "qinv t (ids bs + H) s \<Longrightarrow> qinv t H (freeall bs s)"
  by (auto simp: qinv_def ac_simps intro!: macc_freelist)

lemma qinv_alloc: "qinv t H s \<Longrightarrow> allocb (mem s) n = (m, b) \<Longrightarrow> qinv t (add_mset (b_id b) H) (s\<lparr>mem := m\<rparr>)"
  by (auto simp: qinv_def dest: macc_alloc)

lemma setnext_last: "distinct (map b_id bs) \<Longrightarrow> bs \<noteq> [] \<Longrightarrow> setnext (b_id (last bs)) cs bs = bs @ cs"
proof (induction bs)
  case (Cons b bs)
  then show ?case by (cases bs) (auto simp: image_iff dest: last_in_set split: if_splits)
qed simp

lemma qlink_eq: "qinv t H s \<Longrightarrow> qlink bs s = setbfirst (q_bfirst (que s) @ bs) s"
  using macc_distinct [of "q_bfirst (que s)" H "mem s"] setnext_last [of "q_bfirst (que s)" bs]
  by (auto simp: qlink_def setbfirst_def onq_def Let_def qinv_def)

lemma qappend_sel [simp]:
  assumes "qinv t H s"
  shows "q_bfirst (que (qappend bs s)) = q_bfirst (que s) @ bs" "mem (qappend bs s) = mem s"
    "q_blast (que (qappend bs s)) = b_id (last bs)" "evs (qappend bs s) = evs s"
    "q_len (que (qappend bs s)) = q_len (que s) + int (blockalloclen bs)"
    "q_dlen (que (qappend bs s)) = q_dlen (que s) + int (blocklen bs)"
  by (simp_all add: qappend_def qlink_eq [OF assms] addlens_def setblast_def setbfirst_def)

lemma qappend_ok:
  assumes "qinv t (ids bs + H) s" "bs \<noteq> []" "blks_ok bs"
  shows "qinv t H (qappend bs s)" "content (qappend bs s) = content s @ bdatas bs"
proof -
  note q = qinvD [OF assms(1)] and a = qappend_sel [OF assms(1), of bs]
  show "qinv t H (qappend bs s)"
    by (rule qinvI) (use q assms(2,3) in \<open>auto simp: a ac_simps\<close>)
  show "content (qappend bs s) = content s @ bdatas bs" by (simp add: content_def a)
qed

lemma mode_qappend [simp]: "mode (qappend bs s) = mode s"
  by (simp add: qappend_def qlink_def Let_def mode_def addlens_def setblast_def onq_def qfault_def)

lemma qremove_ok:
  assumes "qinv t H s" "qremove s = (s', Some b)"
  shows "qinv t (add_mset (b_id b) H) s'" "blk_ok b" "content s = bdata b @ content s'" "mem s' = mem s"
    "q_bfirst (que s) = b # q_bfirst (que s')" "evs s' = evs s" "q_blast (que s') = q_blast (que s)"
    "q_len (que s') = q_len (que s) - int (BALLOC b)"
proof -
  have s': "q_bfirst (que s) = b # q_bfirst (que s')"
    "s' = addlens (- int (BALLOC b)) (- int (BLEN b)) (setbfirst (q_bfirst (que s')) s)"
    using assms(2) by (auto simp: qremove_def addlens_def setbfirst_def onq_def split: list.splits)
  note q = qinvD [OF assms(1), unfolded s'(1)]
  show "mem s' = mem s" and "evs s' = evs s" and l: "q_blast (que s') = q_blast (que s)"
    and "q_len (que s') = q_len (que s) - int (BALLOC b)"
    by (subst s'(2), simp add: addlens_def setbfirst_def)+
  moreover have "q_dlen (que s') = q_dlen (que s) - int (BLEN b)"
    by (subst s'(2), simp add: addlens_def setbfirst_def)
  ultimately show "qinv t (add_mset (b_id b) H) s'"
    using q by (intro qinvI) auto
  show "blk_ok b" using q by simp
  show "content s = bdata b @ content s'" by (simp add: content_def s'(1))
qed (use assms(2) in \<open>auto simp: qremove_def addlens_def setbfirst_def onq_def split: list.splits\<close>)

lemma qputback_sel [simp]:
  "q_bfirst (que (qputback s b)) = b # q_bfirst (que s)" "mem (qputback s b) = mem s" "evs (qputback s b) = evs s"
  "q_len (que (qputback s b)) = q_len (que s) + int (BALLOC b)" "q_dlen (que (qputback s b)) = q_dlen (que s) + int (BLEN b)"
  "q_blast (que (qputback s b)) = (if q_bfirst (que s) = [] then b_id b else q_blast (que s))"
  by (simp_all add: qputback_def Let_def addlens_def setbfirst_def setblast_def)

lemma qputback_ok:
  assumes "qinv t (add_mset (b_id b) H) s" "blk_ok b"
  shows "qinv t H (qputback s b)" "content (qputback s b) = bdata b @ content s"
proof -
  show "qinv t H (qputback s b)" using qinvD [OF assms(1)] assms(2) by (intro qinvI) auto
  show "content (qputback s b) = bdata b @ content s" by (simp add: content_def)
qed

end
