(* ===== verification/QioOps.thy ===== *)
theory QioOps
  imports QioInv
begin

text \<open>
  What each operation of Qio does to the invariant \<open>qinv\<close> and to the bytes of the queue: one rule for each, in the order of
  Qio. In every rule, the blocks an operation gives to its caller join \<open>H\<close>, and those it takes from its caller leave it.
\<close>

section \<open>Taking\<close>

lemma qget_eq:
  "qget s =
     (case qremove s of
        (s', None) \<Rightarrow> (setflag Qstarve s', None)
      | (s', Some b) \<Rightarrow> (unflow (half (q_limit (que s'))) [WakeW] s', Some b))"
  by (simp add: qget_def qremove_def Let_def split: list.split)

lemma qremove_none: "qremove s = (s', None) \<longleftrightarrow> s' = s \<and> q_bfirst (que s) = []"
  by (auto simp: qremove_def split: list.splits)

lemma qget_ok:
  assumes "qinv t H s" "qget s = (s', r)"
  shows "case r of None \<Rightarrow> qinv t H s' \<and> q_bfirst (que s) = [] \<and> content s' = content s
     | Some b \<Rightarrow> qinv t (add_mset (b_id b) H) s' \<and> blk_ok b \<and> content s = bdata b @ content s'"
proof (cases "qremove s")
  case (Pair u x)
  show ?thesis
  proof (cases x)
    case None
    then show ?thesis using assms Pair by (auto simp: qget_eq qremove_none)
  next
    case (Some b)
    then show ?thesis using assms Pair qremove_ok [of t H s u b] by (auto simp: qget_eq)
  qed
qed

lemma setbfirst_sel [simp]:
  "q_bfirst (que (setbfirst bs s)) = bs" "mem (setbfirst bs s) = mem s" "q_len (que (setbfirst bs s)) = q_len (que s)"
  "q_dlen (que (setbfirst bs s)) = q_dlen (que s)" "q_blast (que (setbfirst bs s)) = q_blast (que s)"
  "q_bfirst (que (addlens l d s)) = q_bfirst (que s)" "mem (addlens l d s) = mem s" "q_len (que (addlens l d s)) = q_len (que s) + l"
  "q_dlen (que (addlens l d s)) = q_dlen (que s) + d" "q_blast (que (addlens l d s)) = q_blast (que s)"
  "isset x (setbfirst bs s) = isset x s" "isset x (addlens l d s) = isset x s" "q_limit (que (setbfirst bs s)) = q_limit (que s)"
  "q_limit (que (addlens l d s)) = q_limit (que s)" "evs (setbfirst bs s) = evs s" "evs (addlens l d s) = evs s"
  by (simp_all add: setbfirst_def addlens_def isset_def)

text \<open>Using up a part of the first block.\<close>

lemma qinv_advance:
  assumes "qinv t H s" "q_bfirst (que s) = b # nxt" "n \<le> BLEN b"
  shows "qinv t H (addlens 0 (- int n) (setbfirst (b\<lparr>b_rp := b_rp b + n\<rparr> # nxt) s))"
proof -
  note q = qinvD [OF assms(1), unfolded assms(2)]
  show ?thesis using q assms(3) by (intro qinvI) (auto simp: of_nat_diff)
qed

lemma qdiscard_loop_ok:
  assumes "qinv t H s" "qdiscard_loop s len sofar = (s', k)" "sofar \<le> len"
  shows "qinv t H s' \<and> sofar \<le> k \<and> k \<le> len \<and> (\<exists>d. content s = d @ content s' \<and> length d = k - sofar) \<and> (k < len \<longrightarrow> content s' = [])"
  using assms
proof (induction s len sofar rule: qdiscard_loop.induct)
  case (1 s len sofar)
  show ?case
  proof (cases "len \<le> sofar \<or> q_bfirst (que s) = []")
    case True
    then show ?thesis using "1.prems" by (auto simp: qdiscard_loop.simps [of s] content_def split: if_splits)
  next
    case False
    then obtain b nxt where b: "q_bfirst (que s) = b # nxt" by (cases "q_bfirst (que s)") auto
    let ?r = "addlens (- int (BALLOC b)) (- int (BLEN b)) (setbfirst nxt s)"
    have rm: "qremove s = (?r, Some b)" by (simp add: qremove_def b)
    note rmo = qremove_ok [OF "1.prems"(1) rm]
    show ?thesis
    proof (cases "BLEN b \<le> len - sofar")
      case True
      let ?u = "free1 b ?r"
      have u: "qinv t H ?u" using rmo(1) by (rule qinv_free1)
      have "qdiscard_loop ?u len (sofar + BLEN b) = (s', k)"
        using "1.prems"(2) False True b by (simp add: qdiscard_loop.simps [of s] Let_def)
      from "1.IH" [OF _ b refl True u this] False True
      have ih: "qinv t H s' \<and> sofar + BLEN b \<le> k \<and> k \<le> len \<and>
          (\<exists>d. content ?u = d @ content s' \<and> length d = k - (sofar + BLEN b)) \<and> (k < len \<longrightarrow> content s' = [])"
        by auto
      then obtain d where d: "content ?u = d @ content s'" "length d = k - (sofar + BLEN b)" by blast
      have "content s = (bdata b @ d) @ content s'" using rmo(3) d(1) by simp
      moreover have "length (bdata b @ d) = k - sofar" using d(2) ih rmo(2) by simp
      ultimately show ?thesis using ih by (metis add_leD1)
    next
      case more: False
      let ?n = "len - sofar"
      have s': "s' = addlens 0 (- int ?n) (setbfirst (b\<lparr>b_rp := b_rp b + ?n\<rparr> # nxt) s)" "k = sofar + ?n"
        using "1.prems"(2) False more b by (auto simp: qdiscard_loop.simps [of s] Let_def)
      have n: "?n \<le> BLEN b" using more by simp
      have "content s = take ?n (bdata b) @ content s'"
        using n rmo(2) by (simp add: content_def b s')
      moreover have "length (take ?n (bdata b)) = k - sofar" using n rmo(2) s' by simp
      ultimately show ?thesis
        using qinv_advance [OF "1.prems"(1) b n] s' "1.prems"(3) by auto
    qed
  qed
qed

lemma qdiscard_ok:
  assumes "qinv t H s" "qdiscard s len = (s', k)"
  shows "qinv t H s' \<and> k \<le> len \<and> (\<exists>d. content s = d @ content s' \<and> length d = k) \<and> (k < len \<longrightarrow> content s' = [])"
proof -
  obtain u where u: "qdiscard_loop s len 0 = (u, k)" "s' = unflow (q_limit (que u)) [WakeW] u"
    using assms(2) by (auto simp: qdiscard_def split: prod.splits)
  show ?thesis using qdiscard_loop_ok [OF assms(1) u(1)] u(2) by simp
qed

text \<open>\<open>qconsume\<close>: the blocks at the front that hold no data.\<close>

lemma consume_skip_ok:
  assumes "consume_skip bs l f = (cs, l', f')" "blks_ok bs"
  shows "\<exists>es. bs = es @ cs \<and> (\<forall>e\<in>set es. BLEN e = 0) \<and> l' = l - int (blockalloclen es) \<and> ids f' = ids es + ids f \<and>
    (cs \<noteq> [] \<longrightarrow> 0 < BLEN (hd cs))"
  using assms
proof (induction bs l f rule: consume_skip.induct)
  case (2 b nxt l tofree)
  show ?case
  proof (cases "0 < BLEN b")
    case False
    with "2.IH" "2.prems" obtain es where "nxt = es @ cs" "\<forall>e\<in>set es. BLEN e = 0"
      "l' = l - int (BALLOC b) - int (blockalloclen es)" "ids f' = ids es + ids (b # tofree)" "cs \<noteq> [] \<longrightarrow> 0 < BLEN (hd cs)"
      by auto
    then show ?thesis using False by (intro exI [of _ "b # es"]) auto
  qed (use "2.prems" in auto)
qed auto

lemma bdatas_empty: "\<forall>e\<in>set es. BLEN e = 0 \<Longrightarrow> bdatas es = []"
  by (induction es) (simp_all add: bdata_empty)

lemma blocklen_empty: "\<forall>e\<in>set es. BLEN e = 0 \<Longrightarrow> blocklen es = 0"
  by (induction es) simp_all

lemma take_drop_app: "take n x @ drop n x @ y = x @ y"
  by (metis append_assoc append_take_drop_id)

lemma qconsume_ok:
  assumes "qinv t H s" "qconsume s len = (s', r, p)"
  shows "if r = -1 then qinv t (ids (q_bfirst (que s)) + H) s' \<and> p = [] \<and> content s = [] \<and> content s' = [] \<and>
       q_bfirst (que s') = [] \<and> (\<forall>b\<in>set (q_bfirst (que s)). BLEN b = 0)
     else qinv t H s' \<and> r = int (length p) \<and> length p \<le> len \<and> (\<exists>d. content s = p @ d @ content s' \<and> (\<not> isset Qmsg s \<longrightarrow> d = []))"
proof -
  obtain cs l f where sk: "consume_skip (q_bfirst (que s)) (q_len (que s)) [] = (cs, l, f)" by (cases "consume_skip (q_bfirst (que s)) (q_len (que s)) []") auto
  note q = qinvD [OF assms(1)]
  from consume_skip_ok [OF sk q(2)] obtain es where es: "q_bfirst (que s) = es @ cs" "\<forall>e\<in>set es. BLEN e = 0"
    "l = q_len (que s) - int (blockalloclen es)" "ids f = ids es" "cs \<noteq> [] \<longrightarrow> 0 < BLEN (hd cs)" by auto
  let ?u = "onq (\<lambda>q. q\<lparr>q_bfirst := cs, q_len := l\<rparr>) s"
  have u: "qinv t (ids es + H) ?u"
    using q es by (intro qinvI) (auto simp: blocklen_empty ac_simps)
  have cu: "content ?u = content s" using es(2) by (simp add: content_def es(1) bdatas_empty)
  show ?thesis
  proof (cases cs)
    case Nil
    then have "s' = setflag Qstarve ?u" "r = -1" "p = []"
      using assms(2) by (simp_all add: qconsume_def sk)
    then show ?thesis using u cu Nil es by (simp add: content_def bdatas_empty)
  next
    case (Cons b nxt)
    define n where "n = min len (BLEN b)"
    let ?gone = "isset Qmsg s \<or> n = BLEN b"
    let ?b = "b\<lparr>b_rp := b_rp b + n\<rparr>"
    have gone: "isset Qmsg (onq (\<lambda>q. q\<lparr>q_bfirst := x, q_len := y\<rparr>) s) = isset Qmsg s" for x y by (simp add: isset_def)
    have res: "r = int n" "p = take n (bdata b)"
      and s': "s' = (let s = addlens 0 (- int n) (setbfirst (if ?gone then nxt else ?b # nxt) ?u);
         s = (if ?gone then addlens (- int (BALLOC ?b)) (- int (BLEN ?b)) s else s)
       in freeall (if ?gone then ?b # f else f) (unflow (half (q_limit (que s))) [WakeW] s))"
      using assms(2) Cons by (auto simp: qconsume_def sk Let_def n_def gone)
    have nb: "n \<le> BLEN b" by (simp add: n_def)
    have bok: "blk_ok b" using q(2) es(1) Cons by simp
    have ub: "q_bfirst (que ?u) = b # nxt" using Cons by simp
    let ?v = "addlens 0 (- int n) (setbfirst (?b # nxt) ?u)"
    have v: "qinv t (ids es + H) ?v" using qinv_advance [OF u ub nb] .
    have lp: "length p = n" using res(2) nb bok by simp
    show ?thesis
    proof (cases ?gone)
      case True
      let ?w = "addlens (- int (BALLOC ?b)) (- int (BLEN ?b)) (addlens 0 (- int n) (setbfirst nxt ?u))"
      have w: "qinv t (ids (?b # es) + H) ?w"
        using qinvD [OF v] by (intro qinvI) (auto simp: algebra_simps)
      have s'': "s' = freeall (?b # f) (unflow (half (q_limit (que ?w))) [WakeW] ?w)"
        using True by (simp add: s' Let_def)
      have "qinv t H s'"
        unfolding s'' by (rule qinv_freeall) (use w es(4) in simp)
      moreover have "content s = p @ drop n (bdata b) @ content s'"
        using cu nb Cons by (simp add: s'' res content_def take_drop_app)
      moreover have "\<not> isset Qmsg s \<longrightarrow> drop n (bdata b) = []" using True bok by auto
      ultimately show ?thesis using res lp nb by (auto simp: n_def)
    next
      case False
      have s'': "s' = freeall f (unflow (half (q_limit (que ?v))) [WakeW] ?v)" using False by (simp add: s' Let_def)
      have "qinv t H s'" unfolding s'' by (rule qinv_freeall) (use v es(4) in simp)
      moreover have "content s = p @ content s'"
        using cu nb Cons bok by (simp add: s'' res content_def take_drop_app)
      ultimately show ?thesis using res lp by (auto simp: n_def)
    qed
  qed
qed

section \<open>Adding\<close>

lemma qpass_tail_ok:
  assumes "qinv t (ids bs + H) s" "bs \<noteq> []" "blks_ok bs"
  shows "qinv t H (qpass_tail s bs)" "content (qpass_tail s bs) = content s @ bdatas bs"
  using qappend_ok [OF assms] by (simp_all add: qpass_tail_def Let_def)

lemma qpass_ok:
  assumes "qinv t (ids bs + H) s" "bs \<noteq> []" "blks_ok bs" "qpass s bs = (s', r)"
  shows "qinv t H s' \<and> content s' = content s @ (if r = -1 \<or> isset Qclosed s then [] else bdatas bs)"
  using assms qpass_tail_ok [OF assms(1-3)] qinv_freeall [OF assms(1)]
  by (auto simp: qpass_def split: if_splits)

lemma qpassnolim_ok:
  assumes "qinv t (ids bs + H) s" "bs \<noteq> []" "blks_ok bs" "qpassnolim s bs = (s', r)"
  shows "qinv t H s' \<and> content s' = content s @ (if isset Qclosed s then [] else bdatas bs)"
  using assms qpass_tail_ok [OF assms(1-3)] qinv_freeall [OF assms(1)]
  by (auto simp: qpassnolim_def split: if_splits list.splits)

lemma qaddlist_ok:
  assumes "qinv t (ids bs + H) s" "bs \<noteq> []" "blks_ok bs"
  shows "qinv t H (qaddlist s bs)" "content (qaddlist s bs) = content s @ bdatas bs"
  using qappend_ok [OF assms] assms(2) by (simp_all add: qaddlist_def)

text \<open>A block filled from memory, and what goes for it.\<close>

lemma filled:
  assumes "qinv t H s" "allocb (mem s) (length p) = (m, b)"
  obtains b' where "bstore m b p = (m, b')" "blk_ok b'" "bdata b' = p" "BLEN b' = length p" "BALLOC b' = length p"
    "qinv t (ids [b'] + H) (s\<lparr>mem := m\<rparr>)"
proof -
  note new = allocb_new [OF assms(2)]
  then have "blk_ok b" "length p \<le> room b" by auto
  then obtain b' where "bstore m b p = (m, b')" "blk_ok b'" "bdata b' = bdata b @ p" "BLEN b' = BLEN b + length p"
    "BALLOC b' = BALLOC b" "b_id b' = b_id b" by (rule bstore_ok)
  then show ?thesis using new qinv_alloc [OF assms] that by simp
qed

lemma qproduce_ok:
  assumes "qinv t H s" "qproduce s p = (s', r)"
  shows "qinv t H s' \<and> content s' = content s @ (if r = -1 then [] else p) \<and> (r = -1 \<or> r = int (length p))"
proof (cases "isset Qclosed s \<or> q_limit (que s) \<le> q_len (que s)")
  case True
  then show ?thesis using assms by (auto simp: qproduce_def split: if_splits)
next
  case False
  then have f: "\<not> isset Qclosed s" "\<not> q_limit (que s) \<le> q_len (que s)" by auto
  show ?thesis
  proof (cases rule: iallocb_cases [of "mem s" "length p"])
    case 1
    then have "s' = s\<lparr>mem := mem s\<rparr>" "r = -1" using assms(2) f by (auto simp: qproduce_def)
    then show ?thesis using assms(1) by simp
  next
    case (2 m b)
    obtain b' where b': "bstore m b p = (m, b')" "blk_ok b'" "bdata b' = p" "qinv t (ids [b'] + H) (s\<lparr>mem := m\<rparr>)"
      by (rule filled [OF assms(1) 2(2)])
    note a = qappend_ok [OF b'(4)]
    show ?thesis using assms(2) f 2 a b' by (auto simp: qproduce_def Let_def)
  qed
qed

section \<open>Copying\<close>

lemma qcopy_seek_ok:
  assumes "qcopy_seek bs offset sofar = Some (p, nxt)" "blks_ok bs" "sofar \<le> offset"
  shows "p @ bdatas nxt = drop (offset - sofar) (bdatas bs) \<and> blks_ok nxt"
  using assms
proof (induction bs offset sofar rule: qcopy_seek.induct)
  case (2 b nxt' offset sofar)
  show ?case
  proof (cases "offset < sofar + BLEN b")
    case False
    then have "p @ bdatas nxt = drop (offset - (sofar + BLEN b)) (bdatas nxt') \<and> blks_ok nxt" using 2 by auto
    then show ?thesis using False "2.prems" by simp
  qed (use "2.prems" in auto)
qed simp

lemma qcopy_seek_none:
  "qcopy_seek bs offset sofar = None \<Longrightarrow> blks_ok bs \<Longrightarrow> sofar \<le> offset \<Longrightarrow> drop (offset - sofar) (bdatas bs) = []"
  by (induction bs offset sofar rule: qcopy_seek.induct) (auto split: if_splits)

lemma qcopy_loop_ok:
  assumes "blk_ok nb" "blks_ok nxt" "len - sofar \<le> room nb" "qcopy_loop m nb p nxt len sofar = (m', nb')"
  shows "m' = m \<and> blk_ok nb' \<and> b_id nb' = b_id nb \<and> bdata nb' = bdata nb @ take (len - sofar) (p @ bdatas nxt)"
  using assms
proof (induction m nb p nxt len sofar rule: qcopy_loop.induct)
  case (1 m nb p len sofar)
  have "length (take (len - sofar) p) \<le> room nb" using "1.prems"(3) by simp
  with "1.prems"(1) obtain b' where "bstore m nb (take (len - sofar) p) = (m, b')" "blk_ok b'"
    "bdata b' = bdata nb @ take (len - sofar) p" "b_id b' = b_id nb" by (rule bstore_ok)
  then show ?case using "1.prems" by (auto split: if_splits)
next
  case (2 m nb p b nxt len sofar)
  show ?case
  proof (cases "sofar < len")
    case True
    let ?n = "min (length p) (len - sofar)"
    have "length (take ?n p) \<le> room nb" using "2.prems"(3) by simp
    with "2.prems"(1) obtain b' where b': "bstore m nb (take ?n p) = (m, b')" "blk_ok b'" "bdata b' = bdata nb @ take ?n p"
      "b_id b' = b_id nb" "room b' = room nb - length (take ?n p)" by (rule bstore_ok)
    have r: "len - (sofar + ?n) \<le> room b'" using "2.prems"(3) b'(5) by (cases "length p \<le> len - sofar") simp_all
    have run: "qcopy_loop m b' (bdata b) nxt len (sofar + ?n) = (m', nb')"
      using "2.prems"(4) True b'(1) by (simp add: Let_def)
    have nx: "blks_ok nxt" using "2.prems"(2) by simp
    have "m' = m \<and> blk_ok nb' \<and> b_id nb' = b_id b' \<and> bdata nb' = bdata b' @ take (len - (sofar + ?n)) (bdata b @ bdatas nxt)"
      by (rule "2.IH" [OF True refl refl _ b'(2) nx r run]) (simp add: b'(1))
    then show ?thesis using b' by (auto simp: min_def)
  qed (use "2.prems" in auto)
qed

lemma qcopy_ok:
  assumes "qinv t H s" "qcopy s len offset = (s', b)"
  shows "qinv t (add_mset (b_id b) H) s' \<and> que s' = que s \<and> blk_ok b \<and> bdata b = take len (drop offset (content s))"
proof -
  obtain m nb where a: "allocb (mem s) len = (m, nb)" by fastforce
  note new = allocb_new [OF a] and inv = qinv_alloc [OF assms(1) a] and q = qinvD [OF assms(1)]
  show ?thesis
  proof (cases "qcopy_seek (q_bfirst (que s)) offset 0")
    case None
    then show ?thesis using assms(2) a new inv qcopy_seek_none [OF None q(2)] by (auto simp: qcopy_def content_def)
  next
    case (Some pn)
    obtain p nxt where pn: "pn = (p, nxt)" by fastforce
    obtain m' nb' where l: "qcopy_loop m nb p nxt len 0 = (m', nb')" by fastforce
    have sk: "p @ bdatas nxt = drop offset (content s) \<and> blks_ok nxt"
      using qcopy_seek_ok [OF Some [unfolded pn] q(2)] by (simp add: content_def)
    have "m' = m \<and> blk_ok nb' \<and> b_id nb' = b_id nb \<and> bdata nb' = bdata nb @ take (len - 0) (p @ bdatas nxt)"
      by (rule qcopy_loop_ok [OF _ _ _ l]) (use new sk in auto)
    then show ?thesis using assms(2) a l Some pn new inv sk by (auto simp: qcopy_def)
  qed
qed

section \<open>Closing\<close>

lemma qclose_ok: "qinv t H s \<Longrightarrow> qinv t H (qclose s) \<and> content (qclose s) = []"
proof -
  assume s: "qinv t H s"
  let ?s = "onq (\<lambda>q. q\<lparr>q_state := insert Qclosed (q_state q) - {Qflow, Qstarve}, q_err := Ehungup, q_bfirst := [],
    q_len := 0, q_dlen := 0, q_noblock := False\<rparr>) s"
  have "qinv t (ids (q_bfirst (que s)) + H) ?s" using qinvD [OF s] by (intro qinvI) simp_all
  then have "qinv t H (freeall (q_bfirst (que s)) ?s)" by (rule qinv_freeall)
  then show ?thesis by (simp add: qclose_def Let_def content_def)
qed

lemma qflush_ok: "qinv t H s \<Longrightarrow> qinv t H (qflush s) \<and> content (qflush s) = []"
proof -
  assume s: "qinv t H s"
  let ?s = "onq (\<lambda>q. q\<lparr>q_bfirst := [], q_len := 0, q_dlen := 0\<rparr>) s"
  have "qinv t (ids (q_bfirst (que s)) + H) ?s" using qinvD [OF s] by (intro qinvI) simp_all
  then have "qinv t H (freeall (q_bfirst (que s)) ?s)" by (rule qinv_freeall)
  then show ?thesis by (simp add: qflush_def Let_def content_def)
qed

lemma settings_ok [simp]:
  "qinv t H (qhangup s msg) = qinv t H s" "content (qhangup s msg) = content s"
  "qinv t H (qreopen s) = qinv t H s" "content (qreopen s) = content s"
  "qinv t H (qsetlimit s l) = qinv t H s" "content (qsetlimit s l) = content s"
  "qinv t H (qnoblock s x) = qinv t H s" "content (qnoblock s x) = content s"
  by (simp_all add: qinv_def content_def qhangup_def qreopen_def qsetlimit_def qnoblock_def Let_def)

lemma qopen_ok: "macc H m \<Longrightarrow> qinv t H (qopen m limit msg kick) \<and> content (qopen m limit msg kick) = []"
  by (auto simp: qopen_def content_def intro!: qinvI)

section \<open>Reading\<close>

lemma qwait_ok:
  assumes "qinv t H s" "qwait s = (s', w)"
  shows "qinv t H s' \<and> content s' = content s \<and> q_bfirst (que s') = q_bfirst (que s) \<and> mem s' = mem s \<and>
    (w = Have \<longleftrightarrow> q_bfirst (que s) \<noteq> []) \<and> (w = Have \<longrightarrow> s' = s) \<and>
    mode s' = mode s"
  using assms
  by (auto simp: qwait_def Let_def qinv_def content_def isset_def setflag_def mode_def split: if_splits)

lemma qbread_split:
  assumes "qinv t H s" "n < length d" "allocb (mem s) (length d - n) = (m, b)"
  obtains b' where "bstore m b (drop n d) = (m, b')" "qinv t H (qputback (s\<lparr>mem := m\<rparr>) b')"
    "content (qputback (s\<lparr>mem := m\<rparr>) b') = drop n d @ content s"
proof -
  have "allocb (mem s) (length (drop n d)) = (m, b)" using assms(3) by simp
  then obtain b' where "bstore m b (drop n d) = (m, b')" "blk_ok b'" "bdata b' = drop n d" "qinv t (ids [b'] + H) (s\<lparr>mem := m\<rparr>)"
    by (rule filled [OF assms(1)])
  then show ?thesis using that qputback_ok [of t b' H "s\<lparr>mem := m\<rparr>"] by simp
qed

lemma qbread_ok:
  assumes "qinv t H s" "qbread s len = (s', r)"
  shows "case r of
       Done (Some b) \<Rightarrow> qinv t (add_mset (b_id b) H) s' \<and> blk_ok b \<and> BLEN b \<le> len \<and>
         (\<exists>d. content s = bdata b @ d @ content s' \<and> (\<not> isset Qmsg s \<longrightarrow> d = []))
     | _ \<Rightarrow> qinv t H s' \<and> content s = [] \<and> content s' = []"
proof -
  obtain u w where w: "qwait s = (u, w)" by fastforce
  note uw = qwait_ok [OF assms(1) w]
  show ?thesis
  proof (cases "w = Have")
    case False
    then have "r \<notin> range (\<lambda>b. Done (Some b))" "s' = u" using assms(2) w by (auto simp: qbread_def split: qwaited.splits)
    then show ?thesis using uw False by (auto simp: content_def split: qout.split option.split)
  next
    case True
    then have u: "u = s" "q_bfirst (que s) \<noteq> []" using uw by auto
    obtain v b where v: "qremove s = (v, Some b)" using u(2) that by (cases "q_bfirst (que s)") (auto simp: qremove_def)
    note rm = qremove_ok [OF assms(1) v]
    have msg: "isset Qmsg v = isset Qmsg s" using v by (auto simp: qremove_def split: list.splits)
    note r = assms(2) [unfolded qbread_def w True u(1) qwaited.case prod.case v option.case Let_def msg]
    show ?thesis
    proof (cases "len < BLEN b \<and> \<not> isset Qmsg s")
      case True
      then have lt: "len < length (bdata b)" using rm(2) by simp
      obtain m c where c: "allocb (mem v) (length (bdata b) - len) = (m, c)" by fastforce
      obtain c' where c': "bstore m c (drop len (bdata b)) = (m, c')" "qinv t (add_mset (b_id b) H) (qputback (v\<lparr>mem := m\<rparr>) c')"
        "content (qputback (v\<lparr>mem := m\<rparr>) c') = drop len (bdata b) @ content v"
        by (rule qbread_split [OF rm(1) lt c])
      have "s' = qwakeup_unlock (qputback (v\<lparr>mem := m\<rparr>) c')" "r = Done (Some (b\<lparr>b_wp := b_rp b + len\<rparr>))"
        using r True c c'(1) rm(2) by auto
      then show ?thesis using c' rm True by (simp add: take_drop_app)
    next
      case False
      then have "s' = qwakeup_unlock v" "r = Done (Some (if len < BLEN b then b\<lparr>b_wp := b_rp b + len\<rparr> else b))"
        using r by auto
      then show ?thesis using rm False by (auto simp: take_drop_app intro!: exI [of _ "drop len (bdata b)"])
    qed
  qed
qed

lemma bl2mem_ok:
  assumes "macc (ids bs + H) m" "blks_ok bs" "bl2mem m bs n = (m', p, r)"
  shows "macc (ids r + H) m' \<and> blks_ok r \<and> p = take n (bdatas bs) \<and> bdatas r = drop n (bdatas bs) \<and>
    length r \<le> length bs \<and> (r = [] \<longleftrightarrow> blocklen bs \<le> n) \<and> nomem m' = nomem m"
  using assms
proof (induction m bs n arbitrary: p rule: bl2mem.induct)
  case (2 m b nxt n)
  show ?case
  proof (cases "n < BLEN b")
    case False
    let ?b = "b\<lparr>b_rp := b_rp b + BLEN b\<rparr>"
    obtain q where q: "bl2mem (freeb m ?b) nxt (n - BLEN b) = (m', q, r)" "p = bdata b @ q"
      using "2.prems"(3) False by (auto simp: Let_def split: prod.splits)
    have "macc (ids nxt + H) (freeb m ?b)" by (rule macc_free) (use "2.prems"(1) in simp)
    then have "macc (ids r + H) m' \<and> blks_ok r \<and> q = take (n - BLEN b) (bdatas nxt) \<and> bdatas r = drop (n - BLEN b) (bdatas nxt) \<and>
        length r \<le> length nxt \<and> (r = [] \<longleftrightarrow> blocklen nxt \<le> n - BLEN b) \<and> nomem m' = nomem (freeb m ?b)"
      using "2.IH" [OF refl False _ _ q(1)] "2.prems"(2) by simp
    then show ?thesis using False "2.prems"(2) q(2) by (auto simp: freeb_def)
  qed (use "2.prems" in \<open>auto simp: Let_def\<close>)
qed simp

lemma qgrab_ok:
  assumes "qinv t H s" "qgrab s len n = (s', bs, k)"
  shows "qinv t (ids bs + H) s' \<and> q_bfirst (que s) = bs @ q_bfirst (que s') \<and> k = n + blocklen bs \<and> mode s' = mode s \<and>
    (q_bfirst (que s) \<noteq> [] \<longrightarrow> bs \<noteq> []) \<and> (length bs \<le> 1 \<or> k \<le> len)"
  using assms
proof (induction s len n arbitrary: H s' bs k rule: qgrab.induct)
  case (1 s len n)
  show ?case
  proof (cases "q_bfirst (que s)")
    case Nil
    then have "qremove s = (s, None)" by (simp add: qremove_none)
    then show ?thesis using "1.prems" Nil by (auto simp: qgrab.simps [of s])
  next
    case (Cons b nxt)
    define v where "v = fst (qremove s)"
    have v: "qremove s = (v, Some b)" using Cons by (simp add: qremove_def v_def)
    note rm = qremove_ok [OF "1.prems"(1) v] and md = mode_qremove [OF v]
    show ?thesis
    proof (cases "q_bfirst (que v) = [] \<or> len < n + BLEN b + BLEN (hd (q_bfirst (que v)))")
      case True
      then have "s' = v" "bs = [b]" "k = n + BLEN b"
        using "1.prems"(2) [unfolded qgrab.simps [of s] v prod.case option.case Let_def] by (auto split: list.splits)
      then show ?thesis using rm md by simp
    next
      case False
      then obtain c cs where c: "q_bfirst (que v) = c # cs" "\<not> len < n + BLEN b + BLEN c" by (cases "q_bfirst (que v)") auto
      obtain bs' where g: "qgrab v len (n + BLEN b) = (s', bs', k)" "bs = b # bs'"
        using "1.prems"(2) [unfolded qgrab.simps [of s] v prod.case option.case Let_def c(1) list.case] c(2) by (auto split: prod.splits)
      have ih: "qinv t (ids bs' + add_mset (b_id b) H) s' \<and> q_bfirst (que v) = bs' @ q_bfirst (que s') \<and>
          k = n + BLEN b + blocklen bs' \<and> mode s' = mode v \<and> (q_bfirst (que v) \<noteq> [] \<longrightarrow> bs' \<noteq> []) \<and> (length bs' \<le> 1 \<or> k \<le> len)"
        by (rule "1.IH" [OF v [symmetric] refl refl c(1) c(2) rm(1) g(1)])
      then have "q_bfirst (que v) = bs' @ q_bfirst (que s')" and ne: "bs' \<noteq> []" and k: "k = n + BLEN b + blocklen bs'"
        and l: "length bs' \<le> 1 \<or> k \<le> len" using c(1) by auto
      then have "hd bs' = c" using c(1) by (metis hd_append2 list.sel(1))
      then obtain bs'' where bs'': "bs' = c # bs''" using ne by (cases bs') auto
      have "k \<le> len" using l c(2) by (cases bs'') (simp_all add: k bs'')
      have "q_bfirst (que s) = bs @ q_bfirst (que s')" using rm(5) ih g(2) by (metis append_Cons)
      moreover have "qinv t (ids bs + H) s'" using ih g(2) by simp
      ultimately show ?thesis using \<open>k \<le> len\<close> k ih md g(2) by (metis add.assoc blocklen.simps(2) list.distinct(1))
    qed
  qed
qed

text \<open>The first half of \<open>qread\<close>. Blocks without data that it drops are freed.\<close>

lemma qread_take_ok:
  assumes "qinv t H s" "qread_take s len = (s', r)"
  shows "mode s' = mode s \<and>
    (case r of
       Done (Some (bs, n)) \<Rightarrow> qinv t (ids bs + H) s' \<and> blks_ok bs \<and> content s = bdatas bs @ content s' \<and> n = blocklen bs \<and>
         bs \<noteq> [] \<and> (length bs = 1 \<or> n \<le> len) \<and> (\<not> isset Qcoalesce s \<longrightarrow> bs = [hd (q_bfirst (que s))] \<and> q_bfirst (que s') = tl (q_bfirst (que s)))
     | _ \<Rightarrow> qinv t H s' \<and> content s = [] \<and> q_bfirst (que s') = [])"
  using assms
proof (induction s len arbitrary: s' rule: qread_take.induct)
  case (1 s len)
  obtain u w where w: "qwait s = (u, w)" by fastforce
  note uw = qwait_ok [OF "1.prems"(1) w] and q = qinvD [OF "1.prems"(1)]
  show ?case
  proof (cases "q_bfirst (que s)")
    case Nil
    then have "s' = u" "\<forall>x. r \<noteq> Done (Some x)"
      using "1.prems"(2) w uw by (auto simp: qread_take.simps [of s] split: qwaited.splits)
    then show ?thesis using uw Nil by (auto simp: content_def split: qout.split option.split)
  next
    case (Cons b nxt)
    then have u: "u = s" "w = Have" using uw by auto
    define v where "v = fst (qremove s)"
    have v: "qremove s = (v, Some b)" using Cons by (simp add: qremove_def v_def)
    note rm = qremove_ok [OF "1.prems"(1) v] and md = mode_qremove [OF v]
    note run = "1.prems"(2) [unfolded qread_take.simps [of s] w u prod.case qwaited.case v Cons list.case option.case]
    show ?thesis
    proof (cases "isset Qcoalesce s")
      case False
      then have "s' = v" "r = Done (Some ([b], BLEN b))" using run by auto
      moreover have "q_bfirst (que v) = nxt" using rm(5) Cons by simp
      ultimately show ?thesis using rm md Cons False by simp
    next
      case co: True
      show ?thesis
      proof (cases "BLEN b = 0")
        case True
        have "qread_take (free1 b (fst (qremove s))) len = (s', r)" using run co True v by simp
        from "1.IH" [OF w [unfolded u, symmetric] refl co Cons True _ this, unfolded v fst_conv, OF qinv_free1 [OF rm(1)]]
        have "mode s' = mode (free1 b v) \<and> (case r of
            Done (Some (bs, n)) \<Rightarrow> qinv t (ids bs + H) s' \<and> blks_ok bs \<and> content (free1 b v) = bdatas bs @ content s' \<and> n = blocklen bs \<and>
              bs \<noteq> [] \<and> (length bs = 1 \<or> n \<le> len) \<and> (\<not> isset Qcoalesce (free1 b v) \<longrightarrow> bs = [hd (q_bfirst (que (free1 b v)))] \<and>
                 q_bfirst (que s') = tl (q_bfirst (que (free1 b v))))
          | _ \<Rightarrow> qinv t H s' \<and> content (free1 b v) = [] \<and> q_bfirst (que s') = [])" by simp
        moreover have "content (free1 b v) = content s" using rm(2,3) True by (simp add: bdata_empty)
        ultimately show ?thesis using md co by (auto split: qout.splits option.splits)
      next
        case False
        obtain bs n where g: "qgrab s len 0 = (s', bs, n)" "r = Done (Some (bs, n))"
          using run co False by (auto split: prod.splits)
        note gr = qgrab_ok [OF "1.prems"(1) g(1)]
        have bf: "q_bfirst (que s) = bs @ q_bfirst (que s')" using gr by blast
        have ne: "bs \<noteq> []" using gr Cons by simp
        have "blks_ok bs" using q(2) unfolding bf by simp
        moreover have "length bs = 1 \<or> n \<le> len" using gr ne by (cases bs) auto
        moreover have "content s = bdatas bs @ content s'" unfolding content_def bf by simp
        ultimately show ?thesis using gr g(2) ne co by simp
      qed
    qed
  qed
qed

lemma qread_done_ok:
  assumes "qinv t (ids bs + H) s" "blks_ok bs" "length bs = 1 \<or> blocklen bs \<le> len" "qread_done s bs (blocklen bs) len = (s', n, p)"
  shows "qinv t H s'" "p = take len (bdatas bs)" "n = length p" "mode s' = mode s"
    "content s' = (if isset Qmsg s then [] else drop len (bdatas bs)) @ content s"
proof -
  obtain m p' r where l: "bl2mem (mem s) bs len = (m, p', r)" by (cases "bl2mem (mem s) bs len") auto
  let ?H = "H + ids (q_bfirst (que s))"
  note q = qinvD [OF assms(1)]
  have "macc (ids bs + ?H) (mem s)" using q(1) by (simp add: ac_simps)
  from bl2mem_ok [OF this assms(2) l]
  have b: "macc (ids r + ?H) m" "blks_ok r" "p' = take len (bdatas bs)" "bdatas r = drop len (bdatas bs)"
    "length r \<le> length bs" "r = [] \<longleftrightarrow> blocklen bs \<le> len" by auto
  let ?s = "s\<lparr>mem := m\<rparr>"
  have s: "qinv t (ids r + H) ?s" using q b(1) by (intro qinvI) (simp_all add: ac_simps)
  have "qinv t H s' \<and> p = take len (bdatas bs) \<and> n = length p \<and> mode s' = mode s \<and>
      content s' = (if isset Qmsg s then [] else drop len (bdatas bs)) @ content s"
  proof (cases r)
    case Nil
    then have "blocklen bs \<le> len" using b(6) by simp
    moreover from Nil have "s' = qwakeup_unlock ?s" "n = blocklen bs" "p = p'" using assms(4) l by (auto simp: qread_done_def)
    ultimately show ?thesis using s b assms(2) Nil by simp
  next
    case (Cons c cs)
    then have "length bs = 1" using assms(3) b(6) by auto
    then have cs: "cs = []" using b(5) Cons by simp
    have lt: "len < blocklen bs" using b(6) Cons by auto
    have "length (bdatas [c]) = length (drop len (bdatas bs))" using b(4) Cons cs by simp
    then have len: "BLEN c = blocklen bs - len" using b(2) Cons cs assms(2) by simp
    have s': "s' = qwakeup_unlock (if isset Qmsg s then free1 c ?s else qputback ?s c)" "n = blocklen bs - BLEN c" "p = p'"
      using assms(4) l Cons by (auto simp: qread_done_def Let_def isset_def)
    have c: "qinv t (add_mset (b_id c) H) ?s" "blk_ok c" "bdata c = drop len (bdatas bs)"
      using s b(2,4) Cons cs by simp_all
    show ?thesis using s' c lt len b(3) assms(2) qinv_free1 [OF c(1)] qputback_ok [OF c(1,2)] by simp
  qed
  then show "qinv t H s'" "p = take len (bdatas bs)" "n = length p" "mode s' = mode s"
    "content s' = (if isset Qmsg s then [] else drop len (bdatas bs)) @ content s" by blast+
qed

lemma qread_ok:
  assumes "qinv t H s" "qread s len = (s', r)"
  shows "qinv t H s' \<and> mode s' = mode s \<and>
    (case r of
       Done (n, p) \<Rightarrow> n = length p \<and> n \<le> len \<and> (\<exists>d. content s = p @ d @ content s' \<and> (\<not> isset Qmsg s \<longrightarrow> d = []))
     | _ \<Rightarrow> content s = [] \<and> content s' = [])"
proof -
  obtain u x where x: "qread_take s len = (u, x)" by fastforce
  note t = qread_take_ok [OF assms(1) x]
  show ?thesis
  proof (cases "\<exists>bs n. x = Done (Some (bs, n))")
    case False
    then have "s' = u" "r \<in> {Done (0, []), Asleep} \<or> (\<exists>e. r = Raised e)"
      using assms(2) x by (auto simp: qread_def split: qout.splits option.splits)
    then show ?thesis using t False by (auto simp: content_def split: qout.splits option.splits)
  next
    case True
    then obtain bs n where xs: "x = Done (Some (bs, n))" by blast
    then have t': "qinv t (ids bs + H) u" "blks_ok bs" "content s = bdatas bs @ content u" "n = blocklen bs"
      "length bs = 1 \<or> blocklen bs \<le> len" "mode u = mode s" using t by auto
    obtain k p where d: "qread_done u bs n len = (s', k, p)" "r = Done (k, p)"
      using assms(2) x xs by (auto simp: qread_def split: prod.splits)
    note qd = qread_done_ok [OF t'(1,2,5) d(1) [unfolded t'(4)]]
    have "content s = p @ (if isset Qmsg s then drop len (bdatas bs) else []) @ content s'"
      using t'(3) qd mode_flags(1) [OF t'(6)] by (simp add: take_drop_app)
    then show ?thesis using qd d(2) t'(6) by auto
  qed
qed

section \<open>Writing\<close>

lemma qbwrite_flow_ok [simp]:
  "qinv t H (fst (qbwrite_flow s)) = qinv t H s" "content (fst (qbwrite_flow s)) = content s" "mode (fst (qbwrite_flow s)) = mode s"
  "q_noblock (que (fst (qbwrite_flow s))) = q_noblock (que s)" "mem (fst (qbwrite_flow s)) = mem s"
  "q_bfirst (que (fst (qbwrite_flow s))) = q_bfirst (que s)" "isset Qclosed (fst (qbwrite_flow s)) = isset Qclosed s"
  by (simp_all add: qbwrite_flow_def)

lemma queued_ok [simp]:
  "qinv t H (queued s) = qinv t H s" "content (queued s) = content s" "mode (queued s) = mode s"
  "q_noblock (que (queued s)) = q_noblock (que s)" "isset Qclosed (queued s) = isset Qclosed s" "mem (queued s) = mem s"
  "q_bfirst (que (queued s)) = q_bfirst (que s)"
  by (simp_all add: queued_def Let_def)

lemma qbwrite_ok:
  assumes "qinv t (ids [b] + H) s" "blk_ok b" "\<not> q_bypass (que s)" "qbwrite s b = (s', r)"
  shows "qinv t H s' \<and> mode s' = mode s \<and> q_noblock (que s') = q_noblock (que s) \<and> isset Qclosed s' = isset Qclosed s \<and>
    content s' = content s @
      (if isset Qclosed s \<or> q_limit (que s) \<le> q_len (que s) \<and> q_noblock (que s) then [] else bdata b) \<and>
    (case r of Raised e \<Rightarrow> isset Qclosed s | Done n \<Rightarrow> n = BLEN b \<and> \<not> isset Qclosed s | Asleep \<Rightarrow> \<not> isset Qclosed s) \<and>
    nomem (mem s') = nomem (mem s)"
proof (cases "isset Qclosed s \<or> q_limit (que s) \<le> q_len (que s) \<and> q_noblock (que s)")
  case True
  then have "s' = free1 b s" "r = (if isset Qclosed s then Raised (q_err (que s)) else Done (BLEN b))"
    using assms(3,4) by (auto simp: qbwrite_def Let_def split: if_splits)
  then show ?thesis using True assms(1) by (auto simp: isset_def freeb_def intro: qinv_free1)
next
  case False
  then have f: "\<not> isset Qclosed s" "\<not> (q_limit (que s) \<le> q_len (que s) \<and> q_noblock (que s))" by auto
  note a = qappend_ok [OF assms(1)] and sel = qappend_sel [OF assms(1), of "[b]"]
  have nb: "q_noblock (que (qappend [b] s)) = q_noblock (que s)" "isset Qclosed (qappend [b] s) = isset Qclosed s"
    by (simp_all add: qappend_def qlink_eq [OF assms(1)] addlens_def setblast_def setbfirst_def isset_def)
  obtain go where go: "qbwrite_flow (queued (qappend [b] s)) = (s', go)" "r = (if go then Done (BLEN b) else Asleep)"
    using assms(3,4) f by (auto simp: qbwrite_def Let_def split: prod.splits)
  from go(1) have s': "s' = fst (qbwrite_flow (queued (qappend [b] s)))" by simp
  show ?thesis unfolding s' using a assms(2) nb sel f go(2) by auto
qed

text \<open>\<open>qwrite\<close>: what it says it wrote is queued, unless the queue drops what it has no room for (\<open>noblock\<close>).\<close>

lemma chunk:
  assumes "qinv t H s"
  obtains m b where "(let (m, b) = allocb (mem s) (length p) in bstore m b p) = (m, b)" "blk_ok b" "bdata b = p" "BLEN b = length p"
    "qinv t (ids [b] + H) (s\<lparr>mem := m\<rparr>)" "nomem m = nomem (mem s)"
proof -
  obtain m b where a: "allocb (mem s) (length p) = (m, b)" by fastforce
  then have n: "nomem m = nomem (mem s)" by (auto simp: allocb_def)
  from filled [OF assms a] that n a show ?thesis by (metis case_prod_conv)
qed

lemma drop_take_more: "a + n \<le> k \<Longrightarrow> take n (drop a p) @ take (k - (a + n)) (drop (a + n) p) = take (k - a) (drop a p)"
  by (metis add_le_imp_le_diff add.commute diff_diff_left drop_drop le_add_diff_inverse take_add)

lemma qwrite_loop_ok:
  assumes "qinv t H s" "\<not> q_bypass (que s)" "sofar \<le> length p" "qwrite_loop s p sofar = (s', r)"
  shows "qinv t H s' \<and> mode s' = mode s \<and> q_noblock (que s') = q_noblock (que s) \<and> (\<forall>k. r = Wasleep k \<longrightarrow> k \<le> length p) \<and>
    (\<not> q_noblock (que s) \<longrightarrow>
    (case r of
       Wrote n \<Rightarrow> n = length p \<and>
         content s' = content s @ (if isset Qmsg s then take Maxatomic (drop sofar p) else drop sofar p)
     | Wasleep k \<Rightarrow> sofar \<le> k \<and> k \<le> length p \<and> content s' = content s @ take (k - sofar) (drop sofar p)
     | Wraised e \<Rightarrow> isset Qclosed s \<and> content s' = content s))"
  using assms
proof (induction s p sofar arbitrary: s' r rule: qwrite_loop.induct)
  case (1 s p sofar)
  let ?n = "min (length p - sofar) Maxatomic"
  let ?c = "take ?n (drop sofar p)"
  have lc: "length ?c = ?n" by simp
  obtain m b where b: "(let (m, b) = allocb (mem s) (length ?c) in bstore m b ?c) = (m, b)" "blk_ok b" "bdata b = ?c" "BLEN b = length ?c"
    "qinv t (ids [b] + H) (s\<lparr>mem := m\<rparr>)" by (rule chunk [OF "1.prems"(1)])
  obtain m0 b0 where ab: "allocb (mem s) ?n = (m0, b0)" "bstore m0 b0 ?c = (m, b)"
    using b(1) unfolding lc by (auto split: prod.splits)
  let ?s = "s\<lparr>mem := m\<rparr>"
  obtain u x where w: "qbwrite ?s b = (u, x)" by fastforce
  have tk: "\<not> q_bypass (que ?s)" using "1.prems"(2) by simp
  from qbwrite_ok [OF b(5,2) tk(1) w] tk
  have u: "qinv t H u" "mode u = mode s" "\<not> q_bypass (que u)" "isset Qclosed u = isset Qclosed s"
    "\<not> q_noblock (que s) \<Longrightarrow> content u = content s @ (if isset Qclosed s then [] else ?c)"
    "case x of Raised e \<Rightarrow> isset Qclosed s | Done n \<Rightarrow> n = BLEN b \<and> \<not> isset Qclosed s | Asleep \<Rightarrow> \<not> isset Qclosed s"
    "q_noblock (que u) = q_noblock (que s)"
    using b(3) tk by (simp_all add: mode_def split: if_splits qout.splits)
  note run = "1.prems"(4) [unfolded qwrite_loop.simps [of s] Let_def ab prod.case w]
  show ?case
  proof (cases x)
    case (Done k)
    show ?thesis
    proof (cases "sofar + ?n < length p \<and> \<not> isset Qmsg u")
      case False
      have "(u, Wrote (length p)) = (s', r)" using run by (simp only: Done qout.case False if_False)
      then have res: "s' = u" "r = Wrote (length p)" by simp_all
      moreover have "?c = (if isset Qmsg s then take Maxatomic (drop sofar p) else drop sofar p)"
        using False mode_flags(1) [OF u(2)] by (auto simp: min_def)
      ultimately show ?thesis using u Done by (auto simp: isset_def)
    next
      case True
      then have r': "qwrite_loop u p (sofar + ?n) = (s', r)" using run Done by simp
      have msg: "\<not> isset Qmsg s" using True mode_flags(1) [OF u(2)] by simp
      have c: "\<not> q_noblock (que s) \<Longrightarrow> content u = content s @ ?c" using u(5,6) Done by simp
      have n: "?n = Maxatomic" using True by (auto simp: min_def)
      have "qinv t H s' \<and> mode s' = mode u \<and> q_noblock (que s') = q_noblock (que u) \<and> (\<forall>k. r = Wasleep k \<longrightarrow> k \<le> length p) \<and>
        (\<not> q_noblock (que u) \<longrightarrow>
        (case r of
           Wrote n \<Rightarrow> n = length p \<and> content s' = content u @ (if isset Qmsg u then take Maxatomic (drop (sofar + ?n) p) else drop (sofar + ?n) p)
         | Wasleep k \<Rightarrow> sofar + ?n \<le> k \<and> k \<le> length p \<and> content s' = content u @ take (k - (sofar + ?n)) (drop (sofar + ?n) p)
         | Wraised e \<Rightarrow> isset Qclosed u \<and> content s' = content u))"
        by (rule "1.IH" [OF refl ab(1) [symmetric] refl ab(2) [symmetric] refl w [symmetric] Done True u(1,3) _ r']) (use True in simp)
      moreover have "?c @ drop (sofar + ?n) p = drop sofar p" unfolding n
        by (metis add.commute append_take_drop_id drop_drop)
      moreover have "?c @ take (k - (sofar + ?n)) (drop (sofar + ?n) p) = take (k - sofar) (drop sofar p)" if "sofar + ?n \<le> k" for k
        by (rule drop_take_more [OF that])
      ultimately show ?thesis using u c msg True mode_flags(1) [OF u(2)] Done by (auto split: wout.splits)
    qed
  next
    case (Raised e)
    then show ?thesis using run u by (auto simp: isset_def)
  next
    case Asleep
    then have "s' = u" "r = Wasleep (sofar + ?n)" using run by auto
    then show ?thesis using u Asleep "1.prems"(3) by (auto simp: isset_def min_def)
  qed
qed

lemma qwrite_ok:
  assumes "qinv t H s" "\<not> q_bypass (que s)" "qwrite s p = (s', r)"
  shows "qinv t H s' \<and> mode s' = mode s \<and> q_noblock (que s') = q_noblock (que s) \<and> (\<forall>k. r = Wasleep k \<longrightarrow> k \<le> length p) \<and>
    (\<not> q_noblock (que s) \<longrightarrow>
    (case r of
       Wrote n \<Rightarrow> n = length p \<and> content s' = content s @ (if isset Qmsg s then take Maxatomic p else p)
     | Wasleep k \<Rightarrow> k \<le> length p \<and> content s' = content s @ take k p
     | Wraised e \<Rightarrow> isset Qclosed s \<and> content s' = content s))"
  using qwrite_loop_ok [OF assms(1,2) _ assms(3) [unfolded qwrite_def]] by (auto split: wout.splits if_splits)

lemma qwrite_resume_ok:
  assumes "qinv t H s" "\<not> q_bypass (que s)" "sofar \<le> length p" "qwrite_resume s p sofar = (s', r)"
  shows "qinv t H s' \<and> mode s' = mode s \<and> q_noblock (que s') = q_noblock (que s) \<and> (\<forall>k. r = Wasleep k \<longrightarrow> k \<le> length p) \<and>
    (\<not> q_noblock (que s) \<and> \<not> isset Qmsg s \<longrightarrow>
    (case r of
       Wrote n \<Rightarrow> n = length p \<and> content s' = content s @ drop sofar p
     | Wasleep k \<Rightarrow> sofar \<le> k \<and> k \<le> length p \<and> content s' = content s @ take (k - sofar) (drop sofar p)
     | Wraised e \<Rightarrow> isset Qclosed s \<and> content s' = content s))"
proof -
  obtain u go where u: "qbwrite_flow s = (u, go)" by fastforce
  then have ue: "u = fst (qbwrite_flow s)" by simp
  have uu: "qinv t H u" "mode u = mode s" "\<not> q_bypass (que u)" "content u = content s" "isset Qclosed u = isset Qclosed s"
    "isset Qmsg u = isset Qmsg s" "q_noblock (que u) = q_noblock (que s)"
    using assms(1,2) by (simp_all add: ue qbwrite_flow_def) (simp add: setflag_def)
  show ?thesis
  proof (cases "go \<and> sofar < length p \<and> \<not> isset Qmsg s")
    case True
    then have "qwrite_loop u p sofar = (s', r)" using assms(4) u uu(6) by (simp add: qwrite_resume_def)
    from qwrite_loop_ok [OF uu(1,3) assms(3) this] show ?thesis using uu by (auto split: wout.splits)
  next
    case False
    then show ?thesis using assms(3,4) u uu by (auto simp: qwrite_resume_def split: bool.splits if_splits)
  qed
qed

lemma qiwrite_loop_ok:
  assumes "qinv t H s" "\<not> q_bypass (que s)" "sofar \<le> length p" "qiwrite_loop s p sofar d = (s', k)"
  shows "qinv t H s' \<and> mode s' = mode s \<and> sofar \<le> k \<and> k \<le> length p \<and> content s' = content s @ take (k - sofar) (drop sofar p)"
  using assms
proof (induction s p sofar d arbitrary: s' k rule: qiwrite_loop.induct)
  case (1 s p sofar d)
  let ?n = "min (length p - sofar) Maxatomic"
  let ?c = "take ?n (drop sofar p)"
  have lc: "length ?c = ?n" by simp
  show ?case
  proof (cases rule: iallocb_cases [of "mem s" ?n])
    case 1
    then show ?thesis using "1.prems" by (simp add: qiwrite_loop.simps [of s])
  next
    case (2 m0 b0)
    then have "allocb (mem s) (length ?c) = (m0, b0)" unfolding lc by simp
    then obtain b where b: "bstore m0 b0 ?c = (m0, b)" "blk_ok b" "bdata b = ?c" "qinv t (ids [b] + H) (s\<lparr>mem := m0\<rparr>)"
      by (rule filled [OF "1.prems"(1)])
    let ?a = "qappend [b] (s\<lparr>mem := m0\<rparr>)"
    let ?d = "d \<or> isset Qstarve ?a"
    define u where "u = (if ?d then emit (if q_kick (que (clrflag Qstarve ?a)) then [Kick, WakeR] else [WakeR]) (clrflag Qstarve ?a)
      else clrflag Qstarve ?a)"
    have u: "qinv t H u" "content u = content s @ ?c" "mode u = mode s"
      using qappend_ok [OF b(4)] b(2,3) by (simp_all add: u_def)
    have ub: "\<not> q_bypass (que u)" using u(3) "1.prems"(2) by (simp add: mode_def)
    have run: "(if sofar + ?n < length p \<and> \<not> isset Qmsg u then qiwrite_loop u p (sofar + ?n) ?d else (u, sofar + ?n)) = (s', k)"
      using "1.prems"(4) by (simp only: qiwrite_loop.simps [of s] 2 Let_def prod.case option.case b(1) u_def) (use "1.prems"(2) in simp)
    show ?thesis
    proof (cases "sofar + ?n < length p \<and> \<not> isset Qmsg u")
      case True
      then have r: "qiwrite_loop u p (sofar + ?n) ?d = (s', k)" using run by (simp only: True simp_thms if_True)
      have "qinv t H s' \<and> mode s' = mode u \<and> sofar + ?n \<le> k \<and> k \<le> length p \<and>
          content s' = content u @ take (k - (sofar + ?n)) (drop (sofar + ?n) p)"
        by (rule "1.IH" [OF refl 2(1) [symmetric] refl b(1) [symmetric] refl refl _ _ True u(1) ub _ r])
          (use True "1.prems"(2) in \<open>auto simp: u_def Let_def\<close>)
      then show ?thesis using u drop_take_more [of sofar ?n k p] by auto
    next
      case False
      have "(u, sofar + ?n) = (s', k)" using run by (simp only: False if_False)
      then show ?thesis using u "1.prems"(3) by auto
    qed
  qed
qed

lemma qiwrite_ok:
  assumes "qinv t H s" "\<not> q_bypass (que s)" "qiwrite s p = (s', k)"
  shows "qinv t H s' \<and> mode s' = mode s \<and> k \<le> length p \<and> content s' = content s @ take k p"
  using qiwrite_loop_ok [OF assms(1,2) _ assms(3) [unfolded qiwrite_def]] by simp

section \<open>The kind of queue stays\<close>

lemma mode_pass_tail [simp]: "mode (qpass_tail s bs) = mode s"
  by (simp add: qpass_tail_def Let_def)

lemma mode_fault [simp]: "mode (qfault s) = mode s"
  by (simp add: mode_def qfault_def)

lemma mode_onq [simp]: "mode (onq (\<lambda>q. q\<lparr>q_bfirst := bs, q_len := l\<rparr>) s) = mode s"
  by (simp add: mode_def)

lemma mode_qget: "qget s = (s', r) \<Longrightarrow> mode s' = mode s"
  by (auto simp: qget_def Let_def split: list.splits)

lemma mode_qdiscard_loop: "qdiscard_loop s len k = (s', n) \<Longrightarrow> mode s' = mode s"
proof (induction s len k rule: qdiscard_loop.induct)
  case (1 s len k)
  then show ?case
    by (subst (asm) (2) qdiscard_loop.simps) (auto simp: Let_def split: if_splits list.splits)
qed

lemma mode_qdiscard: "qdiscard s len = (s', n) \<Longrightarrow> mode s' = mode s"
  by (auto simp: qdiscard_def dest: mode_qdiscard_loop split: prod.splits)

lemma mode_qconsume: "qconsume s len = (s', r, p) \<Longrightarrow> mode s' = mode s"
  by (auto simp: qconsume_def Let_def split: prod.splits list.splits)

lemma mode_qpass: "qpass s bs = (s', r) \<Longrightarrow> mode s' = mode s" "qpassnolim s bs = (s', r) \<Longrightarrow> mode s' = mode s"
  by (auto simp: qpass_def qpassnolim_def split: if_splits list.splits)

lemma mode_qproduce: "qproduce s p = (s', r) \<Longrightarrow> mode s' = mode s"
  by (auto simp: qproduce_def Let_def split: if_splits prod.splits option.splits)

lemma mode_qcopy: "qcopy s n off = (s', b) \<Longrightarrow> mode s' = mode s"
  by (auto simp: qcopy_def split: prod.splits option.splits)

lemma mode_qaddlist [simp]: "mode (qaddlist s bs) = mode s"
  by (simp add: qaddlist_def)

lemma mode_qwait: "qwait s = (s', w) \<Longrightarrow> mode s' = mode s"
  by (auto simp: qwait_def Let_def mode_def setflag_def split: if_splits)

lemma mode_qbread: "qbread s n = (s', r) \<Longrightarrow> mode s' = mode s"
  by (auto simp: qbread_def Let_def dest!: mode_qwait mode_qremove split: prod.splits qwaited.splits option.splits if_splits)

lemma mode_closing [simp]:
  "q_bypass (que (qclose s)) = q_bypass (que s)" "q_bypass (que (qhangup s msg)) = q_bypass (que s)"
  "q_bypass (que (qreopen s)) = q_bypass (que s)" "q_bypass (que (qflush s)) = q_bypass (que s)"
  "q_bypass (que (qsetlimit s l)) = q_bypass (que s)" "q_bypass (que (qnoblock s x)) = q_bypass (que s)"
  by (simp_all add: qclose_def qhangup_def qreopen_def qflush_def qsetlimit_def qnoblock_def Let_def)

lemma mode_qgrab: "qgrab s n k = (s', bs, j) \<Longrightarrow> mode s' = mode s"
proof (induction s n k arbitrary: s' bs j rule: qgrab.induct)
  case (1 s n k)
  obtain v r where v: "qremove s = (v, r)" by fastforce
  show ?case
  proof (cases r)
    case None
    then show ?thesis using "1.prems" v mode_qremove [OF v] by (simp add: qgrab.simps [of s])
  next
    case (Some b)
    note run = "1.prems" [unfolded qgrab.simps [of s] v Some prod.case option.case Let_def]
    show ?thesis using run mode_qremove [OF v] "1.IH" [OF v [symmetric] Some refl]
      by (auto split: list.splits if_splits prod.splits)
  qed
qed

lemma mode_qread_take: "qread_take s n = (s', r) \<Longrightarrow> mode s' = mode s"
proof (induction s n arbitrary: s' r rule: qread_take.induct)
  case (1 s n)
  obtain u w where w: "qwait s = (u, w)" by fastforce
  obtain v x where v: "qremove u = (v, x)" by fastforce
  note m = mode_qwait [OF w] mode_qremove [OF v]
  note run = "1.prems" [unfolded qread_take.simps [of s] w v prod.case fst_conv]
  show ?case
  proof (cases w)
    case Have
    note ih = "1.IH" [OF w [symmetric] Have, unfolded v fst_conv]
    show ?thesis using run Have m ih by (auto dest: mode_qgrab split: if_splits list.splits prod.splits option.splits)
  qed (use run m in auto)
qed

lemma mode_qread_done: "qread_done s bs k n = (s', j, p) \<Longrightarrow> mode s' = mode s"
  by (auto simp: qread_done_def Let_def split: prod.splits list.splits)

lemma mode_kinds:
  "isset Qmsg (qclose s) = isset Qmsg s" "isset Qmsg (qhangup s msg) = isset Qmsg s" "isset Qmsg (qreopen s) = isset Qmsg s"
  "isset Qmsg (qflush s) = isset Qmsg s" "isset Qmsg (qsetlimit s l) = isset Qmsg s" "isset Qmsg (qnoblock s x) = isset Qmsg s"
  by (simp_all add: isset_def qclose_def qhangup_def qreopen_def qflush_def qsetlimit_def qnoblock_def Let_def)

end
