(* ===== verification/BlockProps.thy ===== *)
theory BlockProps
  imports QioOps
begin

text \<open>
  The functions on chains of blocks (Blocks) in terms of the bytes they hold: padding, joining, pulling up, trimming, copying and
  packing, and the moves between blocks and memory. None of them stores outside a buffer, and all account for every block.
\<close>

section \<open>Pulling up\<close>

lemma pullup_loop_ok:
  assumes "macc (add_mset (b_id bp) (ids bs) + H) m" "blk_ok bp" "blks_ok bs" "0 < n" "n \<le> room bp"
    "pullup_loop m bp n bs = (m', r)"
  shows "if n \<le> blocklen bs
     then macc (ids r + H) m' \<and> blks_ok r \<and> bdatas r = bdata bp @ bdatas bs \<and> r \<noteq> [] \<and> BLEN (hd r) = BLEN bp + n
     else r = [] \<and> macc H m'"
  using assms
proof (induction m bp n bs rule: pullup_loop.induct)
  case (1 m bp n)
  then show ?case using macc_free by auto
next
  case (2 m bp n nbp nxt)
  note oks = \<open>blks_ok (nbp # nxt)\<close>
  show ?case
  proof (cases "n < BLEN nbp")
    case True
    have "length (take n (bdata nbp)) \<le> room bp" using "2.prems"(5) by simp
    then obtain b' where b': "bstore m bp (take n (bdata nbp)) = (m, b')" "blk_ok b'" "bdata b' = bdata bp @ take n (bdata nbp)"
      "BLEN b' = BLEN bp + length (take n (bdata nbp))" "b_id b' = b_id bp" by (rule bstore_ok [OF "2.prems"(2)])
    then have "m' = m" "r = b' # nbp\<lparr>b_rp := b_rp nbp + n\<rparr> # nxt" using "2.prems"(6) True by (auto simp: Let_def)
    then show ?thesis using b' True oks "2.prems"(1) by (simp add: take_drop_app)
  next
    case False
    have "length (bdata nbp) \<le> room bp" using "2.prems"(5) False oks by simp
    then obtain b' where b': "bstore m bp (bdata nbp) = (m, b')" "blk_ok b'" "bdata b' = bdata bp @ bdata nbp"
      "BLEN b' = BLEN bp + length (bdata nbp)" "b_id b' = b_id bp" "room b' = room bp - length (bdata nbp)"
      by (rule bstore_ok [OF "2.prems"(2)])
    have f: "macc (add_mset (b_id b') (ids nxt) + H) (freeb m nbp)"
      by (rule macc_free) (use "2.prems"(1) b'(5) in \<open>simp add: ac_simps add_mset_commute\<close>)
    have run: "(if n - BLEN nbp = 0 then (freeb m nbp, b' # nxt) else pullup_loop (freeb m nbp) b' (n - BLEN nbp) nxt) = (m', r)"
      using "2.prems"(6) False b'(1) by (simp add: Let_def)
    show ?thesis
    proof (cases "n = BLEN nbp")
      case True
      then show ?thesis using run b' f oks by auto
    next
      case ne: False
      then have r': "pullup_loop (freeb m nbp) b' (n - BLEN nbp) nxt = (m', r)" using run False by simp
      have ih: "if n - BLEN nbp \<le> blocklen nxt
         then macc (ids r + H) m' \<and> blks_ok r \<and> bdatas r = bdata b' @ bdatas nxt \<and> r \<noteq> [] \<and> BLEN (hd r) = BLEN b' + (n - BLEN nbp)
         else r = [] \<and> macc H m'"
        by (rule "2.IH" [OF refl False b'(1) [symmetric] refl refl _ f b'(2) _ _ _ r'])
          (use ne False oks "2.prems"(5) b'(6) in auto)
      then show ?thesis using b' False oks by (auto split: if_splits)
    qed
  qed
qed

lemma pullupblock_ok:
  assumes "macc (ids bs + H) m" "blks_ok bs" "bs \<noteq> []" "pullupblock m bs n = (m', r)"
  shows "if n \<le> blocklen bs
     then macc (ids r + H) m' \<and> blks_ok r \<and> bdatas r = bdatas bs \<and> r \<noteq> [] \<and> BLEN (hd r) = max n (BLEN (hd bs))
     else r = [] \<and> macc H m'"
proof -
  obtain bp nxt where bs: "bs = bp # nxt" using assms(3) by (cases bs) auto
  have bp: "blk_ok bp" "blks_ok nxt" using assms(2) bs by simp_all
  show ?thesis
  proof (cases "n \<le> BLEN bp")
    case True
    then show ?thesis using assms bs by auto
  next
    case lt: False
    show ?thesis
    proof (cases "length (b_buf bp) - b_rp bp < n")
      case True
      obtain m1 nbp where a: "allocb m n = (m1, nbp)" by fastforce
      note new = allocb_new [OF a]
      have run: "pullup_loop m1 nbp n bs = (m', r)" using assms(4) bs lt True a new by auto
      have mm: "macc (add_mset (b_id nbp) (ids bs) + H) m1" using macc_alloc [OF assms(1) a] by simp
      have "blk_ok nbp" "n \<le> room nbp" "0 < n" using new lt by auto
      from pullup_loop_ok [OF mm this(1) assms(2) this(3,2) run] show ?thesis
        using new lt bs by (auto split: if_splits)
    next
      case False
      have run: "pullup_loop m bp (n - BLEN bp) nxt = (m', r)" using assms(4) bs lt False by simp
      have mm: "macc (add_mset (b_id bp) (ids nxt) + H) m" using assms(1) bs by simp
      have "0 < n - BLEN bp" "n - BLEN bp \<le> room bp" using lt False bp(1) by (auto simp: room_def BLEN_def blk_ok_def)
      from pullup_loop_ok [OF mm bp this run] show ?thesis using bs lt by (auto split: if_splits)
    qed
  qed
qed

text \<open>
  The data and the bytes are kept, but \<open>len\<close> does not follow the buffers when one was allocated or freed, so that only the weaker
  invariant is left.
\<close>

lemma pullupqueue_ok:
  assumes "qinv t H s" "n \<le> blocklen (q_bfirst (que s))" "q_bfirst (que s) \<noteq> []"
  shows "qinv False H (pullupqueue s n) \<and> content (pullupqueue s n) = content s \<and> q_bfirst (que (pullupqueue s n)) \<noteq> [] \<and>
    n \<le> BLEN (hd (q_bfirst (que (pullupqueue s n)))) \<and> mode (pullupqueue s n) = mode s \<and>
    q_dlen (que (pullupqueue s n)) = q_dlen (que s)"
proof -
  obtain b nxt where b: "q_bfirst (que s) = b # nxt" using assms(3) by (cases "q_bfirst (que s)") auto
  note q = qinvD [OF assms(1)]
  show ?thesis
  proof (cases "n \<le> BLEN b")
    case True
    then have "pullupqueue s n = s" using b by (simp add: pullupqueue_def)
    then show ?thesis using assms b True by (simp add: qinv_def)
  next
    case False
    obtain m r where r: "pullupblock (mem s) (q_bfirst (que s)) n = (m, r)" by fastforce
    from pullupblock_ok [OF q(1,2) assms(3) r] assms(2)
    have ok: "macc (ids r + H) m" "blks_ok r" "bdatas r = bdatas (q_bfirst (que s))" "r \<noteq> []" "n \<le> BLEN (hd r)" by simp_all
    have eq: "pullupqueue s n = setblast (last r) (setbfirst r (s\<lparr>mem := m\<rparr>))"
      using b False r ok(4) by (simp add: pullupqueue_def)
    have "blocklen r = blocklen (q_bfirst (que s))" using ok(2,3) q(2) by (metis length_bdatas)
    then have "qinv False H (pullupqueue s n)" unfolding eq using q ok by (intro qinvI) (simp_all add: setblast_def)
    moreover have "mode (pullupqueue s n) = mode s" by (simp add: eq)
    ultimately show ?thesis using ok by (simp add: eq content_def setblast_def)
  qed
qed

section \<open>Padding and joining\<close>

lemma retreat:
  assumes "blk_ok b" "k \<le> b_rp b"
  obtains pad where "length pad = k" "bdata (b\<lparr>b_rp := b_rp b - k\<rparr>) = pad @ bdata b" "blk_ok (b\<lparr>b_rp := b_rp b - k\<rparr>)"
proof -
  let ?b = "b\<lparr>b_rp := b_rp b - k\<rparr>"
  have ok: "blk_ok ?b" using assms by (auto simp: blk_ok_def)
  have "b = ?b\<lparr>b_rp := b_rp ?b + k\<rparr>" using assms by simp
  moreover have "k \<le> BLEN ?b" using assms by (auto simp: BLEN_def blk_ok_def)
  ultimately have "bdata b = drop k (bdata ?b)" "length (take k (bdata ?b)) = k" using ok advance_data [OF ok, of k] by simp_all
  then have "bdata ?b = take k (bdata ?b) @ bdata b" by simp
  then show ?thesis using that ok \<open>length (take k (bdata ?b)) = k\<close> by blast
qed

text \<open>The bytes of a padding in front are those the buffer happens to hold.\<close>

lemma padblock_ok:
  assumes "macc (ids [bp] + H) m" "blk_ok bp" "padblock m [bp] k = (m', r)"
  shows "\<exists>b pad. r = [b] \<and> blk_ok b \<and> macc (ids r + H) m' \<and> bdata b = pad @ bdata bp \<and> length pad = nat k \<and> nat (- k) \<le> room b"
proof (cases "0 \<le> k")
  case k: True
  show ?thesis
  proof (cases "k \<le> int (b_rp bp)")
    case True
    then have "nat k \<le> b_rp bp" using k by linarith
    then obtain pad where "length pad = nat k" "bdata (bp\<lparr>b_rp := b_rp bp - nat k\<rparr>) = pad @ bdata bp" "blk_ok (bp\<lparr>b_rp := b_rp bp - nat k\<rparr>)"
      by (rule retreat [OF assms(2)])
    then show ?thesis using assms True k by auto
  next
    case False
    obtain m1 nbp where a: "allocb m (nat k + BLEN bp) = (m1, nbp)" by fastforce
    note new = allocb_new [OF a]
    let ?n = "nbp\<lparr>b_rp := nat k, b_wp := nat k\<rparr>"
    have n: "blk_ok ?n" "length (bdata bp) \<le> room ?n" "bdata ?n = []" "b_id ?n = b_id nbp"
    proof -
      show "blk_ok ?n" using new by (simp add: blk_ok_def)
      show "length (bdata bp) \<le> room ?n" using new assms(2) by (simp add: room_def)
      show "bdata ?n = []" by (simp add: bdata_def BLEN_def)
    qed simp
    obtain b' where b': "bstore m1 ?n (bdata bp) = (m1, b')" "blk_ok b'" "bdata b' = bdata bp" "b_id b' = b_id nbp" "b_rp b' = nat k"
      by (rule bstore_ok [OF n(1,2), of m1]) (use n in auto)
    obtain pad where pad: "length pad = nat k" "bdata (b'\<lparr>b_rp := b_rp b' - nat k\<rparr>) = pad @ bdata b'" "blk_ok (b'\<lparr>b_rp := b_rp b' - nat k\<rparr>)"
      by (rule retreat [OF b'(2), of "nat k"]) (use b'(5) in auto)
    have r: "r = [b'\<lparr>b_rp := b_rp b' - nat k\<rparr>]" "m' = freeb m1 bp" using assms(3) k False a new b'(1) by (auto simp: Let_def)
    have "macc (add_mset (b_id nbp) H) m'" unfolding r(2)
      by (rule macc_free) (use macc_alloc [OF assms(1) a] in \<open>simp add: add_mset_commute\<close>)
    then show ?thesis using r(1) pad b' k by simp
  qed
next
  case k: False
  show ?thesis
  proof (cases "- k \<le> int (length (b_buf bp)) - int (b_wp bp)")
    case True
    then have "nat (- k) \<le> room bp" using k by (simp add: room_def)
    then show ?thesis using assms True k by auto
  next
    case False
    obtain m1 nbp where a: "allocb m (nat (- k) + BLEN bp) = (m1, nbp)" by fastforce
    note new = allocb_new [OF a]
    have n: "blk_ok nbp" "length (bdata bp) \<le> room nbp" using new assms(2) by auto
    obtain b' where b': "bstore m1 nbp (bdata bp) = (m1, b')" "blk_ok b'" "bdata b' = bdata bp" "b_id b' = b_id nbp"
      "room b' = nat (- k)"
      by (rule bstore_ok [OF n, of m1]) (use new assms(2) in auto)
    have r: "r = [b']" "m' = freeb m1 bp" using assms(3) k False a b'(1) by (auto simp: Let_def)
    have "macc (add_mset (b_id nbp) H) m'" unfolding r(2)
      by (rule macc_free) (use macc_alloc [OF assms(1) a] in \<open>simp add: add_mset_commute\<close>)
    then show ?thesis using r(1) b' k by simp
  qed
qed

lemma concat_loop_ok:
  assumes "blk_ok nb" "blks_ok bs" "blocklen bs \<le> room nb" "concat_loop m nb bs = (m', b)"
  shows "m' = m \<and> blk_ok b \<and> b_id b = b_id nb \<and> bdata b = bdata nb @ bdatas bs"
  using assms
proof (induction m nb bs rule: concat_loop.induct)
  case (2 m nb f nxt)
  have "length (bdata f) \<le> room nb" using "2.prems" by simp
  then obtain b' where b': "bstore m nb (bdata f) = (m, b')" "blk_ok b'" "bdata b' = bdata nb @ bdata f" "b_id b' = b_id nb"
    "room b' = room nb - length (bdata f)" by (rule bstore_ok [OF "2.prems"(1)])
  have "m' = m \<and> blk_ok b \<and> b_id b = b_id b' \<and> bdata b = bdata b' @ bdatas nxt"
    by (rule "2.IH" [OF b'(1) [symmetric] refl b'(2)]) (use "2.prems" b' in auto)
  then show ?case using b' by simp
qed simp

lemma concatblock_ok:
  assumes "macc (ids bs + H) m" "blks_ok bs" "bs \<noteq> []" "concatblock m bs = (m', r)"
  shows "\<exists>b. r = [b] \<and> blk_ok b \<and> bdata b = bdatas bs \<and> macc (ids r + H) m'"
proof (cases "length bs = 1")
  case True
  then obtain bp where "bs = [bp]" by (cases bs) auto
  then show ?thesis using assms by auto
next
  case False
  then obtain x y zs where bs: "bs = x # y # zs" using assms(3) by (metis One_nat_def length_Cons list.size(3) neq_Nil_conv)
  obtain m1 nb where a: "allocb m (blocklen bs) = (m1, nb)" by fastforce
  note new = allocb_new [OF a]
  obtain m2 b where l: "concat_loop m1 nb bs = (m2, b)" by fastforce
  have c: "m2 = m1 \<and> blk_ok b \<and> b_id b = b_id nb \<and> bdata b = bdata nb @ bdatas bs"
    by (rule concat_loop_ok [OF _ assms(2) _ l]) (use new in auto)
  have r: "r = [b]" "m' = freeblist m2 bs" using assms(4) a l unfolding bs by (auto simp: Let_def)
  have "macc (add_mset (b_id nb) H) m'" unfolding r(2)
    by (rule macc_freelist) (use macc_alloc [OF assms(1) a] c in \<open>simp add: ac_simps\<close>)
  then show ?thesis using r(1) c new by simp
qed

section \<open>Trimming and copying\<close>

lemma trim_front_ok:
  assumes "macc (ids bs + H) m" "blks_ok bs" "k \<le> blocklen bs" "bs \<noteq> []" "trim_front m bs k = (m', r)"
  shows "macc (ids r + H) m' \<and> blks_ok r \<and> bdatas r = drop k (bdatas bs) \<and> r \<noteq> []"
  using assms
proof (induction m bs k rule: trim_front.induct)
  case (2 m bp nb k)
  show ?case
  proof (cases "BLEN bp < k")
    case True
    have "macc (ids nb + H) (freeb m bp)" by (rule macc_free) (use "2.prems"(1) in simp)
    then have "macc (ids r + H) m' \<and> blks_ok r \<and> bdatas r = drop (k - BLEN bp) (bdatas nb) \<and> r \<noteq> []"
      using "2.IH" [OF True] "2.prems" True by (cases nb) auto
    then show ?thesis using True "2.prems"(2) by simp
  next
    case False
    then show ?thesis using "2.prems" by auto
  qed
qed simp

lemma trim_back_ok:
  assumes "macc (ids bs + H) m" "blks_ok bs" "n \<le> blocklen bs" "bs \<noteq> []" "trim_back m bs n = (m', r)"
  shows "macc (ids r + H) m' \<and> blks_ok r \<and> bdatas r = take n (bdatas bs)"
  using assms
proof (induction m bs n arbitrary: H r rule: trim_back.induct)
  case (2 m bp nxt n)
  show ?case
  proof (cases "BLEN bp < n")
    case True
    obtain r' where r': "trim_back m nxt (n - BLEN bp) = (m', r')" "r = bp # r'"
      using "2.prems"(5) True by (auto split: prod.splits)
    have "macc (ids r' + add_mset (b_id bp) H) m' \<and> blks_ok r' \<and> bdatas r' = take (n - BLEN bp) (bdatas nxt)"
      by (rule "2.IH" [OF True _ _ _ _ r'(1)]) (use "2.prems" True in auto)
    then show ?thesis using r'(2) True "2.prems"(2) by simp
  next
    case False
    let ?b = "bp\<lparr>b_wp := b_rp bp + n\<rparr>"
    have ok: "blk_ok bp" using "2.prems"(2) by simp
    have "b_wp bp - (BLEN bp - n) = b_rp bp + n" using ok False by (auto simp: BLEN_def blk_ok_def)
    then have r: "r = [?b]" "m' = freeblist m nxt" using "2.prems"(5) False by auto
    have "macc (add_mset (b_id bp) H) m'" unfolding r(2)
      by (rule macc_freelist) (use "2.prems"(1) in \<open>simp add: ac_simps\<close>)
    then show ?thesis using r(1) ok False by simp
  qed
qed simp

lemma iadd_small: "- (2^31) \<le> x + y \<Longrightarrow> x + y < 2^31 \<Longrightarrow> iadd x y = x + y"
  unfolding iadd_def sint_sbintrunc' by (simp add: signed_take_bit_int_eq_self)

lemma trimblock_ok:
  assumes "macc (ids bs + H) m" "blks_ok bs" "bs \<noteq> []" "offset + n < 2^31" "trimblock m bs offset n = (m', r)"
  shows "macc (ids r + H) m' \<and> blks_ok r \<and>
    bdatas r = (if 0 \<le> offset \<and> 0 \<le> n \<and> offset + n \<le> int (blocklen bs) then take (nat n) (drop (nat offset) (bdatas bs)) else [])"
proof (cases "0 \<le> offset \<and> 0 \<le> n \<and> offset + n \<le> int (blocklen bs)")
  case True
  then have "iadd offset n = offset + n" using assms(4) by (intro iadd_small) auto
  then obtain u s where u: "trim_front m bs (nat offset) = (u, s)" "trim_back u s (nat n) = (m', r)"
    using assms(5) True by (auto simp: trimblock_def split: prod.splits)
  have le: "nat offset \<le> blocklen bs" using True by linarith
  note f = trim_front_ok [OF assms(1,2) le assms(3) u(1)]
  then have "blocklen s = blocklen bs - nat offset" using assms(2) by (metis length_bdatas length_drop)
  then have "nat n \<le> blocklen s" using True by linarith
  then show ?thesis using trim_back_ok [of s H u "nat n" m' r] f u(2) True by simp
next
  case False
  then have "iadd offset n = offset + n \<or> offset < 0 \<or> n < 0" using assms(4) iadd_small [of offset n] by auto
  then have "m' = freeblist m bs" "r = []" using assms(5) False by (auto simp: trimblock_def split: if_splits)
  then show ?thesis using False macc_freelist [OF assms(1)] by auto
qed

lemma copy_loop_ok:
  assumes "blk_ok nb" "blks_ok bs" "k \<le> room nb" "copy_loop m nb bs k = (m', b, j)"
  shows "m' = m \<and> blk_ok b \<and> b_id b = b_id nb \<and> bdata b = bdata nb @ take k (bdatas bs) \<and> j = k - blocklen bs \<and> j \<le> room b"
  using assms
proof (induction m nb bs k rule: copy_loop.induct)
  case (2 m nb bp nxt k)
  show ?case
  proof (cases "k = 0")
    case False
    let ?l = "min (BLEN bp) k"
    have "length (take ?l (bdata bp)) \<le> room nb" using "2.prems"(3) by simp
    then obtain b' where b': "bstore m nb (take ?l (bdata bp)) = (m, b')" "blk_ok b'" "bdata b' = bdata nb @ take ?l (bdata bp)"
      "b_id b' = b_id nb" "room b' = room nb - length (take ?l (bdata bp))" by (rule bstore_ok [OF "2.prems"(1)])
    have nx: "blks_ok nxt" and bp: "blk_ok bp" using "2.prems"(2) by simp_all
    have rm: "k - ?l \<le> room b'" using "2.prems"(3) b'(5) bp by (cases "BLEN bp \<le> k") simp_all
    have run: "copy_loop m b' nxt (k - ?l) = (m', b, j)" using "2.prems"(4) False b'(1) by (simp add: Let_def)
    have "m' = m \<and> blk_ok b \<and> b_id b = b_id b' \<and> bdata b = bdata b' @ take (k - ?l) (bdatas nxt) \<and> j = k - ?l - blocklen nxt \<and> j \<le> room b"
      by (rule "2.IH" [OF False refl b'(1) [symmetric] refl b'(2) nx rm run])
    then show ?thesis using b' bp by (cases "BLEN bp \<le> k") auto
  qed (use "2.prems" in auto)
qed simp

lemma copyblock_ok:
  assumes "macc H m" "blks_ok bs" "copyblock m bs k = (m', b)"
  shows "macc (add_mset (b_id b) H) m' \<and> blk_ok b \<and> bdata b = take k (bdatas bs) @ replicate (k - blocklen bs) 0"
proof -
  obtain m1 nb where a: "allocb m k = (m1, nb)" by fastforce
  note new = allocb_new [OF a]
  obtain m2 c j where l: "copy_loop m1 nb bs k = (m2, c, j)" using prod_cases3 by blast
  have c: "m2 = m1 \<and> blk_ok c \<and> b_id c = b_id nb \<and> bdata c = bdata nb @ take k (bdatas bs) \<and> j = k - blocklen bs \<and> j \<le> room c"
    by (rule copy_loop_ok [OF _ assms(2) _ l]) (use new in auto)
  then have z: "blk_ok c" "length (replicate j (0::u8)) \<le> room c" by auto
  obtain d where d: "bstore m1 c (replicate j 0) = (m1, d)" "blk_ok d" "bdata d = bdata c @ replicate j 0" "b_id d = b_id c"
    by (rule bstore_ok [OF z])
  show ?thesis using assms(3) a l c d new macc_alloc [OF assms(1) a] by (auto simp: copyblock_def split: if_splits)
qed

lemma adjustblock_ok:
  assumes "macc (ids [bp] + H) m" "blk_ok bp" "adjustblock m [bp] n = (m', r)"
  shows "macc (ids r + H) m' \<and> blks_ok r \<and>
    bdatas r = take (nat n) (bdata bp) @ replicate (nat n - BLEN bp) 0"
proof (cases "n < 0")
  case True
  then show ?thesis using assms macc_free by auto
next
  case n: False
  show ?thesis
  proof (cases "length (b_buf bp) < b_rp bp + nat n")
    case True
    obtain m1 nb where c: "copyblock m [bp] (nat n) = (m1, nb)" by fastforce
    have ok: "blks_ok [bp]" using assms(2) by simp
    note cp = copyblock_ok [OF assms(1) ok c]
    have r: "r = [nb]" "m' = freeb m1 bp" using assms(3) n True c by auto
    have "macc (add_mset (b_id nb) H) m'" unfolding r(2)
      by (rule macc_free) (use cp in \<open>simp add: add_mset_commute\<close>)
    then show ?thesis using r(1) cp by simp
  next
    case fits: False
    show ?thesis
    proof (cases "BLEN bp < nat n")
      case True
      have "length (replicate (nat n - BLEN bp) (0::u8)) \<le> room bp"
        using fits assms(2) by (auto simp: room_def BLEN_def blk_ok_def)
      then obtain b where b: "bstore m bp (replicate (nat n - BLEN bp) 0) = (m, b)" "blk_ok b"
        "bdata b = bdata bp @ replicate (nat n - BLEN bp) 0" "b_id b = b_id bp" "BLEN b = BLEN bp + length (replicate (nat n - BLEN bp) (0::u8))"
        by (rule bstore_ok [OF assms(2)])
      have "m' = m" "r = [b\<lparr>b_wp := b_rp b + nat n\<rparr>]" using assms(3) n fits True b(1) by auto
      then show ?thesis using b True assms(1,2) by simp
    next
      case False
      then have "m' = m" "r = [bp\<lparr>b_wp := b_rp bp + nat n\<rparr>]" using assms(3) n fits by auto
      then show ?thesis using False assms(1,2) by simp
    qed
  qed
qed

lemma pullblock_ok:
  assumes "macc (ids bs + H) m" "blks_ok bs" "pullblock m bs n = (m', r, k)"
  shows "macc (ids r + H) m' \<and> blks_ok r \<and> bdatas r = drop n (bdatas bs) \<and> k = min n (blocklen bs)"
  using assms
proof (induction m bs n arbitrary: k rule: pullblock.induct)
  case (2 m bp nxt n)
  show ?case
  proof (cases "n = 0")
    case nz: False
    let ?n = "min (BLEN bp) n"
    let ?b = "bp\<lparr>b_rp := b_rp bp + ?n\<rparr>"
    have ok: "blk_ok bp" "blks_ok nxt" using "2.prems"(2) by simp_all
    have len: "BLEN ?b = BLEN bp - ?n" using ok(1) by simp
    show ?thesis
    proof (cases "BLEN ?b = 0")
      case True
      obtain k' where k': "pullblock (freeb m ?b) nxt (n - ?n) = (m', r, k')" "k = ?n + k'"
        using "2.prems"(3) nz True by (auto simp: Let_def split: prod.splits)
      have "macc (ids nxt + H) (freeb m ?b)" by (rule macc_free) (use "2.prems"(1) in simp)
      from "2.IH" [OF nz refl refl True this ok(2) k'(1)] have
        "macc (ids r + H) m' \<and> blks_ok r \<and> bdatas r = drop (n - ?n) (bdatas nxt) \<and> k' = min (n - ?n) (blocklen nxt)" .
      moreover have "?n = BLEN bp" using True len by simp
      ultimately show ?thesis using k'(2) ok by auto
    next
      case False
      then have "m' = m" "r = ?b # nxt" "k = ?n" using "2.prems"(3) nz by (auto simp: Let_def)
      moreover have "?n = n" using False len by auto
      ultimately show ?thesis using "2.prems"(1) ok False len by auto
    qed
  qed (use "2.prems" in auto)
qed simp

lemma packblock_ok:
  assumes "macc (ids bs + H) m" "blks_ok bs" "packblock m bs = (m', r)"
  shows "macc (ids r + H) m' \<and> blks_ok r \<and> map bdata r = map bdata bs"
  using assms
proof (induction m bs arbitrary: H r rule: packblock.induct)
  case (2 m bp nxt)
  have ok: "blk_ok bp" "blks_ok nxt" using "2.prems"(2) by simp_all
  show ?case
  proof (cases "4 * BLEN bp < BALLOC bp")
    case True
    obtain m1 b where a: "allocb m (length (bdata bp)) = (m1, b)" by fastforce
    note new = allocb_new [OF a]
    have "blk_ok b" "length (bdata bp) \<le> room b" using new by auto
    then obtain b' where b': "bstore m1 b (bdata bp) = (m1, b')" "blk_ok b'" "bdata b' = bdata b @ bdata bp" "b_id b' = b_id b"
      by (rule bstore_ok)
    obtain r' where r': "packblock (freeb m1 bp) nxt = (m', r')" "r = b' # r'"
      using "2.prems"(3) True a b'(1) ok by (auto simp: Let_def split: prod.splits)
    have "macc (ids nxt + add_mset (b_id b') H) (freeb m1 bp)"
      by (rule macc_free) (use macc_alloc [OF "2.prems"(1) a] b'(4) in \<open>simp add: add_mset_commute\<close>)
    from "2.IH"(1) [OF refl True a [symmetric, unfolded length_bdata [OF ok(1)]] refl b'(1) [symmetric] refl refl this ok(2) r'(1)]
    show ?thesis using r'(2) b' new by simp
  next
    case False
    obtain r' where r': "packblock m nxt = (m', r')" "r = bp # r'"
      using "2.prems"(3) False by (auto simp: Let_def split: prod.splits)
    have "macc (ids nxt + add_mset (b_id bp) H) m" using "2.prems"(1) by simp
    from "2.IH"(2) [OF refl False this ok(2) r'(1)] show ?thesis using r'(2) ok by simp
  qed
qed simp

lemma mem2bl_ok:
  assumes "macc H m" "mem2bl m p = (m', r)"
  shows "macc (ids r + H) m' \<and> blks_ok r \<and> bdatas r = p \<and> r \<noteq> [] \<and> (\<forall>b\<in>set r. BLEN b \<le> Maxatomic)"
  using assms
proof (induction m p arbitrary: H r rule: mem2bl.induct)
  case (1 m p)
  let ?n = "min (length p) Maxatomic"
  obtain m1 b where a: "allocb m ?n = (m1, b)" by fastforce
  note new = allocb_new [OF a]
  have "blk_ok b" "length (take ?n p) \<le> room b" using new by auto
  then obtain b' where b': "bstore m1 b (take ?n p) = (m1, b')" "blk_ok b'" "bdata b' = bdata b @ take ?n p" "b_id b' = b_id b"
    "BLEN b' = BLEN b + length (take ?n p)" by (rule bstore_ok)
  have mm: "macc (add_mset (b_id b') H) m1" using macc_alloc [OF "1.prems"(1) a] b'(4) by simp
  show ?case
  proof (cases "0 < length p - ?n")
    case True
    obtain r' where r': "mem2bl m1 (drop ?n p) = (m', r')" "r = b' # r'"
      using "1.prems"(2) [unfolded mem2bl.simps [of m] Let_def a prod.case b'(1)] True by (auto split: prod.splits if_splits)
    from "1.IH" [OF refl a [symmetric] refl b'(1) [symmetric] refl True mm r'(1)]
    show ?thesis using r'(2) b' new by (simp add: take_drop_app)
  next
    case False
    then have "m' = m1" "r = [b']" using "1.prems"(2) [unfolded mem2bl.simps [of m] Let_def a prod.case b'(1)] by (auto split: if_splits)
    moreover have "take ?n p = p" using False by auto
    ultimately show ?thesis using b' mm new by simp
  qed
qed

end
