(* ===== verification/QioRuns.thy ===== *)
theory QioRuns
  imports BlockProps
begin

text \<open>
  Any number of operations on a queue, one after the other, in the order in which they get its lock. A client \<open>qcl\<close> has the queue, the
  blocks it was given and has not passed on, the blocks that a reader has taken and not yet copied (\<open>qread\<close> is two operations, and
  others run between), the bytes a writer has yet to queue after a sleep, and who sleeps. The blocks that no operation will ever see
  again (\<open>c_lost\<close>) are recorded too. A \<open>trace\<close> is a run of operations that are \<open>allowed\<close>: the reader and the writer are one process each (\<open>rlock\<close>,
  \<open>wlock\<close>), and a sleeping process does nothing.
\<close>

record qcl =
  c_st :: qst
  c_held :: "block list"
  c_fly :: "(block list \<times> nat \<times> nat) option"
  c_wr :: "(bytes \<times> nat) option"
  c_lost :: "nat list"
  c_rsleep :: bool
  c_wsleep :: bool

datatype qop =
    Get | Discard nat | Consume nat | Pass nat | PassNoLim nat | Produce bytes | Copy nat nat | Bread nat
  | ReadTake nat | ReadDone | Bwrite | Write bytes | Resume | Iwrite bytes
  | Close | Hangup "bytes option" | Reopen | Flush | SetLimit int | NoBlock bool
  | Remove | PutBack | AddList nat | PullUp nat

definition start :: "qst \<Rightarrow> qcl" where
  "start s = \<lparr>c_st = s, c_held = [], c_fly = None, c_wr = None, c_lost = [], c_rsleep = False, c_wsleep = False\<rparr>"

fun allowed :: "qop \<Rightarrow> qcl \<Rightarrow> bool" where
  "allowed (Pass k) c = (0 < k \<and> k \<le> length (c_held c))"
| "allowed (PassNoLim k) c = (0 < k \<and> k \<le> length (c_held c))"
| "allowed (AddList k) c = (0 < k \<and> k \<le> length (c_held c))"
| "allowed PutBack c = (c_held c \<noteq> [])"
| "allowed Bwrite c = (c_held c \<noteq> [] \<and> c_wr c = None \<and> \<not> c_wsleep c)"
| "allowed (Write p) c = (c_wr c = None \<and> \<not> c_wsleep c)"
| "allowed Resume c = (c_wr c \<noteq> None \<and> \<not> c_wsleep c)"
| "allowed (ReadTake n) c = (c_fly c = None \<and> \<not> c_rsleep c)"
| "allowed (Bread n) c = (c_fly c = None \<and> \<not> c_rsleep c)"
| "allowed ReadDone c = (c_fly c \<noteq> None)"
| "allowed (PullUp n) c = (q_bfirst (que (c_st c)) \<noteq> [] \<and> int n \<le> qlen (c_st c))"
| "allowed _ c = True"

definition writing :: "bytes \<Rightarrow> wout \<Rightarrow> (bytes \<times> nat) option" where
  "writing p r = (case r of Wasleep k \<Rightarrow> Some (p, k) | _ \<Rightarrow> None)"

definition written :: "bytes \<Rightarrow> nat \<Rightarrow> wout \<Rightarrow> bytes" where
  "written p k r = (case r of Wrote _ \<Rightarrow> drop k p | Wasleep j \<Rightarrow> take (j - k) (drop k p) | Wraised _ \<Rightarrow> [])"

text \<open>
  An operation gives the client after it, the bytes it says it added at the end of the queue, and the bytes it took from the front: those
  it stored for its caller or gave in a block, or threw away on its caller's wish.
\<close>

fun qstep :: "qop \<Rightarrow> qcl \<Rightarrow> qcl \<times> bytes \<times> bytes" where
  "qstep Get c =
     (let (s, r) = qget (c_st c) in
      case r of None \<Rightarrow> (c\<lparr>c_st := s\<rparr>, [], []) | Some b \<Rightarrow> (c\<lparr>c_st := s, c_held := b # c_held c\<rparr>, [], bdata b))"
| "qstep (Discard n) c = (let (s, k) = qdiscard (c_st c) n in (c\<lparr>c_st := s\<rparr>, [], take k (content (c_st c))))"
| "qstep (Consume n) c =
     (let (s, r, p) = qconsume (c_st c) n
      in (c\<lparr>c_st := s, c_lost := (if r = -1 then map b_id (q_bfirst (que (c_st c))) else []) @ c_lost c\<rparr>, [], p))"
| "qstep (Pass k) c =
     (let bs = take k (c_held c); (s, r) = qpass (c_st c) bs
      in (c\<lparr>c_st := s, c_held := drop k (c_held c)\<rparr>, if r = -1 \<or> isset Qclosed (c_st c) then [] else bdatas bs, []))"
| "qstep (PassNoLim k) c =
     (let bs = take k (c_held c); (s, r) = qpassnolim (c_st c) bs
      in (c\<lparr>c_st := s, c_held := drop k (c_held c)\<rparr>, if isset Qclosed (c_st c) then [] else bdatas bs, []))"
| "qstep (Produce p) c = (let (s, r) = qproduce (c_st c) p in (c\<lparr>c_st := s\<rparr>, if r = -1 then [] else p, []))"
| "qstep (Copy n off) c = (let (s, b) = qcopy (c_st c) n off in (c\<lparr>c_st := s, c_held := b # c_held c\<rparr>, [], []))"
| "qstep (Bread n) c =
     (let (s, r) = qbread (c_st c) n in
      case r of Done (Some b) \<Rightarrow> (c\<lparr>c_st := s, c_held := b # c_held c\<rparr>, [], bdata b) | _ \<Rightarrow> (c\<lparr>c_st := s\<rparr>, [], []))"
| "qstep (ReadTake n) c =
     (let (s, r) = qread_take (c_st c) n in
      case r of Done (Some (bs, k)) \<Rightarrow> (c\<lparr>c_st := s, c_fly := Some (bs, k, n)\<rparr>, [], []) | _ \<Rightarrow> (c\<lparr>c_st := s\<rparr>, [], []))"
| "qstep ReadDone c =
     (case c_fly c of
        None \<Rightarrow> (c, [], [])
      | Some (bs, k, n) \<Rightarrow> (let (s, j, p) = qread_done (c_st c) bs k n in (c\<lparr>c_st := s, c_fly := None\<rparr>, [], p)))"
| "qstep Bwrite c =
     (case c_held c of
        [] \<Rightarrow> (c, [], [])
      | b # bs \<Rightarrow>
          (let (s, r) = qbwrite (c_st c) b in
           (c\<lparr>c_st := s, c_held := bs, c_wr := (if r = Asleep then Some ([], 0) else None)\<rparr>,
            case r of Raised e \<Rightarrow> [] | _ \<Rightarrow> bdata b, [])))"
| "qstep (Write p) c = (let (s, r) = qwrite (c_st c) p in (c\<lparr>c_st := s, c_wr := writing p r\<rparr>, written p 0 r, []))"
| "qstep Resume c =
     (case c_wr c of
        None \<Rightarrow> (c, [], [])
      | Some (p, k) \<Rightarrow> (let (s, r) = qwrite_resume (c_st c) p k in (c\<lparr>c_st := s, c_wr := writing p r\<rparr>, written p k r, [])))"
| "qstep (Iwrite p) c = (let (s, k) = qiwrite (c_st c) p in (c\<lparr>c_st := s\<rparr>, take k p, []))"
| "qstep Close c = (c\<lparr>c_st := qclose (c_st c)\<rparr>, [], content (c_st c))"
| "qstep (Hangup msg) c = (c\<lparr>c_st := qhangup (c_st c) msg\<rparr>, [], [])"
| "qstep Reopen c = (c\<lparr>c_st := qreopen (c_st c)\<rparr>, [], [])"
| "qstep Flush c = (c\<lparr>c_st := qflush (c_st c)\<rparr>, [], content (c_st c))"
| "qstep (SetLimit l) c = (c\<lparr>c_st := qsetlimit (c_st c) l\<rparr>, [], [])"
| "qstep (NoBlock x) c = (c\<lparr>c_st := qnoblock (c_st c) x\<rparr>, [], [])"
| "qstep Remove c =
     (let (s, r) = qremove (c_st c) in
      case r of None \<Rightarrow> (c\<lparr>c_st := s\<rparr>, [], []) | Some b \<Rightarrow> (c\<lparr>c_st := s, c_held := b # c_held c\<rparr>, [], bdata b))"
| "qstep PutBack c =
     (case c_held c of [] \<Rightarrow> (c, [], []) | b # bs \<Rightarrow> (c\<lparr>c_st := qputback (c_st c) b, c_held := bs\<rparr>, [], []))"
| "qstep (AddList k) c =
     (let bs = take k (c_held c) in (c\<lparr>c_st := qaddlist (c_st c) bs, c_held := drop k (c_held c)\<rparr>, bdatas bs, []))"
| "qstep (PullUp n) c = (c\<lparr>c_st := pullupqueue (c_st c) n\<rparr>, [], [])"

text \<open>The processes that an operation puts to sleep, and those that its wake-ups get going.\<close>

definition falls_r :: "qop \<Rightarrow> qcl \<Rightarrow> bool" where
  "falls_r op c =
     (case op of
        ReadTake n \<Rightarrow> snd (qread_take (c_st c) n) = Asleep
      | Bread n \<Rightarrow> snd (qbread (c_st c) n) = Asleep
      | _ \<Rightarrow> False)"

definition falls_w :: "qop \<Rightarrow> qcl \<Rightarrow> bool" where
  "falls_w op c \<longleftrightarrow>
     (case op of Bwrite \<Rightarrow> True | Write p \<Rightarrow> True | Resume \<Rightarrow> True | _ \<Rightarrow> False) \<and> c_wr (fst (qstep op c)) \<noteq> None"

definition qdo :: "qop \<Rightarrow> qcl \<Rightarrow> qcl \<times> bytes \<times> bytes" where
  "qdo op c =
     (let (d, i, out) = qstep op c; new = drop (length (evs (c_st c))) (evs (c_st d))
      in (d\<lparr>c_rsleep := falls_r op c \<or> c_rsleep c \<and> WakeR \<notin> set new,
            c_wsleep := falls_w op c \<or> c_wsleep c \<and> WakeW \<notin> set new\<rparr>, i, out))"

text \<open>A run of allowed operations, with all that they added and all that they took.\<close>

inductive trace :: "('o \<Rightarrow> 's \<Rightarrow> bool) \<Rightarrow> ('o \<Rightarrow> 's \<Rightarrow> 's \<times> 'a list \<times> 'a list) \<Rightarrow> 'o list \<Rightarrow> 's \<Rightarrow> 's \<Rightarrow> 'a list \<Rightarrow> 'a list \<Rightarrow> bool"
  for ok step where
  "trace ok step [] c c [] []"
| "ok op c \<Longrightarrow> step op c = (d, i, out) \<Longrightarrow> trace ok step ops d e is outs \<Longrightarrow>
     trace ok step (op # ops) c e (i @ is) (out @ outs)"

inductive_cases trace_NilE: "trace ok step [] c d i out"
inductive_cases trace_ConsE: "trace ok step (op # ops) c d i out"

section \<open>The contract of a queue\<close>

locale keeps =
  fixes ok :: "'o \<Rightarrow> 's \<Rightarrow> bool" and step :: "'o \<Rightarrow> 's \<Rightarrow> 's \<times> 'a list \<times> 'a list" and inv :: "'s \<Rightarrow> bool"
  assumes step_inv: "inv c \<Longrightarrow> ok op c \<Longrightarrow> step op c = (d, i, out) \<Longrightarrow> inv d"
begin

lemma trace_inv: "trace ok step ops c d i out \<Longrightarrow> inv c \<Longrightarrow> inv d"
  by (induction rule: trace.induct) (auto intro: step_inv)

end

locale fifo = keeps ok step inv
  for ok :: "'o \<Rightarrow> 's \<Rightarrow> bool" and step :: "'o \<Rightarrow> 's \<Rightarrow> 's \<times> 'a list \<times> 'a list" and inv :: "'s \<Rightarrow> bool" +
  fixes held :: "'s \<Rightarrow> 'a list"
  assumes step_fifo: "inv c \<Longrightarrow> ok op c \<Longrightarrow> step op c = (d, i, out) \<Longrightarrow> held c @ i = out @ held d"
begin

lemma trace_fifo: "trace ok step ops c d i out \<Longrightarrow> inv c \<Longrightarrow> held c @ i = out @ held d"
proof (induction rule: trace.induct)
  case (2 op c d i out ops e "is" outs)
  have "held c @ i = out @ held d" by (rule step_fifo [OF 2(5,1,2)])
  then have "held c @ i @ is = out @ held d @ is" by (metis append_assoc)
  also have "held d @ is = outs @ held e" by (rule 2(4) [OF step_inv [OF 2(5,1,2)]])
  finally show ?case by simp
qed simp

end

section \<open>The invariant of a client\<close>

definition flying :: "qcl \<Rightarrow> block list" where
  "flying c = (case c_fly c of None \<Rightarrow> [] | Some (bs, k, n) \<Rightarrow> bs)"

definition others :: "qcl \<Rightarrow> nat multiset" where
  "others c = ids (c_held c) + ids (flying c) + mset (c_lost c)"

definition cinv :: "bool \<Rightarrow> qcl \<Rightarrow> bool" where
  "cinv t c \<longleftrightarrow>
     qinv t (others c) (c_st c) \<and> blks_ok (c_held c) \<and> \<not> q_bypass (que (c_st c)) \<and>
     (case c_fly c of None \<Rightarrow> True | Some (bs, k, n) \<Rightarrow> blks_ok bs \<and> bs \<noteq> [] \<and> k = blocklen bs \<and> (length bs = 1 \<or> k \<le> n)) \<and>
     (case c_wr c of None \<Rightarrow> True | Some (p, k) \<Rightarrow> k \<le> length p)"

text \<open>What is on its way: the bytes a reader has taken and those in the queue.\<close>

definition transit :: "qcl \<Rightarrow> bytes" where "transit c = bdatas (flying c) @ content (c_st c)"

text \<open>Taking from the front is in order only when no reader holds blocks that it may put back.\<close>

fun in_order :: "qop \<Rightarrow> qcl \<Rightarrow> bool" where
  "in_order PutBack c = False"
| "in_order (NoBlock x) c = (\<not> x)"
| "in_order Get c = (c_fly c = None)"
| "in_order (Discard n) c = (c_fly c = None)"
| "in_order (Consume n) c = (c_fly c = None)"
| "in_order Close c = (c_fly c = None)"
| "in_order Flush c = (c_fly c = None)"
| "in_order Remove c = (c_fly c = None)"
| "in_order _ c = True"

definition streaming :: "qcl \<Rightarrow> bool" where
  "streaming c \<longleftrightarrow> \<not> isset Qmsg (c_st c) \<and> \<not> q_noblock (que (c_st c))"

definition good :: "bool \<Rightarrow> bool \<Rightarrow> qcl \<Rightarrow> qcl \<Rightarrow> bytes \<Rightarrow> bytes \<Rightarrow> bool" where
  "good t x c d i out \<longleftrightarrow> cinv t d \<and> (streaming c \<longrightarrow> x \<longrightarrow> streaming d \<and> transit c @ i = out @ transit d)"

lemma cinvD:
  assumes "cinv t c"
  shows "qinv t (others c) (c_st c)" "blks_ok (c_held c)" "\<not> q_bypass (que (c_st c))"
    "c_fly c = Some (bs, k, n) \<Longrightarrow> blks_ok bs \<and> bs \<noteq> [] \<and> k = blocklen bs \<and> (length bs = 1 \<or> k \<le> n)"
    "c_wr c = Some (p, j) \<Longrightarrow> j \<le> length p"
  using assms by (auto simp: cinv_def)

lemma others_sel [simp]:
  "others (c\<lparr>c_st := s\<rparr>) = others c" "flying (c\<lparr>c_st := s\<rparr>) = flying c" "flying (c\<lparr>c_held := bs\<rparr>) = flying c"
  "others (c\<lparr>c_wr := w\<rparr>) = others c" "flying (c\<lparr>c_wr := w\<rparr>) = flying c" "flying (c\<lparr>c_lost := l\<rparr>) = flying c"
  "others (c\<lparr>c_rsleep := x\<rparr>) = others c" "others (c\<lparr>c_wsleep := x\<rparr>) = others c"
  "flying (c\<lparr>c_rsleep := x\<rparr>) = flying c" "flying (c\<lparr>c_wsleep := x\<rparr>) = flying c"
  by (simp_all add: others_def flying_def)

lemma streaming_mode: "mode s = mode (c_st c) \<Longrightarrow> c_st d = s \<Longrightarrow> streaming c \<Longrightarrow> streaming d"
  using mode_flags [of s "c_st c"] by (simp add: streaming_def)

text \<open>The queue changes and nothing else; a block is given to the client; blocks of the client go.\<close>

lemma good_st:
  assumes "cinv t c" "qinv t (others c) s" "mode s = mode (c_st c)"
    "streaming c \<Longrightarrow> x \<Longrightarrow> bdatas (flying c) @ content (c_st c) @ i = out @ bdatas (flying c) @ content s"
  shows "good t x c (c\<lparr>c_st := s\<rparr>) i out"
  using assms mode_flags(4) [OF assms(3)] streaming_mode [OF assms(3)]
  by (auto simp: good_def cinv_def transit_def)

lemma good_give:
  assumes "cinv t c" "qinv t (add_mset (b_id b) (others c)) s" "blk_ok b" "mode s = mode (c_st c)"
    "streaming c \<Longrightarrow> x \<Longrightarrow> bdatas (flying c) @ content (c_st c) = out @ bdatas (flying c) @ content s"
  shows "good t x c (c\<lparr>c_st := s, c_held := b # c_held c\<rparr>) [] out"
  using assms mode_flags(4) [OF assms(4)] streaming_mode [OF assms(4)]
  by (auto simp: good_def cinv_def transit_def others_def flying_def)

lemma good_pass:
  assumes "cinv t c" "c_held c = bs @ hs" "qinv t (others (c\<lparr>c_held := hs\<rparr>)) s" "mode s = mode (c_st c)"
    "streaming c \<Longrightarrow> x \<Longrightarrow> content (c_st c) @ i = content s"
  shows "good t x c (c\<lparr>c_st := s, c_held := hs\<rparr>) i []"
  using assms mode_flags(4) [OF assms(4)] streaming_mode [OF assms(4)]
  by (auto simp: good_def cinv_def transit_def others_def flying_def)

lemma passed:
  assumes "cinv t c" "0 < k" "k \<le> length (c_held c)"
  shows "qinv t (ids (take k (c_held c)) + others (c\<lparr>c_held := drop k (c_held c)\<rparr>)) (c_st c)" "take k (c_held c) \<noteq> []"
    "blks_ok (take k (c_held c))" "c_held c = take k (c_held c) @ drop k (c_held c)"
proof -
  have h: "ids (c_held c) = ids (take k (c_held c)) + ids (drop k (c_held c))" by (metis append_take_drop_id ids_simps(3))
  show "qinv t (ids (take k (c_held c)) + others (c\<lparr>c_held := drop k (c_held c)\<rparr>)) (c_st c)"
    using cinvD(1) [OF assms(1)] by (simp add: others_def h ac_simps)
  show "take k (c_held c) \<noteq> []" using assms by auto
  show "blks_ok (take k (c_held c))" using cinvD(2) [OF assms(1)] by (metis append_take_drop_id list_all_append)
qed simp

lemma no_flying [simp]: "c_fly c = None \<Longrightarrow> flying c = []"
  by (simp add: flying_def)

lemma streaming_kind: "streaming c \<Longrightarrow> \<not> isset Qmsg (c_st c)" "streaming c \<Longrightarrow> \<not> q_noblock (que (c_st c))"
  by (simp_all add: streaming_def)

section \<open>Each operation keeps it\<close>

lemma step_get:
  assumes "cinv t c" "qstep Get c = (d, i, out)"
  shows "good t (in_order Get c) c d i out"
proof -
  obtain s r where g: "qget (c_st c) = (s, r)" by fastforce
  note q = qget_ok [OF cinvD(1) [OF assms(1)] g] and m = mode_qget [OF g]
  show ?thesis
  proof (cases r)
    case None
    then have "d = c\<lparr>c_st := s\<rparr>" "i = []" "out = []" using assms(2) g by auto
    then show ?thesis using good_st [OF assms(1) _ m] q None by simp
  next
    case (Some b)
    then have "d = c\<lparr>c_st := s, c_held := b # c_held c\<rparr>" "i = []" "out = bdata b" using assms(2) g by auto
    then show ?thesis using good_give [OF assms(1) _ _ m, of b] q Some by simp
  qed
qed

lemma step_remove:
  assumes "cinv t c" "qstep Remove c = (d, i, out)"
  shows "good t (in_order Remove c) c d i out"
proof -
  obtain s r where g: "qremove (c_st c) = (s, r)" by fastforce
  note m = mode_qremove [OF g]
  show ?thesis
  proof (cases r)
    case None
    then have "d = c\<lparr>c_st := s\<rparr>" "i = []" "out = []" "s = c_st c" using assms(2) g qremove_none by auto
    then show ?thesis using good_st [OF assms(1) _ m] cinvD(1) [OF assms(1)] by simp
  next
    case (Some b)
    then have "d = c\<lparr>c_st := s, c_held := b # c_held c\<rparr>" "i = []" "out = bdata b" using assms(2) g by auto
    then show ?thesis using good_give [OF assms(1) _ _ m, of b] qremove_ok [OF cinvD(1) [OF assms(1)] g [unfolded Some]] by simp
  qed
qed

lemma step_discard:
  assumes "cinv t c" "qstep (Discard n) c = (d, i, out)"
  shows "good t (in_order (Discard n) c) c d i out"
proof -
  obtain s k where g: "qdiscard (c_st c) n = (s, k)" by fastforce
  from qdiscard_ok [OF cinvD(1) [OF assms(1)] g] obtain e where
    q: "qinv t (others c) s" "content (c_st c) = e @ content s" "length e = k" by blast
  have "d = c\<lparr>c_st := s\<rparr>" "i = []" "out = e" using assms(2) g q by auto
  then show ?thesis using good_st [OF assms(1) q(1) mode_qdiscard [OF g]] q(2) by simp
qed

lemma step_consume:
  assumes "cinv t c" "qstep (Consume n) c = (d, i, out)"
  shows "good t (in_order (Consume n) c) c d i out"
proof -
  obtain s r p where g: "qconsume (c_st c) n = (s, r, p)" using prod_cases3 by blast
  note q = qconsume_ok [OF cinvD(1) [OF assms(1)] g] and m = mode_qconsume [OF g]
  have d: "d = c\<lparr>c_st := s, c_lost := (if r = -1 then map b_id (q_bfirst (que (c_st c))) else []) @ c_lost c\<rparr>" "i = []" "out = p"
    using assms(2) g by auto
  have "others d = (if r = -1 then ids (q_bfirst (que (c_st c))) else {#}) + others c"
    by (simp add: d(1) others_def ids_def ac_simps flying_def)
  then have "cinv t d" using q assms(1) mode_flags(4) [OF m] by (auto simp: cinv_def d(1) split: if_splits)
  moreover have "streaming d" if "streaming c" using streaming_mode [OF m] that d(1) by simp
  moreover have "content (c_st c) = p @ content s" if "streaming c"
    using q streaming_kind(1) [OF that] by (auto split: if_splits)
  moreover have "transit d = content s" "transit c = content (c_st c)" if "c_fly c = None"
    using that by (simp_all add: d(1) transit_def flying_def)
  ultimately show ?thesis using d by (simp add: good_def)
qed

lemma step_bread:
  assumes "cinv t c" "allowed (Bread n) c" "qstep (Bread n) c = (d, i, out)"
  shows "good t (in_order (Bread n) c) c d i out"
proof -
  obtain s r where g: "qbread (c_st c) n = (s, r)" by fastforce
  note q = qbread_ok [OF cinvD(1) [OF assms(1)] g] and m = mode_qbread [OF g]
  have f: "flying c = []" using assms(2) by simp
  show ?thesis
  proof (cases "\<exists>b. r = Done (Some b)")
    case True
    then obtain b where b: "r = Done (Some b)" by blast
    then have "d = c\<lparr>c_st := s, c_held := b # c_held c\<rparr>" "i = []" "out = bdata b" using assms(3) g by auto
    moreover have "content (c_st c) = bdata b @ content s" if "streaming c" using q b streaming_kind(1) [OF that] by auto
    ultimately show ?thesis using good_give [OF assms(1) _ _ m, of b] q b f by simp
  next
    case False
    then have "d = c\<lparr>c_st := s\<rparr>" "i = []" "out = []" using assms(3) g by (auto split: qout.splits option.splits)
    moreover have "qinv t (others c) s" "content (c_st c) = []" "content s = []"
      using q False by (auto split: qout.splits option.splits)
    ultimately show ?thesis using good_st [OF assms(1) _ m] by simp
  qed
qed

lemma step_take:
  assumes "cinv t c" "allowed (ReadTake n) c" "qstep (ReadTake n) c = (d, i, out)"
  shows "good t (in_order (ReadTake n) c) c d i out"
proof -
  obtain s r where g: "qread_take (c_st c) n = (s, r)" by fastforce
  note q = qread_take_ok [OF cinvD(1) [OF assms(1)] g]
  then have m: "mode s = mode (c_st c)" by blast
  have f: "c_fly c = None" using assms(2) by simp
  show ?thesis
  proof (cases "\<exists>bs k. r = Done (Some (bs, k))")
    case True
    then obtain bs k where b: "r = Done (Some (bs, k))" by blast
    then have d: "d = c\<lparr>c_st := s, c_fly := Some (bs, k, n)\<rparr>" "i = []" "out = []" using assms(3) g by auto
    have fd: "flying d = bs" "c_st d = s" by (simp_all add: d(1) flying_def)
    have o: "others d = ids bs + others c" using f by (simp add: d(1) others_def flying_def)
    then have "cinv t d" using q b assms(1) mode_flags(4) [OF m] by (auto simp: cinv_def d(1))
    then show ?thesis using q b d(2,3) f fd streaming_mode [OF m fd(2)] by (simp add: good_def transit_def)
  next
    case False
    then have "d = c\<lparr>c_st := s\<rparr>" "i = []" "out = []" using assms(3) g by (auto split: qout.splits option.splits)
    moreover have "qinv t (others c) s" "content (c_st c) = []" "content s = []"
      using q False by (auto simp: content_def split: qout.splits option.splits)
    ultimately show ?thesis using good_st [OF assms(1) _ m] by simp
  qed
qed

lemma step_done:
  assumes "cinv t c" "qstep ReadDone c = (d, i, out)"
  shows "good t (in_order ReadDone c) c d i out"
proof (cases "c_fly c")
  case None
  then show ?thesis using assms by (auto simp: good_def)
next
  case (Some x)
  obtain bs k n where x: "c_fly c = Some (bs, k, n)" using Some by (cases x) auto
  note fl = cinvD(4) [OF assms(1) x]
  obtain s j p where g: "qread_done (c_st c) bs k n = (s, j, p)" using prod_cases3 by blast
  have d: "d = c\<lparr>c_st := s, c_fly := None\<rparr>" "i = []" "out = p" using assms(2) x g by auto
  have o: "others c = ids bs + others d" by (simp add: d(1) others_def flying_def x ac_simps)
  have qi: "qinv t (ids bs + others d) (c_st c)" using cinvD(1) [OF assms(1)] by (simp add: o)
  have bs: "blks_ok bs" "length bs = 1 \<or> blocklen bs \<le> n" "k = blocklen bs" using fl by auto
  note q = qread_done_ok [OF qi bs(1,2) g [unfolded bs(3)]]
  have "cinv t d" using assms(1) q(1,4) mode_flags(4) [OF q(4)] by (simp add: cinv_def d(1) split: option.splits)
  moreover have "streaming d" if "streaming c" using streaming_mode [OF q(4)] that d(1) by simp
  moreover have "transit c = p @ transit d" if "streaming c"
  proof -
    have "transit c = bdatas bs @ content (c_st c)" by (simp add: transit_def flying_def x)
    moreover have "transit d = content s" by (simp add: transit_def flying_def d(1))
    ultimately show ?thesis using q(2,5) streaming_kind(1) [OF that] by (simp add: take_drop_app)
  qed
  ultimately show ?thesis using d by (simp add: good_def)
qed

lemma step_pass:
  assumes "cinv t c" "allowed (Pass k) c" "qstep (Pass k) c = (d, i, out)"
  shows "good t (in_order (Pass k) c) c d i out"
proof -
  let ?bs = "take k (c_held c)"
  obtain s r where g: "qpass (c_st c) ?bs = (s, r)" by fastforce
  have k: "0 < k" "k \<le> length (c_held c)" using assms(2) by simp_all
  note p = passed [OF assms(1) k]
  from qpass_ok [OF p(1,2,3) g] assms(3) g show ?thesis
    using good_pass [OF assms(1) p(4) _ mode_qpass(1) [OF g]] by auto
qed

lemma step_passnolim:
  assumes "cinv t c" "allowed (PassNoLim k) c" "qstep (PassNoLim k) c = (d, i, out)"
  shows "good t (in_order (PassNoLim k) c) c d i out"
proof -
  let ?bs = "take k (c_held c)"
  obtain s r where g: "qpassnolim (c_st c) ?bs = (s, r)" by fastforce
  have k: "0 < k" "k \<le> length (c_held c)" using assms(2) by simp_all
  note p = passed [OF assms(1) k]
  from qpassnolim_ok [OF p(1,2,3) g] assms(3) g show ?thesis
    using good_pass [OF assms(1) p(4) _ mode_qpass(2) [OF g]] by auto
qed

lemma step_addlist:
  assumes "cinv t c" "allowed (AddList k) c" "qstep (AddList k) c = (d, i, out)"
  shows "good t (in_order (AddList k) c) c d i out"
proof -
  have k: "0 < k" "k \<le> length (c_held c)" using assms(2) by simp_all
  note p = passed [OF assms(1) k]
  from qaddlist_ok [OF p(1,2,3)] assms(3) show ?thesis
    using good_pass [OF assms(1) p(4)] by (auto simp: Let_def)
qed

lemma step_produce:
  assumes "cinv t c" "qstep (Produce p) c = (d, i, out)"
  shows "good t (in_order (Produce p) c) c d i out"
proof -
  obtain s r where g: "qproduce (c_st c) p = (s, r)" by fastforce
  from qproduce_ok [OF cinvD(1) [OF assms(1)] g] assms(2) g show ?thesis
    using good_st [OF assms(1) _ mode_qproduce [OF g]] by auto
qed

lemma step_copy:
  assumes "cinv t c" "qstep (Copy n off) c = (d, i, out)"
  shows "good t (in_order (Copy n off) c) c d i out"
proof -
  obtain s b where g: "qcopy (c_st c) n off = (s, b)" by fastforce
  from qcopy_ok [OF cinvD(1) [OF assms(1)] g] assms(2) g show ?thesis
    using good_give [OF assms(1) _ _ mode_qcopy [OF g], of b] by (auto simp: content_def)
qed

lemma good_write:
  assumes "cinv t c" "qinv t (others c) s" "mode s = mode (c_st c)" "\<forall>k. r = Wasleep k \<longrightarrow> k \<le> length p"
    "streaming c \<Longrightarrow> content s = content (c_st c) @ i"
  shows "good t x c (c\<lparr>c_st := s, c_wr := writing p r\<rparr>) i []"
  using assms mode_flags(4) [OF assms(3)] streaming_mode [OF assms(3)]
  by (auto simp: good_def cinv_def transit_def writing_def split: wout.splits)

lemma step_write:
  assumes "cinv t c" "qstep (Write p) c = (d, i, out)"
  shows "good t (in_order (Write p) c) c d i out"
proof -
  obtain s r where g: "qwrite (c_st c) p = (s, r)" by fastforce
  note q = qwrite_ok [OF cinvD(1,3) [OF assms(1)] g]
  have d: "d = c\<lparr>c_st := s, c_wr := writing p r\<rparr>" "i = written p 0 r" "out = []" using assms(2) g by auto
  have "content s = content (c_st c) @ i" if "streaming c"
    using q streaming_kind [OF that] d(2) by (auto simp: written_def split: wout.splits)
  then show ?thesis unfolding d(1,3) using good_write [OF assms(1)] q by blast
qed

lemma step_resume:
  assumes "cinv t c" "qstep Resume c = (d, i, out)"
  shows "good t (in_order Resume c) c d i out"
proof (cases "c_wr c")
  case None
  then show ?thesis using assms by (auto simp: good_def)
next
  case (Some x)
  obtain p k where x: "c_wr c = Some (p, k)" using Some by (cases x) auto
  obtain s r where g: "qwrite_resume (c_st c) p k = (s, r)" by fastforce
  note q = qwrite_resume_ok [OF cinvD(1,3) [OF assms(1)] cinvD(5) [OF assms(1) x] g]
  have d: "d = c\<lparr>c_st := s, c_wr := writing p r\<rparr>" "i = written p k r" "out = []" using assms(2) g x by auto
  have "content s = content (c_st c) @ i" if "streaming c"
    using q streaming_kind [OF that] d(2) by (auto simp: written_def split: wout.splits)
  then show ?thesis unfolding d(1,3) using good_write [OF assms(1)] q by blast
qed

lemma step_bwrite:
  assumes "cinv t c" "allowed Bwrite c" "qstep Bwrite c = (d, i, out)"
  shows "good t (in_order Bwrite c) c d i out"
proof -
  obtain b bs where h: "c_held c = b # bs" using assms(2) by (cases "c_held c") auto
  obtain s r where g: "qbwrite (c_st c) b = (s, r)" by fastforce
  let ?e = "c\<lparr>c_held := bs\<rparr>"
  have o: "others c = ids [b] + others ?e" by (simp add: others_def h flying_def)
  have bok: "blk_ok b" using cinvD(2) [OF assms(1)] h by simp
  note q = qbwrite_ok [OF cinvD(1) [OF assms(1), unfolded o] bok cinvD(3) [OF assms(1)] g]
  have d: "d = c\<lparr>c_st := s, c_held := bs, c_wr := (if r = Asleep then Some ([], 0) else None)\<rparr>"
    "i = (case r of Raised e \<Rightarrow> [] | _ \<Rightarrow> bdata b)" "out = []" using assms(3) g h by auto
  have m: "mode s = mode (c_st c)" using q by blast
  have "others d = others ?e" by (simp add: d(1) others_def flying_def)
  then have "cinv t d" using q assms(1) h mode_flags(4) [OF m] by (simp add: cinv_def d(1))
  moreover have "streaming d" if "streaming c" using streaming_mode [OF m] that d(1) by simp
  moreover have "transit c @ i = transit d" if "streaming c"
  proof -
    have "content s = content (c_st c) @ i"
      using q streaming_kind(2) [OF that] d(2) by (auto split: qout.splits)
    then show ?thesis by (simp add: d(1) transit_def flying_def)
  qed
  ultimately show ?thesis using d(3) by (simp add: good_def)
qed

lemma step_iwrite:
  assumes "cinv t c" "qstep (Iwrite p) c = (d, i, out)"
  shows "good t (in_order (Iwrite p) c) c d i out"
proof -
  obtain s k where g: "qiwrite (c_st c) p = (s, k)" by fastforce
  from qiwrite_ok [OF cinvD(1,3) [OF assms(1)] g] assms(2) g show ?thesis
    using good_st [OF assms(1)] by auto
qed

lemma step_putback:
  assumes "cinv t c" "allowed PutBack c" "qstep PutBack c = (d, i, out)"
  shows "good t (in_order PutBack c) c d i out"
proof -
  obtain b bs where h: "c_held c = b # bs" using assms(2) by (cases "c_held c") auto
  let ?e = "c\<lparr>c_held := bs\<rparr>"
  have o: "others c = add_mset (b_id b) (others ?e)" by (simp add: others_def h flying_def)
  have "qinv t (others ?e) (qputback (c_st c) b)"
    using qputback_ok(1) [OF cinvD(1) [OF assms(1), unfolded o]] cinvD(2) [OF assms(1)] h by simp
  moreover have "d = c\<lparr>c_st := qputback (c_st c) b, c_held := bs\<rparr>" "out = []" using assms(3) h by auto
  ultimately show ?thesis using good_pass [OF assms(1), of "[b]" bs "qputback (c_st c) b" False i] h by (simp add: good_def)
qed

lemma step_pullup:
  assumes "cinv False c" "allowed (PullUp n) c" "qstep (PullUp n) c = (d, i, out)"
  shows "good False (in_order (PullUp n) c) c d i out"
proof -
  note q = qinvD [OF cinvD(1) [OF assms(1)]]
  have ne: "q_bfirst (que (c_st c)) \<noteq> []" and "int n \<le> qlen (c_st c)" using assms(2) by simp_all
  then have "n \<le> blocklen (q_bfirst (que (c_st c)))" using q(3) by (simp add: qlen_def)
  from pullupqueue_ok [OF cinvD(1) [OF assms(1)] this ne] assms(3) show ?thesis
    using good_st [OF assms(1)] by auto
qed

lemma good_setting:
  assumes "cinv t c" "qinv t (others c) s" "q_bypass (que s) = q_bypass (que (c_st c))"
    "streaming c \<Longrightarrow> x \<Longrightarrow> \<not> isset Qmsg s \<and> \<not> q_noblock (que s) \<and> bdatas (flying c) @ content (c_st c) = out @ bdatas (flying c) @ content s"
  shows "good t x c (c\<lparr>c_st := s\<rparr>) [] out"
  using assms by (auto simp: good_def cinv_def transit_def streaming_def)

lemma step_setting:
  assumes "cinv t c" "op \<in> {Close, Flush, Reopen, NoBlock y, SetLimit l, Hangup msg}" "qstep op c = (d, i, out)"
  shows "good t (in_order op c) c d i out"
proof -
  note q = cinvD(1) [OF assms(1)]
  have nb: "q_noblock (que (qclose s)) = False" "q_noblock (que (qhangup s e)) = q_noblock (que s)"
    "q_noblock (que (qreopen s)) = q_noblock (que s)" "q_noblock (que (qflush s)) = q_noblock (que s)"
    "q_noblock (que (qsetlimit s l)) = q_noblock (que s)" "q_noblock (que (qnoblock s z)) = z" for s e z
    by (simp_all add: qclose_def qhangup_def qreopen_def qflush_def qsetlimit_def qnoblock_def Let_def)
  let ?s = "c_st d"
  have "d = c\<lparr>c_st := ?s\<rparr>" "i = []" "qinv t (others c) ?s" "q_bypass (que ?s) = q_bypass (que (c_st c))"
    "streaming c \<Longrightarrow> in_order op c \<Longrightarrow>
         \<not> isset Qmsg ?s \<and> \<not> q_noblock (que ?s) \<and> bdatas (flying c) @ content (c_st c) = out @ bdatas (flying c) @ content ?s"
    using assms(2,3) qclose_ok [OF q] qflush_ok [OF q] q by (auto simp: streaming_def mode_kinds nb)
  then show ?thesis using good_setting [OF assms(1), of ?s "in_order op c" out] by simp
qed

lemmas steps =
  step_get step_discard step_consume step_produce step_copy step_done step_write step_resume step_iwrite step_remove
lemmas guarded_steps = step_pass step_passnolim step_bread step_take step_bwrite step_putback step_addlist

lemmas setting_steps =
  step_setting [where op = Close] step_setting [where op = Flush] step_setting [where op = Reopen]
  step_setting [where op = "Hangup msg" and msg = msg and y = False and l = 0] for msg
lemmas value_steps =
  step_setting [where op = "SetLimit l" and l = l and y = False and msg = None] for l
lemmas flag_steps =
  step_setting [where op = "NoBlock y" and y = y and l = 0 and msg = None] for y

lemma qstep_good:
  assumes "cinv t c" "allowed op c" "qstep op c = (d, i, out)" "t \<Longrightarrow> \<forall>n. op \<noteq> PullUp n"
  shows "good t (in_order op c) c d i out"
  using assms
proof (cases op)
  case (PullUp n)
  then have "\<not> t" using assms(4) by auto
  then show ?thesis using step_pullup [of c n d i out] assms PullUp by simp
qed (simp_all only: steps guarded_steps setting_steps value_steps flag_steps insert_iff simp_thms)

text \<open>The invariants as contracts: with \<open>len\<close> exact when no operation pulls up, and the order of the bytes.\<close>

definition allowed_exact :: "qop \<Rightarrow> qcl \<Rightarrow> bool" where
  "allowed_exact op c \<longleftrightarrow> allowed op c \<and> (\<forall>n. op \<noteq> PullUp n)"

definition allowed_fifo :: "qop \<Rightarrow> qcl \<Rightarrow> bool" where
  "allowed_fifo op c \<longleftrightarrow> allowed op c \<and> in_order op c"

lemma cinv_marks [simp]: "cinv t (c\<lparr>c_rsleep := x, c_wsleep := y\<rparr>) = cinv t c"
  by (simp add: cinv_def)

lemma marks_frame [simp]:
  "streaming (c\<lparr>c_rsleep := x, c_wsleep := y\<rparr>) = streaming c" "transit (c\<lparr>c_rsleep := x, c_wsleep := y\<rparr>) = transit c"
  by (simp_all add: streaming_def transit_def)

lemma qdo_step: "qdo op c = (d, i, out) \<Longrightarrow> \<exists>e x y. qstep op c = (e, i, out) \<and> d = e\<lparr>c_rsleep := x, c_wsleep := y\<rparr>"
  by (auto simp: qdo_def Let_def split: prod.splits)

lemma qdo_good:
  assumes "cinv t c" "allowed op c" "qdo op c = (d, i, out)" "t \<Longrightarrow> \<forall>n. op \<noteq> PullUp n"
  shows "good t (in_order op c) c d i out"
  using qdo_step [OF assms(3)] qstep_good [OF assms(1,2) _ assms(4)] by (auto simp: good_def)

interpretation loose: keeps allowed qdo "cinv False"
  by unfold_locales (use qdo_good in \<open>auto simp: good_def\<close>)

interpretation exact: keeps allowed_exact qdo "cinv True"
  by unfold_locales (use qdo_good in \<open>auto simp: good_def allowed_exact_def\<close>)

interpretation bytes_in_order: fifo allowed_fifo qdo "\<lambda>c. cinv False c \<and> streaming c" transit
  by unfold_locales (use qdo_good in \<open>auto simp: good_def allowed_fifo_def\<close>)

end
