(* ===== verification/QioSleep.thy ===== *)
theory QioSleep
  imports QioRuns
begin

text \<open>
  The sleep and wake-up protocol of the queues: a reader sleeps with \<open>Qstarve\<close> set, a writer with \<open>Qflow\<close>, and who changes what they wait for
  clears the flag and wakes them. For each operation, the rules below say that a reader that sleeps on an empty queue is either woken or still has nothing to read,
  and that a writer that sleeps on a full one is woken or the queue is still half full.
\<close>

definition dry :: "qst \<Rightarrow> bool" where
  "dry s \<longleftrightarrow> q_bfirst (que s) = [] \<and> isset Qstarve s \<and> \<not> isset Qclosed s"

definition crowded :: "qst \<Rightarrow> bool" where
  "crowded s \<longleftrightarrow> isset Qflow s \<and> half (q_limit (que s)) \<le> q_len (que s)"

text \<open>From \<open>s\<close> to \<open>s'\<close>: what holds if no wake-up was given.\<close>

definition unless :: "qev \<Rightarrow> (qst \<Rightarrow> bool) \<Rightarrow> qst \<Rightarrow> qst \<Rightarrow> bool" where
  "unless e P s s' \<longleftrightarrow> (\<exists>x. evs s' = evs s @ x \<and> (P s \<longrightarrow> e \<in> set x \<or> P s'))"

definition minds :: "qst \<Rightarrow> qst \<Rightarrow> bool" where
  "minds s s' \<longleftrightarrow> unless WakeR dry s s' \<and> unless WakeW (isset Qflow) s s' \<and> unless WakeW crowded s s'"

lemma unless_refl: "unless e P s s"
  by (simp add: unless_def)

lemma unless_trans: "unless e P s s' \<Longrightarrow> unless e P s' s'' \<Longrightarrow> unless e P s s''"
  by (fastforce simp: unless_def)

lemma minds_refl [simp]: "minds s s"
  by (simp add: minds_def unless_refl)

lemma minds_trans: "minds s s' \<Longrightarrow> minds s' s'' \<Longrightarrow> minds s s''"
  by (auto simp: minds_def intro: unless_trans)

text \<open>The three ways in which an operation minds the sleepers.\<close>

lemma mindsI:
  assumes "evs s' = evs s @ x" "dry s \<Longrightarrow> WakeR \<in> set x \<or> dry s'" "isset Qflow s \<Longrightarrow> WakeW \<in> set x \<or> isset Qflow s'"
    "crowded s \<Longrightarrow> WakeW \<in> set x \<or> crowded s'"
  shows "minds s s'"
  using assms by (auto simp: minds_def unless_def)

lemma minds_more:
  assumes "evs s' = evs s @ x" "dry s \<Longrightarrow> WakeR \<in> set x \<or> dry s'" "isset Qflow s \<Longrightarrow> isset Qflow s'" "q_len (que s) \<le> q_len (que s')"
    "q_limit (que s') = q_limit (que s)"
  shows "minds s s'"
  using assms by (intro mindsI [of s' s x]) (auto simp: crowded_def)

lemma limit_frame [simp]:
  "q_limit (que (setflag x s)) = q_limit (que s)" "q_limit (que (clrflag x s)) = q_limit (que s)" "q_limit (que (unflow l es s)) = q_limit (que s)"
  "q_limit (que (qappend bs s)) = q_limit (que s)" "q_limit (que (flow_if l s)) = q_limit (que s)"
  using mode_flags(6) [of "qappend bs s" s] by (simp_all add: flag_defs)

lemma evs_frame [simp]:
  "evs (setflag x s) = evs s" "evs (clrflag x s) = evs s" "evs (flow_if l s) = evs s" "evs (qappend bs s) = evs s"
  by (simp_all add: flag_defs qappend_def qlink_def Let_def addlens_def setblast_def qfault_def)

lemma qappend_frame [simp]:
  "isset x (qappend bs s) = isset x s" "q_len (que (qappend bs s)) = q_len (que s) + int (blockalloclen bs)"
  by (simp_all add: qappend_def qlink_def Let_def addlens_def setblast_def isset_def qfault_def)

lemma half_le: "0 \<le> l \<Longrightarrow> half l \<le> l"
  by (simp add: half_def)

lemma half_pos: "2 \<le> l \<Longrightarrow> 0 < half l"
  by (simp add: half_def)

text \<open>Taking: the length falls, and the queue ends with the test that restarts a writer.\<close>

lemma unflow_minds:
  assumes "half (q_limit (que s)) \<le> lim" "WakeW \<in> set es" "q_limit (que u) = q_limit (que s)"
    "evs u = evs s" "isset Qflow u = isset Qflow s" "dry s \<Longrightarrow> dry u"
  shows "minds s (unflow lim es u)"
proof (cases "isset Qflow u \<and> q_len (que u) < lim")
  case True
  then have "unflow lim es u = emit es (clrflag Qflow u)" by (simp add: unflow_def)
  then show ?thesis using assms by (intro mindsI [where x = es]) (auto simp: dry_def)
next
  case False
  then have "unflow lim es u = u" unfolding unflow_def by auto
  then show ?thesis using assms False by (intro mindsI [where x = "[]"]) (auto simp: crowded_def)
qed

lemma dry_taken: "q_bfirst (que s) = b # nxt \<Longrightarrow> \<not> dry s"
  by (simp add: dry_def)

lemma qget_minds: "qget s = (s', r) \<Longrightarrow> minds s s'"
proof (cases "q_bfirst (que s)")
  case Nil
  assume "qget s = (s', r)"
  then have "s' = setflag Qstarve s" using Nil by (simp add: qget_def)
  then show ?thesis by (intro minds_more [where x = "[]"]) (auto simp: dry_def)
next
  case (Cons b nxt)
  assume "qget s = (s', r)"
  then have "s' = unflow (half (q_limit (que s))) [WakeW] (addlens (- int (BALLOC b)) (- int (BLEN b)) (setbfirst nxt s))"
    using Cons by (simp add: qget_def Let_def)
  then show ?thesis using dry_taken [OF Cons] by (auto intro!: unflow_minds)
qed

lemma qdiscard_loop_frame:
  "qdiscard_loop s len k = (s', n) \<Longrightarrow> evs s' = evs s \<and> q_limit (que s') = q_limit (que s) \<and> (\<forall>x. isset x s' = isset x s) \<and>
    (q_bfirst (que s) = [] \<longrightarrow> q_bfirst (que s') = [])"
proof (induction s len k rule: qdiscard_loop.induct)
  case (1 s len k)
  then show ?case
    by (subst (asm) (2) qdiscard_loop.simps) (auto simp: Let_def split: if_splits list.splits)
qed

lemma qdiscard_minds:
  assumes "qdiscard s len = (s', n)" "0 \<le> q_limit (que s)"
  shows "minds s s'"
proof -
  obtain u where u: "qdiscard_loop s len 0 = (u, n)" "s' = unflow (q_limit (que u)) [WakeW] u"
    using assms(1) by (auto simp: qdiscard_def split: prod.splits)
  note f = qdiscard_loop_frame [OF u(1)]
  show ?thesis unfolding u(2) by (rule unflow_minds) (use f assms(2) half_le in \<open>auto simp: dry_def\<close>)
qed

text \<open>Adding: the length does not fall, and the reader is woken.\<close>

lemma feed_minds:
  assumes "evs u = evs s" "isset Qstarve s \<Longrightarrow> isset Qstarve u" "isset Qflow s \<Longrightarrow> isset Qflow u" "q_len (que s) \<le> q_len (que u)"
    "q_limit (que u) = q_limit (que s)"
  shows "minds s (feed [WakeR] u)"
proof (cases "isset Qstarve u")
  case True
  then have "feed [WakeR] u = emit [WakeR] (clrflag Qstarve u)" by (simp add: feed_def)
  then show ?thesis using assms by (intro minds_more [where x = "[WakeR]"]) auto
next
  case False
  then have "feed [WakeR] u = u" by (simp add: feed_def)
  then show ?thesis using assms False by (intro minds_more [where x = "[]"]) (auto simp: dry_def)
qed

lemma flow_if_flags [simp]: "isset Qstarve (flow_if l s) = isset Qstarve s" "isset Qflow s \<Longrightarrow> isset Qflow (flow_if l s)"
  by (simp_all add: flow_if_def)

lemma qpass_tail_minds: "minds s (qpass_tail s bs)"
  unfolding qpass_tail_def Let_def by (rule feed_minds) simp_all

lemma freeall_minds [simp]: "minds s (freeall bs s)" "minds s (free1 b s)" "minds s (s\<lparr>mem := m\<rparr>)"
proof -
  have same: "minds s u" if "que u = que s" "evs u = evs s" for u
    using that by (intro minds_more [where x = "[]"]) (auto simp: dry_def isset_def)
  show "minds s (freeall bs s)" "minds s (free1 b s)" "minds s (s\<lparr>mem := m\<rparr>)" by (simp_all add: same)
qed

lemma qpass_minds: "qpass s bs = (s', r) \<Longrightarrow> bs \<noteq> [] \<Longrightarrow> minds s s'" "qpassnolim s bs = (s', r) \<Longrightarrow> bs \<noteq> [] \<Longrightarrow> minds s s'"
  using qpass_tail_minds by (auto simp: qpass_def qpassnolim_def split: if_splits list.splits)

lemma setflow_minds [simp]: "minds s (setflag Qflow s)"
  by (intro minds_more [where x = "[]"]) (auto simp: dry_def)

lemma qproduce_minds:
  assumes "qproduce s p = (s', r)"
  shows "minds s s'"
proof (cases "isset Qclosed s \<or> q_limit (que s) \<le> q_len (que s)")
  case True
  then show ?thesis using assms by (auto simp: qproduce_def split: if_splits)
next
  case False
  then have f: "\<not> isset Qclosed s" "\<not> q_limit (que s) \<le> q_len (que s)" by auto
  show ?thesis
  proof (cases rule: iallocb_cases [of "mem s" "length p"])
    case 1
    then show ?thesis using assms f by (auto simp: qproduce_def)
  next
    case (2 m b)
    obtain m' b' where b': "bstore m b p = (m', b')" by fastforce
    let ?a = "qappend [b'] (s\<lparr>mem := m'\<rparr>)"
    have s': "s' = (let u = flow_if (q_limit (que (clrflag Qstarve ?a))) (clrflag Qstarve ?a) in if isset Qstarve ?a then emit [WakeR] u else u)"
      using assms f 2 b' by (auto simp: qproduce_def Let_def)
    show ?thesis
    proof (cases "isset Qstarve s")
      case True
      then show ?thesis unfolding s' Let_def by (intro minds_more [where x = "[WakeR]"]) (auto simp: flow_if_def)
    next
      case False
      then show ?thesis unfolding s' Let_def by (intro minds_more [where x = "[]"]) (auto simp: dry_def flow_if_def)
    qed
  qed
qed

lemma qcopy_minds: "qcopy s n off = (s', b) \<Longrightarrow> minds s s'"
  by (auto simp: qcopy_def split: prod.splits option.splits)

lemma queued_minds:
  assumes "evs u = evs s" "isset Qstarve u = isset Qstarve s" "isset Qflow u = isset Qflow s" "q_len (que s) \<le> q_len (que u)"
    "q_limit (que u) = q_limit (que s)"
  shows "minds s (queued u)"
proof -
  have k: "\<exists>x. evs (queued u) = evs u @ x \<and> (isset Qstarve u \<longrightarrow> WakeR \<in> set x)"
    by (auto simp: queued_def Let_def)
  then obtain x where x: "evs (queued u) = evs u @ x" "isset Qstarve u \<longrightarrow> WakeR \<in> set x" by blast
  have f: "isset Qflow (queued u) = isset Qflow u" "q_len (que (queued u)) = q_len (que u)" "q_limit (que (queued u)) = q_limit (que u)"
    by (simp_all add: queued_def Let_def)
  show ?thesis using assms x f by (intro minds_more [where x = x]) (auto simp: dry_def)
qed

lemma qbwrite_flow_minds: "minds s (fst (qbwrite_flow s))"
  by (simp add: qbwrite_flow_def)

lemma qbwrite_minds:
  assumes "\<not> q_bypass (que s)" "qbwrite s b = (s', r)"
  shows "minds s s' \<and> (r = Asleep \<longrightarrow> isset Qflow s' \<and> q_limit (que s') \<le> q_len (que s'))"
proof -
  have q: "minds s (queued (qappend [b] s))" by (rule queued_minds) simp_all
  then have "minds s (fst (qbwrite_flow (queued (qappend [b] s))))" using qbwrite_flow_minds minds_trans by blast
  moreover have "isset Qflow v \<and> q_limit (que v) \<le> q_len (que v)" if "qbwrite_flow u = (v, False)" for u v
    using that by (auto simp: qbwrite_flow_def qnotfull_def split: if_splits)
  ultimately show ?thesis using assms by (fastforce simp: qbwrite_def Let_def split: if_splits prod.splits)
qed

lemma bypass_qbwrite: "qbwrite s b = (s', r) \<Longrightarrow> q_bypass (que s') = q_bypass (que s)"
  using mode_flags(4) [of "qappend [b] s" s]
  by (auto simp: qbwrite_def qbwrite_flow_def queued_def Let_def setflag_def clrflag_def split: if_splits prod.splits)

lemma qwrite_loop_minds:
  assumes "\<not> q_bypass (que s)" "qwrite_loop s p k = (s', r)"
  shows "minds s s' \<and> ((\<exists>j. r = Wasleep j) \<longrightarrow> isset Qflow s' \<and> q_limit (que s') \<le> q_len (que s'))"
  using assms
proof (induction s p k arbitrary: s' r rule: qwrite_loop.induct)
  case (1 s p k)
  let ?n = "min (length p - k) Maxatomic"
  obtain m0 b0 where a: "allocb (mem s) ?n = (m0, b0)" by fastforce
  obtain m b where b: "bstore m0 b0 (take ?n (drop k p)) = (m, b)" by fastforce
  obtain u x where w: "qbwrite (s\<lparr>mem := m\<rparr>) b = (u, x)" by fastforce
  have "minds (s\<lparr>mem := m\<rparr>) u \<and> (x = Asleep \<longrightarrow> isset Qflow u \<and> q_limit (que u) \<le> q_len (que u))"
    by (rule qbwrite_minds [OF _ w]) (use "1.prems"(1) in simp)
  then have u: "minds s u" "x = Asleep \<Longrightarrow> isset Qflow u \<and> q_limit (que u) \<le> q_len (que u)"
    using minds_trans [OF freeall_minds(3)] by blast+
  have ub: "\<not> q_bypass (que u)" using bypass_qbwrite [OF w] "1.prems"(1) by simp
  note run = "1.prems"(2) [unfolded qwrite_loop.simps [of s] Let_def a b prod.case w]
  show ?case
  proof (cases x)
    case (Done j)
    show ?thesis
    proof (cases "k + ?n < length p \<and> \<not> isset Qmsg u")
      case True
      then have r: "qwrite_loop u p (k + ?n) = (s', r)" using run Done by simp
      have "minds u s' \<and> ((\<exists>j. r = Wasleep j) \<longrightarrow> isset Qflow s' \<and> q_limit (que s') \<le> q_len (que s'))"
        by (rule "1.IH" [OF refl a [symmetric] refl b [symmetric] refl w [symmetric] Done True ub r])
      then show ?thesis using u(1) minds_trans by blast
    next
      case False
      have "(u, Wrote (length p)) = (s', r)" using run by (simp only: Done qout.case False if_False)
      then show ?thesis using u(1) by auto
    qed
  qed (use run u in auto)
qed

lemma qwrite_resume_minds:
  assumes "\<not> q_bypass (que s)" "qwrite_resume s p k = (s', r)"
  shows "minds s s' \<and> ((\<exists>j. r = Wasleep j) \<longrightarrow> isset Qflow s' \<and> q_limit (que s') \<le> q_len (que s'))"
proof (cases "q_noblock (que s) \<or> qnotfull s")
  case True
  then have "qbwrite_flow s = (s, True)" by (simp add: qbwrite_flow_def)
  then show ?thesis using assms(2) qwrite_loop_minds [OF assms(1), of p k s' r] by (auto simp: qwrite_resume_def split: if_splits)
next
  case False
  then have "qbwrite_flow s = (setflag Qflow s, False)" by (simp add: qbwrite_flow_def)
  then have "s' = setflag Qflow s" "r = Wasleep k" using assms(2) by (simp_all add: qwrite_resume_def)
  then show ?thesis using False by (simp add: qnotfull_def)
qed

lemma qiwrite_loop_minds:
  assumes "\<not> q_bypass (que s)" "qiwrite_loop s p k d = (s', r)"
  shows "minds s s'"
  using assms
proof (induction s p k d arbitrary: s' r rule: qiwrite_loop.induct)
  case (1 s p k d)
  let ?n = "min (length p - k) Maxatomic"
  show ?case
  proof (cases rule: iallocb_cases [of "mem s" ?n])
    case 1
    then show ?thesis using "1.prems" by (simp add: qiwrite_loop.simps [of s])
  next
    case (2 m0 b0)
    obtain m b where b: "bstore m0 b0 (take ?n (drop k p)) = (m, b)" by fastforce
    let ?a = "qappend [b] (s\<lparr>mem := m\<rparr>)"
    let ?d = "d \<or> isset Qstarve ?a"
    define u where "u = (if ?d then emit (if q_kick (que (clrflag Qstarve ?a)) then [Kick, WakeR] else [WakeR]) (clrflag Qstarve ?a)
      else clrflag Qstarve ?a)"
    have uf: "isset Qflow u = isset Qflow s" "q_len (que s) \<le> q_len (que u)" "q_limit (que u) = q_limit (que s)"
      by (simp_all add: u_def)
    have u: "minds s u"
    proof (cases ?d)
      case True
      then have "\<exists>x. evs u = evs s @ x \<and> WakeR \<in> set x" by (simp add: u_def)
      then obtain x where "evs u = evs s @ x" "WakeR \<in> set x" by blast
      then show ?thesis using uf by (intro minds_more [where x = x]) auto
    next
      case False
      then have "evs u = evs s" "\<not> isset Qstarve s" by (simp_all add: u_def)
      then show ?thesis using uf by (intro minds_more [where x = "[]"]) (auto simp: dry_def)
    qed
    have ub: "\<not> q_bypass (que u)" using "1.prems"(1) mode_flags(4) [of "qappend [b] (s\<lparr>mem := m\<rparr>)" s] by (auto simp: u_def clrflag_def)
    have nb: "q_bypass (que (s\<lparr>mem := m\<rparr>)) = False" using "1.prems"(1) by simp
    have run: "(if k + ?n < length p \<and> \<not> isset Qmsg u then qiwrite_loop u p (k + ?n) ?d else (u, k + ?n)) = (s', r)"
      using "1.prems"(2) by (simp only: qiwrite_loop.simps [of s] 2 Let_def prod.case option.case b u_def nb if_False)
    show ?thesis
    proof (cases "k + ?n < length p \<and> \<not> isset Qmsg u")
      case True
      then have r: "qiwrite_loop u p (k + ?n) ?d = (s', r)" using run by (simp only: True simp_thms if_True)
      have "minds u s'"
        by (rule "1.IH" [OF refl 2(1) [symmetric] refl b [symmetric] refl refl _ _ True ub r])
          (use True "1.prems"(1) in \<open>auto simp: u_def Let_def\<close>)
      then show ?thesis using u minds_trans by blast
    next
      case False
      have "(u, k + ?n) = (s', r)" using run by (simp only: False if_False)
      then show ?thesis using u by auto
    qed
  qed
qed

text \<open>Closing and the settings.\<close>

lemma closing_minds: "minds s (qclose s)" "minds s (qhangup s msg)"
  by (intro mindsI [where x = "[WakeR, WakeW]"]; simp add: qclose_def qhangup_def Let_def)+

lemma qflush_minds: "minds s (qflush s)"
  by (intro mindsI [where x = "[WakeW]"]) (simp_all add: qflush_def Let_def dry_def isset_def)

lemma qnoblock_minds: "minds s (qnoblock s x)"
  by (intro minds_more [where x = "[]"]) (simp_all add: qnoblock_def dry_def isset_def)

lemma qreopen_minds: "q_inilim (que s) = q_limit (que s) \<Longrightarrow> minds s (qreopen s)"
  by (intro minds_more [where x = "[]"]) (simp_all add: qreopen_def dry_def isset_def)

text \<open>Reading.\<close>

lemma qwait_minds:
  assumes "qwait s = (s', w)"
  shows "evs s' = evs s \<and> isset Qflow s' = isset Qflow s \<and> q_limit (que s') = q_limit (que s) \<and> q_len (que s') = q_len (que s) \<and>
    (dry s \<longrightarrow> dry s') \<and> (w = Sleeps \<longrightarrow> dry s') \<and> (w = Have \<longrightarrow> s' = s)"
  using assms by (auto simp: qwait_def Let_def dry_def isset_def setflag_def split: if_splits)

lemma qremove_frame: "qremove s = (s', r) \<Longrightarrow> evs s' = evs s \<and> isset x s' = isset x s \<and> q_limit (que s') = q_limit (que s)"
  by (auto simp: qremove_def split: list.splits)

lemma dry_none: "dry s \<Longrightarrow> qremove s = (s, None)"
  by (simp add: dry_def qremove_none)

lemma qread_take_minds:
  assumes "qread_take s n = (s', r)" "\<not> isset Qcoalesce s"
  shows "unless WakeR dry s s' \<and> unless WakeW (isset Qflow) s s' \<and> ((\<forall>x. r \<noteq> Done (Some x)) \<longrightarrow> minds s s') \<and> (r = Asleep \<longrightarrow> dry s')"
proof -
  obtain u w where w: "qwait s = (u, w)" by fastforce
  note uw = qwait_minds [OF w]
  then have m: "minds s u" by (intro minds_more [where x = "[]"]) auto
  show ?thesis
  proof (cases "w = Have")
    case False
    then have "s' = u" "r = Asleep \<Longrightarrow> w = Sleeps" using assms(1) w by (auto simp: qread_take.simps [of s] split: qwaited.splits)
    then show ?thesis using m uw by (auto simp: minds_def)
  next
    case True
    then have "q_bfirst (que s) \<noteq> []" using w by (auto simp: qwait_def Let_def split: if_splits)
    then obtain b v where v: "qremove s = (v, Some b)" by (cases "q_bfirst (que s)") (auto simp: qremove_def)
    have "s' = v" "r = Done (Some ([b], BLEN b))" using assms w True uw v by (auto simp: qread_take.simps [of s])
    moreover have "\<not> dry s" using dry_none v by auto
    ultimately show ?thesis using qremove_frame [OF v] by (simp add: unless_def)
  qed
qed

lemma wakeup_minds:
  assumes "q_limit (que u) = q_limit (que s)" "evs u = evs s" "isset Qflow u = isset Qflow s" "\<not> dry s"
  shows "minds s (qwakeup_unlock u)"
  unfolding qwakeup_unlock_def by (rule unflow_minds) (use assms in auto)

lemma qputback_frame: "isset x (qputback s b) = isset x s" "q_limit (que (qputback s b)) = q_limit (que s)"
  by (simp_all add: qputback_def Let_def addlens_def setbfirst_def setblast_def isset_def)

lemma qbread_minds:
  assumes "qbread s n = (s', r)"
  shows "minds s s' \<and> (r = Asleep \<longrightarrow> dry s')"
proof -
  obtain u w where w: "qwait s = (u, w)" by fastforce
  note uw = qwait_minds [OF w]
  then have m: "minds s u" by (intro minds_more [where x = "[]"]) auto
  show ?thesis
  proof (cases "w = Have")
    case False
    then have "s' = u" "r = Asleep \<Longrightarrow> w = Sleeps" using assms w by (auto simp: qbread_def split: qwaited.splits)
    then show ?thesis using m uw by auto
  next
    case True
    then have "q_bfirst (que s) \<noteq> []" using w by (auto simp: qwait_def Let_def split: if_splits)
    then obtain b v where v: "qremove s = (v, Some b)" by (cases "q_bfirst (que s)") (auto simp: qremove_def)
    obtain m' c where "(let (m, b') = allocb (mem v) (BLEN b - n) in bstore m b' (drop n (bdata b))) = (m', c)" by fastforce
    then obtain x where x: "s' = qwakeup_unlock x" "x = v \<or> x = qputback (v\<lparr>mem := m'\<rparr>) c" "\<exists>y. r = Done y"
      using assms w True uw v by (auto simp: qbread_def Let_def split: prod.splits if_splits)
    have "minds s (qwakeup_unlock x)"
      by (rule wakeup_minds) (use x(2) qremove_frame [OF v] dry_none v in \<open>auto simp: qputback_frame\<close>)
    then show ?thesis using x by auto
  qed
qed

lemma qread_done_wakes:
  assumes "qread_done s bs k n = (s', j, p)"
  shows "\<exists>x. evs s' = evs s @ x \<and> (isset Qflow s \<longrightarrow> WakeW \<in> set x \<or> crowded s') \<and> q_limit (que s') = q_limit (que s)"
proof -
  obtain m q r where b: "bl2mem (mem s) bs n = (m, q, r)" using prod_cases3 by blast
  then obtain u where u: "s' = qwakeup_unlock u" "evs u = evs s" "isset Qflow u = isset Qflow s" "q_limit (que u) = q_limit (que s)"
    using assms by (auto simp: qread_done_def Let_def qputback_frame split: list.splits if_splits)
  show ?thesis
  proof (cases "isset Qflow u \<and> q_len (que u) < half (q_limit (que u))")
    case True
    then show ?thesis using u by (auto simp: qwakeup_unlock_def unflow_def)
  next
    case False
    then have "s' = u" unfolding u(1) qwakeup_unlock_def unflow_def by auto
    then show ?thesis using u False by (auto simp: crowded_def)
  qed
qed

section \<open>No process sleeps for nothing\<close>

definition linv :: "qcl \<Rightarrow> bool" where
  "linv c \<longleftrightarrow>
     (let s = c_st c in
      \<not> q_bypass (que s) \<and> \<not> isset Qcoalesce s \<and> 2 \<le> q_limit (que s) \<and> q_inilim (que s) = q_limit (que s) \<and>
      (c_rsleep c \<longrightarrow> dry s \<and> c_fly c = None) \<and> (c_wsleep c \<longrightarrow> isset Qflow s \<and> (c_fly c = None \<longrightarrow> crowded s)))"

definition kind_ok :: "qst \<Rightarrow> qst \<Rightarrow> bool" where
  "kind_ok s s' \<longleftrightarrow>
     q_bypass (que s') = q_bypass (que s) \<and> isset Qcoalesce s' = isset Qcoalesce s \<and> q_inilim (que s') = q_inilim (que s) \<and>
     (q_inilim (que s) = q_limit (que s) \<longrightarrow> q_limit (que s') = q_limit (que s))"

lemma kind_mode: "mode s' = mode s \<Longrightarrow> kind_ok s s'"
  using mode_flags [of s' s] by (simp add: kind_ok_def)

text \<open>The operations of readers, writers and interrupts; the others are not for queues that processes sleep on.\<close>

definition allowed_live :: "qop \<Rightarrow> qcl \<Rightarrow> bool" where
  "allowed_live op c \<longleftrightarrow>
     allowed op c \<and> (case op of Consume n \<Rightarrow> False | SetLimit l \<Rightarrow> False | Remove \<Rightarrow> False | PutBack \<Rightarrow> False | AddList k \<Rightarrow> False | PullUp n \<Rightarrow> False | _ \<Rightarrow> True)"

lemma new_evs: "evs s' = evs s @ x \<Longrightarrow> drop (length (evs s)) (evs s') = x"
  by simp

lemma linv_minds:
  assumes "linv c" "minds (c_st c) (c_st e)" "c_fly e = c_fly c" "kind_ok (c_st c) (c_st e)"
    "fr \<Longrightarrow> dry (c_st e) \<and> c_fly c = None" "fw \<Longrightarrow> isset Qflow (c_st e) \<and> q_limit (que (c_st e)) \<le> q_len (que (c_st e))"
  shows "linv (e\<lparr>c_rsleep := fr \<or> c_rsleep c \<and> WakeR \<notin> set (drop (length (evs (c_st c))) (evs (c_st e))),
    c_wsleep := fw \<or> c_wsleep c \<and> WakeW \<notin> set (drop (length (evs (c_st c))) (evs (c_st e)))\<rparr>)"
proof -
  from assms(2) obtain x where x: "evs (c_st e) = evs (c_st c) @ x" "dry (c_st c) \<longrightarrow> WakeR \<in> set x \<or> dry (c_st e)"
    "isset Qflow (c_st c) \<longrightarrow> WakeW \<in> set x \<or> isset Qflow (c_st e)" "crowded (c_st c) \<longrightarrow> WakeW \<in> set x \<or> crowded (c_st e)"
    by (auto simp: minds_def unless_def)
  have l: "2 \<le> q_limit (que (c_st e))" using assms(1,4) by (simp add: linv_def kind_ok_def Let_def)
  then have "half (q_limit (que (c_st e))) \<le> q_limit (que (c_st e))" by (intro half_le) simp
  then have fw: "fw \<Longrightarrow> crowded (c_st e)" using assms(6) by (simp add: crowded_def)
  show ?thesis using assms(1,3-5) fw x by (auto simp: linv_def kind_ok_def Let_def new_evs [OF x(1)] crowded_def)
qed

lemma live_take:
  assumes "linv c" "allowed (ReadTake n) c" "qdo (ReadTake n) c = (d, i, out)"
  shows "linv d"
proof -
  obtain s r where g: "qread_take (c_st c) n = (s, r)" by fastforce
  have co: "\<not> isset Qcoalesce (c_st c)" using assms(1) by (simp add: linv_def Let_def)
  note t = qread_take_minds [OF g co]
  have k: "kind_ok (c_st c) s" by (rule kind_mode) (rule mode_qread_take [OF g])
  have f: "c_fly c = None" "\<not> c_rsleep c" using assms(2) by simp_all
  show ?thesis
  proof (cases "\<exists>bs m. r = Done (Some (bs, m))")
    case True
    then obtain bs m where r: "r = Done (Some (bs, m))" by blast
    then obtain x y where d: "d = c\<lparr>c_st := s, c_fly := Some (bs, m, n), c_rsleep := False, c_wsleep := y\<rparr>" "y \<longrightarrow> c_wsleep c \<and> WakeW \<notin> set (drop (length (evs (c_st c))) (evs s))"
      using assms(3) g f by (auto simp: qdo_def Let_def falls_r_def falls_w_def)
    from t obtain z where "evs s = evs (c_st c) @ z" "isset Qflow (c_st c) \<longrightarrow> WakeW \<in> set z \<or> isset Qflow s" by (auto simp: unless_def)
    then show ?thesis using assms(1) d k by (auto simp: linv_def kind_ok_def Let_def)
  next
    case False
    then have "\<forall>x. r \<noteq> Done (Some x)" by auto
    then have m: "minds (c_st c) s" and a: "r = Asleep \<Longrightarrow> dry s" using t by auto
    let ?e = "c\<lparr>c_st := s\<rparr>"
    have e: "qstep (ReadTake n) c = (?e, [], [])" using g False by (auto split: qout.split option.split)
    then have "d = ?e\<lparr>c_rsleep := r = Asleep \<or> c_rsleep c \<and> WakeR \<notin> set (drop (length (evs (c_st c))) (evs (c_st ?e))),
        c_wsleep := False \<or> c_wsleep c \<and> WakeW \<notin> set (drop (length (evs (c_st c))) (evs (c_st ?e)))\<rparr>"
      using assms(3) g by (simp add: qdo_def Let_def falls_r_def falls_w_def)
    then show ?thesis using linv_minds [OF assms(1), of ?e "r = Asleep" False] m a f k by simp
  qed
qed

lemma live_done:
  assumes "linv c" "qdo ReadDone c = (d, i, out)"
  shows "linv d"
proof (cases "c_fly c")
  case None
  then have "d = c\<lparr>c_rsleep := c_rsleep c, c_wsleep := c_wsleep c\<rparr>" using assms(2) by (simp add: qdo_def falls_r_def falls_w_def)
  then show ?thesis using assms(1) by (simp add: linv_def)
next
  case (Some a)
  obtain bs m n where a: "c_fly c = Some (bs, m, n)" using Some by (cases a) auto
  obtain s j p where g: "qread_done (c_st c) bs m n = (s, j, p)" using prod_cases3 by blast
  from qread_done_wakes [OF g] obtain x where x: "evs s = evs (c_st c) @ x" "isset Qflow (c_st c) \<longrightarrow> WakeW \<in> set x \<or> crowded s"
    "q_limit (que s) = q_limit (que (c_st c))" by blast
  have k: "kind_ok (c_st c) s" by (rule kind_mode) (rule mode_qread_done [OF g])
  have "d = c\<lparr>c_st := s, c_fly := None, c_rsleep := c_rsleep c \<and> WakeR \<notin> set x, c_wsleep := c_wsleep c \<and> WakeW \<notin> set x\<rparr>"
    using assms(2) a g x(1) by (simp add: qdo_def Let_def falls_r_def falls_w_def)
  then show ?thesis using assms(1) x k a by (auto simp: linv_def kind_ok_def Let_def crowded_def)
qed

end
