(* ===== verification/QioLive.thy ===== *)
theory QioLive
  imports QioSleep
begin

text \<open>
  The invariant of the sleepers, \<open>linv\<close>, along a run: an operation that \<open>eases\<close> the queue, leaving no sleeper behind that should be
  woken, keeps it, every operation of a live run does, and the interpretation \<open>lively\<close> carries it over traces.
\<close>

definition eases :: "qop \<Rightarrow> qcl \<Rightarrow> qcl \<Rightarrow> bool" where
  "eases op c e \<longleftrightarrow>
     minds (c_st c) (c_st e) \<and> c_fly e = c_fly c \<and> kind_ok (c_st c) (c_st e) \<and> (falls_r op c \<longrightarrow> dry (c_st e) \<and> c_fly c = None) \<and>
     (falls_w op c \<longrightarrow> isset Qflow (c_st e) \<and> q_limit (que (c_st e)) \<le> q_len (que (c_st e)))"

lemma eases_live:
  assumes "linv c" "eases op c e" "qstep op c = (e, i, out)" "qdo op c = (d, i', out')"
  shows "linv d"
proof -
  have "d = e\<lparr>c_rsleep := falls_r op c \<or> c_rsleep c \<and> WakeR \<notin> set (drop (length (evs (c_st c))) (evs (c_st e))),
      c_wsleep := falls_w op c \<or> c_wsleep c \<and> WakeW \<notin> set (drop (length (evs (c_st c))) (evs (c_st e)))\<rparr>"
    using assms(3,4) by (simp add: qdo_def Let_def)
  then show ?thesis using linv_minds [OF assms(1), of e "falls_r op c" "falls_w op c"] assms(2) by (simp add: eases_def)
qed

lemma no_falls [simp]:
  "falls_r Get c = False" "falls_w Get c = False" "falls_r (Discard n) c = False" "falls_w (Discard n) c = False"
  "falls_w (Bread n) c = False" "falls_r (Pass n) c = False" "falls_w (Pass n) c = False" "falls_r (PassNoLim n) c = False"
  "falls_w (PassNoLim n) c = False" "falls_r (Produce p) c = False" "falls_w (Produce p) c = False" "falls_r (Copy n m) c = False"
  "falls_w (Copy n m) c = False" "falls_r (Iwrite p) c = False" "falls_w (Iwrite p) c = False" "falls_r Bwrite c = False"
  "falls_r (Write p) c = False" "falls_r Resume c = False"
  by (simp_all add: falls_r_def falls_w_def)

lemma no_falls_closing [simp]:
  "op \<in> {Close, Hangup msg, Reopen, Flush, NoBlock x} \<Longrightarrow> falls_r op c = False \<and> falls_w op c = False"
  by (auto simp: falls_r_def falls_w_def)

lemma eases_taking:
  assumes "linv c" "allowed op c" "op \<in> {Get, Discard n, Bread n}" "qstep op c = (e, i, out)"
  shows "eases op c e"
proof -
  consider "op = Get" | "op = Discard n" | "op = Bread n" using assms(3) by auto
  then show ?thesis
  proof cases
    case 1
    obtain s r where g: "qget (c_st c) = (s, r)" by fastforce
    have "c_st e = s" "c_fly e = c_fly c" using assms(4) 1 g by (auto split: option.splits)
    then show ?thesis using 1 qget_minds [OF g] kind_mode [OF mode_qget [OF g]] by (simp add: eases_def)
  next
    case 2
    obtain s k where g: "qdiscard (c_st c) n = (s, k)" by fastforce
    have "c_st e = s" "c_fly e = c_fly c" using assms(4) 2 g by auto
    moreover have "0 \<le> q_limit (que (c_st c))" using assms(1) by (simp add: linv_def Let_def)
    ultimately show ?thesis using 2 qdiscard_minds [OF g] kind_mode [OF mode_qdiscard [OF g]] by (simp add: eases_def)
  next
    case 3
    obtain s r where g: "qbread (c_st c) n = (s, r)" by fastforce
    have "c_st e = s" "c_fly e = c_fly c" using assms(4) 3 g by (auto split: qout.splits option.splits)
    moreover have "falls_r op c \<longleftrightarrow> r = Asleep" by (simp add: falls_r_def 3 g)
    ultimately show ?thesis using 3 qbread_minds [OF g] kind_mode [OF mode_qbread [OF g]] assms(2) by (simp add: eases_def)
  qed
qed

lemma eases_adding:
  assumes "cinv False c" "allowed op c" "op \<in> {Pass n, PassNoLim n, Produce p, Copy n m, Iwrite p}" "qstep op c = (e, i, out)"
  shows "eases op c e"
proof -
  consider "op = Pass n" | "op = PassNoLim n" | "op = Produce p" | "op = Copy n m" | "op = Iwrite p" using assms(3) by auto
  then show ?thesis
  proof cases
    case 1
    obtain s r where g: "qpass (c_st c) (take n (c_held c)) = (s, r)" by fastforce
    have "c_st e = s" "c_fly e = c_fly c" "take n (c_held c) \<noteq> []" using assms(2,4) 1 g by (auto simp: Let_def)
    then show ?thesis using 1 qpass_minds(1) [OF g] kind_mode [OF mode_qpass(1) [OF g]] by (simp add: eases_def)
  next
    case 2
    obtain s r where g: "qpassnolim (c_st c) (take n (c_held c)) = (s, r)" by fastforce
    have "c_st e = s" "c_fly e = c_fly c" "take n (c_held c) \<noteq> []" using assms(2,4) 2 g by (auto simp: Let_def)
    then show ?thesis using 2 qpass_minds(2) [OF g] kind_mode [OF mode_qpass(2) [OF g]] by (simp add: eases_def)
  next
    case 3
    obtain s r where g: "qproduce (c_st c) p = (s, r)" by fastforce
    then show ?thesis using assms(4) 3 qproduce_minds [OF g] kind_mode [OF mode_qproduce [OF g]] by (auto simp: eases_def)
  next
    case 4
    obtain s b where g: "qcopy (c_st c) n m = (s, b)" by fastforce
    then show ?thesis using assms(4) 4 qcopy_minds [OF g] kind_mode [OF mode_qcopy [OF g]] by (auto simp: eases_def)
  next
    case 5
    obtain s k where g: "qiwrite (c_st c) p = (s, k)" by fastforce
    have "mode s = mode (c_st c)" using qiwrite_ok [OF cinvD(1,3) [OF assms(1)] g] by blast
    then show ?thesis using assms(4) 5 g qiwrite_loop_minds [OF cinvD(3) [OF assms(1)] g [unfolded qiwrite_def]] kind_mode
      by (auto simp: eases_def)
  qed
qed

lemma writing_asleep: "writing p r \<noteq> None \<longleftrightarrow> (\<exists>k. r = Wasleep k)"
  by (simp add: writing_def split: wout.split)

lemma eases_writing:
  assumes "cinv False c" "allowed op c" "op \<in> {Bwrite, Write p, Resume}" "qstep op c = (e, i, out)"
  shows "eases op c e"
proof -
  note nb = cinvD(3) [OF assms(1)]
  have f: "falls_w op c \<longleftrightarrow> c_wr e \<noteq> None" using assms(3,4) by (auto simp: falls_w_def)
  consider "op = Bwrite" | "op = Write p" | "op = Resume" using assms(3) by auto
  then show ?thesis
  proof cases
    case 1
    then obtain b bs where h: "c_held c = b # bs" using assms(2) by (cases "c_held c") auto
    obtain s r where g: "qbwrite (c_st c) b = (s, r)" by fastforce
    have o: "others c = ids [b] + others (c\<lparr>c_held := bs\<rparr>)" by (simp add: others_def h flying_def)
    have "mode s = mode (c_st c)"
      using qbwrite_ok [OF cinvD(1) [OF assms(1), unfolded o] _ nb g] cinvD(2) [OF assms(1)] h by simp
    moreover have "c_st e = s" "c_fly e = c_fly c" "c_wr e \<noteq> None \<longleftrightarrow> r = Asleep" using assms(4) 1 g h by (auto split: if_splits)
    ultimately show ?thesis using 1 qbwrite_minds [OF nb g] kind_mode f by (auto simp: eases_def)
  next
    case 2
    obtain s r where g: "qwrite (c_st c) p = (s, r)" by fastforce
    have "mode s = mode (c_st c)" using qwrite_ok [OF cinvD(1,3) [OF assms(1)] g] by blast
    moreover have "c_st e = s" "c_fly e = c_fly c" "c_wr e = writing p r" using assms(4) 2 g by auto
    moreover have "\<exists>k. r = Wasleep k" if "falls_w op c" using that f \<open>c_wr e = writing p r\<close> writing_asleep by metis
    ultimately show ?thesis using 2 qwrite_loop_minds [OF nb g [unfolded qwrite_def]] kind_mode by (auto simp: eases_def)
  next
    case 3
    then obtain p k where w: "c_wr c = Some (p, k)" using assms(2) by auto
    obtain s r where g: "qwrite_resume (c_st c) p k = (s, r)" by fastforce
    have "mode s = mode (c_st c)" using qwrite_resume_ok [OF cinvD(1,3) [OF assms(1)] cinvD(5) [OF assms(1) w] g] by blast
    moreover have "c_st e = s" "c_fly e = c_fly c" "c_wr e = writing p r" using assms(4) 3 g w by auto
    moreover have "\<exists>k. r = Wasleep k" if "falls_w op c" using that f \<open>c_wr e = writing p r\<close> writing_asleep by metis
    ultimately show ?thesis using 3 qwrite_resume_minds [OF nb g] kind_mode by (auto simp: eases_def)
  qed
qed

lemma eases_closing:
  assumes "linv c" "op \<in> {Close, Hangup msg, Reopen, Flush, NoBlock x}" "qstep op c = (e, i, out)"
  shows "eases op c e"
proof -
  have k: "kind_ok s (qclose s)" "kind_ok s (qhangup s msg)" "kind_ok s (qflush s)" "kind_ok s (qnoblock s x)" "kind_ok s (qreopen s)" for s
    by (simp_all add: kind_ok_def isset_def qclose_def qhangup_def qreopen_def qflush_def qnoblock_def Let_def)
  have l: "q_inilim (que (c_st c)) = q_limit (que (c_st c))" using assms(1) by (simp add: linv_def Let_def)
  have "minds (c_st c) (c_st e)" "kind_ok (c_st c) (c_st e)" "c_fly e = c_fly c"
    using assms(2,3) closing_minds qflush_minds qnoblock_minds qreopen_minds [OF l] k by auto
  then show ?thesis using no_falls_closing [OF assms(2)] by (simp add: eases_def)
qed

lemma live_step:
  assumes "cinv False c" "linv c" "allowed_live op c" "qdo op c = (d, i, out)"
  shows "linv d"
proof -
  obtain e where e: "qstep op c = (e, i, out)" using qdo_step [OF assms(4)] by blast
  have a: "allowed op c" using assms(3) by (simp add: allowed_live_def)
  have eq: "eases op c e \<Longrightarrow> linv d" by (rule eases_live [OF assms(2) _ e assms(4)])
  show ?thesis
  proof (cases op)
    case (ReadTake n)
    then show ?thesis using live_take [OF assms(2)] a assms(4) by simp
  next
    case ReadDone
    then show ?thesis using live_done [OF assms(2)] assms(4) by simp
  next
    case (Discard n)
    then show ?thesis using eases_taking [OF assms(2) a _ e, of n] eq by simp
  next
    case Get
    then show ?thesis using eases_taking [OF assms(2) a _ e] eq by simp
  next
    case (Bread n)
    then show ?thesis using eases_taking [OF assms(2) a _ e, of n] eq by simp
  next
    case (Pass n)
    then show ?thesis using eases_adding [OF assms(1) a _ e, of n] eq by simp
  next
    case (PassNoLim n)
    then show ?thesis using eases_adding [OF assms(1) a _ e, of n] eq by simp
  next
    case (Produce p)
    then show ?thesis using eases_adding [OF assms(1) a _ e, of _ p] eq by simp
  next
    case (Copy n m)
    then show ?thesis using eases_adding [OF assms(1) a _ e, of n _ m] eq by simp
  next
    case (Iwrite p)
    then show ?thesis using eases_adding [OF assms(1) a _ e, of _ p] eq by simp
  next
    case (Write p)
    then show ?thesis using eases_writing [OF assms(1) a _ e, of p] eq by simp
  next
    case Bwrite
    then show ?thesis using eases_writing [OF assms(1) a _ e] eq by simp
  next
    case Resume
    then show ?thesis using eases_writing [OF assms(1) a _ e] eq by simp
  next
    case (Hangup m)
    then show ?thesis using eases_closing [OF assms(2) _ e, of m] eq by simp
  next
    case (NoBlock x)
    then show ?thesis using eases_closing [OF assms(2) _ e, of _ x] eq by simp
  qed (use eases_closing [OF assms(2) _ e] eq assms(3) in \<open>simp_all add: allowed_live_def\<close>)
qed

interpretation lively: keeps allowed_live qdo "\<lambda>c. cinv False c \<and> linv c"
proof
  fix c op d i out assume "cinv False c \<and> linv c" "allowed_live op c" "qdo op c = (d, i, out)"
  moreover then have "cinv False d" using qdo_good [of False c op d i out] by (simp add: good_def allowed_live_def)
  ultimately show "cinv False d \<and> linv d" using live_step by blast
qed

end
