(* ===== verification/QioProps.thy ===== *)
theory QioProps
  imports QioLive
begin

text \<open>
  The properties of the queues of emu/port/qio.c. A run is a \<open>trace\<close> of operations from a queue that \<open>qopen\<close> made; \<open>run\<close> computes one.
\<close>

fun run :: "('o \<Rightarrow> 's \<Rightarrow> bool) \<Rightarrow> ('o \<Rightarrow> 's \<Rightarrow> 's \<times> 'a list \<times> 'a list) \<Rightarrow> 'o list \<Rightarrow> 's \<Rightarrow> ('s \<times> 'a list \<times> 'a list) option" where
  "run ok step [] c = Some (c, [], [])"
| "run ok step (op # ops) c =
     (if ok op c then
        (let (d, i, out) = step op c in
         case run ok step ops d of None \<Rightarrow> None | Some (e, is, outs) \<Rightarrow> Some (e, i @ is, out @ outs))
      else None)"

lemma run_trace: "run ok step ops c = Some (d, i, out) \<Longrightarrow> trace ok step ops c d i out"
  by (induction ops arbitrary: c i out) (auto split: if_splits prod.splits option.splits intro!: trace.intros)

lemma run_found: "map_option snd (run ok step ops c) = Some (i, out) \<Longrightarrow> \<exists>d. trace ok step ops c d i out"
  by (auto dest: run_trace)

lemma trace_mono:
  assumes "trace ok step ops c d i out" "\<And>op c. op \<in> set ops \<Longrightarrow> ok op c \<Longrightarrow> ok' op c"
  shows "trace ok' step ops c d i out"
  using assms by (induction rule: trace.induct) (auto intro!: trace.intros)

text \<open>Memory where nothing is allocated yet, and a queue opened in it.\<close>

definition fresh_mem :: "bool \<Rightarrow> bmem" where
  "fresh_mem x = \<lparr>bfresh = 0, bfreed = [], bfault = False, nomem = x\<rparr>"

definition opened :: "int \<Rightarrow> qflag set \<Rightarrow> bool \<Rightarrow> bool \<Rightarrow> qcl" where
  "opened limit msg kick x = start (qopen (fresh_mem x) limit msg kick)"

lemma opened_ok: "cinv t (opened limit msg kick x)"
proof -
  have "macc {#} (fresh_mem x)" by (simp add: macc_def fresh_mem_def)
  then have "qinv t {#} (qopen (fresh_mem x) limit msg kick)" using qopen_ok by blast
  then show ?thesis by (simp add: cinv_def opened_def start_def others_def flying_def qopen_def)
qed

definition keeps_lost :: "qop \<Rightarrow> qcl \<Rightarrow> bool" where
  "keeps_lost op c \<longleftrightarrow> (\<forall>n. op \<noteq> Consume n)"

lemma qdo_lost: "keeps_lost op c \<Longrightarrow> qdo op c = (d, i, out) \<Longrightarrow> c_lost d = c_lost c"
  using qdo_step [of op c d i out]
  by (cases op) (auto simp: keeps_lost_def Let_def split: prod.splits option.splits qout.splits list.splits)

interpretation unlost: keeps keeps_lost qdo "\<lambda>c. c_lost c = []"
  by unfold_locales (simp add: qdo_lost)


text \<open>The definitions that evaluate a run on concrete operations.\<close>

lemmas queue_eval =
  qdo_def falls_r_def falls_w_def opened_def fresh_mem_def start_def qopen_def Let_def onq_def setflag_def clrflag_def isset_def emit_def
  free1_def freeall_def qfault_def half_def unflow_def feed_def qlink_def addlens_def setblast_def setbfirst_def qappend_def
  qremove_def qputback_def qget_def qdiscard_def qdiscard_loop.simps qconsume_def flow_if_def qpass_tail_def qpass_def qproduce_def
  qwait_def qwakeup_unlock_def qbread_def qgrab.simps qread_take.simps qread_done_def qnotfull_def qbwrite_flow_def queued_def qbwrite_def
  qwrite_loop.simps qwrite_def qwrite_resume_def pullupqueue_def iallocb_def allocb_def newblock_def bstore_def BLEN_def BALLOC_def
  bdata_def freeb_def Maxatomic_def writing_def written_def content_def bdatas_def

definition ex_ops :: "qop list" where
  "ex_ops = [Produce [1, 2, 3], ReadTake 2, Produce [6], ReadDone, Bread 3, Get, Pass 2, Discard 1]"

lemma ex_run:
  "map_option snd (run allowed_fifo qdo ex_ops (opened 100 {} False False)) = Some ([1, 2, 3, 6, 6, 3], [1, 2, 3, 6, 6])"
  by (simp add: ex_ops_def queue_eval allowed_fifo_def)

lemma ex_trace: "\<exists>c. trace allowed_fifo qdo ex_ops (opened 100 {} False False) c [1, 2, 3, 6, 6, 3] [1, 2, 3, 6, 6]"
  by (rule run_found [OF ex_run])


text \<open>Where the two exceptions come from.\<close>

lemma pullup_drifts:
  "map_option (\<lambda>(c, _). (q_len (que (c_st c)), blockalloclen (q_bfirst (que (c_st c)))))
     (run allowed qdo [Produce [1], Produce [2, 3], PullUp 2, Discard 3] (opened 100 {} False False)) = Some (-1, 0)"
  by (simp add: queue_eval qlen_def)

lemma consume_loses:
  "map_option (\<lambda>(c, _). (c_lost c, bfreed (mem (c_st c))))
     (run allowed qdo [Produce [], Consume 1] (opened 100 {} False False)) = Some ([0], [])"
  by (simp add: queue_eval qlen_def)

section \<open>Order\<close>



section \<open>Sleeping\<close>

lemma live_no_pullup: "trace allowed_live qdo ops c d i out \<Longrightarrow> PullUp n \<notin> set ops"
  by (induction rule: trace.induct) (auto simp: allowed_live_def)


definition ex_sleep :: "qop list" where "ex_sleep = [ReadTake 3, Write [1, 2, 3, 4, 5], ReadTake 2]"

lemma ex_sleep_run:
  "map_option snd (run allowed_live qdo ex_sleep (opened 4 {} False False)) = Some ([1, 2, 3, 4, 5], [])"
  by (simp add: ex_sleep_def queue_eval allowed_live_def)


text \<open>
  With a limit of 1 the half is 0, which no length is below: the writer is not woken by the read that empties the queue, and the next read
  sleeps as well.
\<close>

lemma limit_one_deadlock:
  "map_option (\<lambda>(c, _). (c_rsleep c, c_wsleep c, q_bfirst (que (c_st c))))
     (run allowed_live qdo [Write [1, 2], ReadTake 2, ReadDone, ReadTake 1] (opened 1 {} False False)) = Some (True, True, [])"
  by (simp add: queue_eval allowed_live_def)

section \<open>Messages\<close>

definition msgs :: "qst \<Rightarrow> bytes list" where "msgs s = map bdata (q_bfirst (que s))"

lemma front_message:
  assumes "msgs s = m # ms" "qinv t H s"
  obtains b v where "qremove s = (v, Some b)" "bdata b = m" "BLEN b = length m" "blk_ok b" "msgs v = ms" "qwait s = (s, Have)" "q_bfirst (que s) \<noteq> []"
proof -
  obtain b nxt where b: "q_bfirst (que s) = b # nxt" "bdata b = m" "map bdata nxt = ms"
    using assms(1) by (auto simp: msgs_def)
  moreover have "blk_ok b" using qinvD(2) [OF assms(2)] b(1) by simp
  moreover have "qwait s = (s, Have)" using b(1) by (simp add: qwait_def)
  ultimately show ?thesis using that length_bdata [of b] by (simp add: qremove_def msgs_def)
qed

lemma msgs_frame [simp]:
  "msgs (qwakeup_unlock s) = msgs s" "msgs (free1 b s) = msgs s" "msgs (s\<lparr>mem := x\<rparr>) = msgs s" "msgs (queued s) = msgs s"
  "msgs (fst (qbwrite_flow s)) = msgs s"
  by (simp_all add: msgs_def)

lemma message_read:
  assumes "qinv t H s" "isset Qmsg s" "\<not> isset Qcoalesce s" "msgs s = m # ms"
  shows "\<exists>s'. qread s n = (s', Done (min n (length m), take n m)) \<and> msgs s' = ms"
proof -
  obtain b v where b: "qremove s = (v, Some b)" "bdata b = m" "BLEN b = length m" "blk_ok b" "msgs v = ms" "qwait s = (s, Have)"
    by (rule front_message [OF assms(4,1)])
  have tk: "qread_take s n = (v, Done (Some ([b], length m)))" using assms(3) b by (simp add: qread_take.simps [of s])
  have msg: "isset Qmsg v" using qremove_frame [OF b(1), of Qmsg] assms(2) by simp
  show ?thesis
  proof (cases "n < length m")
    case True
    then have "qread_done v [b] (length m) n = (qwakeup_unlock (free1 (b\<lparr>b_rp := b_rp b + n\<rparr>) (v\<lparr>mem := mem v\<rparr>)), n, take n m)"
      using b msg by (simp add: qread_done_def Let_def isset_def)
    then show ?thesis using tk b(5) True by (simp add: qread_def)
  next
    case False
    then have "qread_done v [b] (length m) n =
        (qwakeup_unlock (v\<lparr>mem := freeb (mem v) (b\<lparr>b_rp := b_rp b + BLEN b\<rparr>)\<rparr>), length m, m)"
      using b by (simp add: qread_done_def Let_def)
    then show ?thesis using tk b(5) False by (simp add: qread_def min_def)
  qed
qed

lemma message_bread:
  assumes "qinv t H s" "isset Qmsg s" "msgs s = m # ms"
  shows "\<exists>s' b. qbread s n = (s', Done (Some b)) \<and> bdata b = take n m \<and> msgs s' = ms"
proof -
  obtain b v where b: "qremove s = (v, Some b)" "bdata b = m" "BLEN b = length m" "blk_ok b" "msgs v = ms" "qwait s = (s, Have)"
    by (rule front_message [OF assms(3,1)])
  have msg: "isset Qmsg v" using qremove_frame [OF b(1), of Qmsg] assms(2) by simp
  then have "qbread s n = (qwakeup_unlock v, Done (Some (if n < length m then b\<lparr>b_wp := b_rp b + n\<rparr> else b)))"
    using b by (simp add: qbread_def Let_def)
  then show ?thesis using b by auto
qed

lemma message_write:
  assumes "qinv t H s" "isset Qmsg s" "\<not> q_bypass (que s)" "\<not> q_noblock (que s)" "\<not> isset Qclosed s"
  shows "msgs (fst (qwrite s p)) = msgs s @ [take Maxatomic p] \<and> snd (qwrite s p) \<in> {Wrote (length p), Wasleep (min (length p) Maxatomic)}"
proof -
  let ?n = "min (length p) Maxatomic"
  have c: "take ?n p = take Maxatomic p" by (simp add: min_def)
  obtain m b where b: "(let (m, b) = allocb (mem s) (length (take ?n p)) in bstore m b (take ?n p)) = (m, b)" "blk_ok b" "bdata b = take ?n p"
    "qinv t (ids [b] + H) (s\<lparr>mem := m\<rparr>)" by (rule chunk [OF assms(1)])
  obtain m0 b0 where ab: "allocb (mem s) ?n = (m0, b0)" "bstore m0 b0 (take ?n p) = (m, b)"
    using b(1) by (auto split: prod.splits)
  let ?s = "s\<lparr>mem := m\<rparr>"
  obtain u go where w: "qbwrite_flow (queued (qappend [b] ?s)) = (u, go)" by fastforce
  then have u: "u = fst (qbwrite_flow (queued (qappend [b] ?s)))" by simp
  have bw: "qbwrite ?s b = (u, if go then Done (BLEN b) else Asleep)"
    using assms(3-5) w by (simp add: qbwrite_def Let_def)
  have "msgs u = msgs s @ [take Maxatomic p]"
    using qappend_sel(1) [OF b(4), of "[b]"] b(3) c by (simp add: u msgs_def)
  moreover have "isset Qmsg u" using assms(2) by (simp add: u qbwrite_flow_def queued_def Let_def)
  ultimately show ?thesis using ab bw by (simp add: qwrite_def qwrite_loop.simps [of s])
qed

text \<open>
  C21. A message queue keeps messages apart: a read takes one message and gives as much of its beginning as fits, the rest is dropped with it; a
  read of a block does the same; a write adds exactly one message, which is cut after \<open>Maxatomic\<close> bytes although the writer is
  told that all was written.
\<close>

theorem queue_keeps_messages:
  assumes "qinv t H s" "isset Qmsg s" "\<not> isset Qcoalesce s"
  shows "(\<forall>m ms n. msgs s = m # ms \<longrightarrow>
       (\<exists>s'. qread s n = (s', Done (min n (length m), take n m)) \<and> msgs s' = ms) \<and>
       (\<exists>s' b. qbread s n = (s', Done (Some b)) \<and> bdata b = take n m \<and> msgs s' = ms)) \<and>
    (\<not> q_bypass (que s) \<and> \<not> q_noblock (que s) \<and> \<not> isset Qclosed s \<longrightarrow>
       (\<forall>p. msgs (fst (qwrite s p)) = msgs s @ [take Maxatomic p] \<and>
         snd (qwrite s p) \<in> {Wrote (length p), Wasleep (min (length p) Maxatomic)}))"
  using message_read [OF assms] message_bread [OF assms(1,2)] message_write [OF assms(1,2)] by blast

definition ex_msgs :: qst where "ex_msgs = qappend [\<lparr>b_id = 0, b_buf = [1, 2, 3], b_rp = 0, b_wp = 3\<rparr>]
  (qopen \<lparr>bfresh = 1, bfreed = [], bfault = False, nomem = False\<rparr> 100 {Qmsg} False)"

lemma ex_msgs_ok: "qinv True {#} ex_msgs" "isset Qmsg ex_msgs" "\<not> isset Qcoalesce ex_msgs" "msgs ex_msgs = [[1, 2, 3]]"
proof -
  let ?b = "\<lparr>b_id = 0, b_buf = [1, 2, 3], b_rp = 0, b_wp = 3\<rparr> :: block"
  let ?q = "qopen \<lparr>bfresh = 1, bfreed = [], bfault = False, nomem = False\<rparr> 100 {Qmsg} False"
  have "macc (ids [?b] + {#}) \<lparr>bfresh = 1, bfreed = [], bfault = False, nomem = False\<rparr>" by (simp add: macc_def lessThan_Suc)
  then have q: "qinv True (ids [?b] + {#}) ?q" using qopen_ok by blast
  have b: "blks_ok [?b]" "bdata ?b = [1, 2, 3]" by (simp_all add: blk_ok_def bdata_def BLEN_def)
  show "qinv True {#} ex_msgs" using qappend_ok(1) [OF q _ b(1)] by (simp add: ex_msgs_def)
  show "isset Qmsg ex_msgs" "\<not> isset Qcoalesce ex_msgs" by (simp_all add: ex_msgs_def) (simp_all add: isset_def qopen_def)
  show "msgs ex_msgs = [[1, 2, 3]]" using qappend_sel(1) [OF q, of "[?b]"] b(2) by (simp add: ex_msgs_def msgs_def qopen_def)
qed

theorem queue_keeps_messages_witness:
  "\<exists>s'. qread ex_msgs 2 = (s', Done (2, [1, 2])) \<and> msgs s' = []"
proof -
  have "\<exists>s'. qread ex_msgs 2 = (s', Done (min 2 (length [1, 2, 3 :: u8]), take 2 [1, 2, 3])) \<and> msgs s' = []"
    using queue_keeps_messages [OF ex_msgs_ok(1-3)] ex_msgs_ok(4) by blast
  then show ?thesis by (simp add: numeral_2_eq_2)
qed

section \<open>The end of a queue\<close>

text \<open>\<open>k\<close> reads one after the other.\<close>

fun reads :: "nat \<Rightarrow> nat \<Rightarrow> qst \<Rightarrow> (nat \<times> bytes) qout list" where
  "reads 0 n s = []"
| "reads (Suc k) n s = (let (s, r) = qread s n in r # reads k n s)"

definition ended :: "qst \<Rightarrow> bool" where
  "ended s \<longleftrightarrow> q_bfirst (que s) = [] \<and> isset Qclosed s"

definition plain_err :: "bytes \<Rightarrow> bool" where "plain_err e \<longleftrightarrow> e = [] \<or> e = Ehungup"

lemma read_ended:
  assumes "ended s"
  shows "qread s n =
    (onq (\<lambda>q. q\<lparr>q_eof := q_eof q + 1\<rparr>) s,
     if q_eof (que s) < 3 \<and> plain_err (q_err (que s)) then Done (0, []) else Raised (q_err (que s)))"
  using assms by (auto simp: qread_def qread_take.simps [of s] qwait_def Let_def ended_def plain_err_def)

lemma read_sleeps: "q_bfirst (que s) = [] \<Longrightarrow> \<not> isset Qclosed s \<Longrightarrow> qread s n = (setflag Qstarve s, Asleep)"
  by (simp add: qread_def qread_take.simps [of s] qwait_def)

lemma reads_ended:
  "ended s \<Longrightarrow> reads k n s =
     (let e = q_err (que s); z = (if plain_err e then min k (3 - q_eof (que s)) else 0)
      in replicate z (Done (0, [])) @ replicate (k - z) (Raised e))"
proof (induction k arbitrary: s)
  case (Suc k)
  let ?s = "onq (\<lambda>q. q\<lparr>q_eof := q_eof q + 1\<rparr>) s"
  have "ended ?s" using Suc.prems by (simp add: ended_def isset_def)
  note ih = Suc.IH [OF this] and r = read_ended [OF Suc.prems, of n]
  have d: "3 - q_eof (que s) = Suc (2 - q_eof (que s))" if "q_eof (que s) < 3" using that by simp
  show ?case
  proof (cases "q_eof (que s) < 3 \<and> plain_err (q_err (que s))")
    case True
    then show ?thesis using ih r d by (simp add: Let_def)
  next
    case False
    then show ?thesis using ih r by (auto simp: Let_def)
  qed
qed (simp add: Let_def)

text \<open>\<open>kstrcpy\<close> of a string that fits gives the string.\<close>

lemma kstrcpy_short:
  assumes "is_cstr e" "length e < ERRMAX" "length buf = ERRMAX"
  shows "cstr_at (kstrcpy buf e (int ERRMAX)) = e"
proof -
  have "kstrcpy buf e (int ERRMAX) = (overlay buf e)[length e := 0]"
    using assms(2) by (simp add: kstrcpy_def ERRMAX_def Let_def)
  also have "overlay buf e = e @ drop (length e) buf" using assms(2,3) by (simp add: overlay_def)
  also have "(e @ drop (length e) buf)[length e := 0] = e @ 0 # drop (Suc (length e)) buf"
    using assms(2,3) by (simp add: list_update_append Cons_nth_drop_Suc [symmetric])
  finally show ?thesis using assms(1) by (simp add: cstr_at_def is_cstr_def takeWhile_append)
qed



end
