(* ===== verification/Mntread.thy ===== *)
theory Mntread
  imports BlockProps Wire9P
begin

text \<open>
  The reader of the mount driver, emu/port/devmnt.c: \<open>doread\<close> and \<open>mntrpcread\<close>, which cut the 9P messages out of the blocks
  that the device below delivers. \<open>bread\<close> of that device is a parameter: it raises an error or gives a chain of blocks (empty for nil).
  Only the part of \<open>Mnt\<close> and \<open>Mntrpc\<close> that they use is here. Their theorem is that the cut does not depend on how
  the bytes are spread over blocks.
\<close>

type_synonym 'd breader = "'d \<Rightarrow> bmem \<Rightarrow> nat \<Rightarrow> (bytes + block list) \<times> bmem \<times> 'd"

record 'd mst =
  m_q :: qst
  m_msize :: int
  m_dev :: 'd
  r_reply :: fcall
  r_b :: "block list"

definition Min9pmsg :: nat where "Min9pmsg = 4 + 1 + 2"

lemma dlen_qaddlist: "bs \<noteq> [] \<Longrightarrow> q_dlen (que (qaddlist s bs)) = q_dlen (que s) + int (blocklen bs)"
  by (auto simp: qaddlist_def qappend_def qlink_def Let_def addlens_def setblast_def onq_def qfault_def)

function doread :: "'d breader \<Rightarrow> 'd mst \<Rightarrow> int \<Rightarrow> 'd mst \<times> (bytes + int)" where
  "doread rd s len =
     (if qlen (m_q s) < len then
        (case rd (m_dev s) (mem (m_q s)) (nat (m_msize s)) of
           (Inl e, m, d) \<Rightarrow> (s\<lparr>m_q := (m_q s)\<lparr>mem := m\<rparr>, m_dev := d\<rparr>, Inl e)
         | (Inr b, m, d) \<Rightarrow>
             (let s = s\<lparr>m_q := (m_q s)\<lparr>mem := m\<rparr>, m_dev := d\<rparr> in
              if b = [] then (s, Inr (-1))
              else if blocklen b = 0 then (s\<lparr>m_q := freeall b (m_q s)\<rparr>, Inr (-1))
              else doread rd (s\<lparr>m_q := qaddlist (m_q s) b\<rparr>) len))
      else (s, Inr 0))"
  by pat_completeness auto
termination
  by (relation "measure (\<lambda>(rd, s, len). nat (len - qlen (m_q s)))")
    (auto simp: qlen_def dlen_qaddlist)

declare doread.simps [simp del]

text \<open>What a pointer into a block's buffer reads: beyond \<open>lim\<close>, bytes that are not the block's.\<close>

definition memat :: "u8 \<Rightarrow> block \<Rightarrow> nat \<Rightarrow> bytes" where
  "memat wild b n = map (\<lambda>i. if b_rp b + i < length (b_buf b) then b_buf b ! (b_rp b + i) else wild) [0..<n]"

text \<open>The loop that hangs the data off the reply: the blocks for \<open>r->b\<close>.\<close>

function hang_data :: "qst \<Rightarrow> nat \<Rightarrow> nat \<Rightarrow> qst \<times> block list" where
  "hang_data q hlen len =
     (case qremove q of
        (q, None) \<Rightarrow> (qfault q, [])
      | (q, Some b) \<Rightarrow>
          (let b = b\<lparr>b_rp := b_rp b + hlen\<rparr>; len = len - hlen; i = BLEN b in
           if i \<le> len then
             (if 0 < len - i then (let (q, bs) = hang_data q 0 (len - i) in (q, b # bs)) else (q, [b]))
           else
             (let (m, nb) = allocb (mem q) (i - len); (m, nb) = bstore m nb (drop len (bdata b))
              in (qputback (q\<lparr>mem := m\<rparr>) nb, [b\<lparr>b_wp := b_rp b + len\<rparr>]))))"
  by pat_completeness auto
termination
  by (relation "measure (\<lambda>(q, h, l). length (q_bfirst (que q)))") (auto dest!: qremove_shorter [OF sym])

declare hang_data.simps [simp del]

definition drop_reply :: "'d mst \<Rightarrow> 'd mst" where
  "drop_reply s =
     s\<lparr>m_q := freeall (r_b s) (m_q s), r_b := [], r_reply := (r_reply s)\<lparr>f_type := 0, f_tag := 0\<rparr>\<rparr>"

definition discard_in :: "'d mst \<Rightarrow> nat \<Rightarrow> 'd mst" where
  "discard_in s n = s\<lparr>m_q := fst (qdiscard (m_q s) n)\<rparr>"

text \<open>From the header of a message, of which at least \<open>Min9pmsg\<close> bytes are in the first block, to its end.\<close>

definition read_body :: "u8 \<Rightarrow> 'd mst \<Rightarrow> int \<Rightarrow> 'd mst \<times> int" where
  "read_body wild s len =
     (case q_bfirst (que (m_q s)) of
        [] \<Rightarrow> (s\<lparr>m_q := qfault (m_q s)\<rparr>, -1)
      | nb # _ \<Rightarrow>
          (let t = memat wild nb 5 ! 4; hlen = (if t = 117 then int Min9pmsg + 4 else len) in
           if len < hlen then (discard_in s (nat (qlen (m_q s))), -1)
           else
             (let s = s\<lparr>m_q := pullupqueue (m_q s) (nat hlen)\<rparr> in
              case q_bfirst (que (m_q s)) of
                [] \<Rightarrow> (s\<lparr>m_q := qfault (m_q s)\<rparr>, -1)
              | nb # _ \<Rightarrow>
                  (case convM2S (memat wild nb (nat len)) (r_reply s) of
                     None \<Rightarrow> (discard_in s (nat len), -1)
                   | Some (_, f) \<Rightarrow>
                       (let (q, bs) = hang_data (m_q s) (nat hlen) (nat len)
                        in (s\<lparr>m_q := q, r_reply := f, r_b := bs\<rparr>, 0))))))"

definition mntrpcread :: "'d breader \<Rightarrow> u8 \<Rightarrow> 'd mst \<Rightarrow> 'd mst \<times> (bytes + int)" where
  "mntrpcread rd wild s =
     (case doread rd (drop_reply s) (int Min9pmsg) of
        (s, Inl e) \<Rightarrow> (s, Inl e)
      | (s, Inr k) \<Rightarrow>
          if k < 0 then (s, Inr (-1))
          else
            (let s = s\<lparr>m_q := pullupqueue (m_q s) Min9pmsg\<rparr> in
             case q_bfirst (que (m_q s)) of
               [] \<Rightarrow> (s\<lparr>m_q := qfault (m_q s)\<rparr>, Inr (-1))
             | nb # _ \<Rightarrow>
                 (case GBIT32 (drop (b_rp nb) (b_buf nb)) of
                    None \<Rightarrow> (s\<lparr>m_q := qfault (m_q s)\<rparr>, Inr (-1))
                  | Some v \<Rightarrow>
                      (let len = sint v in
                       if len < int Min9pmsg \<or> m_msize s < len then (discard_in s (nat (qlen (m_q s))), Inr (-1))
                       else
                         (case doread rd s len of
                            (s, Inl e) \<Rightarrow> (s, Inl e)
                          | (s, Inr k) \<Rightarrow>
                              if k < 0 then (s, Inr (-1))
                              else (let (s, k) = read_body wild s len in (s, Inr k)))))))"

section \<open>The pieces\<close>

text \<open>The device below delivers the bytes \<open>strm\<close> in blocks of its own, as long as there are any.\<close>

definition source :: "'d breader \<Rightarrow> ('d \<Rightarrow> bytes) \<Rightarrow> bool" where
  "source rd strm \<longleftrightarrow>
     (\<forall>d m n H. macc H m \<longrightarrow> strm d \<noteq> [] \<longrightarrow>
        (\<exists>bs m' d'. rd d m n = (Inr bs, m', d') \<and> macc (ids bs + H) m' \<and> blks_ok bs \<and> bdatas bs \<noteq> [] \<and>
           strm d = bdatas bs @ strm d'))"

definition todo :: "('d \<Rightarrow> bytes) \<Rightarrow> 'd mst \<Rightarrow> bytes" where
  "todo strm s = content (m_q s) @ strm (m_dev s)"

definition rest_same :: "'d mst \<Rightarrow> 'd mst \<Rightarrow> bool" where
  "rest_same s s' \<longleftrightarrow> m_msize s' = m_msize s \<and> r_reply s' = r_reply s \<and> r_b s' = r_b s"

lemma doread_ok:
  assumes "source rd strm" "qinv False H (m_q s)" "len \<le> int (length (todo strm s))"
  shows "\<exists>s'. doread rd s len = (s', Inr 0) \<and> qinv False H (m_q s') \<and> todo strm s' = todo strm s \<and> rest_same s s' \<and>
    len \<le> int (length (content (m_q s'))) \<and> (\<exists>x. q_bfirst (que (m_q s')) = q_bfirst (que (m_q s)) @ x)"
  using assms
proof (induction rd s len rule: doread.induct)
  case (1 rd s len)
  have q: "qlen (m_q s) = int (length (content (m_q s)))" using length_content [OF "1.prems"(2)] by (simp add: qlen_def)
  show ?case
  proof (cases "qlen (m_q s) < len")
    case False
    then show ?thesis using "1.prems" q by (simp add: doread.simps [of rd s] rest_same_def)
  next
    case True
    have m: "macc (ids (q_bfirst (que (m_q s))) + H) (mem (m_q s))" by (rule qinvD(1) [OF "1.prems"(2)])
    have "strm (m_dev s) \<noteq> []" using "1.prems"(3) True q by (auto simp: todo_def)
    then obtain bs m' d' where r: "rd (m_dev s) (mem (m_q s)) (nat (m_msize s)) = (Inr bs, m', d')"
      and bs: "macc (ids bs + (ids (q_bfirst (que (m_q s))) + H)) m'" "blks_ok bs" "bdatas bs \<noteq> []"
      and st: "strm (m_dev s) = bdatas bs @ strm d'"
      using "1.prems"(1) m unfolding source_def by meson
    let ?s = "s\<lparr>m_q := (m_q s)\<lparr>mem := m'\<rparr>, m_dev := d'\<rparr>"
    have "length (bdatas bs) = blocklen bs" using bs(2) by simp
    then have "blocklen bs \<noteq> 0" using bs(3) by (metis length_0_conv)
    then have ne: "bs \<noteq> []" "blocklen bs \<noteq> 0" by auto
    have inv: "qinv False (ids bs + H) ((m_q s)\<lparr>mem := m'\<rparr>)"
      using qinvD [OF "1.prems"(2)] bs(1) by (intro qinvI) (simp_all add: ac_simps)
    note a = qaddlist_ok [OF inv ne(1) bs(2)]
    let ?u = "?s\<lparr>m_q := qaddlist (m_q ?s) bs\<rparr>"
    have td: "todo strm ?u = todo strm s" using a(2) st by (simp add: todo_def)
    have "\<exists>s'. doread rd ?u len = (s', Inr 0) \<and> qinv False H (m_q s') \<and> todo strm s' = todo strm ?u \<and> rest_same ?u s' \<and>
        len \<le> int (length (content (m_q s'))) \<and> (\<exists>x. q_bfirst (que (m_q s')) = q_bfirst (que (m_q ?u)) @ x)"
      by (rule "1.IH" [OF True r [symmetric] refl refl refl ne "1.prems"(1)]) (use a(1) td "1.prems"(3) in simp_all)
    moreover have "doread rd s len = doread rd ?u len" using True r ne by (simp add: doread.simps [of rd s])
    moreover have "q_bfirst (que (m_q ?u)) = q_bfirst (que (m_q s)) @ bs" using qappend_sel(1) [OF inv] ne(1) by (simp add: qaddlist_def)
    ultimately show ?thesis using td by (auto simp: rest_same_def)
  qed
qed

lemma hang_data_ok:
  assumes "qinv False H q" "q_bfirst (que q) \<noteq> []" "hlen \<le> BLEN (hd (q_bfirst (que q)))" "hlen \<le> len"
    "len \<le> length (content q)" "hang_data q hlen len = (q', bs)"
  shows "qinv False (ids bs + H) q' \<and> blks_ok bs \<and> bdatas bs = take (len - hlen) (drop hlen (content q)) \<and> content q' = drop len (content q)"
  using assms
proof (induction q hlen len arbitrary: H q' bs rule: hang_data.induct)
  case (1 q hlen len)
  define v where "v = fst (qremove q)"
  obtain b where v: "qremove q = (v, Some b)" "b = hd (q_bfirst (que q))"
    using "1.prems"(2) by (cases "q_bfirst (que q)") (auto simp: qremove_def v_def)
  note rm = qremove_ok [OF "1.prems"(1) v(1)]
  let ?b = "b\<lparr>b_rp := b_rp b + hlen\<rparr>"
  have hb: "hlen \<le> BLEN b" using "1.prems"(3) v(2) by simp
  have b: "blk_ok ?b" "BLEN ?b = BLEN b - hlen" "bdata ?b = drop hlen (bdata b)" using hb rm(2) by simp_all
  note run = "1.prems"(6) [unfolded hang_data.simps [of q] v(1) prod.case option.case Let_def]
  show ?case
  proof (cases "BLEN ?b \<le> len - hlen")
    case le: True
    show ?thesis
    proof (cases "0 < len - hlen - BLEN ?b")
      case True
      obtain bs' where h: "hang_data v 0 (len - hlen - BLEN ?b) = (q', bs')" "bs = ?b # bs'"
        using run le True by (auto split: prod.splits)
      have l: "len - hlen - BLEN ?b \<le> length (content v)" using "1.prems"(4,5) rm(2,3) b hb by simp
      then have ne: "q_bfirst (que v) \<noteq> []" using True by (auto simp: content_def)
      have "qinv False (ids bs' + add_mset (b_id b) H) q' \<and> blks_ok bs' \<and>
          bdatas bs' = take (len - hlen - BLEN ?b - 0) (drop 0 (content v)) \<and> content q' = drop (len - hlen - BLEN ?b) (content v)"
        by (rule "1.IH" [OF v(1) [symmetric] refl refl refl refl le True rm(1) ne _ _ l h(1)]) simp_all
      then show ?thesis using h(2) b rm(2,3) hb le "1.prems"(4) by (auto simp: take_drop)
    next
      case False
      then have "q' = v" "bs = [?b]" using run le by auto
      moreover have "len = BLEN b" using False le b hb "1.prems"(4) by auto
      ultimately show ?thesis using b rm hb by simp
    qed
  next
    case False
    then have lt: "len - hlen < length (bdata ?b)" using length_bdata [OF b(1)] b(2) by simp
    have lt': "len - hlen \<le> BLEN ?b" using False by simp
    obtain m nb where a': "allocb (mem v) (BLEN ?b - (len - hlen)) = (m, nb)" by fastforce
    then have a: "allocb (mem v) (length (bdata ?b) - (len - hlen)) = (m, nb)" using length_bdata [OF b(1)] by simp
    obtain nb' where nb': "bstore m nb (drop (len - hlen) (bdata ?b)) = (m, nb')" "qinv False (add_mset (b_id b) H) (qputback (v\<lparr>mem := m\<rparr>) nb')"
      "content (qputback (v\<lparr>mem := m\<rparr>) nb') = drop (len - hlen) (bdata ?b) @ content v"
      by (rule qbread_split [OF rm(1) lt a])
    have "q' = qputback (v\<lparr>mem := m\<rparr>) nb'" "bs = [?b\<lparr>b_wp := b_rp ?b + (len - hlen)\<rparr>]"
      using run by (simp_all only: False if_False a' nb'(1) prod.case prod.inject)
    moreover have "blk_ok (?b\<lparr>b_wp := b_rp ?b + (len - hlen)\<rparr>)" "bdata (?b\<lparr>b_wp := b_rp ?b + (len - hlen)\<rparr>) = take (len - hlen) (bdata ?b)"
      using cut_ok(1) [OF b(1) lt'] cut_data [OF lt'] by simp_all
    ultimately show ?thesis using nb' b rm(2,3) lt "1.prems"(4) by simp
  qed
qed

lemma memat_data:
  assumes "blk_ok b" "n \<le> BLEN b"
  shows "memat wild b n = take n (bdata b)"
proof (rule nth_equalityI)
  show "length (memat wild b n) = length (take n (bdata b))" using assms by (simp add: memat_def)
next
  fix i assume "i < length (memat wild b n)"
  then have "i < n" by (simp add: memat_def)
  then show "memat wild b n ! i = take n (bdata b) ! i"
    using assms by (auto simp: memat_def bdata_def BLEN_def blk_ok_def)
qed

lemma memat_longer: "n \<le> k \<Longrightarrow> \<exists>x. memat wild b k = memat wild b n @ x \<and> length x = k - n"
proof -
  assume "n \<le> k"
  then obtain d where d: "k = n + d" by (auto simp: le_iff_add)
  have "[0..<k] = [0..<n] @ [n..<k]" unfolding d by (rule upt_add_eq_append) simp
  then show ?thesis by (simp add: memat_def d)
qed

section \<open>A message\<close>

text \<open>Of an Rread message with its data, only the header is looked at.\<close>

lemma rread_data:
  assumes "convM2S (h @ y) g = Some (n, f)" "length h = 11" "h ! 4 = 117" "unat n = length (h @ y)" "length x = length y"
  shows "convM2S (h @ x) g = Some (n, f\<lparr>f_data := x\<rparr>)" "f_data f = y"
proof -
  from assms(1) obtain t tg p m r where ap: "h @ y = PBIT32 n @ [t] @ PBIT16 tg @ p" and m: "msgtype_of t = Some m"
    and b: "bodyM2S m p (g\<lparr>f_type := t, f_tag := tg\<rparr>) = Some (f, r)" and n: "unat n + length r = length p + 7" "7 \<le> unat n"
    by (rule convM2S_Some)
  have "(h @ y) ! 4 = t" unfolding ap by (simp add: nth_append)
  then have t: "t = 117" using assms(2,3) by (simp add: nth_append)
  then have rr: "m = Rread" using m by (simp add: msgtype_of_def)
  have lp: "length p + 7 = length (h @ y)" unfolding ap by simp
  then have r: "r = []" using n assms(4) by simp
  from b obtain c p' where c: "rd32 p = Some (c, p')" and d: "rdbytes (unat c) p' = Some (f_data f, r)"
    and f: "f = g\<lparr>f_type := t, f_tag := tg, f_count := c, f_data := f_data f\<rparr>"
    by (auto simp: rr Option.bind_eq_Some_conv)
  have p: "p = PBIT32 c @ p'" using rd_PBIT(2) [OF c] .
  have p': "p' = f_data f" "unat c = length p'" using d r by (auto simp: rdbytes_def split: if_splits)
  have "h @ y = (PBIT32 n @ [t] @ PBIT16 tg @ PBIT32 c) @ p'" unfolding ap p by simp
  then have h: "h = PBIT32 n @ [t] @ PBIT16 tg @ PBIT32 c" and y: "y = p'"
    using append_eq_append_conv [of h "PBIT32 n @ [t] @ PBIT16 tg @ PBIT32 c" y p'] assms(2) by simp_all
  show "f_data f = y" using p' y by simp
  have "bodyM2S Rread (PBIT32 c @ x) (g\<lparr>f_type := t, f_tag := tg\<rparr>) = Some (f\<lparr>f_data := x\<rparr>, [])"
    using p'(2) y assms(5) by (subst f) (simp add: rd32_PBIT32 rdbytes_def)
  then have "convM2S (PBIT32 n @ [t] @ PBIT16 tg @ (PBIT32 c @ x)) g = Some (n, f\<lparr>f_data := x\<rparr>)"
    by (rule convM2S_message [OF m [unfolded rr]]) (use n assms(4,5) h y in simp_all)
  then show "convM2S (h @ x) g = Some (n, f\<lparr>f_data := x\<rparr>)" unfolding h by simp
qed

text \<open>After the header is in one block: the message and its data.\<close>

lemma read_body_ok:
  assumes "qinv False H (m_q s)" "content (m_q s) = bs @ rest" "convM2S bs (r_reply s) = Some (n, f)" "unat n = length bs"
    "7 \<le> BLEN (hd (q_bfirst (que (m_q s))))" "q_bfirst (que (m_q s)) \<noteq> []" "read_body wild s (int (length bs)) = (s', k)"
  shows "k = 0 \<and> qinv False (ids (r_b s') + H) (m_q s') \<and> content (m_q s') = rest \<and> m_dev s' = m_dev s \<and>
    (r_reply s')\<lparr>f_data := f_data f\<rparr> = f \<and> bdatas (r_b s') = (if f_type f = 117 then f_data f else [])"
proof -
  obtain nb nxt where nb: "q_bfirst (que (m_q s)) = nb # nxt" using assms(6) by (cases "q_bfirst (que (m_q s))") auto
  note q = qinvD [OF assms(1)]
  obtain t tg p m r where ap: "bs = PBIT32 n @ [t] @ PBIT16 tg @ p" and m: "msgtype_of t = Some m"
    and b: "bodyM2S m p ((r_reply s)\<lparr>f_type := t, f_tag := tg\<rparr>) = Some (f, r)" and l7: "7 \<le> unat n"
    and ln: "unat n + length r = length p + 7"
    using assms(3) by (rule convM2S_Some)
  have ft: "f_type f = t" using bodyM2S_header [OF b] by simp
  have five: "take 5 (bdata nb) = take 5 bs"
  proof -
    have "bdata nb @ bdatas nxt = bs @ rest" using assms(2) nb by (simp add: content_def)
    then have "take 5 (bdata nb @ bdatas nxt) = take 5 (bs @ rest)" by simp
    then show ?thesis using assms(5) nb q(2) l7 assms(4) by simp
  qed
  have t4: "memat wild nb 5 ! 4 = t"
    using memat_data [of nb 5] assms(5) nb q(2) five by (simp add: ap nth_append PBIT32_def)
  have r0: "r = []" using ln assms(4) by (simp add: ap)
  define hlen where "hlen = (if t = 117 then 11 else length bs)"
  have hi: "(if t = 117 then int Min9pmsg + 4 else int (length bs)) = int hlen" by (simp add: hlen_def Min9pmsg_def)
  have h4: "4 \<le> length p" if "t = 117"
  proof -
    have "m = Rread" using m that by (simp add: msgtype_of_def)
    then obtain c p' where "rd32 p = Some (c, p')" using b by (auto simp: Option.bind_eq_Some_conv)
    then show ?thesis by (auto dest: rd_PBIT(2))
  qed
  have hle: "hlen \<le> length bs" "hlen \<noteq> 0" using h4 by (auto simp: hlen_def ap)
  let ?u = "s\<lparr>m_q := pullupqueue (m_q s) hlen\<rparr>"
  have "hlen \<le> length (content (m_q s))" using hle(1) assms(2) by simp
  then have "hlen \<le> blocklen (q_bfirst (que (m_q s)))" using q(2) by (simp add: content_def)
  from pullupqueue_ok [OF assms(1) this assms(6)]
  have u: "qinv False H (m_q ?u)" "content (m_q ?u) = bs @ rest" "q_bfirst (que (m_q ?u)) \<noteq> []" "hlen \<le> BLEN (hd (q_bfirst (que (m_q ?u))))"
    using assms(2) by simp_all
  obtain c cs where c: "q_bfirst (que (m_q ?u)) = c # cs" using u(3) by (cases "q_bfirst (que (m_q ?u))") auto
  have cok: "blk_ok c" "hlen \<le> BLEN c" using qinvD(2) [OF u(1)] u(4) c by simp_all
  have cd: "take hlen (bdata c) = take hlen bs"
  proof -
    have "bdata c @ bdatas cs = bs @ rest" using u(2) c by (simp add: content_def)
    then have "take hlen (bdata c @ bdatas cs) = take hlen (bs @ rest)" by simp
    then show ?thesis using cok hle(1) by simp
  qed
  obtain x where x: "memat wild c (length bs) = memat wild c hlen @ x" "length x = length bs - hlen"
    using memat_longer [OF hle(1)] by blast
  then have mb: "memat wild c (length bs) = take hlen bs @ x" using memat_data [OF cok] cd by simp
  have conv: "\<exists>f'. convM2S (memat wild c (length bs)) (r_reply ?u) = Some (n, f') \<and> f'\<lparr>f_data := f_data f\<rparr> = f \<and>
    drop hlen bs = (if f_type f = 117 then f_data f else [])"
  proof (cases "t = 117")
    case True
    then have h: "hlen = 11" by (simp add: hlen_def)
    have "convM2S (take hlen bs @ drop hlen bs) (r_reply s) = Some (n, f)" using assms(3) by simp
    moreover have "take hlen bs ! 4 = 117" using True by (simp add: h ap nth_append PBIT32_def)
    moreover have "length (take hlen bs) = 11" using hle(1) h by simp
    ultimately have "convM2S (take hlen bs @ x) (r_reply s) = Some (n, f\<lparr>f_data := x\<rparr>)" "f_data f = drop hlen bs"
      using rread_data [of "take hlen bs" "drop hlen bs" "r_reply s" n f x] x(2) assms(4) by simp_all
    then show ?thesis using mb ft True by simp
  next
    case False
    then have "hlen = length bs" by (simp add: hlen_def)
    then show ?thesis using mb x(2) assms(3) ft False by simp
  qed
  then obtain f' where f': "convM2S (memat wild c (length bs)) (r_reply ?u) = Some (n, f')" "f'\<lparr>f_data := f_data f\<rparr> = f"
    "drop hlen bs = (if f_type f = 117 then f_data f else [])" by blast
  obtain q' hb where hb: "hang_data (m_q ?u) hlen (length bs) = (q', hb)" by fastforce
  from hang_data_ok [OF u(1,3,4) hle(1) _ hb] u(2)
  have hd: "qinv False (ids hb + H) q'" "bdatas hb = drop hlen bs" "content q' = rest" using hle(1) by simp_all
  have "(s', k) = (?u\<lparr>m_q := q', r_reply := f', r_b := hb\<rparr>, 0)"
    using assms(7) nb t4 hi hle(1) c f'(1) hb by (simp add: read_body_def Let_def)
  then show ?thesis using hd f'(2,3) by simp
qed

lemma read_body_frame: "read_body wild s len = (s', k) \<Longrightarrow> m_msize s' = m_msize s"
  by (auto simp: read_body_def discard_in_def Let_def split: list.splits if_splits option.splits prod.splits)

lemma pullup_todo:
  assumes "qinv False H (m_q s)" "0 < n" "int n \<le> int (length (content (m_q s)))"
  shows "qinv False H (pullupqueue (m_q s) n) \<and> content (pullupqueue (m_q s) n) = content (m_q s) \<and>
    q_bfirst (que (pullupqueue (m_q s) n)) \<noteq> [] \<and> n \<le> BLEN (hd (q_bfirst (que (pullupqueue (m_q s) n))))"
proof -
  have "n \<le> blocklen (q_bfirst (que (m_q s)))" using assms(3) qinvD(2) [OF assms(1)] by (simp add: content_def)
  moreover have "q_bfirst (que (m_q s)) \<noteq> []" using assms(2,3) by (auto simp: content_def)
  ultimately show ?thesis using pullupqueue_ok [OF assms(1)] by blast
qed

lemma drop_reply_ok:
  assumes "qinv False (ids (r_b s) + H) (m_q s)"
  shows "qinv False H (m_q (drop_reply s))" "todo strm (drop_reply s) = todo strm s"
  using qinv_freeall [OF assms] by (simp_all add: drop_reply_def todo_def)

text \<open>
  C9. The mount driver cuts the stream of bytes of a 9P connection into messages exactly, however the device below spreads the bytes
  over blocks: if what is queued and still to come begins with a message \<open>bs\<close> that \<open>convM2S\<close> accepts and that is no longer than
  \<open>msize\<close>, then \<open>mntrpcread\<close> succeeds with the decoded message (the data of an Rread are hung off it as blocks, no other message
  leaves bytes there), what follows the message is left to be read, and no block is lost, freed twice or stored outside of.
\<close>

theorem mntrpcread_frames:
  assumes "source rd strm" "qinv False (ids (r_b s) + H) (m_q s)" "m_msize s < 2 ^ 31"
    and "todo strm s = bs @ rest" "convM2S bs ((r_reply s)\<lparr>f_type := 0, f_tag := 0\<rparr>) = Some (n, f)"
    and "unat n = length bs" "int (length bs) \<le> m_msize s"
  shows "\<exists>s'. mntrpcread rd wild s = (s', Inr 0) \<and> todo strm s' = rest \<and> (r_reply s')\<lparr>f_data := f_data f\<rparr> = f \<and>
    bdatas (r_b s') = (if f_type f = 117 then f_data f else []) \<and> qinv False (ids (r_b s') + H) (m_q s') \<and> m_msize s' = m_msize s"
proof -
  obtain t tg p m r where ap: "bs = PBIT32 n @ [t] @ PBIT16 tg @ p" and l7: "7 \<le> unat n" using assms(5) by (rule convM2S_Some)
  let ?a = "drop_reply s"
  note a = drop_reply_ok [OF assms(2)]
  have "int Min9pmsg \<le> int (length (todo strm ?a))" using a(2) assms(4,6) l7 by (simp add: Min9pmsg_def)
  from doread_ok [OF assms(1) a(1) this] obtain b where b: "doread rd ?a (int Min9pmsg) = (b, Inr 0)" "qinv False H (m_q b)"
    "todo strm b = bs @ rest" "rest_same ?a b" "int Min9pmsg \<le> int (length (content (m_q b)))"
    using a(2) assms(4) by auto
  let ?c = "b\<lparr>m_q := pullupqueue (m_q b) Min9pmsg\<rparr>"
  have c: "qinv False H (m_q ?c)" "content (m_q ?c) = content (m_q b)" "q_bfirst (que (m_q ?c)) \<noteq> []"
    "Min9pmsg \<le> BLEN (hd (q_bfirst (que (m_q ?c))))"
    using pullup_todo [OF b(2) _ b(5)] by (simp_all add: Min9pmsg_def)
  obtain nb nxt where nb: "q_bfirst (que (m_q ?c)) = nb # nxt" using c(3) by (cases "q_bfirst (que (m_q ?c))") auto
  have nbok: "blk_ok nb" "7 \<le> BLEN nb" using qinvD(2) [OF c(1)] c(4) nb by (simp_all add: Min9pmsg_def)
  have tc: "todo strm ?c = bs @ rest" using b(3) c(2) by (simp add: todo_def)
  have g: "GBIT32 (drop (b_rp nb) (b_buf nb)) = Some n"
  proof -
    have "bdata nb @ bdatas nxt @ strm (m_dev ?c) = bs @ rest" using tc nb by (simp add: todo_def content_def)
    then have "take 4 (bdata nb @ bdatas nxt @ strm (m_dev ?c)) = take 4 (bs @ rest)" by simp
    then have "take 4 (bdata nb) = PBIT32 n" using nbok by (simp add: ap)
    moreover have "take 4 (bdata nb) = take 4 (drop (b_rp nb) (b_buf nb))" using nbok by (simp add: bdata_def)
    ultimately have "drop (b_rp nb) (b_buf nb) = PBIT32 n @ drop 4 (drop (b_rp nb) (b_buf nb))" by (metis append_take_drop_id)
    then show ?thesis using GBIT32_PBIT32 by metis
  qed
  have fs: "r_reply ?c = (r_reply s)\<lparr>f_type := 0, f_tag := 0\<rparr>" "m_msize ?c = m_msize s"
    using b(4) by (simp_all add: rest_same_def drop_reply_def)
  have "int (length bs) < 2147483648" using assms(3,7) by simp
  then have small: "unat n < 2147483648" using assms(6) by simp
  moreover have "uint n = int (length bs)" using assms(6) by (metis uint_nat)
  ultimately have sn: "sint n = int (length bs)" using assms(6) by (simp add: sint_uint signed_take_bit_int_eq_self)
  have "int (length bs) \<le> int (length (todo strm ?c))" using tc by simp
  from doread_ok [OF assms(1) c(1) this] obtain d x where d: "doread rd ?c (int (length bs)) = (d, Inr 0)" "qinv False H (m_q d)"
    "todo strm d = todo strm ?c" "rest_same ?c d" "int (length bs) \<le> int (length (content (m_q d)))"
    "q_bfirst (que (m_q d)) = q_bfirst (que (m_q ?c)) @ x" by blast
  have hd: "7 \<le> BLEN (hd (q_bfirst (que (m_q d))))" "q_bfirst (que (m_q d)) \<noteq> []" using nbok(2) d(6) nb by simp_all
  define r1 where "r1 = drop (length bs) (content (m_q d))"
  have td: "content (m_q d) @ strm (m_dev d) = bs @ rest" using d(3) tc by (simp add: todo_def)
  have cd: "content (m_q d) = bs @ r1" and rest: "r1 @ strm (m_dev d) = rest"
  proof -
    have l: "length bs \<le> length (content (m_q d))" using d(5) by simp
    have "take (length bs) (content (m_q d) @ strm (m_dev d)) = take (length bs) (bs @ rest)" by (simp only: td)
    then have "take (length bs) (content (m_q d)) = bs" using l by simp
    then show "content (m_q d) = bs @ r1" unfolding r1_def by (metis append_take_drop_id)
    then show "r1 @ strm (m_dev d) = rest" using td by simp
  qed
  have rp: "r_reply d = (r_reply s)\<lparr>f_type := 0, f_tag := 0\<rparr>" "m_msize d = m_msize s" using d(4) fs by (simp_all add: rest_same_def)
  obtain e k where e: "read_body wild d (int (length bs)) = (e, k)" by fastforce
  have body: "k = 0 \<and> qinv False (ids (r_b e) + H) (m_q e) \<and> content (m_q e) = r1 \<and> m_dev e = m_dev d \<and>
      (r_reply e)\<lparr>f_data := f_data f\<rparr> = f \<and> bdatas (r_b e) = (if f_type f = 117 then f_data f else [])"
    by (rule read_body_ok [OF d(2) cd _ assms(6) hd e]) (use assms(5) rp in simp)
  have "\<not> (int (length bs) < int Min9pmsg \<or> m_msize ?c < int (length bs))" using l7 assms(6,7) fs by (simp add: Min9pmsg_def)
  then have "mntrpcread rd wild s = (e, Inr 0)"
    using b(1) nb g sn d(1) e body by (simp add: mntrpcread_def Let_def)
  moreover have "m_msize e = m_msize s" using read_body_frame [OF e] rp by simp
  ultimately show ?thesis using body rest by (auto simp: todo_def)
qed

text \<open>A device that gives one block for each string of a list, and an Rread of three bytes that comes in four pieces.\<close>

definition chunk_read :: "bytes list breader" where
  "chunk_read ds m n =
     (case filter (\<lambda>c. c \<noteq> []) ds of
        [] \<Rightarrow> (Inr [], m, [])
      | c # cs \<Rightarrow> (let (m, b) = allocb m (length c); (m, b) = bstore m b c in (Inr [b], m, cs)))"

lemma concat_nonempty: "concat (filter (\<lambda>c. c \<noteq> []) ds) = concat ds"
  by (induction ds) auto

lemma chunk_source: "source chunk_read concat"
  unfolding source_def
proof (intro allI impI)
  fix d :: "bytes list" and m n H assume m: "macc H m" and ne: "concat d \<noteq> []"
  have cf: "concat (filter (\<lambda>c. c \<noteq> []) d) = concat d" by (rule concat_nonempty)
  then obtain c cs where c: "filter (\<lambda>c. c \<noteq> []) d = c # cs" using ne by (cases "filter (\<lambda>c. c \<noteq> []) d") auto
  then have "c \<in> set (filter (\<lambda>c. c \<noteq> []) d)" by simp
  then have cne: "c \<noteq> []" by simp
  obtain m1 b where a: "allocb m (length c) = (m1, b)" by fastforce
  note new = allocb_new [OF a]
  have "blk_ok b" "length c \<le> room b" using new by auto
  then obtain b' where b': "bstore m1 b c = (m1, b')" "blk_ok b'" "bdata b' = bdata b @ c" "b_id b' = b_id b"
    by (rule bstore_ok)
  have "chunk_read d m n = (Inr [b'], m1, cs)" using c a b'(1) by (simp add: chunk_read_def)
  moreover have "concat d = c @ concat cs" using cf c by simp
  ultimately show "\<exists>bs m' d'. chunk_read d m n = (Inr bs, m', d') \<and> macc (ids bs + H) m' \<and> blks_ok bs \<and> bdatas bs \<noteq> [] \<and>
      concat d = bdatas bs @ concat d'"
    using macc_alloc [OF m a] b' new cne by (intro exI [of _ "[b']"] exI [of _ m1] exI [of _ cs]) simp
qed

definition bmem0 :: bmem where "bmem0 = \<lparr>bfresh = 0, bfreed = [], bfault = False, nomem = False\<rparr>"

lemma bmem0_ok: "macc {#} bmem0"
  by (simp add: macc_def bmem0_def)

definition ex_conn :: "bytes list mst" where
  "ex_conn =
     \<lparr>m_q = qopen bmem0 65536 {} False, m_msize = 8216,
      m_dev = [[14, 0, 0], [0, 117, 5, 0, 3, 0], [0, 0, 10, 20], [30, 9]], r_reply = fcall0, r_b = []\<rparr>"

lemma ex_rread:
  "convM2S [14, 0, 0, 0, 117, 5, 0, 3, 0, 0, 0, 10, 20, 30] ((r_reply ex_conn)\<lparr>f_type := 0, f_tag := 0\<rparr>) =
     Some (14, fcall0\<lparr>f_type := 117, f_tag := 5, f_count := 3, f_data := [10, 20, 30]\<rparr>)"
  by code_simp

lemma ex_conn_ok: "qinv False (ids (r_b ex_conn) + {#}) (m_q ex_conn)"
  using qopen_ok [OF bmem0_ok] by (simp add: ex_conn_def)

theorem mntrpcread_frames_witness:
  "\<exists>s'. mntrpcread chunk_read 0 ex_conn = (s', Inr 0) \<and> todo concat s' = [9] \<and> bdatas (r_b s') = [10, 20, 30]"
proof -
  have "todo concat ex_conn = [14, 0, 0, 0, 117, 5, 0, 3, 0, 0, 0, 10, 20, 30] @ [9]"
    by (simp add: todo_def ex_conn_def qopen_def content_def)
  from mntrpcread_frames [OF chunk_source ex_conn_ok _ this ex_rread] show ?thesis
    by (auto simp: ex_conn_def)
qed

end
