(* ===== verification/Spec2Isabelle.thy ===== *)
theory Spec2Isabelle
  imports Stat9P PathProps Namec WalkProps LocksProps MountProps NamecProps CodecProps Numbers NamecAcc SysProps DisStringProps QioProps Mntread
begin

text \<open>
  A verification library for the file service of the Inferno emulator: the path from the bytes of a 9P message to the
  channel a system call works on. All paths below are under src/.

  \<^bold>\<open>The program.\<close> Every resource of an Inferno system is a file in a name space of its process. The emulator's kernel
  (emu/port) keeps a name space as a mount table in a process group (\<open>Pgrp\<close>, pgrp.c), an open or walked-to file as a
  channel (\<open>Chan\<close>, chan.c), and the files a process has open as a table of descriptors (\<open>Fgrp\<close>). A system call (sysfile.c)
  turns a descriptor or a name into a channel (\<open>fdtochan\<close>, \<open>namec\<close>), which walks the name element by element through the mount
  table (\<open>walk\<close>, \<open>findmount\<close>, \<open>undomount\<close>), and asks the device behind the channel to do the work. Devices speak 9P when they
  are remote; its messages and directory entries are coded by lib9, and the mount driver (devmnt.c) cuts them out of the blocks of bytes
  that a connection delivers. Such blocks, and the queues through which readers, writers and interrupts pass them on, are in qio.c. Channels, names and mount heads are shared and counted
  by hand; queueing locks and reader-writer locks (lock.c) protect the tables.

  \<^bold>\<open>The theories\<close>, from the leaves up.

  \<^item> Prelude: C integer types, little-endian bytes (include/fcall.h), C strings, generic lemmas (\<open>bytes_simps\<close>).
  \<^item> Wire9P: lib9/convS2M.c and convM2S.c. \<open>convS2M\<close> and \<open>convM2S\<close> for every type of message, \<open>sizeS2M\<close> with its 32-bit sum.
  \<^item> Stat9P: lib9/convD2M.c and convM2D.c: the directory entry, its check \<open>statcheck\<close> and its two directions.
  \<^item> Utf: lib9/rune.c, utflen.c, utfnlen.c, utfrune.c, utfrrune.c, utfecpy.c, strecpy.c, runestrlen.c.
  \<^item> Codecs, CodecProps: lib9/u16.c, u32.c, u64.c; Numbers: lib9/strtoll.c, strtoull.c.
  \<^item> Paths, PathProps: lib9/cleanname.c on its buffer, and the name routines of emu/port/chan.c.
  \<^item> Chan: emu/port/chan.c, dat.h, dev.c. The state \<open>kst\<close>: lists of \<open>Chan\<close>, \<open>Cname\<close>, \<open>Mhead\<close>, \<open>Pgrp\<close> and \<open>Fgrp\<close> objects, a pointer
    being an index; allocation, cloning, and \<open>release\<close>, the joint run of \<open>cclose\<close>, \<open>chanfree\<close>, \<open>cnameclose\<close> and \<open>putmhead\<close>.
  \<^item> Namespace: emu/port/pgrp.c and \<open>cmount\<close>, \<open>cunmount\<close>, \<open>findmount\<close>, \<open>domount\<close> of chan.c.
  \<^item> Walk: \<open>walk\<close> and \<open>undomount\<close> of chan.c; Namec: \<open>namec\<close> for every access mode, with its error handler.
  \<^item> Sysfile: emu/port/sysfile.c, one definition for each system call, and the parts they share.
  \<^item> Locks: emu/port/lock.c as a step relation of any number of processes.
  \<^item> Blocks: the chains of data blocks of emu/port/qio.c, on a memory \<open>bmem\<close> that tells the blocks held from those freed; Qio: its queues,
    one definition for each function, with the wake-ups it gives; Mntread: \<open>doread\<close> and \<open>mntrpcread\<close> of emu/port/devmnt.c.
  \<^item> DisString: libinterp/string.c, the reference-counted strings of the Dis virtual machine and its string instructions, on a
    heap of string objects (\<open>movp\<close>, \<open>destroy\<close>, \<open>insc\<close>, \<open>slicec\<close>, \<open>addc\<close>, comparison and conversion).

  \<^bold>\<open>What the lemmas show.\<close>

  \<^item> RefCount, RefOps: \<open>counted s H\<close>, every reference count is the number of holders, in the store and outside it (\<open>H\<close>), and
    nothing freed is held. Each operation has a rule that tells which references it takes and gives; the counters of the three
    kinds of object are interpretations of one locale. A \<open>fault\<close> (a use of freed memory or a wild pointer) never occurs.
  \<^item> WalkRoot, WalkProps: the place a channel was reached from, its origin, and that walks without dots stay below it.
  \<^item> Mounts, MountProps: the mount table as a map from places to unions, which \<open>cmount\<close> and \<open>cunmount\<close> update.
  \<^item> NamecAcc, NamecProps: \<open>namec\<close> balances its references in every mode and on every error; read-only mounts stay so.
  \<^item> FdTable, SysInv, SysProps: the descriptor table as a map; the invariant \<open>kern\<close> of the kernel, and that every
    sequence of system calls keeps it; seeking and the offsets of files.
  \<^item> DisStringProps: the string instructions, which share and update objects in place, simulate a machine whose registers hold
    strings as values; where the allocation of an empty string is too small for a later insertion.
  \<^item> QioInv, QioOps, BlockProps: the invariant \<open>qinv\<close> of a queue and its blocks, and for each operation what it does to the bytes; QioRuns,
    QioProps: runs of any operations by readers, writers and interrupts, which account for every block and keep the bytes in order (the
    locales \<open>keeps\<close> and \<open>fifo\<close>), messages, hangups. QioSleep, QioLive: who sleeps on a queue has been woken or has nothing to do.
  \<^item> Mntread: the reader of the mount driver cuts the stream of bytes into its messages, however it is spread over blocks.
  \<^item> LocksInv, LocksProps: the invariant of the locks, exclusion, order, no lost wake-up, and termination.

  \<^bold>\<open>Conventions.\<close> C integers are words where they can wrap (\<open>u8\<close> to \<open>u64\<close>), and integers with the wrap-around written out
  for file offsets. An error raised by \<open>error()\<close> is the left part of a sum (\<open>'a res\<close>), with the state the handlers leave.
  Devices are records of functions (\<open>devops\<close>, \<open>iops\<close>) and may answer anything. No definition has a
  fuel (an operation that sleeps ends there, as the value \<open>Asleep\<close>, and is run again): loops are structural recursions, or recursive functions with a termination proof, such as \<open>release\<close>, where every
  step either takes a reference away or ends a call, and \<open>walk_loop\<close>, where every step takes a path element.

  \<^bold>\<open>Not modelled.\<close> The devices themselves (emu/port/dev*.c), with the 9P client devmnt.c apart from its reader of messages, and the calls \<open>kpipe\<close>, \<open>kmount\<close>,
  \<open>kfauth\<close> and \<open>kfversion\<close>, which work on files of particular devices; exportfs.c; processes (proc.c: a sleep on a queue ends an operation, a wake-up is an
  event); the memory allocator (allocation is taken to succeed, except for \<open>iallocb\<close>); interleavings of system calls: each runs to its end here, while the locks that
  make this so are modelled on their own. The Dis virtual machine apart from its strings (with the
  string conversions \<open>cvtcw\<close>, \<open>cvtwc\<close>, \<open>cvtlc\<close>, \<open>cvtcf\<close> and \<open>cvtfc\<close>), its compilers, the Limbo compiler, graphics, Tk,
  cryptography, formatted printing and the host-dependent code are outside this library.
\<close>

end
